(* ===== verification/Abc_Prelude.thy ===== *)
theory Abc_Prelude
  imports Main "HOL-Library.Word"
begin

text \<open>
  Shared base of the development: the machine word of the code, the loops of the code as folds
  over index lists, and the facts about single bits of indices and words that every truth table
  component uses.

  A C loop that walks over an array becomes one of five combinators. Each runs the iterations in
  the order of the source; \<open>for_words\<close> and \<open>for_pairs\<close> write the array in place, so an iteration
  reads what earlier iterations wrote. Their characteristic lemmas say what the array holds
  afterwards; no proof of a component unfolds a loop again.
\<close>

unbundle bit_operations_syntax

type_synonym u32 = "32 word"

named_theorems mask_bits \<open>bits of the constant masks of the truth table code\<close>
named_theorems shift_bits \<open>bits of a masked word shifted by a power of two\<close>
named_theorems word_bits \<open>single bits of the word operators of the code\<close>
named_theorems tt_bits \<open>what a truth table operator does to a single minterm\<close>
named_theorems loop_nth \<open>contents of an array after a loop\<close>

section \<open>Loops\<close>

text \<open>\<open>for (i = 0; i < n; i++) t[i] = g(i, t[i]);\<close>\<close>

definition for_words :: "nat \<Rightarrow> (nat \<Rightarrow> 'a \<Rightarrow> 'a) \<Rightarrow> 'a list \<Rightarrow> 'a list" where
  "for_words n g t = fold (\<lambda>i t. t[i := g i (t ! i)]) [0..<n] t"

text \<open>\<open>for (i = n-1; i >= 0; i--) t[i] = g(i, t[i]);\<close>\<close>

definition for_words_down :: "nat \<Rightarrow> (nat \<Rightarrow> 'a \<Rightarrow> 'a) \<Rightarrow> 'a list \<Rightarrow> 'a list" where
  "for_words_down n g t = fold (\<lambda>i t. t[i := g i (t ! i)]) (rev [0..<n]) t"

text \<open>The values of \<open>k\<close> in \<open>for (k = 0; k < n; k += s)\<close>, with \<open>s > 0\<close>.\<close>

definition steps :: "nat \<Rightarrow> nat \<Rightarrow> nat list" where
  "steps n s = map (\<lambda>j. j * s) [0..<(n + s - 1) div s]"

text \<open>
  The two nested loops of the code over pairs of words at distance \<open>Step\<close>:
  \<^verbatim>\<open>for ( k = 0; k < nWords; k += 2*Step, p += 2*Step )
      for ( i = 0; i < Step; i++ )
          (p[i], p[Step+i]) = g(p[i], p[Step+i]);\<close>
  \<open>g\<close> gets the absolute positions of the two words and their current contents.
\<close>

definition pair_list :: "nat \<Rightarrow> nat \<Rightarrow> (nat \<times> nat) list" where
  "pair_list n s = concat (map (\<lambda>k. map (\<lambda>i. (k + i, k + s + i)) [0..<s]) (steps n (2 * s)))"

definition for_pairs :: "nat \<Rightarrow> nat \<Rightarrow> (nat \<Rightarrow> nat \<Rightarrow> 'a \<Rightarrow> 'a \<Rightarrow> 'a \<times> 'a) \<Rightarrow> 'a list \<Rightarrow> 'a list" where
  "for_pairs n s g t =
     fold (\<lambda>(lo, hi) t. let (x, y) = g lo hi (t ! lo) (t ! hi) in t[lo := x, hi := y])
       (pair_list n s) t"

text \<open>Loops that return at the first hit, and loops that add up.\<close>

definition any_words :: "nat \<Rightarrow> (nat \<Rightarrow> bool) \<Rightarrow> bool" where
  "any_words n P = list_ex P [0..<n]"

definition any_pairs :: "nat \<Rightarrow> nat \<Rightarrow> (nat \<Rightarrow> nat \<Rightarrow> bool) \<Rightarrow> bool" where
  "any_pairs n s P = list_ex (\<lambda>(lo, hi). P lo hi) (pair_list n s)"

definition sum_words :: "nat \<Rightarrow> (nat \<Rightarrow> nat) \<Rightarrow> nat" where
  "sum_words n g = fold (\<lambda>i c. c + g i) [0..<n] 0"

definition sum_pairs :: "nat \<Rightarrow> nat \<Rightarrow> (nat \<Rightarrow> nat \<Rightarrow> nat) \<Rightarrow> nat" where
  "sum_pairs n s g = fold (\<lambda>(lo, hi) c. c + g lo hi) (pair_list n s) 0"

subsection \<open>Loops whose iterations have disjoint footprints\<close>

text \<open>
  If iteration \<open>i\<close> only reads and writes the positions \<open>A i\<close>, and the footprints of different
  iterations are disjoint, then the loop leaves at a position of \<open>A i\<close> what iteration \<open>i\<close> alone
  would have written there.
\<close>

lemma fold_footprint:
  fixes f :: "'i \<Rightarrow> 'a list \<Rightarrow> 'a list"
  assumes "distinct is"
    and len: "\<And>i t. i \<in> set is \<Longrightarrow> length (f i t) = length t"
    and frame: "\<And>i t j. i \<in> set is \<Longrightarrow> j \<notin> A i \<Longrightarrow> f i t ! j = t ! j"
    and loc: "\<And>i t t' j. i \<in> set is \<Longrightarrow> j \<in> A i \<Longrightarrow> length t = length t' \<Longrightarrow>
                (\<forall>j \<in> A i. t ! j = t' ! j) \<Longrightarrow> f i t ! j = f i t' ! j"
    and disj: "\<And>i i'. i \<in> set is \<Longrightarrow> i' \<in> set is \<Longrightarrow> i \<noteq> i' \<Longrightarrow> A i \<inter> A i' = {}"
  shows "length (fold f is xs) = length xs
    \<and> (\<forall>i \<in> set is. \<forall>j \<in> A i. fold f is xs ! j = f i xs ! j)
    \<and> (\<forall>j. (\<forall>i \<in> set is. j \<notin> A i) \<longrightarrow> fold f is xs ! j = xs ! j)"
  using assms
proof (induction "is" arbitrary: xs)
  case Nil
  show ?case by simp
next
  case (Cons i0 is')
  have tail: "length (fold f is' (f i0 xs)) = length (f i0 xs)
    \<and> (\<forall>i \<in> set is'. \<forall>j \<in> A i. fold f is' (f i0 xs) ! j = f i (f i0 xs) ! j)
    \<and> (\<forall>j. (\<forall>i \<in> set is'. j \<notin> A i) \<longrightarrow> fold f is' (f i0 xs) ! j = f i0 xs ! j)"
  proof (rule Cons.IH)
    show "distinct is'" using Cons.prems(1) by simp
  next
    fix i and t :: "'a list" assume "i \<in> set is'"
    then show "length (f i t) = length t" using Cons.prems(2) by simp
  next
    fix i and t :: "'a list" and j assume "i \<in> set is'" "j \<notin> A i"
    then show "f i t ! j = t ! j" using Cons.prems(3) by simp
  next
    fix i and t t' :: "'a list" and j
    assume "i \<in> set is'" "j \<in> A i" "length t = length t'" "\<forall>j \<in> A i. t ! j = t' ! j"
    then show "f i t ! j = f i t' ! j" by (intro Cons.prems(4)) simp_all
  next
    fix i i' assume "i \<in> set is'" "i' \<in> set is'" "i \<noteq> i'"
    then show "A i \<inter> A i' = {}" using Cons.prems(5) by simp
  qed
  have len0: "length (f i0 xs) = length xs" using Cons.prems(2) by simp
  have head: "fold f (i0 # is') xs ! j = f i0 xs ! j" if "j \<in> A i0" for j
  proof -
    have "\<forall>i \<in> set is'. j \<notin> A i"
    proof
      fix i assume i: "i \<in> set is'"
      then have "i \<noteq> i0" using Cons.prems(1) by auto
      then have "A i \<inter> A i0 = {}" by (intro Cons.prems(5)) (use i in auto)
      then show "j \<notin> A i" using that by auto
    qed
    then show ?thesis using tail by simp
  qed
  have rest: "fold f (i0 # is') xs ! j = f i xs ! j" if i: "i \<in> set is'" and j: "j \<in> A i" for i j
  proof -
    have "i \<noteq> i0" using i Cons.prems(1) by auto
    then have dj: "A i \<inter> A i0 = {}" by (intro Cons.prems(5)) (use i in auto)
    have "f i (f i0 xs) ! j = f i xs ! j"
    proof (rule Cons.prems(4))
      show "\<forall>j \<in> A i. f i0 xs ! j = xs ! j" using dj Cons.prems(3) by auto
    qed (use i j len0 in auto)
    then show ?thesis using tail i j by simp
  qed
  show ?case
    using tail len0 head rest Cons.prems(3) by simp
qed

lemma fold_elem_update:
  assumes "distinct ks"
  shows "length (fold (\<lambda>i t. t[i := g i (t ! i)]) ks xs) = length xs
    \<and> (j < length xs \<longrightarrow> fold (\<lambda>i t. t[i := g i (t ! i)]) ks xs ! j =
        (if j \<in> set ks then g j (xs ! j) else xs ! j))"
proof -
  let ?f = "\<lambda>i t. t[i := g i (t ! i)]"
  have "length (fold ?f ks xs) = length xs
    \<and> (\<forall>i \<in> set ks. \<forall>j \<in> {i}. fold ?f ks xs ! j = ?f i xs ! j)
    \<and> (\<forall>j. (\<forall>i \<in> set ks. j \<notin> {i}) \<longrightarrow> fold ?f ks xs ! j = xs ! j)"
  proof (rule fold_footprint [OF assms])
    fix i :: nat and t t' :: "'a list" and j :: nat
    assume "j \<in> {i}" "length t = length t'" "\<forall>j \<in> {i}. t ! j = t' ! j"
    then show "?f i t ! j = ?f i t' ! j"
      by (cases "i < length t'") (auto simp: list_update_beyond)
  qed auto
  then show ?thesis by auto
qed

lemma length_for_words [simp]: "length (for_words n g t) = length t"
  by (simp add: for_words_def fold_elem_update)

lemma nth_for_words [loop_nth]:
  "j < length t \<Longrightarrow> for_words n g t ! j = (if j < n then g j (t ! j) else t ! j)"
  by (simp add: for_words_def fold_elem_update)

lemma length_for_words_down [simp]: "length (for_words_down n g t) = length t"
  by (simp add: for_words_down_def fold_elem_update)

lemma nth_for_words_down [loop_nth]:
  "j < length t \<Longrightarrow> for_words_down n g t ! j = (if j < n then g j (t ! j) else t ! j)"
  by (simp add: for_words_down_def fold_elem_update)

lemma any_words_iff [simp]: "any_words n P \<longleftrightarrow> (\<exists>i<n. P i)"
  by (auto simp: any_words_def list_ex_iff)

lemma fold_add_sum_list: "fold (\<lambda>i c. c + (g i :: nat)) is c0 = c0 + sum_list (map g is)"
  by (induction "is" arbitrary: c0) auto

lemma sum_words_eq: "sum_words n g = (\<Sum>i<n. g i)"
  by (simp add: sum_words_def fold_add_sum_list interv_sum_list_conv_sum_set_nat atLeast0LessThan)

section \<open>Sorting by exchanges of neighbours\<close>

text \<open>
  \<^verbatim>\<open>do { fChange = 0;
       for ( i = 0; i < n-1; i++ ) if ( !ok(i) ) { swp(i); fChange = 1; }
     } while ( fChange );\<close>
  The loop is a partial function; its value is \<open>None\<close> when it does not end.
\<close>

definition bubble_pass :: "(nat \<Rightarrow> 's \<Rightarrow> bool) \<Rightarrow> (nat \<Rightarrow> 's \<Rightarrow> 's) \<Rightarrow> nat \<Rightarrow> 's \<times> bool \<Rightarrow> 's \<times> bool" where
  "bubble_pass ok swp n =
    fold (\<lambda>i (s, fChange). if ok i s then (s, fChange) else (swp i s, True)) [0 ..< n - 1]"

partial_function (option) bubble_loop ::
    "(nat \<Rightarrow> 's \<Rightarrow> bool) \<Rightarrow> (nat \<Rightarrow> 's \<Rightarrow> 's) \<Rightarrow> nat \<Rightarrow> 's \<Rightarrow> 's option" where
  "bubble_loop ok swp n s =
    (let r = bubble_pass ok swp n (s, False)
     in if snd r then bubble_loop ok swp n (fst r) else Some (fst r))"

text \<open>
  The contract under which the loop ends: an exchange of two neighbours that are out of order keeps
  the invariant and lowers a weight.
\<close>

locale bubble_sort =
  fixes ok :: "nat \<Rightarrow> 's \<Rightarrow> bool" and swp :: "nat \<Rightarrow> 's \<Rightarrow> 's" and n :: nat
    and inv :: "'s \<Rightarrow> bool" and weight :: "'s \<Rightarrow> nat"
  assumes swap_inv: "inv s \<Longrightarrow> i + 1 < n \<Longrightarrow> \<not> ok i s \<Longrightarrow> inv (swp i s)"
    and swap_weight: "inv s \<Longrightarrow> i + 1 < n \<Longrightarrow> \<not> ok i s \<Longrightarrow> weight (swp i s) < weight s"
begin

lemma pass:
  assumes "inv s" "\<forall>i\<in>set is. i + 1 < n"
  shows "case fold (\<lambda>i (s, ch). if ok i s then (s, ch) else (swp i s, True)) is (s, ch) of (s', ch') \<Rightarrow>
    inv s' \<and> weight s' \<le> weight s \<and>
    (ch' = ch \<and> s' = s \<and> (\<forall>i\<in>set is. ok i s) \<or> ch' \<and> weight s' < weight s)"
  using assms
proof (induction "is" arbitrary: s ch)
  case (Cons i "is")
  show ?case
  proof (cases "ok i s")
    case True
    then show ?thesis using Cons.IH [OF Cons.prems(1), of ch] Cons.prems(2)
      by (auto split: prod.splits)
  next
    case False
    have i: "i + 1 < n" using Cons.prems(2) by auto
    show ?thesis
      using False Cons.IH [OF swap_inv [OF Cons.prems(1) i False], of True] Cons.prems(2)
        swap_weight [OF Cons.prems(1) i False]
      by (auto split: prod.splits)
  qed
qed simp

lemma ends:
  "inv s \<Longrightarrow> \<exists>s'. bubble_loop ok swp n s = Some s' \<and> inv s' \<and> (\<forall>i. i + 1 < n \<longrightarrow> ok i s')"
proof (induction "weight s" arbitrary: s rule: less_induct)
  case less
  obtain s' ch where r: "bubble_pass ok swp n (s, False) = (s', ch)" by fastforce
  have below: "\<forall>i\<in>set [0 ..< n - 1]. i + 1 < n" by auto
  have step: "inv s' \<and> (\<not> ch \<and> s' = s \<and> (\<forall>i\<in>set [0..<n - 1]. ok i s) \<or> ch \<and> weight s' < weight s)"
    using pass [OF less.prems below, of False] r by (auto simp: bubble_pass_def)
  show ?case
  proof (cases ch)
    case True
    then show ?thesis using less.hyps [of s'] step r by (subst bubble_loop.simps) auto
  next
    case False
    then show ?thesis using step r by (subst bubble_loop.simps) auto
  qed
qed

end

section \<open>Single bits of indices\<close>

text \<open>
  A minterm index is a number whose bit \<open>v\<close> is the value of variable \<open>v\<close>. Adding or subtracting
  \<open>2 ^ v\<close> moves between the two minterms that differ in variable \<open>v\<close> only.
\<close>

lemma add_pow_set_bit: "\<not> bit (m :: nat) v \<Longrightarrow> m + 2 ^ v = set_bit v m"
  by (simp add: set_bit_eq)

lemma unset_bit_idem [simp]: "\<not> bit (m :: nat) v \<Longrightarrow> unset_bit v m = m"
  by (rule bit_eqI) (auto simp: bit_simps)

lemma set_bit_idem [simp]: "bit (m :: nat) v \<Longrightarrow> set_bit v m = m"
  by (rule bit_eqI) (auto simp: bit_simps)

lemma set_unset_bit [simp]: "set_bit v (unset_bit v (m :: nat)) = set_bit v m"
  by (rule bit_eqI) (auto simp: bit_simps)

lemma unset_set_bit [simp]: "unset_bit v (set_bit v (m :: nat)) = unset_bit v m"
  by (rule bit_eqI) (auto simp: bit_simps)

lemma set_set_bit [simp]: "set_bit v (set_bit v (m :: nat)) = set_bit v m"
  by (rule bit_eqI) (auto simp: bit_simps)

lemma unset_unset_bit [simp]: "unset_bit v (unset_bit v (m :: nat)) = unset_bit v m"
  by (rule bit_eqI) (auto simp: bit_simps)

lemma sub_pow_unset_bit: "bit (m :: nat) v \<Longrightarrow> m - 2 ^ v = unset_bit v m"
  using add_pow_set_bit [of "unset_bit v m" v] by (simp add: bit_simps)

lemma bit_sub_pow: "2 ^ v \<le> (m :: nat) \<Longrightarrow> bit (m - 2 ^ v) v \<longleftrightarrow> \<not> bit m v"
  using le_div_geq [of "2 ^ v" m] by (simp add: bit_iff_odd)

lemma bit_add_pow: "bit ((m :: nat) + 2 ^ v) v \<longleftrightarrow> \<not> bit m v"
  using bit_sub_pow [of v "m + 2 ^ v"] by simp

lemma bit_ge_pow: "bit (m :: nat) v \<Longrightarrow> 2 ^ v \<le> m"
  by (metis bit_iff_odd div_less even_zero leI)

lemma bit_bound: "x < 2 ^ N \<Longrightarrow> N \<le> j \<Longrightarrow> \<not> bit (x :: nat) j"
  by (meson bit_ge_pow le_trans not_le one_le_numeral power_increasing)

text \<open>The number with given bits.\<close>

definition number_of_bits :: "nat \<Rightarrow> (nat \<Rightarrow> bool) \<Rightarrow> nat" where
  "number_of_bits n f = horner_sum of_bool 2 (map f [0..<n])"

lemma bit_number_of_bits [simp]: "bit (number_of_bits n f) j \<longleftrightarrow> j < n \<and> f j"
  by (auto simp: number_of_bits_def bit_horner_sum_bit_iff)

lemma number_of_bits_less [simp]: "number_of_bits n f < 2 ^ n"
  unfolding number_of_bits_def using horner_sum_bound [of "map f [0..<n]"] by simp

lemma set_bit_less_pow: "v < n \<Longrightarrow> set_bit v (m :: nat) < 2 ^ n \<longleftrightarrow> m < 2 ^ n"
  by (metis take_bit_set_bit_eq take_bit_nat_eq_self_iff not_le set_bit_eq le_add1 order.strict_trans1)

lemma unset_bit_less: "unset_bit v (m :: nat) \<le> m"
  using sub_pow_unset_bit [of m v] unset_bit_idem [of m v] diff_le_self [of m "2 ^ v"]
  by (cases "bit m v") auto

lemma pair_list_steps:
  assumes "b < N"
  shows "steps (2 ^ N) (2 * 2 ^ b) = map (\<lambda>j. j * (2 * 2 ^ b)) [0..<2 ^ (N - Suc b)]"
proof -
  have "(2 :: nat) ^ N = 2 ^ (N - Suc b) * (2 * 2 ^ b)"
    using assms by (simp flip: power_add power_Suc)
  moreover have "(c * d + d - 1) div d = c" if "0 < d" for c d :: nat
  proof -
    have "c * d + d - 1 = c * d + (d - 1)" using that by simp
    moreover have "(c * d + (d - 1)) div d = c" using that by (subst div_mult_self3) auto
    ultimately show ?thesis by (simp only:)
  qed
  ultimately have "((2 :: nat) ^ N + 2 * 2 ^ b - 1) div (2 * 2 ^ b) = 2 ^ (N - Suc b)"
    by simp
  then show ?thesis by (simp add: steps_def)
qed

lemma low_half_iff:
  assumes "b < N"
  shows "(\<exists>j<2 ^ (N - Suc b). \<exists>i<2 ^ b. p = j * (2 * 2 ^ b) + i) \<longleftrightarrow> p < (2::nat) ^ N \<and> \<not> bit p b"
    (is "?L \<longleftrightarrow> ?R")
proof
  have pow: "(2 :: nat) ^ N = 2 ^ (N - Suc b) * (2 * 2 ^ b)"
    using assms by (simp flip: power_add power_Suc)
  {
    assume ?L
    then obtain j i where *: "j < 2 ^ (N - Suc b)" "i < 2 ^ b" "p = j * (2 * 2 ^ b) + i" by auto
    have "p div 2 ^ b = 2 * j"
      using *(2,3) by (simp add: div_mult_self3 mult.assoc [symmetric] mult.commute)
    then have "\<not> bit p b" by (simp add: bit_iff_odd)
    moreover have "p < Suc j * (2 * 2 ^ b)" using *(2,3) by simp
    then have "p < 2 ^ N" unfolding pow
      by (rule less_le_trans) (use *(1) in \<open>intro mult_right_mono, auto\<close>)
    ultimately show ?R by simp
  next
    assume R: ?R
    have "even (p div 2 ^ b)" using R by (simp add: bit_iff_odd)
    then have "p mod (2 * 2 ^ b) = p mod 2 ^ b"
      by (simp add: mod_mult2_eq mult.commute [of 2])
    then have "p mod (2 * 2 ^ b) < 2 ^ b" by simp
    moreover have "p div (2 * 2 ^ b) < 2 ^ (N - Suc b)"
      using R pow by (simp add: less_mult_imp_div_less)
    ultimately show ?L using div_mult_mod_eq [of p "2 * 2 ^ b"]
      by (intro exI [of _ "p div (2 * 2 ^ b)"] conjI exI [of _ "p mod (2 * 2 ^ b)"]) auto
  }
qed

lemma set_pair_list:
  assumes "b < N"
  shows "(lo, hi) \<in> set (pair_list (2 ^ N) (2 ^ b)) \<longleftrightarrow>
    lo < 2 ^ N \<and> \<not> bit lo b \<and> hi = set_bit b lo"
proof -
  have "(lo, hi) \<in> set (pair_list (2 ^ N) (2 ^ b)) \<longleftrightarrow>
    (\<exists>j<2 ^ (N - Suc b). \<exists>i<2 ^ b. lo = j * (2 * 2 ^ b) + i) \<and> hi = lo + 2 ^ b"
    unfolding pair_list_def pair_list_steps [OF assms]
    by (auto simp: image_iff Bex_def; force)
  then show ?thesis
    unfolding low_half_iff [OF assms] by (auto simp: add_pow_set_bit)
qed

lemma distinct_pair_list:
  assumes "0 < s" shows "distinct (pair_list n s)"
proof -
  let ?blk = "\<lambda>k. map (\<lambda>i. (k + i, k + s + i)) [0..<s]"
  have step: "distinct (map ?blk (steps n (2 * s)))"
  proof -
    have "?blk k = ?blk k' \<Longrightarrow> k = k'" for k k'
      using assms by (cases s) (auto simp: upt_conv_Cons simp del: upt_Suc)
    then show ?thesis
      using assms by (auto simp: distinct_map steps_def inj_on_def)
  qed
  have disj: "set (?blk k) \<inter> set (?blk k') = {}"
    if ks: "k \<in> set (steps n (2 * s))" "k' \<in> set (steps n (2 * s))" "k \<noteq> k'" for k k'
  proof -
    obtain j j' where j: "k = j * (2 * s)" "k' = j' * (2 * s)" using ks(1,2) unfolding steps_def by auto
    have d: "x = j * (2 * s) + i \<Longrightarrow> i < s \<Longrightarrow> x div (2 * s) = j" for x j i by simp
    show ?thesis
    proof (rule ccontr)
      assume "\<not> ?thesis"
      then obtain i i' where "i < s" "i' < s" "k + i = k' + i'" by auto
      then have "j = j'" using d [of "k + i" j i] d [of "k' + i'" j' i'] j by simp
      then show False using ks(3) j by simp
    qed
  qed
  show ?thesis
    unfolding pair_list_def
  proof (rule distinct_concat [OF step])
    fix ys assume "ys \<in> set (map ?blk (steps n (2 * s)))"
    then show "distinct ys" by (auto simp: distinct_map inj_on_def)
  next
    fix ys zs
    assume "ys \<in> set (map ?blk (steps n (2 * s)))" "zs \<in> set (map ?blk (steps n (2 * s)))" "ys \<noteq> zs"
    then obtain k k' where "ys = ?blk k" "zs = ?blk k'" "k \<in> set (steps n (2 * s))"
      "k' \<in> set (steps n (2 * s))" "k \<noteq> k'"
      by (metis (no_types, lifting) imageE set_map)
    then show "set ys \<inter> set zs = {}" using disj by simp
  qed
qed
lemma length_for_pairs [simp]: "length (for_pairs n s g t) = length t"
proof -
  have "length (fold (\<lambda>(lo, hi) t. let (x, y) = g lo hi (t ! lo) (t ! hi) in t[lo := x, hi := y]) ps t) = length t" for ps
    by (induction ps arbitrary: t) (auto simp: Let_def split: prod.splits)
  then show ?thesis by (simp add: for_pairs_def)
qed

lemma list_update2_cong:
  "j = a \<or> j = b \<Longrightarrow> length t = length t' \<Longrightarrow> t ! a = t' ! a \<and> t ! b = t' ! b \<Longrightarrow>
    t[a := x, b := y] ! j = t'[a := x, b := y] ! j"
  by (cases "a < length t'"; cases "b < length t'"; cases "a = b") (auto simp: list_update_beyond)

lemma nth_for_pairs [loop_nth]:
  assumes "b < N" and p: "p < 2 ^ N" and len: "2 ^ N \<le> length t"
  shows "for_pairs (2 ^ N) (2 ^ b) g t ! p =
    (let lo = unset_bit b p; hi = set_bit b p
     in (if bit p b then snd else fst) (g lo hi (t ! lo) (t ! hi)))"
proof -
  let ?f = "\<lambda>q t. case q of (lo, hi) \<Rightarrow> let (x, y) = g lo hi (t ! lo) (t ! hi) in t[lo := x, hi := y]"
  let ?A = "\<lambda>q. {fst q, snd q}" and ?L = "pair_list (2 ^ N) (2 ^ b)"
  have fp: "length (fold ?f ?L t) = length t
    \<and> (\<forall>i \<in> set ?L. \<forall>j \<in> ?A i. fold ?f ?L t ! j = ?f i t ! j)
    \<and> (\<forall>j. (\<forall>i \<in> set ?L. j \<notin> ?A i) \<longrightarrow> fold ?f ?L t ! j = t ! j)"
  proof (rule fold_footprint)
    show "distinct ?L" by (rule distinct_pair_list) simp
  next
    fix i :: "nat \<times> nat" and t :: "'a list" assume "i \<in> set ?L"
    show "length (?f i t) = length t" by (simp add: Let_def split: prod.splits)
  next
    fix i :: "nat \<times> nat" and t :: "'a list" and j assume "j \<notin> ?A i"
    then show "?f i t ! j = t ! j" by (cases i) (auto simp: Let_def split: prod.splits)
  next
    fix i :: "nat \<times> nat" and t t' :: "'a list" and j
    assume a: "j \<in> ?A i" "length t = length t'" "\<forall>j \<in> ?A i. t ! j = t' ! j"
    obtain lo hi where i: "i = (lo, hi)" by (cases i)
    from a i have eq: "t ! lo = t' ! lo \<and> t ! hi = t' ! hi" by simp
    with a i show "?f i t ! j = ?f i t' ! j"
      using list_update2_cong [OF _ a(2) eq, of j] by (simp add: case_prod_unfold Let_def)
  next
    fix i i' :: "nat \<times> nat" assume m: "i \<in> set ?L" "i' \<in> set ?L" "i \<noteq> i'"
    obtain lo where i: "i = (lo, set_bit b lo)" "\<not> bit lo b"
      using m(1) set_pair_list [OF assms(1)] by (metis prod.collapse)
    obtain lo' where i': "i' = (lo', set_bit b lo')" "\<not> bit lo' b"
      using m(2) set_pair_list [OF assms(1)] by (metis prod.collapse)
    have "lo \<noteq> lo'" using m(3) i i' by auto
    then have "set_bit b lo \<noteq> set_bit b lo'"
      using i(2) i'(2) by (metis unset_bit_idem unset_set_bit)
    moreover have "bit (set_bit b lo) b" "bit (set_bit b lo') b" by (simp_all add: bit_simps)
    ultimately show "?A i \<inter> ?A i' = {}" using i i' \<open>lo \<noteq> lo'\<close> by auto
  qed
  let ?q = "(unset_bit b p, set_bit b p)"
  have lt: "set_bit b p < 2 ^ N" "unset_bit b p < 2 ^ N"
    using p set_bit_less_pow [OF assms(1), of p] unset_bit_less [of b p] by auto
  have ne: "unset_bit b p \<noteq> set_bit b p"
  proof
    assume "unset_bit b p = set_bit b p"
    then have "bit (unset_bit b p) b = bit (set_bit b p) b" by simp
    then show False by (simp add: bit_simps)
  qed
  have "?q \<in> set ?L" using lt by (simp add: set_pair_list [OF assms(1)] bit_simps)
  moreover have "p \<in> ?A ?q" by (cases "bit p b") auto
  ultimately have "fold ?f ?L t ! p = ?f ?q t ! p" using fp by blast
  moreover have "for_pairs (2 ^ N) (2 ^ b) g t = fold ?f ?L t"
    by (simp add: for_pairs_def case_prod_unfold)
  ultimately have "for_pairs (2 ^ N) (2 ^ b) g t ! p = ?f ?q t ! p" by simp
  then show ?thesis using lt ne len
    by (cases "bit p b") (simp_all add: case_prod_unfold Let_def)
qed

lemma any_pairs_iff:
  "b < N \<Longrightarrow> any_pairs (2 ^ N) (2 ^ b) P \<longleftrightarrow> (\<exists>lo<2 ^ N. \<not> bit lo b \<and> P lo (set_bit b lo))"
  by (auto simp: any_pairs_def list_ex_iff set_pair_list)

lemma sum_pairs_eq:
  assumes "b < N"
  shows "sum_pairs (2 ^ N) (2 ^ b) g = (\<Sum>lo | lo < 2 ^ N \<and> \<not> bit lo b. g lo (set_bit b lo))"
proof -
  let ?L = "pair_list (2 ^ N) (2 ^ b)"
  have "sum_pairs (2 ^ N) (2 ^ b) g = sum_list (map (\<lambda>(lo, hi). g lo hi) ?L)"
    by (simp add: sum_pairs_def case_prod_unfold fold_add_sum_list)
  also have "\<dots> = (\<Sum>(lo, hi) \<in> set ?L. g lo hi)"
    by (rule sum_list_distinct_conv_sum_set) (simp add: distinct_pair_list)
  also have "\<dots> = (\<Sum>lo | lo < 2 ^ N \<and> \<not> bit lo b. g lo (set_bit b lo))"
    by (rule sum.reindex_bij_witness [where i = "\<lambda>lo. (lo, set_bit b lo)" and j = fst])
      (auto simp: set_pair_list [OF assms])
  finally show ?thesis .
qed

section \<open>Masks and shifts inside one word\<close>

lemma upt_32: "[0..<32] = [0,1,2,3,4,5,6,7,8,9,10,11,12,13,14,15,16,17,18,19,20,21,22,23,24,25,26,27,28,29,30,31]"
  by code_simp

lemma all_bits_32: "j < 32 \<Longrightarrow> list_all P [0..<32] \<Longrightarrow> P (j :: nat)"
  by (simp only: list_all_iff set_upt atLeastLessThan_iff) simp

lemma mask_0_lo [mask_bits]: "j < 32 \<Longrightarrow> bit (0x55555555 :: u32) j \<longleftrightarrow> \<not> bit j 0"
  by (rule all_bits_32, assumption) (simp only: upt_32, simp add: bit_0)

lemma mask_1_lo [mask_bits]: "j < 32 \<Longrightarrow> bit (0x33333333 :: u32) j \<longleftrightarrow> \<not> bit j 1"
  by (rule all_bits_32, assumption) (simp only: upt_32, simp add: bit_0)

lemma mask_2_lo [mask_bits]: "j < 32 \<Longrightarrow> bit (0x0F0F0F0F :: u32) j \<longleftrightarrow> \<not> bit j 2"
  by (rule all_bits_32, assumption) (simp only: upt_32, simp add: bit_0)

lemma mask_3_lo [mask_bits]: "j < 32 \<Longrightarrow> bit (0x00FF00FF :: u32) j \<longleftrightarrow> \<not> bit j 3"
  by (rule all_bits_32, assumption) (simp only: upt_32, simp add: bit_0)

lemma mask_4_lo [mask_bits]: "j < 32 \<Longrightarrow> bit (0x0000FFFF :: u32) j \<longleftrightarrow> \<not> bit j 4"
  by (rule all_bits_32, assumption) (simp only: upt_32, simp add: bit_0)

lemma mask_0_hi [mask_bits]: "j < 32 \<Longrightarrow> bit (0xAAAAAAAA :: u32) j \<longleftrightarrow> bit j 0"
  by (rule all_bits_32, assumption) (simp only: upt_32, simp add: bit_0)

lemma mask_1_hi [mask_bits]: "j < 32 \<Longrightarrow> bit (0xCCCCCCCC :: u32) j \<longleftrightarrow> bit j 1"
  by (rule all_bits_32, assumption) (simp only: upt_32, simp add: bit_0)

lemma mask_2_hi [mask_bits]: "j < 32 \<Longrightarrow> bit (0xF0F0F0F0 :: u32) j \<longleftrightarrow> bit j 2"
  by (rule all_bits_32, assumption) (simp only: upt_32, simp add: bit_0)

lemma mask_3_hi [mask_bits]: "j < 32 \<Longrightarrow> bit (0xFF00FF00 :: u32) j \<longleftrightarrow> bit j 3"
  by (rule all_bits_32, assumption) (simp only: upt_32, simp add: bit_0)

lemma mask_4_hi [mask_bits]: "j < 32 \<Longrightarrow> bit (0xFFFF0000 :: u32) j \<longleftrightarrow> bit j 4"
  by (rule all_bits_32, assumption) (simp only: upt_32, simp add: bit_0)

lemma bit_push_lo:
  fixes w m :: u32
  assumes "\<And>j. j < 32 \<Longrightarrow> bit m j \<longleftrightarrow> \<not> bit j v" and "j < 32"
  shows "bit (push_bit (2 ^ v) (w AND m)) j \<longleftrightarrow> bit j v \<and> bit w (unset_bit v j)"
proof (cases "2 ^ v \<le> j")
  case True
  then show ?thesis
    using assms by (auto simp only: bit_push_bit_iff bit_and_iff bit_sub_pow sub_pow_unset_bit)
      (simp_all add: sub_pow_unset_bit bit_sub_pow)
next
  case False
  then show ?thesis using bit_ge_pow [of j v] by (simp only: bit_push_bit_iff) auto
qed

lemma bit_drop_hi:
  fixes w m :: u32
  assumes "\<And>j. j < 32 \<Longrightarrow> bit m j \<longleftrightarrow> bit j v" and "j < 32" and "v < 5"
  shows "bit (drop_bit (2 ^ v) (w AND m)) j \<longleftrightarrow> \<not> bit j v \<and> bit w (set_bit v j)"
proof -
  have "bit (drop_bit (2 ^ v) (w AND m)) j \<longleftrightarrow> bit w (j + 2 ^ v) \<and> bit m (j + 2 ^ v)"
    by (auto simp: bit_drop_bit_eq bit_and_iff add.commute)
  also have "\<dots> \<longleftrightarrow> bit w (j + 2 ^ v) \<and> \<not> bit j v"
    using assms(1) [of "j + 2 ^ v"] bit_imp_le_length [of w "j + 2 ^ v"]
    by (auto simp: bit_add_pow not_le dest: bit_imp_le_length)
  finally show ?thesis by (auto simp: add_pow_set_bit)
qed

lemma pow2_values:
  "(2::nat) ^ 0 = 1" "(2::nat) ^ 1 = 2" "(2::nat) ^ 2 = 4" "(2::nat) ^ 3 = 8" "(2::nat) ^ 4 = 16"
  "(0::nat) < 5" "(1::nat) < 5" "(2::nat) < 5" "(3::nat) < 5" "(4::nat) < 5"
  by simp_all

lemma push_lo_0 [shift_bits]:
  "j < 32 \<Longrightarrow> bit (push_bit 1 ((w :: u32) AND 0x55555555)) j \<longleftrightarrow> bit j 0 \<and> bit w (unset_bit 0 j)"
  using bit_push_lo [of "0x55555555" 0 j w, OF mask_0_lo] by (simp only: pow2_values)

lemma drop_hi_0 [shift_bits]:
  "j < 32 \<Longrightarrow> bit (drop_bit 1 ((w :: u32) AND 0xAAAAAAAA)) j \<longleftrightarrow> \<not> bit j 0 \<and> bit w (set_bit 0 j)"
  using bit_drop_hi [of "0xAAAAAAAA" 0 j w, OF mask_0_hi] by (simp only: pow2_values)

lemma push_lo_1 [shift_bits]:
  "j < 32 \<Longrightarrow> bit (push_bit 2 ((w :: u32) AND 0x33333333)) j \<longleftrightarrow> bit j 1 \<and> bit w (unset_bit 1 j)"
  using bit_push_lo [of "0x33333333" 1 j w, OF mask_1_lo] by (simp only: pow2_values)

lemma drop_hi_1 [shift_bits]:
  "j < 32 \<Longrightarrow> bit (drop_bit 2 ((w :: u32) AND 0xCCCCCCCC)) j \<longleftrightarrow> \<not> bit j 1 \<and> bit w (set_bit 1 j)"
  using bit_drop_hi [of "0xCCCCCCCC" 1 j w, OF mask_1_hi] by (simp only: pow2_values)

lemma push_lo_2 [shift_bits]:
  "j < 32 \<Longrightarrow> bit (push_bit 4 ((w :: u32) AND 0x0F0F0F0F)) j \<longleftrightarrow> bit j 2 \<and> bit w (unset_bit 2 j)"
  using bit_push_lo [of "0x0F0F0F0F" 2 j w, OF mask_2_lo] by (simp only: pow2_values)

lemma drop_hi_2 [shift_bits]:
  "j < 32 \<Longrightarrow> bit (drop_bit 4 ((w :: u32) AND 0xF0F0F0F0)) j \<longleftrightarrow> \<not> bit j 2 \<and> bit w (set_bit 2 j)"
  using bit_drop_hi [of "0xF0F0F0F0" 2 j w, OF mask_2_hi] by (simp only: pow2_values)

lemma push_lo_3 [shift_bits]:
  "j < 32 \<Longrightarrow> bit (push_bit 8 ((w :: u32) AND 0x00FF00FF)) j \<longleftrightarrow> bit j 3 \<and> bit w (unset_bit 3 j)"
  using bit_push_lo [of "0x00FF00FF" 3 j w, OF mask_3_lo] by (simp only: pow2_values)

lemma drop_hi_3 [shift_bits]:
  "j < 32 \<Longrightarrow> bit (drop_bit 8 ((w :: u32) AND 0xFF00FF00)) j \<longleftrightarrow> \<not> bit j 3 \<and> bit w (set_bit 3 j)"
  using bit_drop_hi [of "0xFF00FF00" 3 j w, OF mask_3_hi] by (simp only: pow2_values)

lemma push_lo_4 [shift_bits]:
  "j < 32 \<Longrightarrow> bit (push_bit 16 ((w :: u32) AND 0x0000FFFF)) j \<longleftrightarrow> bit j 4 \<and> bit w (unset_bit 4 j)"
  using bit_push_lo [of "0x0000FFFF" 4 j w, OF mask_4_lo] by (simp only: pow2_values)

lemma drop_hi_4 [shift_bits]:
  "j < 32 \<Longrightarrow> bit (drop_bit 16 ((w :: u32) AND 0xFFFF0000)) j \<longleftrightarrow> \<not> bit j 4 \<and> bit w (set_bit 4 j)"
  using bit_drop_hi [of "0xFFFF0000" 4 j w, OF mask_4_hi] by (simp only: pow2_values)


section \<open>Tables of words\<close>

text \<open>
  The truth table of a function of \<open>n\<close> variables is an array of 32-bit words; the value at minterm
  \<open>m\<close> is bit \<open>m mod 32\<close> of word \<open>m div 32\<close>. Below five variables the one word repeats the table.
\<close>

definition tt_bit :: "u32 list \<Rightarrow> nat \<Rightarrow> bool" where
  "tt_bit p m \<longleftrightarrow> bit (p ! (m div 32)) (m mod 32)"

lemma mod_32_less: "m mod 32 < (32 :: nat)"
  by simp

lemma bit_mod_32: "v < 5 \<Longrightarrow> bit (m mod 32 :: nat) v \<longleftrightarrow> bit m v"
  using bit_take_bit_iff [of 5 m v] by (simp add: take_bit_eq_mod)

lemma bit_div_32: "bit (m div 32 :: nat) b \<longleftrightarrow> bit m (b + 5)"
  using bit_drop_bit_eq [of 5 m] by (simp add: drop_bit_eq_div add.commute)

lemma div_mod_32: "m div 32 = drop_bit 5 m" "m mod 32 = take_bit 5 (m :: nat)"
  by (simp_all add: drop_bit_eq_div take_bit_eq_mod)

lemma unset_bit_index_lo:
  "v < 5 \<Longrightarrow> unset_bit v m div 32 = m div (32 :: nat)"
  "v < 5 \<Longrightarrow> unset_bit v m mod 32 = unset_bit v (m mod (32 :: nat))"
  unfolding div_mod_32 by (auto simp: bit_simps intro!: bit_eqI)

lemma set_bit_index_lo:
  "v < 5 \<Longrightarrow> set_bit v m div 32 = m div (32 :: nat)"
  "v < 5 \<Longrightarrow> set_bit v m mod 32 = set_bit v (m mod (32 :: nat))"
  unfolding div_mod_32 by (auto simp: bit_simps intro!: bit_eqI)

lemma unset_bit_index_hi:
  "unset_bit (b + 5) m div 32 = unset_bit b (m div (32 :: nat))"
  "unset_bit (b + 5) m mod 32 = m mod (32 :: nat)"
  unfolding div_mod_32 by (auto simp: bit_simps intro!: bit_eqI)

lemma set_bit_index_hi:
  "set_bit (b + 5) m div 32 = set_bit b (m div (32 :: nat))"
  "set_bit (b + 5) m mod 32 = m mod (32 :: nat)"
  unfolding div_mod_32 by (auto simp: bit_simps intro!: bit_eqI)

end
