(* ===== verification/Kit_Words.thy ===== *)
theory Kit_Words
  imports Abc_Prelude
begin

text \<open>
  The inline primitives of \<open>kit.h\<close> (abc/src/bool/kit) on truth tables: the number of words of a
  table, single bits, population counts, the constant and comparison tests, and the bitwise
  operators. A table is the array \<open>unsigned *\<close> of the code as a list of 32-bit words. Operators
  that write to \<open>pOut\<close> take its old contents and return the new ones; where the code calls them
  with \<open>pOut = pIn\<close>, both arguments are the same list, which is faithful because iteration \<open>w\<close>
  reads word \<open>w\<close> only before it writes it. Every operator is described by what it does to single
  minterms (\<open>..._bit\<close>) and, for the tests, by a statement about all minterms (\<open>..._iff\<close>).
\<close>

unbundle bit_operations_syntax

section \<open>Sizes\<close>

definition Kit_BitWordNum :: "nat \<Rightarrow> nat" where
  "Kit_BitWordNum nBits = nBits div 32 + (if nBits mod 32 > 0 then 1 else 0)"

definition Kit_TruthWordNum :: "nat \<Rightarrow> nat" where
  "Kit_TruthWordNum nVars = (if nVars \<le> 5 then 1 else 2 ^ (nVars - 5))"

text \<open>The array is long enough for a table of \<open>nVars\<close> variables; its minterms are below \<open>tt_size\<close>.\<close>

definition tt_ok :: "nat \<Rightarrow> u32 list \<Rightarrow> bool" where
  "tt_ok nVars p \<longleftrightarrow> Kit_TruthWordNum nVars \<le> length p"

definition tt_size :: "nat \<Rightarrow> nat" where
  "tt_size nVars = 32 * Kit_TruthWordNum nVars"

lemma Kit_TruthWordNum_pos [simp]: "0 < Kit_TruthWordNum n"
  by (simp add: Kit_TruthWordNum_def)

lemma tt_size_pos [simp]: "0 < tt_size n"
  by (simp add: tt_size_def)

lemma tt_size_eq: "tt_size n = 2 ^ max n 5"
proof (cases "n \<le> 5")
  case False
  then have "(2::nat) ^ n = 2 ^ 5 * 2 ^ (n - 5)" using power_add [of "2 :: nat" 5 "n - 5"] by simp
  then show ?thesis using False by (simp add: tt_size_def Kit_TruthWordNum_def)
qed (simp add: tt_size_def Kit_TruthWordNum_def)

lemma Kit_TruthWordNum_default: "b + 5 < n \<Longrightarrow> Kit_TruthWordNum n = 2 ^ (n - 5) \<and> b < n - 5"
  by (auto simp: Kit_TruthWordNum_def)

lemma div_32_less: "m < tt_size n \<Longrightarrow> m div 32 < Kit_TruthWordNum n"
  by (simp add: tt_size_def less_mult_imp_div_less mult.commute)

lemma set_bit_less_tt_size: "v < max n 5 \<Longrightarrow> set_bit v m < tt_size n \<longleftrightarrow> m < tt_size n"
  by (simp add: tt_size_eq set_bit_less_pow)

lemma unset_bit_less_tt_size: "m < tt_size n \<Longrightarrow> unset_bit v m < tt_size n"
  using unset_bit_less [of v m] by simp

text \<open>Every pair of a word and a bit in it is a minterm, and conversely.\<close>

lemma ex_minterm_iff:
  "(\<exists>m<tt_size n. P (m div 32) (m mod 32)) \<longleftrightarrow> (\<exists>i<Kit_TruthWordNum n. \<exists>j<32. P i j)"
proof safe
  fix m assume "m < tt_size n" "P (m div 32) (m mod 32)"
  then show "\<exists>i<Kit_TruthWordNum n. \<exists>j<32. P i j"
    using div_32_less mod_32_less by blast
next
  fix i j :: nat assume ij: "i < Kit_TruthWordNum n" "j < 32" "P i j"
  have "32 * i + j < tt_size n" using ij by (simp add: tt_size_def)
  moreover have "(32 * i + j) div 32 = i" "(32 * i + j) mod 32 = j" using ij by simp_all
  ultimately show "\<exists>m<tt_size n. P (m div 32) (m mod 32)" using ij(3) by metis
qed

lemma all_minterm_iff:
  "(\<forall>m<tt_size n. P (m div 32) (m mod 32)) \<longleftrightarrow> (\<forall>i<Kit_TruthWordNum n. \<forall>j<32. P i j)"
  using ex_minterm_iff [of n "\<lambda>i j. \<not> P i j"] by auto

lemma word_neq_iff: "(x :: u32) \<noteq> y \<longleftrightarrow> (\<exists>j<32. bit x j \<noteq> bit y j)"
  by (auto simp: bit_eq_iff)

lemma word_eq_iff: "(x :: u32) = y \<longleftrightarrow> (\<forall>j<32. bit x j = bit y j)"
  using word_neq_iff [of x y] by auto

section \<open>Reading a table\<close>

lemma tt_bit_for_words [loop_nth]:
  "tt_ok n t \<Longrightarrow> m < tt_size n \<Longrightarrow>
    tt_bit (for_words (Kit_TruthWordNum n) g t) m = bit (g (m div 32) (t ! (m div 32))) (m mod 32)"
  using div_32_less [of m n] by (simp add: tt_bit_def tt_ok_def nth_for_words)

lemma tt_bit_for_words_down [loop_nth]:
  "tt_ok n t \<Longrightarrow> m < tt_size n \<Longrightarrow>
    tt_bit (for_words_down (Kit_TruthWordNum n) g t) m = bit (g (m div 32) (t ! (m div 32))) (m mod 32)"
  using div_32_less [of m n] by (simp add: tt_bit_def tt_ok_def nth_for_words_down)

lemma tt_bit_for_pairs [loop_nth]:
  assumes "tt_ok n t" "m < tt_size n" "b + 5 < n"
  shows "tt_bit (for_pairs (Kit_TruthWordNum n) (2 ^ b) g t) m =
    (let lo = unset_bit b (m div 32); hi = set_bit b (m div 32)
     in bit ((if bit m (b + 5) then snd else fst) (g lo hi (t ! lo) (t ! hi))) (m mod 32))"
  using div_32_less [OF assms(2)] assms
  by (simp add: tt_bit_def tt_ok_def nth_for_pairs Kit_TruthWordNum_default bit_div_32 Let_def)

lemma any_pairs_default [loop_nth]:
  assumes "b + 5 < n"
  shows "any_pairs (Kit_TruthWordNum n) (2 ^ b) P \<longleftrightarrow>
    (\<exists>lo<Kit_TruthWordNum n. \<not> bit lo b \<and> P lo (set_bit b lo))"
  using Kit_TruthWordNum_default [OF assms] any_pairs_iff by simp

lemma sum_pairs_default [loop_nth]:
  assumes "b + 5 < n"
  shows "sum_pairs (Kit_TruthWordNum n) (2 ^ b) g =
    (\<Sum>lo | lo < Kit_TruthWordNum n \<and> \<not> bit lo b. g lo (set_bit b lo))"
  using Kit_TruthWordNum_default [OF assms] sum_pairs_eq by simp

lemma tt_bit_index_lo:
  "v < 5 \<Longrightarrow> tt_bit p (unset_bit v m) = bit (p ! (m div 32)) (unset_bit v (m mod 32))"
  "v < 5 \<Longrightarrow> tt_bit p (set_bit v m) = bit (p ! (m div 32)) (set_bit v (m mod 32))"
  by (simp_all add: tt_bit_def unset_bit_index_lo set_bit_index_lo)

lemma tt_bit_index_hi:
  "tt_bit p (unset_bit (b + 5) m) = bit (p ! unset_bit b (m div 32)) (m mod 32)"
  "tt_bit p (set_bit (b + 5) m) = bit (p ! set_bit b (m div 32)) (m mod 32)"
  by (simp_all add: tt_bit_def unset_bit_index_hi set_bit_index_hi)

text \<open>The six branches of the \<open>switch\<close> on the variable number.\<close>

lemma switch_cases [case_names V0 V1 V2 V3 V4 default]:
  fixes v :: nat
  obtains "v = 0" | "v = 1" | "v = 2" | "v = 3" | "v = 4" | b where "v = b + 5"
proof -
  have "v = 0 \<or> v = 1 \<or> v = 2 \<or> v = 3 \<or> v = 4 \<or> v = (v - 5) + 5" by arith
  then show thesis using that by blast
qed

lemma switch_conds:
  "(1::nat) \<noteq> 0" "(2::nat) \<noteq> 0" "(2::nat) \<noteq> 1" "(3::nat) \<noteq> 0" "(3::nat) \<noteq> 1" "(3::nat) \<noteq> 2"
  "(4::nat) \<noteq> 0" "(4::nat) \<noteq> 1" "(4::nat) \<noteq> 2" "(4::nat) \<noteq> 3"
  "b + 5 \<noteq> (0::nat)" "b + 5 \<noteq> (1::nat)" "b + 5 \<noteq> (2::nat)" "b + 5 \<noteq> (3::nat)" "b + 5 \<noteq> (4::nat)"
  "b + 5 - 5 = (b::nat)"
  by simp_all

lemma not_32 [word_bits]: "j < 32 \<Longrightarrow> bit (NOT (w :: u32)) j \<longleftrightarrow> \<not> bit w j"
  by (simp add: bit_not_iff)

lemmas word_logic [word_bits] =
  bit_or_iff bit_and_iff bit_xor_iff shift_bits mask_bits mod_32_less if_True if_False
  switch_conds Let_def pow2_values simp_thms fst_conv snd_conv

section \<open>Single bits\<close>

definition Kit_TruthHasBit :: "u32 list \<Rightarrow> nat \<Rightarrow> bool" where
  "Kit_TruthHasBit p Bit \<longleftrightarrow> 0 < p ! (drop_bit 5 Bit) AND push_bit (Bit AND 31) 1"

definition Kit_TruthSetBit :: "u32 list \<Rightarrow> nat \<Rightarrow> u32 list" where
  "Kit_TruthSetBit p Bit =
    p[drop_bit 5 Bit := p ! (drop_bit 5 Bit) OR push_bit (Bit AND 31) 1]"

definition Kit_TruthXorBit :: "u32 list \<Rightarrow> nat \<Rightarrow> u32 list" where
  "Kit_TruthXorBit p Bit =
    p[drop_bit 5 Bit := p ! (drop_bit 5 Bit) XOR push_bit (Bit AND 31) 1]"

lemma and_31: "(m :: nat) AND 31 = m mod 32"
  using take_bit_eq_mask [of 5 m] by (simp add: mask_eq_exp_minus_1 take_bit_eq_mod)

lemma and_pow_iff: "(w AND 2 ^ j = (0 :: u32)) \<longleftrightarrow> \<not> bit w j"
  using bit_imp_le_length [of w j] by (auto simp: word_eq_iff bit_and_iff bit_exp_iff)

lemma Kit_TruthHasBit_iff: "Kit_TruthHasBit p m \<longleftrightarrow> tt_bit p m"
  by (simp add: Kit_TruthHasBit_def tt_bit_def and_31 word_gt_0 and_pow_iff drop_bit_eq_div)

lemma length_Kit_TruthSetBit [simp]: "length (Kit_TruthSetBit p m) = length p"
  by (simp add: Kit_TruthSetBit_def)

lemma length_Kit_TruthXorBit [simp]: "length (Kit_TruthXorBit p m) = length p"
  by (simp add: Kit_TruthXorBit_def)

lemma same_minterm: "a div 32 = b div 32 \<and> a mod 32 = b mod 32 \<longleftrightarrow> a = (b :: nat)"
  by (metis div_mult_mod_eq)

lemma Kit_TruthSetBit_bit:
  "tt_ok n p \<Longrightarrow> m < tt_size n \<Longrightarrow> tt_bit (Kit_TruthSetBit p m) k \<longleftrightarrow> k = m \<or> tt_bit p k"
  using div_32_less [of m n] same_minterm [of k m]
  by (cases "k div 32 = m div 32")
    (auto simp: Kit_TruthSetBit_def tt_bit_def tt_ok_def drop_bit_eq_div and_31 bit_simps)

lemma Kit_TruthXorBit_bit:
  "tt_ok n p \<Longrightarrow> m < tt_size n \<Longrightarrow> tt_bit (Kit_TruthXorBit p m) k \<longleftrightarrow> (k = m) \<noteq> tt_bit p k"
  using div_32_less [of m n] same_minterm [of k m]
  by (cases "k div 32 = m div 32")
    (auto simp: Kit_TruthXorBit_def tt_bit_def tt_ok_def drop_bit_eq_div and_31 bit_simps)

section \<open>Bitwise operators\<close>

text \<open>\<open>for ( w = Kit_TruthWordNum(nVars)-1; w >= 0; w-- ) pOut[w] = ...;\<close>\<close>

definition Kit_TruthCopy :: "u32 list \<Rightarrow> u32 list \<Rightarrow> nat \<Rightarrow> u32 list" where
  "Kit_TruthCopy pOut pIn nVars =
    for_words_down (Kit_TruthWordNum nVars) (\<lambda>w _. pIn ! w) pOut"

definition Kit_TruthClear :: "u32 list \<Rightarrow> nat \<Rightarrow> u32 list" where
  "Kit_TruthClear pOut nVars =
    for_words_down (Kit_TruthWordNum nVars) (\<lambda>w _. 0) pOut"

definition Kit_TruthFill :: "u32 list \<Rightarrow> nat \<Rightarrow> u32 list" where
  "Kit_TruthFill pOut nVars =
    for_words_down (Kit_TruthWordNum nVars) (\<lambda>w _. NOT 0) pOut"

definition Kit_TruthNot :: "u32 list \<Rightarrow> u32 list \<Rightarrow> nat \<Rightarrow> u32 list" where
  "Kit_TruthNot pOut pIn nVars =
    for_words_down (Kit_TruthWordNum nVars) (\<lambda>w _. NOT (pIn ! w)) pOut"

definition Kit_TruthAnd :: "u32 list \<Rightarrow> u32 list \<Rightarrow> u32 list \<Rightarrow> nat \<Rightarrow> u32 list" where
  "Kit_TruthAnd pOut pIn0 pIn1 nVars =
    for_words_down (Kit_TruthWordNum nVars) (\<lambda>w _. pIn0 ! w AND pIn1 ! w) pOut"

definition Kit_TruthOr :: "u32 list \<Rightarrow> u32 list \<Rightarrow> u32 list \<Rightarrow> nat \<Rightarrow> u32 list" where
  "Kit_TruthOr pOut pIn0 pIn1 nVars =
    for_words_down (Kit_TruthWordNum nVars) (\<lambda>w _. pIn0 ! w OR pIn1 ! w) pOut"

definition Kit_TruthXor :: "u32 list \<Rightarrow> u32 list \<Rightarrow> u32 list \<Rightarrow> nat \<Rightarrow> u32 list" where
  "Kit_TruthXor pOut pIn0 pIn1 nVars =
    for_words_down (Kit_TruthWordNum nVars) (\<lambda>w _. pIn0 ! w XOR pIn1 ! w) pOut"

definition Kit_TruthSharp :: "u32 list \<Rightarrow> u32 list \<Rightarrow> u32 list \<Rightarrow> nat \<Rightarrow> u32 list" where
  "Kit_TruthSharp pOut pIn0 pIn1 nVars =
    for_words_down (Kit_TruthWordNum nVars) (\<lambda>w _. pIn0 ! w AND NOT (pIn1 ! w)) pOut"

definition Kit_TruthNand :: "u32 list \<Rightarrow> u32 list \<Rightarrow> u32 list \<Rightarrow> nat \<Rightarrow> u32 list" where
  "Kit_TruthNand pOut pIn0 pIn1 nVars =
    for_words_down (Kit_TruthWordNum nVars) (\<lambda>w _. NOT (pIn0 ! w AND pIn1 ! w)) pOut"

definition Kit_TruthMux :: "u32 list \<Rightarrow> u32 list \<Rightarrow> u32 list \<Rightarrow> u32 list \<Rightarrow> nat \<Rightarrow> u32 list" where
  "Kit_TruthMux pOut pIn0 pIn1 pCtrl nVars =
    for_words_down (Kit_TruthWordNum nVars) (\<lambda>w _. (pIn0 ! w AND NOT (pCtrl ! w)) OR (pIn1 ! w AND pCtrl ! w)) pOut"

definition Kit_TruthAndPhase :: "u32 list \<Rightarrow> u32 list \<Rightarrow> u32 list \<Rightarrow> nat \<Rightarrow> bool \<Rightarrow> bool \<Rightarrow> u32 list" where
  "Kit_TruthAndPhase pOut pIn0 pIn1 nVars fCompl0 fCompl1 =
    (if fCompl0 \<and> fCompl1 then for_words_down (Kit_TruthWordNum nVars) (\<lambda>w _. NOT (pIn0 ! w OR pIn1 ! w)) pOut
     else if fCompl0 \<and> \<not> fCompl1 then for_words_down (Kit_TruthWordNum nVars) (\<lambda>w _. NOT (pIn0 ! w) AND pIn1 ! w) pOut
     else if \<not> fCompl0 \<and> fCompl1 then for_words_down (Kit_TruthWordNum nVars) (\<lambda>w _. pIn0 ! w AND NOT (pIn1 ! w)) pOut
     else for_words_down (Kit_TruthWordNum nVars) (\<lambda>w _. pIn0 ! w AND pIn1 ! w) pOut)"

definition Kit_TruthOrPhase :: "u32 list \<Rightarrow> u32 list \<Rightarrow> u32 list \<Rightarrow> nat \<Rightarrow> bool \<Rightarrow> bool \<Rightarrow> u32 list" where
  "Kit_TruthOrPhase pOut pIn0 pIn1 nVars fCompl0 fCompl1 =
    (if fCompl0 \<and> fCompl1 then for_words_down (Kit_TruthWordNum nVars) (\<lambda>w _. NOT (pIn0 ! w AND pIn1 ! w)) pOut
     else if fCompl0 \<and> \<not> fCompl1 then for_words_down (Kit_TruthWordNum nVars) (\<lambda>w _. NOT (pIn0 ! w) OR pIn1 ! w) pOut
     else if \<not> fCompl0 \<and> fCompl1 then for_words_down (Kit_TruthWordNum nVars) (\<lambda>w _. pIn0 ! w OR NOT (pIn1 ! w)) pOut
     else for_words_down (Kit_TruthWordNum nVars) (\<lambda>w _. pIn0 ! w OR pIn1 ! w) pOut)"

definition Kit_TruthMuxPhase :: "u32 list \<Rightarrow> u32 list \<Rightarrow> u32 list \<Rightarrow> u32 list \<Rightarrow> nat \<Rightarrow> bool \<Rightarrow> u32 list" where
  "Kit_TruthMuxPhase pOut pIn0 pIn1 pCtrl nVars fComp0 =
    (if fComp0
     then for_words_down (Kit_TruthWordNum nVars)
       (\<lambda>w _. (NOT (pIn0 ! w) AND NOT (pCtrl ! w)) OR (pIn1 ! w AND pCtrl ! w)) pOut
     else for_words_down (Kit_TruthWordNum nVars)
       (\<lambda>w _. (pIn0 ! w AND NOT (pCtrl ! w)) OR (pIn1 ! w AND pCtrl ! w)) pOut)"

definition Kit_TruthIthVar :: "u32 list \<Rightarrow> nat \<Rightarrow> nat \<Rightarrow> u32 list" where
  "Kit_TruthIthVar pTruth nVars iVar =
    (let Masks = [0xAAAAAAAA, 0xCCCCCCCC, 0xF0F0F0F0, 0xFF00FF00, 0xFFFF0000];
         nWords = (if nVars \<le> 5 then 1 else 2 ^ (nVars - 5))
     in if iVar < 5 then for_words nWords (\<lambda>k _. Masks ! iVar) pTruth
        else for_words nWords
          (\<lambda>k _. if k AND push_bit (iVar - 5) 1 \<noteq> 0 then NOT 0 else 0) pTruth)"

lemmas Kit_TruthOps_defs =
  Kit_TruthCopy_def Kit_TruthClear_def Kit_TruthFill_def Kit_TruthNot_def Kit_TruthAnd_def Kit_TruthOr_def Kit_TruthXor_def Kit_TruthSharp_def Kit_TruthNand_def Kit_TruthMux_def Kit_TruthAndPhase_def Kit_TruthOrPhase_def Kit_TruthMuxPhase_def

lemma length_Kit_TruthCopy [simp]: "length (Kit_TruthCopy pOut pIn nVars) = length pOut"
  by (simp add: Kit_TruthCopy_def)

lemma Kit_TruthCopy_bit [tt_bits]:
  "tt_ok nVars pOut \<Longrightarrow> m < tt_size nVars \<Longrightarrow> tt_bit (Kit_TruthCopy pOut pIn nVars) m \<longleftrightarrow> tt_bit pIn m"
  by (simp only: Kit_TruthCopy_def loop_nth word_bits) (auto simp: tt_bit_def)

lemma length_Kit_TruthClear [simp]: "length (Kit_TruthClear pOut nVars) = length pOut"
  by (simp add: Kit_TruthClear_def)

lemma Kit_TruthClear_bit [tt_bits]:
  "tt_ok nVars pOut \<Longrightarrow> m < tt_size nVars \<Longrightarrow> tt_bit (Kit_TruthClear pOut nVars) m \<longleftrightarrow> False"
  by (simp only: Kit_TruthClear_def loop_nth word_bits) (auto simp: tt_bit_def)

lemma length_Kit_TruthFill [simp]: "length (Kit_TruthFill pOut nVars) = length pOut"
  by (simp add: Kit_TruthFill_def)

lemma Kit_TruthFill_bit [tt_bits]:
  "tt_ok nVars pOut \<Longrightarrow> m < tt_size nVars \<Longrightarrow> tt_bit (Kit_TruthFill pOut nVars) m \<longleftrightarrow> True"
  by (simp only: Kit_TruthFill_def loop_nth word_bits) (auto simp: tt_bit_def)

lemma length_Kit_TruthNot [simp]: "length (Kit_TruthNot pOut pIn nVars) = length pOut"
  by (simp add: Kit_TruthNot_def)

lemma Kit_TruthNot_bit [tt_bits]:
  "tt_ok nVars pOut \<Longrightarrow> m < tt_size nVars \<Longrightarrow> tt_bit (Kit_TruthNot pOut pIn nVars) m \<longleftrightarrow> \<not> tt_bit pIn m"
  by (simp only: Kit_TruthNot_def loop_nth word_bits) (auto simp: tt_bit_def)

lemma length_Kit_TruthAnd [simp]: "length (Kit_TruthAnd pOut pIn0 pIn1 nVars) = length pOut"
  by (simp add: Kit_TruthAnd_def)

lemma Kit_TruthAnd_bit [tt_bits]:
  "tt_ok nVars pOut \<Longrightarrow> m < tt_size nVars \<Longrightarrow> tt_bit (Kit_TruthAnd pOut pIn0 pIn1 nVars) m \<longleftrightarrow> tt_bit pIn0 m \<and> tt_bit pIn1 m"
  by (simp only: Kit_TruthAnd_def loop_nth word_bits) (auto simp: tt_bit_def)

lemma length_Kit_TruthOr [simp]: "length (Kit_TruthOr pOut pIn0 pIn1 nVars) = length pOut"
  by (simp add: Kit_TruthOr_def)

lemma Kit_TruthOr_bit [tt_bits]:
  "tt_ok nVars pOut \<Longrightarrow> m < tt_size nVars \<Longrightarrow> tt_bit (Kit_TruthOr pOut pIn0 pIn1 nVars) m \<longleftrightarrow> tt_bit pIn0 m \<or> tt_bit pIn1 m"
  by (simp only: Kit_TruthOr_def loop_nth word_bits) (auto simp: tt_bit_def)

lemma length_Kit_TruthXor [simp]: "length (Kit_TruthXor pOut pIn0 pIn1 nVars) = length pOut"
  by (simp add: Kit_TruthXor_def)

lemma Kit_TruthXor_bit [tt_bits]:
  "tt_ok nVars pOut \<Longrightarrow> m < tt_size nVars \<Longrightarrow> tt_bit (Kit_TruthXor pOut pIn0 pIn1 nVars) m \<longleftrightarrow> tt_bit pIn0 m \<noteq> tt_bit pIn1 m"
  by (simp only: Kit_TruthXor_def loop_nth word_bits) (auto simp: tt_bit_def)

lemma length_Kit_TruthSharp [simp]: "length (Kit_TruthSharp pOut pIn0 pIn1 nVars) = length pOut"
  by (simp add: Kit_TruthSharp_def)

lemma Kit_TruthSharp_bit [tt_bits]:
  "tt_ok nVars pOut \<Longrightarrow> m < tt_size nVars \<Longrightarrow> tt_bit (Kit_TruthSharp pOut pIn0 pIn1 nVars) m \<longleftrightarrow> tt_bit pIn0 m \<and> \<not> tt_bit pIn1 m"
  by (simp only: Kit_TruthSharp_def loop_nth word_bits) (auto simp: tt_bit_def)

lemma length_Kit_TruthNand [simp]: "length (Kit_TruthNand pOut pIn0 pIn1 nVars) = length pOut"
  by (simp add: Kit_TruthNand_def)

lemma Kit_TruthNand_bit [tt_bits]:
  "tt_ok nVars pOut \<Longrightarrow> m < tt_size nVars \<Longrightarrow> tt_bit (Kit_TruthNand pOut pIn0 pIn1 nVars) m \<longleftrightarrow> \<not> (tt_bit pIn0 m \<and> tt_bit pIn1 m)"
  by (simp only: Kit_TruthNand_def loop_nth word_bits) (auto simp: tt_bit_def)

lemma length_Kit_TruthMux [simp]: "length (Kit_TruthMux pOut pIn0 pIn1 pCtrl nVars) = length pOut"
  by (simp add: Kit_TruthMux_def)

lemma Kit_TruthMux_bit [tt_bits]:
  "tt_ok nVars pOut \<Longrightarrow> m < tt_size nVars \<Longrightarrow> tt_bit (Kit_TruthMux pOut pIn0 pIn1 pCtrl nVars) m \<longleftrightarrow> (if tt_bit pCtrl m then tt_bit pIn1 m else tt_bit pIn0 m)"
  by (simp only: Kit_TruthMux_def loop_nth word_bits) (auto simp: tt_bit_def)

lemma length_Kit_TruthAndPhase [simp]: "length (Kit_TruthAndPhase pOut pIn0 pIn1 nVars fCompl0 fCompl1) = length pOut"
  by (simp add: Kit_TruthAndPhase_def)

lemma Kit_TruthAndPhase_bit [tt_bits]:
  "tt_ok nVars pOut \<Longrightarrow> m < tt_size nVars \<Longrightarrow> tt_bit (Kit_TruthAndPhase pOut pIn0 pIn1 nVars fCompl0 fCompl1) m \<longleftrightarrow>
    ((tt_bit pIn0 m \<noteq> fCompl0) \<and> (tt_bit pIn1 m \<noteq> fCompl1))"
  by (cases fCompl0; cases fCompl1; simp only: Kit_TruthAndPhase_def loop_nth word_bits; simp add: tt_bit_def)

lemma length_Kit_TruthOrPhase [simp]: "length (Kit_TruthOrPhase pOut pIn0 pIn1 nVars fCompl0 fCompl1) = length pOut"
  by (simp add: Kit_TruthOrPhase_def)

lemma Kit_TruthOrPhase_bit [tt_bits]:
  "tt_ok nVars pOut \<Longrightarrow> m < tt_size nVars \<Longrightarrow> tt_bit (Kit_TruthOrPhase pOut pIn0 pIn1 nVars fCompl0 fCompl1) m \<longleftrightarrow>
    ((tt_bit pIn0 m \<noteq> fCompl0) \<or> (tt_bit pIn1 m \<noteq> fCompl1))"
  by (cases fCompl0; cases fCompl1; simp only: Kit_TruthOrPhase_def loop_nth word_bits; simp add: tt_bit_def)

lemma length_Kit_TruthMuxPhase [simp]:
  "length (Kit_TruthMuxPhase pOut pIn0 pIn1 pCtrl nVars fComp0) = length pOut"
  by (simp add: Kit_TruthMuxPhase_def)

lemma Kit_TruthMuxPhase_bit [tt_bits]:
  "tt_ok nVars pOut \<Longrightarrow> m < tt_size nVars \<Longrightarrow>
    tt_bit (Kit_TruthMuxPhase pOut pIn0 pIn1 pCtrl nVars fComp0) m \<longleftrightarrow>
      (if tt_bit pCtrl m then tt_bit pIn1 m else tt_bit pIn0 m \<noteq> fComp0)"
  by (cases fComp0; simp only: Kit_TruthMuxPhase_def loop_nth word_bits; auto simp: tt_bit_def)

lemma length_Kit_TruthIthVar [simp]: "length (Kit_TruthIthVar pTruth nVars iVar) = length pTruth"
  by (simp add: Kit_TruthIthVar_def Let_def)

lemma nat_and_pow_iff: "(0 < (k :: nat) AND 2 ^ b) \<longleftrightarrow> bit k b"
  unfolding neq0_conv [symmetric] bit_eq_iff [of "k AND 2 ^ b"]
  by (auto simp: bit_and_iff bit_exp_iff)

lemma nth_five: "[a,b,c,d,e] ! 0 = a" "[a,b,c,d,e] ! 1 = b" "[a,b,c,d,e] ! 2 = c" "[a,b,c,d,e] ! 3 = d" "[a,b,c,d,e] ! 4 = e"
  by simp_all

lemma var_masks:
  assumes "v < 5" "j < 32"
  shows "bit ([0xAAAAAAAA, 0xCCCCCCCC, 0xF0F0F0F0, 0xFF00FF00, 0xFFFF0000 :: u32] ! v) j \<longleftrightarrow> bit j v"
  using assms by (cases v rule: switch_cases; (simp only: nth_five mask_bits)?; simp)

text \<open>The table of variable \<open>iVar\<close> is true at the minterms whose bit \<open>iVar\<close> is set.\<close>

lemma Kit_TruthIthVar_bit [tt_bits]:
  assumes "tt_ok nVars pTruth" "iVar < nVars" "m < tt_size nVars"
  shows "tt_bit (Kit_TruthIthVar pTruth nVars iVar) m \<longleftrightarrow> bit m iVar"
proof (cases "iVar < 5")
  case True
  then show ?thesis
    using True assms tt_bit_for_words [OF assms(1,3)]
    unfolding Kit_TruthIthVar_def Let_def Kit_TruthWordNum_def [symmetric]
    by (simp add: bit_mod_32 var_masks)
next
  case False
  then have "iVar - 5 + 5 = iVar" by simp
  then show ?thesis
    using False assms tt_bit_for_words [OF assms(1,3)] bit_div_32 [of m "iVar - 5"]
    unfolding Kit_TruthIthVar_def Let_def Kit_TruthWordNum_def [symmetric]
    by (simp add: nat_and_pow_iff)
qed

section \<open>Tests\<close>

text \<open>\<open>for ( w = Kit_TruthWordNum(nVars)-1; w >= 0; w-- ) if ( bad ) return 0; return 1;\<close>\<close>

definition Kit_TruthIsEqual :: "u32 list \<Rightarrow> u32 list \<Rightarrow> nat \<Rightarrow> bool" where
  "Kit_TruthIsEqual pIn0 pIn1 nVars =
    (\<not> any_words (Kit_TruthWordNum nVars) (\<lambda>w. pIn0 ! w \<noteq> pIn1 ! w))"

definition Kit_TruthIsEqualWithCare :: "u32 list \<Rightarrow> u32 list \<Rightarrow> u32 list \<Rightarrow> nat \<Rightarrow> bool" where
  "Kit_TruthIsEqualWithCare pIn0 pIn1 pCare nVars =
    (\<not> any_words (Kit_TruthWordNum nVars) (\<lambda>w. pIn0 ! w AND pCare ! w \<noteq> pIn1 ! w AND pCare ! w))"

definition Kit_TruthIsOpposite :: "u32 list \<Rightarrow> u32 list \<Rightarrow> nat \<Rightarrow> bool" where
  "Kit_TruthIsOpposite pIn0 pIn1 nVars =
    (\<not> any_words (Kit_TruthWordNum nVars) (\<lambda>w. pIn0 ! w \<noteq> NOT (pIn1 ! w)))"

definition Kit_TruthIsConst0 :: "u32 list \<Rightarrow> nat \<Rightarrow> bool" where
  "Kit_TruthIsConst0 pIn nVars =
    (\<not> any_words (Kit_TruthWordNum nVars) (\<lambda>w. pIn ! w \<noteq> 0))"

definition Kit_TruthIsConst1 :: "u32 list \<Rightarrow> nat \<Rightarrow> bool" where
  "Kit_TruthIsConst1 pIn nVars =
    (\<not> any_words (Kit_TruthWordNum nVars) (\<lambda>w. pIn ! w \<noteq> NOT 0))"

definition Kit_TruthIsImply :: "u32 list \<Rightarrow> u32 list \<Rightarrow> nat \<Rightarrow> bool" where
  "Kit_TruthIsImply pIn1 pIn2 nVars =
    (\<not> any_words (Kit_TruthWordNum nVars) (\<lambda>w. pIn1 ! w AND NOT (pIn2 ! w) \<noteq> 0))"

definition Kit_TruthIsDisjoint :: "u32 list \<Rightarrow> u32 list \<Rightarrow> nat \<Rightarrow> bool" where
  "Kit_TruthIsDisjoint pIn1 pIn2 nVars =
    (\<not> any_words (Kit_TruthWordNum nVars) (\<lambda>w. pIn1 ! w AND pIn2 ! w \<noteq> 0))"

definition Kit_TruthIsDisjoint3 :: "u32 list \<Rightarrow> u32 list \<Rightarrow> u32 list \<Rightarrow> nat \<Rightarrow> bool" where
  "Kit_TruthIsDisjoint3 pIn1 pIn2 pIn3 nVars =
    (\<not> any_words (Kit_TruthWordNum nVars) (\<lambda>w. pIn1 ! w AND pIn2 ! w AND pIn3 ! w \<noteq> 0))"

definition Kit_TruthIsEqualWithPhase :: "u32 list \<Rightarrow> u32 list \<Rightarrow> nat \<Rightarrow> bool" where
  "Kit_TruthIsEqualWithPhase pIn0 pIn1 nVars =
    (if pIn0 ! 0 AND 1 = pIn1 ! 0 AND 1
     then \<not> any_words (Kit_TruthWordNum nVars) (\<lambda>w. pIn0 ! w \<noteq> pIn1 ! w)
     else \<not> any_words (Kit_TruthWordNum nVars) (\<lambda>w. pIn0 ! w \<noteq> NOT (pIn1 ! w)))"

lemma Kit_TruthIsEqual_iff: "Kit_TruthIsEqual pIn0 pIn1 nVars \<longleftrightarrow> (\<forall>m<tt_size nVars. tt_bit pIn0 m = tt_bit pIn1 m)"
  unfolding Kit_TruthIsEqual_def any_words_iff tt_bit_def
  by (subst all_minterm_iff [of _ "\<lambda>i j. bit (pIn0 ! i) j = bit (pIn1 ! i) j"]) (auto simp: word_eq_iff word_bits not_32 bit_and_iff)

lemma Kit_TruthIsEqualWithCare_iff: "Kit_TruthIsEqualWithCare pIn0 pIn1 pCare nVars \<longleftrightarrow> (\<forall>m<tt_size nVars. (tt_bit pCare m \<longrightarrow> tt_bit pIn0 m = tt_bit pIn1 m))"
  unfolding Kit_TruthIsEqualWithCare_def any_words_iff tt_bit_def
  by (subst all_minterm_iff [of _ "\<lambda>i j. (bit (pCare ! i) j \<longrightarrow> bit (pIn0 ! i) j = bit (pIn1 ! i) j)"]) (auto simp: word_eq_iff word_bits not_32 bit_and_iff)

lemma Kit_TruthIsOpposite_iff: "Kit_TruthIsOpposite pIn0 pIn1 nVars \<longleftrightarrow> (\<forall>m<tt_size nVars. (tt_bit pIn0 m \<longleftrightarrow> \<not> tt_bit pIn1 m))"
  unfolding Kit_TruthIsOpposite_def any_words_iff tt_bit_def
  by (subst all_minterm_iff [of _ "\<lambda>i j. (bit (pIn0 ! i) j \<longleftrightarrow> \<not> bit (pIn1 ! i) j)"]) (auto simp: word_eq_iff word_bits not_32 bit_and_iff)

lemma Kit_TruthIsConst0_iff: "Kit_TruthIsConst0 pIn nVars \<longleftrightarrow> (\<forall>m<tt_size nVars. \<not> tt_bit pIn m)"
  unfolding Kit_TruthIsConst0_def any_words_iff tt_bit_def
  by (subst all_minterm_iff [of _ "\<lambda>i j. \<not> bit (pIn ! i) j"]) (auto simp: word_eq_iff word_bits not_32 bit_and_iff)

lemma Kit_TruthIsConst1_iff: "Kit_TruthIsConst1 pIn nVars \<longleftrightarrow> (\<forall>m<tt_size nVars. tt_bit pIn m)"
  unfolding Kit_TruthIsConst1_def any_words_iff tt_bit_def
  by (subst all_minterm_iff [of _ "\<lambda>i j. bit (pIn ! i) j"]) (auto simp: word_eq_iff word_bits not_32 bit_and_iff)

lemma Kit_TruthIsImply_iff: "Kit_TruthIsImply pIn1 pIn2 nVars \<longleftrightarrow> (\<forall>m<tt_size nVars. (tt_bit pIn1 m \<longrightarrow> tt_bit pIn2 m))"
  unfolding Kit_TruthIsImply_def any_words_iff tt_bit_def
  by (subst all_minterm_iff [of _ "\<lambda>i j. (bit (pIn1 ! i) j \<longrightarrow> bit (pIn2 ! i) j)"]) (auto simp: word_eq_iff word_bits not_32 bit_and_iff)

lemma Kit_TruthIsDisjoint_iff: "Kit_TruthIsDisjoint pIn1 pIn2 nVars \<longleftrightarrow> (\<forall>m<tt_size nVars. \<not> (tt_bit pIn1 m \<and> tt_bit pIn2 m))"
  unfolding Kit_TruthIsDisjoint_def any_words_iff tt_bit_def
  by (subst all_minterm_iff [of _ "\<lambda>i j. \<not> (bit (pIn1 ! i) j \<and> bit (pIn2 ! i) j)"]) (auto simp: word_eq_iff word_bits not_32 bit_and_iff)

lemma Kit_TruthIsDisjoint3_iff: "Kit_TruthIsDisjoint3 pIn1 pIn2 pIn3 nVars \<longleftrightarrow> (\<forall>m<tt_size nVars. \<not> (tt_bit pIn1 m \<and> tt_bit pIn2 m \<and> tt_bit pIn3 m))"
  unfolding Kit_TruthIsDisjoint3_def any_words_iff tt_bit_def
  by (subst all_minterm_iff [of _ "\<lambda>i j. \<not> (bit (pIn1 ! i) j \<and> bit (pIn2 ! i) j \<and> bit (pIn3 ! i) j)"]) (auto simp: word_eq_iff word_bits not_32 bit_and_iff)

lemma Kit_TruthIsEqualWithPhase_iff:
  "Kit_TruthIsEqualWithPhase pIn0 pIn1 nVars \<longleftrightarrow>
    (\<forall>m<tt_size nVars. tt_bit pIn0 m = tt_bit pIn1 m) \<or>
    (\<forall>m<tt_size nVars. tt_bit pIn0 m \<longleftrightarrow> \<not> tt_bit pIn1 m)"
proof -
  have low: "pIn0 ! 0 AND 1 = pIn1 ! 0 AND 1 \<longleftrightarrow> tt_bit pIn0 0 = tt_bit pIn1 0"
    by (auto simp: tt_bit_def bit_0 and_one_eq odd_iff_mod_2_eq_one)
  show ?thesis
  proof (cases "tt_bit pIn0 0 = tt_bit pIn1 0")
    case True
    then have "Kit_TruthIsEqualWithPhase pIn0 pIn1 nVars = Kit_TruthIsEqual pIn0 pIn1 nVars"
      using low by (simp add: Kit_TruthIsEqualWithPhase_def Kit_TruthIsEqual_def)
    then show ?thesis using True tt_size_pos Kit_TruthIsEqual_iff by blast
  next
    case False
    then have "Kit_TruthIsEqualWithPhase pIn0 pIn1 nVars = Kit_TruthIsOpposite pIn0 pIn1 nVars"
      using low by (simp add: Kit_TruthIsEqualWithPhase_def Kit_TruthIsOpposite_def)
    then show ?thesis using False tt_size_pos Kit_TruthIsOpposite_iff by blast
  qed
qed

end
