(* ===== verification/Kit_Truth.thy ===== *)
theory Kit_Truth
  imports Kit_Words
begin

text \<open>
  \<open>kitTruth.c\<close> (abc/src/bool/kit), the part that works variable by variable: cofactors,
  quantifiers, change of phase, multiplexing of cofactors and the support tests. Every function
  is a \<open>switch\<close> on the variable: variables 0 to 4 live inside a word and use a mask and a shift
  written out in the code, the others select whole words, taken in pairs at distance \<open>Step\<close>.
  Minterm \<open>m\<close> of a table is true iff \<open>tt_bit\<close> holds; \<open>unset_bit iVar m\<close> and \<open>set_bit iVar m\<close>
  are the minterms of the two cofactors.
\<close>

unbundle bit_operations_syntax

section \<open>Operators on one variable\<close>

definition Kit_TruthCofactor0 :: "u32 list \<Rightarrow> nat \<Rightarrow> nat \<Rightarrow> u32 list" where
  "Kit_TruthCofactor0 pTruth nVars iVar =
    (let nWords = Kit_TruthWordNum nVars in
     if iVar = 0 then for_words nWords (\<lambda>i w.  (w AND 0x55555555) OR push_bit 1 (w AND 0x55555555)) pTruth
     else if iVar = 1 then for_words nWords (\<lambda>i w.  (w AND 0x33333333) OR push_bit 2 (w AND 0x33333333)) pTruth
     else if iVar = 2 then for_words nWords (\<lambda>i w.  (w AND 0x0F0F0F0F) OR push_bit 4 (w AND 0x0F0F0F0F)) pTruth
     else if iVar = 3 then for_words nWords (\<lambda>i w.  (w AND 0x00FF00FF) OR push_bit 8 (w AND 0x00FF00FF)) pTruth
     else if iVar = 4 then for_words nWords (\<lambda>i w.  (w AND 0x0000FFFF) OR push_bit 16 (w AND 0x0000FFFF)) pTruth
     else let Step = 2 ^ (iVar - 5) in
       for_pairs nWords Step (\<lambda>lo hi x y. (x, x)) pTruth)"

definition Kit_TruthCofactor1 :: "u32 list \<Rightarrow> nat \<Rightarrow> nat \<Rightarrow> u32 list" where
  "Kit_TruthCofactor1 pTruth nVars iVar =
    (let nWords = Kit_TruthWordNum nVars in
     if iVar = 0 then for_words nWords (\<lambda>i w.  (w AND 0xAAAAAAAA) OR drop_bit 1 (w AND 0xAAAAAAAA)) pTruth
     else if iVar = 1 then for_words nWords (\<lambda>i w.  (w AND 0xCCCCCCCC) OR drop_bit 2 (w AND 0xCCCCCCCC)) pTruth
     else if iVar = 2 then for_words nWords (\<lambda>i w.  (w AND 0xF0F0F0F0) OR drop_bit 4 (w AND 0xF0F0F0F0)) pTruth
     else if iVar = 3 then for_words nWords (\<lambda>i w.  (w AND 0xFF00FF00) OR drop_bit 8 (w AND 0xFF00FF00)) pTruth
     else if iVar = 4 then for_words nWords (\<lambda>i w.  (w AND 0xFFFF0000) OR drop_bit 16 (w AND 0xFFFF0000)) pTruth
     else let Step = 2 ^ (iVar - 5) in
       for_pairs nWords Step (\<lambda>lo hi x y. (y, y)) pTruth)"

definition Kit_TruthExist :: "u32 list \<Rightarrow> nat \<Rightarrow> nat \<Rightarrow> u32 list" where
  "Kit_TruthExist pTruth nVars iVar =
    (let nWords = Kit_TruthWordNum nVars in
     if iVar = 0 then for_words nWords (\<lambda>i w.  w OR (drop_bit 1 (w AND 0xAAAAAAAA) OR push_bit 1 (w AND 0x55555555))) pTruth
     else if iVar = 1 then for_words nWords (\<lambda>i w.  w OR (drop_bit 2 (w AND 0xCCCCCCCC) OR push_bit 2 (w AND 0x33333333))) pTruth
     else if iVar = 2 then for_words nWords (\<lambda>i w.  w OR (drop_bit 4 (w AND 0xF0F0F0F0) OR push_bit 4 (w AND 0x0F0F0F0F))) pTruth
     else if iVar = 3 then for_words nWords (\<lambda>i w.  w OR (drop_bit 8 (w AND 0xFF00FF00) OR push_bit 8 (w AND 0x00FF00FF))) pTruth
     else if iVar = 4 then for_words nWords (\<lambda>i w.  w OR (drop_bit 16 (w AND 0xFFFF0000) OR push_bit 16 (w AND 0x0000FFFF))) pTruth
     else let Step = 2 ^ (iVar - 5) in
       for_pairs nWords Step (\<lambda>lo hi x y. (x OR y, x OR y)) pTruth)"

definition Kit_TruthForall :: "u32 list \<Rightarrow> nat \<Rightarrow> nat \<Rightarrow> u32 list" where
  "Kit_TruthForall pTruth nVars iVar =
    (let nWords = Kit_TruthWordNum nVars in
     if iVar = 0 then for_words nWords (\<lambda>i w.  w AND (drop_bit 1 (w AND 0xAAAAAAAA) OR push_bit 1 (w AND 0x55555555))) pTruth
     else if iVar = 1 then for_words nWords (\<lambda>i w.  w AND (drop_bit 2 (w AND 0xCCCCCCCC) OR push_bit 2 (w AND 0x33333333))) pTruth
     else if iVar = 2 then for_words nWords (\<lambda>i w.  w AND (drop_bit 4 (w AND 0xF0F0F0F0) OR push_bit 4 (w AND 0x0F0F0F0F))) pTruth
     else if iVar = 3 then for_words nWords (\<lambda>i w.  w AND (drop_bit 8 (w AND 0xFF00FF00) OR push_bit 8 (w AND 0x00FF00FF))) pTruth
     else if iVar = 4 then for_words nWords (\<lambda>i w.  w AND (drop_bit 16 (w AND 0xFFFF0000) OR push_bit 16 (w AND 0x0000FFFF))) pTruth
     else let Step = 2 ^ (iVar - 5) in
       for_pairs nWords Step (\<lambda>lo hi x y. (x AND y, x AND y)) pTruth)"

definition Kit_TruthChangePhase :: "u32 list \<Rightarrow> nat \<Rightarrow> nat \<Rightarrow> u32 list" where
  "Kit_TruthChangePhase pTruth nVars iVar =
    (let nWords = Kit_TruthWordNum nVars in
     if iVar = 0 then for_words nWords (\<lambda>i w.  push_bit 1 (w AND 0x55555555) OR drop_bit 1 (w AND 0xAAAAAAAA)) pTruth
     else if iVar = 1 then for_words nWords (\<lambda>i w.  push_bit 2 (w AND 0x33333333) OR drop_bit 2 (w AND 0xCCCCCCCC)) pTruth
     else if iVar = 2 then for_words nWords (\<lambda>i w.  push_bit 4 (w AND 0x0F0F0F0F) OR drop_bit 4 (w AND 0xF0F0F0F0)) pTruth
     else if iVar = 3 then for_words nWords (\<lambda>i w.  push_bit 8 (w AND 0x00FF00FF) OR drop_bit 8 (w AND 0xFF00FF00)) pTruth
     else if iVar = 4 then for_words nWords (\<lambda>i w.  push_bit 16 (w AND 0x0000FFFF) OR drop_bit 16 (w AND 0xFFFF0000)) pTruth
     else let Step = 2 ^ (iVar - 5) in
       for_pairs nWords Step (\<lambda>lo hi x y. (y, x)) pTruth)"

definition Kit_TruthCofactor0New :: "u32 list \<Rightarrow> u32 list \<Rightarrow> nat \<Rightarrow> nat \<Rightarrow> u32 list" where
  "Kit_TruthCofactor0New pOut pIn nVars iVar =
    (let nWords = Kit_TruthWordNum nVars in
     if iVar = 0 then for_words nWords (\<lambda>i _.  (pIn ! i AND 0x55555555) OR push_bit 1 (pIn ! i AND 0x55555555)) pOut
     else if iVar = 1 then for_words nWords (\<lambda>i _.  (pIn ! i AND 0x33333333) OR push_bit 2 (pIn ! i AND 0x33333333)) pOut
     else if iVar = 2 then for_words nWords (\<lambda>i _.  (pIn ! i AND 0x0F0F0F0F) OR push_bit 4 (pIn ! i AND 0x0F0F0F0F)) pOut
     else if iVar = 3 then for_words nWords (\<lambda>i _.  (pIn ! i AND 0x00FF00FF) OR push_bit 8 (pIn ! i AND 0x00FF00FF)) pOut
     else if iVar = 4 then for_words nWords (\<lambda>i _.  (pIn ! i AND 0x0000FFFF) OR push_bit 16 (pIn ! i AND 0x0000FFFF)) pOut
     else let Step = 2 ^ (iVar - 5) in
       for_pairs nWords Step (\<lambda>lo hi _ _. (pIn ! lo, pIn ! lo)) pOut)"

definition Kit_TruthCofactor1New :: "u32 list \<Rightarrow> u32 list \<Rightarrow> nat \<Rightarrow> nat \<Rightarrow> u32 list" where
  "Kit_TruthCofactor1New pOut pIn nVars iVar =
    (let nWords = Kit_TruthWordNum nVars in
     if iVar = 0 then for_words nWords (\<lambda>i _.  (pIn ! i AND 0xAAAAAAAA) OR drop_bit 1 (pIn ! i AND 0xAAAAAAAA)) pOut
     else if iVar = 1 then for_words nWords (\<lambda>i _.  (pIn ! i AND 0xCCCCCCCC) OR drop_bit 2 (pIn ! i AND 0xCCCCCCCC)) pOut
     else if iVar = 2 then for_words nWords (\<lambda>i _.  (pIn ! i AND 0xF0F0F0F0) OR drop_bit 4 (pIn ! i AND 0xF0F0F0F0)) pOut
     else if iVar = 3 then for_words nWords (\<lambda>i _.  (pIn ! i AND 0xFF00FF00) OR drop_bit 8 (pIn ! i AND 0xFF00FF00)) pOut
     else if iVar = 4 then for_words nWords (\<lambda>i _.  (pIn ! i AND 0xFFFF0000) OR drop_bit 16 (pIn ! i AND 0xFFFF0000)) pOut
     else let Step = 2 ^ (iVar - 5) in
       for_pairs nWords Step (\<lambda>lo hi _ _. (pIn ! hi, pIn ! hi)) pOut)"

definition Kit_TruthExistNew :: "u32 list \<Rightarrow> u32 list \<Rightarrow> nat \<Rightarrow> nat \<Rightarrow> u32 list" where
  "Kit_TruthExistNew pRes pTruth nVars iVar =
    (let nWords = Kit_TruthWordNum nVars in
     if iVar = 0 then for_words nWords (\<lambda>i _.  pTruth ! i OR drop_bit 1 (pTruth ! i AND 0xAAAAAAAA) OR push_bit 1 (pTruth ! i AND 0x55555555)) pRes
     else if iVar = 1 then for_words nWords (\<lambda>i _.  pTruth ! i OR drop_bit 2 (pTruth ! i AND 0xCCCCCCCC) OR push_bit 2 (pTruth ! i AND 0x33333333)) pRes
     else if iVar = 2 then for_words nWords (\<lambda>i _.  pTruth ! i OR drop_bit 4 (pTruth ! i AND 0xF0F0F0F0) OR push_bit 4 (pTruth ! i AND 0x0F0F0F0F)) pRes
     else if iVar = 3 then for_words nWords (\<lambda>i _.  pTruth ! i OR drop_bit 8 (pTruth ! i AND 0xFF00FF00) OR push_bit 8 (pTruth ! i AND 0x00FF00FF)) pRes
     else if iVar = 4 then for_words nWords (\<lambda>i _.  pTruth ! i OR drop_bit 16 (pTruth ! i AND 0xFFFF0000) OR push_bit 16 (pTruth ! i AND 0x0000FFFF)) pRes
     else let Step = 2 ^ (iVar - 5) in
       for_pairs nWords Step
         (\<lambda>lo hi _ _. let r = pTruth ! lo OR pTruth ! hi in (r, r)) pRes)"

definition Kit_TruthForallNew :: "u32 list \<Rightarrow> u32 list \<Rightarrow> nat \<Rightarrow> nat \<Rightarrow> u32 list" where
  "Kit_TruthForallNew pRes pTruth nVars iVar =
    (let nWords = Kit_TruthWordNum nVars in
     if iVar = 0 then for_words nWords (\<lambda>i _.  pTruth ! i AND (drop_bit 1 (pTruth ! i AND 0xAAAAAAAA) OR push_bit 1 (pTruth ! i AND 0x55555555))) pRes
     else if iVar = 1 then for_words nWords (\<lambda>i _.  pTruth ! i AND (drop_bit 2 (pTruth ! i AND 0xCCCCCCCC) OR push_bit 2 (pTruth ! i AND 0x33333333))) pRes
     else if iVar = 2 then for_words nWords (\<lambda>i _.  pTruth ! i AND (drop_bit 4 (pTruth ! i AND 0xF0F0F0F0) OR push_bit 4 (pTruth ! i AND 0x0F0F0F0F))) pRes
     else if iVar = 3 then for_words nWords (\<lambda>i _.  pTruth ! i AND (drop_bit 8 (pTruth ! i AND 0xFF00FF00) OR push_bit 8 (pTruth ! i AND 0x00FF00FF))) pRes
     else if iVar = 4 then for_words nWords (\<lambda>i _.  pTruth ! i AND (drop_bit 16 (pTruth ! i AND 0xFFFF0000) OR push_bit 16 (pTruth ! i AND 0x0000FFFF))) pRes
     else let Step = 2 ^ (iVar - 5) in
       for_pairs nWords Step
         (\<lambda>lo hi _ _. let r = pTruth ! lo AND pTruth ! hi in (r, r)) pRes)"

definition Kit_TruthUniqueNew :: "u32 list \<Rightarrow> u32 list \<Rightarrow> nat \<Rightarrow> nat \<Rightarrow> u32 list" where
  "Kit_TruthUniqueNew pRes pTruth nVars iVar =
    (let nWords = Kit_TruthWordNum nVars in
     if iVar = 0 then for_words nWords (\<lambda>i _.  pTruth ! i XOR (drop_bit 1 (pTruth ! i AND 0xAAAAAAAA) OR push_bit 1 (pTruth ! i AND 0x55555555))) pRes
     else if iVar = 1 then for_words nWords (\<lambda>i _.  pTruth ! i XOR (drop_bit 2 (pTruth ! i AND 0xCCCCCCCC) OR push_bit 2 (pTruth ! i AND 0x33333333))) pRes
     else if iVar = 2 then for_words nWords (\<lambda>i _.  pTruth ! i XOR (drop_bit 4 (pTruth ! i AND 0xF0F0F0F0) OR push_bit 4 (pTruth ! i AND 0x0F0F0F0F))) pRes
     else if iVar = 3 then for_words nWords (\<lambda>i _.  pTruth ! i XOR (drop_bit 8 (pTruth ! i AND 0xFF00FF00) OR push_bit 8 (pTruth ! i AND 0x00FF00FF))) pRes
     else if iVar = 4 then for_words nWords (\<lambda>i _.  pTruth ! i XOR (drop_bit 16 (pTruth ! i AND 0xFFFF0000) OR push_bit 16 (pTruth ! i AND 0x0000FFFF))) pRes
     else let Step = 2 ^ (iVar - 5) in
       for_pairs nWords Step
         (\<lambda>lo hi _ _. let r = pTruth ! lo XOR pTruth ! hi in (r, r)) pRes)"

definition Kit_TruthMuxVar :: "u32 list \<Rightarrow> u32 list \<Rightarrow> u32 list \<Rightarrow> nat \<Rightarrow> nat \<Rightarrow> u32 list" where
  "Kit_TruthMuxVar pOut pCof0 pCof1 nVars iVar =
    (let nWords = Kit_TruthWordNum nVars in
     if iVar = 0 then for_words nWords (\<lambda>i _.  (pCof0 ! i AND 0x55555555) OR (pCof1 ! i AND 0xAAAAAAAA)) pOut
     else if iVar = 1 then for_words nWords (\<lambda>i _.  (pCof0 ! i AND 0x33333333) OR (pCof1 ! i AND 0xCCCCCCCC)) pOut
     else if iVar = 2 then for_words nWords (\<lambda>i _.  (pCof0 ! i AND 0x0F0F0F0F) OR (pCof1 ! i AND 0xF0F0F0F0)) pOut
     else if iVar = 3 then for_words nWords (\<lambda>i _.  (pCof0 ! i AND 0x00FF00FF) OR (pCof1 ! i AND 0xFF00FF00)) pOut
     else if iVar = 4 then for_words nWords (\<lambda>i _.  (pCof0 ! i AND 0x0000FFFF) OR (pCof1 ! i AND 0xFFFF0000)) pOut
     else let Step = 2 ^ (iVar - 5) in
       for_pairs nWords Step (\<lambda>lo hi _ _. (pCof0 ! lo, pCof1 ! hi)) pOut)"

definition Kit_TruthMuxVarPhase :: "u32 list \<Rightarrow> u32 list \<Rightarrow> u32 list \<Rightarrow> nat \<Rightarrow> nat \<Rightarrow> bool \<Rightarrow> u32 list" where
  "Kit_TruthMuxVarPhase pOut pCof0 pCof1 nVars iVar fCompl0 =
    (if \<not> fCompl0 then Kit_TruthMuxVar pOut pCof0 pCof1 nVars iVar else
    (let nWords = Kit_TruthWordNum nVars in
     if iVar = 0 then for_words nWords (\<lambda>i _.  (NOT (pCof0 ! i) AND 0x55555555) OR (pCof1 ! i AND 0xAAAAAAAA)) pOut
     else if iVar = 1 then for_words nWords (\<lambda>i _.  (NOT (pCof0 ! i) AND 0x33333333) OR (pCof1 ! i AND 0xCCCCCCCC)) pOut
     else if iVar = 2 then for_words nWords (\<lambda>i _.  (NOT (pCof0 ! i) AND 0x0F0F0F0F) OR (pCof1 ! i AND 0xF0F0F0F0)) pOut
     else if iVar = 3 then for_words nWords (\<lambda>i _.  (NOT (pCof0 ! i) AND 0x00FF00FF) OR (pCof1 ! i AND 0xFF00FF00)) pOut
     else if iVar = 4 then for_words nWords (\<lambda>i _.  (NOT (pCof0 ! i) AND 0x0000FFFF) OR (pCof1 ! i AND 0xFFFF0000)) pOut
     else let Step = 2 ^ (iVar - 5) in
       for_pairs nWords Step (\<lambda>lo hi _ _. (NOT (pCof0 ! lo), pCof1 ! hi)) pOut))"

subsection \<open>What they compute\<close>

lemma length_Kit_TruthCofactor0 [simp]:
  "length (Kit_TruthCofactor0 pTruth nVars iVar) = length pTruth"
  by (simp add: Kit_TruthCofactor0_def Let_def)

lemma Kit_TruthCofactor0_bit [tt_bits]:
  assumes "tt_ok nVars pTruth" "iVar < nVars" "m < tt_size nVars"
  shows "tt_bit (Kit_TruthCofactor0 pTruth nVars iVar) m \<longleftrightarrow>
    tt_bit pTruth (unset_bit iVar m)"
  using assms
  by (cases iVar rule: switch_cases;
      simp only: Kit_TruthCofactor0_def loop_nth tt_bit_index_lo tt_bit_index_hi word_bits;
      cases "bit m iVar"; auto simp: bit_mod_32 bit_div_32 tt_bit_def bit_or_iff bit_and_iff bit_xor_iff not_32)

lemma length_Kit_TruthCofactor1 [simp]:
  "length (Kit_TruthCofactor1 pTruth nVars iVar) = length pTruth"
  by (simp add: Kit_TruthCofactor1_def Let_def)

lemma Kit_TruthCofactor1_bit [tt_bits]:
  assumes "tt_ok nVars pTruth" "iVar < nVars" "m < tt_size nVars"
  shows "tt_bit (Kit_TruthCofactor1 pTruth nVars iVar) m \<longleftrightarrow>
    tt_bit pTruth (set_bit iVar m)"
  using assms
  by (cases iVar rule: switch_cases;
      simp only: Kit_TruthCofactor1_def loop_nth tt_bit_index_lo tt_bit_index_hi word_bits;
      cases "bit m iVar"; auto simp: bit_mod_32 bit_div_32 tt_bit_def bit_or_iff bit_and_iff bit_xor_iff not_32)

lemma length_Kit_TruthExist [simp]:
  "length (Kit_TruthExist pTruth nVars iVar) = length pTruth"
  by (simp add: Kit_TruthExist_def Let_def)

lemma Kit_TruthExist_bit [tt_bits]:
  assumes "tt_ok nVars pTruth" "iVar < nVars" "m < tt_size nVars"
  shows "tt_bit (Kit_TruthExist pTruth nVars iVar) m \<longleftrightarrow>
    tt_bit pTruth (unset_bit iVar m) \<or> tt_bit pTruth (set_bit iVar m)"
  using assms
  by (cases iVar rule: switch_cases;
      simp only: Kit_TruthExist_def loop_nth tt_bit_index_lo tt_bit_index_hi word_bits;
      cases "bit m iVar"; auto simp: bit_mod_32 bit_div_32 tt_bit_def bit_or_iff bit_and_iff bit_xor_iff not_32)

lemma length_Kit_TruthForall [simp]:
  "length (Kit_TruthForall pTruth nVars iVar) = length pTruth"
  by (simp add: Kit_TruthForall_def Let_def)

lemma Kit_TruthForall_bit [tt_bits]:
  assumes "tt_ok nVars pTruth" "iVar < nVars" "m < tt_size nVars"
  shows "tt_bit (Kit_TruthForall pTruth nVars iVar) m \<longleftrightarrow>
    tt_bit pTruth (unset_bit iVar m) \<and> tt_bit pTruth (set_bit iVar m)"
  using assms
  by (cases iVar rule: switch_cases;
      simp only: Kit_TruthForall_def loop_nth tt_bit_index_lo tt_bit_index_hi word_bits;
      cases "bit m iVar"; auto simp: bit_mod_32 bit_div_32 tt_bit_def bit_or_iff bit_and_iff bit_xor_iff not_32)

lemma length_Kit_TruthChangePhase [simp]:
  "length (Kit_TruthChangePhase pTruth nVars iVar) = length pTruth"
  by (simp add: Kit_TruthChangePhase_def Let_def)

lemma Kit_TruthChangePhase_bit [tt_bits]:
  assumes "tt_ok nVars pTruth" "iVar < nVars" "m < tt_size nVars"
  shows "tt_bit (Kit_TruthChangePhase pTruth nVars iVar) m \<longleftrightarrow>
    (if bit m iVar then tt_bit pTruth (unset_bit iVar m) else tt_bit pTruth (set_bit iVar m))"
  using assms
  by (cases iVar rule: switch_cases;
      simp only: Kit_TruthChangePhase_def loop_nth tt_bit_index_lo tt_bit_index_hi word_bits;
      cases "bit m iVar"; auto simp: bit_mod_32 bit_div_32 tt_bit_def bit_or_iff bit_and_iff bit_xor_iff not_32)

lemma length_Kit_TruthCofactor0New [simp]:
  "length (Kit_TruthCofactor0New pOut pIn nVars iVar) = length pOut"
  by (simp add: Kit_TruthCofactor0New_def Let_def)

lemma Kit_TruthCofactor0New_bit [tt_bits]:
  assumes "tt_ok nVars pOut" "iVar < nVars" "m < tt_size nVars"
  shows "tt_bit (Kit_TruthCofactor0New pOut pIn nVars iVar) m \<longleftrightarrow>
    tt_bit pIn (unset_bit iVar m)"
  using assms
  by (cases iVar rule: switch_cases;
      simp only: Kit_TruthCofactor0New_def loop_nth tt_bit_index_lo tt_bit_index_hi word_bits;
      cases "bit m iVar"; auto simp: bit_mod_32 bit_div_32 tt_bit_def bit_or_iff bit_and_iff bit_xor_iff not_32)

lemma length_Kit_TruthCofactor1New [simp]:
  "length (Kit_TruthCofactor1New pOut pIn nVars iVar) = length pOut"
  by (simp add: Kit_TruthCofactor1New_def Let_def)

lemma Kit_TruthCofactor1New_bit [tt_bits]:
  assumes "tt_ok nVars pOut" "iVar < nVars" "m < tt_size nVars"
  shows "tt_bit (Kit_TruthCofactor1New pOut pIn nVars iVar) m \<longleftrightarrow>
    tt_bit pIn (set_bit iVar m)"
  using assms
  by (cases iVar rule: switch_cases;
      simp only: Kit_TruthCofactor1New_def loop_nth tt_bit_index_lo tt_bit_index_hi word_bits;
      cases "bit m iVar"; auto simp: bit_mod_32 bit_div_32 tt_bit_def bit_or_iff bit_and_iff bit_xor_iff not_32)

lemma length_Kit_TruthExistNew [simp]:
  "length (Kit_TruthExistNew pRes pTruth nVars iVar) = length pRes"
  by (simp add: Kit_TruthExistNew_def Let_def)

lemma Kit_TruthExistNew_bit [tt_bits]:
  assumes "tt_ok nVars pRes" "iVar < nVars" "m < tt_size nVars"
  shows "tt_bit (Kit_TruthExistNew pRes pTruth nVars iVar) m \<longleftrightarrow>
    tt_bit pTruth (unset_bit iVar m) \<or> tt_bit pTruth (set_bit iVar m)"
  using assms
  by (cases iVar rule: switch_cases;
      simp only: Kit_TruthExistNew_def loop_nth tt_bit_index_lo tt_bit_index_hi word_bits;
      cases "bit m iVar"; auto simp: bit_mod_32 bit_div_32 tt_bit_def bit_or_iff bit_and_iff bit_xor_iff not_32)

lemma length_Kit_TruthForallNew [simp]:
  "length (Kit_TruthForallNew pRes pTruth nVars iVar) = length pRes"
  by (simp add: Kit_TruthForallNew_def Let_def)

lemma Kit_TruthForallNew_bit [tt_bits]:
  assumes "tt_ok nVars pRes" "iVar < nVars" "m < tt_size nVars"
  shows "tt_bit (Kit_TruthForallNew pRes pTruth nVars iVar) m \<longleftrightarrow>
    tt_bit pTruth (unset_bit iVar m) \<and> tt_bit pTruth (set_bit iVar m)"
  using assms
  by (cases iVar rule: switch_cases;
      simp only: Kit_TruthForallNew_def loop_nth tt_bit_index_lo tt_bit_index_hi word_bits;
      cases "bit m iVar"; auto simp: bit_mod_32 bit_div_32 tt_bit_def bit_or_iff bit_and_iff bit_xor_iff not_32)

lemma length_Kit_TruthUniqueNew [simp]:
  "length (Kit_TruthUniqueNew pRes pTruth nVars iVar) = length pRes"
  by (simp add: Kit_TruthUniqueNew_def Let_def)

lemma Kit_TruthUniqueNew_bit [tt_bits]:
  assumes "tt_ok nVars pRes" "iVar < nVars" "m < tt_size nVars"
  shows "tt_bit (Kit_TruthUniqueNew pRes pTruth nVars iVar) m \<longleftrightarrow>
    tt_bit pTruth (unset_bit iVar m) \<noteq> tt_bit pTruth (set_bit iVar m)"
  using assms
  by (cases iVar rule: switch_cases;
      simp only: Kit_TruthUniqueNew_def loop_nth tt_bit_index_lo tt_bit_index_hi word_bits;
      cases "bit m iVar"; auto simp: bit_mod_32 bit_div_32 tt_bit_def bit_or_iff bit_and_iff bit_xor_iff not_32)

lemma length_Kit_TruthMuxVar [simp]:
  "length (Kit_TruthMuxVar pOut pCof0 pCof1 nVars iVar) = length pOut"
  by (simp add: Kit_TruthMuxVar_def Let_def)

lemma Kit_TruthMuxVar_bit [tt_bits]:
  assumes "tt_ok nVars pOut" "iVar < nVars" "m < tt_size nVars"
  shows "tt_bit (Kit_TruthMuxVar pOut pCof0 pCof1 nVars iVar) m \<longleftrightarrow>
    (if bit m iVar then tt_bit pCof1 m else tt_bit pCof0 m)"
  using assms
  by (cases iVar rule: switch_cases;
      simp only: Kit_TruthMuxVar_def loop_nth tt_bit_index_lo tt_bit_index_hi word_bits;
      cases "bit m iVar"; auto simp: bit_mod_32 bit_div_32 tt_bit_def bit_or_iff bit_and_iff bit_xor_iff not_32)

lemma length_Kit_TruthMuxVarPhase [simp]:
  "length (Kit_TruthMuxVarPhase pOut pCof0 pCof1 nVars iVar fCompl0) = length pOut"
  by (simp add: Kit_TruthMuxVarPhase_def Let_def)

lemma Kit_TruthMuxVarPhase_bit [tt_bits]:
  assumes "tt_ok nVars pOut" "iVar < nVars" "m < tt_size nVars"
  shows "tt_bit (Kit_TruthMuxVarPhase pOut pCof0 pCof1 nVars iVar fCompl0) m \<longleftrightarrow>
    (if bit m iVar then tt_bit pCof1 m else tt_bit pCof0 m \<noteq> fCompl0)"
proof (cases fCompl0)
  case True
  then show ?thesis using assms
    by (cases iVar rule: switch_cases;
        simp only: Kit_TruthMuxVarPhase_def loop_nth tt_bit_index_lo tt_bit_index_hi word_bits;
        cases "bit m iVar"; auto simp: bit_mod_32 bit_div_32 tt_bit_def bit_or_iff bit_and_iff bit_xor_iff not_32)
next
  case False
  then show ?thesis using assms by (simp add: Kit_TruthMuxVarPhase_def Kit_TruthMuxVar_bit)
qed

section \<open>Support\<close>

definition Kit_TruthVarInSupport :: "u32 list \<Rightarrow> nat \<Rightarrow> nat \<Rightarrow> bool" where
  "Kit_TruthVarInSupport pTruth nVars iVar =
    (let nWords = Kit_TruthWordNum nVars in
     if iVar = 0 then any_words nWords (\<lambda>i.  pTruth ! i AND 0x55555555 \<noteq> drop_bit 1 (pTruth ! i AND 0xAAAAAAAA))
     else if iVar = 1 then any_words nWords (\<lambda>i.  pTruth ! i AND 0x33333333 \<noteq> drop_bit 2 (pTruth ! i AND 0xCCCCCCCC))
     else if iVar = 2 then any_words nWords (\<lambda>i.  pTruth ! i AND 0x0F0F0F0F \<noteq> drop_bit 4 (pTruth ! i AND 0xF0F0F0F0))
     else if iVar = 3 then any_words nWords (\<lambda>i.  pTruth ! i AND 0x00FF00FF \<noteq> drop_bit 8 (pTruth ! i AND 0xFF00FF00))
     else if iVar = 4 then any_words nWords (\<lambda>i.  pTruth ! i AND 0x0000FFFF \<noteq> drop_bit 16 (pTruth ! i AND 0xFFFF0000))
     else let Step = 2 ^ (iVar - 5) in
       any_pairs nWords Step (\<lambda>lo hi. pTruth ! lo \<noteq> pTruth ! hi))"

definition Kit_TruthVarIsVacuous :: "u32 list \<Rightarrow> u32 list \<Rightarrow> nat \<Rightarrow> nat \<Rightarrow> bool" where
  "Kit_TruthVarIsVacuous pOnset pOffset nVars iVar =
    (let nWords = Kit_TruthWordNum nVars in
     if iVar = 0 then \<not> any_words nWords
       (\<lambda>i.  ((pOnset ! i AND drop_bit 1 (pOffset ! i)) OR (pOffset ! i AND drop_bit 1 (pOnset ! i))) AND 0x55555555 \<noteq> 0)
     else if iVar = 1 then \<not> any_words nWords
       (\<lambda>i.  ((pOnset ! i AND drop_bit 2 (pOffset ! i)) OR (pOffset ! i AND drop_bit 2 (pOnset ! i))) AND 0x33333333 \<noteq> 0)
     else if iVar = 2 then \<not> any_words nWords
       (\<lambda>i.  ((pOnset ! i AND drop_bit 4 (pOffset ! i)) OR (pOffset ! i AND drop_bit 4 (pOnset ! i))) AND 0x0F0F0F0F \<noteq> 0)
     else if iVar = 3 then \<not> any_words nWords
       (\<lambda>i.  ((pOnset ! i AND drop_bit 8 (pOffset ! i)) OR (pOffset ! i AND drop_bit 8 (pOnset ! i))) AND 0x00FF00FF \<noteq> 0)
     else if iVar = 4 then \<not> any_words nWords
       (\<lambda>i.  ((pOnset ! i AND drop_bit 16 (pOffset ! i)) OR (pOffset ! i AND drop_bit 16 (pOnset ! i))) AND 0x0000FFFF \<noteq> 0)
     else let Step = 2 ^ (iVar - 5) in
       \<not> any_pairs nWords Step
         (\<lambda>lo hi. (pOnset ! lo AND pOffset ! hi) OR (pOffset ! lo AND pOnset ! hi) \<noteq> 0))"

definition Kit_TruthSupportSize :: "u32 list \<Rightarrow> nat \<Rightarrow> nat" where
  "Kit_TruthSupportSize pTruth nVars =
    fold (\<lambda>i Counter. Counter + (if Kit_TruthVarInSupport pTruth nVars i then 1 else 0)) [0..<nVars] 0"

definition Kit_TruthSupport :: "u32 list \<Rightarrow> nat \<Rightarrow> u32" where
  "Kit_TruthSupport pTruth nVars =
    fold (\<lambda>i Support. if Kit_TruthVarInSupport pTruth nVars i then Support OR push_bit i 1 else Support)
      [0..<nVars] 0"

text \<open>
  A variable is in the support iff some minterm changes its value when the variable flips.
\<close>

lemma ex_minterm_word:
  "v < 5 \<Longrightarrow> (\<exists>m<tt_size n. P (m div 32) (m mod 32) (bit m v)) \<longleftrightarrow>
    (\<exists>i<Kit_TruthWordNum n. \<exists>j<32. P i j (bit j v))"
  using ex_minterm_iff [of n "\<lambda>i j. P i j (bit j v)"] by (simp add: bit_mod_32)

lemma ex_minterm_pair:
  "(\<exists>m<tt_size n. P (m div 32) (m mod 32) (bit m (b + 5))) \<longleftrightarrow>
    (\<exists>i<Kit_TruthWordNum n. \<exists>j<32. P i j (bit i b))"
  using ex_minterm_iff [of n "\<lambda>i j. P i j (bit i b)"] by (simp add: bit_div_32)

lemma Kit_TruthVarInSupport_low:
  assumes "v < 5"
    and "\<And>w j. j < 32 \<Longrightarrow> bit (lo w :: u32) j \<longleftrightarrow> bit w j \<and> \<not> bit j v"
    and "\<And>w j. j < 32 \<Longrightarrow> bit (hi w :: u32) j \<longleftrightarrow> \<not> bit j v \<and> bit w (set_bit v j)"
  shows "any_words (Kit_TruthWordNum n) (\<lambda>i. lo (p ! i) \<noteq> hi (p ! i)) \<longleftrightarrow>
    (\<exists>m<tt_size n. \<not> bit m v \<and> tt_bit p m \<noteq> tt_bit p (set_bit v m))"
proof -
  have "lo w \<noteq> hi w \<longleftrightarrow> (\<exists>j<32. \<not> bit j v \<and> bit w j \<noteq> bit w (set_bit v j))" for w
    unfolding word_neq_iff using assms(2,3) by blast
  then show ?thesis
    unfolding any_words_iff tt_bit_index_lo(2) [OF assms(1)]
    unfolding tt_bit_def
    using ex_minterm_word [OF assms(1), of n "\<lambda>i j x. \<not> x \<and> bit (p ! i) j \<noteq> bit (p ! i) (set_bit v j)"]
    by simp
qed

lemma Kit_TruthVarInSupport_iff:
  assumes "iVar < nVars"
  shows "Kit_TruthVarInSupport p nVars iVar \<longleftrightarrow>
    (\<exists>m<tt_size nVars. \<not> bit m iVar \<and> tt_bit p m \<noteq> tt_bit p (set_bit iVar m))"
proof (cases iVar rule: switch_cases)
  case (default b)
  have "Kit_TruthVarInSupport p nVars iVar \<longleftrightarrow>
      (\<exists>i<Kit_TruthWordNum nVars. \<not> bit i b \<and> (\<exists>j<32. bit (p ! i) j \<noteq> bit (p ! set_bit b i) j))"
    using assms default
    by (simp add: Kit_TruthVarInSupport_def any_pairs_default word_neq_iff)
  also have "\<dots> \<longleftrightarrow> (\<exists>i<Kit_TruthWordNum nVars. \<exists>j<32.
      \<not> bit i b \<and> bit (p ! i) j \<noteq> bit (p ! set_bit b i) j)"
    by blast
  also have "\<dots> \<longleftrightarrow> (\<exists>m<tt_size nVars. \<not> bit m iVar \<and> tt_bit p m \<noteq> tt_bit p (set_bit iVar m))"
    unfolding default tt_bit_index_hi
    unfolding tt_bit_def bit_div_32 [symmetric]
    by (rule ex_minterm_iff [symmetric])
  finally show ?thesis .
next
  case V0
  then show ?thesis
    using Kit_TruthVarInSupport_low [of 0 "\<lambda>w. w AND 0x55555555" "\<lambda>w. drop_bit 1 (w AND 0xAAAAAAAA)" nVars p]
    by (simp only: Kit_TruthVarInSupport_def word_bits)
next
  case V1
  then show ?thesis
    using Kit_TruthVarInSupport_low [of 1 "\<lambda>w. w AND 0x33333333" "\<lambda>w. drop_bit 2 (w AND 0xCCCCCCCC)" nVars p]
    by (simp only: Kit_TruthVarInSupport_def word_bits)
next
  case V2
  then show ?thesis
    using Kit_TruthVarInSupport_low [of 2 "\<lambda>w. w AND 0x0F0F0F0F" "\<lambda>w. drop_bit 4 (w AND 0xF0F0F0F0)" nVars p]
    by (simp only: Kit_TruthVarInSupport_def word_bits)
next
  case V3
  then show ?thesis
    using Kit_TruthVarInSupport_low [of 3 "\<lambda>w. w AND 0x00FF00FF" "\<lambda>w. drop_bit 8 (w AND 0xFF00FF00)" nVars p]
    by (simp only: Kit_TruthVarInSupport_def word_bits)
next
  case V4
  then show ?thesis
    using Kit_TruthVarInSupport_low [of 4 "\<lambda>w. w AND 0x0000FFFF" "\<lambda>w. drop_bit 16 (w AND 0xFFFF0000)" nVars p]
    by (simp only: Kit_TruthVarInSupport_def word_bits)
qed

lemma Kit_TruthVarInSupport_flip:
  assumes "iVar < nVars"
  shows "Kit_TruthVarInSupport p nVars iVar \<longleftrightarrow>
    (\<exists>m<tt_size nVars. tt_bit p (unset_bit iVar m) \<noteq> tt_bit p (set_bit iVar m))"
  unfolding Kit_TruthVarInSupport_iff [OF assms]
  by (metis unset_bit_less_tt_size unset_bit_idem set_unset_bit bit_unset_bit_iff)

lemma word_shift_set:
  assumes "v < 5" "j < 32" "\<not> bit j v"
  shows "bit (drop_bit (2 ^ v) (w :: u32)) j \<longleftrightarrow> bit w (set_bit v j)"
  using assms by (simp add: bit_drop_bit_eq add_pow_set_bit [symmetric] add.commute)

lemma Kit_TruthVarIsVacuous_low:
  assumes "v < 5"
    and "\<And>j. j < 32 \<Longrightarrow> bit (lo :: u32) j \<longleftrightarrow> \<not> bit j v"
  shows "any_words (Kit_TruthWordNum n)
      (\<lambda>i. ((f ! i AND drop_bit (2 ^ v) (g ! i)) OR (g ! i AND drop_bit (2 ^ v) (f ! i))) AND lo \<noteq> 0) \<longleftrightarrow>
    (\<exists>m<tt_size n. \<not> bit m v \<and>
       (tt_bit f m \<and> tt_bit g (set_bit v m) \<or> tt_bit g m \<and> tt_bit f (set_bit v m)))"
proof -
  have "((x AND drop_bit (2 ^ v) y) OR (y AND drop_bit (2 ^ v) x)) AND lo \<noteq> 0 \<longleftrightarrow>
      (\<exists>j<32. \<not> bit j v \<and> (bit x j \<and> bit y (set_bit v j) \<or> bit y j \<and> bit x (set_bit v j)))" for x y :: u32
    unfolding word_neq_iff bit_and_iff bit_or_iff using assms word_shift_set [OF assms(1)] by auto
  then show ?thesis
    unfolding any_words_iff tt_bit_index_lo(2) [OF assms(1)]
    unfolding tt_bit_def
    using ex_minterm_word [OF assms(1), of n "\<lambda>i j x. \<not> x \<and> (bit (f ! i) j \<and> bit (g ! i) (set_bit v j) \<or>
        bit (g ! i) j \<and> bit (f ! i) (set_bit v j))"]
    by simp
qed

lemma Kit_TruthVarIsVacuous_iff:
  assumes "iVar < nVars"
  shows "Kit_TruthVarIsVacuous f g nVars iVar \<longleftrightarrow>
    \<not> (\<exists>m<tt_size nVars. \<not> bit m iVar \<and>
       (tt_bit f m \<and> tt_bit g (set_bit iVar m) \<or> tt_bit g m \<and> tt_bit f (set_bit iVar m)))"
proof (cases iVar rule: switch_cases)
  case V0
  then show ?thesis
    using Kit_TruthVarIsVacuous_low [of 0, OF _ mask_0_lo, of nVars f g]
    by (simp only: Kit_TruthVarIsVacuous_def word_bits)
next
  case V1
  then show ?thesis
    using Kit_TruthVarIsVacuous_low [of 1, OF _ mask_1_lo, of nVars f g]
    by (simp only: Kit_TruthVarIsVacuous_def word_bits)
next
  case V2
  then show ?thesis
    using Kit_TruthVarIsVacuous_low [of 2, OF _ mask_2_lo, of nVars f g]
    by (simp only: Kit_TruthVarIsVacuous_def word_bits)
next
  case V3
  then show ?thesis
    using Kit_TruthVarIsVacuous_low [of 3, OF _ mask_3_lo, of nVars f g]
    by (simp only: Kit_TruthVarIsVacuous_def word_bits)
next
  case V4
  then show ?thesis
    using Kit_TruthVarIsVacuous_low [of 4, OF _ mask_4_lo, of nVars f g]
    by (simp only: Kit_TruthVarIsVacuous_def word_bits)
next
  case (default b)
  have "\<not> Kit_TruthVarIsVacuous f g nVars iVar \<longleftrightarrow>
      (\<exists>i<Kit_TruthWordNum nVars. \<exists>j<32. \<not> bit i b \<and>
        (bit (f ! i) j \<and> bit (g ! set_bit b i) j \<or> bit (g ! i) j \<and> bit (f ! set_bit b i) j))"
    using assms default
    by (auto simp: Kit_TruthVarIsVacuous_def any_pairs_default word_neq_iff bit_or_iff bit_and_iff)
  also have "\<dots> \<longleftrightarrow> (\<exists>m<tt_size nVars. \<not> bit m iVar \<and>
       (tt_bit f m \<and> tt_bit g (set_bit iVar m) \<or> tt_bit g m \<and> tt_bit f (set_bit iVar m)))"
    unfolding default tt_bit_index_hi
    unfolding tt_bit_def bit_div_32 [symmetric]
    by (rule ex_minterm_iff [symmetric])
  finally show ?thesis by blast
qed

end
