(* ===== verification/Kit_Symm.thy ===== *)
theory Kit_Symm
  imports Kit_Truth
begin

text \<open>
  Second part of \<open>kitTruth.c\<close>: the support of a table, quantification over a set of variables
  (\<open>Kit_TruthExistSet\<close>, \<open>Kit_TruthForallSet\<close>) and the two symmetry tests. The locale
  \<open>var_operator\<close> is the contract shared by cofactoring and quantification; it is interpreted on
  the four in-place operators of \<open>Kit_Truth\<close>.
\<close>

unbundle bit_operations_syntax

section \<open>Support\<close>

lemma Kit_TruthSupport_bit:
  assumes "i < 32"
  shows "bit (Kit_TruthSupport p nVars) i \<longleftrightarrow> i < nVars \<and> Kit_TruthVarInSupport p nVars i"
proof -
  have "bit (fold (\<lambda>i S. if P i then S OR push_bit i 1 else S) is S0 :: u32) i \<longleftrightarrow>
      (i \<in> set is \<and> P i) \<or> bit S0 i" for P "is" S0
    using assms
    by (induction "is" arbitrary: S0) (auto simp: bit_or_iff bit_exp_iff)
  then show ?thesis by (simp add: Kit_TruthSupport_def)
qed

lemma Kit_TruthSupportSize_eq:
  "Kit_TruthSupportSize p nVars = card {i. i < nVars \<and> Kit_TruthVarInSupport p nVars i}"
proof -
  have "fold (\<lambda>i c. c + (if P i then 1 else 0)) [0..<n] 0 = card {i. i < n \<and> P i}" for P and n :: nat
    by (simp add: fold_add_sum_list interv_sum_list_conv_sum_set_nat sum.If_cases Int_def
        atLeast0LessThan lessThan_def)
  then show ?thesis by (simp add: Kit_TruthSupportSize_def)
qed

section \<open>Quantification over sets of variables\<close>

definition Kit_TruthExistSet :: "u32 list \<Rightarrow> u32 list \<Rightarrow> nat \<Rightarrow> u32 \<Rightarrow> u32 list" where
  "Kit_TruthExistSet pRes pTruth nVars uMask =
    fold (\<lambda>v r. if uMask AND push_bit v 1 \<noteq> 0 then Kit_TruthExist r nVars v else r) [0..<nVars]
      (Kit_TruthCopy pRes pTruth nVars)"

definition Kit_TruthForallSet :: "u32 list \<Rightarrow> u32 list \<Rightarrow> nat \<Rightarrow> u32 \<Rightarrow> u32 list" where
  "Kit_TruthForallSet pRes pTruth nVars uMask =
    fold (\<lambda>v r. if uMask AND push_bit v 1 \<noteq> 0 then Kit_TruthForall r nVars v else r) [0..<nVars]
      (Kit_TruthCopy pRes pTruth nVars)"

text \<open>
  The interface shared by the operators that combine the two cofactors of a variable: what the
  result is at a minterm only depends on the two minterms that differ in that variable, through
  \<open>join\<close>. Cofactoring and quantification differ in \<open>join\<close> only.
\<close>

locale var_operator =
  fixes oper :: "u32 list \<Rightarrow> nat \<Rightarrow> nat \<Rightarrow> u32 list"
    and join :: "bool \<Rightarrow> bool \<Rightarrow> bool"
  assumes length_oper: "length (oper p n v) = length p"
    and oper_bit: "tt_ok n p \<Longrightarrow> v < n \<Longrightarrow> m < tt_size n \<Longrightarrow>
      tt_bit (oper p n v) m = join (tt_bit p (unset_bit v m)) (tt_bit p (set_bit v m))"
    and join_same: "join a a = a"
    and medial: "join (join a b) (join c d) = join (join a c) (join b d)"
begin

lemma tt_ok_oper: "tt_ok n p \<Longrightarrow> tt_ok n (oper p n v)"
  by (simp add: tt_ok_def length_oper)

lemma not_in_support:
  assumes "tt_ok n p" "v < n"
  shows "\<not> Kit_TruthVarInSupport (oper p n v) n v"
proof -
  have "v < max n 5" using assms by simp
  then show ?thesis
    using assms by (auto simp: Kit_TruthVarInSupport_iff oper_bit set_bit_less_tt_size)
qed

lemma keeps_vacuous:
  assumes "tt_ok n p" "v < n" "u < n" and not_in: "\<not> Kit_TruthVarInSupport p n u"
  shows "\<not> Kit_TruthVarInSupport (oper p n v) n u"
proof -
  have lt: "m < tt_size n \<Longrightarrow> set_bit w m < tt_size n" if "w < n" for w m
    using that by (simp add: set_bit_less_tt_size)
  have same: "tt_bit p (unset_bit u m) = tt_bit p (set_bit u m)" if "m < tt_size n" for m
    using not_in assms(3) that by (auto simp: Kit_TruthVarInSupport_flip)
  have "tt_bit (oper p n v) (unset_bit u m) = tt_bit (oper p n v) (set_bit u m)"
    if m: "m < tt_size n" for m
  proof (cases "u = v")
    case True
    then show ?thesis using assms m lt
      by (simp add: oper_bit unset_bit_less_tt_size)
  next
    case False
    then have "unset_bit v (unset_bit u m) = unset_bit u (unset_bit v m)"
      "set_bit v (unset_bit u m) = unset_bit u (set_bit v m)"
      "unset_bit v (set_bit u m) = set_bit u (unset_bit v m)"
      "set_bit v (set_bit u m) = set_bit u (set_bit v m)"
      by (auto simp: bit_simps intro!: bit_eqI)
    then show ?thesis using assms m lt same
      by (simp add: oper_bit unset_bit_less_tt_size)
  qed
  then show ?thesis using assms(3) by (simp add: Kit_TruthVarInSupport_flip)
qed

lemma commute:
  assumes "tt_ok n p" "u < n" "v < n" "m < tt_size n"
  shows "tt_bit (oper (oper p n u) n v) m = tt_bit (oper (oper p n v) n u) m"
proof (cases "u = v")
  case False
  then have "unset_bit v (unset_bit u m) = unset_bit u (unset_bit v m)"
    "set_bit v (unset_bit u m) = unset_bit u (set_bit v m)"
    "unset_bit v (set_bit u m) = set_bit u (unset_bit v m)"
    "set_bit v (set_bit u m) = set_bit u (set_bit v m)"
    by (auto simp: bit_simps intro!: bit_eqI)
  moreover have "set_bit w m < tt_size n" if "w < n" for w
    using that assms(4) by (simp add: set_bit_less_tt_size)
  ultimately show ?thesis using assms
    by (simp add: oper_bit tt_ok_oper unset_bit_less_tt_size) (rule medial)
qed simp

lemma idem:
  assumes "tt_ok n p" "v < n" "m < tt_size n"
  shows "tt_bit (oper (oper p n v) n v) m = tt_bit (oper p n v) m"
  using assms by (simp add: oper_bit tt_ok_oper unset_bit_less_tt_size set_bit_less_tt_size join_same)

lemma fold_ok: "tt_ok n p \<Longrightarrow> tt_ok n (fold (\<lambda>v r. if P v then oper r n v else r) vs p)"
  by (induction vs arbitrary: p) (simp_all add: tt_ok_oper)

lemma fold_keeps_vacuous:
  "tt_ok n p \<Longrightarrow> u < n \<Longrightarrow> \<not> Kit_TruthVarInSupport p n u \<Longrightarrow> set vs \<subseteq> {..<n} \<Longrightarrow>
    \<not> Kit_TruthVarInSupport (fold (\<lambda>v r. if P v then oper r n v else r) vs p) n u"
  by (induction vs arbitrary: p) (simp_all add: tt_ok_oper keeps_vacuous)

lemma fold_not_in_support:
  "tt_ok n p \<Longrightarrow> set vs \<subseteq> {..<n} \<Longrightarrow> u \<in> set vs \<Longrightarrow> P u \<Longrightarrow>
    \<not> Kit_TruthVarInSupport (fold (\<lambda>v r. if P v then oper r n v else r) vs p) n u"
  by (induction vs arbitrary: p)
    (auto simp: tt_ok_oper not_in_support fold_keeps_vacuous)

end

interpretation ex: var_operator Kit_TruthExist "(\<or>)"
  by unfold_locales (auto simp: Kit_TruthExist_bit)

interpretation all: var_operator Kit_TruthForall "(\<and>)"
  by unfold_locales (auto simp: Kit_TruthForall_bit)

interpretation cof0: var_operator Kit_TruthCofactor0 "\<lambda>a b. a"
  by unfold_locales (auto simp: Kit_TruthCofactor0_bit)

interpretation cof1: var_operator Kit_TruthCofactor1 "\<lambda>a b. b"
  by unfold_locales (auto simp: Kit_TruthCofactor1_bit)

text \<open>Two minterms agree outside a set of variables.\<close>

definition agree_outside :: "(nat \<Rightarrow> bool) \<Rightarrow> nat \<Rightarrow> nat \<Rightarrow> bool" where
  "agree_outside V m m' \<longleftrightarrow> (\<forall>v. bit m v \<noteq> bit m' v \<longrightarrow> V v)"

lemma fold_quantifier:
  fixes B :: "u32 list \<Rightarrow> nat \<Rightarrow> bool"
  assumes ok: "\<And>p v. tt_ok n p \<Longrightarrow> tt_ok n (oper p n v)"
    and bits: "\<And>p v m. tt_ok n p \<Longrightarrow> v < n \<Longrightarrow> m < tt_size n \<Longrightarrow>
      B (oper p n v) m \<longleftrightarrow> B p (unset_bit v m) \<or> B p (set_bit v m)"
  shows "tt_ok n p \<Longrightarrow> set vs \<subseteq> {..<n} \<Longrightarrow> m < tt_size n \<Longrightarrow>
    B (fold (\<lambda>v r. if P v then oper r n v else r) vs p) m \<longleftrightarrow>
    (\<exists>m'<tt_size n. agree_outside (\<lambda>v. v \<in> set vs \<and> P v) m m' \<and> B p m')"
proof (induction vs arbitrary: p)
  case Nil
  have "agree_outside (\<lambda>_. False) m m' \<longleftrightarrow> m' = m" for m'
    by (auto simp: agree_outside_def bit_eq_iff)
  then show ?case using Nil by simp
next
  case (Cons v vs)
  let ?V = "\<lambda>u. u \<in> set vs \<and> P u"
  have vn: "v < n" using Cons.prems by simp
  have lt: "m' < tt_size n \<Longrightarrow> set_bit v m' < tt_size n" for m'
    using vn by (simp add: set_bit_less_tt_size)
  show ?case
  proof (cases "P v")
    case False
    then have "(\<lambda>u. u \<in> set (v # vs) \<and> P u) = ?V" by auto
    then show ?thesis using False Cons by simp
  next
    case True
    have "B (fold (\<lambda>v r. if P v then oper r n v else r) (v # vs) p) m \<longleftrightarrow>
        (\<exists>m'<tt_size n. agree_outside ?V m m' \<and> (B p (unset_bit v m') \<or> B p (set_bit v m')))"
      using Cons True vn bits [OF Cons.prems(1) vn] ok by auto
    also have "\<dots> \<longleftrightarrow> (\<exists>m'<tt_size n. agree_outside (\<lambda>u. u \<in> set (v # vs) \<and> P u) m m' \<and> B p m')"
      (is "?L \<longleftrightarrow> ?R")
    proof
      assume ?L
      then obtain m' where m': "m' < tt_size n" "agree_outside ?V m m'"
        and "B p (unset_bit v m') \<or> B p (set_bit v m')" by auto
      moreover have "agree_outside (\<lambda>u. u \<in> set (v # vs) \<and> P u) m (unset_bit v m')"
        "agree_outside (\<lambda>u. u \<in> set (v # vs) \<and> P u) m (set_bit v m')"
        using m'(2) True by (auto simp: agree_outside_def bit_simps)
      ultimately show ?R using m'(1) lt unset_bit_less_tt_size by blast
    next
      assume ?R
      then obtain m' where m': "m' < tt_size n" "agree_outside (\<lambda>u. u \<in> set (v # vs) \<and> P u) m m'" "B p m'"
        by auto
      let ?m = "if bit m v then set_bit v m' else unset_bit v m'"
      have "agree_outside ?V m ?m" using m'(2) by (auto simp: agree_outside_def bit_simps)
      moreover have "B p (unset_bit v ?m) \<or> B p (set_bit v ?m)"
        using m'(3) by (cases "bit m' v") auto
      moreover have "?m < tt_size n" using m'(1) lt unset_bit_less_tt_size by simp
      ultimately show ?L by blast
    qed
    finally show ?thesis .
  qed
qed

lemma mask_and_push_iff: "v < 32 \<Longrightarrow> (uMask :: u32) AND push_bit v 1 \<noteq> 0 \<longleftrightarrow> bit uMask v"
  using and_pow_iff [of uMask v] by simp

lemma copy_ok: "tt_ok n pRes \<Longrightarrow> tt_ok n (Kit_TruthCopy pRes p n)"
  by (simp add: tt_ok_def)

lemma mask_set:
  "n \<le> 32 \<Longrightarrow> (\<lambda>v. v \<in> set [0..<n] \<and> (uMask :: u32) AND push_bit v 1 \<noteq> 0) = (\<lambda>v. v < n \<and> bit uMask v)"
proof (rule ext)
  fix v assume "n \<le> 32"
  then show "(v \<in> set [0..<n] \<and> uMask AND push_bit v 1 \<noteq> 0) = (v < n \<and> bit uMask v)"
    using mask_and_push_iff [of v uMask] by (cases "v < n") (simp_all del: push_bit_of_1)
qed

lemma Kit_TruthExistSet_bit:
  assumes "tt_ok n pRes" "n \<le> 32" "m < tt_size n"
  shows "tt_bit (Kit_TruthExistSet pRes p n uMask) m \<longleftrightarrow>
    (\<exists>m'<tt_size n. agree_outside (\<lambda>v. v < n \<and> bit uMask v) m m' \<and> tt_bit p m')"
proof -
  have "tt_bit (Kit_TruthExistSet pRes p n uMask) m \<longleftrightarrow>
      (\<exists>m'<tt_size n. agree_outside (\<lambda>v. v \<in> set [0..<n] \<and> uMask AND push_bit v 1 \<noteq> 0) m m' \<and>
        tt_bit (Kit_TruthCopy pRes p n) m')"
    unfolding Kit_TruthExistSet_def
    by (rule fold_quantifier) (use assms in \<open>auto simp: ex.oper_bit ex.tt_ok_oper copy_ok\<close>)
  then show ?thesis
    unfolding mask_set [OF assms(2)] using assms by (simp add: Kit_TruthCopy_bit cong: conj_cong)
qed

lemma Kit_TruthExistSet_support:
  assumes "tt_ok n pRes" "n \<le> 32" "v < n" "bit uMask v"
  shows "\<not> Kit_TruthVarInSupport (Kit_TruthExistSet pRes p n uMask) n v"
  unfolding Kit_TruthExistSet_def
  by (rule ex.fold_not_in_support) (use assms in \<open>auto simp: copy_ok mask_and_push_iff simp del: push_bit_of_1\<close>)

lemma Kit_TruthForallSet_bit:
  assumes "tt_ok n pRes" "n \<le> 32" "m < tt_size n"
  shows "tt_bit (Kit_TruthForallSet pRes p n uMask) m \<longleftrightarrow>
    (\<forall>m'<tt_size n. agree_outside (\<lambda>v. v < n \<and> bit uMask v) m m' \<longrightarrow> tt_bit p m')"
proof -
  have "\<not> tt_bit (Kit_TruthForallSet pRes p n uMask) m \<longleftrightarrow>
      (\<exists>m'<tt_size n. agree_outside (\<lambda>v. v \<in> set [0..<n] \<and> uMask AND push_bit v 1 \<noteq> 0) m m' \<and>
        \<not> tt_bit (Kit_TruthCopy pRes p n) m')"
    unfolding Kit_TruthForallSet_def
    by (rule fold_quantifier [where B = "\<lambda>p m. \<not> tt_bit p m"])
      (use assms in \<open>auto simp: all.oper_bit all.tt_ok_oper copy_ok\<close>)
  then show ?thesis
    unfolding mask_set [OF assms(2)] using assms by (auto simp: Kit_TruthCopy_bit)
qed

section \<open>Symmetries\<close>

text \<open>The scratch tables \<open>pCof0\<close> and \<open>pCof1\<close> are the caller's (the code falls back on static ones).\<close>

definition Kit_TruthVarsSymm :: "u32 list \<Rightarrow> nat \<Rightarrow> nat \<Rightarrow> nat \<Rightarrow> u32 list \<Rightarrow> u32 list \<Rightarrow> bool" where
  "Kit_TruthVarsSymm pTruth nVars iVar0 iVar1 pCof0 pCof1 =
    (let pCof0 = Kit_TruthCopy pCof0 pTruth nVars;
         pCof0 = Kit_TruthCofactor0 pCof0 nVars iVar0;
         pCof0 = Kit_TruthCofactor1 pCof0 nVars iVar1;
         pCof1 = Kit_TruthCopy pCof1 pTruth nVars;
         pCof1 = Kit_TruthCofactor1 pCof1 nVars iVar0;
         pCof1 = Kit_TruthCofactor0 pCof1 nVars iVar1
     in Kit_TruthIsEqual pCof0 pCof1 nVars)"

definition Kit_TruthVarsAntiSymm :: "u32 list \<Rightarrow> nat \<Rightarrow> nat \<Rightarrow> nat \<Rightarrow> u32 list \<Rightarrow> u32 list \<Rightarrow> bool" where
  "Kit_TruthVarsAntiSymm pTruth nVars iVar0 iVar1 pCof0 pCof1 =
    (let pCof0 = Kit_TruthCopy pCof0 pTruth nVars;
         pCof0 = Kit_TruthCofactor0 pCof0 nVars iVar0;
         pCof0 = Kit_TruthCofactor0 pCof0 nVars iVar1;
         pCof1 = Kit_TruthCopy pCof1 pTruth nVars;
         pCof1 = Kit_TruthCofactor1 pCof1 nVars iVar0;
         pCof1 = Kit_TruthCofactor1 pCof1 nVars iVar1
     in Kit_TruthIsEqual pCof0 pCof1 nVars)"

text \<open>Exchanging the values of two variables in a minterm.\<close>

definition swap_vars :: "nat \<Rightarrow> nat \<Rightarrow> nat \<Rightarrow> nat" where
  "swap_vars u v m = (if bit m u = bit m v then m else flip_bit u (flip_bit v m))"

lemma bit_swap_vars:
  "bit (swap_vars u v m) i = (if i = u then bit m v else if i = v then bit m u else bit m i)"
  by (auto simp: swap_vars_def bit_simps)

lemma Kit_TruthVarsSymm_iff:
  assumes "tt_ok n c0" "tt_ok n c1" "u < n" "v < n" "u \<noteq> v"
  shows "Kit_TruthVarsSymm p n u v c0 c1 \<longleftrightarrow> (\<forall>m<tt_size n. tt_bit p (swap_vars u v m) = tt_bit p m)"
proof -
  have lt: "w < n \<Longrightarrow> set_bit w m < tt_size n \<longleftrightarrow> m < tt_size n" for w m
    by (simp add: set_bit_less_tt_size)
  have "Kit_TruthVarsSymm p n u v c0 c1 \<longleftrightarrow>
      (\<forall>m<tt_size n. tt_bit p (unset_bit u (set_bit v m)) = tt_bit p (set_bit u (unset_bit v m)))"
    using assms lt
    by (simp add: Kit_TruthVarsSymm_def Let_def Kit_TruthIsEqual_iff Kit_TruthCofactor0_bit
        Kit_TruthCofactor1_bit Kit_TruthCopy_bit tt_ok_def unset_bit_less_tt_size)
  also have "\<dots> \<longleftrightarrow> (\<forall>m<tt_size n. tt_bit p (swap_vars u v m) = tt_bit p m)" (is "?L \<longleftrightarrow> ?R")
  proof
    assume L: ?L
    show ?R
    proof (intro allI impI)
      fix m assume m: "m < tt_size n"
      consider "bit m u = bit m v" | "\<not> bit m u" "bit m v" | "bit m u" "\<not> bit m v" by blast
      then show "tt_bit p (swap_vars u v m) = tt_bit p m"
      proof cases
        case 1
        then show ?thesis by (simp add: swap_vars_def)
      next
        case 2
        have "unset_bit u (set_bit v m) = m" "set_bit u (unset_bit v m) = swap_vars u v m"
          using 2 assms(5)
          by (auto simp: bit_set_bit_iff bit_unset_bit_iff bit_swap_vars intro!: bit_eqI split: if_splits)
        then show ?thesis using L m by metis
      next
        case 3
        have "set_bit u (unset_bit v m) = m" "unset_bit u (set_bit v m) = swap_vars u v m"
          using 3 assms(5)
          by (auto simp: bit_set_bit_iff bit_unset_bit_iff bit_swap_vars intro!: bit_eqI split: if_splits)
        then show ?thesis using L m by metis
      qed
    qed
  next
    assume R: ?R
    show ?L
    proof (intro allI impI)
      fix m assume m: "m < tt_size n"
      have "swap_vars u v (unset_bit u (set_bit v m)) = set_bit u (unset_bit v m)"
        using assms(5)
        by (auto simp: bit_set_bit_iff bit_unset_bit_iff bit_swap_vars intro!: bit_eqI split: if_splits)
      moreover have "unset_bit u (set_bit v m) < tt_size n"
        using m assms lt by (simp add: unset_bit_less_tt_size)
      ultimately show "tt_bit p (unset_bit u (set_bit v m)) = tt_bit p (set_bit u (unset_bit v m))"
        using R by metis
    qed
  qed
  finally show ?thesis .
qed

lemma Kit_TruthVarsAntiSymm_iff:
  assumes "tt_ok n c0" "tt_ok n c1" "u < n" "v < n"
  shows "Kit_TruthVarsAntiSymm p n u v c0 c1 \<longleftrightarrow>
    (\<forall>m<tt_size n. tt_bit p (unset_bit u (unset_bit v m)) = tt_bit p (set_bit u (set_bit v m)))"
proof -
  have "w < n \<Longrightarrow> set_bit w m < tt_size n \<longleftrightarrow> m < tt_size n" for w m
    by (simp add: set_bit_less_tt_size)
  then show ?thesis
    using assms
    by (simp add: Kit_TruthVarsAntiSymm_def Let_def Kit_TruthIsEqual_iff Kit_TruthCofactor0_bit
        Kit_TruthCofactor1_bit Kit_TruthCopy_bit tt_ok_def unset_bit_less_tt_size)
qed


section \<open>Properties\<close>

text \<open>
  C15 \<open>Kit_TruthVarsSymm\<close> compares the cofactors 01 and 10 of two different variables; it returns 1
  exactly when the function has the same value at a minterm and at the minterm with the two
  variables exchanged.
\<close>

lemma Kit_TruthVarsSymm_correct:
  assumes "tt_ok n c0" "tt_ok n c1" "u < n" "v < n" "u \<noteq> v"
  shows "Kit_TruthVarsSymm p n u v c0 c1 \<longleftrightarrow> (\<forall>m<tt_size n. tt_bit p (swap_vars u v m) = tt_bit p m)"
  using assms by (rule Kit_TruthVarsSymm_iff)

lemma Kit_TruthVarsSymm_witness:
  "Kit_TruthVarsSymm [0xE8E8E8E8] 3 0 2 [0] [0] \<longleftrightarrow>
    (\<forall>m<tt_size 3. tt_bit [0xE8E8E8E8] (swap_vars 0 2 m) = tt_bit [0xE8E8E8E8] m)"
  by (rule Kit_TruthVarsSymm_correct) (simp_all add: tt_ok_def Kit_TruthWordNum_def)

text \<open>
  C19 \<open>Kit_TruthExistSet\<close> quantifies away every variable below \<open>nVars\<close> whose bit is set in \<open>uMask\<close>:
  the result is true at a minterm iff the input is true at some minterm that agrees with it on all
  other variables, and no quantified variable is left in the support.
\<close>

lemma Kit_TruthExistSet_correct:
  assumes "tt_ok n pRes" "n \<le> 32"
  shows "(\<forall>m<tt_size n. tt_bit (Kit_TruthExistSet pRes p n uMask) m \<longleftrightarrow>
        (\<exists>m'<tt_size n. agree_outside (\<lambda>v. v < n \<and> bit uMask v) m m' \<and> tt_bit p m')) \<and>
    (\<forall>v<n. bit uMask v \<longrightarrow> \<not> Kit_TruthVarInSupport (Kit_TruthExistSet pRes p n uMask) n v)"
  using assms by (auto simp: Kit_TruthExistSet_bit Kit_TruthExistSet_support)

lemma Kit_TruthExistSet_witness:
  "\<not> Kit_TruthVarInSupport (Kit_TruthExistSet [0] [0x80808080] 3 5) 3 0 \<and>
   \<not> Kit_TruthVarInSupport (Kit_TruthExistSet [0] [0x80808080] 3 5) 3 2"
  using Kit_TruthExistSet_correct [of 3 "[0]" "[0x80808080]" 5]
  by (simp add: tt_ok_def Kit_TruthWordNum_def)

end
