(* ===== verification/Kit_Swap.thy ===== *)
theory Kit_Swap
  imports Kit_Symm "HOL-Library.Multiset"
begin

text \<open>
  Third part of \<open>kitTruth.c\<close>: exchanging two neighbouring variables of a table, and the routines
  that move variables by such exchanges: \<open>Kit_TruthStretch\<close>, \<open>Kit_TruthShrink\<close> and
  \<open>Kit_TruthPermute\<close>. The predicate \<open>tracks\<close> says which variable of the original function sits at
  which position after a run of exchanges; each routine is proved by following that map.
\<close>

unbundle bit_operations_syntax

section \<open>Exchanging two neighbours\<close>

text \<open>\<open>for ( i = 0; i < n; i++ ) pOut[o+i] = pIn[s+i];\<close>\<close>

definition copy_block :: "nat \<Rightarrow> nat \<Rightarrow> 'a list \<Rightarrow> nat \<Rightarrow> 'a list \<Rightarrow> 'a list" where
  "copy_block o' s pIn n t = fold (\<lambda>i t. t[o' + i := pIn ! (s + i)]) [0..<n] t"

definition PMasks :: "u32 list list" where
  "PMasks =
    [[0x99999999, 0x22222222, 0x44444444],
     [0xC3C3C3C3, 0x0C0C0C0C, 0x30303030],
     [0xF00FF00F, 0x00F000F0, 0x0F000F00],
     [0xFF0000FF, 0x0000FF00, 0x00FF0000]]"

definition Kit_TruthSwapAdjacentVars :: "u32 list \<Rightarrow> u32 list \<Rightarrow> nat \<Rightarrow> nat \<Rightarrow> u32 list" where
  "Kit_TruthSwapAdjacentVars pOut pIn nVars iVar =
    (let nWords = Kit_TruthWordNum nVars in
     if iVar < 4 then
       let Shift = 2 ^ iVar in
       for_words nWords (\<lambda>i _. (pIn ! i AND PMasks ! iVar ! 0)
         OR push_bit Shift (pIn ! i AND PMasks ! iVar ! 1)
         OR drop_bit Shift (pIn ! i AND PMasks ! iVar ! 2)) pOut
     else if iVar > 4 then
       let Step = 2 ^ (iVar - 5) in
       fold (\<lambda>k t.
         let t = copy_block k k pIn Step t;
             t = copy_block (k + Step) (k + 2 * Step) pIn Step t;
             t = copy_block (k + 2 * Step) (k + Step) pIn Step t;
             t = copy_block (k + 3 * Step) (k + 3 * Step) pIn Step t
         in t) (steps nWords (4 * Step)) pOut
     else
       for_pairs nWords 1 (\<lambda>i i1 _ _.
         ((pIn ! i AND 0x0000FFFF) OR push_bit 16 (pIn ! i1 AND 0x0000FFFF),
          (pIn ! i1 AND 0xFFFF0000) OR drop_bit 16 (pIn ! i AND 0xFFFF0000))) pOut)"

text \<open>The variant with the arguments in the other order and one branch per variable.\<close>

definition Kit_TruthSwapAdjacentVars2 :: "u32 list \<Rightarrow> u32 list \<Rightarrow> nat \<Rightarrow> nat \<Rightarrow> u32 list" where
  "Kit_TruthSwapAdjacentVars2 pIn pOut nVars Start =
    (let nWords = (if nVars \<le> 5 then 1 else 2 ^ (nVars - 5)) in
     if Start = 0 then for_words nWords (\<lambda>i _. (pIn ! i AND 0x99999999)
       OR push_bit 1 (pIn ! i AND 0x22222222) OR drop_bit 1 (pIn ! i AND 0x44444444)) pOut
     else if Start = 1 then for_words nWords (\<lambda>i _. (pIn ! i AND 0xC3C3C3C3)
       OR push_bit 2 (pIn ! i AND 0x0C0C0C0C) OR drop_bit 2 (pIn ! i AND 0x30303030)) pOut
     else if Start = 2 then for_words nWords (\<lambda>i _. (pIn ! i AND 0xF00FF00F)
       OR push_bit 4 (pIn ! i AND 0x00F000F0) OR drop_bit 4 (pIn ! i AND 0x0F000F00)) pOut
     else if Start = 3 then for_words nWords (\<lambda>i _. (pIn ! i AND 0xFF0000FF)
       OR push_bit 8 (pIn ! i AND 0x0000FF00) OR drop_bit 8 (pIn ! i AND 0x00FF0000)) pOut
     else if Start = 4 then for_pairs nWords 1 (\<lambda>i i1 _ _.
         ((pIn ! i AND 0x0000FFFF) OR push_bit 16 (pIn ! i1 AND 0x0000FFFF),
          (pIn ! i1 AND 0xFFFF0000) OR drop_bit 16 (pIn ! i AND 0xFFFF0000))) pOut
     else
       let Step = 2 ^ (Start - 5) in
       fold (\<lambda>k t.
         let t = copy_block k k pIn Step t;
             t = copy_block (k + Step) (k + 2 * Step) pIn Step t;
             t = copy_block (k + 2 * Step) (k + Step) pIn Step t;
             t = copy_block (k + 3 * Step) (k + 3 * Step) pIn Step t
         in t) (steps nWords (4 * Step)) pOut)"

lemma Kit_TruthSwapAdjacentVars2_eq:
  "Kit_TruthSwapAdjacentVars2 pIn pOut nVars iVar = Kit_TruthSwapAdjacentVars pOut pIn nVars iVar"
  by (cases iVar rule: switch_cases)
    (simp_all only: Kit_TruthSwapAdjacentVars2_def Kit_TruthSwapAdjacentVars_def Let_def PMasks_def
      Kit_TruthWordNum_def switch_conds, simp_all)

subsection \<open>Inside a word\<close>

lemma odd_half: "odd (Suc q div 2) \<longleftrightarrow> odd q \<noteq> odd (q div 2)" "odd ((c * 4 + q) div 2) \<longleftrightarrow> odd (q div 2)"
  for q c :: nat
  by presburger+

lemma bit_Suc_shift:
  fixes j v :: nat
  shows "bit (j + 2 ^ v) (v + 1) \<longleftrightarrow> bit j v \<noteq> bit j (v + 1)"
    and "2 ^ v \<le> j \<Longrightarrow> bit (j - 2 ^ v) (v + 1) \<longleftrightarrow> bit j v = bit j (v + 1)"
proof -
  have *: "bit (x + 2 ^ v) (v + 1) \<longleftrightarrow> bit x v \<noteq> bit x (v + 1)" for x :: nat
  proof -
    have "(x + 2 ^ v) div 2 ^ v = x div 2 ^ v + 1" by (subst div_add_self2) simp_all
    moreover have "bit y (v + 1) \<longleftrightarrow> odd (y div 2 ^ v div 2)" for y :: nat
      using div_mult2_eq [of y "2 ^ v" 2] by (simp add: bit_iff_odd mult.commute)
    ultimately show ?thesis by (simp add: bit_iff_odd) (simp only: odd_half; blast)
  qed
  then show "bit (j + 2 ^ v) (v + 1) \<longleftrightarrow> bit j v \<noteq> bit j (v + 1)" .
  show "bit (j - 2 ^ v) (v + 1) \<longleftrightarrow> bit j v = bit j (v + 1)" if "2 ^ v \<le> j"
    using * [of "j - 2 ^ v"] bit_sub_pow [OF that] that by auto
qed

lemma swap_adjacent:
  "swap_vars v (v + 1) j =
    (if bit j v = bit j (v + 1) then j else if bit j v then j + 2 ^ v else j - 2 ^ v)"
proof -
  have 1: "swap_vars v (v + 1) j = j + 2 ^ v" if "bit j v" "\<not> bit j (v + 1)"
  proof -
    have "swap_vars v (v + 1) j = set_bit (v + 1) (unset_bit v j)"
      using that by (intro bit_eqI) (auto simp: bit_swap_vars bit_set_bit_iff bit_unset_bit_iff split: if_splits)
    also have "\<dots> = unset_bit v j + 2 ^ (v + 1)"
      using that by (subst add_pow_set_bit) (simp_all add: bit_unset_bit_iff)
    finally show ?thesis using sub_pow_unset_bit [OF that(1)] bit_ge_pow [OF that(1)] by simp
  qed
  have 2: "swap_vars v (v + 1) j = j - 2 ^ v" if "\<not> bit j v" "bit j (v + 1)"
  proof -
    have "swap_vars v (v + 1) j = set_bit v (unset_bit (v + 1) j)"
      using that by (intro bit_eqI) (auto simp: bit_swap_vars bit_set_bit_iff bit_unset_bit_iff split: if_splits)
    also have "\<dots> = unset_bit (v + 1) j + 2 ^ v"
      using that by (subst add_pow_set_bit) (simp_all add: bit_unset_bit_iff)
    finally show ?thesis using sub_pow_unset_bit [OF that(2)] bit_ge_pow [OF that(2)] by simp
  qed
  show ?thesis using 1 2 by (auto simp: swap_vars_def)
qed

lemma PMasks_bits:
  assumes "j < 32" "v < 4"
  shows "bit (PMasks ! v ! 0) j \<longleftrightarrow> bit j v = bit j (v + 1)"
    and "bit (PMasks ! v ! 1) j \<longleftrightarrow> bit j v \<and> \<not> bit j (v + 1)"
    and "bit (PMasks ! v ! 2) j \<longleftrightarrow> \<not> bit j v \<and> bit j (v + 1)"
proof -
  have v: "v \<in> {0, 1, 2, 3}" using assms(2) by auto
  show "bit (PMasks ! v ! 0) j \<longleftrightarrow> bit j v = bit j (v + 1)"
    by (rule all_bits_32 [OF assms(1)]) (use v in \<open>auto simp only: upt_32; simp add: PMasks_def bit_0\<close>)
  show "bit (PMasks ! v ! 1) j \<longleftrightarrow> bit j v \<and> \<not> bit j (v + 1)"
    by (rule all_bits_32 [OF assms(1)]) (use v in \<open>auto simp only: upt_32; simp add: PMasks_def bit_0\<close>)
  show "bit (PMasks ! v ! 2) j \<longleftrightarrow> \<not> bit j v \<and> bit j (v + 1)"
    by (rule all_bits_32 [OF assms(1)]) (use v in \<open>auto simp only: upt_32; simp add: PMasks_def bit_0\<close>)
qed

lemma swap_word:
  assumes "j < 32" "v < 4"
  shows "bit ((w AND PMasks ! v ! 0) OR push_bit (2 ^ v) (w AND PMasks ! v ! 1)
    OR drop_bit (2 ^ v) (w AND PMasks ! v ! 2)) j = bit w (swap_vars v (v + 1) j)"
proof -
  have "bit (drop_bit (2 ^ v) (w AND PMasks ! v ! 2)) j \<longleftrightarrow>
      bit w (j + 2 ^ v) \<and> bit j v \<and> \<not> bit j (v + 1)"
  proof (cases "j + 2 ^ v < 32")
    case True
    then show ?thesis
      using PMasks_bits(3) [OF True assms(2)] bit_Suc_shift(1) [of j v] bit_add_pow [of j v]
      by (auto simp: bit_drop_bit_eq bit_and_iff add.commute)
  next
    case False
    then show ?thesis using bit_imp_le_length [of w "j + 2 ^ v"]
      by (auto simp: bit_drop_bit_eq bit_and_iff add.commute)
  qed
  moreover have "bit (push_bit (2 ^ v) (w AND PMasks ! v ! 1)) j \<longleftrightarrow>
      bit w (j - 2 ^ v) \<and> \<not> bit j v \<and> bit j (v + 1)"
  proof (cases "2 ^ v \<le> j")
    case True
    then show ?thesis
      using PMasks_bits(2) [of "j - 2 ^ v" v] assms bit_Suc_shift(2) [OF True] bit_sub_pow [OF True]
      by (auto simp: bit_push_bit_iff bit_and_iff)
  next
    case False
    have "2 ^ (v + 1) \<le> j" if "bit j (v + 1)" using bit_ge_pow [OF that] .
    then show ?thesis using False unfolding bit_push_bit_iff by auto
  qed
  ultimately show ?thesis
    using PMasks_bits(1) [OF assms] unfolding swap_adjacent
    by (auto simp: bit_or_iff bit_and_iff)
qed

subsection \<open>Blocks of words\<close>

lemma fold_const_update:
  "length (fold (\<lambda>d t. t[d := g d]) ds t) = length t \<and>
   (j < length t \<longrightarrow> fold (\<lambda>d t. t[d := g d]) ds t ! j = (if j \<in> set ds then g j else t ! j))"
  by (induction ds arbitrary: t) auto

lemma copy_block_eq:
  assumes "\<And>i. i < n \<Longrightarrow> \<sigma> (o' + i) = s + i"
  shows "copy_block o' s pIn n t = fold (\<lambda>d t. t[d := pIn ! \<sigma> d]) [o' ..< o' + n] t"
proof -
  have "[o' ..< o' + n] = map (\<lambda>i. o' + i) [0..<n]"
    by (simp add: map_add_upt add.commute)
  then show ?thesis
    unfolding copy_block_def by (simp add: fold_map o_def) (rule fold_cong, auto simp: assms)
qed

lemma swap_in_block:
  assumes "i < 2 ^ b" "q < 4"
  shows "swap_vars b (b + 1) (c * (4 * 2 ^ b) + q * 2 ^ b + i) =
    c * (4 * 2 ^ b) + (if q = 1 then 2 else if q = 2 then 1 else q) * 2 ^ b + i"
proof -
  let ?x = "c * (4 * 2 ^ b) + q * 2 ^ b + i"
  have x: "?x = (c * 4 + q) * 2 ^ b + i" by (simp add: algebra_simps)
  have d: "?x div 2 ^ b = c * 4 + q" unfolding x using assms(1) by simp
  have "bit ?x b \<longleftrightarrow> odd q" by (simp only: bit_iff_odd d) simp
  moreover have "bit ?x (b + 1) \<longleftrightarrow> odd (q div 2)"
  proof -
    have "?x div 2 ^ (b + 1) = (c * 4 + q) div 2"
      using div_mult2_eq [of ?x "2 ^ b" 2] d by (simp add: mult.commute)
    then show ?thesis by (simp only: bit_iff_odd odd_half)
  qed
  ultimately have s: "swap_vars b (b + 1) ?x =
      (if odd q = odd (q div 2) then ?x else if odd q then ?x + 2 ^ b else ?x - 2 ^ b)"
    unfolding swap_adjacent by simp
  have "q = 0 \<or> q = 1 \<or> q = 2 \<or> q = 3" using assms(2) by auto
  then show ?thesis unfolding s by (elim disjE) simp_all
qed

lemma swap_blocks:
  defines "blk \<equiv> \<lambda>b pIn k (t :: 'a list).
         let t = copy_block k k pIn (2 ^ b) t;
             t = copy_block (k + 2 ^ b) (k + 2 * 2 ^ b) pIn (2 ^ b) t;
             t = copy_block (k + 2 * 2 ^ b) (k + 2 ^ b) pIn (2 ^ b) t;
             t = copy_block (k + 3 * 2 ^ b) (k + 3 * 2 ^ b) pIn (2 ^ b) t
         in t"
  assumes "b + 1 < N" "2 ^ N \<le> length t"
  shows "length (fold (blk b pIn) (steps (2 ^ N) (4 * 2 ^ b)) t) = length t"
    and "j < 2 ^ N \<Longrightarrow> fold (blk b pIn) (steps (2 ^ N) (4 * 2 ^ b)) t ! j = pIn ! swap_vars b (b + 1) j"
proof -
  let ?s = "swap_vars b (b + 1)"
  let ?w = "\<lambda>d t. t[d := pIn ! ?s d]"
  have steps: "steps (2 ^ N) (4 * 2 ^ b) = map (\<lambda>c. c * (4 * 2 ^ b)) [0..<2 ^ (N - Suc (b + 1))]"
    using pair_list_steps [of "b + 1" N] assms(2) by (simp add: mult.assoc)
  have blk: "blk b pIn (c * (4 * 2 ^ b)) t = fold ?w [c * (4 * 2 ^ b) ..< Suc c * (4 * 2 ^ b)] t" for c t
  proof -
    let ?k = "c * (4 * 2 ^ b)"
    have "[?k ..< Suc c * (4 * 2 ^ b)] = [?k ..< ?k + 2 ^ b] @ [?k + 2 ^ b ..< ?k + 2 ^ b + 2 ^ b] @
        [?k + 2 * 2 ^ b ..< ?k + 2 * 2 ^ b + 2 ^ b] @ [?k + 3 * 2 ^ b ..< ?k + 3 * 2 ^ b + 2 ^ b]"
      using upt_add_eq_append [of ?k "?k + 2 ^ b" "3 * 2 ^ b"]
        upt_add_eq_append [of "?k + 2 ^ b" "?k + 2 ^ b + 2 ^ b" "2 * 2 ^ b"]
        upt_add_eq_append [of "?k + 2 * 2 ^ b" "?k + 2 * 2 ^ b + 2 ^ b" "2 ^ b"]
      by (simp add: algebra_simps)
    moreover have "copy_block ?k ?k pIn (2 ^ b) t = fold ?w [?k ..< ?k + 2 ^ b] t" for t
      by (rule copy_block_eq) (use swap_in_block [of _ b 0 c] in simp)
    moreover have "copy_block (?k + 2 ^ b) (?k + 2 * 2 ^ b) pIn (2 ^ b) t =
        fold ?w [?k + 2 ^ b ..< ?k + 2 ^ b + 2 ^ b] t" for t
      by (rule copy_block_eq) (use swap_in_block [of _ b 1 c] in simp)
    moreover have "copy_block (?k + 2 * 2 ^ b) (?k + 2 ^ b) pIn (2 ^ b) t =
        fold ?w [?k + 2 * 2 ^ b ..< ?k + 2 * 2 ^ b + 2 ^ b] t" for t
      by (rule copy_block_eq) (use swap_in_block [of _ b 2 c] in simp)
    moreover have "copy_block (?k + 3 * 2 ^ b) (?k + 3 * 2 ^ b) pIn (2 ^ b) t =
        fold ?w [?k + 3 * 2 ^ b ..< ?k + 3 * 2 ^ b + 2 ^ b] t" for t
      by (rule copy_block_eq) (use swap_in_block [of _ b 3 c] in simp)
    ultimately show ?thesis by (simp add: blk_def Let_def)
  qed
  have "fold (blk b pIn) (map (\<lambda>c. c * (4 * 2 ^ b)) [0..<m]) t = fold ?w [0 ..< m * (4 * 2 ^ b)] t" for m
  proof (induction m)
    case (Suc m)
    have "[0 ..< Suc m * (4 * 2 ^ b)] = [0 ..< m * (4 * 2 ^ b)] @ [m * (4 * 2 ^ b) ..< Suc m * (4 * 2 ^ b)]"
      using upt_add_eq_append [of 0 "m * (4 * 2 ^ b)" "4 * 2 ^ b"] by (simp add: add.commute)
    then show ?case by (simp add: Suc blk)
  qed simp
  moreover have "(2 :: nat) ^ (N - Suc (b + 1)) * (4 * 2 ^ b) = 2 ^ N"
  proof -
    have N: "N - Suc (b + 1) + (b + 2) = N" using assms(2) by simp
    have "(2 :: nat) ^ (N - Suc (b + 1)) * 2 ^ (b + 2) = 2 ^ N"
      unfolding power_add [symmetric] N ..
    moreover have "(2 :: nat) ^ (b + 2) = 4 * 2 ^ b" by simp
    ultimately show ?thesis by (simp only:)
  qed
  ultimately have "fold (blk b pIn) (steps (2 ^ N) (4 * 2 ^ b)) t = fold ?w [0 ..< 2 ^ N] t"
    unfolding steps by (simp only:)
  then show "length (fold (blk b pIn) (steps (2 ^ N) (4 * 2 ^ b)) t) = length t"
    and "j < 2 ^ N \<Longrightarrow> fold (blk b pIn) (steps (2 ^ N) (4 * 2 ^ b)) t ! j = pIn ! swap_vars b (b + 1) j"
    using assms(3) fold_const_update [where g = "\<lambda>d. pIn ! ?s d" and ds = "[0..<2 ^ N]" and t = t and j = j]
    by auto
qed

subsection \<open>The whole table\<close>

lemma swap_vars_less: "m < tt_size n \<Longrightarrow> u < n \<Longrightarrow> v < n \<Longrightarrow> swap_vars u v m < tt_size n"
  by (auto simp: swap_vars_def flip_bit_eq_if set_bit_less_tt_size unset_bit_less_tt_size)

lemma swap_vars_index_lo:
  assumes "v + 1 < 5"
  shows "swap_vars v (v + 1) m div 32 = m div 32" "swap_vars v (v + 1) m mod 32 = swap_vars v (v + 1) (m mod 32)"
  unfolding div_mod_32
  using assms by (intro bit_eqI; auto simp: bit_swap_vars bit_drop_bit_eq bit_take_bit_iff add.commute)+

lemma swap_vars_index_hi:
  "swap_vars (b + 5) (b + 6) m div 32 = swap_vars b (b + 1) (m div 32)"
  "swap_vars (b + 5) (b + 6) m mod 32 = m mod 32"
  unfolding div_mod_32
  by (intro bit_eqI; auto simp: bit_swap_vars bit_drop_bit_eq bit_take_bit_iff add.commute)+

lemma swap_vars_mid:
  "\<not> bit m 5 \<Longrightarrow> \<not> bit m 4 \<Longrightarrow> swap_vars 4 5 m = m"
  "bit m 5 \<Longrightarrow> bit m 4 \<Longrightarrow> swap_vars 4 5 m = m"
  "\<not> bit m 5 \<Longrightarrow> bit m 4 \<Longrightarrow> swap_vars 4 5 m = unset_bit 4 (set_bit 5 m)"
  "bit m 5 \<Longrightarrow> \<not> bit m 4 \<Longrightarrow> swap_vars 4 5 m = set_bit 4 (unset_bit 5 m)"
  by (rule bit_eqI; auto simp: bit_swap_vars bit_set_bit_iff bit_unset_bit_iff split: if_splits)+

lemma length_Kit_TruthSwapAdjacentVars [simp]:
  assumes "tt_ok n pOut" "iVar + 1 < n"
  shows "length (Kit_TruthSwapAdjacentVars pOut pIn n iVar) = length pOut"
proof (cases "iVar > 4")
  case True
  then have "iVar - 5 + 1 < n - 5" using assms(2) by simp
  moreover have "2 ^ (n - 5) \<le> length pOut" "Kit_TruthWordNum n = 2 ^ (n - 5)"
    using assms True by (auto simp: tt_ok_def Kit_TruthWordNum_def)
  ultimately show ?thesis
    using True swap_blocks(1) by (simp add: Kit_TruthSwapAdjacentVars_def Let_def)
qed (simp add: Kit_TruthSwapAdjacentVars_def Let_def)

lemma Kit_TruthSwapAdjacentVars_bit [tt_bits]:
  assumes "tt_ok n pOut" "iVar + 1 < n" "m < tt_size n"
  shows "tt_bit (Kit_TruthSwapAdjacentVars pOut pIn n iVar) m \<longleftrightarrow>
    tt_bit pIn (swap_vars iVar (iVar + 1) m)"
proof -
  consider "iVar < 4" | "iVar = 4" | b where "iVar = b + 5" by (metis add.commute less_imp_add_positive nat_neq_iff le_Suc_ex Suc_leI numeral_nat(3) eval_nat_numeral(3))
  then show ?thesis
  proof cases
    case 1
    then show ?thesis
      using tt_bit_for_words [OF assms(1,3)] swap_word [OF mod_32_less 1]
        swap_vars_index_lo [of iVar m]
      by (simp add: Kit_TruthSwapAdjacentVars_def Let_def tt_bit_def)
  next
    case 2
    have s: "swap_vars iVar (iVar + 1) m = swap_vars 4 5 m" using 2 by simp
    have t: "tt_bit (Kit_TruthSwapAdjacentVars pOut pIn n iVar) m =
      (let lo = unset_bit 0 (m div 32); hi = set_bit 0 (m div 32) in
       bit (if bit m 5 then (pIn ! hi AND 0xFFFF0000) OR drop_bit 16 (pIn ! lo AND 0xFFFF0000)
         else (pIn ! lo AND 0x0000FFFF) OR push_bit 16 (pIn ! hi AND 0x0000FFFF)) (m mod 32))"
      using tt_bit_for_pairs [OF assms(1,3), of 0] 2 assms(2)
      by (auto simp: Kit_TruthSwapAdjacentVars_def Let_def split: if_splits)
    have w: "bit (m div 32) 0 = bit m 5" using bit_div_32 [of m 0] by simp
    show ?thesis
      unfolding s t Let_def
      by (cases "bit m 5"; cases "bit m 4"; simp only: swap_vars_mid word_bits;
          simp add: tt_bit_def bit_mod_32 w unset_bit_index_lo set_bit_index_lo
            unset_bit_index_hi [of 0, simplified] set_bit_index_hi [of 0, simplified])
  next
    case 3
    then have b: "b + 1 < n - 5" using assms(2) by simp
    have W: "2 ^ (n - 5) \<le> length pOut" "Kit_TruthWordNum n = 2 ^ (n - 5)" "m div 32 < 2 ^ (n - 5)"
      using assms 3 div_32_less [OF assms(3)] by (auto simp: tt_ok_def Kit_TruthWordNum_def)
    have "Kit_TruthSwapAdjacentVars pOut pIn n iVar ! (m div 32) = pIn ! swap_vars b (b + 1) (m div 32)"
      using swap_blocks(2) [OF b W(1,3), of pIn] 3 W(2)
      by (simp add: Kit_TruthSwapAdjacentVars_def Let_def)
    then show ?thesis using swap_vars_index_hi [of b m] 3 by (simp add: tt_bit_def add.commute)
  qed
qed
section \<open>Sequences of exchanges\<close>

text \<open>
  \<open>Kit_TruthStretch\<close>, \<open>Kit_TruthShrink\<close> and \<open>Kit_TruthPermute\<close> exchange neighbours back and forth
  between two arrays. The state is the array the local \<open>pOut\<close> points to, the one \<open>pIn\<close> points to,
  and \<open>Counter\<close>. \<open>finish_swaps\<close> is the conditional copy at the end; it returns the contents of the
  two arrays of the caller, first the one passed as \<open>pOut\<close>.
\<close>

type_synonym swap_state = "u32 list \<times> u32 list \<times> nat"

definition swap_step :: "nat \<Rightarrow> nat \<Rightarrow> swap_state \<Rightarrow> swap_state" where
  "swap_step nVars k = (\<lambda>(pOut, pIn, Counter).
    (pIn, Kit_TruthSwapAdjacentVars pOut pIn nVars k, Counter + 1))"

definition finish_swaps :: "nat \<Rightarrow> bool \<Rightarrow> swap_state \<Rightarrow> u32 list \<times> u32 list" where
  "finish_swaps nVars fReturnIn = (\<lambda>(pOut, pIn, Counter).
    let pOut = (if fReturnIn \<noteq> even Counter then Kit_TruthCopy pOut pIn nVars else pOut)
    in if even Counter then (pOut, pIn) else (pIn, pOut))"

definition Kit_TruthStretch ::
    "u32 list \<Rightarrow> u32 list \<Rightarrow> nat \<Rightarrow> nat \<Rightarrow> u32 \<Rightarrow> bool \<Rightarrow> u32 list \<times> u32 list" where
  "Kit_TruthStretch pOut pIn nVars nVarsAll Phase fReturnIn =
    (let (st, Var) = fold (\<lambda>i (st, Var).
         if Phase AND push_bit i 1 \<noteq> 0
         then (fold (swap_step nVarsAll) [nat Var ..< i] st, Var - 1)
         else (st, Var)) (rev [0 ..< nVarsAll]) ((pOut, pIn, 0), int nVars - 1)
     in finish_swaps nVarsAll fReturnIn st)"

definition Kit_TruthShrink ::
    "u32 list \<Rightarrow> u32 list \<Rightarrow> nat \<Rightarrow> nat \<Rightarrow> u32 \<Rightarrow> bool \<Rightarrow> u32 list \<times> u32 list" where
  "Kit_TruthShrink pOut pIn nVars nVarsAll Phase fReturnIn =
    (let (st, Var) = fold (\<lambda>i (st, Var).
         if Phase AND push_bit i 1 \<noteq> 0
         then (fold (swap_step nVarsAll) (rev [Var ..< i]) st, Var + 1)
         else (st, Var)) [0 ..< nVarsAll] ((pOut, pIn, 0), 0)
     in finish_swaps nVarsAll fReturnIn st)"

text \<open>
  \<open>Kit_TruthPermute\<close> sorts \<open>pPerm\<close>, which holds small non-negative \<open>char\<close>s, and exchanges variables
  along; the state of the loop is the tables and \<open>pPerm\<close>.
\<close>

definition perm_ordered :: "nat \<Rightarrow> swap_state \<times> nat list \<Rightarrow> bool" where
  "perm_ordered i = (\<lambda>(st, pPerm). pPerm ! i \<le> pPerm ! (i + 1))"

definition perm_swap :: "nat \<Rightarrow> nat \<Rightarrow> swap_state \<times> nat list \<Rightarrow> swap_state \<times> nat list" where
  "perm_swap nVars i = (\<lambda>(st, pPerm).
     (swap_step nVars i st, pPerm[i := pPerm ! (i + 1), i + 1 := pPerm ! i]))"

definition Kit_TruthPermute ::
    "u32 list \<Rightarrow> u32 list \<Rightarrow> nat \<Rightarrow> nat list \<Rightarrow> bool \<Rightarrow> ((u32 list \<times> u32 list) \<times> nat list) option" where
  "Kit_TruthPermute pOut pIn nVars pPerm fReturnIn =
    map_option (\<lambda>(st, pPerm). (finish_swaps nVars fReturnIn st, pPerm))
      (bubble_loop perm_ordered (perm_swap nVars) nVars ((pOut, pIn, 0), pPerm))"

subsection \<open>Where the variables are\<close>

text \<open>
  After some exchanges, position \<open>j\<close> of the current table holds variable \<open>\<sigma> j\<close> of the original
  function \<open>p0\<close>.
\<close>

definition tracks :: "nat \<Rightarrow> u32 list \<Rightarrow> (nat \<Rightarrow> nat) \<Rightarrow> swap_state \<Rightarrow> bool" where
  "tracks n p0 \<sigma> st \<longleftrightarrow> tt_ok n (fst st) \<and> tt_ok n (fst (snd st)) \<and> (\<forall>j\<ge>n. \<sigma> j = j) \<and>
    (\<forall>m<tt_size n. \<exists>m'<tt_size n. (\<forall>j. bit m' (\<sigma> j) = bit m j) \<and>
      tt_bit (fst (snd st)) m = tt_bit p0 m')"

lemma tracks_init: "tt_ok n pOut \<Longrightarrow> tt_ok n pIn \<Longrightarrow> tracks n pIn (\<lambda>j. j) (pOut, pIn, c)"
  by (auto simp: tracks_def)

lemma tracks_swap:
  assumes "tracks n p0 \<sigma> st" "k + 1 < n"
  shows "tracks n p0 (\<sigma>(k := \<sigma> (k + 1), k + 1 := \<sigma> k)) (swap_step n k st)"
proof -
  obtain pOut pIn c where st: "st = (pOut, pIn, c)" by (cases st)
  let ?\<sigma> = "\<sigma>(k := \<sigma> (k + 1), k + 1 := \<sigma> k)"
  have "\<exists>m'<tt_size n. (\<forall>j. bit m' (?\<sigma> j) = bit m j) \<and>
      tt_bit (Kit_TruthSwapAdjacentVars pOut pIn n k) m = tt_bit p0 m'" if m: "m < tt_size n" for m
  proof -
    let ?m = "swap_vars k (k + 1) m"
    have "?m < tt_size n" using m assms(2) by (simp add: swap_vars_less)
    then obtain m' where m': "m' < tt_size n" "\<forall>j. bit m' (\<sigma> j) = bit ?m j" "tt_bit pIn ?m = tt_bit p0 m'"
      using assms(1) by (auto simp: tracks_def st)
    have bits: "bit m' (?\<sigma> j) = bit m j" for j
      using m'(2) [rule_format, of k] m'(2) [rule_format, of "k + 1"] m'(2) [rule_format, of j]
      by (auto simp: bit_swap_vars)
    have "tt_bit (Kit_TruthSwapAdjacentVars pOut pIn n k) m = tt_bit p0 m'"
      using m' assms m by (simp add: Kit_TruthSwapAdjacentVars_bit tracks_def st)
    with bits m'(1) show ?thesis by blast
  qed
  then show ?thesis
    using assms by (auto simp: tracks_def st swap_step_def) (auto simp: tt_ok_def)
qed

lemma tracks_minterm:
  "tracks n p0 \<sigma> st \<Longrightarrow> m < tt_size n \<Longrightarrow>
    \<exists>m'<tt_size n. (\<forall>j. bit m' (\<sigma> j) = bit m j) \<and> tt_bit (fst (snd st)) m = tt_bit p0 m'"
  by (simp add: tracks_def)

lemma tracks_cong: "tracks n p0 \<sigma> st \<Longrightarrow> \<sigma>' = \<sigma> \<Longrightarrow> tracks n p0 \<sigma>' st"
  by simp

lemma tracks_up:
  assumes "tracks n p0 \<sigma> st" "a \<le> b" "b < n"
  shows "tracks n p0 (\<lambda>j. if j = b then \<sigma> a else if a \<le> j \<and> j < b then \<sigma> (j + 1) else \<sigma> j)
    (fold (swap_step n) [a ..< b] st)"
  using assms(2,3)
proof (induction b rule: dec_induct)
  case base
  then show ?case using assms(1) by (auto elim!: tracks_cong)
next
  case (step b)
  then show ?case
    by (auto simp: fun_eq_iff intro!: tracks_swap [THEN tracks_cong])
qed

lemma tracks_down:
  assumes "tracks n p0 \<sigma> st" "a \<le> b" "b < n"
  shows "tracks n p0 (\<lambda>j. if j = a then \<sigma> b else if a < j \<and> j \<le> b then \<sigma> (j - 1) else \<sigma> j)
    (fold (swap_step n) (rev [a ..< b]) st)"
  using assms(2,1,3)
proof (induction b arbitrary: \<sigma> st rule: dec_induct)
  case base
  then show ?case by (auto elim!: tracks_cong)
next
  case (step b)
  have "tracks n p0 (\<sigma>(b := \<sigma> (b + 1), b + 1 := \<sigma> b)) (swap_step n b st)"
    using tracks_swap [OF step.prems(1), of b] step.prems(2) by simp
  from step.IH [OF this] show ?case
    using step by (auto elim!: tracks_cong simp: fun_eq_iff)
qed

text \<open>The final copy leaves the result in the array the caller asked for.\<close>

lemma tracks_finish:
  assumes "tracks n p0 \<sigma> st" "m < tt_size n"
  shows "tt_bit ((if fReturnIn then snd else fst) (finish_swaps n fReturnIn st)) m =
    tt_bit (fst (snd st)) m"
  using assms
  by (cases st) (auto simp: finish_swaps_def tracks_def Kit_TruthCopy_bit Let_def)

lemma agree_vacuous:
  assumes "finite V" "V \<subseteq> {..<n}" "\<forall>v\<in>V. \<not> Kit_TruthVarInSupport p n v"
    and "m < tt_size n" "m' < tt_size n" "\<forall>v. bit m v \<noteq> bit m' v \<longrightarrow> v \<in> V"
  shows "tt_bit p m = tt_bit p m'"
  using assms
proof (induction V arbitrary: m rule: finite_induct)
  case empty
  then have "m = m'" by (intro bit_eqI) auto
  then show ?case by simp
next
  case (insert u V)
  let ?m = "if bit m' u then set_bit u m else unset_bit u m"
  have u: "u < n" using insert.prems(1) by simp
  have "tt_bit p (unset_bit u m) = tt_bit p (set_bit u m)"
    using insert.prems(2,3) u by (auto simp: Kit_TruthVarInSupport_flip)
  then have "tt_bit p m = tt_bit p ?m" by (cases "bit m u") auto
  also have "\<dots> = tt_bit p m'"
  proof (rule insert.IH)
    show "\<forall>v. bit ?m v \<noteq> bit m' v \<longrightarrow> v \<in> V"
      using insert.prems(5) by (auto simp: bit_set_bit_iff bit_unset_bit_iff split: if_splits)
    show "?m < tt_size n"
      using insert.prems(3) u by (auto simp: set_bit_less_tt_size unset_bit_less_tt_size)
  qed (use insert.prems in auto)
  finally show ?case .
qed
subsection \<open>Stretching and shrinking\<close>

text \<open>The number of variables of the phase below \<open>q\<close>.\<close>

definition phase_rank :: "u32 \<Rightarrow> nat \<Rightarrow> nat" where
  "phase_rank Phase q = length (filter (bit Phase) [0 ..< q])"

lemma phase_rank_simps [simp]:
  "phase_rank Phase 0 = 0"
  "phase_rank Phase (Suc q) = phase_rank Phase q + (if bit Phase q then 1 else 0)"
  by (simp_all add: phase_rank_def)

lemma phase_rank_le: "phase_rank Phase q \<le> q"
  by (induction q) auto

lemma phase_rank_mono: "q \<le> r \<Longrightarrow> phase_rank Phase q \<le> phase_rank Phase r"
  by (induction r rule: dec_induct) auto

lemma phase_rank_less: "bit Phase q \<Longrightarrow> q < r \<Longrightarrow> phase_rank Phase q < phase_rank Phase r"
  using phase_rank_mono [of "Suc q" r Phase] by simp

lemma stretch_tracks:
  assumes "tt_ok N pOut" "tt_ok N pIn" "N \<le> 32" "i \<le> N"
  shows "\<exists>\<sigma> st. fold (\<lambda>i (st, Var).
         if Phase AND push_bit i 1 \<noteq> 0
         then (fold (swap_step N) [nat Var ..< i] st, Var - 1)
         else (st, Var)) (rev [i ..< N]) ((pOut, pIn, 0), int (phase_rank Phase N) - 1) =
       (st, int (phase_rank Phase i) - 1) \<and> tracks N pIn \<sigma> st \<and>
       (\<forall>j<phase_rank Phase i. \<sigma> j = j) \<and>
       (\<forall>q. i \<le> q \<longrightarrow> q < N \<longrightarrow> bit Phase q \<longrightarrow> \<sigma> q = phase_rank Phase q)"
  using assms(4)
proof (induction i rule: inc_induct)
  case base
  then show ?case using tracks_init [OF assms(1,2), of 0] by (intro exI conjI) auto
next
  case (step i)
  from step.IH obtain \<sigma> st where IH: "fold (\<lambda>i (st, Var).
         if Phase AND push_bit i 1 \<noteq> 0
         then (fold (swap_step N) [nat Var ..< i] st, Var - 1)
         else (st, Var)) (rev [Suc i ..< N]) ((pOut, pIn, 0), int (phase_rank Phase N) - 1) =
       (st, int (phase_rank Phase (Suc i)) - 1)" "tracks N pIn \<sigma> st"
       "\<forall>j<phase_rank Phase (Suc i). \<sigma> j = j"
       "\<forall>q. Suc i \<le> q \<longrightarrow> q < N \<longrightarrow> bit Phase q \<longrightarrow> \<sigma> q = phase_rank Phase q" by blast
  have rev: "rev [i ..< N] = rev [Suc i ..< N] @ [i]" using step by (simp add: upt_conv_Cons)
  have i: "i < 32" "i < N" using step assms(3) by simp_all
  have le: "phase_rank Phase i \<le> i" by (rule phase_rank_le)
  show ?case
  proof (cases "bit Phase i")
    case False
    then have "\<not> Phase AND push_bit i 1 \<noteq> 0" using mask_and_push_iff [OF i(1)] by blast
    moreover have "\<forall>q. i \<le> q \<longrightarrow> q < N \<longrightarrow> bit Phase q \<longrightarrow> \<sigma> q = phase_rank Phase q"
      using IH(4) False by (metis Suc_leI le_neq_implies_less)
    ultimately show ?thesis
      using IH(2,3) False unfolding rev fold_append o_def IH(1)
      by (intro exI [of _ \<sigma>] exI [of _ st]) (simp del: push_bit_of_1)
  next
    case True
    then have p: "Phase AND push_bit i 1 \<noteq> 0" using mask_and_push_iff [OF i(1)] by blast
    show ?thesis
      using IH(3,4) True le tracks_up [OF IH(2) le i(2)] p unfolding rev fold_append o_def IH(1)
      by (intro exI [of _ "\<lambda>j. if j = i then \<sigma> (phase_rank Phase i)
             else if phase_rank Phase i \<le> j \<and> j < i then \<sigma> (j + 1) else \<sigma> j"]
           exI [of _ "fold (swap_step N) [phase_rank Phase i ..< i] st"])
         (auto simp del: push_bit_of_1)
  qed
qed

lemma shrink_tracks:
  assumes "tt_ok N pOut" "tt_ok N pIn" "N \<le> 32" "i \<le> N"
  shows "\<exists>\<sigma> st. fold (\<lambda>i (st, Var).
         if Phase AND push_bit i 1 \<noteq> 0
         then (fold (swap_step N) (rev [Var ..< i]) st, Var + 1)
         else (st, Var)) [0 ..< i] ((pOut, pIn, 0), 0) =
       (st, phase_rank Phase i) \<and> tracks N pIn \<sigma> st \<and>
       (\<forall>j\<ge>i. \<sigma> j = j) \<and>
       (\<forall>q<i. bit Phase q \<longrightarrow> \<sigma> (phase_rank Phase q) = q)"
  using assms(4)
proof (induction i)
  case 0
  then show ?case using tracks_init [OF assms(1,2), of 0] by (intro exI conjI) auto
next
  case (Suc i)
  then obtain \<sigma> st where IH: "fold (\<lambda>i (st, Var).
         if Phase AND push_bit i 1 \<noteq> 0
         then (fold (swap_step N) (rev [Var ..< i]) st, Var + 1)
         else (st, Var)) [0 ..< i] ((pOut, pIn, 0), 0) =
       (st, phase_rank Phase i)" "tracks N pIn \<sigma> st" "\<forall>j\<ge>i. \<sigma> j = j"
       "\<forall>q<i. bit Phase q \<longrightarrow> \<sigma> (phase_rank Phase q) = q" by (meson Suc_leD)
  have upt: "[0 ..< Suc i] = [0 ..< i] @ [i]" by simp
  have i: "i < 32" "i < N" using Suc assms(3) by simp_all
  have le: "phase_rank Phase i \<le> i" by (rule phase_rank_le)
  show ?case
  proof (cases "bit Phase i")
    case False
    then have "\<not> Phase AND push_bit i 1 \<noteq> 0" using mask_and_push_iff [OF i(1)] by blast
    then show ?thesis
      using IH(2-4) False unfolding upt fold_append o_def IH(1)
      by (intro exI [of _ \<sigma>] exI [of _ st]) (auto simp: less_Suc_eq simp del: push_bit_of_1)
  next
    case True
    then have p: "Phase AND push_bit i 1 \<noteq> 0" using mask_and_push_iff [OF i(1)] by blast
    have "\<forall>q<i. bit Phase q \<longrightarrow> phase_rank Phase q < phase_rank Phase i"
      by (simp add: phase_rank_less)
    then show ?thesis
      using IH(3,4) True le tracks_down [OF IH(2) le i(2)] p unfolding upt fold_append o_def IH(1)
      by (intro exI [of _ "\<lambda>j. if j = phase_rank Phase i then \<sigma> i
             else if phase_rank Phase i < j \<and> j \<le> i then \<sigma> (j - 1) else \<sigma> j"]
           exI [of _ "fold (swap_step N) (rev [phase_rank Phase i ..< i]) st"])
         (fastforce simp: less_Suc_eq simp del: push_bit_of_1)
  qed
qed

text \<open>The array that holds the result.\<close>

definition returned :: "bool \<Rightarrow> u32 list \<times> u32 list \<Rightarrow> u32 list" where
  "returned fReturnIn r = (if fReturnIn then snd r else fst r)"

lemma Kit_TruthStretch_bit:
  assumes "tt_ok N pOut" "tt_ok N pIn" "N \<le> 32" "n = phase_rank Phase N"
    and supp: "\<forall>v<N. n \<le> v \<longrightarrow> \<not> Kit_TruthVarInSupport pIn N v"
    and m: "m < 2 ^ N" "m' < 2 ^ N" "\<forall>q<N. bit Phase q \<longrightarrow> bit m' (phase_rank Phase q) = bit m q"
  shows "tt_bit (returned fReturnIn (Kit_TruthStretch pOut pIn n N Phase fReturnIn)) m = tt_bit pIn m'"
proof -
  from stretch_tracks [OF assms(1-3), of 0 Phase] obtain \<sigma> st where
    run: "fold (\<lambda>i (st, Var).
         if Phase AND push_bit i 1 \<noteq> 0
         then (fold (swap_step N) [nat Var ..< i] st, Var - 1)
         else (st, Var)) (rev [0 ..< N]) ((pOut, pIn, 0), int n - 1) = (st, - 1)"
    and tr: "tracks N pIn \<sigma> st" and sg: "\<forall>q<N. bit Phase q \<longrightarrow> \<sigma> q = phase_rank Phase q"
    using assms(4) by auto
  have le: "(2::nat) ^ N \<le> tt_size N" by (simp add: tt_size_eq)
  with m(1) tr obtain m'' where m'': "m'' < tt_size N" "\<forall>j. bit m'' (\<sigma> j) = bit m j"
    "tt_bit (fst (snd st)) m = tt_bit pIn m''"
    using tracks_minterm [of N pIn \<sigma> st m] by (meson less_le_trans)
  have stays: "\<sigma> j = j" if "N \<le> j" for j using tr that by (simp add: tracks_def)
  note hi = bit_bound [of _ N]
  have surj: "\<exists>q<N. bit Phase q \<and> phase_rank Phase q = v" if "v < n" for v
  proof -
    have "v < phase_rank Phase N \<Longrightarrow> \<exists>q<N. bit Phase q \<and> phase_rank Phase q = v" for N
    proof (induction N)
      case (Suc N)
      then show ?case by (cases "bit Phase N"; cases "v < phase_rank Phase N") (auto simp: less_Suc_eq)
    qed simp
    then show ?thesis using that assms(4) by simp
  qed
  have "tt_bit pIn m'' = tt_bit pIn m'"
  proof (rule agree_vacuous)
    show "finite {n..<N}" "{n..<N} \<subseteq> {..<N}" "\<forall>v\<in>{n..<N}. \<not> Kit_TruthVarInSupport pIn N v"
      using supp by auto
    show "m'' < tt_size N" "m' < tt_size N" using m'' m le by auto
    show "\<forall>v. bit m'' v \<noteq> bit m' v \<longrightarrow> v \<in> {n..<N}"
    proof (intro allI impI)
      fix v assume ne: "bit m'' v \<noteq> bit m' v"
      have "v < N" using ne hi [OF m(2)] hi [OF m(1)] m''(2) stays [of v] by (metis not_le)
      moreover have "n \<le> v"
        using ne surj [of v] sg m''(2) m(3) by (metis not_le)
      ultimately show "v \<in> {n..<N}" by simp
    qed
  qed
  then show ?thesis
    using run m''(3) tracks_finish [OF tr, of m fReturnIn] m(1) le
    by (auto simp: Kit_TruthStretch_def returned_def split: if_splits simp del: push_bit_of_1)
qed

lemma Kit_TruthShrink_bit:
  assumes "tt_ok N pOut" "tt_ok N pIn" "N \<le> 32" "n = phase_rank Phase N"
    and supp: "\<forall>v<N. \<not> bit Phase v \<longrightarrow> \<not> Kit_TruthVarInSupport pIn N v"
    and m: "m < 2 ^ N" "m' < 2 ^ N" "\<forall>q<N. bit Phase q \<longrightarrow> bit m' q = bit m (phase_rank Phase q)"
  shows "tt_bit (returned fReturnIn (Kit_TruthShrink pOut pIn n N Phase fReturnIn)) m = tt_bit pIn m'"
proof -
  from shrink_tracks [OF assms(1-3), of N Phase] obtain \<sigma> st where
    run: "fold (\<lambda>i (st, Var).
         if Phase AND push_bit i 1 \<noteq> 0
         then (fold (swap_step N) (rev [Var ..< i]) st, Var + 1)
         else (st, Var)) [0 ..< N] ((pOut, pIn, 0), 0) = (st, n)"
    and tr: "tracks N pIn \<sigma> st" and sg: "\<forall>q<N. bit Phase q \<longrightarrow> \<sigma> (phase_rank Phase q) = q"
    using assms(4) by auto
  have le: "(2::nat) ^ N \<le> tt_size N" by (simp add: tt_size_eq)
  with m(1) tr obtain m'' where m'': "m'' < tt_size N" "\<forall>j. bit m'' (\<sigma> j) = bit m j"
    "tt_bit (fst (snd st)) m = tt_bit pIn m''"
    using tracks_minterm [of N pIn \<sigma> st m] by (meson less_le_trans)
  have stays: "\<sigma> j = j" if "N \<le> j" for j using tr that by (simp add: tracks_def)
  note hi = bit_bound [of _ N]
  have "tt_bit pIn m'' = tt_bit pIn m'"
  proof (rule agree_vacuous)
    show "finite {v. v < N \<and> \<not> bit Phase v}" "{v. v < N \<and> \<not> bit Phase v} \<subseteq> {..<N}"
      "\<forall>v\<in>{v. v < N \<and> \<not> bit Phase v}. \<not> Kit_TruthVarInSupport pIn N v"
      using supp by auto
    show "m'' < tt_size N" "m' < tt_size N" using m'' m le by auto
    show "\<forall>v. bit m'' v \<noteq> bit m' v \<longrightarrow> v \<in> {v. v < N \<and> \<not> bit Phase v}"
    proof (intro allI impI)
      fix v assume ne: "bit m'' v \<noteq> bit m' v"
      have v: "v < N" using ne hi [OF m(2)] hi [OF m(1)] m''(2) stays [of v] by (metis not_le)
      moreover have "\<not> bit Phase v"
        using ne sg m''(2) m(3) v by metis
      ultimately show "v \<in> {v. v < N \<and> \<not> bit Phase v}" by simp
    qed
  qed
  then show ?thesis
    using run m''(3) tracks_finish [OF tr, of m fReturnIn] m(1) le
    by (auto simp: Kit_TruthShrink_def returned_def split: if_splits simp del: push_bit_of_1)
qed
subsection \<open>Permuting\<close>

text \<open>
  The pass is described by one invariant: the table tracks \<open>\<sigma>\<close>, and position \<open>j\<close> of \<open>pPerm\<close> holds
  what position \<open>\<sigma> j\<close> held at the start.
\<close>

definition permuted :: "nat \<Rightarrow> u32 list \<Rightarrow> nat list \<Rightarrow> swap_state \<Rightarrow> nat list \<Rightarrow> bool" where
  "permuted n p0 perm0 st perm \<longleftrightarrow> length perm = n \<and> mset perm = mset perm0 \<and>
    (\<exists>\<sigma>. tracks n p0 \<sigma> st \<and> (\<forall>j<n. \<sigma> j < n \<and> perm ! j = perm0 ! \<sigma> j))"

lemma permuted_swap:
  assumes "permuted n p0 perm0 st perm" "i + 1 < n"
  shows "permuted n p0 perm0 (swap_step n i st) (perm[i := perm ! (i + 1), i + 1 := perm ! i])"
proof -
  obtain \<sigma> where \<sigma>: "tracks n p0 \<sigma> st" "\<forall>j<n. \<sigma> j < n \<and> perm ! j = perm0 ! \<sigma> j"
    and len: "length perm = n" "mset perm = mset perm0"
    using assms(1) by (auto simp: permuted_def)
  have "mset (perm[i := perm ! (i + 1), i + 1 := perm ! i]) = mset perm"
    using assms(2) len by (intro mset_swap) simp_all
  then show ?thesis
    using tracks_swap [OF \<sigma>(1) assms(2)] \<sigma>(2) len assms(2)
    unfolding permuted_def
    by (intro conjI exI [of _ "\<sigma>(i := \<sigma> (i + 1), i + 1 := \<sigma> i)"]) (auto simp: nth_list_update)
qed

text \<open>Every exchange lowers the weight of the permutation.\<close>

definition perm_weight :: "nat list \<Rightarrow> nat" where
  "perm_weight perm = (\<Sum>j<length perm. (length perm - j) * perm ! j)"

lemma weight_update:
  assumes "i < length xs"
  shows "(\<Sum>j<length xs. w j * xs[i := x] ! j) + w i * xs ! i = (\<Sum>j<length xs. w j * xs ! j) + w i * (x :: nat)"
proof -
  have "(\<Sum>j<length xs. w j * ys ! j) = w i * ys ! i + (\<Sum>j\<in>{..<length xs} - {i}. w j * ys ! j)" for ys
    using assms by (simp add: sum.remove)
  then show ?thesis using assms by simp
qed

lemma perm_weight_swap:
  assumes "i + 1 < length perm" "perm ! (i + 1) < perm ! i"
  shows "perm_weight (perm[i := perm ! (i + 1), i + 1 := perm ! i]) < perm_weight perm"
proof -
  let ?n = "length perm" and ?a = "perm ! i" and ?b = "perm ! (i + 1)"
  let ?p = "perm[i := ?b]"
  have 1: "perm_weight ?p + (?n - i) * ?a = perm_weight perm + (?n - i) * ?b"
    using weight_update [of i perm "\<lambda>j. ?n - j"] assms(1) by (simp add: perm_weight_def)
  have 2: "perm_weight (?p[i + 1 := ?a]) + (?n - (i + 1)) * ?b = perm_weight ?p + (?n - (i + 1)) * ?a"
    using weight_update [of "i + 1" ?p "\<lambda>j. ?n - j"] assms(1) by (simp add: perm_weight_def)
  have 3: "?n - i = (?n - (i + 1)) + 1" using assms(1) by simp
  show ?thesis using 1 2 assms(2) unfolding 3 by (simp add: algebra_simps)
qed

interpretation permute: bubble_sort perm_ordered "perm_swap n" n
    "\<lambda>(st, perm). permuted n p0 perm0 st perm" "\<lambda>(st, perm). perm_weight perm" for n p0 perm0
proof unfold_locales
  fix s i assume s: "case s of (st, perm) \<Rightarrow> permuted n p0 perm0 st perm" "i + 1 < n" "\<not> perm_ordered i s"
  then show "case perm_swap n i s of (st, perm) \<Rightarrow> permuted n p0 perm0 st perm"
    using permuted_swap by (cases s) (simp add: perm_swap_def)
  have "length (snd s) = n" using s(1) by (cases s) (simp add: permuted_def)
  then show "(case perm_swap n i s of (st, perm) \<Rightarrow> perm_weight perm) < (case s of (st, perm) \<Rightarrow> perm_weight perm)"
    using s(2,3) perm_weight_swap [of i "snd s"] by (cases s) (simp add: perm_swap_def perm_ordered_def)
qed

lemma Kit_TruthPermute_bit:
  assumes "tt_ok n pOut" "tt_ok n pIn" and perm: "length pPerm = n" "mset pPerm = mset [0 ..< n]"
  shows "\<exists>r. Kit_TruthPermute pOut pIn n pPerm fReturnIn = Some (r, [0 ..< n]) \<and>
    (\<forall>m<tt_size n. \<forall>m'<tt_size n. (\<forall>j. bit m' j = bit m (if j < n then pPerm ! j else j)) \<longrightarrow>
      tt_bit (returned fReturnIn r) m = tt_bit pIn m')"
proof -
  have "permuted n pIn pPerm (pOut, pIn, 0) pPerm"
    using assms tracks_init [OF assms(1,2), of 0] by (auto simp: permuted_def)
  then obtain st perm' where
    run: "bubble_loop perm_ordered (perm_swap n) n ((pOut, pIn, 0), pPerm) = Some (st, perm')"
    and inv: "permuted n pIn pPerm st perm'" and srt: "\<forall>i. i + 1 < n \<longrightarrow> perm' ! i \<le> perm' ! (i + 1)"
    using permute.ends [of n pIn pPerm "((pOut, pIn, 0), pPerm)"] by (auto simp: perm_ordered_def)
  then obtain \<sigma> where \<sigma>: "tracks n pIn \<sigma> st" "\<forall>j<n. \<sigma> j < n \<and> perm' ! j = pPerm ! \<sigma> j"
    and len: "length perm' = n" "mset perm' = mset [0..<n]" using perm by (auto simp: permuted_def)
  have "sorted perm'"
    using srt len(1) by (simp add: sorted_iff_nth_Suc)
  then have sorted: "perm' = [0..<n]"
    using len(2) by (metis properties_for_sort sorted_upt)
  have "tt_bit (returned fReturnIn (finish_swaps n fReturnIn st)) m = tt_bit pIn m'"
    if m: "m < tt_size n" "m' < tt_size n" "\<forall>j. bit m' j = bit m (if j < n then pPerm ! j else j)" for m m'
  proof -
    obtain m'' where m'': "\<forall>j. bit m'' (\<sigma> j) = bit m j" "tt_bit (fst (snd st)) m = tt_bit pIn m''"
      using tracks_minterm [OF \<sigma>(1) m(1)] by blast
    have pj: "pPerm ! j < n" if "j < n" for j
      using perm that nth_mem [of j pPerm] by (metis atLeastLessThan_iff mset_eq_setD set_upt)
    have inj: "j = k" if "pPerm ! j = pPerm ! k" "j < n" "k < n" for j k
      using that perm by (metis distinct_upt mset_eq_imp_distinct_iff nth_eq_iff_index_eq)
    have "bit m'' j = bit m' j" for j
    proof (cases "j < n")
      case True
      let ?k = "pPerm ! j"
      have k: "?k < n" using pj True by simp
      have "pPerm ! \<sigma> ?k = ?k" "\<sigma> ?k < n" using \<sigma>(2) k unfolding sorted by simp_all
      then have "\<sigma> ?k = j" using inj True by simp
      then show ?thesis using m''(1) m(3) True by metis
    next
      case False
      then have "\<sigma> j = j" using \<sigma>(1) by (simp add: tracks_def)
      then show ?thesis using m''(1) m(3) False by metis
    qed
    then have "m'' = m'" by (intro bit_eqI) simp
    then show ?thesis using m''(2) tracks_finish [OF \<sigma>(1) m(1), of fReturnIn]
      by (auto simp: returned_def split: if_splits)
  qed
  then show ?thesis using run sorted by (auto simp: Kit_TruthPermute_def)
qed
section \<open>Properties\<close>

lemma tracks_finish_ok: "tracks n p0 \<sigma> st \<Longrightarrow> tt_ok n (returned fReturnIn (finish_swaps n fReturnIn st))"
  by (cases st) (auto simp: finish_swaps_def tracks_def returned_def Let_def tt_ok_def)

lemma Kit_TruthStretch_ok:
  assumes "tt_ok N pOut" "tt_ok N pIn" "N \<le> 32" "n = phase_rank Phase N"
  shows "tt_ok N (returned fReturnIn (Kit_TruthStretch pOut pIn n N Phase fReturnIn))"
  using stretch_tracks [OF assms(1-3), of 0 Phase] assms(4)
  by (auto simp: Kit_TruthStretch_def tracks_finish_ok simp del: push_bit_of_1)

text \<open>The stretched function does not depend on the variables outside the phase.\<close>

lemma Kit_TruthStretch_support:
  assumes "tt_ok N pOut" "tt_ok N pIn" "5 \<le> N" "N \<le> 32" "n = phase_rank Phase N"
    and supp: "\<forall>v<N. n \<le> v \<longrightarrow> \<not> Kit_TruthVarInSupport pIn N v"
    and v: "v < N" "\<not> bit Phase v"
  shows "\<not> Kit_TruthVarInSupport (returned f (Kit_TruthStretch pOut pIn n N Phase f)) N v"
proof -
  let ?r = "returned f (Kit_TruthStretch pOut pIn n N Phase f)"
  have size: "tt_size N = 2 ^ N" using assms(3) by (simp add: tt_size_eq max_def)
  have "tt_bit ?r (unset_bit v m) = tt_bit ?r (set_bit v m)" if m: "m < 2 ^ N" for m
  proof -
    let ?m' = "number_of_bits N (\<lambda>j. \<exists>q<N. bit Phase q \<and> phase_rank Phase q = j \<and> bit m q)"
    have rank: "phase_rank Phase q = phase_rank Phase q' \<longleftrightarrow> q = q'" if "bit Phase q" "bit Phase q'" for q q'
      using phase_rank_less [OF that(1), of q'] phase_rank_less [OF that(2), of q]
      by (metis less_irrefl nat_neq_iff)
    have "bit ?m' (phase_rank Phase q) = bit m q" if "q < N" "bit Phase q" for q
      using that rank phase_rank_le [of Phase q] by auto
    then have *: "tt_bit ?r x = tt_bit pIn ?m'"
      if "x < 2 ^ N" "\<forall>q<N. bit Phase q \<longrightarrow> bit x q = bit m q" for x
      using that assms by (intro Kit_TruthStretch_bit) auto
    have "unset_bit v m < 2 ^ N" "set_bit v m < 2 ^ N"
      using m v(1) unset_bit_less [of v m] by (auto simp: set_bit_less_pow)
    moreover have "\<forall>q<N. bit Phase q \<longrightarrow> bit (unset_bit v m) q = bit m q \<and> bit (set_bit v m) q = bit m q"
      using v(2) by (auto simp: bit_unset_bit_iff bit_set_bit_iff)
    ultimately show ?thesis using * [of "unset_bit v m"] * [of "set_bit v m"] by simp
  qed
  then show ?thesis using v(1) by (auto simp: Kit_TruthVarInSupport_flip size)
qed

text \<open>
  C22 \<open>Kit_TruthSwapAdjacentVars\<close> and its variant \<open>Kit_TruthSwapAdjacentVars2\<close> write the table of the
  function with the variables \<open>iVar\<close> and \<open>iVar + 1\<close> exchanged.
\<close>

lemma Kit_TruthSwapAdjacentVars_correct:
  assumes "tt_ok n pOut" "iVar + 1 < n"
  shows "\<forall>m<tt_size n.
    tt_bit (Kit_TruthSwapAdjacentVars pOut pIn n iVar) m = tt_bit pIn (swap_vars iVar (iVar + 1) m) \<and>
    tt_bit (Kit_TruthSwapAdjacentVars2 pIn pOut n iVar) m = tt_bit pIn (swap_vars iVar (iVar + 1) m)"
  using assms by (simp add: Kit_TruthSwapAdjacentVars_bit Kit_TruthSwapAdjacentVars2_eq)

lemma Kit_TruthSwapAdjacentVars_witness:
  "tt_bit (Kit_TruthSwapAdjacentVars [0, 0] [0xFFFF0000, 0] 6 4) 33 =
    tt_bit [0xFFFF0000, 0] (swap_vars 4 5 33)"
  using Kit_TruthSwapAdjacentVars_correct [of 6 "[0, 0]" 4 "[0xFFFF0000, 0]"]
  by (simp add: tt_ok_def Kit_TruthWordNum_def tt_size_def)

text \<open>
  C21 For tables of 5 to 32 variables shrinking undoes stretching: if the function only depends on the
  first \<open>n\<close> variables, \<open>n\<close> the number of variables in the phase, then
  \<open>Kit_TruthShrink\<close> applied to the array in which \<open>Kit_TruthStretch\<close> left its result, with the same
  phase, gives the function back, whichever arrays the caller asks the results in.
\<close>

lemma Kit_TruthShrink_Stretch:
  assumes "tt_ok N pOut" "tt_ok N pIn" "tt_ok N pOut2" "5 \<le> N" "N \<le> 32" "n = phase_rank Phase N"
    and "\<forall>v<N. n \<le> v \<longrightarrow> \<not> Kit_TruthVarInSupport pIn N v"
    and "m < 2 ^ N"
  shows "tt_bit (returned g (Kit_TruthShrink pOut2
      (returned f (Kit_TruthStretch pOut pIn n N Phase f)) n N Phase g)) m = tt_bit pIn m"
proof -
  let ?m' = "number_of_bits N (\<lambda>q. bit m (phase_rank Phase q))"
  have "tt_bit (returned g (Kit_TruthShrink pOut2
      (returned f (Kit_TruthStretch pOut pIn n N Phase f)) n N Phase g)) m =
    tt_bit (returned f (Kit_TruthStretch pOut pIn n N Phase f)) ?m'"
    using assms by (intro Kit_TruthShrink_bit) (auto simp: Kit_TruthStretch_ok Kit_TruthStretch_support)
  also have "\<dots> = tt_bit pIn m"
    using assms by (intro Kit_TruthStretch_bit) auto
  finally show ?thesis .
qed

lemma Kit_TruthShrink_Stretch_witness:
  "tt_bit (returned False (Kit_TruthShrink [0]
      (returned True (Kit_TruthStretch [0] [0x88888888] 2 5 0x12 True)) 2 5 0x12 False)) 3 =
    tt_bit [0x88888888] 3"
proof (rule Kit_TruthShrink_Stretch)
  show "\<forall>v<5. 2 \<le> v \<longrightarrow> \<not> Kit_TruthVarInSupport [0x88888888] 5 v"
    by code_simp
  show "2 = phase_rank 0x12 5" by code_simp
qed (simp_all add: tt_ok_def Kit_TruthWordNum_def)

text \<open>
  C20 \<open>Kit_TruthPermute\<close> ends for every permutation of the variables, leaves \<open>pPerm\<close> sorted, and
  moves variable \<open>j\<close> of the function to the position \<open>pPerm[j]\<close>, in the array the caller asked for.
\<close>

lemma Kit_TruthPermute_correct:
  assumes "tt_ok n pOut" "tt_ok n pIn" "length pPerm = n" "mset pPerm = mset [0 ..< n]"
  shows "\<exists>r. Kit_TruthPermute pOut pIn n pPerm fReturnIn = Some (r, [0 ..< n]) \<and>
    (\<forall>m<tt_size n. \<forall>m'<tt_size n. (\<forall>j. bit m' j = bit m (if j < n then pPerm ! j else j)) \<longrightarrow>
      tt_bit (returned fReturnIn r) m = tt_bit pIn m')"
  using assms by (rule Kit_TruthPermute_bit)

lemma Kit_TruthPermute_witness:
  "\<exists>r. Kit_TruthPermute [0] [0x22222222] 3 [1, 2, 0] True = Some (r, [0 ..< 3])"
  using Kit_TruthPermute_correct [of 3 "[0]" "[0x22222222]" "[1, 2, 0]" True]
  by (auto simp: tt_ok_def Kit_TruthWordNum_def upt_rec)

end
