(* ===== verification/Word_Fields.thy ===== *)
theory Word_Fields
  imports Abc_Prelude
begin

text \<open>
  Words as arrays of bit fields: the counting routines of the code (\<open>Kit_WordCountOnes\<close> and
  \<open>count64\<close>) add neighbouring fields of a word in parallel.
\<close>

unbundle bit_operations_syntax

section \<open>Fields of a word\<close>

text \<open>
  The counting steps add numbers packed in fields of a word. Field \<open>k\<close> of width \<open>t\<close> is the number in
  bits \<open>t * k\<close> to \<open>t * k + t - 1\<close>; addition acts on every field alone as long as no field overflows.
\<close>

definition field :: "nat \<Rightarrow> nat \<Rightarrow> nat \<Rightarrow> nat" where
  "field t k x = x div 2 ^ (t * k) mod 2 ^ t"

lemma bit_field: "bit (field t k x) j \<longleftrightarrow> j < t \<and> bit x (t * k + j)"
  unfolding field_def drop_bit_eq_div [symmetric] take_bit_eq_mod [symmetric]
  by (simp add: bit_take_bit_iff bit_drop_bit_eq)

lemma field_less: "field t k x < 2 ^ t"
  by (simp add: field_def)

lemma mod_field: "x mod 2 ^ (t * Suc n) = field t n x * 2 ^ (t * n) + x mod 2 ^ (t * n)"
  using mod_mult2_eq [of x "2 ^ (t * n)" "2 ^ t"]
  by (simp add: field_def power_add mult.commute)

lemma fields_no_carry:
  assumes "\<forall>k<n. field t k x + field t k y < 2 ^ t"
  shows "x mod 2 ^ (t * n) + y mod 2 ^ (t * n) < 2 ^ (t * n)"
  using assms
proof (induction n)
  case (Suc n)
  let ?P = "(2 :: nat) ^ (t * n)"
  have "(field t n x + field t n y + 1) * ?P \<le> 2 ^ t * ?P"
    using Suc.prems by (intro mult_right_mono) (simp_all add: Suc_leI)
  moreover have "x mod ?P + y mod ?P < ?P" using Suc by simp
  ultimately show ?case
    unfolding mod_field by (simp add: power_add algebra_simps)
qed simp

lemma field_add:
  assumes "\<forall>k<n. field t k x + field t k y < 2 ^ t" "k < n"
  shows "field t k (x + y) = field t k x + field t k y"
proof -
  let ?P = "(2 :: nat) ^ (t * k)"
  have "x mod ?P + y mod ?P < ?P" using assms by (intro fields_no_carry) simp
  then have "(x + y) div ?P = x div ?P + y div ?P" using div_add1_eq [of x y ?P] by simp
  then have "field t k (x + y) = (field t k x + field t k y) mod 2 ^ t"
    by (simp add: field_def mod_add_eq)
  then show ?thesis using assms by simp
qed

lemma bit_in_field:
  assumes "j < 2 * 2 ^ v"
  shows "bit (2 * 2 ^ v * k + j) v \<longleftrightarrow> (2 :: nat) ^ v \<le> j"
proof -
  have "(2 * 2 ^ v * k + j) div 2 ^ v = 2 * k + j div 2 ^ v"
    using div_mult_self1 [of "2 ^ v" j "2 * k"] by (simp add: ac_simps)
  moreover have "j div 2 ^ v = (if 2 ^ v \<le> j then 1 else 0)"
    using assms by (auto simp: div_nat_eqI)
  ultimately show ?thesis by (simp only: bit_iff_odd) simp
qed

lemma field_mask:
  fixes x M :: "'a::len word"
  assumes "\<And>j. j < LENGTH('a) \<Longrightarrow> bit M j \<longleftrightarrow> \<not> bit j v"
  shows "field (2 * 2 ^ v) k (unat (x AND M)) = field (2 ^ v) (2 * k) (unat x)"
    and "field (2 * 2 ^ v) k (unat (drop_bit (2 ^ v) x AND M)) = field (2 ^ v) (2 * k + 1) (unat x)"
proof -
  have M: "bit (unat (y AND M)) i \<longleftrightarrow> bit y i \<and> \<not> bit i v" for y :: "'a word" and i
    using assms [of i] bit_imp_le_length [of y i] by (auto simp: bit_unsigned_iff bit_and_iff)
  have F: "field (2 * 2 ^ v) k (unat (y AND M)) = field (2 ^ v) (2 * k) (unat y)" for y :: "'a word"
  proof (rule bit_eqI)
    fix j
    have eq: "2 ^ v * (2 * k) + j = 2 * 2 ^ v * k + j" by simp
    show "bit (field (2 * 2 ^ v) k (unat (y AND M))) j = bit (field (2 ^ v) (2 * k) (unat y)) j"
      using bit_in_field [of j v k] M [of y "2 * 2 ^ v * k + j"]
      unfolding bit_field eq by (auto simp: bit_unsigned_iff dest: bit_imp_le_length)
  qed
  then show "field (2 * 2 ^ v) k (unat (x AND M)) = field (2 ^ v) (2 * k) (unat x)" .
  have "field (2 ^ v) (2 * k) (unat (drop_bit (2 ^ v) x)) = field (2 ^ v) (2 * k + 1) (unat x)"
  proof (rule bit_eqI)
    fix j
    have "2 ^ v * (2 * k + 1) + j = 2 ^ v + (2 ^ v * (2 * k) + j)" by (simp add: algebra_simps)
    then show "bit (field (2 ^ v) (2 * k) (unat (drop_bit (2 ^ v) x))) j = bit (field (2 ^ v) (2 * k + 1) (unat x)) j"
      unfolding bit_field by (simp add: bit_unsigned_iff bit_drop_bit_eq add.assoc)
  qed
  then show "field (2 * 2 ^ v) k (unat (drop_bit (2 ^ v) x AND M)) = field (2 ^ v) (2 * k + 1) (unat x)"
    by (simp only: F)
qed

lemma field_step:
  fixes x M :: "'a::len word"
  assumes "\<And>j. j < LENGTH('a) \<Longrightarrow> bit M j \<longleftrightarrow> \<not> bit j v" and v: "2 * 2 ^ v * n = LENGTH('a)" and k: "k < n"
  shows "field (2 * 2 ^ v) k (unat ((x AND M) + (drop_bit (2 ^ v) x AND M))) =
    field (2 ^ v) (2 * k) (unat x) + field (2 ^ v) (2 * k + 1) (unat x)"
proof -
  let ?a = "x AND M" and ?b = "drop_bit (2 ^ v) x AND M"
  have small: "field (2 ^ v) i (unat x) + field (2 ^ v) j (unat x) < 2 ^ (2 * 2 ^ v)" for i j
  proof -
    have "field (2 ^ v) i (unat x) + field (2 ^ v) j (unat x) < 2 * 2 ^ 2 ^ v"
      using field_less [of "2 ^ v" i "unat x"] field_less [of "2 ^ v" j "unat x"] by simp
    also have "\<dots> = 2 ^ (2 ^ v + 1)" by simp
    also have "\<dots> \<le> 2 ^ (2 * 2 ^ v)" by (rule power_increasing) (simp_all add: Suc_leI)
    finally show ?thesis .
  qed
  have fa: "field (2 * 2 ^ v) k (unat ?a) = field (2 ^ v) (2 * k) (unat x)" for k
    by (rule field_mask(1)) (rule assms(1))
  have fb: "field (2 * 2 ^ v) k (unat ?b) = field (2 ^ v) (2 * k + 1) (unat x)" for k
    by (rule field_mask(2)) (rule assms(1))
  have *: "\<forall>k<n. field (2 * 2 ^ v) k (unat ?a) + field (2 * 2 ^ v) k (unat ?b) < 2 ^ (2 * 2 ^ v)"
    unfolding fa fb by (intro allI impI small)
  have "unat ?a mod 2 ^ LENGTH('a) + unat ?b mod 2 ^ LENGTH('a) < 2 ^ LENGTH('a)"
    using fields_no_carry [OF *] v by simp
  then have "unat (?a + ?b) = unat ?a + unat ?b"
    using unsigned_less [where 'a = nat, of ?a] unsigned_less [where 'a = nat, of ?b] by (simp add: unat_word_ariths)
  then show ?thesis using field_add [OF * k] unfolding fa fb by (simp only:)
qed

lemma count_step:
  fixes x M :: "'a::len word"
  assumes "\<And>j. j < LENGTH('a) \<Longrightarrow> bit M j \<longleftrightarrow> \<not> bit j v" and v: "2 * 2 ^ v * n = LENGTH('a)"
  shows "(\<Sum>k<n. field (2 * 2 ^ v) k (unat ((x AND M) + (drop_bit (2 ^ v) x AND M)))) =
    (\<Sum>k<2 * n. field (2 ^ v) k (unat x))"
proof -
  have "(\<Sum>k<n. f (2 * k) + f (2 * k + 1)) = (\<Sum>k<2 * n. f k)" for f :: "nat \<Rightarrow> nat"
    by (induction n) auto
  then show ?thesis using field_step [OF assms] by simp
qed

lemma sum_field_1: "(\<Sum>k<n. field 1 k x) = card {j. j < n \<and> bit x j}"
proof -
  have "field 1 k x = (if bit x k then 1 else 0)" for k
    by (simp add: field_def bit_iff_odd mod_2_eq_odd)
  then show ?thesis by (simp add: sum.If_cases Int_def)
qed

end
