(* ===== verification/Kit_Count.thy ===== *)
theory Kit_Count
  imports Kit_Swap Word_Fields
begin

text \<open>
  Counting ones: the population count of a word, the counts of minterms of a table, of its
  cofactors and of its boolean differences (kit.h and kitTruth.c). The word routines add numbers
  packed in fields of a word, see the theory \<open>Word_Fields\<close>. All counts are stated over minterms with \<open>count_minterms\<close>.
\<close>

unbundle bit_operations_syntax

section \<open>Population count of a word\<close>

definition Kit_WordFindFirstBit :: "u32 \<Rightarrow> int" where
  "Kit_WordFindFirstBit uWord =
    (case List.find (\<lambda>i. uWord AND push_bit i 1 \<noteq> 0) [0 ..< 32] of Some i \<Rightarrow> int i | None \<Rightarrow> - 1)"

definition Kit_WordHasOneBit :: "u32 \<Rightarrow> bool" where
  "Kit_WordHasOneBit uWord \<longleftrightarrow> uWord AND (uWord - 1) = 0"

definition Kit_WordCountOnes :: "u32 \<Rightarrow> nat" where
  "Kit_WordCountOnes uWord =
    (let uWord = (uWord AND 0x55555555) + (drop_bit 1 uWord AND 0x55555555);
         uWord = (uWord AND 0x33333333) + (drop_bit 2 uWord AND 0x33333333);
         uWord = (uWord AND 0x0F0F0F0F) + (drop_bit 4 uWord AND 0x0F0F0F0F);
         uWord = (uWord AND 0x00FF00FF) + (drop_bit 8 uWord AND 0x00FF00FF)
     in unat ((uWord AND 0x0000FFFF) + drop_bit 16 uWord))"

lemma count_last:
  "unat ((x AND 0x0000FFFF) + drop_bit 16 x :: u32) = (\<Sum>k<2. field 16 k (unat x))"
proof -
  have "field 32 0 (unat (x AND 0x0000FFFF)) = field 16 0 (unat x)"
    using field_mask(1) [of "0x0000FFFF" 4 0 x, OF mask_4_lo] by simp
  then have a: "unat (x AND 0x0000FFFF) = field 16 0 (unat x)"
    using unsigned_less [where 'a = nat, of "x AND 0x0000FFFF"] by (simp add: field_def)
  have b: "unat (drop_bit 16 x) = field 16 1 (unat x)"
    by (rule bit_eqI) (auto simp: bit_field bit_unsigned_iff bit_drop_bit_eq dest: bit_imp_le_length)
  have "field 16 0 (unat x) + field 16 1 (unat x) < 2 ^ 32"
    using field_less [of 16 0 "unat x"] field_less [of 16 1 "unat x"] by simp
  then have "unat ((x AND 0x0000FFFF) + drop_bit 16 x) = field 16 0 (unat x) + field 16 1 (unat x)"
    unfolding a [symmetric] b [symmetric] by (simp add: unat_word_ariths)
  moreover have "(\<Sum>k<2. f k) = f 0 + f (1 :: nat)" for f :: "nat \<Rightarrow> nat"
    by (simp add: numeral_2_eq_2)
  ultimately show ?thesis by simp
qed

lemma Kit_WordCountOnes_eq: "Kit_WordCountOnes w = card {j. j < 32 \<and> bit w j}"
proof -
  let ?x1 = "(w AND 0x55555555) + (drop_bit 1 w AND 0x55555555)"
  let ?x2 = "(?x1 AND 0x33333333) + (drop_bit 2 ?x1 AND 0x33333333)"
  let ?x3 = "(?x2 AND 0x0F0F0F0F) + (drop_bit 4 ?x2 AND 0x0F0F0F0F)"
  let ?x4 = "(?x3 AND 0x00FF00FF) + (drop_bit 8 ?x3 AND 0x00FF00FF)"
  have "(\<Sum>k<32. field 1 k (unat w)) = (\<Sum>k<16. field 2 k (unat ?x1))"
    using count_step [of _ 0 16 w, OF mask_0_lo] by simp
  also have "\<dots> = (\<Sum>k<8. field 4 k (unat ?x2))"
    using count_step [of _ 1 8 ?x1, OF mask_1_lo] by simp
  also have "\<dots> = (\<Sum>k<4. field 8 k (unat ?x3))"
    using count_step [of _ 2 4 ?x2, OF mask_2_lo] by simp
  also have "\<dots> = (\<Sum>k<2. field 16 k (unat ?x4))"
    using count_step [of _ 3 2 ?x3, OF mask_3_lo] by simp
  also have "\<dots> = Kit_WordCountOnes w"
    by (simp only: count_last Kit_WordCountOnes_def Let_def)
  finally show ?thesis using sum_field_1 [where n = 32 and x = "unat w"] by (simp add: bit_unsigned_iff)
qed

section \<open>Counting minterms\<close>

definition Kit_TruthCountOnes :: "u32 list \<Rightarrow> nat \<Rightarrow> nat" where
  "Kit_TruthCountOnes pIn nVars =
    fold (\<lambda>w Counter. Counter + Kit_WordCountOnes (pIn ! w)) (rev [0 ..< Kit_TruthWordNum nVars]) 0"

definition Kit_TruthXorCount :: "u32 list \<Rightarrow> u32 list \<Rightarrow> nat \<Rightarrow> nat" where
  "Kit_TruthXorCount pTruth0 pTruth1 nVars =
    sum_words (Kit_TruthWordNum nVars) (\<lambda>i. Kit_WordCountOnes (pTruth0 ! i XOR pTruth1 ! i))"

definition Kit_TruthFindFirstBit :: "u32 list \<Rightarrow> nat \<Rightarrow> int" where
  "Kit_TruthFindFirstBit pIn nVars =
    (case List.find (\<lambda>w. pIn ! w \<noteq> 0) [0 ..< Kit_TruthWordNum nVars] of
       Some w \<Rightarrow> 32 * int w + Kit_WordFindFirstBit (pIn ! w) | None \<Rightarrow> - 1)"

definition Kit_TruthFindFirstZero :: "u32 list \<Rightarrow> nat \<Rightarrow> int" where
  "Kit_TruthFindFirstZero pIn nVars =
    (case List.find (\<lambda>w. NOT (pIn ! w) \<noteq> 0) [0 ..< Kit_TruthWordNum nVars] of
       Some w \<Rightarrow> 32 * int w + Kit_WordFindFirstBit (NOT (pIn ! w)) | None \<Rightarrow> - 1)"

definition Kit_TruthCofactor0Count :: "u32 list \<Rightarrow> nat \<Rightarrow> nat \<Rightarrow> nat" where
  "Kit_TruthCofactor0Count pTruth nVars iVar =
    (let nWords = Kit_TruthWordNum nVars in
     if iVar = 0 then sum_words nWords (\<lambda>i. Kit_WordCountOnes (pTruth ! i AND 0x55555555))
     else if iVar = 1 then sum_words nWords (\<lambda>i. Kit_WordCountOnes (pTruth ! i AND 0x33333333))
     else if iVar = 2 then sum_words nWords (\<lambda>i. Kit_WordCountOnes (pTruth ! i AND 0x0F0F0F0F))
     else if iVar = 3 then sum_words nWords (\<lambda>i. Kit_WordCountOnes (pTruth ! i AND 0x00FF00FF))
     else if iVar = 4 then sum_words nWords (\<lambda>i. Kit_WordCountOnes (pTruth ! i AND 0x0000FFFF))
     else let Step = 2 ^ (iVar - 5) in
       sum_pairs nWords Step (\<lambda>lo hi. Kit_WordCountOnes (pTruth ! lo)))"

definition Kit_TruthBooleanDiffCount :: "u32 list \<Rightarrow> nat \<Rightarrow> nat \<Rightarrow> nat" where
  "Kit_TruthBooleanDiffCount pTruth nVars iVar =
    (let nWords = Kit_TruthWordNum nVars in
     if iVar = 0 then sum_words nWords
       (\<lambda>i. Kit_WordCountOnes ((pTruth ! i XOR drop_bit 1 (pTruth ! i)) AND 0x55555555))
     else if iVar = 1 then sum_words nWords
       (\<lambda>i. Kit_WordCountOnes ((pTruth ! i XOR drop_bit 2 (pTruth ! i)) AND 0x33333333))
     else if iVar = 2 then sum_words nWords
       (\<lambda>i. Kit_WordCountOnes ((pTruth ! i XOR drop_bit 4 (pTruth ! i)) AND 0x0F0F0F0F))
     else if iVar = 3 then sum_words nWords
       (\<lambda>i. Kit_WordCountOnes ((pTruth ! i XOR drop_bit 8 (pTruth ! i)) AND 0x00FF00FF))
     else if iVar = 4 then sum_words nWords
       (\<lambda>i. Kit_WordCountOnes ((pTruth ! i XOR drop_bit 16 (pTruth ! i)) AND 0x0000FFFF))
     else let Step = 2 ^ (iVar - 5) in
       sum_pairs nWords Step (\<lambda>lo hi. Kit_WordCountOnes (pTruth ! lo XOR pTruth ! hi)))"

text \<open>
  \<open>Kit_TruthCountOnesInCofs\<close> stores the counts for variable \<open>v\<close> at \<open>2 * v\<close> and \<open>2 * v + 1\<close>. The word
  loops of the general case accumulate into the store.
\<close>

definition inc :: "nat \<Rightarrow> nat \<Rightarrow> nat list \<Rightarrow> nat list" where
  "inc i x t = t[i := t ! i + x]"

definition Kit_TruthCountOnesInCofs :: "u32 list \<Rightarrow> nat \<Rightarrow> nat list \<Rightarrow> nat list" where
  "Kit_TruthCountOnesInCofs pTruth nVars pStore =
    (let nWords = Kit_TruthWordNum nVars;
         pStore = fold (\<lambda>i t. t[i := 0]) [0 ..< 2 * nVars] pStore
     in if nVars \<le> 5 then
          let pStore = (if nVars > 0 then pStore
                [2*0+0 := Kit_WordCountOnes (pTruth ! 0 AND 0x55555555),
                 2*0+1 := Kit_WordCountOnes (pTruth ! 0 AND 0xAAAAAAAA)] else pStore);
              pStore = (if nVars > 1 then pStore
                [2*1+0 := Kit_WordCountOnes (pTruth ! 0 AND 0x33333333),
                 2*1+1 := Kit_WordCountOnes (pTruth ! 0 AND 0xCCCCCCCC)] else pStore);
              pStore = (if nVars > 2 then pStore
                [2*2+0 := Kit_WordCountOnes (pTruth ! 0 AND 0x0F0F0F0F),
                 2*2+1 := Kit_WordCountOnes (pTruth ! 0 AND 0xF0F0F0F0)] else pStore);
              pStore = (if nVars > 3 then pStore
                [2*3+0 := Kit_WordCountOnes (pTruth ! 0 AND 0x00FF00FF),
                 2*3+1 := Kit_WordCountOnes (pTruth ! 0 AND 0xFF00FF00)] else pStore);
              pStore = (if nVars > 4 then pStore
                [2*4+0 := Kit_WordCountOnes (pTruth ! 0 AND 0x0000FFFF),
                 2*4+1 := Kit_WordCountOnes (pTruth ! 0 AND 0xFFFF0000)] else pStore)
          in pStore
        else
          let pStore = fold (\<lambda>k pStore.
                let Counter = Kit_WordCountOnes (pTruth ! k)
                in fold (\<lambda>i pStore. if k AND push_bit (i - 5) 1 \<noteq> 0
                     then inc (2*i+1) Counter pStore else inc (2*i+0) Counter pStore) [5 ..< nVars] pStore)
              [0 ..< nWords] pStore
          in fold (\<lambda>k pStore.
               let x = pTruth ! (2*k); y = pTruth ! (2*k+1);
                   pStore = inc (2*0+0) (Kit_WordCountOnes ((x AND 0x55555555) OR push_bit 1 (y AND 0x55555555))) pStore;
                   pStore = inc (2*0+1) (Kit_WordCountOnes ((x AND 0xAAAAAAAA) OR drop_bit 1 (y AND 0xAAAAAAAA))) pStore;
                   pStore = inc (2*1+0) (Kit_WordCountOnes ((x AND 0x33333333) OR push_bit 2 (y AND 0x33333333))) pStore;
                   pStore = inc (2*1+1) (Kit_WordCountOnes ((x AND 0xCCCCCCCC) OR drop_bit 2 (y AND 0xCCCCCCCC))) pStore;
                   pStore = inc (2*2+0) (Kit_WordCountOnes ((x AND 0x0F0F0F0F) OR push_bit 4 (y AND 0x0F0F0F0F))) pStore;
                   pStore = inc (2*2+1) (Kit_WordCountOnes ((x AND 0xF0F0F0F0) OR drop_bit 4 (y AND 0xF0F0F0F0))) pStore;
                   pStore = inc (2*3+0) (Kit_WordCountOnes ((x AND 0x00FF00FF) OR push_bit 8 (y AND 0x00FF00FF))) pStore;
                   pStore = inc (2*3+1) (Kit_WordCountOnes ((x AND 0xFF00FF00) OR drop_bit 8 (y AND 0xFF00FF00))) pStore;
                   pStore = inc (2*4+0) (Kit_WordCountOnes ((x AND 0x0000FFFF) OR push_bit 16 (y AND 0x0000FFFF))) pStore;
                   pStore = inc (2*4+1) (Kit_WordCountOnes ((x AND 0xFFFF0000) OR drop_bit 16 (y AND 0xFFFF0000))) pStore
               in pStore) [0 ..< nWords div 2] pStore)"

definition Kit_TruthCountOnesInCofs0 :: "u32 list \<Rightarrow> nat \<Rightarrow> nat list \<Rightarrow> nat list" where
  "Kit_TruthCountOnesInCofs0 pTruth nVars pStore =
    (let nWords = Kit_TruthWordNum nVars;
         pStore = fold (\<lambda>i t. t[i := 0]) [0 ..< nVars] pStore
     in if nVars \<le> 5 then
          let pStore = (if nVars > 0 then pStore[0 := Kit_WordCountOnes (pTruth ! 0 AND 0x55555555)] else pStore) in
          let pStore = (if nVars > 1 then pStore[1 := Kit_WordCountOnes (pTruth ! 0 AND 0x33333333)] else pStore) in
          let pStore = (if nVars > 2 then pStore[2 := Kit_WordCountOnes (pTruth ! 0 AND 0x0F0F0F0F)] else pStore) in
          let pStore = (if nVars > 3 then pStore[3 := Kit_WordCountOnes (pTruth ! 0 AND 0x00FF00FF)] else pStore) in
          let pStore = (if nVars > 4 then pStore[4 := Kit_WordCountOnes (pTruth ! 0 AND 0x0000FFFF)] else pStore) in
          pStore
        else
          let pStore = fold (\<lambda>k pStore.
                let Counter = Kit_WordCountOnes (pTruth ! k)
                in fold (\<lambda>i pStore. if k AND push_bit (i - 5) 1 = 0 then inc i Counter pStore else pStore)
                     [5 ..< nVars] pStore)
              [0 ..< nWords] pStore
          in fold (\<lambda>k pStore.
               let x = pTruth ! (2*k); y = pTruth ! (2*k+1);
                   pStore = inc 0 (Kit_WordCountOnes ((x AND 0x55555555) OR push_bit 1 (y AND 0x55555555))) pStore;
                   pStore = inc 1 (Kit_WordCountOnes ((x AND 0x33333333) OR push_bit 2 (y AND 0x33333333))) pStore;
                   pStore = inc 2 (Kit_WordCountOnes ((x AND 0x0F0F0F0F) OR push_bit 4 (y AND 0x0F0F0F0F))) pStore;
                   pStore = inc 3 (Kit_WordCountOnes ((x AND 0x00FF00FF) OR push_bit 8 (y AND 0x00FF00FF))) pStore;
                   pStore = inc 4 (Kit_WordCountOnes ((x AND 0x0000FFFF) OR push_bit 16 (y AND 0x0000FFFF))) pStore
               in pStore) [0 ..< nWords div 2] pStore)"

definition Kit_TruthCountOnesInCofsSlow :: "u32 list \<Rightarrow> nat \<Rightarrow> nat list \<Rightarrow> u32 list \<Rightarrow> nat list \<times> u32 list" where
  "Kit_TruthCountOnesInCofsSlow pTruth nVars pStore pAux =
    fold (\<lambda>i (pStore, pAux).
      let pAux = Kit_TruthCofactor0New pAux pTruth nVars i;
          pStore = pStore[2*i+0 := Kit_TruthCountOnes pAux nVars div 2];
          pAux = Kit_TruthCofactor1New pAux pTruth nVars i;
          pStore = pStore[2*i+1 := Kit_TruthCountOnes pAux nVars div 2]
      in (pStore, pAux)) [0 ..< nVars] (pStore, pAux)"
subsection \<open>Counts over words and over minterms\<close>

lemma card_words:
  "(\<Sum>i<Kit_TruthWordNum n. card {j. j < 32 \<and> P i j}) = card {m. m < tt_size n \<and> P (m div 32) (m mod 32)}"
proof -
  let ?f = "\<lambda>m. if P (m div 32) (m mod 32) then 1 else 0 :: nat"
  have ones: "card {j. j < k \<and> Q j} = (\<Sum>j<k. if Q j then 1 else 0)" for k and Q :: "nat \<Rightarrow> bool"
    by (simp add: sum.If_cases Int_def)
  have "(\<Sum>m\<in>{i * 32 ..< i * 32 + 32}. ?f m) = (\<Sum>j<32. if P i j then 1 else 0)" for i
    using sum.shift_bounds_nat_ivl [of ?f 0 "i * 32" 32]
    by (simp add: atLeast0LessThan add.commute)
  then show ?thesis
    unfolding ones using sum.nat_group [of ?f 32 "Kit_TruthWordNum n"]
    by (simp add: tt_size_def mult.commute)
qed

definition count_minterms :: "nat \<Rightarrow> (nat \<Rightarrow> bool) \<Rightarrow> nat" where
  "count_minterms n P = card {m. m < tt_size n \<and> P m}"

lemma count_minterms_cong:
  "(\<And>m. m < tt_size n \<Longrightarrow> P m = Q m) \<Longrightarrow> count_minterms n P = count_minterms n Q"
  unfolding count_minterms_def by (metis (mono_tags, lifting))

lemma sum_words_count:
  assumes "\<And>i j. i < Kit_TruthWordNum n \<Longrightarrow> j < 32 \<Longrightarrow> bit (f i :: u32) j \<longleftrightarrow> P i j"
  shows "(\<Sum>i<Kit_TruthWordNum n. Kit_WordCountOnes (f i)) = count_minterms n (\<lambda>m. P (m div 32) (m mod 32))"
proof -
  have "(\<Sum>i<Kit_TruthWordNum n. Kit_WordCountOnes (f i)) = (\<Sum>i<Kit_TruthWordNum n. card {j. j < 32 \<and> P i j})"
    unfolding Kit_WordCountOnes_eq
    by (intro sum.cong refl arg_cong [of _ _ card]) (use assms in auto)
  then show ?thesis by (simp add: card_words count_minterms_def)
qed

lemma Kit_TruthCountOnes_eq: "Kit_TruthCountOnes p n = count_minterms n (tt_bit p)"
proof -
  have "Kit_TruthCountOnes p n = (\<Sum>i<Kit_TruthWordNum n. Kit_WordCountOnes (p ! i))"
    by (simp add: Kit_TruthCountOnes_def fold_add_sum_list rev_map [symmetric]
        interv_sum_list_conv_sum_set_nat atLeast0LessThan)
  then show ?thesis by (simp add: sum_words_count [of n "\<lambda>i. p ! i" "\<lambda>i j. bit (p ! i) j"] tt_bit_def [abs_def])
qed

lemma Kit_TruthXorCount_eq:
  "Kit_TruthXorCount p q n = count_minterms n (\<lambda>m. tt_bit p m \<noteq> tt_bit q m)"
  unfolding Kit_TruthXorCount_def sum_words_eq tt_bit_def
  by (rule sum_words_count [where P = "\<lambda>i j. bit (p ! i) j \<noteq> bit (q ! i) j"]) (simp add: bit_xor_iff)

text \<open>A sum over the words whose number has bit \<open>b\<close> clear.\<close>

lemma sum_half_words:
  fixes f :: "nat \<Rightarrow> u32"
  shows "(\<Sum>i | i < Kit_TruthWordNum n \<and> \<not> bit i b. Kit_WordCountOnes (f i)) =
    (\<Sum>i<Kit_TruthWordNum n. Kit_WordCountOnes (if bit i b then 0 else f i))"
proof -
  have z: "Kit_WordCountOnes 0 = 0" by (simp add: Kit_WordCountOnes_eq)
  have "(\<Sum>i<Kit_TruthWordNum n. Kit_WordCountOnes (if bit i b then 0 else f i)) =
      (\<Sum>i | i < Kit_TruthWordNum n \<and> \<not> bit i b. Kit_WordCountOnes (if bit i b then 0 else f i))"
    by (rule sum.mono_neutral_right) (auto simp: z)
  then show ?thesis by simp
qed

lemma sum_words_low:
  assumes "v < 5" and "\<And>j. j < 32 \<Longrightarrow> bit (lo :: u32) j \<longleftrightarrow> \<not> bit j v"
  shows "(\<Sum>i<Kit_TruthWordNum n. Kit_WordCountOnes (p ! i AND lo)) =
      count_minterms n (\<lambda>m. \<not> bit m v \<and> tt_bit p m)"
    and "(\<Sum>i<Kit_TruthWordNum n. Kit_WordCountOnes ((p ! i XOR drop_bit (2 ^ v) (p ! i)) AND lo)) =
      count_minterms n (\<lambda>m. \<not> bit m v \<and> tt_bit p m \<noteq> tt_bit p (set_bit v m))"
proof -
  have "(\<Sum>i<Kit_TruthWordNum n. Kit_WordCountOnes (p ! i AND lo)) =
      count_minterms n (\<lambda>m. \<not> bit (m mod 32) v \<and> bit (p ! (m div 32)) (m mod 32))"
    by (rule sum_words_count [where P = "\<lambda>i j. \<not> bit j v \<and> bit (p ! i) j"])
      (use assms in \<open>auto simp: bit_and_iff\<close>)
  then show "(\<Sum>i<Kit_TruthWordNum n. Kit_WordCountOnes (p ! i AND lo)) =
      count_minterms n (\<lambda>m. \<not> bit m v \<and> tt_bit p m)"
    using assms(1) by (simp add: bit_mod_32 tt_bit_def)
  have "(\<Sum>i<Kit_TruthWordNum n. Kit_WordCountOnes ((p ! i XOR drop_bit (2 ^ v) (p ! i)) AND lo)) =
      count_minterms n (\<lambda>m. \<not> bit (m mod 32) v \<and>
        bit (p ! (m div 32)) (m mod 32) \<noteq> bit (p ! (m div 32)) (set_bit v (m mod 32)))"
    by (rule sum_words_count [where P = "\<lambda>i j. \<not> bit j v \<and> bit (p ! i) j \<noteq> bit (p ! i) (set_bit v j)"])
      (use assms word_shift_set in \<open>auto simp: bit_and_iff bit_xor_iff\<close>)
  then show "(\<Sum>i<Kit_TruthWordNum n. Kit_WordCountOnes ((p ! i XOR drop_bit (2 ^ v) (p ! i)) AND lo)) =
      count_minterms n (\<lambda>m. \<not> bit m v \<and> tt_bit p m \<noteq> tt_bit p (set_bit v m))"
    using assms(1) by (simp add: bit_mod_32 tt_bit_def set_bit_index_lo)
qed

lemma Kit_TruthCofactor0Count_eq:
  assumes "iVar < n"
  shows "Kit_TruthCofactor0Count p n iVar = count_minterms n (\<lambda>m. \<not> bit m iVar \<and> tt_bit p m)"
proof (cases iVar rule: switch_cases)
  case (default b)
  have "Kit_TruthCofactor0Count p n iVar =
      (\<Sum>i<Kit_TruthWordNum n. Kit_WordCountOnes (if bit i b then 0 else p ! i))"
    using assms default by (simp add: Kit_TruthCofactor0Count_def sum_pairs_default sum_half_words)
  also have "\<dots> = count_minterms n (\<lambda>m. \<not> bit (m div 32) b \<and> bit (p ! (m div 32)) (m mod 32))"
    by (rule sum_words_count [where P = "\<lambda>i j. \<not> bit i b \<and> bit (p ! i) j"]) simp
  finally show ?thesis by (simp add: default bit_div_32 tt_bit_def)
next
  case V0
  then show ?thesis using sum_words_low(1) [of 0, OF _ mask_0_lo, of p n]
    by (simp only: Kit_TruthCofactor0Count_def sum_words_eq word_bits)
next
  case V1
  then show ?thesis using sum_words_low(1) [of 1, OF _ mask_1_lo, of p n]
    by (simp only: Kit_TruthCofactor0Count_def sum_words_eq word_bits)
next
  case V2
  then show ?thesis using sum_words_low(1) [of 2, OF _ mask_2_lo, of p n]
    by (simp only: Kit_TruthCofactor0Count_def sum_words_eq word_bits)
next
  case V3
  then show ?thesis using sum_words_low(1) [of 3, OF _ mask_3_lo, of p n]
    by (simp only: Kit_TruthCofactor0Count_def sum_words_eq word_bits)
next
  case V4
  then show ?thesis using sum_words_low(1) [of 4, OF _ mask_4_lo, of p n]
    by (simp only: Kit_TruthCofactor0Count_def sum_words_eq word_bits)
qed

lemma Kit_TruthBooleanDiffCount_eq:
  assumes "iVar < n"
  shows "Kit_TruthBooleanDiffCount p n iVar =
    count_minterms n (\<lambda>m. \<not> bit m iVar \<and> tt_bit p m \<noteq> tt_bit p (set_bit iVar m))"
proof (cases iVar rule: switch_cases)
  case (default b)
  have "Kit_TruthBooleanDiffCount p n iVar =
      (\<Sum>i<Kit_TruthWordNum n. Kit_WordCountOnes (if bit i b then 0 else p ! i XOR p ! set_bit b i))"
    using assms default by (simp add: Kit_TruthBooleanDiffCount_def sum_pairs_default sum_half_words)
  also have "\<dots> = count_minterms n (\<lambda>m. \<not> bit (m div 32) b \<and>
      bit (p ! (m div 32)) (m mod 32) \<noteq> bit (p ! set_bit b (m div 32)) (m mod 32))"
    by (rule sum_words_count [where P = "\<lambda>i j. \<not> bit i b \<and> bit (p ! i) j \<noteq> bit (p ! set_bit b i) j"])
      (simp add: bit_xor_iff)
  finally show ?thesis by (simp add: default bit_div_32 tt_bit_def set_bit_index_hi)
next
  case V0
  then show ?thesis using sum_words_low(2) [of 0, OF _ mask_0_lo, of p n]
    by (simp only: Kit_TruthBooleanDiffCount_def sum_words_eq word_bits)
next
  case V1
  then show ?thesis using sum_words_low(2) [of 1, OF _ mask_1_lo, of p n]
    by (simp only: Kit_TruthBooleanDiffCount_def sum_words_eq word_bits)
next
  case V2
  then show ?thesis using sum_words_low(2) [of 2, OF _ mask_2_lo, of p n]
    by (simp only: Kit_TruthBooleanDiffCount_def sum_words_eq word_bits)
next
  case V3
  then show ?thesis using sum_words_low(2) [of 3, OF _ mask_3_lo, of p n]
    by (simp only: Kit_TruthBooleanDiffCount_def sum_words_eq word_bits)
next
  case V4
  then show ?thesis using sum_words_low(2) [of 4, OF _ mask_4_lo, of p n]
    by (simp only: Kit_TruthBooleanDiffCount_def sum_words_eq word_bits)
qed

subsection \<open>The counts of all cofactors\<close>

text \<open>The number of minterms of the cofactor of \<open>v\<close> in phase \<open>c\<close>.\<close>

definition cof_count :: "u32 list \<Rightarrow> nat \<Rightarrow> nat \<Rightarrow> bool \<Rightarrow> nat" where
  "cof_count p n v c = count_minterms n (\<lambda>m. bit m v = c \<and> tt_bit p m)"

lemma length_inc [simp]: "length (inc i x t) = length t"
  by (simp add: inc_def)

lemma nth_inc: "q < length t \<Longrightarrow> inc i x t ! q = t ! q + (if q = i then x else 0)"
  by (cases "i < length t") (auto simp: inc_def nth_list_update)

lemma fold_accumulate:
  assumes "\<And>k t. length (f k t) = length t"
    and "\<And>k t q. q < length t \<Longrightarrow> f k t ! q = t ! q + (g k q :: nat)"
  shows "length (fold f [0 ..< n] t) = length t \<and>
    (q < length t \<longrightarrow> fold f [0 ..< n] t ! q = t ! q + (\<Sum>k<n. g k q))"
  by (induction n) (auto simp: assms)

lemma clear_store:
  "length (fold (\<lambda>i t. t[i := 0]) [0 ..< n] t) = length t \<and>
   (q < length t \<longrightarrow> fold (\<lambda>i t. t[i := 0]) [0 ..< n] t ! q = (if q < n then 0 else (t ! q :: nat)))"
  by (induction n) (auto simp: nth_list_update less_Suc_eq)

lemma nth_two_updates:
  "i < length t \<Longrightarrow> j < length t \<Longrightarrow> q < length t \<Longrightarrow>
    t[i := x, j := y] ! q = (if q = j then y else if q = i then x else t ! q)"
  by (auto simp: nth_list_update)

text \<open>The inner loop over the variables from 5 on.\<close>

lemma nat_and_push_iff: "((k :: nat) AND push_bit b 1 \<noteq> 0) \<longleftrightarrow> bit k b"
  using nat_and_pow_iff [of k b] by simp

lemma high_vars_loop:
  "length (fold (\<lambda>i t. if (k :: nat) AND push_bit (i - 5) 1 \<noteq> 0 then inc (2*i+1) C t else inc (2*i+0) C t) [5 ..< n] t) =
     length t \<and>
   (q < length t \<longrightarrow>
    fold (\<lambda>i t. if k AND push_bit (i - 5) 1 \<noteq> 0 then inc (2*i+1) C t else inc (2*i+0) C t) [5 ..< n] t ! q =
      t ! q + (if 10 \<le> q \<and> q < 2 * n \<and> bit k (q div 2 - 5) = odd q then C else 0))"
proof (induction n)
  case (Suc n)
  show ?case
  proof (cases "5 \<le> n")
    case True
    then have "[5 ..< Suc n] = [5 ..< n] @ [n]" by simp
    moreover have "q = 2 * n \<or> q = 2 * n + 1 \<or> q < 2 * n \<or> 2 * Suc n \<le> q" by arith
    ultimately show ?thesis
      using Suc True unfolding nat_and_push_iff
      by (elim disjE) (auto simp: nth_inc)
  qed (use Suc in simp)
qed simp

lemma high_vars_loop0:
  "length (fold (\<lambda>i t. if (k :: nat) AND push_bit (i - 5) 1 = 0 then inc i C t else t) [5 ..< n] t) = length t \<and>
   (q < length t \<longrightarrow>
    fold (\<lambda>i t. if k AND push_bit (i - 5) 1 = 0 then inc i C t else t) [5 ..< n] t ! q =
      t ! q + (if 5 \<le> q \<and> q < n \<and> \<not> bit k (q - 5) then C else 0))"
proof (induction n)
  case (Suc n)
  have neg: "k AND push_bit b 1 = 0 \<longleftrightarrow> \<not> bit k b" for b
    using nat_and_push_iff [of k b] by blast
  show ?case
  proof (cases "5 \<le> n")
    case True
    then have "[5 ..< Suc n] = [5 ..< n] @ [n]" by simp
    then show ?thesis
      using Suc True unfolding neg by (auto simp: nth_inc less_Suc_eq)
  qed (use Suc in simp)
qed simp

lemma sum_high:
  "(\<Sum>k<Kit_TruthWordNum n. if bit k b = c then Kit_WordCountOnes (p ! k) else 0) = cof_count p n (b + 5) c"
proof -
  have z: "Kit_WordCountOnes 0 = 0" by (simp add: Kit_WordCountOnes_eq)
  have "(\<Sum>k<Kit_TruthWordNum n. if bit k b = c then Kit_WordCountOnes (p ! k) else 0) =
      (\<Sum>k<Kit_TruthWordNum n. Kit_WordCountOnes (if bit k b = c then p ! k else 0))"
    by (rule sum.cong) (auto simp: z)
  also have "\<dots> = count_minterms n (\<lambda>m. bit (m div 32) b = c \<and> bit (p ! (m div 32)) (m mod 32))"
    by (rule sum_words_count [where P = "\<lambda>i j. bit i b = c \<and> bit (p ! i) j"]) simp
  finally show ?thesis by (simp add: cof_count_def bit_div_32 tt_bit_def)
qed

text \<open>Two words packed into one: the clear half of \<open>x\<close> and of \<open>y\<close>, or the set halves.\<close>

lemma card_shift_half:
  fixes Q :: "nat \<Rightarrow> bool"
  assumes "v < 5"
  shows "card {j. j < 32 \<and> bit j v = c \<and> Q (if c then unset_bit v j else set_bit v j)} =
    card {j. j < 32 \<and> bit j v = (\<not> c) \<and> Q j}"
proof -
  have lt: "set_bit v j < 32" if "j < 32" for j :: nat
    using set_bit_less_pow [of v 5 j] assms that by simp
  have lt': "unset_bit v j < 32" if "j < 32" for j :: nat using unset_bit_less [of v j] that by simp
  show ?thesis
    by (rule bij_betw_same_card [where f = "\<lambda>j. if c then unset_bit v j else set_bit v j"],
        rule bij_betw_byWitness [where f' = "\<lambda>j. if c then set_bit v j else unset_bit v j"])
      (auto simp: lt lt' bit_set_bit_iff bit_unset_bit_iff)
qed

lemma count_packed:
  assumes "v < 5" "\<And>j. j < 32 \<Longrightarrow> bit w j \<longleftrightarrow>
    bit j v = c \<and> bit x j \<or> bit j v = (\<not> c) \<and> bit y (if c then set_bit v j else unset_bit v j)"
  shows "Kit_WordCountOnes w =
    card {j. j < 32 \<and> bit j v = c \<and> bit x j} + card {j. j < 32 \<and> bit j v = c \<and> bit y j}"
proof -
  let ?A = "{j. j < 32 \<and> bit j v = c \<and> bit x j}"
  let ?B = "{j. j < 32 \<and> bit j v = (\<not> c) \<and> bit y (if \<not> c then unset_bit v j else set_bit v j)}"
  have "{j. j < 32 \<and> bit w j} = ?A \<union> ?B" using assms(2) by auto
  moreover have "card (?A \<union> ?B) = card ?A + card ?B" by (rule card_Un_disjoint) auto
  ultimately show ?thesis
    using card_shift_half [OF assms(1), of "\<not> c" "bit y"] by (simp only: Kit_WordCountOnes_eq not_not)
qed

lemma sum_packed:
  assumes "5 < n" "v < 5"
    and "\<And>x y. f x y = card {j. j < 32 \<and> bit j v = c \<and> bit x j} + card {j. j < 32 \<and> bit j v = c \<and> bit y j}"
  shows "(\<Sum>k<Kit_TruthWordNum n div 2. f (p ! (2 * k)) (p ! (2 * k + 1))) = cof_count p n v c"
proof -
  have N: "2 * (Kit_TruthWordNum n div 2) = Kit_TruthWordNum n"
    using assms(1) by (cases "n - 5") (auto simp: Kit_TruthWordNum_def)
  have "(\<Sum>k<h. g (2 * k) + g (2 * k + 1)) = (\<Sum>k<2 * h. g k)" for g :: "nat \<Rightarrow> nat" and h
    by (induction h) auto
  from this [of "\<lambda>k. card {j. j < 32 \<and> bit j v = c \<and> bit (p ! k) j}" "Kit_TruthWordNum n div 2"]
  have "(\<Sum>k<Kit_TruthWordNum n div 2. f (p ! (2 * k)) (p ! (2 * k + 1))) =
      (\<Sum>k<Kit_TruthWordNum n. card {j. j < 32 \<and> bit j v = c \<and> bit (p ! k) j})"
    unfolding assms(3) N .
  also have "\<dots> = card {m. m < tt_size n \<and> bit (m mod 32) v = c \<and> bit (p ! (m div 32)) (m mod 32)}"
    by (rule card_words [where P = "\<lambda>i j. bit j v = c \<and> bit (p ! i) j"])
  finally show ?thesis
    using assms(2) by (simp add: cof_count_def count_minterms_def bit_mod_32 tt_bit_def)
qed

lemma count_one_word:
  assumes "n \<le> 5" "v < 5" "\<And>j. j < 32 \<Longrightarrow> bit w j \<longleftrightarrow> bit j v = c \<and> bit (p ! 0) j"
  shows "Kit_WordCountOnes w = cof_count p n v c"
proof -
  have size: "tt_size n = 32" using assms(1) by (simp add: tt_size_def Kit_TruthWordNum_def)
  have "{j. j < 32 \<and> bit w j} = {m. m < tt_size n \<and> bit m v = c \<and> tt_bit p m}"
    unfolding size using assms(3) by (auto simp: tt_bit_def)
  then show ?thesis by (simp add: Kit_WordCountOnes_eq cof_count_def count_minterms_def)
qed

lemma packed_0:
  "Kit_WordCountOnes ((x AND 0x55555555) OR push_bit 1 (y AND 0x55555555)) =
    card {j. j < 32 \<and> bit j 0 = False \<and> bit x j} + card {j. j < 32 \<and> bit j 0 = False \<and> bit y j}"
  "Kit_WordCountOnes ((x AND 0xAAAAAAAA) OR drop_bit 1 (y AND 0xAAAAAAAA)) =
    card {j. j < 32 \<and> bit j 0 = True \<and> bit x j} + card {j. j < 32 \<and> bit j 0 = True \<and> bit y j}"
  by (rule count_packed; simp only: word_bits; blast)+

lemma single_0:
  assumes "n \<le> 5"
  shows "Kit_WordCountOnes (p ! 0 AND 0x55555555) = cof_count p n 0 False"
    and "Kit_WordCountOnes (p ! 0 AND 0xAAAAAAAA) = cof_count p n 0 True"
  by (rule count_one_word [OF assms]; simp only: word_bits; blast)+

lemma packed_1:
  "Kit_WordCountOnes ((x AND 0x33333333) OR push_bit 2 (y AND 0x33333333)) =
    card {j. j < 32 \<and> bit j 1 = False \<and> bit x j} + card {j. j < 32 \<and> bit j 1 = False \<and> bit y j}"
  "Kit_WordCountOnes ((x AND 0xCCCCCCCC) OR drop_bit 2 (y AND 0xCCCCCCCC)) =
    card {j. j < 32 \<and> bit j 1 = True \<and> bit x j} + card {j. j < 32 \<and> bit j 1 = True \<and> bit y j}"
  by (rule count_packed; simp only: word_bits; blast)+

lemma single_1:
  assumes "n \<le> 5"
  shows "Kit_WordCountOnes (p ! 0 AND 0x33333333) = cof_count p n 1 False"
    and "Kit_WordCountOnes (p ! 0 AND 0xCCCCCCCC) = cof_count p n 1 True"
  by (rule count_one_word [OF assms]; simp only: word_bits; blast)+

lemma packed_2:
  "Kit_WordCountOnes ((x AND 0x0F0F0F0F) OR push_bit 4 (y AND 0x0F0F0F0F)) =
    card {j. j < 32 \<and> bit j 2 = False \<and> bit x j} + card {j. j < 32 \<and> bit j 2 = False \<and> bit y j}"
  "Kit_WordCountOnes ((x AND 0xF0F0F0F0) OR drop_bit 4 (y AND 0xF0F0F0F0)) =
    card {j. j < 32 \<and> bit j 2 = True \<and> bit x j} + card {j. j < 32 \<and> bit j 2 = True \<and> bit y j}"
  by (rule count_packed; simp only: word_bits; blast)+

lemma single_2:
  assumes "n \<le> 5"
  shows "Kit_WordCountOnes (p ! 0 AND 0x0F0F0F0F) = cof_count p n 2 False"
    and "Kit_WordCountOnes (p ! 0 AND 0xF0F0F0F0) = cof_count p n 2 True"
  by (rule count_one_word [OF assms]; simp only: word_bits; blast)+

lemma packed_3:
  "Kit_WordCountOnes ((x AND 0x00FF00FF) OR push_bit 8 (y AND 0x00FF00FF)) =
    card {j. j < 32 \<and> bit j 3 = False \<and> bit x j} + card {j. j < 32 \<and> bit j 3 = False \<and> bit y j}"
  "Kit_WordCountOnes ((x AND 0xFF00FF00) OR drop_bit 8 (y AND 0xFF00FF00)) =
    card {j. j < 32 \<and> bit j 3 = True \<and> bit x j} + card {j. j < 32 \<and> bit j 3 = True \<and> bit y j}"
  by (rule count_packed; simp only: word_bits; blast)+

lemma single_3:
  assumes "n \<le> 5"
  shows "Kit_WordCountOnes (p ! 0 AND 0x00FF00FF) = cof_count p n 3 False"
    and "Kit_WordCountOnes (p ! 0 AND 0xFF00FF00) = cof_count p n 3 True"
  by (rule count_one_word [OF assms]; simp only: word_bits; blast)+

lemma packed_4:
  "Kit_WordCountOnes ((x AND 0x0000FFFF) OR push_bit 16 (y AND 0x0000FFFF)) =
    card {j. j < 32 \<and> bit j 4 = False \<and> bit x j} + card {j. j < 32 \<and> bit j 4 = False \<and> bit y j}"
  "Kit_WordCountOnes ((x AND 0xFFFF0000) OR drop_bit 16 (y AND 0xFFFF0000)) =
    card {j. j < 32 \<and> bit j 4 = True \<and> bit x j} + card {j. j < 32 \<and> bit j 4 = True \<and> bit y j}"
  by (rule count_packed; simp only: word_bits; blast)+

lemma single_4:
  assumes "n \<le> 5"
  shows "Kit_WordCountOnes (p ! 0 AND 0x0000FFFF) = cof_count p n 4 False"
    and "Kit_WordCountOnes (p ! 0 AND 0xFFFF0000) = cof_count p n 4 True"
  by (rule count_one_word [OF assms]; simp only: word_bits; blast)+

text \<open>What one iteration over a pair of words adds to the store.\<close>

definition pair_counts :: "u32 \<Rightarrow> u32 \<Rightarrow> nat list" where
  "pair_counts x y = [Kit_WordCountOnes ((x AND 0x55555555) OR push_bit 1 (y AND 0x55555555)),
     Kit_WordCountOnes ((x AND 0xAAAAAAAA) OR drop_bit 1 (y AND 0xAAAAAAAA)),
     Kit_WordCountOnes ((x AND 0x33333333) OR push_bit 2 (y AND 0x33333333)),
     Kit_WordCountOnes ((x AND 0xCCCCCCCC) OR drop_bit 2 (y AND 0xCCCCCCCC)),
     Kit_WordCountOnes ((x AND 0x0F0F0F0F) OR push_bit 4 (y AND 0x0F0F0F0F)),
     Kit_WordCountOnes ((x AND 0xF0F0F0F0) OR drop_bit 4 (y AND 0xF0F0F0F0)),
     Kit_WordCountOnes ((x AND 0x00FF00FF) OR push_bit 8 (y AND 0x00FF00FF)),
     Kit_WordCountOnes ((x AND 0xFF00FF00) OR drop_bit 8 (y AND 0xFF00FF00)),
     Kit_WordCountOnes ((x AND 0x0000FFFF) OR push_bit 16 (y AND 0x0000FFFF)),
     Kit_WordCountOnes ((x AND 0xFFFF0000) OR drop_bit 16 (y AND 0xFFFF0000))]"

definition pair_counts0 :: "u32 \<Rightarrow> u32 \<Rightarrow> nat list" where
  "pair_counts0 x y = [Kit_WordCountOnes ((x AND 0x55555555) OR push_bit 1 (y AND 0x55555555)),
     Kit_WordCountOnes ((x AND 0x33333333) OR push_bit 2 (y AND 0x33333333)),
     Kit_WordCountOnes ((x AND 0x0F0F0F0F) OR push_bit 4 (y AND 0x0F0F0F0F)),
     Kit_WordCountOnes ((x AND 0x00FF00FF) OR push_bit 8 (y AND 0x00FF00FF)),
     Kit_WordCountOnes ((x AND 0x0000FFFF) OR push_bit 16 (y AND 0x0000FFFF))]"

lemma pair_counts_nth:
  "v < 5 \<Longrightarrow> pair_counts x y ! (2 * v + (if c then 1 else 0)) =
    card {j. j < 32 \<and> bit j v = c \<and> bit x j} + card {j. j < 32 \<and> bit j v = c \<and> bit y j}"
  "v < 5 \<Longrightarrow> pair_counts0 x y ! v =
    card {j. j < 32 \<and> bit j v = False \<and> bit x j} + card {j. j < 32 \<and> bit j v = False \<and> bit y j}"
proof -
  assume "v < 5"
  then have v: "v = 0 \<or> v = 1 \<or> v = 2 \<or> v = 3 \<or> v = 4" by auto
  show "pair_counts x y ! (2 * v + (if c then 1 else 0)) =
    card {j. j < 32 \<and> bit j v = c \<and> bit x j} + card {j. j < 32 \<and> bit j v = c \<and> bit y j}"
    unfolding pair_counts_def packed_0 packed_1 packed_2 packed_3 packed_4
    using v by (cases c; elim disjE; hypsubst; simp)
  show "pair_counts0 x y ! v =
    card {j. j < 32 \<and> bit j v = False \<and> bit x j} + card {j. j < 32 \<and> bit j v = False \<and> bit y j}"
    unfolding pair_counts0_def packed_0 packed_1 packed_2 packed_3 packed_4
    using v by (elim disjE; hypsubst; simp)
qed


lemma pair_body:
  fixes p :: "u32 list"
  defines "body \<equiv> \<lambda>k t. let x = p ! (2*k); y = p ! (2*k+1);
       t = inc (2*0+0) (Kit_WordCountOnes ((x AND 0x55555555) OR push_bit 1 (y AND 0x55555555))) t;
       t = inc (2*0+1) (Kit_WordCountOnes ((x AND 0xAAAAAAAA) OR drop_bit 1 (y AND 0xAAAAAAAA))) t;
       t = inc (2*1+0) (Kit_WordCountOnes ((x AND 0x33333333) OR push_bit 2 (y AND 0x33333333))) t;
       t = inc (2*1+1) (Kit_WordCountOnes ((x AND 0xCCCCCCCC) OR drop_bit 2 (y AND 0xCCCCCCCC))) t;
       t = inc (2*2+0) (Kit_WordCountOnes ((x AND 0x0F0F0F0F) OR push_bit 4 (y AND 0x0F0F0F0F))) t;
       t = inc (2*2+1) (Kit_WordCountOnes ((x AND 0xF0F0F0F0) OR drop_bit 4 (y AND 0xF0F0F0F0))) t;
       t = inc (2*3+0) (Kit_WordCountOnes ((x AND 0x00FF00FF) OR push_bit 8 (y AND 0x00FF00FF))) t;
       t = inc (2*3+1) (Kit_WordCountOnes ((x AND 0xFF00FF00) OR drop_bit 8 (y AND 0xFF00FF00))) t;
       t = inc (2*4+0) (Kit_WordCountOnes ((x AND 0x0000FFFF) OR push_bit 16 (y AND 0x0000FFFF))) t;
       t = inc (2*4+1) (Kit_WordCountOnes ((x AND 0xFFFF0000) OR drop_bit 16 (y AND 0xFFFF0000))) t
     in t"
  shows "length (body k t) = length t"
    and "q < length t \<Longrightarrow> body k t ! q =
      t ! q + (if q < 10 then pair_counts (p ! (2*k)) (p ! (2*k+1)) ! q else 0)"
proof -
  show "length (body k t) = length t" by (simp add: body_def Let_def)
  have "q = 0 \<or> q = 1 \<or> q = 2 \<or> q = 3 \<or> q = 4 \<or> q = 5 \<or> q = 6 \<or> q = 7 \<or> q = 8 \<or> q = 9 \<or> 10 \<le> q" by arith
  then show "body k t ! q = t ! q + (if q < 10 then pair_counts (p ! (2*k)) (p ! (2*k+1)) ! q else 0)"
    if "q < length t"
    unfolding body_def Let_def pair_counts_def using that
    by (elim disjE) (simp_all add: nth_inc)
qed

lemma pair_body0:
  fixes p :: "u32 list"
  defines "body \<equiv> \<lambda>k t. let x = p ! (2*k); y = p ! (2*k+1);
       t = inc 0 (Kit_WordCountOnes ((x AND 0x55555555) OR push_bit 1 (y AND 0x55555555))) t;
       t = inc 1 (Kit_WordCountOnes ((x AND 0x33333333) OR push_bit 2 (y AND 0x33333333))) t;
       t = inc 2 (Kit_WordCountOnes ((x AND 0x0F0F0F0F) OR push_bit 4 (y AND 0x0F0F0F0F))) t;
       t = inc 3 (Kit_WordCountOnes ((x AND 0x00FF00FF) OR push_bit 8 (y AND 0x00FF00FF))) t;
       t = inc 4 (Kit_WordCountOnes ((x AND 0x0000FFFF) OR push_bit 16 (y AND 0x0000FFFF))) t
     in t"
  shows "length (body k t) = length t"
    and "q < length t \<Longrightarrow> body k t ! q =
      t ! q + (if q < 5 then pair_counts0 (p ! (2*k)) (p ! (2*k+1)) ! q else 0)"
proof -
  show "length (body k t) = length t" by (simp add: body_def Let_def)
  have "q = 0 \<or> q = 1 \<or> q = 2 \<or> q = 3 \<or> q = 4 \<or> 5 \<le> q" by arith
  then show "body k t ! q = t ! q + (if q < 5 then pair_counts0 (p ! (2*k)) (p ! (2*k+1)) ! q else 0)"
    if "q < length t"
    unfolding body_def Let_def pair_counts0_def using that
    by (elim disjE) (simp_all add: nth_inc)
qed

definition upd1 :: "bool \<Rightarrow> nat \<Rightarrow> 'a \<Rightarrow> 'a list \<Rightarrow> 'a list" where
  "upd1 b i x t = (if b then t[i := x] else t)"

definition upd2 :: "bool \<Rightarrow> nat \<Rightarrow> 'a \<Rightarrow> nat \<Rightarrow> 'a \<Rightarrow> 'a list \<Rightarrow> 'a list" where
  "upd2 b i x j y t = (if b then t[i := x, j := y] else t)"

lemma upd_let:
  "Let (if b then t[i := x, j := y] else t) f = f (upd2 b i x j y t)"
  "Let (if b then t[i := x] else t) f = f (upd1 b i x t)"
  by (simp_all add: upd1_def upd2_def)

lemma nth_upd:
  "q < length t \<Longrightarrow> upd2 b i x j y t ! q = (if q = j \<and> b then y else if q = i \<and> b then x else t ! q)"
  "length (upd2 b i x j y t) = length t"
  "q < length t \<Longrightarrow> upd1 b i x t ! q = (if q = i \<and> b then x else t ! q)"
  "length (upd1 b i x t) = length t"
  by (auto simp: upd1_def upd2_def nth_list_update)

lemma Kit_TruthCountOnesInCofs_small:
  assumes "2 * n \<le> length s" "n \<le> 5" "v < n"
  shows "Kit_TruthCountOnesInCofs p n s ! (2 * v + (if c then 1 else 0)) = cof_count p n v c"
proof -
  define t where "t = fold (\<lambda>i t. t[i := 0]) [0 ..< 2 * n] s"
  have len: "length t = length s" using clear_store unfolding t_def by blast
  have v: "v = 0 \<or> v = 1 \<or> v = 2 \<or> v = 3 \<or> v = 4" using assms(2,3) by auto
  have q: "2 * v + (if c then 1 else 0) < length t" using len assms(1,3) by auto
  note single = single_0 [OF assms(2)] single_1 [OF assms(2)] single_2 [OF assms(2)]
    single_3 [OF assms(2)] single_4 [OF assms(2)]
  have run: "Kit_TruthCountOnesInCofs p n s =
    upd2 (4 < n) (2*4+0) (cof_count p n 4 False) (2*4+1) (cof_count p n 4 True)
    (upd2 (3 < n) (2*3+0) (cof_count p n 3 False) (2*3+1) (cof_count p n 3 True)
    (upd2 (2 < n) (2*2+0) (cof_count p n 2 False) (2*2+1) (cof_count p n 2 True)
    (upd2 (1 < n) (2*1+0) (cof_count p n 1 False) (2*1+1) (cof_count p n 1 True)
    (upd2 (0 < n) (2*0+0) (cof_count p n 0 False) (2*0+1) (cof_count p n 0 True) t))))"
    unfolding Kit_TruthCountOnesInCofs_def upd_let t_def single
    by (simp only: Let_def if_P [OF assms(2)])
  show ?thesis
    unfolding run using v q assms(3) by (elim disjE; hypsubst; cases c; simp add: nth_upd)
qed

lemma Kit_TruthCountOnesInCofs_large:
  assumes "2 * n \<le> length s" "5 < n" "v < n"
  shows "Kit_TruthCountOnesInCofs p n s ! (2 * v + (if c then 1 else 0)) = cof_count p n v c"
proof -
  let ?q = "2 * v + (if c then 1 else 0)" and ?N = "Kit_TruthWordNum n"
  define s0 where "s0 = fold (\<lambda>i t. t[i := 0]) [0 ..< 2 * n] s"
  define high where "high = (\<lambda>k t. fold (\<lambda>i t. if k AND push_bit (i - 5) 1 \<noteq> 0
    then inc (2*i+1) (Kit_WordCountOnes (p ! k)) t else inc (2*i+0) (Kit_WordCountOnes (p ! k)) t) [5 ..< n] t)"
  define low where "low = (\<lambda>k t. let x = p ! (2*k); y = p ! (2*k+1);
       t = inc (2*0+0) (Kit_WordCountOnes ((x AND 0x55555555) OR push_bit 1 (y AND 0x55555555))) t;
       t = inc (2*0+1) (Kit_WordCountOnes ((x AND 0xAAAAAAAA) OR drop_bit 1 (y AND 0xAAAAAAAA))) t;
       t = inc (2*1+0) (Kit_WordCountOnes ((x AND 0x33333333) OR push_bit 2 (y AND 0x33333333))) t;
       t = inc (2*1+1) (Kit_WordCountOnes ((x AND 0xCCCCCCCC) OR drop_bit 2 (y AND 0xCCCCCCCC))) t;
       t = inc (2*2+0) (Kit_WordCountOnes ((x AND 0x0F0F0F0F) OR push_bit 4 (y AND 0x0F0F0F0F))) t;
       t = inc (2*2+1) (Kit_WordCountOnes ((x AND 0xF0F0F0F0) OR drop_bit 4 (y AND 0xF0F0F0F0))) t;
       t = inc (2*3+0) (Kit_WordCountOnes ((x AND 0x00FF00FF) OR push_bit 8 (y AND 0x00FF00FF))) t;
       t = inc (2*3+1) (Kit_WordCountOnes ((x AND 0xFF00FF00) OR drop_bit 8 (y AND 0xFF00FF00))) t;
       t = inc (2*4+0) (Kit_WordCountOnes ((x AND 0x0000FFFF) OR push_bit 16 (y AND 0x0000FFFF))) t;
       t = inc (2*4+1) (Kit_WordCountOnes ((x AND 0xFFFF0000) OR drop_bit 16 (y AND 0xFFFF0000))) t
     in t)"
  have run: "Kit_TruthCountOnesInCofs p n s = fold low [0 ..< ?N div 2] (fold high [0 ..< ?N] s0)"
    using assms(2) unfolding Kit_TruthCountOnesInCofs_def low_def high_def s0_def Let_def by simp
  have s0: "length s0 = length s" "s0 ! ?q = 0"
    using clear_store [of "2 * n" s ?q] assms(1,3) by (auto simp: s0_def split: if_splits)
  have q: "?q < length s" using assms(1,3) by auto
  have l1: "length (fold high [0 ..< ?N] s0) = length s0 \<and>
    (?q < length s0 \<longrightarrow> fold high [0 ..< ?N] s0 ! ?q = s0 ! ?q + (\<Sum>k<?N. if 10 \<le> ?q \<and> ?q < 2 * n \<and>
      bit k (?q div 2 - 5) = odd ?q then Kit_WordCountOnes (p ! k) else 0))"
    by (rule fold_accumulate [where g = "\<lambda>k q. if 10 \<le> q \<and> q < 2 * n \<and>
      bit k (q div 2 - 5) = odd q then Kit_WordCountOnes (p ! k) else 0"])
      (use high_vars_loop in \<open>auto simp only: high_def\<close>)
  have l2: "length (fold low [0 ..< ?N div 2] t) = length t \<and>
    (?q < length t \<longrightarrow> fold low [0 ..< ?N div 2] t ! ?q = t ! ?q + (\<Sum>k<?N div 2. if ?q < 10
      then pair_counts (p ! (2*k)) (p ! (2*k+1)) ! ?q else 0))" for t
    by (rule fold_accumulate [where g = "\<lambda>k q. if q < 10
      then pair_counts (p ! (2*k)) (p ! (2*k+1)) ! q else 0"])
      (use pair_body in \<open>auto simp only: low_def\<close>)
  have total: "Kit_TruthCountOnesInCofs p n s ! ?q =
      (\<Sum>k<?N. if 10 \<le> ?q \<and> ?q < 2 * n \<and> bit k (?q div 2 - 5) = odd ?q then Kit_WordCountOnes (p ! k) else 0) +
      (\<Sum>k<?N div 2. if ?q < 10 then pair_counts (p ! (2*k)) (p ! (2*k+1)) ! ?q else 0)"
    using l1 l2 [of "fold high [0 ..< ?N] s0"] s0 q unfolding run by simp
  show ?thesis
  proof (cases "v < 5")
    case True
    then have "?q < 10" by simp
    then have "Kit_TruthCountOnesInCofs p n s ! ?q =
        (\<Sum>k<?N div 2. pair_counts (p ! (2*k)) (p ! (2*k+1)) ! ?q)"
      unfolding total by simp
    also have "\<dots> = cof_count p n v c"
      by (rule sum_packed [where f = "\<lambda>x y. pair_counts x y ! ?q", OF assms(2) True pair_counts_nth(1) [OF True]])
    finally show ?thesis .
  next
    case False
    then have "10 \<le> ?q" "\<not> ?q < 10" "?q < 2 * n" "?q div 2 - 5 = v - 5" "odd ?q = c"
      using assms(3) by auto
    then have "Kit_TruthCountOnesInCofs p n s ! ?q =
        (\<Sum>k<?N. if bit k (v - 5) = c then Kit_WordCountOnes (p ! k) else 0)"
      unfolding total by simp
    then show ?thesis using sum_high [of "v - 5" c p n] False by simp
  qed
qed

lemma Kit_TruthCountOnesInCofs_nth:
  assumes "2 * n \<le> length s" "v < n"
  shows "Kit_TruthCountOnesInCofs p n s ! (2 * v + (if c then 1 else 0)) = cof_count p n v c"
  using assms Kit_TruthCountOnesInCofs_small Kit_TruthCountOnesInCofs_large
  by (cases "n \<le> 5") auto

lemma Kit_TruthCountOnesInCofs0_nth:
  assumes "n \<le> length s" "v < n"
  shows "Kit_TruthCountOnesInCofs0 p n s ! v = cof_count p n v False"
proof (cases "n \<le> 5")
  case True
  define t where "t = fold (\<lambda>i t. t[i := 0]) [0 ..< n] s"
  have len: "length t = length s" using clear_store unfolding t_def by blast
  have ne: "s \<noteq> []" using assms by auto
  have v: "v = 0 \<or> v = 1 \<or> v = 2 \<or> v = 3 \<or> v = 4" using assms(2) True by auto
  note single = single_0 [OF True] single_1 [OF True] single_2 [OF True] single_3 [OF True] single_4 [OF True]
  have run: "Kit_TruthCountOnesInCofs0 p n s =
    upd1 (4 < n) 4 (cof_count p n 4 False) (upd1 (3 < n) 3 (cof_count p n 3 False)
    (upd1 (2 < n) 2 (cof_count p n 2 False) (upd1 (1 < n) 1 (cof_count p n 1 False)
    (upd1 (0 < n) 0 (cof_count p n 0 False) t))))"
    unfolding Kit_TruthCountOnesInCofs0_def upd_let t_def single
    by (simp only: Let_def if_P [OF True])
  show ?thesis
    unfolding run using v len assms ne by (elim disjE; hypsubst; simp add: nth_upd)
next
  case False
  let ?N = "Kit_TruthWordNum n"
  define s0 where "s0 = fold (\<lambda>i t. t[i := 0]) [0 ..< n] s"
  define high where "high = (\<lambda>k t. fold (\<lambda>i t. if k AND push_bit (i - 5) 1 = 0
    then inc i (Kit_WordCountOnes (p ! k)) t else t) [5 ..< n] t)"
  define low where "low = (\<lambda>k t. let x = p ! (2*k); y = p ! (2*k+1);
       t = inc 0 (Kit_WordCountOnes ((x AND 0x55555555) OR push_bit 1 (y AND 0x55555555))) t;
       t = inc 1 (Kit_WordCountOnes ((x AND 0x33333333) OR push_bit 2 (y AND 0x33333333))) t;
       t = inc 2 (Kit_WordCountOnes ((x AND 0x0F0F0F0F) OR push_bit 4 (y AND 0x0F0F0F0F))) t;
       t = inc 3 (Kit_WordCountOnes ((x AND 0x00FF00FF) OR push_bit 8 (y AND 0x00FF00FF))) t;
       t = inc 4 (Kit_WordCountOnes ((x AND 0x0000FFFF) OR push_bit 16 (y AND 0x0000FFFF))) t
     in t)"
  have run: "Kit_TruthCountOnesInCofs0 p n s = fold low [0 ..< ?N div 2] (fold high [0 ..< ?N] s0)"
    using False unfolding Kit_TruthCountOnesInCofs0_def low_def high_def s0_def Let_def by simp
  have s0: "length s0 = length s" "s0 ! v = 0"
    using clear_store [of n s v] assms by (auto simp: s0_def)
  have l1: "length (fold high [0 ..< ?N] s0) = length s0 \<and>
    (v < length s0 \<longrightarrow> fold high [0 ..< ?N] s0 ! v = s0 ! v + (\<Sum>k<?N. if 5 \<le> v \<and> v < n \<and>
      \<not> bit k (v - 5) then Kit_WordCountOnes (p ! k) else 0))"
    by (rule fold_accumulate [where g = "\<lambda>k q. if 5 \<le> q \<and> q < n \<and>
      \<not> bit k (q - 5) then Kit_WordCountOnes (p ! k) else 0"])
      (use high_vars_loop0 in \<open>auto simp only: high_def\<close>)
  have l2: "length (fold low [0 ..< ?N div 2] t) = length t \<and>
    (v < length t \<longrightarrow> fold low [0 ..< ?N div 2] t ! v = t ! v + (\<Sum>k<?N div 2. if v < 5
      then pair_counts0 (p ! (2*k)) (p ! (2*k+1)) ! v else 0))" for t
    by (rule fold_accumulate [where g = "\<lambda>k q. if q < 5
      then pair_counts0 (p ! (2*k)) (p ! (2*k+1)) ! q else 0"])
      (use pair_body0 in \<open>auto simp only: low_def\<close>)
  have total: "Kit_TruthCountOnesInCofs0 p n s ! v =
      (\<Sum>k<?N. if 5 \<le> v \<and> v < n \<and> \<not> bit k (v - 5) then Kit_WordCountOnes (p ! k) else 0) +
      (\<Sum>k<?N div 2. if v < 5 then pair_counts0 (p ! (2*k)) (p ! (2*k+1)) ! v else 0)"
    using l1 l2 [of "fold high [0 ..< ?N] s0"] s0 assms unfolding run by simp
  show ?thesis
  proof (cases "v < 5")
    case True
    then have "Kit_TruthCountOnesInCofs0 p n s ! v =
        (\<Sum>k<?N div 2. pair_counts0 (p ! (2*k)) (p ! (2*k+1)) ! v)"
      unfolding total by simp
    also have "\<dots> = cof_count p n v False"
      by (rule sum_packed [where f = "\<lambda>x y. pair_counts0 x y ! v", OF _ True pair_counts_nth(2) [OF True]])
        (use False in simp)
    finally show ?thesis .
  next
    case v: False
    have "Kit_TruthCountOnesInCofs0 p n s ! v =
        (\<Sum>k<?N. if bit k (v - 5) = False then Kit_WordCountOnes (p ! k) else 0)"
      unfolding total using v assms by simp
    then show ?thesis using sum_high [of "v - 5" False p n] v by simp
  qed
qed

text \<open>The slow version counts the minterms of the cofactors as functions of all the variables.\<close>

lemma count_cofactor:
  assumes "v < n"
  shows "count_minterms n (\<lambda>m. tt_bit p (if c then set_bit v m else unset_bit v m)) = 2 * cof_count p n v c"
proof -
  let ?P = "\<lambda>m. tt_bit p (if c then set_bit v m else unset_bit v m)"
  let ?A = "{m. m < tt_size n \<and> bit m v = c \<and> ?P m}" and ?B = "{m. m < tt_size n \<and> bit m v = (\<not> c) \<and> ?P m}"
  have split: "{m. m < tt_size n \<and> ?P m} = ?A \<union> ?B" by auto
  have lt: "m < tt_size n \<Longrightarrow> set_bit v m < tt_size n" for m
    using assms by (simp add: set_bit_less_tt_size)
  have A: "?A = {m. m < tt_size n \<and> bit m v = c \<and> tt_bit p m}" by auto
  have "card ?B = card ?A"
    by (rule bij_betw_same_card [where f = "\<lambda>m. if c then set_bit v m else unset_bit v m"],
        rule bij_betw_byWitness [where f' = "\<lambda>m. if c then unset_bit v m else set_bit v m"])
      (auto simp: lt unset_bit_less_tt_size bit_set_bit_iff bit_unset_bit_iff)
  moreover have "card (?A \<union> ?B) = card ?A + card ?B" by (rule card_Un_disjoint) auto
  ultimately show ?thesis
    unfolding count_minterms_def cof_count_def split A by simp
qed

lemma Kit_TruthCountOnesInCofsSlow_nth:
  assumes "tt_ok n pAux" "2 * n \<le> length s"
  shows "length (fst (Kit_TruthCountOnesInCofsSlow p n s pAux)) = length s \<and>
    (v < n \<longrightarrow> fst (Kit_TruthCountOnesInCofsSlow p n s pAux) ! (2 * v + (if c then 1 else 0)) = cof_count p n v c) \<and>
    (\<forall>q\<ge>2 * n. q < length s \<longrightarrow> fst (Kit_TruthCountOnesInCofsSlow p n s pAux) ! q = s ! q)"
proof -
  define step where "step = (\<lambda>i (pStore, pAux).
      let pAux = Kit_TruthCofactor0New pAux p n i;
          pStore = pStore[2*i+0 := Kit_TruthCountOnes pAux n div 2];
          pAux = Kit_TruthCofactor1New pAux p n i;
          pStore = pStore[2*i+1 := Kit_TruthCountOnes pAux n div 2]
      in (pStore, pAux))"
  have "k \<le> n \<Longrightarrow> case fold step [0 ..< k] (s, pAux) of (t, a) \<Rightarrow> length t = length s \<and> tt_ok n a \<and>
    (\<forall>v<k. \<forall>c. t ! (2 * v + (if c then 1 else 0)) = cof_count p n v c) \<and> (\<forall>q\<ge>2 * k. q < length s \<longrightarrow> t ! q = s ! q)" for k
  proof (induction k)
    case (Suc k)
    obtain t a where ta: "fold step [0 ..< k] (s, pAux) = (t, a)" by fastforce
    have IH: "length t = length s" "tt_ok n a"
      "\<forall>v<k. \<forall>c. t ! (2 * v + (if c then 1 else 0)) = cof_count p n v c" "\<forall>q\<ge>2 * k. q < length s \<longrightarrow> t ! q = s ! q"
      using Suc ta by auto
    let ?a0 = "Kit_TruthCofactor0New a p n k" let ?a1 = "Kit_TruthCofactor1New ?a0 p n k"
    have ok: "tt_ok n ?a0" "tt_ok n ?a1" using IH(2) by (simp_all add: tt_ok_def)
    have c0: "Kit_TruthCountOnes ?a0 n div 2 = cof_count p n k False"
      using count_cofactor [of k n p False] Suc.prems IH(2)
      by (simp add: Kit_TruthCountOnes_eq Kit_TruthCofactor0New_bit cong: count_minterms_cong)
    have c1: "Kit_TruthCountOnes ?a1 n div 2 = cof_count p n k True"
      using count_cofactor [of k n p True] Suc.prems ok(1)
      by (simp add: Kit_TruthCountOnes_eq Kit_TruthCofactor1New_bit cong: count_minterms_cong)
    have "fold step [0 ..< Suc k] (s, pAux) =
        (t[2*k+0 := cof_count p n k False, 2*k+1 := cof_count p n k True], ?a1)"
      by (simp add: ta) (simp add: step_def Let_def c0 c1 [simplified])
    then show ?case
      using IH ok(2) Suc.prems assms(2) by (auto simp: nth_list_update less_Suc_eq)
  qed (use assms in simp)
  moreover have "Kit_TruthCountOnesInCofsSlow p n s pAux = fold step [0 ..< n] (s, pAux)"
    unfolding Kit_TruthCountOnesInCofsSlow_def step_def ..
  ultimately show ?thesis by (cases "fold step [0 ..< n] (s, pAux)") fastforce
qed


section \<open>Fast counting over bytes\<close>

text \<open>
  \<open>Kit_TruthCountMinterms\<close> adds up, byte by byte, four counts packed in one word: the minterms of
  the byte and of its negative cofactors for three variables. The byte view of the table is that of
  a little-endian machine. The state of the byte loop is \<open>(uSum, nTotal, pRes, pBytes)\<close>.
\<close>

definition Table :: "u32 list" where
  "Table =
    [0x00000000, 0x01010101, 0x01010001, 0x02020102, 0x01000101, 0x02010202, 0x02010102, 0x03020203,
     0x01000001, 0x02010102, 0x02010002, 0x03020103, 0x02000102, 0x03010203, 0x03010103, 0x04020204,
     0x00010101, 0x01020202, 0x01020102, 0x02030203, 0x01010202, 0x02020303, 0x02020203, 0x03030304,
     0x01010102, 0x02020203, 0x02020103, 0x03030204, 0x02010203, 0x03020304, 0x03020204, 0x04030305,
     0x00010001, 0x01020102, 0x01020002, 0x02030103, 0x01010102, 0x02020203, 0x02020103, 0x03030204,
     0x01010002, 0x02020103, 0x02020003, 0x03030104, 0x02010103, 0x03020204, 0x03020104, 0x04030205,
     0x00020102, 0x01030203, 0x01030103, 0x02040204, 0x01020203, 0x02030304, 0x02030204, 0x03040305,
     0x01020103, 0x02030204, 0x02030104, 0x03040205, 0x02020204, 0x03030305, 0x03030205, 0x04040306,
     0x00000101, 0x01010202, 0x01010102, 0x02020203, 0x01000202, 0x02010303, 0x02010203, 0x03020304,
     0x01000102, 0x02010203, 0x02010103, 0x03020204, 0x02000203, 0x03010304, 0x03010204, 0x04020305,
     0x00010202, 0x01020303, 0x01020203, 0x02030304, 0x01010303, 0x02020404, 0x02020304, 0x03030405,
     0x01010203, 0x02020304, 0x02020204, 0x03030305, 0x02010304, 0x03020405, 0x03020305, 0x04030406,
     0x00010102, 0x01020203, 0x01020103, 0x02030204, 0x01010203, 0x02020304, 0x02020204, 0x03030305,
     0x01010103, 0x02020204, 0x02020104, 0x03030205, 0x02010204, 0x03020305, 0x03020205, 0x04030306,
     0x00020203, 0x01030304, 0x01030204, 0x02040305, 0x01020304, 0x02030405, 0x02030305, 0x03040406,
     0x01020204, 0x02030305, 0x02030205, 0x03040306, 0x02020305, 0x03030406, 0x03030306, 0x04040407,
     0x00000001, 0x01010102, 0x01010002, 0x02020103, 0x01000102, 0x02010203, 0x02010103, 0x03020204,
     0x01000002, 0x02010103, 0x02010003, 0x03020104, 0x02000103, 0x03010204, 0x03010104, 0x04020205,
     0x00010102, 0x01020203, 0x01020103, 0x02030204, 0x01010203, 0x02020304, 0x02020204, 0x03030305,
     0x01010103, 0x02020204, 0x02020104, 0x03030205, 0x02010204, 0x03020305, 0x03020205, 0x04030306,
     0x00010002, 0x01020103, 0x01020003, 0x02030104, 0x01010103, 0x02020204, 0x02020104, 0x03030205,
     0x01010003, 0x02020104, 0x02020004, 0x03030105, 0x02010104, 0x03020205, 0x03020105, 0x04030206,
     0x00020103, 0x01030204, 0x01030104, 0x02040205, 0x01020204, 0x02030305, 0x02030205, 0x03040306,
     0x01020104, 0x02030205, 0x02030105, 0x03040206, 0x02020205, 0x03030306, 0x03030206, 0x04040307,
     0x00000102, 0x01010203, 0x01010103, 0x02020204, 0x01000203, 0x02010304, 0x02010204, 0x03020305,
     0x01000103, 0x02010204, 0x02010104, 0x03020205, 0x02000204, 0x03010305, 0x03010205, 0x04020306,
     0x00010203, 0x01020304, 0x01020204, 0x02030305, 0x01010304, 0x02020405, 0x02020305, 0x03030406,
     0x01010204, 0x02020305, 0x02020205, 0x03030306, 0x02010305, 0x03020406, 0x03020306, 0x04030407,
     0x00010103, 0x01020204, 0x01020104, 0x02030205, 0x01010204, 0x02020305, 0x02020205, 0x03030306,
     0x01010104, 0x02020205, 0x02020105, 0x03030206, 0x02010205, 0x03020306, 0x03020206, 0x04030307,
     0x00020204, 0x01030305, 0x01030205, 0x02040306, 0x01020305, 0x02030406, 0x02030306, 0x03040407,
     0x01020205, 0x02030306, 0x02030206, 0x03040307, 0x02020306, 0x03030407, 0x03030307, 0x04040408]"

definition truth_byte :: "u32 list \<Rightarrow> nat \<Rightarrow> nat" where
  "truth_byte pTruth i = unat (drop_bit (8 * (i mod 4)) (pTruth ! (i div 4)) AND 0xff)"

definition byte_step ::
    "u32 list \<Rightarrow> nat \<Rightarrow> u32 \<times> nat \<times> nat list \<times> nat list \<Rightarrow> u32 \<times> nat \<times> nat list \<times> nat list" where
  "byte_step pTruth i = (\<lambda>(uSum, nTotal, pRes, pBytes).
     let b = truth_byte pTruth i;
         uSum = uSum + Table ! b;
         pBytes = pBytes[i := unat (Table ! b AND 0xff)]
     in if uSum AND 0xff > 246 then
          (0, nTotal + unat (uSum AND 0xff),
           inc 3 (unat (drop_bit 24 uSum AND 0xff))
             (inc 2 (unat (drop_bit 16 uSum AND 0xff))
               (inc 0 (unat (drop_bit 8 uSum AND 0xff)) pRes)), pBytes)
        else (uSum, nTotal, pRes, pBytes))"

text \<open>
  \<open>for ( iVar = 3, Step = 1; Step < nBytes; Step *= 2, iVar++ ) ...\<close>; the value of \<open>iVar\<close> after the
  loop is returned, as the code asserts it.
\<close>

definition add_block :: "nat \<Rightarrow> nat \<Rightarrow> nat \<Rightarrow> nat list \<times> nat list \<Rightarrow> nat list \<times> nat list" where
  "add_block iVar Step i = (\<lambda>(pRes, pBytes).
     (inc iVar (pBytes ! i) pRes, pBytes[i := pBytes ! i + pBytes ! (i + Step)]))"

function fold_bytes :: "nat \<Rightarrow> nat \<Rightarrow> nat \<Rightarrow> nat list \<times> nat list \<Rightarrow> nat \<times> nat list \<times> nat list" where
  "fold_bytes nBytes iVar Step st =
    (if 0 < Step \<and> Step < nBytes then
       fold_bytes nBytes (iVar + 1) (Step * 2)
         (fold (add_block iVar Step) (steps nBytes (Step + Step)) st)
     else (iVar, st))"
  by pat_completeness auto
termination by (relation "measure (\<lambda>(nBytes, iVar, Step, st). nBytes - Step)") auto

declare fold_bytes.simps [simp del]

text \<open>
  A failing assertion is \<open>None\<close>. For fewer than five variables the byte loop also indexes \<open>pRes\<close>
  beyond \<open>nVars\<close> entries before the assertion on \<open>iVar\<close> stops it; the model drops these writes
  when \<open>pRes\<close> is no longer than that.
\<close>

definition Kit_TruthCountMinterms ::
    "u32 list \<Rightarrow> nat \<Rightarrow> nat list \<Rightarrow> nat list \<Rightarrow> (nat \<times> nat list \<times> nat list) option" where
  "Kit_TruthCountMinterms pTruth nVars pRes pBytesInit =
    (if \<not> nVars \<le> 20 then None else
     let pRes = fold (\<lambda>i t. t[i := 0]) [0 ..< nVars] pRes;
         nWords = Kit_TruthWordNum nVars;
         nBytes = nWords * 4;
         (uSum, nTotal, pRes, pBytes) = fold (byte_step pTruth) [0 ..< nBytes] (0, 0, pRes, pBytesInit);
         (nTotal, pRes) = (if uSum \<noteq> 0 then
            (nTotal + unat (uSum AND 0xff),
             inc 2 (unat (drop_bit 24 uSum AND 0xff))
               (inc 1 (unat (drop_bit 16 uSum AND 0xff))
                 (inc 0 (unat (drop_bit 8 uSum AND 0xff)) pRes))) else (nTotal, pRes));
         (iVar, pRes, pBytes) = fold_bytes nBytes 3 1 (pRes, pBytes)
     in if pBytes ! 0 \<noteq> nTotal then None
        else if iVar \<noteq> nVars then None
        else if \<not> list_all (\<lambda>i. pRes ! i = Kit_TruthCofactor0Count pTruth nVars i) [0 ..< nVars] then None
        else Some (nTotal, pRes, pBytes))"

subsection \<open>The packed counts of a byte\<close>

text \<open>
  An entry of \<open>Table\<close> is the sum of the entries of its two half bytes, so it counts, field by field,
  the ones of the byte and of the three cofactors.
\<close>

definition byte_sum :: "(nat \<Rightarrow> bool) \<Rightarrow> nat \<Rightarrow> nat" where
  "byte_sum P b = (\<Sum>j<8. if bit b j \<and> P j then 1 else 0)"

definition nibble_low :: "nat list" where
  "nibble_low = [0, 0x01010101, 0x01010001, 0x02020102, 0x01000101, 0x02010202, 0x02010102, 0x03020203,
     0x01000001, 0x02010102, 0x02010002, 0x03020103, 0x02000102, 0x03010203, 0x03010103, 0x04020204]"

definition nibble_high :: "nat list" where
  "nibble_high = [0, 0x00010101, 0x00010001, 0x00020102, 0x00000101, 0x00010202, 0x00010102, 0x00020203,
     0x00000001, 0x00010102, 0x00010002, 0x00020103, 0x00000102, 0x00010203, 0x00010103, 0x00020204]"

definition bit_weight :: "nat \<Rightarrow> nat" where
  "bit_weight j = 1 + (if \<not> bit j 0 then 256 else 0) + (if \<not> bit j 1 then 65536 else 0) +
    (if \<not> bit j 2 then 16777216 else 0)"

lemma nibble_nth:
  assumes "h < 16"
  shows "nibble_low ! h = (\<Sum>j<4. if bit h j then bit_weight j else 0)"
    "nibble_high ! h = (\<Sum>j<4. if bit h j then bit_weight (j + 4) else 0)"
proof -
  have h: "h = 0 \<or> h = 1 \<or> h = 2 \<or> h = 3 \<or> h = 4 \<or> h = 5 \<or> h = 6 \<or> h = 7 \<or>
      h = 8 \<or> h = 9 \<or> h = 10 \<or> h = 11 \<or> h = 12 \<or> h = 13 \<or> h = 14 \<or> h = 15"
    using assms by arith
  have four: "(\<Sum>j<4. f j) = f 0 + f 1 + f 2 + f (3 :: nat)" for f :: "nat \<Rightarrow> nat"
    by (simp add: eval_nat_numeral)
  have w: "bit_weight 0 = 0x01010101" "bit_weight 1 = 0x01010001" "bit_weight 2 = 0x01000101"
    "bit_weight 3 = 0x01000001" "bit_weight 4 = 0x00010101" "bit_weight 5 = 0x00010001"
    "bit_weight 6 = 0x00000101" "bit_weight 7 = 0x00000001"
    by (simp_all add: bit_weight_def bit_0)
  show "nibble_low ! h = (\<Sum>j<4. if bit h j then bit_weight j else 0)"
    unfolding four w using h by (elim disjE; simp add: nibble_low_def bit_0)
  show "nibble_high ! h = (\<Sum>j<4. if bit h j then bit_weight (j + 4) else 0)"
    unfolding four using h by (elim disjE; simp add: nibble_high_def bit_0 w)
qed

lemma nth_grid:
  assumes "h < a" "l < 16"
  shows "concat (map (\<lambda>h. map (f h) [0 ..< 16]) [0 ..< a]) ! (16 * h + l) = f h l"
  using assms
proof (induction a)
  case (Suc a)
  let ?c = "concat (map (\<lambda>h. map (f h) [0 ..< 16]) [0 ..< a])"
  have len: "length ?c = 16 * a" by (simp add: length_concat o_def sum_list_triv)
  have "concat (map (\<lambda>h. map (f h) [0 ..< 16]) [0 ..< Suc a]) = ?c @ map (f a) [0 ..< 16]" by simp
  then show ?case
    using Suc len by (cases "h = a") (auto simp: nth_append)
qed simp

lemma Table_packed:
  assumes "b < 256"
  shows "unat (Table ! b) = (\<Sum>j<8. if bit b j then bit_weight j else 0)"
proof -
  define h l where "h = b div 16" and "l = b mod 16"
  have hl: "h < 16" "l < 16" "b = 16 * h + l" using assms by (auto simp: h_def l_def)
  have list_eq: "map G ys = map (\<lambda>l. G (ys ! l)) [0 ..< length ys]" for G and ys :: "nat list"
    using map_map [of G "(!) ys" "[0 ..< length ys]"] by (simp add: map_nth o_def)
  have len: "length nibble_high = 16" "length nibble_low = 16" by (simp_all add: nibble_high_def nibble_low_def)
  have "Table = concat (map (\<lambda>x. map (\<lambda>y. of_nat (x + y)) nibble_low) nibble_high)"
    by (simp add: Table_def nibble_high_def nibble_low_def)
  also have "\<dots> = concat (map (\<lambda>h. map (\<lambda>l. of_nat (nibble_high ! h + nibble_low ! l)) [0 ..< 16]) [0 ..< 16])"
    unfolding list_eq [of _ nibble_low] list_eq [of _ nibble_high] len ..
  finally have grid: "Table =
    concat (map (\<lambda>h. map (\<lambda>l. of_nat (nibble_high ! h + nibble_low ! l)) [0 ..< 16]) [0 ..< 16])" .
  have entry: "Table ! b = of_nat (nibble_high ! h + nibble_low ! l)"
    unfolding grid hl(3) by (rule nth_grid [OF hl(1,2)])
  have "\<forall>x \<in> set nibble_high \<union> set nibble_low. x < 2 ^ 31"
    by (simp add: nibble_high_def nibble_low_def)
  then have "nibble_high ! h < 2 ^ 31" "nibble_low ! l < 2 ^ 31"
    using hl len nth_mem [of h nibble_high] nth_mem [of l nibble_low] by simp_all
  then have "unat (Table ! b) = nibble_high ! h + nibble_low ! l"
    unfolding entry unat_of_nat by simp
  also have "\<dots> = (\<Sum>j<4. if bit l j then bit_weight j else 0) + (\<Sum>j<4. if bit h j then bit_weight (j + 4) else 0)"
    using hl by (simp add: nibble_nth)
  also have "(\<Sum>j<4. if bit l j then bit_weight j else 0) = (\<Sum>j<4. if bit b j then bit_weight j else 0)"
    using bit_take_bit_iff [of 4 b] by (intro sum.cong) (auto simp: l_def take_bit_eq_mod)
  also have "(\<Sum>j<4. if bit h j then bit_weight (j + 4) else 0) = (\<Sum>j<4. if bit b (j + 4) then bit_weight (j + 4) else 0)"
    using bit_drop_bit_eq [of 4 b] by (intro sum.cong) (auto simp: h_def drop_bit_eq_div add.commute)
  also have "(\<Sum>j<4. f j) + (\<Sum>j<4. f (j + 4)) = (\<Sum>j<8. f j)" for f :: "nat \<Rightarrow> nat"
    by (simp add: eval_nat_numeral)
  finally show ?thesis .
qed

lemma Table_fields:
  assumes "b < 256"
  shows "unat (Table ! b) = byte_sum (\<lambda>_. True) b + 256 * byte_sum (\<lambda>j. \<not> bit j 0) b +
    65536 * byte_sum (\<lambda>j. \<not> bit j 1) b + 16777216 * byte_sum (\<lambda>j. \<not> bit j 2) b"
  unfolding Table_packed [OF assms] byte_sum_def bit_weight_def sum_distrib_left sum.distrib [symmetric]
  by (rule sum.cong) auto

lemma byte_sum_le: "byte_sum P b \<le> byte_sum (\<lambda>_. True) b" "byte_sum P b \<le> 8"
proof -
  show "byte_sum P b \<le> byte_sum (\<lambda>_. True) b" unfolding byte_sum_def by (rule sum_mono) simp
  have "byte_sum P b \<le> (\<Sum>j<(8 :: nat). 1)" unfolding byte_sum_def by (rule sum_mono) simp
  then show "byte_sum P b \<le> 8" by simp
qed

lemma unat_low_byte: "unat (x AND 0xff :: u32) = unat x mod 256"
  using take_bit_eq_mask [of 8 "unat x"]
  by (simp add: unsigned_and_eq mask_eq_exp_minus_1 take_bit_eq_mod)

lemma Table_low:
  assumes "b < 256"
  shows "unat (Table ! b AND 0xff) = byte_sum (\<lambda>_. True) b"
proof -
  have low: "x + 256 * y + 65536 * z + 16777216 * w = x + 256 * (y + 256 * z + 65536 * w)" for x y z w :: nat by simp
  show ?thesis
    unfolding unat_low_byte Table_fields [OF assms] low mod_mult_self2
    using byte_sum_le(2) [of "\<lambda>_. True" b] by simp
qed

lemma truth_byte_less: "truth_byte p i < 256"
  using word_and_le1 [of "drop_bit (8 * (i mod 4)) (p ! (i div 4))" "0xff"]
  by (simp add: truth_byte_def word_le_nat_alt)

lemma truth_byte_bit: "j < 8 \<Longrightarrow> bit (truth_byte p i) j \<longleftrightarrow> bit (p ! (i div 4)) (8 * (i mod 4) + j)"
  using bit_mask_iff [where 'a = u32, of 8 j]
  by (simp add: truth_byte_def bit_unsigned_iff bit_and_iff bit_drop_bit_eq mask_eq_exp_minus_1)

lemma count_bytes:
  "(\<Sum>i<Kit_TruthWordNum n * 4. byte_sum (\<lambda>j. P (8 * i + j)) (truth_byte p i)) =
    count_minterms n (\<lambda>m. tt_bit p m \<and> P m)"
proof -
  let ?g = "\<lambda>m. if tt_bit p m \<and> P m then 1 else (0 :: nat)"
  have "byte_sum (\<lambda>j. P (8 * i + j)) (truth_byte p i) = sum ?g {i * 8 ..< i * 8 + 8}" for i
  proof -
    have bits: "tt_bit p (8 * i + j) = bit (truth_byte p i) j" if "j < 8" for j
    proof -
      have "8 * i + j = (8 * (i mod 4) + j) + (i div 4) * 32" by presburger
      moreover have "8 * (i mod 4) + j < 32" using that by presburger
      ultimately have "(8 * i + j) div 32 = i div 4" "(8 * i + j) mod 32 = 8 * (i mod 4) + j"
        by (simp_all only: div_mult_self1 mod_mult_self1 div_less mod_less add_0)
      then show ?thesis using that by (simp add: truth_byte_bit tt_bit_def)
    qed
    have "sum ?g {i * 8 ..< i * 8 + 8} = (\<Sum>j<8. ?g (8 * i + j))"
      using sum.shift_bounds_nat_ivl [of ?g 0 "i * 8" 8] by (simp add: atLeast0LessThan ac_simps)
    also have "\<dots> = byte_sum (\<lambda>j. P (8 * i + j)) (truth_byte p i)"
      unfolding byte_sum_def by (rule sum.cong) (simp_all add: bits)
    finally show ?thesis ..
  qed
  then have "(\<Sum>i<Kit_TruthWordNum n * 4. byte_sum (\<lambda>j. P (8 * i + j)) (truth_byte p i)) = sum ?g {..< tt_size n}"
    using sum.nat_group [of ?g 8 "Kit_TruthWordNum n * 4"] by (simp add: tt_size_def ac_simps)
  also have "\<dots> = count_minterms n (\<lambda>m. tt_bit p m \<and> P m)"
    by (simp add: count_minterms_def sum.If_cases Int_def)
  finally show ?thesis .
qed

subsection \<open>The total is the number of ones\<close>

lemma byte_counts: "(\<Sum>i<Kit_TruthWordNum n * 4. unat (Table ! truth_byte p i AND 0xff)) = Kit_TruthCountOnes p n"
  using count_bytes [where P = "\<lambda>_. True" and n = n and p = p]
  by (simp add: Table_low [OF truth_byte_less] Kit_TruthCountOnes_eq)

lemma byte_loop:
  "case fold (byte_step p) [0 ..< k] (0, 0, pRes, pBytes) of (uSum, nTotal, pRes', pBytes') \<Rightarrow>
    unat (uSum AND 0xff) \<le> 246 \<and>
    nTotal + unat (uSum AND 0xff) = (\<Sum>i<k. unat (Table ! truth_byte p i AND 0xff))"
proof (induction k)
  case (Suc k)
  obtain u t r b where st: "fold (byte_step p) [0 ..< k] (0, 0, pRes, pBytes) = (u, t, r, b)"
    by (metis prod_cases4)
  let ?T = "Table ! truth_byte p k"
  note low = unat_low_byte
  have "unat (?T AND 0xff) \<le> 8" using byte_sum_le(2) by (simp add: Table_low [OF truth_byte_less])
  moreover have "unat (u AND 0xff) \<le> 246" using Suc st by simp
  ultimately have add: "unat ((u + ?T) AND 0xff) = unat (u AND 0xff) + unat (?T AND 0xff)"
  proof -
    assume a: "unat (?T AND 0xff) \<le> 8" "unat (u AND 0xff) \<le> 246"
    have "(unat u + unat ?T) mod 256 = (unat u mod 256 + unat ?T mod 256) mod 256" by (simp add: mod_add_eq)
    also have "\<dots> = unat u mod 256 + unat ?T mod 256" using a unfolding low by simp
    finally show ?thesis unfolding low by (simp add: unat_word_ariths mod_mod_cancel)
  qed
  have gt: "(u + ?T) AND 0xff > 246 \<longleftrightarrow> unat ((u + ?T) AND 0xff) > 246"
    by (simp add: word_less_nat_alt)
  have step: "fold (byte_step p) [0 ..< Suc k] (0, 0, pRes, pBytes) = byte_step p k (u, t, r, b)"
    using st by simp
  show ?case
    using Suc st add unfolding step by (simp add: byte_step_def [of p k] Let_def gt)
qed simp

lemma Kit_TruthCountMinterms_total:
  "Kit_TruthCountMinterms p n pRes pBytes = Some (t, r, b) \<Longrightarrow> t = Kit_TruthCountOnes p n"
  using byte_loop [of p "Kit_TruthWordNum n * 4" "fold (\<lambda>i t. t[i := 0]) [0 ..< n] pRes" pBytes] byte_counts [of p n]
  by (auto simp: Kit_TruthCountMinterms_def Let_def split: prod.splits if_splits)

subsection \<open>The counts of the variables\<close>

text \<open>
  Below 247 ones the packed sum is never flushed inside the loop and no field overflows into the
  next; the doubling loop then keeps in \<open>pBytes[i]\<close> the ones of a block of bytes.
\<close>

lemma byte_loop_low:
  assumes "k \<le> length b" "(\<Sum>i<k. byte_sum (\<lambda>_. True) (truth_byte p i)) \<le> 246"
  shows "\<exists>b'. fold (byte_step p) [0 ..< k] (0, 0, r, b) = (of_nat (\<Sum>i<k. unat (Table ! truth_byte p i)), 0, r, b') \<and>
    length b' = length b \<and> (\<forall>i<k. b' ! i = byte_sum (\<lambda>_. True) (truth_byte p i))"
  using assms
proof (induction k)
  case (Suc k)
  let ?T = "\<lambda>k. \<Sum>i<k. unat (Table ! truth_byte p i)"
  obtain b' where b': "fold (byte_step p) [0 ..< k] (0, 0, r, b) = (of_nat (?T k), 0, r, b')" "length b' = length b"
    "\<forall>i<k. b' ! i = byte_sum (\<lambda>_. True) (truth_byte p i)"
    using Suc by auto
  have sum: "of_nat (?T k) + Table ! truth_byte p k = (of_nat (?T (Suc k)) :: u32)" by simp
  have "?T (Suc k) mod 256 = (\<Sum>i<Suc k. unat (Table ! truth_byte p i) mod 256) mod 256" by (simp only: mod_sum_eq)
  also have "\<dots> = (\<Sum>i<Suc k. byte_sum (\<lambda>_. True) (truth_byte p i)) mod 256"
    using Table_low [OF truth_byte_less, of p] by (simp add: unat_low_byte)
  finally have "unat (of_nat (?T (Suc k)) AND 0xff :: u32) \<le> 246"
    using Suc.prems(2) by (simp add: unat_low_byte unat_of_nat mod_mod_cancel del: sum.lessThan_Suc of_nat_sum of_nat_add)
  then have "\<not> of_nat (?T (Suc k)) AND 0xff > (246 :: u32)"
    by (simp add: word_less_nat_alt del: sum.lessThan_Suc of_nat_sum of_nat_add)
  then have "fold (byte_step p) [0 ..< Suc k] (0, 0, r, b) =
      (of_nat (?T (Suc k)), 0, r, b'[k := byte_sum (\<lambda>_. True) (truth_byte p k)])"
    using b'(1) Table_low [OF truth_byte_less, of p k]
    by (simp add: byte_step_def [of p k] Let_def sum del: sum.lessThan_Suc of_nat_sum of_nat_add)
  then show ?case
    using b'(2,3) Suc.prems(1) by (auto simp: nth_list_update less_Suc_eq)
qed simp

lemma packed_fields:
  assumes "A \<le> 246" "B \<le> A" "C \<le> A" "D \<le> A" "u = (of_nat (A + 256 * B + 65536 * C + 16777216 * D) :: u32)"
  shows "unat (u AND 0xff) = A" "unat (drop_bit 8 u AND 0xff) = B" "unat (drop_bit 16 u AND 0xff) = C"
    "unat (drop_bit 24 u AND 0xff) = D"
proof -
  let ?N = "A + 256 * B + 65536 * C + 16777216 * D"
  have u: "unat u = ?N" using assms by (simp add: unat_of_nat del: of_nat_add of_nat_mult)
  have shift: "unat (drop_bit k u) = unat u div 2 ^ k" for k
    by (simp only: unat_drop_bit_eq drop_bit_eq_div [where 'a = nat])
  have low: "(x + 256 * y) mod 256 = x" "(x + 256 * y) div 256 = y" if "x \<le> 246" for x y :: nat
    using that by simp_all
  have N: "?N = A + 256 * (B + 256 * (C + 256 * D))" by simp
  have div: "m div 65536 = m div 256 div 256" "m div 16777216 = m div 256 div 256 div 256" for m :: nat
    by (simp_all add: div_mult2_eq [symmetric])
  have le: "A \<le> 246" "B \<le> 246" "C \<le> 246" "D \<le> 246" using assms by simp_all
  have "?N mod 256 = A" "?N div 256 mod 256 = B" "?N div 65536 mod 256 = C" "?N div 16777216 mod 256 = D"
    unfolding div N by (simp_all only: low le) (use le in simp)
  then show "unat (u AND 0xff) = A" "unat (drop_bit 8 u AND 0xff) = B" "unat (drop_bit 16 u AND 0xff) = C"
    "unat (drop_bit 24 u AND 0xff) = D"
    by (simp_all add: unat_low_byte shift u)
qed

lemma steps_blocks: "0 < s \<Longrightarrow> steps (Q * s) s = map (\<lambda>q. q * s) [0 ..< Q]"
proof -
  assume s: "0 < s"
  have "(Q * s + s - 1) div s = Q" using s by (intro div_nat_eqI) (auto simp: algebra_simps)
  then show ?thesis by (simp add: steps_def)
qed

lemma add_blocks:
  assumes "0 < S" "Q * (S + S) \<le> length b" "v < length r"
  shows "\<exists>b'. fold (add_block v S) (map (\<lambda>q. q * (S + S)) [0 ..< Q]) (r, b) =
      (r[v := r ! v + (\<Sum>q<Q. b ! (q * (S + S)))], b') \<and> length b' = length b \<and>
    (\<forall>q<Q. b' ! (q * (S + S)) = b ! (q * (S + S)) + b ! (q * (S + S) + S)) \<and>
    (\<forall>i\<ge>Q * (S + S). b' ! i = b ! i)"
  using assms(2)
proof (induction Q)
  case (Suc Q)
  let ?i = "Q * (S + S)"
  have fits: "?i + S < length b" using Suc.prems assms(1) by simp
  then obtain b' where b':
    "fold (add_block v S) (map (\<lambda>q. q * (S + S)) [0 ..< Q]) (r, b) = (r[v := r ! v + (\<Sum>q<Q. b ! (q * (S + S)))], b')"
    "length b' = length b"
    "\<forall>q<Q. b' ! (q * (S + S)) = b ! (q * (S + S)) + b ! (q * (S + S) + S)"
    "\<forall>i\<ge>?i. b' ! i = b ! i"
    using Suc by auto
  have old: "b' ! ?i = b ! ?i" "b' ! (?i + S) = b ! (?i + S)" using b'(4) by simp_all
  have other: "q * (S + S) < ?i" if "q < Q" for q
    using that assms(1) by (simp add: mult_less_mono1)
  have "fold (add_block v S) (map (\<lambda>q. q * (S + S)) [0 ..< Suc Q]) (r, b) =
      add_block v S ?i (fold (add_block v S) (map (\<lambda>q. q * (S + S)) [0 ..< Q]) (r, b))"
    by simp
  also have "\<dots> = (r[v := r ! v + (\<Sum>q<Suc Q. b ! (q * (S + S)))], b'[?i := b ! ?i + b ! (?i + S)])"
    unfolding b'(1) using assms(3) by (simp add: add_block_def inc_def old add.assoc)
  finally have run: "fold (add_block v S) (map (\<lambda>q. q * (S + S)) [0 ..< Suc Q]) (r, b) =
      (r[v := r ! v + (\<Sum>q<Suc Q. b ! (q * (S + S)))], b'[?i := b ! ?i + b ! (?i + S)])" .
  moreover have "b'[?i := b ! ?i + b ! (?i + S)] ! (q * (S + S)) = b ! (q * (S + S)) + b ! (q * (S + S) + S)"
    if "q < Suc Q" for q
  proof (cases "q = Q")
    case True then show ?thesis using fits b'(2) by simp
  next
    case False
    then have "q < Q" using that by simp
    then show ?thesis using other [of q] b'(3) by simp
  qed
  moreover have "\<forall>i\<ge>Suc Q * (S + S). b'[?i := b ! ?i + b ! (?i + S)] ! i = b ! i"
    using b'(4) assms(1) by auto
  ultimately show ?case using b'(2) by (intro exI [of _ "b'[?i := b ! ?i + b ! (?i + S)]"]) simp
qed (use assms(3) in simp)

lemma sum_shift: "(\<Sum>j\<in>{a ..< a + k}. f j) = (\<Sum>j<k. f (a + j))" for f :: "nat \<Rightarrow> nat"
  using sum.shift_bounds_nat_ivl [of f 0 a k] by (simp add: atLeast0LessThan ac_simps)

lemma block_sum:
  "(\<Sum>q<Q. \<Sum>j<2 ^ k. f (q * (2 ^ k + 2 ^ k) + j)) = (\<Sum>i<Q * (2 ^ k + 2 ^ k). if bit i k then 0 else f i)"
  for f :: "nat \<Rightarrow> nat"
proof -
  let ?g = "\<lambda>i. if bit i k then 0 else f i" let ?s = "2 ^ k + 2 ^ k :: nat"
  have low: "\<not> bit (q * ?s + j) k" and high: "bit (q * ?s + (2 ^ k + j)) k" if "j < 2 ^ k" for q j :: nat
  proof -
    have "(q * ?s + j) div 2 ^ k = 2 * q" "(q * ?s + (2 ^ k + j)) div 2 ^ k = 2 * q + 1"
      using that by (simp_all add: div_nat_eqI algebra_simps)
    then show "\<not> bit (q * ?s + j) k" "bit (q * ?s + (2 ^ k + j)) k" by (simp_all add: bit_iff_odd)
  qed
  have "(\<Sum>j<2 ^ k. f (q * ?s + j)) = sum ?g {q * ?s ..< q * ?s + ?s}" for q
  proof -
    have "sum ?g {q * ?s ..< q * ?s + ?s} = (\<Sum>j<2 ^ k. ?g (q * ?s + j)) + (\<Sum>j<2 ^ k. ?g (q * ?s + (2 ^ k + j)))"
      using sum_shift [of ?g "q * ?s" "2 ^ k"] sum_shift [of ?g "q * ?s + 2 ^ k" "2 ^ k"]
        sum.atLeastLessThan_concat [of "q * ?s" "q * ?s + 2 ^ k" "q * ?s + ?s" ?g]
      by (simp add: add.assoc cong: if_cong)
    also have "(\<Sum>j<2 ^ k. ?g (q * ?s + j)) = (\<Sum>j<2 ^ k. f (q * ?s + j))"
      by (rule sum.cong) (simp_all only: low lessThan_iff if_False)
    also have "(\<Sum>j<2 ^ k. ?g (q * ?s + (2 ^ k + j))) = (\<Sum>j<(2 :: nat) ^ k. 0)"
      by (rule sum.cong) (simp_all only: high lessThan_iff if_True)
    finally show ?thesis by simp
  qed
  then show ?thesis using sum.nat_group [of ?g ?s Q] by simp
qed

lemma fold_bytes_run:
  assumes "k + d = m" "3 + m \<le> length r" "2 ^ m \<le> length b"
    "\<forall>q<2 ^ d. b ! (q * 2 ^ k) = (\<Sum>j<2 ^ k. f (q * 2 ^ k + j))"
  shows "\<exists>r' b'. fold_bytes (2 ^ m) (3 + k) (2 ^ k) (r, b) = (3 + m, r', b') \<and>
    b' ! 0 = (\<Sum>i<2 ^ m. f i) \<and> (\<forall>v<3 + k. r' ! v = r ! v) \<and>
    (\<forall>v. k \<le> v \<and> v < m \<longrightarrow> r' ! (3 + v) = r ! (3 + v) + (\<Sum>i<2 ^ m. if bit i v then 0 else f i))"
  using assms
proof (induction d arbitrary: k r b)
  case 0
  then show ?case by (simp add: fold_bytes.simps [of "2 ^ m"])
next
  case (Suc d)
  let ?S = "2 ^ k :: nat"
  have m: "2 ^ m = 2 ^ d * (?S + ?S)" and S: "?S < 2 ^ m" "k < m"
    using Suc.prems(1) by (auto simp: power_add [symmetric] mult_2 [symmetric] ac_simps simp flip: power_Suc)
  obtain b1 where b1:
    "fold (add_block (3 + k) ?S) (map (\<lambda>q. q * (?S + ?S)) [0 ..< 2 ^ d]) (r, b) =
      (r[3 + k := r ! (3 + k) + (\<Sum>q<2 ^ d. b ! (q * (?S + ?S)))], b1)" "length b1 = length b"
    "\<forall>q<2 ^ d. b1 ! (q * (?S + ?S)) = b ! (q * (?S + ?S)) + b ! (q * (?S + ?S) + ?S)"
    using add_blocks [of ?S "2 ^ d" b "3 + k" r] Suc.prems(2,3) m S by auto
  let ?r = "r[3 + k := r ! (3 + k) + (\<Sum>q<2 ^ d. b ! (q * (?S + ?S)))]"
  have at: "2 * q * ?S = q * (?S + ?S)" "(2 * q + 1) * ?S = q * (?S + ?S) + ?S" for q
    by (simp_all add: algebra_simps)
  have sums: "b ! (q * (?S + ?S)) = (\<Sum>j<?S. f (q * (?S + ?S) + j))"
    "b ! (q * (?S + ?S) + ?S) = (\<Sum>j<?S. f (q * (?S + ?S) + ?S + j))" if "q < 2 ^ d" for q
    using that Suc.prems(4) [rule_format, of "2 * q"] Suc.prems(4) [rule_format, of "2 * q + 1"]
    unfolding at by simp_all
  have "b1 ! (q * 2 ^ Suc k) = (\<Sum>j<2 ^ Suc k. f (q * 2 ^ Suc k + j))" if "q < 2 ^ d" for q
  proof -
    have "(\<Sum>j<?S + ?S. f (q * (?S + ?S) + j)) = (\<Sum>j<?S. f (q * (?S + ?S) + j)) + (\<Sum>j<?S. f (q * (?S + ?S) + ?S + j))"
      using sum_shift [of "\<lambda>j. f (q * (?S + ?S) + j)" ?S ?S]
        sum.atLeastLessThan_concat [of 0 ?S "?S + ?S" "\<lambda>j. f (q * (?S + ?S) + j)"]
      by (simp add: atLeast0LessThan add.assoc)
    then show ?thesis using that b1(3) sums by (simp add: mult_2)
  qed
  then obtain r' b' where IH: "fold_bytes (2 ^ m) (3 + Suc k) (2 ^ Suc k) (?r, b1) = (3 + m, r', b')"
    "b' ! 0 = (\<Sum>i<2 ^ m. f i)" "\<forall>v<3 + Suc k. r' ! v = ?r ! v"
    "\<forall>v. Suc k \<le> v \<and> v < m \<longrightarrow> r' ! (3 + v) = ?r ! (3 + v) + (\<Sum>i<2 ^ m. if bit i v then 0 else f i)"
    using Suc.IH [of "Suc k" ?r b1] Suc.prems(1,2,3) b1(2) by auto
  have "fold_bytes (2 ^ m) (3 + k) ?S (r, b) = fold_bytes (2 ^ m) (3 + Suc k) (2 ^ Suc k) (?r, b1)"
    using S b1(1) m by (subst fold_bytes.simps) (simp add: steps_blocks mult_2 mult.commute)
  moreover have "(\<Sum>q<2 ^ d. b ! (q * (?S + ?S))) = (\<Sum>i<2 ^ m. if bit i k then 0 else f i)"
    unfolding m block_sum [symmetric] by (rule sum.cong) (simp_all add: sums)
  moreover have "r' ! (3 + v) = r ! (3 + v) + (\<Sum>i<2 ^ m. if bit i v then 0 else f i)" if "k \<le> v" "v < m" for v
    using that IH(3,4) Suc.prems(2) calculation(2) by (cases "v = k") auto
  ultimately show ?case using IH by auto
qed

lemma Kit_TruthCountMinterms_small:
  assumes "n < 5"
  shows "Kit_TruthCountMinterms p n pRes pBytes = None"
proof -
  have four: "steps 4 2 = [0, 2]" "steps 4 4 = [0]" by (simp_all add: steps_def upt_rec)
  have "fst (fold_bytes 4 3 1 st) = 5" for st
    by (simp add: fold_bytes.simps [of 4] four)
  then have iVar: "fold_bytes 4 3 1 st = (i, r) \<Longrightarrow> i = 5" for st i r by (metis fst_conv)
  note iVar = this [simplified One_nat_def]
  show ?thesis
    using assms by (auto simp: Kit_TruthCountMinterms_def Let_def Kit_TruthWordNum_def split: prod.splits dest!: iVar)
qed

lemma clear_first: "n \<le> length r \<Longrightarrow> fold (\<lambda>i t. t[i := 0]) [0 ..< n] r = replicate n 0 @ drop n r"
proof (induction n)
  case (Suc n)
  then have "replicate n 0 @ (drop n r)[0 := 0] = replicate (Suc n) 0 @ drop (Suc n) r"
    by (simp add: Cons_nth_drop_Suc [symmetric] replicate_append_same)
  then show ?case using Suc by (simp add: list_update_append)
qed simp

lemma Kit_TruthCountMinterms_run:
  assumes n: "5 \<le> n" "n \<le> 20" and len: "n \<le> length pRes" "Kit_TruthWordNum n * 4 \<le> length pBytes"
    and low: "Kit_TruthCountOnes p n \<le> 246"
  shows "\<exists>r b. Kit_TruthCountMinterms p n pRes pBytes = Some (Kit_TruthCountOnes p n, r, b) \<and>
    (\<forall>v<n. r ! v = Kit_TruthCofactor0Count p n v)"
proof -
  let ?N = "Kit_TruthWordNum n * 4" and ?tb = "truth_byte p"
  let ?all = "byte_sum (\<lambda>_. True)" and ?z = "replicate n 0 @ drop n pRes"
  have N: "?N = 2 ^ (n - 3)"
  proof -
    have "n - 3 = n - 5 + 2" using n by simp
    then show ?thesis using n by (simp add: Kit_TruthWordNum_def power_add)
  qed
  have ones: "(\<Sum>i<?N. ?all (?tb i)) = Kit_TruthCountOnes p n"
    using count_bytes [where n = n and p = p and P = "\<lambda>_. True"] by (simp add: Kit_TruthCountOnes_eq)
  define cof where "cof q = (\<Sum>i<?N. byte_sum (\<lambda>j. \<not> bit j q) (?tb i))" for q
  define u :: u32 where "u = of_nat (\<Sum>i<?N. unat (Table ! ?tb i))"
  have le: "cof q \<le> Kit_TruthCountOnes p n" for q
    unfolding cof_def ones [symmetric] by (rule sum_mono) (rule byte_sum_le)
  have u: "u = of_nat (Kit_TruthCountOnes p n + 256 * cof 0 + 65536 * cof 1 + 16777216 * cof 2)"
    unfolding u_def cof_def ones [symmetric] sum_distrib_left sum.distrib [symmetric]
    by (rule arg_cong [of _ _ of_nat], rule sum.cong) (simp_all add: Table_fields truth_byte_less)
  note fields = packed_fields [OF low le le le u]
  obtain b1 where b1: "fold (byte_step p) [0 ..< ?N] (0, 0, ?z, pBytes) = (u, 0, ?z, b1)" "length b1 = length pBytes"
    "\<forall>i<?N. b1 ! i = ?all (?tb i)"
    using byte_loop_low [of ?N pBytes p ?z] len(2) low ones unfolding u_def by auto
  define r1 where "r1 = inc 2 (cof 2) (inc 1 (cof 1) (inc 0 (cof 0) ?z))"
  have len1: "length r1 = length pRes" using len(1) by (simp add: r1_def inc_def)
  have low_vars: "r1 ! v = (if v < 3 then cof v else 0)" if "v < n" for v
  proof -
    have "v = 0 \<or> v = 1 \<or> v = 2 \<or> 3 \<le> v" by arith
    moreover have "?z[0 := cof 0] ! 0 = cof 0" by (rule nth_list_update_eq) (use len(1) n in \<open>cases pRes; simp\<close>)
    ultimately show ?thesis using that n len(1) by (auto simp: r1_def inc_def nth_list_update nth_append)
  qed
  have rest: "(if u \<noteq> 0 then
      (0 + unat (u AND 0xff), inc 2 (unat (drop_bit 24 u AND 0xff))
        (inc 1 (unat (drop_bit 16 u AND 0xff)) (inc 0 (unat (drop_bit 8 u AND 0xff)) ?z)))
      else (0, ?z)) = (Kit_TruthCountOnes p n, r1)"
  proof (cases "u = 0")
    case True
    then have "Kit_TruthCountOnes p n = 0" "cof 0 = 0" "cof 1 = 0" "cof 2 = 0" using fields by simp_all
    then show ?thesis using True by (simp add: r1_def inc_def)
  next
    case False
    then show ?thesis unfolding fields r1_def by simp
  qed
  obtain r b where run: "fold_bytes ?N 3 1 (r1, b1) = (n, r, b)" "b ! 0 = (\<Sum>i<?N. ?all (?tb i))"
    "\<forall>v<3. r ! v = r1 ! v"
    "\<forall>v<n - 3. r ! (3 + v) = r1 ! (3 + v) + (\<Sum>i<?N. if bit i v then 0 else ?all (?tb i))"
    using fold_bytes_run [of 0 "n - 3" "n - 3" r1 b1 "\<lambda>i. ?all (?tb i)"] n len len1 b1(2,3)
    unfolding N [symmetric] by auto
  have counts: "r ! v = Kit_TruthCofactor0Count p n v" if v: "v < n" for v
  proof -
    have "r ! v = (\<Sum>i<?N. byte_sum (\<lambda>j. \<not> bit (8 * i + j) v) (?tb i))"
    proof (cases "v < 3")
      case True
      have "bit (8 * i + j) v = bit j v" for i j :: nat
        using bit_take_bit_iff [of 3 "8 * i + j" v] bit_take_bit_iff [of 3 j v] True
        by (simp add: take_bit_eq_mod)
      then show ?thesis using True run(3) low_vars [OF v] by (simp add: cof_def)
    next
      case False
      have "byte_sum (\<lambda>j. \<not> bit (8 * i + j) v) (?tb i) = (if bit i (v - 3) then 0 else ?all (?tb i))" for i
      proof -
        have "bit (8 * i + j) v = bit i (v - 3)" if "j < 8" for j
        proof -
          have "bit (8 * i + j) v = bit ((8 * i + j) div 8) (v - 3)"
            using bit_drop_bit_eq [of 3 "8 * i + j"] False by (simp add: drop_bit_eq_div fun_eq_iff)
          then show ?thesis using that by simp
        qed
        then show ?thesis by (simp add: byte_sum_def)
      qed
      moreover have "r ! v = (\<Sum>i<?N. if bit i (v - 3) then 0 else ?all (?tb i))"
        using run(4) [rule_format, of "v - 3"] low_vars [OF v] False v by simp
      ultimately show ?thesis by simp
    qed
    also have "\<dots> = Kit_TruthCofactor0Count p n v"
      using count_bytes [where P = "\<lambda>m. \<not> bit m v" and n = n and p = p]
      by (simp add: Kit_TruthCofactor0Count_eq [OF v] conj_commute)
    finally show ?thesis .
  qed
  have "Kit_TruthCountMinterms p n pRes pBytes = Some (Kit_TruthCountOnes p n, r, b)"
    unfolding Kit_TruthCountMinterms_def Let_def clear_first [OF len(1)] b1(1) prod.case rest run(1)
    using n counts run(2) by (simp add: ones list_all_iff)
  then show ?thesis using counts by auto
qed

subsection \<open>A full table of eight variables\<close>

text \<open>
  Where the packed sum is flushed inside the loop, the counts of the second and third variable are
  added to \<open>pRes[2]\<close> and \<open>pRes[3]\<close>; after the loop they go to \<open>pRes[1]\<close> and \<open>pRes[2]\<close>. A flush
  needs more than 246 ones, so tables of eight variables are the first to show it; the
  assertion on the cofactor counts then fails.
\<close>

lemma fold_bytes_low: "q < iVar \<Longrightarrow> fst (snd (fold_bytes nBytes iVar Step st)) ! q = fst st ! q"
proof (induction nBytes iVar Step st rule: fold_bytes.induct)
  case (1 nBytes iVar Step st)
  have "fst (fold (add_block iVar Step) is st) ! q = fst st ! q" for "is"
    using 1(2) by (induction "is" arbitrary: st) (auto simp: add_block_def inc_def split: prod.splits)
  then show ?case
    using 1 by (subst fold_bytes.simps) simp
qed

definition ones8 :: "u32 list" where
  "ones8 = replicate 8 0xFFFFFFFF"

lemma ones8_step:
  assumes "i < 32"
  shows "byte_step ones8 i (u, t, r, b) =
    (if u + 0x04040408 AND 0xff > 246 then
       (0, t + unat ((u + 0x04040408) AND 0xff),
        inc 3 (unat (drop_bit 24 (u + 0x04040408) AND 0xff))
          (inc 2 (unat (drop_bit 16 (u + 0x04040408) AND 0xff))
            (inc 0 (unat (drop_bit 8 (u + 0x04040408) AND 0xff)) r)), b[i := 8])
     else (u + 0x04040408, t, r, b[i := 8]))"
proof -
  have "i mod 4 = 0 \<or> i mod 4 = 1 \<or> i mod 4 = 2 \<or> i mod 4 = 3" by arith
  moreover have "ones8 ! (i div 4) = 0xFFFFFFFF" using assms by (simp add: ones8_def)
  ultimately have "truth_byte ones8 i = 255" by (auto simp: truth_byte_def drop_bit_eq_div)
  moreover have "Table ! 255 = 0x04040408" by (simp add: Table_def)
  ultimately show ?thesis by (simp add: byte_step_def Let_def)
qed

lemma ones8_loop:
  assumes "k \<le> 30"
  shows "\<exists>b'. fold (byte_step ones8) [0 ..< k] (0, 0, r, b) = (of_nat k * 0x04040408, 0, r, b')"
  using assms
proof (induction k)
  case (Suc k)
  then obtain b' where b': "fold (byte_step ones8) [0 ..< k] (0, 0, r, b) = (of_nat k * 0x04040408, 0, r, b')"
    by auto
  have sum: "of_nat k * 0x04040408 + 0x04040408 = (of_nat (Suc k) * 0x04040408 :: u32)"
    by (simp add: algebra_simps)
  have "unat (of_nat K * 0x04040408 AND 0xff :: u32) = K * 8 mod 256" for K :: nat
  proof -
    have "(of_nat K * 0x04040408 :: u32) = of_nat (K * 0x04040408)" by simp
    then have "unat (of_nat K * 0x04040408 AND 0xff :: u32) = K * 0x04040408 mod 2 ^ 32 mod 256"
      unfolding unat_low_byte by (simp only: unat_of_nat) simp
    also have "\<dots> = K * 0x04040408 mod 256" by (simp add: mod_mod_cancel)
    also have "\<dots> = K * 8 mod 256" 
    proof -
      have "K * 0x04040408 = K * 8 + K * 263172 * 256" by simp
      then show ?thesis by (simp only: mod_mult_self1)
    qed
    finally show ?thesis .
  qed
  from this [of "Suc k"] have "\<not> (of_nat (Suc k) * 0x04040408 :: u32) AND 0xff > 246"
    using Suc.prems by (simp add: word_less_nat_alt del: of_nat_Suc)
  then show ?case
    using Suc.prems b' by (simp add: ones8_step sum del: of_nat_Suc)
qed simp

lemma ones8_aborts: "Kit_TruthCountMinterms ones8 8 (replicate 8 0) (replicate 32 0) = None"
proof -
  let ?z = "[0, 0, 0, 0, 0, 0, 0, 0] :: nat list"
  have rep: "replicate 8 0 = ?z" by code_simp
  have z: "fold (\<lambda>i t. t[i := 0]) [0 ..< 8] ?z = ?z" by code_simp
  obtain b where "fold (byte_step ones8) [0 ..< 30] (0, 0, ?z, replicate 32 0) = (of_nat 30 * 0x04040408, 0, ?z, b)"
    using ones8_loop [of 30 ?z "replicate 32 0"] by auto
  moreover have "[0 ..< 32] = [0 ..< 30] @ [30, 31]" by (simp add: upt_rec)
  ultimately have run: "fold (byte_step ones8) [0 ..< 32] (0, 0, ?z, replicate 32 0) =
      (0x04040408, 248, [124, 0, 124, 124, 0, 0, 0, 0], b[30 := 8, 31 := 8])"
    by (simp add: ones8_step inc_def)
  obtain i r b' where res: "fold_bytes 32 3 1 ([128, 4, 128, 124, 0, 0, 0, 0], b[30 := 8, 31 := 8]) = (i, r, b')"
    by (metis prod_cases3)
  have "r ! 1 = 4"
    using fold_bytes_low [of 1 3 32 1 "([128, 4, 128, 124, 0, 0, 0, 0], b[30 := 8, 31 := 8])"] unfolding res by simp
  moreover have "Kit_TruthCofactor0Count ones8 8 1 = 128"
  proof -
    have "Kit_WordCountOnes 0x33333333 = 16" by (simp add: Kit_WordCountOnes_def)
    moreover have "ones8 ! i AND 0x33333333 = 0x33333333" if "i < 8" for i
      using that by (simp add: ones8_def)
    ultimately show ?thesis by (simp add: Kit_TruthCofactor0Count_def Kit_TruthWordNum_def sum_words_eq)
  qed
  ultimately have "\<not> list_all (\<lambda>i. r ! i = Kit_TruthCofactor0Count ones8 8 i) [0 ..< 8]"
    unfolding list_all_iff by (intro notI) (drule bspec [of _ _ 1]; simp)
  then show ?thesis
    unfolding Kit_TruthCountMinterms_def Let_def rep z
    using res by (simp add: Kit_TruthWordNum_def run inc_def)
qed

section \<open>Properties\<close>

text \<open>
  C23 The word-parallel routine \<open>Kit_TruthCountOnesInCofs\<close> stores the same numbers as
  \<open>Kit_TruthCountOnesInCofsSlow\<close>, which builds every cofactor and counts its ones.
\<close>

lemma Kit_TruthCountOnesInCofs_slow:
  assumes "tt_ok n pAux" "2 * n \<le> length pStore" "q < 2 * n"
  shows "Kit_TruthCountOnesInCofs p n pStore ! q = fst (Kit_TruthCountOnesInCofsSlow p n pStore pAux) ! q"
proof -
  have q: "q = 2 * (q div 2) + (if odd q then 1 else 0)" "q div 2 < n"
    using assms(3) by auto
  have "Kit_TruthCountOnesInCofs p n pStore ! q = cof_count p n (q div 2) (odd q)"
    using Kit_TruthCountOnesInCofs_nth [OF assms(2) q(2), of p "odd q"] q(1) by metis
  also have "\<dots> = fst (Kit_TruthCountOnesInCofsSlow p n pStore pAux) ! q"
    using Kit_TruthCountOnesInCofsSlow_nth [OF assms(1,2), where p = p and v = "q div 2" and c = "odd q"] q
    by metis
  finally show ?thesis .
qed

lemma Kit_TruthCountOnesInCofs_slow_witness:
  "Kit_TruthCountOnesInCofs [0xCAFE, 0xBABE0000] 6 (replicate 12 7) ! 3 =
    fst (Kit_TruthCountOnesInCofsSlow [0xCAFE, 0xBABE0000] 6 (replicate 12 7) [0, 0]) ! 3"
  by (rule Kit_TruthCountOnesInCofs_slow) (simp_all add: tt_ok_def Kit_TruthWordNum_def)

text \<open>
  C24 \<open>Kit_TruthBooleanDiffCount\<close> counts the pairs of minterms that differ in the variable only and
  have different values; it is 0 exactly when the variable is not in the support.
\<close>

lemma Kit_TruthBooleanDiffCount_correct:
  assumes "iVar < n"
  shows "Kit_TruthBooleanDiffCount p n iVar =
      card {m. m < tt_size n \<and> \<not> bit m iVar \<and> tt_bit p m \<noteq> tt_bit p (set_bit iVar m)} \<and>
    (Kit_TruthBooleanDiffCount p n iVar = 0 \<longleftrightarrow> \<not> Kit_TruthVarInSupport p n iVar)"
proof -
  have "finite {m. m < tt_size n \<and> \<not> bit m iVar \<and> tt_bit p m \<noteq> tt_bit p (set_bit iVar m)}" by simp
  then show ?thesis
    using assms
    by (auto simp: Kit_TruthBooleanDiffCount_eq count_minterms_def Kit_TruthVarInSupport_iff)
qed

lemma Kit_TruthBooleanDiffCount_witness:
  "(Kit_TruthBooleanDiffCount [0xAAAAAAAA] 1 0 = 0 \<longleftrightarrow> \<not> Kit_TruthVarInSupport [0xAAAAAAAA] 1 0)"
  using Kit_TruthBooleanDiffCount_correct [OF zero_less_one, of "[0xAAAAAAAA]"] by blast

text \<open>
  C25 For functions of 5 to 20 variables with at most 246 ones \<open>Kit_TruthCountMinterms\<close> returns: its
  value is the number of ones, and \<open>pRes[v]\<close> is the number of ones with variable \<open>v\<close> at 0. With
  fewer variables, or more than 20, no call gets past the assertions, and neither does the call on
  the constant 1 of eight variables, whose counter is flushed inside the loop: the counts of the
  second and third variable then went to the wrong entries.
\<close>

lemma Kit_TruthCountMinterms_correct:
  "(5 \<le> n \<and> n \<le> 20 \<and> n \<le> length pRes \<and> Kit_TruthWordNum n * 4 \<le> length pBytes \<and>
      card {m. m < 2 ^ n \<and> tt_bit p m} \<le> 246 \<longrightarrow>
    (\<exists>pRes' pBytes'. Kit_TruthCountMinterms p n pRes pBytes =
        Some (card {m. m < 2 ^ n \<and> tt_bit p m}, pRes', pBytes') \<and>
      (\<forall>v<n. pRes' ! v = card {m. m < 2 ^ n \<and> \<not> bit m v \<and> tt_bit p m}))) \<and>
    (\<forall>t r b. Kit_TruthCountMinterms p n pRes pBytes = Some (t, r, b) \<longrightarrow> t = card {m. m < 2 ^ n \<and> tt_bit p m}) \<and>
    (n < 5 \<or> 20 < n \<longrightarrow> Kit_TruthCountMinterms p n pRes pBytes = None) \<and>
    Kit_TruthCountMinterms ones8 8 (replicate 8 0) (replicate 32 0) = None"
proof -
  have size: "tt_size n = 2 ^ n" if "5 \<le> n"
  proof -
    obtain k where "n = 5 + k" using le_Suc_ex [OF \<open>5 \<le> n\<close>] ..
    then show ?thesis by (simp add: tt_size_def Kit_TruthWordNum_def power_add)
  qed
  have "\<exists>pRes' pBytes'. Kit_TruthCountMinterms p n pRes pBytes =
        Some (card {m. m < 2 ^ n \<and> tt_bit p m}, pRes', pBytes') \<and>
      (\<forall>v<n. pRes' ! v = card {m. m < 2 ^ n \<and> \<not> bit m v \<and> tt_bit p m})"
    if "5 \<le> n" "n \<le> 20" "n \<le> length pRes" "Kit_TruthWordNum n * 4 \<le> length pBytes"
      "card {m. m < 2 ^ n \<and> tt_bit p m} \<le> 246"
    using that Kit_TruthCountMinterms_run [OF that(1-4), of p]
    by (simp add: Kit_TruthCountOnes_eq Kit_TruthCofactor0Count_eq count_minterms_def size)
  moreover have "t = card {m. m < 2 ^ n \<and> tt_bit p m}"
    if "Kit_TruthCountMinterms p n pRes pBytes = Some (t, r, b)" for t r b
  proof -
    have "5 \<le> n" using that Kit_TruthCountMinterms_small [of n p pRes pBytes] by fastforce
    then show ?thesis
      using Kit_TruthCountMinterms_total [OF that] by (simp add: Kit_TruthCountOnes_eq count_minterms_def size)
  qed
  moreover have "20 < n \<Longrightarrow> Kit_TruthCountMinterms p n pRes pBytes = None"
    by (simp add: Kit_TruthCountMinterms_def)
  ultimately show ?thesis using Kit_TruthCountMinterms_small ones8_aborts by blast
qed

lemma Kit_TruthCountMinterms_witness:
  "\<exists>pRes' pBytes'. Kit_TruthCountMinterms [0x80000001, 0] 6 (replicate 6 7) (replicate 8 7) = Some (2, pRes', pBytes') \<and>
    pRes' ! 3 = 1 \<and> pRes' ! 5 = 2"
proof -
  have all: "{m. m < 64 \<and> P m} = set (filter P [0 ..< 64])" for P :: "nat \<Rightarrow> bool" by auto
  have "filter (tt_bit [0x80000001, 0]) [0 ..< 64] = [0, 31]" by code_simp
  then have ones: "{m. m < 64 \<and> tt_bit [0x80000001, 0] m} = {0, 31}" unfolding all by simp
  have "{m. m < 2 ^ 6 \<and> \<not> bit m v \<and> tt_bit [0x80000001, 0] m} = {m \<in> {0, 31}. \<not> bit m v}" for v
    using ones by auto
  moreover have "{m \<in> {0, 31}. \<not> bit m 3} = {0 :: nat}" "{m \<in> {0, 31}. \<not> bit m 5} = {0, 31 :: nat}" by auto
  ultimately have counts: "card {m. m < 2 ^ 6 \<and> \<not> bit m 3 \<and> tt_bit [0x80000001, 0] m} = 1"
    "card {m. m < 2 ^ 6 \<and> \<not> bit m 5 \<and> tt_bit [0x80000001, 0] m} = 2"
    by simp_all
  have two: "card {m. m < 2 ^ 6 \<and> tt_bit [0x80000001, 0] m} = 2" using ones by simp
  then have "\<exists>pRes' pBytes'. Kit_TruthCountMinterms [0x80000001, 0] 6 (replicate 6 7) (replicate 8 7) = Some (2, pRes', pBytes') \<and>
      (\<forall>v<6. pRes' ! v = card {m. m < 2 ^ 6 \<and> \<not> bit m v \<and> tt_bit [0x80000001, 0] m})"
    using Kit_TruthCountMinterms_correct [THEN conjunct1, rule_format, of 6 "replicate 6 7" "replicate 8 7" "[0x80000001, 0]"]
    unfolding two by (simp add: Kit_TruthWordNum_def)
  then obtain pRes' pBytes' where res:
    "Kit_TruthCountMinterms [0x80000001, 0] 6 (replicate 6 7) (replicate 8 7) = Some (2, pRes', pBytes')"
    "\<And>v. v < 6 \<Longrightarrow> pRes' ! v = card {m. m < 2 ^ 6 \<and> \<not> bit m v \<and> tt_bit [0x80000001, 0] m}"
    by blast
  then show ?thesis using res(1) res(2) [of 3] res(2) [of 5] unfolding counts by auto
qed

end
