(* ===== verification/Kit_Canon.thy ===== *)
theory Kit_Canon
  imports Kit_Count
begin

text \<open>
  The searches of \<open>kitTruth.c\<close> built on cofactors and counts: the best variable for cofactoring, the
  smallest overlap of the supports of the cofactors, and the semi-canonical form of a function under
  negation and permutation (\<open>Kit_TruthSemiCanonicize\<close>). The exchange loop of the last one is the
  bubble sort of the prelude, interpreted on the state of the routine.
\<close>

unbundle bit_operations_syntax

section \<open>Choosing a variable\<close>

definition KIT_INFINITY :: nat where
  "KIT_INFINITY = 100000000"

text \<open>One round of the search of \<open>Kit_TruthBestCofVar\<close>, on \<open>(pCof0, pCof1, iBestVar, nSuppSizeMin)\<close>.\<close>

definition best_cof_step ::
    "u32 list \<Rightarrow> nat \<Rightarrow> nat \<Rightarrow> u32 list \<times> u32 list \<times> int \<times> nat \<Rightarrow> u32 list \<times> u32 list \<times> int \<times> nat" where
  "best_cof_step pTruth nVars i = (\<lambda>(pCof0, pCof1, iBestVar, nSuppSizeMin).
     let pCof0 = Kit_TruthCofactor0New pCof0 pTruth nVars i;
         pCof1 = Kit_TruthCofactor1New pCof1 pTruth nVars i;
         nSuppSizeCur0 = Kit_TruthSupportSize pCof0 nVars;
         nSuppSizeCur1 = Kit_TruthSupportSize pCof1 nVars;
         nSuppSizeCur = nSuppSizeCur0 + nSuppSizeCur1
     in if nSuppSizeMin > nSuppSizeCur then (pCof0, pCof1, int i, nSuppSizeCur)
        else (pCof0, pCof1, iBestVar, nSuppSizeMin))"

definition Kit_TruthBestCofVar ::
    "u32 list \<Rightarrow> nat \<Rightarrow> u32 list \<Rightarrow> u32 list \<Rightarrow> int \<times> u32 list \<times> u32 list" where
  "Kit_TruthBestCofVar pTruth nVars pCof0 pCof1 =
    (if Kit_TruthIsConst0 pTruth nVars \<or> Kit_TruthIsConst1 pTruth nVars then (- 1, pCof0, pCof1)
     else let (pCof0, pCof1, iBestVar, _) =
            fold (best_cof_step pTruth nVars) [0 ..< nVars] (pCof0, pCof1, - 1, KIT_INFINITY)
          in (iBestVar, Kit_TruthCofactor0New pCof0 pTruth nVars (nat iBestVar),
              Kit_TruthCofactor1New pCof1 pTruth nVars (nat iBestVar)))"

text \<open>
  \<open>Kit_TruthMinCofSuppOverlap\<close> leaves its loop as soon as the overlap is empty. \<open>uCofactor\<close> is the
  static array of the code; the state is \<open>(uCofactor, ValueMin, VarMin)\<close>.
\<close>

fun min_overlap_loop ::
    "u32 list \<Rightarrow> nat \<Rightarrow> nat list \<Rightarrow> u32 list \<times> nat \<times> int \<Rightarrow> u32 list \<times> nat \<times> int" where
  "min_overlap_loop pTruth nVars [] st = st"
| "min_overlap_loop pTruth nVars (i # is) (uCofactor, ValueMin, VarMin) =
    (let uCofactor = Kit_TruthCofactor0 (Kit_TruthCopy uCofactor pTruth nVars) nVars i;
         uSupp0 = Kit_TruthSupport uCofactor nVars;
         nVars0 = Kit_WordCountOnes uSupp0;
         uCofactor = Kit_TruthCofactor1 (Kit_TruthCopy uCofactor pTruth nVars) nVars i;
         uSupp1 = Kit_TruthSupport uCofactor nVars;
         nVars1 = Kit_WordCountOnes uSupp1;
         ValueCur = Kit_WordCountOnes (uSupp0 AND uSupp1);
         (ValueMin, VarMin) = (if ValueMin > ValueCur \<and> nVars0 \<le> 5 \<and> nVars1 \<le> 5
           then (ValueCur, int i) else (ValueMin, VarMin))
     in if ValueMin = 0 then (uCofactor, ValueMin, VarMin)
        else min_overlap_loop pTruth nVars is (uCofactor, ValueMin, VarMin))"

definition Kit_TruthMinCofSuppOverlap :: "u32 list \<Rightarrow> nat \<Rightarrow> nat \<times> int" where
  "Kit_TruthMinCofSuppOverlap pTruth nVars =
    snd (min_overlap_loop pTruth nVars [0 ..< nVars] (replicate 16 0, 32, - 1))"

text \<open>The sum of the support sizes of the two cofactors.\<close>

definition cof_supports :: "u32 list \<Rightarrow> nat \<Rightarrow> nat \<Rightarrow> nat" where
  "cof_supports p n i =
    card {u. u < n \<and> (\<exists>m<tt_size n. tt_bit p (unset_bit i (unset_bit u m)) \<noteq> tt_bit p (unset_bit i (set_bit u m)))} +
    card {u. u < n \<and> (\<exists>m<tt_size n. tt_bit p (set_bit i (unset_bit u m)) \<noteq> tt_bit p (set_bit i (set_bit u m)))}"

lemma cof_supports_eq:
  assumes "tt_ok n c0" "tt_ok n c1" "i < n"
  shows "Kit_TruthSupportSize (Kit_TruthCofactor0New c0 p n i) n +
    Kit_TruthSupportSize (Kit_TruthCofactor1New c1 p n i) n = cof_supports p n i"
proof -
  have lt: "m < tt_size n \<Longrightarrow> u < n \<Longrightarrow> set_bit u m < tt_size n" for u m
    by (simp add: set_bit_less_tt_size)
  have "Kit_TruthVarInSupport (Kit_TruthCofactor0New c0 p n i) n u \<longleftrightarrow>
      (\<exists>m<tt_size n. tt_bit p (unset_bit i (unset_bit u m)) \<noteq> tt_bit p (unset_bit i (set_bit u m)))"
    "Kit_TruthVarInSupport (Kit_TruthCofactor1New c1 p n i) n u \<longleftrightarrow>
      (\<exists>m<tt_size n. tt_bit p (set_bit i (unset_bit u m)) \<noteq> tt_bit p (set_bit i (set_bit u m)))"
    if "u < n" for u
    using assms that lt
    by (auto simp: Kit_TruthVarInSupport_flip Kit_TruthCofactor0New_bit Kit_TruthCofactor1New_bit
        unset_bit_less_tt_size)
  then show ?thesis
    unfolding Kit_TruthSupportSize_eq cof_supports_def
    by (intro arg_cong2 [where f = "(+)"] arg_cong [where f = card]) auto
qed

lemma cof_supports_le: "cof_supports p n i \<le> 2 * n"
proof -
  have "card {u. u < n \<and> P u} \<le> n" for P
    using card_mono [of "{..<n}" "{u. u < n \<and> P u}"] by auto
  from add_mono [OF this this] show ?thesis unfolding cof_supports_def mult_2 .
qed

lemma best_cof_fold:
  assumes "tt_ok n c0" "tt_ok n c1" "k \<le> n" "2 * n < KIT_INFINITY"
  shows "case fold (best_cof_step p n) [0 ..< k] (c0, c1, - 1, KIT_INFINITY) of (c0', c1', b, mn) \<Rightarrow>
    tt_ok n c0' \<and> tt_ok n c1' \<and>
    (if k = 0 then b = - 1 \<and> mn = KIT_INFINITY
     else \<exists>i<k. b = int i \<and> mn = cof_supports p n i \<and> (\<forall>j<k. cof_supports p n i \<le> cof_supports p n j))"
  using assms(3)
proof (induction k)
  case (Suc k)
  obtain c0' c1' b mn where st: "fold (best_cof_step p n) [0 ..< k] (c0, c1, - 1, KIT_INFINITY) = (c0', c1', b, mn)"
    by (metis prod_cases4)
  have IH: "tt_ok n c0'" "tt_ok n c1'"
    "if k = 0 then b = - 1 \<and> mn = KIT_INFINITY
     else \<exists>i<k. b = int i \<and> mn = cof_supports p n i \<and> (\<forall>j<k. cof_supports p n i \<le> cof_supports p n j)"
    using Suc st by auto
  have "fold (best_cof_step p n) [0 ..< Suc k] (c0, c1, - 1, KIT_INFINITY) = best_cof_step p n k (c0', c1', b, mn)"
    using st by simp
  also have "\<dots> = (let c0 = Kit_TruthCofactor0New c0' p n k; c1 = Kit_TruthCofactor1New c1' p n k in
      if mn > cof_supports p n k then (c0, c1, int k, cof_supports p n k) else (c0, c1, b, mn))"
    using cof_supports_eq [OF IH(1,2), of k p] Suc.prems by (simp add: best_cof_step_def Let_def)
  finally have step: "fold (best_cof_step p n) [0 ..< Suc k] (c0, c1, - 1, KIT_INFINITY) = \<dots>" .
  have ok: "tt_ok n (Kit_TruthCofactor0New c0' p n k)" "tt_ok n (Kit_TruthCofactor1New c1' p n k)"
    using IH(1,2) by (simp_all add: tt_ok_def)
  show ?case
  proof (cases "mn > cof_supports p n k")
    case True
    then have "\<forall>j<Suc k. cof_supports p n k \<le> cof_supports p n j"
      using IH(3) by (cases "k = 0") (force simp: less_Suc_eq)+
    then show ?thesis using ok True unfolding step by (auto simp: Let_def)
  next
    case False
    have "k \<noteq> 0" using False IH(3) cof_supports_le [of p n k] assms(4) by (cases "k = 0") auto
    with IH(3) obtain i where "i < k" "b = int i" "mn = cof_supports p n i"
      "\<forall>j<k. cof_supports p n i \<le> cof_supports p n j" by auto
    then show ?thesis using ok False unfolding step
      by (auto simp: Let_def less_Suc_eq intro!: exI [of _ i])
  qed
qed (use assms in simp)

section \<open>Semi-canonical form\<close>

text \<open>
  The locals of \<open>Kit_TruthSemiCanonicize\<close>: the two tables and the number of exchanges, the
  permutation, the counts of the cofactors, and the phase.
\<close>

record canon_state =
  tables :: swap_state
  canon_perm :: "nat list"
  store :: "nat list"
  canon_phase :: u32

definition canon_phase_step :: "nat \<Rightarrow> nat \<Rightarrow> u32 list \<times> nat list \<times> u32 \<Rightarrow> u32 list \<times> nat list \<times> u32" where
  "canon_phase_step nVars i = (\<lambda>(pIn, pStore, uCanonPhase).
     if pStore ! (2*i+0) \<ge> pStore ! (2*i+1) then (pIn, pStore, uCanonPhase)
     else (Kit_TruthChangePhase pIn nVars i,
           pStore[2*i+0 := pStore ! (2*i+1), 2*i+1 := pStore ! (2*i+0)],
           uCanonPhase OR push_bit i 1))"

definition canon_swap :: "nat \<Rightarrow> nat \<Rightarrow> canon_state \<Rightarrow> canon_state" where
  "canon_swap nVars i s =
    (let pCanonPerm = canon_perm s; pStore = store s; uCanonPhase = canon_phase s in
     s \<lparr> tables := swap_step nVars i (tables s),
        canon_perm := pCanonPerm[i := pCanonPerm ! (i+1), i+1 := pCanonPerm ! i],
        store := pStore[2*i := pStore ! (2*(i+1)), 2*(i+1) := pStore ! (2*i),
                        2*i+1 := pStore ! (2*(i+1)+1), 2*(i+1)+1 := pStore ! (2*i+1)],
        canon_phase := (if (uCanonPhase AND push_bit i 1 > 0) \<noteq> (uCanonPhase AND push_bit (i+1) 1 > 0)
          then (uCanonPhase XOR push_bit i 1) XOR push_bit (i+1) 1 else uCanonPhase) \<rparr>)"

definition canon_ordered :: "nat \<Rightarrow> canon_state \<Rightarrow> bool" where
  "canon_ordered i s \<longleftrightarrow> store s ! (2*i) \<ge> store s ! (2*(i+1))"

text \<open>The result is the phase and the final contents of \<open>pInOut\<close>, \<open>pAux\<close> and \<open>pCanonPerm\<close>.\<close>

definition Kit_TruthSemiCanonicize ::
    "u32 list \<Rightarrow> u32 list \<Rightarrow> nat \<Rightarrow> nat list \<Rightarrow> (u32 \<times> u32 list \<times> u32 list \<times> nat list) option" where
  "Kit_TruthSemiCanonicize pInOut pAux nVars pCanonPerm =
    (let nWords = Kit_TruthWordNum nVars;
         pCanonPerm = fold (\<lambda>i t. t[i := i]) [0 ..< nVars] pCanonPerm;
         nOnes = Kit_TruthCountOnes pInOut nVars;
         (pIn, uCanonPhase) = (if nOnes > nWords * 16
           then (Kit_TruthNot pInOut pInOut nVars, 0 OR push_bit nVars 1) else (pInOut, 0));
         pStore = Kit_TruthCountOnesInCofs pIn nVars (replicate 32 0);
         (pIn, pStore, uCanonPhase) =
           fold (canon_phase_step nVars) [0 ..< nVars] (pIn, pStore, uCanonPhase)
     in map_option (\<lambda>s. let (pAux', pInOut') = finish_swaps nVars True (tables s)
                        in (canon_phase s, pInOut', pAux', canon_perm s))
          (bubble_loop canon_ordered (canon_swap nVars) nVars \<lparr> tables = (pAux, pIn, 0), canon_perm = pCanonPerm,
             store = pStore, canon_phase = uCanonPhase \<rparr>))"
subsection \<open>Counts under a change of phase and an exchange\<close>

lemma cof_count_bij:
  assumes "\<And>m. m < tt_size n \<Longrightarrow> \<pi> m < tt_size n \<and> \<pi> (\<pi> m) = m \<and> tt_bit q m = tt_bit p (\<pi> m) \<and>
      bit m u = (bit (\<pi> m) u' \<noteq> d)"
  shows "cof_count q n u c = cof_count p n u' (c \<noteq> d)"
proof -
  let ?A = "{m. m < tt_size n \<and> bit m u = c \<and> tt_bit q m}"
  let ?B = "{m. m < tt_size n \<and> bit m u' = (c \<noteq> d) \<and> tt_bit p m}"
  have A: "\<pi> a \<in> ?B \<and> \<pi> (\<pi> a) = a" if "a \<in> ?A" for a
    using assms [of a] that by auto
  have B: "\<pi> b \<in> ?A \<and> \<pi> (\<pi> b) = b" if "b \<in> ?B" for b
    using assms [of b] assms [of "\<pi> b"] that by auto
  have "bij_betw \<pi> ?A ?B"
    by (rule bij_betw_byWitness [where f' = \<pi>]) (use A B in blast)+
  then show ?thesis
    unfolding cof_count_def count_minterms_def by (rule bij_betw_same_card)
qed

lemma flip_bit_less_tt_size: "v < n \<Longrightarrow> m < tt_size n \<Longrightarrow> flip_bit v m < tt_size n"
  by (simp add: flip_bit_eq_if set_bit_less_tt_size unset_bit_less_tt_size)

lemma Kit_TruthChangePhase_flip:
  assumes "tt_ok n p" "v < n" "m < tt_size n"
  shows "tt_bit (Kit_TruthChangePhase p n v) m = tt_bit p (flip_bit v m)"
  using assms by (simp add: Kit_TruthChangePhase_bit flip_bit_eq_if)

lemma cof_count_ChangePhase:
  assumes "tt_ok n p" "v < n"
  shows "cof_count (Kit_TruthChangePhase p n v) n u c = cof_count p n u (c \<noteq> (u = v))"
proof (rule cof_count_bij [where \<pi> = "flip_bit v"])
  fix m assume m: "m < tt_size n"
  have "flip_bit v (flip_bit v m) = m" by (rule bit_eqI) (simp add: bit_flip_bit_iff; blast)
  then show "flip_bit v m < tt_size n \<and> flip_bit v (flip_bit v m) = m \<and>
      tt_bit (Kit_TruthChangePhase p n v) m = tt_bit p (flip_bit v m) \<and>
      bit m u = (bit (flip_bit v m) u \<noteq> (u = v))"
    using assms m by (auto simp: Kit_TruthChangePhase_flip flip_bit_less_tt_size bit_flip_bit_iff)
qed

definition adj :: "nat \<Rightarrow> nat \<Rightarrow> nat" where
  "adj i u = (if u = i then i + 1 else if u = i + 1 then i else u)"

lemma cof_count_swap:
  assumes "tt_ok n pOut" "i + 1 < n"
  shows "cof_count (Kit_TruthSwapAdjacentVars pOut p n i) n u c = cof_count p n (adj i u) c"
proof -
  have "cof_count (Kit_TruthSwapAdjacentVars pOut p n i) n u c = cof_count p n (adj i u) (c \<noteq> False)"
  proof (rule cof_count_bij [where \<pi> = "swap_vars i (i + 1)"])
    fix m assume m: "m < tt_size n"
    have "swap_vars i (i + 1) (swap_vars i (i + 1) m) = m"
      by (rule bit_eqI) (auto simp: bit_swap_vars)
    then show "swap_vars i (i + 1) m < tt_size n \<and> swap_vars i (i + 1) (swap_vars i (i + 1) m) = m \<and>
        tt_bit (Kit_TruthSwapAdjacentVars pOut p n i) m = tt_bit p (swap_vars i (i + 1) m) \<and>
        bit m u = (bit (swap_vars i (i + 1) m) (adj i u) \<noteq> False)"
      using assms m swap_vars_less [OF m, of i "i + 1"]
      by (auto simp: Kit_TruthSwapAdjacentVars_bit bit_swap_vars adj_def)
  qed
  then show ?thesis by simp
qed

lemma cof_count_cong:
  "(\<And>m. m < tt_size n \<Longrightarrow> tt_bit p m = tt_bit q m) \<Longrightarrow> cof_count p n v c = cof_count q n v c"
  unfolding cof_count_def by (rule count_minterms_cong) auto

lemma count_cof_sum:
  "count_minterms n (tt_bit p) = cof_count p n v False + cof_count p n v True"
proof -
  let ?A = "\<lambda>c. {m. m < tt_size n \<and> bit m v = c \<and> tt_bit p m}"
  have "{m. m < tt_size n \<and> tt_bit p m} = ?A False \<union> ?A True" by auto
  moreover have "card (?A False \<union> ?A True) = card (?A False) + card (?A True)"
    by (rule card_Un_disjoint) auto
  ultimately show ?thesis by (simp only: cof_count_def count_minterms_def)
qed

subsection \<open>The invariant\<close>

text \<open>
  \<open>g\<close> is an NPN transform of \<open>f\<close>: position \<open>i\<close> of \<open>g\<close> holds variable \<open>perm[i]\<close> of \<open>f\<close>, complemented
  when bit \<open>i\<close> of the phase is set, and bit \<open>n\<close> of the phase complements the output.
\<close>

definition npn :: "nat \<Rightarrow> u32 list \<Rightarrow> nat list \<Rightarrow> u32 \<Rightarrow> u32 list \<Rightarrow> bool" where
  "npn n f perm phase g \<longleftrightarrow> length perm = n \<and> mset perm = mset [0 ..< n] \<and>
    (\<forall>m<tt_size n. \<exists>m'<tt_size n. (\<forall>i<n. bit m' (perm ! i) = (bit m i \<noteq> bit phase i)) \<and>
      (\<forall>j\<ge>n. bit m' j = bit m j) \<and> (tt_bit g m = (tt_bit f m' \<noteq> bit phase n)))"

lemma npnD:
  "npn n f perm phase g \<Longrightarrow> m < tt_size n \<Longrightarrow> \<exists>m'<tt_size n.
    (\<forall>i<n. bit m' (perm ! i) = (bit m i \<noteq> bit phase i)) \<and>
    (\<forall>j\<ge>n. bit m' j = bit m j) \<and> (tt_bit g m = (tt_bit f m' \<noteq> bit phase n))"
  by (simp add: npn_def)

definition counts_ok :: "nat \<Rightarrow> u32 list \<Rightarrow> nat list \<Rightarrow> bool" where
  "counts_ok n g s \<longleftrightarrow> 2 * n \<le> length s \<and>
    (\<forall>v<n. s ! (2 * v) = cof_count g n v False \<and> s ! (2 * v + 1) = cof_count g n v True)"

definition ones_first :: "nat \<Rightarrow> nat list \<Rightarrow> nat \<Rightarrow> bool" where
  "ones_first n s k \<longleftrightarrow> (\<forall>v<k. s ! (2 * v) \<ge> s ! (2 * v + 1))"

definition canon_inv :: "nat \<Rightarrow> u32 list \<Rightarrow> canon_state \<Rightarrow> bool" where
  "canon_inv n f s \<longleftrightarrow> tt_ok n (fst (tables s)) \<and> tt_ok n (fst (snd (tables s))) \<and>
    npn n f (canon_perm s) (canon_phase s) (fst (snd (tables s))) \<and>
    counts_ok n (fst (snd (tables s))) (store s) \<and> ones_first n (store s) n \<and>
    Kit_TruthCountOnes (fst (snd (tables s))) n \<le> 16 * Kit_TruthWordNum n"

lemma u32_and_push_iff: "v < 32 \<Longrightarrow> ((w :: u32) AND push_bit v 1 > 0) \<longleftrightarrow> bit w v"
  using mask_and_push_iff [of v w] unfolding word_gt_0 by metis

lemma bit_push_one: "v < 32 \<Longrightarrow> bit (push_bit v 1 :: u32) j \<longleftrightarrow> j = v"
  by (auto simp: bit_exp_iff)

lemma phase_step:
  assumes "tt_ok n p" "npn n f perm ph p" "counts_ok n p s" "i < n" "n < 32" "ones_first n s i"
    and clear: "\<not> bit ph i"
  shows "case canon_phase_step n i (p, s, ph) of (p', s', ph') \<Rightarrow>
    tt_ok n p' \<and> npn n f perm ph' p' \<and> counts_ok n p' s' \<and> ones_first n s' (Suc i) \<and>
    Kit_TruthCountOnes p' n = Kit_TruthCountOnes p n \<and> (\<forall>v. v \<noteq> i \<longrightarrow> bit ph' v = bit ph v)"
proof (cases "s ! (2*i+0) \<ge> s ! (2*i+1)")
  case True
  then show ?thesis using assms by (auto simp: canon_phase_step_def ones_first_def less_Suc_eq)
next
  case False
  let ?p = "Kit_TruthChangePhase p n i" and ?ph = "ph OR push_bit i 1"
  have i: "i < 32" using assms(4,5) by simp
  have ph: "bit ?ph v \<longleftrightarrow> v = i \<or> bit ph v" for v
    using bit_push_one [OF i, of v] unfolding bit_or_iff by blast
  have npn: "npn n f perm ?ph ?p"
    unfolding npn_def
  proof (intro conjI allI impI)
    fix m assume m: "m < tt_size n"
    obtain m' where m': "m' < tt_size n" "\<forall>j<n. bit m' (perm ! j) = (bit (flip_bit i m) j \<noteq> bit ph j)"
      "\<forall>j\<ge>n. bit m' j = bit (flip_bit i m) j" "tt_bit p (flip_bit i m) = (tt_bit f m' \<noteq> bit ph n)"
      using npnD [OF assms(2) flip_bit_less_tt_size [OF assms(4) m]] by (elim exE conjE) (rule that)
    have "\<forall>j<n. bit m' (perm ! j) = (bit m j \<noteq> bit ?ph j)"
      using m'(2) clear unfolding ph by (auto simp: bit_flip_bit_iff)
    moreover have "\<forall>j\<ge>n. bit m' j = bit m j"
      using m'(3) assms(4) by (auto simp: bit_flip_bit_iff)
    moreover have "tt_bit ?p m = (tt_bit f m' \<noteq> bit ?ph n)"
      using m'(4) assms(1,4) m unfolding ph by (simp add: Kit_TruthChangePhase_flip)
    ultimately show "\<exists>m'<tt_size n. (\<forall>j<n. bit m' (perm ! j) = (bit m j \<noteq> bit ?ph j)) \<and>
        (\<forall>j\<ge>n. bit m' j = bit m j) \<and> (tt_bit ?p m = (tt_bit f m' \<noteq> bit ?ph n))"
      using m'(1) by blast
  qed (use assms(2) in \<open>simp_all add: npn_def\<close>)
  have ok: "tt_ok n ?p" using assms(1) by (simp add: tt_ok_def)
  have ne: "2 * v \<noteq> Suc (2 * i)" "Suc (2 * v) \<noteq> 2 * i" for v by arith+
  have counts: "counts_ok n ?p (s[2*i := s ! (2*i+1), 2*i+1 := s ! (2*i)])"
    using assms(3,4) ne unfolding counts_ok_def
    by (auto simp: nth_list_update cof_count_ChangePhase [OF assms(1,4)])
  have "ones_first n (s[2*i := s ! (2*i+1), 2*i+1 := s ! (2*i)]) (Suc i)"
    using assms(3,4,6) False ne by (auto simp: ones_first_def counts_ok_def less_Suc_eq nth_list_update)
  moreover have "Kit_TruthCountOnes ?p n = Kit_TruthCountOnes p n"
    unfolding Kit_TruthCountOnes_eq count_cof_sum [where v = i]
    by (simp add: cof_count_ChangePhase [OF assms(1,4)])
  ultimately show ?thesis
    using False npn ok counts ph by (simp add: canon_phase_step_def)
qed

lemma canon_swap_inv:
  assumes inv: "canon_inv n f s" and i: "i + 1 < n" and n: "n < 32"
  shows "canon_inv n f (canon_swap n i s)"
proof -
  obtain pOut p cnt where T: "tables s = (pOut, p, cnt)" by (cases "tables s")
  let ?p = "Kit_TruthSwapAdjacentVars pOut p n i"
  let ?perm = "canon_perm s" and ?ph = "canon_phase s" and ?s = "store s"
  let ?perm' = "canon_perm (canon_swap n i s)" and ?ph' = "canon_phase (canon_swap n i s)"
  let ?s' = "store (canon_swap n i s)"
  have ok: "tt_ok n pOut" "tt_ok n p" and npn: "npn n f ?perm ?ph p"
    and cnts: "counts_ok n p ?s" and ones: "ones_first n ?s n"
    and half: "Kit_TruthCountOnes p n \<le> 16 * Kit_TruthWordNum n"
    using inv by (simp_all add: canon_inv_def T)
  have len: "length ?perm = n" "mset ?perm = mset [0..<n]" using npn by (simp_all add: npn_def)
  have T': "tables (canon_swap n i s) = (p, ?p, cnt + 1)"
    by (simp add: canon_swap_def Let_def swap_step_def T)
  have perm': "?perm' = ?perm[i := ?perm ! (i+1), i+1 := ?perm ! i]"
    by (simp add: canon_swap_def Let_def)
  have ph': "bit ?ph' v = bit ?ph (adj i v)" for v
  proof -
    have x: "bit ((?ph XOR push_bit i 1) XOR push_bit (i + 1) 1) v \<longleftrightarrow>
        (bit ?ph v \<noteq> (v = i)) \<noteq> (v = i + 1)"
      using bit_push_one [of i v] bit_push_one [of "i + 1" v] i n unfolding bit_xor_iff by simp
    have "?ph' = (if bit ?ph i \<noteq> bit ?ph (i + 1) then (?ph XOR push_bit i 1) XOR push_bit (i + 1) 1 else ?ph)"
      using u32_and_push_iff [of i ?ph] u32_and_push_iff [of "i + 1" ?ph] i n
      unfolding canon_swap_def Let_def by (simp del: push_bit_of_1)
    then have "bit ?ph' v \<longleftrightarrow> (if bit ?ph i \<noteq> bit ?ph (i + 1) then (bit ?ph v \<noteq> (v = i)) \<noteq> (v = i + 1) else bit ?ph v)"
      using x by (simp del: push_bit_of_1)
    then show ?thesis by (auto simp: adj_def)
  qed
  have npn': "npn n f ?perm' ?ph' ?p"
    unfolding npn_def
  proof (intro conjI allI impI)
    show "length ?perm' = n" using len by (simp add: perm')
    show "mset ?perm' = mset [0..<n]"
      unfolding perm' using len i by (subst mset_swap) simp_all
    fix m assume m: "m < tt_size n"
    let ?m = "swap_vars i (i + 1) m"
    have "?m < tt_size n" using m i by (simp add: swap_vars_less)
    from npnD [OF npn this] obtain m' where m': "m' < tt_size n" "\<forall>j<n. bit m' (?perm ! j) = (bit ?m j \<noteq> bit ?ph j)"
      "\<forall>j\<ge>n. bit m' j = bit ?m j" "tt_bit p ?m = (tt_bit f m' \<noteq> bit ?ph n)"
      by (elim exE conjE) (rule that)
    have "bit m' (?perm' ! j) = (bit m j \<noteq> bit ?ph' j)" if "j < n" for j
    proof -
      have "?perm' ! j = ?perm ! adj i j" "adj i j < n"
        using that i len by (auto simp: perm' adj_def nth_list_update)
      moreover have "bit ?m (adj i j) = bit m j" by (auto simp: bit_swap_vars adj_def)
      ultimately show ?thesis using m'(2) unfolding ph' by simp
    qed
    moreover have "\<forall>j\<ge>n. bit m' j = bit m j" using m'(3) i by (auto simp: bit_swap_vars)
    moreover have "tt_bit ?p m = (tt_bit f m' \<noteq> bit ?ph' n)"
      using m'(4) ok i m unfolding ph' by (simp add: Kit_TruthSwapAdjacentVars_bit adj_def)
    ultimately show "\<exists>m'<tt_size n. (\<forall>j<n. bit m' (?perm' ! j) = (bit m j \<noteq> bit ?ph' j)) \<and>
        (\<forall>j\<ge>n. bit m' j = bit m j) \<and> (tt_bit ?p m = (tt_bit f m' \<noteq> bit ?ph' n))"
      using m'(1) by blast
  qed
  have s': "?s' ! (2 * v) = ?s ! (2 * adj i v)" "?s' ! (2 * v + 1) = ?s ! (2 * adj i v + 1)" if "v < n" for v
  proof -
    have "2 * n \<le> length ?s" using cnts by (simp add: counts_ok_def)
    moreover have "2 * v \<noteq> Suc (2 * i)" "Suc (2 * v) \<noteq> 2 * i" "2 * v \<noteq> Suc (2 * (i + 1))" "Suc (2 * v) \<noteq> 2 * (i + 1)"
      by arith+
    ultimately show "?s' ! (2 * v) = ?s ! (2 * adj i v)" "?s' ! (2 * v + 1) = ?s ! (2 * adj i v + 1)"
      using that i by (auto simp: canon_swap_def Let_def adj_def nth_list_update)
  qed
  have adj: "adj i v < n" if "v < n" for v using that i by (auto simp: adj_def)
  have "counts_ok n ?p ?s'"
    unfolding counts_ok_def cof_count_swap [OF ok(1) i]
  proof (intro conjI allI impI)
    show "2 * n \<le> length ?s'" using cnts by (simp add: counts_ok_def canon_swap_def Let_def)
  qed (use cnts adj s' in \<open>auto simp: counts_ok_def\<close>)
  moreover have "ones_first n ?s' n"
    using ones adj s' by (simp add: ones_first_def)
  moreover have "Kit_TruthCountOnes ?p n = Kit_TruthCountOnes p n"
    unfolding Kit_TruthCountOnes_eq count_cof_sum [of n ?p i] cof_count_swap [OF ok(1) i]
      count_cof_sum [of n p "adj i i"] ..
  moreover have "tt_ok n ?p" using ok i by (simp add: tt_ok_def)
  ultimately show ?thesis
    using ok npn' half unfolding canon_inv_def T' by simp
qed
subsection \<open>The loops\<close>

definition canon_weight :: "nat \<Rightarrow> canon_state \<Rightarrow> nat" where
  "canon_weight n s = (\<Sum>v<n. v * store s ! (2 * v))"

lemma canon_swap_store:
  assumes "2 * n \<le> length (store s)" "i + 1 < n" "v < n"
  shows "store (canon_swap n i s) ! (2 * v) = store s ! (2 * adj i v)"
proof -
  have "2 * v \<noteq> Suc (2 * i)" "2 * v \<noteq> Suc (2 * (i + 1))" by arith+
  then show ?thesis using assms by (auto simp: canon_swap_def Let_def adj_def nth_list_update)
qed

lemma canon_swap_weight:
  assumes "2 * n \<le> length (store s)" "i + 1 < n" "\<not> canon_ordered i s"
  shows "canon_weight n (canon_swap n i s) < canon_weight n s"
proof -
  let ?f = "\<lambda>v. store s ! (2 * v)"
  have "(\<Sum>v<n. v * f v) = i * f i + (i + 1) * f (i + 1) + (\<Sum>v\<in>{..<n} - {i} - {i + 1}. v * f v)"
    for f :: "nat \<Rightarrow> nat"
    using assms(2) by (simp add: sum.remove [of _ i] sum.remove [of "{..<n} - {i}" "i + 1"])
  note split = this
  have "canon_weight n (canon_swap n i s) = (\<Sum>v<n. v * ?f (adj i v))"
    unfolding canon_weight_def by (rule sum.cong) (use assms canon_swap_store in auto)
  also have "\<dots> = i * ?f (i + 1) + (i + 1) * ?f i + (\<Sum>v\<in>{..<n} - {i} - {i + 1}. v * ?f (adj i v))"
    unfolding split [of "\<lambda>v. ?f (adj i v)"] by (simp add: adj_def)
  also have "(\<Sum>v\<in>{..<n} - {i} - {i + 1}. v * ?f (adj i v)) = (\<Sum>v\<in>{..<n} - {i} - {i + 1}. v * ?f v)"
    by (rule sum.cong) (auto simp: adj_def)
  finally show ?thesis
    using assms(3) unfolding canon_weight_def split [of ?f] by (simp add: canon_ordered_def algebra_simps)
qed

interpretation canon: bubble_sort canon_ordered "canon_swap n" n
    "\<lambda>s. n < 32 \<and> canon_inv n f s" "canon_weight n" for n f
proof unfold_locales
  fix s i assume s: "n < 32 \<and> canon_inv n f s" "i + 1 < n" "\<not> canon_ordered i s"
  then show "n < 32 \<and> canon_inv n f (canon_swap n i s)" using canon_swap_inv by blast
  show "canon_weight n (canon_swap n i s) < canon_weight n s"
    using s by (intro canon_swap_weight) (auto simp: canon_inv_def counts_ok_def)
qed

lemma phase_loop:
  assumes "tt_ok n p" "npn n f perm ph p" "counts_ok n p s" "n < 32" "\<forall>i<n. \<not> bit ph i" "k \<le> n"
  shows "case fold (canon_phase_step n) [0 ..< k] (p, s, ph) of (p', s', ph') \<Rightarrow>
    tt_ok n p' \<and> npn n f perm ph' p' \<and> counts_ok n p' s' \<and> ones_first n s' k \<and>
    Kit_TruthCountOnes p' n = Kit_TruthCountOnes p n \<and> (\<forall>i<n. k \<le> i \<longrightarrow> \<not> bit ph' i)"
  using assms(6)
proof (induction k)
  case 0
  then show ?case using assms by (simp add: ones_first_def)
next
  case (Suc k)
  obtain p' s' ph' where st: "fold (canon_phase_step n) [0 ..< k] (p, s, ph) = (p', s', ph')"
    by (metis prod_cases3)
  have IH: "tt_ok n p'" "npn n f perm ph' p'" "counts_ok n p' s'" "ones_first n s' k"
    "Kit_TruthCountOnes p' n = Kit_TruthCountOnes p n" "\<forall>i<n. k \<le> i \<longrightarrow> \<not> bit ph' i"
    using Suc st by auto
  have k: "k < n" "\<not> bit ph' k" using Suc.prems IH(6) by auto
  have step: "fold (canon_phase_step n) [0 ..< Suc k] (p, s, ph) = canon_phase_step n k (p', s', ph')"
    using st by simp
  show ?case
    using phase_step [OF IH(1-3) k(1) assms(4) IH(4) k(2)] IH(5,6) unfolding step
    by (auto split: prod.splits)
qed

text \<open>The output phase.\<close>

lemma npn_output:
  assumes "tt_ok n f" "n < 32"
  shows "npn n f [0 ..< n] 0 f" and "npn n f [0 ..< n] (push_bit n 1) (Kit_TruthNot f f n)"
proof -
  have "bit (0 :: u32) j = False" for j by simp
  then show "npn n f [0 ..< n] 0 f" unfolding npn_def by auto
  have "bit (push_bit n 1 :: u32) j \<longleftrightarrow> j = n" for j using bit_push_one [OF assms(2)] .
  then show "npn n f [0 ..< n] (push_bit n 1) (Kit_TruthNot f f n)"
    using assms unfolding npn_def by (auto simp: Kit_TruthNot_bit simp del: push_bit_of_1)
qed

lemma count_ones_not:
  assumes "tt_ok n f"
  shows "Kit_TruthCountOnes (Kit_TruthNot f f n) n = tt_size n - Kit_TruthCountOnes f n"
proof -
  have "{m. m < tt_size n \<and> tt_bit (Kit_TruthNot f f n) m} = {..<tt_size n} - {m. m < tt_size n \<and> tt_bit f m}"
    using assms by (auto simp: Kit_TruthNot_bit)
  moreover have "card ({..<tt_size n} - {m. m < tt_size n \<and> tt_bit f m}) =
      tt_size n - card {m. m < tt_size n \<and> tt_bit f m}"
    by (subst card_Diff_subset) auto
  ultimately show ?thesis by (simp add: Kit_TruthCountOnes_eq count_minterms_def)
qed

lemma init_perm: "length t = n \<Longrightarrow> fold (\<lambda>i t. t[i := i]) [0 ..< n] t = [0 ..< n]"
  using fold_const_update [where g = "\<lambda>i. i" and ds = "[0 ..< n]" and t = t]
  by (intro nth_equalityI) auto

lemma length_CountOnesInCofs:
  "length (Kit_TruthCountOnesInCofs p n s) = length s"
proof -
  have len: "length (fold f is t) = length t" if "\<And>i t. length (f i t) = length t" for f :: "nat \<Rightarrow> nat list \<Rightarrow> nat list" and "is" t
    using that by (induction "is" arbitrary: t) auto
  show ?thesis
    unfolding Kit_TruthCountOnesInCofs_def upd_let
    by (auto simp: Let_def nth_upd len)
qed

lemma CountOnesInCofs_ok:
  assumes "2 * n \<le> length s"
  shows "counts_ok n p (Kit_TruthCountOnesInCofs p n s)"
  using assms Kit_TruthCountOnesInCofs_nth [OF assms, of _ p False] Kit_TruthCountOnesInCofs_nth [OF assms, of _ p True]
  by (simp add: counts_ok_def length_CountOnesInCofs)

lemma finish_in:
  assumes "tt_ok n (fst st)" "m < tt_size n"
  shows "tt_bit (snd (finish_swaps n True st)) m = tt_bit (fst (snd st)) m"
  using assms by (cases st) (auto simp: finish_swaps_def Kit_TruthCopy_bit Let_def)

lemma npn_cong:
  "npn n f perm ph g \<Longrightarrow> (\<And>m. m < tt_size n \<Longrightarrow> tt_bit g' m = tt_bit g m) \<Longrightarrow> npn n f perm ph g'"
  unfolding npn_def by simp

lemma Kit_TruthSemiCanonicize_ok:
  assumes "tt_ok n pInOut" "tt_ok n pAux" "n \<le> 16" "length perm = n"
  shows "\<exists>ph g aux perm'. Kit_TruthSemiCanonicize pInOut pAux n perm = Some (ph, g, aux, perm') \<and>
    npn n pInOut perm' ph g \<and> Kit_TruthCountOnes g n \<le> 16 * Kit_TruthWordNum n \<and>
    (\<forall>v<n. cof_count g n v True \<le> cof_count g n v False) \<and>
    (\<forall>v. v + 1 < n \<longrightarrow> cof_count g n (v + 1) False \<le> cof_count g n v False)"
proof -
  let ?N = "Kit_TruthWordNum n"
  define c where "c \<longleftrightarrow> Kit_TruthCountOnes pInOut n > ?N * 16"
  define p0 where "p0 = (if c then Kit_TruthNot pInOut pInOut n else pInOut)"
  define ph0 where "ph0 = (if c then push_bit n 1 else 0 :: u32)"
  define s0 where "s0 = Kit_TruthCountOnesInCofs p0 n (replicate 32 0)"
  obtain p1 s1 ph1 where loop: "fold (canon_phase_step n) [0 ..< n] (p0, s0, ph0) = (p1, s1, ph1)"
    by (metis prod_cases3)
  have n: "n < 32" using assms(3) by simp
  have ok0: "tt_ok n p0" using assms(1) by (simp add: p0_def tt_ok_def)
  have npn0: "npn n pInOut [0 ..< n] ph0 p0"
    using npn_output [OF assms(1) n] by (simp add: p0_def ph0_def)
  have counts0: "counts_ok n p0 s0"
    unfolding s0_def by (rule CountOnesInCofs_ok) (use assms(3) in simp)
  have clear0: "\<forall>i<n. \<not> bit ph0 i"
    using bit_push_one [OF n] by (simp add: ph0_def del: push_bit_of_1)
  have half0: "Kit_TruthCountOnes p0 n \<le> 16 * ?N"
    using assms(1) by (cases c) (simp_all add: p0_def c_def count_ones_not tt_size_def)
  have P: "tt_ok n p1" "npn n pInOut [0 ..< n] ph1 p1" "counts_ok n p1 s1" "ones_first n s1 n"
    "Kit_TruthCountOnes p1 n = Kit_TruthCountOnes p0 n"
    using phase_loop [OF ok0 npn0 counts0 n clear0 order_refl] loop by auto
  define s where "s = \<lparr> tables = (pAux, p1, 0), canon_perm = [0 ..< n], store = s1, canon_phase = ph1 \<rparr>"
  have "n < 32 \<and> canon_inv n pInOut s"
    using n P half0 assms(2) by (simp add: canon_inv_def s_def)
  from canon.ends [OF this] obtain s' where s':
    "bubble_loop canon_ordered (canon_swap n) n s = Some s'" "canon_inv n pInOut s'"
    "\<forall>i. i + 1 < n \<longrightarrow> canon_ordered i s'" by blast
  let ?cur = "fst (snd (tables s'))" and ?g = "snd (finish_swaps n True (tables s'))"
  have run: "Kit_TruthSemiCanonicize pInOut pAux n perm =
      Some (canon_phase s', ?g, fst (finish_swaps n True (tables s')), canon_perm s')"
    using s'(1) loop init_perm [OF assms(4)]
    unfolding Kit_TruthSemiCanonicize_def Let_def c_def [symmetric] s_def
    by (cases c) (simp_all add: p0_def ph0_def s0_def case_prod_unfold del: push_bit_of_1)
  have inv: "tt_ok n (fst (tables s'))" "npn n pInOut (canon_perm s') (canon_phase s') ?cur"
    "counts_ok n ?cur (store s')" "ones_first n (store s') n"
    "Kit_TruthCountOnes ?cur n \<le> 16 * ?N"
    using s'(2) by (simp_all add: canon_inv_def)
  have g: "tt_bit ?g m = tt_bit ?cur m" if "m < tt_size n" for m
    using inv(1) that by (rule finish_in)
  have cof: "cof_count ?g n v b = cof_count ?cur n v b" for v b
    by (rule cof_count_cong) (rule g)
  have "Kit_TruthCountOnes ?g n = Kit_TruthCountOnes ?cur n"
    unfolding Kit_TruthCountOnes_eq by (rule count_minterms_cong) (rule g)
  then have "Kit_TruthCountOnes ?g n \<le> 16 * ?N" using inv(5) by simp
  moreover have "npn n pInOut (canon_perm s') (canon_phase s') ?g"
    using inv(2) g by (rule npn_cong)
  moreover have "\<forall>v<n. cof_count ?g n v True \<le> cof_count ?g n v False"
    using inv(3,4) unfolding cof by (simp add: counts_ok_def ones_first_def)
  moreover have "\<forall>v. v + 1 < n \<longrightarrow> cof_count ?g n (v + 1) False \<le> cof_count ?g n v False"
  proof (intro allI impI)
    fix v assume v: "v + 1 < n"
    have "store s' ! (2 * u) = cof_count ?cur n u False" if "u < n" for u
      using inv(3) that by (simp add: counts_ok_def)
    from this [of v] this [of "v + 1"] show "cof_count ?g n (v + 1) False \<le> cof_count ?g n v False"
      using s'(3) [rule_format, OF v] v unfolding cof canon_ordered_def by simp
  qed
  ultimately show ?thesis unfolding run by blast
qed

section \<open>Properties\<close>

text \<open>
  \<open>Kit_TruthBestCofVar\<close> returns a variable whose two cofactors have the smallest total support,
  and leaves these two cofactors in \<open>pCof0\<close> and \<open>pCof1\<close>.
\<close>

lemma Kit_TruthBestCofVar_correct:
  assumes "tt_ok n c0" "tt_ok n c1" "0 < n" "2 * n < KIT_INFINITY"
    and "\<not> Kit_TruthIsConst0 p n" "\<not> Kit_TruthIsConst1 p n"
  shows "\<exists>i<n. fst (Kit_TruthBestCofVar p n c0 c1) = int i \<and>
    (\<forall>j<n. cof_supports p n i \<le> cof_supports p n j) \<and>
    (\<forall>m<tt_size n.
      tt_bit (fst (snd (Kit_TruthBestCofVar p n c0 c1))) m = tt_bit p (unset_bit i m) \<and>
      tt_bit (snd (snd (Kit_TruthBestCofVar p n c0 c1))) m = tt_bit p (set_bit i m))"
proof -
  obtain c0' c1' b mn where st:
    "fold (best_cof_step p n) [0 ..< n] (c0, c1, - 1, KIT_INFINITY) = (c0', c1', b, mn)"
    by (metis prod_cases4)
  with best_cof_fold [OF assms(1,2) order_refl assms(4), of p] assms(3)
  obtain i where "i < n" "b = int i" "\<forall>j<n. cof_supports p n i \<le> cof_supports p n j"
    "tt_ok n c0'" "tt_ok n c1'" by auto
  then show ?thesis
    using assms(5,6) st
    by (intro exI [of _ i]) (simp add: Kit_TruthBestCofVar_def Kit_TruthCofactor0New_bit Kit_TruthCofactor1New_bit)
qed

lemma Kit_TruthBestCofVar_witness:
  "\<exists>i<3. fst (Kit_TruthBestCofVar [0xE2E2E2E2] 3 [0] [0]) = int i"
  using Kit_TruthBestCofVar_correct [of 3 "[0]" "[0]" "[0xE2E2E2E2]"]
  by (auto simp: tt_ok_def Kit_TruthWordNum_def KIT_INFINITY_def Kit_TruthIsConst0_def Kit_TruthIsConst1_def
      any_words_def)

text \<open>
  C10 \<open>Kit_TruthSemiCanonicize\<close> ends and leaves in \<open>pInOut\<close> an NPN transform of the function, the one
  given by the permutation and the phase it returns. At most half of the values of the result are 1,
  every variable has at least as many ones in its negative as in its positive cofactor, and the
  negative cofactors are sorted by their ones, largest first.
\<close>

lemma Kit_TruthSemiCanonicize_correct:
  assumes "tt_ok n pInOut" "tt_ok n pAux" "n \<le> 16" "length perm = n"
  shows "\<exists>ph g aux perm'. Kit_TruthSemiCanonicize pInOut pAux n perm = Some (ph, g, aux, perm') \<and>
    npn n pInOut perm' ph g \<and> Kit_TruthCountOnes g n \<le> 16 * Kit_TruthWordNum n \<and>
    (\<forall>v<n. cof_count g n v True \<le> cof_count g n v False) \<and>
    (\<forall>v. v + 1 < n \<longrightarrow> cof_count g n (v + 1) False \<le> cof_count g n v False)"
  using assms by (rule Kit_TruthSemiCanonicize_ok)

lemma Kit_TruthSemiCanonicize_witness:
  "\<exists>ph g aux perm'. Kit_TruthSemiCanonicize [0xDDDDDDDD] [0] 2 [0, 0] = Some (ph, g, aux, perm') \<and>
    npn 2 [0xDDDDDDDD] perm' ph g"
  using Kit_TruthSemiCanonicize_correct [of 2 "[0xDDDDDDDD]" "[0]" "[0, 0]"]
  by (force simp: tt_ok_def Kit_TruthWordNum_def)

end
