(* ===== verification/Kit_Cubes.thy ===== *)
theory Kit_Cubes
  imports Kit_Canon
begin

text \<open>
  The cubes of \<open>kit.h\<close> and the theory of irredundant prime covers that \<open>kitIsop.c\<close> relies on. A cube
  is a 32-bit word with two bits per variable; \<open>cube_eval\<close> and \<open>cover_eval\<close> give the value of a cube
  and of a list of cubes on a minterm. \<open>isop\<close> is the contract of the routines that compute
  irredundant sums of products, and \<open>isop_step\<close> the step of the Minato-Morreale recursion: covers
  of three smaller problems merge into a cover of the whole. The step is proved once here, for
  functions on minterms, and used for the one-word and the many-word routine.
\<close>

unbundle bit_operations_syntax

section \<open>Cubes\<close>

text \<open>
  A cube is a word with two bits per variable: bit \<open>2 * v\<close> is the negative literal of variable \<open>v\<close>,
  bit \<open>2 * v + 1\<close> the positive one. The literal number \<open>i\<close> is below 32.
\<close>

definition Kit_CubeHasLit :: "u32 \<Rightarrow> nat \<Rightarrow> bool" where
  "Kit_CubeHasLit uCube i \<longleftrightarrow> uCube AND push_bit i 1 > 0"

definition Kit_CubeSetLit :: "u32 \<Rightarrow> nat \<Rightarrow> u32" where
  "Kit_CubeSetLit uCube i = uCube OR push_bit i 1"

definition Kit_CubeXorLit :: "u32 \<Rightarrow> nat \<Rightarrow> u32" where
  "Kit_CubeXorLit uCube i = uCube XOR push_bit i 1"

definition Kit_CubeRemLit :: "u32 \<Rightarrow> nat \<Rightarrow> u32" where
  "Kit_CubeRemLit uCube i = uCube AND NOT (push_bit i 1)"

definition Kit_CubeContains :: "u32 \<Rightarrow> u32 \<Rightarrow> bool" where
  "Kit_CubeContains uLarge uSmall \<longleftrightarrow> uLarge AND uSmall = uSmall"

definition Kit_CubeSharp :: "u32 \<Rightarrow> u32 \<Rightarrow> u32" where
  "Kit_CubeSharp uCube uMask = uCube AND NOT uMask"

definition Kit_CubeMask :: "nat \<Rightarrow> u32" where
  "Kit_CubeMask nVar = drop_bit (32 - nVar) (NOT 0)"

definition Kit_CubeIsMarked :: "u32 \<Rightarrow> bool" where
  "Kit_CubeIsMarked uCube = Kit_CubeHasLit uCube 31"

definition Kit_CubeMark :: "u32 \<Rightarrow> u32" where
  "Kit_CubeMark uCube = Kit_CubeSetLit uCube 31"

definition Kit_CubeUnmark :: "u32 \<Rightarrow> u32" where
  "Kit_CubeUnmark uCube = Kit_CubeRemLit uCube 31"

text \<open>The struct \<open>Kit_Sop_t\<close>; \<open>nCubes\<close> is the length of \<open>pCubes\<close>.\<close>

record kit_sop =
  nLits :: nat
  pCubes :: "u32 list"

subsection \<open>Literals one by one\<close>

named_theorems cube_bits \<open>literals of the cube operators\<close>

lemma Kit_CubeHasLit_iff: "i < 32 \<Longrightarrow> Kit_CubeHasLit c i \<longleftrightarrow> bit c i"
  unfolding Kit_CubeHasLit_def by (rule u32_and_push_iff)

lemma bit_CubeSetLit [cube_bits]: "i < 32 \<Longrightarrow> bit (Kit_CubeSetLit c i) j \<longleftrightarrow> j = i \<or> bit c j"
  using bit_push_one [of i j] unfolding Kit_CubeSetLit_def bit_or_iff by blast

lemma bit_CubeXorLit [cube_bits]: "i < 32 \<Longrightarrow> bit (Kit_CubeXorLit c i) j \<longleftrightarrow> (j = i) \<noteq> bit c j"
  using bit_push_one [of i j] unfolding Kit_CubeXorLit_def bit_xor_iff by blast

lemma bit_CubeSharp [cube_bits]: "bit (Kit_CubeSharp c d) j \<longleftrightarrow> bit c j \<and> \<not> bit d j"
  using bit_imp_le_length [of c j] by (auto simp: Kit_CubeSharp_def bit_and_iff bit_not_iff)

lemma bit_CubeRemLit [cube_bits]: "i < 32 \<Longrightarrow> bit (Kit_CubeRemLit c i) j \<longleftrightarrow> j \<noteq> i \<and> bit c j"
  using bit_push_one [of i j] bit_CubeSharp [of c "push_bit i 1" j]
  unfolding Kit_CubeRemLit_def Kit_CubeSharp_def by blast

lemma cube_eqI: "(\<And>j. j < 32 \<Longrightarrow> bit c j = bit d j) \<Longrightarrow> c = (d :: u32)"
  using word_eq_iff by blast

lemma Kit_CubeContains_iff: "Kit_CubeContains c d \<longleftrightarrow> (\<forall>j. bit d j \<longrightarrow> bit c j)"
proof
  show "\<forall>j. bit d j \<longrightarrow> bit c j" if "Kit_CubeContains c d"
    using that unfolding Kit_CubeContains_def by (metis bit_and_iff)
  show "Kit_CubeContains c d" if "\<forall>j. bit d j \<longrightarrow> bit c j"
    unfolding Kit_CubeContains_def by (rule cube_eqI) (use that in \<open>auto simp: bit_and_iff\<close>)
qed

lemma bit_CubeMask [cube_bits]: "n \<le> 32 \<Longrightarrow> bit (Kit_CubeMask n) j \<longleftrightarrow> j < n"
  by (auto simp: Kit_CubeMask_def bit_mask_iff)

subsection \<open>Values of cubes and covers\<close>

definition cube_eval :: "u32 \<Rightarrow> nat \<Rightarrow> bool" where
  "cube_eval c m \<longleftrightarrow> (\<forall>v<16. (bit c (2 * v) \<longrightarrow> \<not> bit m v) \<and> (bit c (2 * v + 1) \<longrightarrow> bit m v))"

definition cover_eval :: "u32 list \<Rightarrow> nat \<Rightarrow> bool" where
  "cover_eval cs m \<longleftrightarrow> (\<exists>c\<in>set cs. cube_eval c m)"

text \<open>The cube has only literals of variables below \<open>n\<close>.\<close>

definition cube_below :: "nat \<Rightarrow> u32 \<Rightarrow> bool" where
  "cube_below n c \<longleftrightarrow> (\<forall>j. bit c j \<longrightarrow> j < 2 * n)"

lemma cover_eval_simps [simp]:
  "\<not> cover_eval [] m" "cover_eval (c # cs) m \<longleftrightarrow> cube_eval c m \<or> cover_eval cs m"
  "cover_eval (cs @ ds) m \<longleftrightarrow> cover_eval cs m \<or> cover_eval ds m"
  by (auto simp: cover_eval_def)

lemma cube_eval_0 [simp]: "cube_eval 0 m"
  by (simp add: cube_eval_def)

lemma cube_eval_add_neg:
  assumes "V < 16"
  shows "cube_eval (Kit_CubeSetLit c (2 * V)) m \<longleftrightarrow> cube_eval c m \<and> \<not> bit m V"
proof -
  have b: "bit (Kit_CubeSetLit c (2 * V)) j \<longleftrightarrow> j = 2 * V \<or> bit c j" for j
    using assms by (simp add: bit_CubeSetLit)
  have ne: "2 * v + 1 \<noteq> 2 * V" for v by arith
  show ?thesis unfolding cube_eval_def b using assms ne by auto
qed

lemma cube_eval_add_pos:
  assumes "V < 16"
  shows "cube_eval (Kit_CubeSetLit c (Suc (2 * V))) m \<longleftrightarrow> cube_eval c m \<and> bit m V"
proof -
  have b: "bit (Kit_CubeSetLit c (Suc (2 * V))) j \<longleftrightarrow> j = Suc (2 * V) \<or> bit c j" for j
    using assms by (simp add: bit_CubeSetLit)
  have ne: "2 * v \<noteq> Suc (2 * V)" for v by arith
  show ?thesis unfolding cube_eval_def b using assms ne by auto
qed

lemma cube_eval_below:
  assumes "cube_below n c" "\<And>v. v < n \<Longrightarrow> bit m v = bit m' v"
  shows "cube_eval c m = cube_eval c m'"
proof -
  have "(bit c (2 * v) \<longrightarrow> v < n) \<and> (bit c (2 * v + 1) \<longrightarrow> v < n)" for v
    using assms(1) unfolding cube_below_def by (metis Suc_eq_plus1 Suc_lessD nat_mult_less_cancel_disj)
  then show ?thesis unfolding cube_eval_def using assms(2) by blast
qed

section \<open>Irredundant prime covers\<close>

text \<open>
  Functions are predicates on minterms. \<open>below n f\<close> says that \<open>f\<close> does not depend on variables from
  \<open>n\<close> on.
\<close>

definition below :: "nat \<Rightarrow> (nat \<Rightarrow> bool) \<Rightarrow> bool" where
  "below n f \<longleftrightarrow> (\<forall>m m'. (\<forall>v<n. bit m v = bit m' v) \<longrightarrow> f m = f m')"

lemma belowD: "below n f \<Longrightarrow> (\<And>v. v < n \<Longrightarrow> bit m v = bit m' v) \<Longrightarrow> f m = f m'"
  by (simp add: below_def)

text \<open>Cube \<open>i\<close> owns a minterm of \<open>on\<close>: no other cube of the cover covers it.\<close>

definition owns :: "(nat \<Rightarrow> bool) \<Rightarrow> u32 list \<Rightarrow> nat \<Rightarrow> bool" where
  "owns on cs i \<longleftrightarrow> (\<exists>m. on m \<and> cube_eval (cs ! i) m \<and>
      (\<forall>j<length cs. j \<noteq> i \<longrightarrow> \<not> cube_eval (cs ! j) m))"

text \<open>
  The contract of the ISOP routines: \<open>cs\<close> is a cover of \<open>r\<close>, which lies between \<open>on\<close> and \<open>dc\<close>; every
  cube covers a minterm of \<open>on\<close> that no other cube covers; and no literal can be dropped from a cube
  without leaving \<open>dc\<close>.
\<close>

definition isop :: "nat \<Rightarrow> (nat \<Rightarrow> bool) \<Rightarrow> (nat \<Rightarrow> bool) \<Rightarrow> u32 list \<Rightarrow> (nat \<Rightarrow> bool) \<Rightarrow> bool" where
  "isop n on dc cs r \<longleftrightarrow>
    (\<forall>m. on m \<longrightarrow> r m) \<and> (\<forall>m. r m \<longrightarrow> dc m) \<and> (\<forall>m. r m = cover_eval cs m) \<and>
    (\<forall>c\<in>set cs. cube_below n c) \<and>
    (\<forall>i<length cs. owns on cs i) \<and>
    (\<forall>c\<in>set cs. \<forall>l<32. bit c l \<longrightarrow> (\<exists>m. cube_eval (Kit_CubeRemLit c l) m \<and> \<not> dc m))"

lemma isop_empty: "(\<forall>m. \<not> on m) \<Longrightarrow> isop n on dc [] (\<lambda>_. False)"
  by (simp add: isop_def)

lemma isop_full: "(\<exists>m. on m) \<Longrightarrow> (\<forall>m. dc m) \<Longrightarrow> isop n on dc [0] (\<lambda>_. True)"
  by (simp add: isop_def cube_below_def owns_def)

lemma isopD:
  assumes "isop n on dc cs r"
  shows "on m \<Longrightarrow> r m" "r m \<Longrightarrow> dc m" "r m = cover_eval cs m" "c \<in> set cs \<Longrightarrow> cube_below n c"
    "i < length cs \<Longrightarrow> owns on cs i"
    "c \<in> set cs \<Longrightarrow> l < 32 \<Longrightarrow> bit c l \<Longrightarrow> \<exists>m. cube_eval (Kit_CubeRemLit c l) m \<and> \<not> dc m"
  using assms by (auto simp: isop_def)

lemma ownsE:
  assumes "owns on cs i"
  obtains m where "on m" "cube_eval (cs ! i) m" "\<forall>j<length cs. j \<noteq> i \<longrightarrow> \<not> cube_eval (cs ! j) m"
  using assms by (auto simp: owns_def)

subsection \<open>The Minato-Morreale step\<close>

text \<open>Cofactors of a function on minterms.\<close>

definition cof :: "nat \<Rightarrow> bool \<Rightarrow> (nat \<Rightarrow> bool) \<Rightarrow> nat \<Rightarrow> bool" where
  "cof V b f m = f (if b then set_bit V m else unset_bit V m)"

lemma below_cof: "below (Suc V) f \<Longrightarrow> below V (cof V b f)"
  by (auto simp: below_def cof_def bit_set_bit_iff bit_unset_bit_iff less_Suc_eq)

text \<open>The new literals and the merged cover.\<close>

definition merged :: "nat \<Rightarrow> u32 list \<Rightarrow> u32 list \<Rightarrow> u32 list \<Rightarrow> u32 list" where
  "merged Var c0 c1 c2 =
    map (\<lambda>c. c OR push_bit (2 * Var + 0) 1) c0 @ map (\<lambda>c. c OR push_bit (2 * Var + 1) 1) c1 @ c2"

lemma merged_append: "merged V c0 c1 c2 =
    map (\<lambda>c. Kit_CubeSetLit c (2 * V)) c0 @ (map (\<lambda>c. Kit_CubeSetLit c (Suc (2 * V))) c1 @ c2)"
  by (simp only: merged_def add_0_right Kit_CubeSetLit_def Suc_eq_plus1)

lemma cover_eval_merged:
  "V < 16 \<Longrightarrow> cover_eval (merged V c0 c1 c2) m \<longleftrightarrow>
    (cover_eval c0 m \<and> \<not> bit m V) \<or> (cover_eval c1 m \<and> bit m V) \<or> cover_eval c2 m"
  using cube_eval_add_neg [of V _ m] cube_eval_add_pos [of V _ m]
  by (auto simp: merged_append cover_eval_def)

lemma rem_or_same: "i < 32 \<Longrightarrow> \<not> bit c i \<Longrightarrow> Kit_CubeRemLit (Kit_CubeSetLit c i) i = c"
  by (rule cube_eqI) (auto simp: bit_CubeRemLit bit_CubeSetLit)

lemma rem_or_other: "i < 32 \<Longrightarrow> l < 32 \<Longrightarrow> l \<noteq> i \<Longrightarrow>
    Kit_CubeRemLit (Kit_CubeSetLit c i) l = Kit_CubeSetLit (Kit_CubeRemLit c l) i"
  by (rule cube_eqI) (auto simp: bit_CubeRemLit bit_CubeSetLit)

lemma cube_below_mono: "cube_below V c \<Longrightarrow> V \<le> W \<Longrightarrow> cube_below W c"
  by (auto simp: cube_below_def)

lemma cube_below_rem: "cube_below V c \<Longrightarrow> l < 32 \<Longrightarrow> cube_below V (Kit_CubeRemLit c l)"
  by (auto simp: cube_below_def bit_CubeRemLit)

lemma owns_append1:
  assumes "i < length cs" "on m" "cube_eval (cs ! i) m"
    "\<forall>j<length cs. j \<noteq> i \<longrightarrow> \<not> cube_eval (cs ! j) m" "\<not> cover_eval ds m"
  shows "owns on (cs @ ds) i"
  using assms unfolding owns_def cover_eval_def
  by (intro exI [of _ m]) (auto simp: nth_append)

lemma owns_append2:
  assumes "i < length ds" "on m" "cube_eval (ds ! i) m"
    "\<forall>j<length ds. j \<noteq> i \<longrightarrow> \<not> cube_eval (ds ! j) m" "\<not> cover_eval cs m"
  shows "owns on (cs @ ds) (length cs + i)"
  using assms unfolding owns_def cover_eval_def
  by (intro exI [of _ m]) (auto simp: nth_append)

lemma cof_flip:
  "cof V False f m = f (unset_bit V m)" "cof V True f m = f (set_bit V m)"
  "\<not> bit m V \<Longrightarrow> cof V False f m = f m" "bit m V \<Longrightarrow> cof V True f m = f m"
  "cof V b f (set_bit V m) = cof V b f m" "cof V b f (unset_bit V m) = cof V b f m"
  by (simp_all add: cof_def)

lemma bit_flip_self: "\<not> bit (unset_bit V (m :: nat)) V" "bit (set_bit V (m :: nat)) V"
  by (simp_all add: bit_unset_bit_iff bit_set_bit_iff)

lemma cube_eval_flip:
  assumes "cube_below V c"
  shows "cube_eval c (set_bit V m) = cube_eval c m" "cube_eval c (unset_bit V m) = cube_eval c m"
  using cube_eval_below [OF assms, of "set_bit V m" m] cube_eval_below [OF assms, of "unset_bit V m" m]
  by (auto simp: bit_set_bit_iff bit_unset_bit_iff)

lemma cover_eval_flip:
  assumes "\<And>c. c \<in> set cs \<Longrightarrow> cube_below V c"
  shows "cover_eval cs (set_bit V m) = cover_eval cs m" "cover_eval cs (unset_bit V m) = cover_eval cs m"
  using assms cube_eval_flip by (auto simp: cover_eval_def)

lemma owns_literal:
  assumes "owns (\<lambda>m. cof V b on m \<and> P m) cs i" "i < length cs"
    and below: "\<And>c. c \<in> set cs \<Longrightarrow> cube_below V c"
    and P: "\<And>m. P m \<Longrightarrow> \<not> cover_eval ds (if b then set_bit V m else unset_bit V m)"
    and f: "\<And>c m. cube_eval (f c) m \<longleftrightarrow> cube_eval c m \<and> bit m V = b"
  shows "\<exists>x. on x \<and> cube_eval (map f cs ! i) x \<and>
    (\<forall>j<length cs. j \<noteq> i \<longrightarrow> \<not> cube_eval (map f cs ! j) x) \<and> \<not> cover_eval ds x \<and> bit x V = b"
proof -
  from assms(1) obtain x where x: "cof V b on x \<and> P x" "cube_eval (cs ! i) x"
    "\<forall>j<length cs. j \<noteq> i \<longrightarrow> \<not> cube_eval (cs ! j) x" by (rule ownsE)
  let ?x = "if b then set_bit V x else unset_bit V x"
  have b: "bit ?x V = b" by (simp add: bit_flip_self)
  have "cube_eval (map f cs ! j) ?x = cube_eval (cs ! j) x" if "j < length cs" for j
    using that cube_eval_flip [OF below [OF nth_mem [OF that]], of x] b by (simp add: f)
  moreover have "on ?x" using x(1) by (simp add: cof_def)
  ultimately show ?thesis using assms(2) x P [of x] b by (intro exI [of _ ?x]) auto
qed

lemma index_append3:
  fixes i :: nat
  assumes "i < a + (b + c)"
  obtains "i < a" | k where "i = a + k" "k < b" | k where "i = a + (b + k)" "k < c"
proof -
  consider "i < a" | "a \<le> i" "i - a < b" | "a \<le> i" "b \<le> i - a" by linarith
  then show thesis
  proof cases
    case 1
    then show ?thesis by (rule that(1))
  next
    case 2
    then show ?thesis using that(2) [of "i - a"] by simp
  next
    case 3
    then show ?thesis using that(3) [of "i - a - b"] assms by simp
  qed
qed

lemma owns_merged:
  assumes V: "V < 16"
    and i0: "isop V (\<lambda>m. cof V False on m \<and> \<not> cof V True dc m) (cof V False dc) c0 r0"
    and i1: "isop V (\<lambda>m. cof V True on m \<and> \<not> cof V False dc m) (cof V True dc) c1 r1"
    and i2: "isop V (\<lambda>m. cof V False on m \<and> \<not> r0 m \<or> cof V True on m \<and> \<not> r1 m)
      (\<lambda>m. cof V False dc m \<and> cof V True dc m) c2 r2"
    and i: "i < length (merged V c0 c1 c2)"
  shows "owns on (merged V c0 c1 c2) i"
proof -
  let ?n0 = "map (\<lambda>c. Kit_CubeSetLit c (2 * V)) c0" and ?p1 = "map (\<lambda>c. Kit_CubeSetLit c (Suc (2 * V))) c1"
  note ev0 = cube_eval_add_neg [OF V] and ev1 = cube_eval_add_pos [OF V]
  have low2: "cover_eval c2 m \<Longrightarrow> cof V False dc m \<and> cof V True dc m" for m
    using isopD(2,3) [OF i2, of m] by simp
  have low_un: "\<not> cof V True dc m \<Longrightarrow> \<not> cover_eval c2 (unset_bit V m)"
    and low_set: "\<not> cof V False dc m \<Longrightarrow> \<not> cover_eval c2 (set_bit V m)" for m
    using low2 [of "unset_bit V m"] low2 [of "set_bit V m"] unfolding cof_flip(5,6) by blast+
  have n0: "bit m V \<Longrightarrow> \<not> cover_eval ?n0 m" and p1: "\<not> bit m V \<Longrightarrow> \<not> cover_eval ?p1 m" for m
    by (auto simp: cover_eval_def ev0 ev1)
  have "i < length c0 + (length c1 + length c2)" using i by (simp add: merged_append)
  then show ?thesis
  proof (cases rule: index_append3)
    case 1
    have "\<exists>x. on x \<and> cube_eval (?n0 ! i) x \<and>
        (\<forall>j<length c0. j \<noteq> i \<longrightarrow> \<not> cube_eval (?n0 ! j) x) \<and> \<not> cover_eval c2 x \<and> bit x V = False"
      by (rule owns_literal [where b = False and ds = c2 and P = "\<lambda>m. \<not> cof V True dc m",
          OF isopD(5) [OF i0 1] 1 isopD(4) [OF i0]]) (simp_all add: low_un ev0)
    then obtain x where x: "on x" "cube_eval (?n0 ! i) x"
      "\<forall>j<length c0. j \<noteq> i \<longrightarrow> \<not> cube_eval (?n0 ! j) x" "\<not> cover_eval c2 x" "bit x V = False"
      by (elim exE conjE) (rule that)
    then have "\<not> cover_eval (?p1 @ c2) x" using p1 by simp
    then show ?thesis unfolding merged_append
      by (intro owns_append1 [of _ _ _ x]) (use 1 x in simp_all)
  next
    case (2 k)
    have "\<exists>x. on x \<and> cube_eval (?p1 ! k) x \<and>
        (\<forall>j<length c1. j \<noteq> k \<longrightarrow> \<not> cube_eval (?p1 ! j) x) \<and> \<not> cover_eval c2 x \<and> bit x V = True"
      by (rule owns_literal [where b = True and ds = c2 and P = "\<lambda>m. \<not> cof V False dc m",
          OF isopD(5) [OF i1 2(2)] 2(2) isopD(4) [OF i1]]) (simp_all add: low_set ev1)
    then obtain x where x: "on x" "cube_eval (?p1 ! k) x"
      "\<forall>j<length c1. j \<noteq> k \<longrightarrow> \<not> cube_eval (?p1 ! j) x" "\<not> cover_eval c2 x" "bit x V = True"
      by (elim exE conjE) (rule that)
    have "owns on (?n0 @ (?p1 @ c2)) (length ?n0 + k)"
    proof (rule owns_append2 [of _ _ _ x])
      show "\<forall>j<length (?p1 @ c2). j \<noteq> k \<longrightarrow> \<not> cube_eval ((?p1 @ c2) ! j) x"
        using x(3,4) by (auto simp: nth_append cover_eval_def)
    qed (use 2 x n0 in \<open>simp_all add: nth_append\<close>)
    then show ?thesis unfolding merged_append 2(1) by simp
  next
    case (3 k)
    from isopD(5) [OF i2 3(2)] obtain x where
      x: "cof V False on x \<and> \<not> r0 x \<or> cof V True on x \<and> \<not> r1 x" "cube_eval (c2 ! k) x"
      "\<forall>j<length c2. j \<noteq> k \<longrightarrow> \<not> cube_eval (c2 ! j) x" by (rule ownsE)
    have flip2: "cube_eval (c2 ! j) (set_bit V x) = cube_eval (c2 ! j) x"
      "cube_eval (c2 ! j) (unset_bit V x) = cube_eval (c2 ! j) x" if "j < length c2" for j
      using cube_eval_flip isopD(4) [OF i2] nth_mem [OF that] by blast+
    obtain y where y: "on y" "\<not> cover_eval (?n0 @ ?p1) y" "y = set_bit V x \<or> y = unset_bit V x"
    proof (cases "cof V False on x \<and> \<not> r0 x")
      case True
      then have "\<not> cover_eval c0 (unset_bit V x)"
        using cover_eval_flip(2) [of c0 V] isopD(3,4) [OF i0] by auto
      then have "\<not> cover_eval (?n0 @ ?p1) (unset_bit V x)"
        using p1 bit_flip_self(1) by (auto simp: cover_eval_def ev0)
      then show thesis using that [of "unset_bit V x"] True by (simp add: cof_flip(1))
    next
      case False
      then have "\<not> cover_eval c1 (set_bit V x)"
        using x(1) cover_eval_flip(1) [of c1 V] isopD(3,4) [OF i1] by auto
      then have "\<not> cover_eval (?n0 @ ?p1) (set_bit V x)"
        using n0 bit_flip_self(2) by (auto simp: cover_eval_def ev1)
      then show thesis using that [of "set_bit V x"] False x(1) by (auto simp: cof_flip(2))
    qed
    have "owns on ((?n0 @ ?p1) @ c2) (length (?n0 @ ?p1) + k)"
      by (rule owns_append2 [of _ _ _ y]) (use 3 x y flip2 in auto)
    then show ?thesis unfolding merged_append 3(1) by (simp add: add.assoc)
  qed
qed

lemma prime_literal:
  assumes "isop V on dc0 cs r" "d \<in> set cs" and lit: "i < 32" "\<not> bit d i" "i = 2 * V \<or> i = Suc (2 * V)"
    and own: "\<exists>m. cube_eval d m \<and> \<not> cof V (\<not> b) dc m"
    and dc0: "dc0 = cof V b dc"
    and ev: "\<And>c m. cube_eval (Kit_CubeSetLit c i) m \<longleftrightarrow> cube_eval c m \<and> bit m V = b"
    and l: "l < 32" "bit (Kit_CubeSetLit d i) l"
  shows "\<exists>m. cube_eval (Kit_CubeRemLit (Kit_CubeSetLit d i) l) m \<and> \<not> dc m"
proof (cases "l = i")
  case True
  obtain x where x: "cube_eval d x" "\<not> cof V (\<not> b) dc x" using own by blast
  have "cube_eval d (if b then unset_bit V x else set_bit V x)"
    using x(1) cube_eval_flip [OF isopD(4) [OF assms(1,2)]] by simp
  then show ?thesis
    using x(2) rem_or_same [OF lit(1,2)] True by (auto simp: cof_def split: if_splits)
next
  case False
  have "bit d l" using l(2) False bit_CubeSetLit [OF lit(1), of d l] by blast
  with isopD(6) [OF assms(1,2) l(1)] obtain x where
    x: "cube_eval (Kit_CubeRemLit d l) x" "\<not> dc0 x" by blast
  let ?x = "if b then set_bit V x else unset_bit V x"
  have "cube_eval (Kit_CubeRemLit d l) ?x"
    using x(1) cube_eval_flip [OF cube_below_rem [OF isopD(4) [OF assms(1,2)] l(1)]] by simp
  moreover have "bit ?x V = b" by (simp add: bit_flip_self)
  ultimately have "cube_eval (Kit_CubeRemLit (Kit_CubeSetLit d i) l) ?x"
    unfolding rem_or_other [OF lit(1) l(1) False] ev by simp
  moreover have "\<not> dc ?x" using x(2) by (simp add: dc0 cof_def)
  ultimately show ?thesis by blast
qed

lemma prime_merged:
  assumes V: "V < 16"
    and i0: "isop V (\<lambda>m. cof V False on m \<and> \<not> cof V True dc m) (cof V False dc) c0 r0"
    and i1: "isop V (\<lambda>m. cof V True on m \<and> \<not> cof V False dc m) (cof V True dc) c1 r1"
    and i2: "isop V on2 (\<lambda>m. cof V False dc m \<and> cof V True dc m) c2 r2"
    and c: "c \<in> set (merged V c0 c1 c2)" and l: "l < 32" "bit c l"
  shows "\<exists>m. cube_eval (Kit_CubeRemLit c l) m \<and> \<not> dc m"
proof -
  have lv: "2 * V < 32" "Suc (2 * V) < 32" using V by simp_all
  consider d where "d \<in> set c0" "c = Kit_CubeSetLit d (2 * V)"
    | d where "d \<in> set c1" "c = Kit_CubeSetLit d (Suc (2 * V))" | "c \<in> set c2"
    using c by (auto simp: merged_append)
  then show ?thesis
  proof cases
    case 1
    obtain i where "i < length c0" "d = c0 ! i" using 1(1) by (metis in_set_conv_nth)
    then have own: "\<exists>m. cube_eval d m \<and> \<not> cof V (\<not> False) dc m"
      using isopD(5) [OF i0] by (auto simp: owns_def)
    have "\<not> bit d (2 * V)" using isopD(4) [OF i0 1(1)] by (auto simp: cube_below_def)
    then show ?thesis
      using prime_literal [OF i0 1(1) lv(1) _ _ own refl _ l(1)] l(2) 1(2) cube_eval_add_neg [OF V] by simp
  next
    case 2
    obtain i where "i < length c1" "d = c1 ! i" using 2(1) by (metis in_set_conv_nth)
    then have own: "\<exists>m. cube_eval d m \<and> \<not> cof V (\<not> True) dc m"
      using isopD(5) [OF i1] by (auto simp: owns_def)
    have "\<not> bit d (Suc (2 * V))" using isopD(4) [OF i1 2(1)] by (auto simp: cube_below_def)
    then show ?thesis
      using prime_literal [OF i1 2(1) lv(2) _ _ own refl _ l(1)] l(2) 2(2) cube_eval_add_pos [OF V] by simp
  next
    case 3
    from isopD(6) [OF i2 3 l] obtain x where
      x: "cube_eval (Kit_CubeRemLit c l) x" "\<not> (cof V False dc x \<and> cof V True dc x)" by blast
    have "cube_eval (Kit_CubeRemLit c l) (unset_bit V x)" "cube_eval (Kit_CubeRemLit c l) (set_bit V x)"
      using x(1) cube_eval_flip [OF cube_below_rem [OF isopD(4) [OF i2 3] l(1)]] by simp_all
    then show ?thesis using x(2) by (auto simp: cof_flip)
  qed
qed

lemma below_merged:
  assumes "V < 16" "\<forall>c\<in>set c0. cube_below V c" "\<forall>c\<in>set c1. cube_below V c" "\<forall>c\<in>set c2. cube_below V c"
    and "c \<in> set (merged V c0 c1 c2)"
  shows "cube_below (Suc V) c"
proof -
  have b: "bit (Kit_CubeSetLit d (2 * V)) j \<longleftrightarrow> j = 2 * V \<or> bit d j"
    "bit (Kit_CubeSetLit d (Suc (2 * V))) j \<longleftrightarrow> j = Suc (2 * V) \<or> bit d j" for d :: u32 and j
    by (rule bit_CubeSetLit; use assms(1) in simp)+
  have "c \<in> set c2 \<or> (\<exists>d\<in>set c0 \<union> set c1. \<forall>j. bit c j \<longrightarrow> j = 2 * V \<or> j = Suc (2 * V) \<or> bit d j)"
    using assms(5) by (auto simp: merged_append b)
  then show ?thesis using assms(2-4) by (fastforce simp: cube_below_def)
qed

theorem isop_step:
  assumes V: "V < 16"
    and i0: "isop V (\<lambda>m. cof V False on m \<and> \<not> cof V True dc m) (cof V False dc) c0 r0"
    and i1: "isop V (\<lambda>m. cof V True on m \<and> \<not> cof V False dc m) (cof V True dc) c1 r1"
    and i2: "isop V (\<lambda>m. cof V False on m \<and> \<not> r0 m \<or> cof V True on m \<and> \<not> r1 m)
      (\<lambda>m. cof V False dc m \<and> cof V True dc m) c2 r2"
  shows "isop (Suc V) on dc (merged V c0 c1 c2) (\<lambda>m. r2 m \<or> (if bit m V then r1 m else r0 m))"
proof -
  have eval: "(r2 m \<or> (if bit m V then r1 m else r0 m)) = cover_eval (merged V c0 c1 c2) m" for m
    using isopD(3) [OF i0, of m] isopD(3) [OF i1, of m] isopD(3) [OF i2, of m]
    by (auto simp: cover_eval_merged [OF V])
  have lower: "r2 m \<or> (if bit m V then r1 m else r0 m)" if "on m" for m
    using that isopD(1) [OF i2, of m] by (cases "bit m V") (auto simp: cof_flip)
  have upper: "dc m" if "r2 m \<or> (if bit m V then r1 m else r0 m)" for m
    using that isopD(2) [OF i0, of m] isopD(2) [OF i1, of m] isopD(2) [OF i2, of m]
    by (cases "bit m V") (auto simp: cof_flip)
  have lits: "cube_below (Suc V) c" if "c \<in> set (merged V c0 c1 c2)" for c
    using below_merged [OF V _ _ _ that] isopD(4) [OF i0] isopD(4) [OF i1] isopD(4) [OF i2] by blast
  show ?thesis
    unfolding isop_def
    using eval lower upper lits owns_merged [OF V i0 i1 i2] prime_merged [OF V i0 i1 i2] by blast
qed

end
