(* ===== verification/Kit_Isop.thy ===== *)
theory Kit_Isop
  imports Kit_Cubes
begin

text \<open>
  \<open>kitIsop.c\<close>: irredundant sums of products from truth tables, after Minato and Morreale.
  \<open>Kit_TruthIsop5_rec\<close> works on one word, \<open>Kit_TruthIsop_rec\<close> on tables of any size, and
  \<open>Kit_TruthIsop\<close> is the entry point that tries one or both polarities. The memory of the routines is
  a stack of words with a limit; a call that runs out of it gives up, and this is the value \<open>None\<close>
  here. The lemma \<open>isop_rec\<close> states what a call establishes: an irredundant prime cover between
  the two given functions, its table, the number of its literals, and an explicit bound \<open>isop_need\<close>
  on the words it takes, below which it never gives up.
\<close>

unbundle bit_operations_syntax

section \<open>The memory of the routines\<close>

text \<open>
  \<open>Vec_Int_t\<close> as the routines use it: a stack of words of which only the size and the capacity
  matter. \<open>Vec_IntFetch\<close> returns the index of the first of the new words, or \<open>None\<close> for \<open>NULL\<close>. The
  array does not move and no word is given out twice, so that the contents of the fetched blocks
  are values of the model.
\<close>

record vec_mem =
  nSize :: nat
  nCap :: nat

definition Vec_IntFetch :: "vec_mem \<Rightarrow> nat \<Rightarrow> nat option \<times> vec_mem" where
  "Vec_IntFetch p nWords =
    (if nWords = 0 then (None, p)
     else let p = p\<lparr>nSize := nSize p + nWords\<rparr> in
       if nSize p > nCap p then (None, p) else (Some (nSize p - nWords), p))"

section \<open>The code\<close>

text \<open>The cover of the three sub-covers.\<close>

definition isop_cover :: "nat \<Rightarrow> kit_sop \<Rightarrow> kit_sop \<Rightarrow> kit_sop \<Rightarrow> kit_sop" where
  "isop_cover Var pcRes0 pcRes1 pcRes2 =
    \<lparr>nLits = nLits pcRes0 + nLits pcRes1 + nLits pcRes2 + length (pCubes pcRes0) + length (pCubes pcRes1),
     pCubes = merged Var (pCubes pcRes0) (pCubes pcRes1) (pCubes pcRes2)\<rparr>"

definition uMasks :: "u32 list" where
  "uMasks = [0xAAAAAAAA, 0xCCCCCCCC, 0xF0F0F0F0, 0xFF00FF00, 0xFFFF0000]"

text \<open>
  \<open>for ( Var = nVars-1; Var >= 0; Var-- ) if ( ... ) break;\<close>, \<open>None\<close> when the loop runs to its end
  and \<open>assert( Var >= 0 )\<close> fails.
\<close>

definition topmost :: "u32 list \<Rightarrow> u32 list \<Rightarrow> nat \<Rightarrow> nat \<Rightarrow> nat option" where
  "topmost puOn puOnDc n nVars =
    find (\<lambda>Var. Kit_TruthVarInSupport puOn n Var \<or> Kit_TruthVarInSupport puOnDc n Var) (rev [0..<nVars])"

lemma topmost_less: "topmost p q n k = Some V \<Longrightarrow> V < k"
  by (auto simp: topmost_def find_Some_iff rev_nth)

text \<open>
  The results: the cover, \<open>None\<close> for \<open>nCubes = -1\<close>; the truth table; the memory. The assertion
  \<open>Var >= 0\<close> after the search for the topmost variable is modelled: where it fails the result is
  \<open>None\<close>; it fails for \<open>nVars = 0\<close> as well, so \<open>nVars > 0\<close> is part of it. The assertions
  \<open>nVars <= 5\<close> and \<open>(uOn & ~uOnDc) == 0\<close> on the arguments are left out: they are hypotheses of
  \<open>isop5_rec\<close>, whose induction shows that every recursive call meets them. \<open>Var >= 5\<close> and
  \<open>k == pcRes->nCubes\<close> hold by the way the model is written.
\<close>

function Kit_TruthIsop5_rec :: "u32 \<Rightarrow> u32 \<Rightarrow> nat \<Rightarrow> vec_mem \<Rightarrow> kit_sop option \<times> u32 \<times> vec_mem" where
  "Kit_TruthIsop5_rec uOn uOnDc nVars vStore =
    (if uOn = 0 then (Some \<lparr>nLits = 0, pCubes = []\<rparr>, 0, vStore)
     else if uOnDc = 0xFFFFFFFF then
       (case Vec_IntFetch vStore 1 of
          (None, vStore) \<Rightarrow> (None, 0, vStore)
        | (Some _, vStore) \<Rightarrow> (Some \<lparr>nLits = 0, pCubes = [0]\<rparr>, 0xFFFFFFFF, vStore))
     else case topmost [uOn] [uOnDc] 5 nVars of None \<Rightarrow> (None, 0, vStore) | Some Var \<Rightarrow>
     let uOn0 = hd (Kit_TruthCofactor0 [uOn] (Var + 1) Var);
         uOn1 = hd (Kit_TruthCofactor1 [uOn] (Var + 1) Var);
         uOnDc0 = hd (Kit_TruthCofactor0 [uOnDc] (Var + 1) Var);
         uOnDc1 = hd (Kit_TruthCofactor1 [uOnDc] (Var + 1) Var)
     in case Kit_TruthIsop5_rec (uOn0 AND NOT uOnDc1) uOnDc0 Var vStore of
       (None, _, vStore) \<Rightarrow> (None, 0, vStore) | (Some pcRes0, uRes0, vStore) \<Rightarrow>
     (case Kit_TruthIsop5_rec (uOn1 AND NOT uOnDc0) uOnDc1 Var vStore of
       (None, _, vStore) \<Rightarrow> (None, 0, vStore) | (Some pcRes1, uRes1, vStore) \<Rightarrow>
     (case Kit_TruthIsop5_rec ((uOn0 AND NOT uRes0) OR (uOn1 AND NOT uRes1)) (uOnDc0 AND uOnDc1) Var vStore of
       (None, _, vStore) \<Rightarrow> (None, 0, vStore) | (Some pcRes2, uRes2, vStore) \<Rightarrow>
     let pcRes = isop_cover Var pcRes0 pcRes1 pcRes2
     in case Vec_IntFetch vStore (length (pCubes pcRes)) of
          (None, vStore) \<Rightarrow> (None, 0, vStore)
        | (Some _, vStore) \<Rightarrow>
            (Some pcRes, uRes2 OR ((uRes0 AND NOT (uMasks ! Var)) OR (uRes1 AND uMasks ! Var)), vStore))))"
  by pat_completeness auto
termination
  by (relation "measure (\<lambda>(uOn, uOnDc, nVars, vStore). nVars)") (auto dest: topmost_less)

text \<open>
  The tables of \<open>Kit_TruthIsop_rec\<close> are fetched blocks. \<open>pTemp\<close> starts with arbitrary contents that
  are written before they are read; its two halves for the variable \<open>Var\<close> are separate lists here.
\<close>

function Kit_TruthIsop_rec ::
    "u32 list \<Rightarrow> u32 list \<Rightarrow> nat \<Rightarrow> vec_mem \<Rightarrow> kit_sop option \<times> u32 list \<times> vec_mem" where
  "Kit_TruthIsop_rec puOn puOnDc nVars vStore =
    (let nWordsAll = Kit_TruthWordNum nVars in
     case Vec_IntFetch vStore nWordsAll of (None, vStore) \<Rightarrow> (None, [], vStore) | (Some _, vStore) \<Rightarrow>
     let pTemp = replicate nWordsAll 0 in
     if Kit_TruthIsConst0 puOn nVars then
       (Some \<lparr>nLits = 0, pCubes = []\<rparr>, Kit_TruthClear pTemp nVars, vStore)
     else if Kit_TruthIsConst1 puOnDc nVars then
       (case Vec_IntFetch vStore 1 of
          (None, vStore) \<Rightarrow> (None, [], vStore)
        | (Some _, vStore) \<Rightarrow> (Some \<lparr>nLits = 0, pCubes = [0]\<rparr>, Kit_TruthFill pTemp nVars, vStore))
     else case topmost puOn puOnDc nVars nVars of None \<Rightarrow> (None, [], vStore) | Some Var \<Rightarrow>
     if Var < 5 then
       (case Kit_TruthIsop5_rec (puOn ! 0) (puOnDc ! 0) (Var + 1) vStore of
          (pcRes, uRes, vStore) \<Rightarrow> (pcRes, for_words nWordsAll (\<lambda>_ _. uRes) pTemp, vStore))
     else
     let nWords = Kit_TruthWordNum Var;
         puOn0 = puOn; puOn1 = drop nWords puOn;
         puOnDc0 = puOnDc; puOnDc1 = drop nWords puOnDc;
         pTemp0 = replicate nWords 0; pTemp1 = replicate nWords 0;
         pTemp0 = Kit_TruthSharp pTemp0 puOn0 puOnDc1 Var
     in case Kit_TruthIsop_rec pTemp0 puOnDc0 Var vStore of
       (None, _, vStore) \<Rightarrow> (None, [], vStore) | (Some pcRes0, puRes0, vStore) \<Rightarrow>
     (let pTemp1 = Kit_TruthSharp pTemp1 puOn1 puOnDc0 Var
      in case Kit_TruthIsop_rec pTemp1 puOnDc1 Var vStore of
       (None, _, vStore) \<Rightarrow> (None, [], vStore) | (Some pcRes1, puRes1, vStore) \<Rightarrow>
     (let pTemp0 = Kit_TruthSharp pTemp0 puOn0 puRes0 Var;
          pTemp1 = Kit_TruthSharp pTemp1 puOn1 puRes1 Var;
          pTemp0 = Kit_TruthOr pTemp0 pTemp0 pTemp1 Var;
          pTemp1 = Kit_TruthAnd pTemp1 puOnDc0 puOnDc1 Var
      in case Kit_TruthIsop_rec pTemp0 pTemp1 Var vStore of
       (None, _, vStore) \<Rightarrow> (None, [], vStore) | (Some pcRes2, puRes2, vStore) \<Rightarrow>
     (let pcRes = isop_cover Var pcRes0 pcRes1 pcRes2
      in case Vec_IntFetch vStore (length (pCubes pcRes)) of
          (None, vStore) \<Rightarrow> (None, [], vStore)
        | (Some _, vStore) \<Rightarrow>
            let pTemp0 = Kit_TruthOr pTemp0 puRes0 puRes2 Var;
                pTemp1 = Kit_TruthOr pTemp1 puRes1 puRes2 Var
            in (Some pcRes, concat (replicate (nWordsAll div (2 * nWords)) (pTemp0 @ pTemp1)), vStore)))))"
  by pat_completeness auto
termination
  by (relation "measure (\<lambda>(puOn, puOnDc, nVars, vStore). nVars)") (auto dest: topmost_less)

declare Kit_TruthIsop5_rec.simps [simp del] Kit_TruthIsop_rec.simps [simp del]

definition KIT_ISOP_MEM_LIMIT :: nat where
  "KIT_ISOP_MEM_LIMIT = 2 ^ 20"

text \<open>
  \<open>Kit_TruthIsop\<close> on a store of capacity \<open>cap\<close>. The result is the return value, the cover in \<open>vMemory\<close>
  (\<open>None\<close> for \<open>nSize = -1\<close>) and the table, which is complemented twice when both polarities are tried.
  The assertion \<open>nVars >= 0 && nVars <= 16\<close> is left out, and so are the two assertions
  \<open>Kit_TruthIsEqual( puTruth, pResult, nVars )\<close>: up to 16 variables they hold, by \<open>isop_asserts\<close> below.
\<close>

definition Kit_TruthIsop :: "u32 list \<Rightarrow> nat \<Rightarrow> nat \<Rightarrow> bool \<Rightarrow> int \<times> u32 list option \<times> u32 list" where
  "Kit_TruthIsop puTruth nVars cap fTryBoth =
    (let vMemory = \<lparr>nSize = 0, nCap = max cap KIT_ISOP_MEM_LIMIT\<rparr> in
     case Kit_TruthIsop_rec puTruth puTruth nVars vMemory of
       (None, _, vMemory) \<Rightarrow> (-1, None, puTruth)
     | (Some pcRes, pResult, vMemory) \<Rightarrow>
       if length (pCubes pcRes) = 0 \<or> length (pCubes pcRes) = 1 \<and> pCubes pcRes ! 0 = 0
       then (0, Some (take (length (pCubes pcRes)) [0]), puTruth)
       else if fTryBoth then
         let puTruth = Kit_TruthNot puTruth puTruth nVars in
         (case Kit_TruthIsop_rec puTruth puTruth nVars vMemory of
            (None, _, vMemory) \<Rightarrow> (0, Some (pCubes pcRes), Kit_TruthNot puTruth puTruth nVars)
          | (Some pcRes2, pResult, vMemory) \<Rightarrow>
              if length (pCubes pcRes) > length (pCubes pcRes2) \<or>
                length (pCubes pcRes) = length (pCubes pcRes2) \<and> nLits pcRes > nLits pcRes2
              then (1, Some (pCubes pcRes2), Kit_TruthNot puTruth puTruth nVars)
              else (0, Some (pCubes pcRes), Kit_TruthNot puTruth puTruth nVars))
       else (0, Some (pCubes pcRes), puTruth))"

text \<open>\<open>Kit_TruthIsopPrintCover\<close>; \<open>None\<close> when the assertion on a literal fails.\<close>

definition lit_char :: "u32 \<Rightarrow> char option" where
  "lit_char Literal =
    (if Literal = 1 then Some CHR ''0'' else if Literal = 2 then Some CHR ''1''
     else if Literal = 0 then Some CHR ''-'' else None)"

definition Kit_TruthIsopPrintCover :: "u32 list \<Rightarrow> nat \<Rightarrow> bool \<Rightarrow> string option" where
  "Kit_TruthIsopPrintCover vCover nVars fCompl =
    (if length vCover = 0 \<or> length vCover = 1 \<and> vCover ! 0 = 0
     then Some (''Constant '' @ (if length vCover = 0 then ''0'' else ''1'') @ [CHR 0x0A])
     else map_option concat (those (map (\<lambda>Entry.
       map_option (\<lambda>s. s @ '' '' @ (if fCompl then ''0'' else ''1'') @ [CHR 0x0A])
         (those (map (\<lambda>k. lit_char (3 AND drop_bit (2 * k) Entry)) [0..<nVars]))) vCover)))"
section \<open>Tables as functions on minterms\<close>

definition tfun :: "nat \<Rightarrow> u32 list \<Rightarrow> nat \<Rightarrow> bool" where
  "tfun n p m = tt_bit p (m mod tt_size n)"

lemma tfun_less [simp]: "m mod tt_size n < tt_size n"
  by simp

lemma mod_tt_size: "m mod tt_size n = take_bit (max n 5) m"
  by (simp add: tt_size_eq take_bit_eq_mod)

lemma flip_mod_tt_size:
  assumes "v < max n 5"
  shows "unset_bit v m mod tt_size n = unset_bit v (m mod tt_size n)"
    and "set_bit v m mod tt_size n = set_bit v (m mod tt_size n)"
  unfolding mod_tt_size using assms by (auto simp: bit_simps intro!: bit_eqI)

lemma tfun_word: "n \<le> 5 \<Longrightarrow> tfun n [w] = (\<lambda>m. bit w (m mod 32))"
  by (auto simp: tfun_def tt_bit_def tt_size_def Kit_TruthWordNum_def)

lemma ex_mod_tt_size: "(\<exists>m<tt_size n. P m) \<longleftrightarrow> (\<exists>m. P (m mod tt_size n))"
  by (metis mod_less tfun_less)

lemma all_mod_tt_size: "(\<forall>m<tt_size n. P m) \<longleftrightarrow> (\<forall>m. P (m mod tt_size n))"
  by (metis mod_less tfun_less)

lemma VarInSupport_tfun:
  "v < n \<Longrightarrow> Kit_TruthVarInSupport p n v \<longleftrightarrow> (\<exists>m. tfun n p (unset_bit v m) \<noteq> tfun n p (set_bit v m))"
  unfolding Kit_TruthVarInSupport_flip ex_mod_tt_size tfun_def by (simp add: flip_mod_tt_size)

lemma below_tfun: "below (max n 5) (tfun n p)"
  unfolding below_def tfun_def mod_tt_size
  by (intro allI impI arg_cong [where f = "tt_bit p"] bit_eqI) (auto simp: bit_simps)

lemma below_mono: "below n f \<Longrightarrow> n \<le> n' \<Longrightarrow> below n' f"
  by (auto simp: below_def)

lemma below_drop:
  assumes "below (Suc v) f" "\<forall>m. f (unset_bit v m) = f (set_bit v m)"
  shows "below v f"
  unfolding below_def
proof (intro allI impI)
  fix m m' :: nat assume eq: "\<forall>u<v. bit m u = bit m' u"
  have flip: "f (set_bit v x) = f x" for x
    by (cases "bit x v") (use spec [OF assms(2), of x] in simp_all)
  have "f (set_bit v m) = f (set_bit v m')"
    using eq by (intro belowD [OF assms(1)]) (auto simp: bit_set_bit_iff less_Suc_eq)
  then show "f m = f m'" by (simp only: flip)
qed

lemma below_support:
  assumes "below k (tfun n p)" "k \<le> n" "\<And>v. V \<le> v \<Longrightarrow> v < k \<Longrightarrow> \<not> Kit_TruthVarInSupport p n v"
  shows "below V (tfun n p)"
  using assms
proof (induction k)
  case (Suc k)
  show ?case
  proof (cases "V \<le> k")
    case True
    then have "\<forall>m. tfun n p (unset_bit k m) = tfun n p (set_bit k m)"
      using Suc.prems(3) [of k] Suc.prems(2) VarInSupport_tfun [of k n p] by simp
    then have "below k (tfun n p)" by (rule below_drop [OF Suc.prems(1)])
    then show ?thesis using Suc by simp
  next
    case False
    then show ?thesis using below_mono [OF Suc.prems(1)] by simp
  qed
qed (simp add: below_def)

text \<open>The variable found by the loop is the last one that matters.\<close>

lemma topmost_SomeD:
  assumes "topmost p q n k = Some V" "k \<le> n"
    and "below k (tfun n p)" "below k (tfun n q)"
  shows "below (Suc V) (tfun n p)" "below (Suc V) (tfun n q)"
proof -
  have "\<not> Kit_TruthVarInSupport p n v \<and> \<not> Kit_TruthVarInSupport q n v" if "Suc V \<le> v" "v < k" for v
  proof -
    obtain i where i: "i < k" "V = k - Suc i"
      "\<forall>j<i. \<not> (Kit_TruthVarInSupport p n (rev [0..<k] ! j) \<or> Kit_TruthVarInSupport q n (rev [0..<k] ! j))"
      using assms(1) by (auto simp: topmost_def find_Some_iff rev_nth)
    then show ?thesis using that spec [OF i(3), of "k - Suc v"] by (auto simp: rev_nth)
  qed
  then show "below (Suc V) (tfun n p)" "below (Suc V) (tfun n q)"
    using below_support [OF assms(3,2)] below_support [OF assms(4,2)] by blast+
qed

lemma topmost_NoneD:
  assumes "topmost p q n k = None" "k \<le> n" "below k (tfun n p)" "tfun n p m"
  shows "tfun n p m'"
proof -
  have "\<not> Kit_TruthVarInSupport p n v" if "0 \<le> v" "v < k" for v
    using assms(1) that by (auto simp: topmost_def find_None_iff)
  then have "below 0 (tfun n p)" using below_support [OF assms(3,2)] by blast
  then show ?thesis using belowD [of 0 "tfun n p" m m'] assms(4) by simp
qed

section \<open>Sizes of the covers\<close>

definition cover_lits :: "u32 list \<Rightarrow> nat" where
  "cover_lits cs = sum_list (map (\<lambda>c. card {j. bit c j}) cs)"

lemma card_SetLit:
  assumes "i < 32" "\<not> bit c i" shows "card {j. bit (Kit_CubeSetLit c i) j} = Suc (card {j. bit c j})"
proof -
  have "{j. bit (Kit_CubeSetLit c i) j} = insert i {j. bit c j}" using assms(1) by (auto simp: bit_CubeSetLit)
  moreover have "finite {j. bit c j}"
    by (rule finite_subset [of _ "{..<32}"]) (use bit_imp_le_length [of c] in auto)
  ultimately show ?thesis using assms(2) by simp
qed

lemma cover_lits_add:
  assumes "i < 32" "\<And>c. c \<in> set cs \<Longrightarrow> \<not> bit c i"
  shows "cover_lits (map (\<lambda>c. Kit_CubeSetLit c i) cs) = cover_lits cs + length cs"
  using assms by (induction cs) (auto simp: cover_lits_def card_SetLit)

lemma cover_lits_append: "cover_lits (cs @ ds) = cover_lits cs + cover_lits ds"
  by (simp add: cover_lits_def)

text \<open>Every cube owns a minterm, so there are at most as many cubes as minterms.\<close>

lemma cube_eval_take_bit:
  "cube_below n c \<Longrightarrow> cube_eval c (take_bit n m) = cube_eval c m"
  by (rule cube_eval_below) (auto simp: bit_take_bit_iff)

lemma isop_length:
  assumes "isop n on dc cs r"
  shows "length cs \<le> 2 ^ n"
proof -
  let ?own = "\<lambda>i m. cube_eval (cs ! i) m \<and> (\<forall>j<length cs. j \<noteq> i \<longrightarrow> \<not> cube_eval (cs ! j) m)"
  have "\<exists>m<2 ^ n. ?own i m" if i: "i < length cs" for i
  proof -
    from isopD(5) [OF assms i] obtain m where m: "?own i m" by (auto simp: owns_def)
    have "cube_eval (cs ! j) (take_bit n m) = cube_eval (cs ! j) m" if "j < length cs" for j
      using cube_eval_take_bit isopD(4) [OF assms] nth_mem [OF that] by blast
    then have "?own i (take_bit n m)" using m i by simp
    then show ?thesis using take_bit_nat_less_exp by blast
  qed
  then obtain f where f: "\<And>i. i < length cs \<Longrightarrow> f i < 2 ^ n \<and> ?own i (f i)" by metis
  have "inj_on f {..<length cs}"
  proof (rule inj_onI)
    fix i j assume "i \<in> {..<length cs}" "j \<in> {..<length cs}" "f i = f j"
    then show "i = j" using f [of i] f [of j] by auto
  qed
  moreover have "f ` {..<length cs} \<subseteq> {..<2 ^ n}" using f by auto
  ultimately have "card {..<length cs} \<le> card {..<(2::nat) ^ n}" by (intro card_inj_on_le) auto
  then show ?thesis by simp
qed

lemma isop_mono: "isop n on dc cs r \<Longrightarrow> n \<le> n' \<Longrightarrow> isop n' on dc cs r"
  unfolding isop_def using cube_below_mono by blast

lemma isop_nonempty: "isop n on dc cs r \<Longrightarrow> on m \<Longrightarrow> cs \<noteq> []"
  using isopD(1,3) [of n on dc cs r m] by auto
section \<open>Correctness and memory of the recursion\<close>

text \<open>
  What a call of the recursion establishes: a cover with the right number of literals within
  \<open>need\<close> words of memory; it gives up only when those words are not there.
\<close>

definition isop_post :: "nat \<Rightarrow> (nat \<Rightarrow> bool) \<Rightarrow> (nat \<Rightarrow> bool) \<Rightarrow> nat \<Rightarrow> vec_mem \<Rightarrow>
    kit_sop option \<Rightarrow> (nat \<Rightarrow> bool) \<Rightarrow> vec_mem \<Rightarrow> bool" where
  "isop_post n on dc need v pcRes r v' \<longleftrightarrow> nCap v' = nCap v \<and>
    (case pcRes of
       None \<Rightarrow> nCap v < nSize v + need
     | Some c \<Rightarrow> isop n on dc (pCubes c) r \<and> nLits c = cover_lits (pCubes c) \<and> nSize v' \<le> nSize v + need)"

lemma isop_cover_combine:
  assumes V: "V < 16"
    and p0: "isop_post V (\<lambda>m. cof V False on m \<and> \<not> cof V True dc m) (cof V False dc) need v (Some c0) r0 v0"
    and p1: "isop_post V (\<lambda>m. cof V True on m \<and> \<not> cof V False dc m) (cof V True dc) need v0 (Some c1) r1 v1"
    and p2: "isop_post V (\<lambda>m. cof V False on m \<and> \<not> r0 m \<or> cof V True on m \<and> \<not> r1 m)
      (\<lambda>m. cof V False dc m \<and> cof V True dc m) need v1 (Some c2) r2 v2"
  shows "isop (Suc V) on dc (pCubes (isop_cover V c0 c1 c2)) (\<lambda>m. r2 m \<or> (if bit m V then r1 m else r0 m))"
    and "nLits (isop_cover V c0 c1 c2) = cover_lits (pCubes (isop_cover V c0 c1 c2))"
    and "nSize v2 \<le> nSize v + 3 * need" "nCap v2 = nCap v"
proof -
  have i: "isop V (\<lambda>m. cof V False on m \<and> \<not> cof V True dc m) (cof V False dc) (pCubes c0) r0"
    "isop V (\<lambda>m. cof V True on m \<and> \<not> cof V False dc m) (cof V True dc) (pCubes c1) r1"
    "isop V (\<lambda>m. cof V False on m \<and> \<not> r0 m \<or> cof V True on m \<and> \<not> r1 m)
      (\<lambda>m. cof V False dc m \<and> cof V True dc m) (pCubes c2) r2"
    using p0 p1 p2 by (auto simp: isop_post_def)
  show "isop (Suc V) on dc (pCubes (isop_cover V c0 c1 c2)) (\<lambda>m. r2 m \<or> (if bit m V then r1 m else r0 m))"
    using isop_step [OF V i] by (simp add: isop_cover_def)
  have new: "\<not> bit c (2 * V)" "\<not> bit c (Suc (2 * V))" if "cube_below V c" for c
    using that by (auto simp: cube_below_def)
  show "nLits (isop_cover V c0 c1 c2) = cover_lits (pCubes (isop_cover V c0 c1 c2))"
    using p0 p1 p2 V isopD(4) [OF i(1)] isopD(4) [OF i(2)]
    by (simp add: isop_cover_def merged_append isop_post_def cover_lits_append cover_lits_add new)
  show "nSize v2 \<le> nSize v + 3 * need" "nCap v2 = nCap v"
    using p0 p1 p2 by (auto simp: isop_post_def)
qed

lemma isop_post_fetch:
  assumes "isop k on dc (pCubes c) r" "nLits c = cover_lits (pCubes c)" "\<exists>m. on m" "k \<le> n"
    and "nSize u \<le> nSize v + s" "nCap u = nCap v" "s + 2 ^ k \<le> need"
    and "Vec_IntFetch u (length (pCubes c)) = (p, v')"
  shows "isop_post n on dc need v (case p of None \<Rightarrow> None | Some _ \<Rightarrow> Some c) r v'"
proof -
  obtain m where "on m" using assms(3) by blast
  then have "pCubes c \<noteq> []" using isop_nonempty [OF assms(1)] by blast
  moreover have "length (pCubes c) \<le> 2 ^ k" by (rule isop_length [OF assms(1)])
  ultimately show ?thesis
    using assms(2,5-8) isop_mono [OF assms(1,4)]
    by (auto simp: Vec_IntFetch_def isop_post_def Let_def split: if_splits)
qed

lemma isop_post_lower: "isop_post n (\<lambda>m. f m \<and> \<not> g m) dc need v (Some c) r v' \<Longrightarrow> f m \<Longrightarrow> r m \<or> g m"
  using isopD(1) [of n "\<lambda>m. f m \<and> \<not> g m" dc "pCubes c" r m] by (auto simp: isop_post_def)

lemma isop_below:
  assumes "isop n on dc cs r" shows "below n r"
  unfolding below_def
proof (intro allI impI)
  fix m m' :: nat assume eq: "\<forall>v<n. bit m v = bit m' v"
  have "cube_eval c m = cube_eval c m'" if "c \<in> set cs" for c
    using cube_eval_below [OF isopD(4) [OF assms that]] eq by blast
  then show "r m = r m'" using isopD(3) [OF assms] by (auto simp: cover_eval_def)
qed

text \<open>The two terminal cases.\<close>

lemma isop_post_const0: "(\<And>m. \<not> on m) \<Longrightarrow> (\<And>m. \<not> r m) \<Longrightarrow> nSize v' \<le> nSize v + need \<Longrightarrow> nCap v' = nCap v \<Longrightarrow>
    isop_post n on dc need v (Some \<lparr>nLits = 0, pCubes = []\<rparr>) r v'"
  by (simp add: isop_post_def isop_def cover_lits_def)

lemma isop_post_const1:
  assumes "\<exists>m. on m" "\<And>m. dc m" "\<And>m. r m"
    and "nSize u \<le> nSize v + s" "nCap u = nCap v" "s + 1 \<le> need" "Vec_IntFetch u 1 = (p, v')"
  shows "isop_post n on dc need v (case p of None \<Rightarrow> None | Some _ \<Rightarrow> Some \<lparr>nLits = 0, pCubes = [0]\<rparr>) r v'"
proof -
  have "isop 0 on dc [0] r" using isop_full [of on dc 0] assms(1,2,3) by (simp add: isop_def)
  then show ?thesis
    using isop_post_fetch [of 0 on dc "\<lparr>nLits = 0, pCubes = [0]\<rparr>" r n u v s need p v'] assms
    by (simp add: cover_lits_def bot_fun_def)
qed

text \<open>The three calls and the fetch of the general case.\<close>

lemma isop_split:
  assumes V: "V < 16" "V < n" and m: "on m"
    and p0: "isop_post V (\<lambda>m. cof V False on m \<and> \<not> cof V True dc m) (cof V False dc) need u pc0 r0 v0"
    and p1: "\<And>c0. pc0 = Some c0 \<Longrightarrow>
      isop_post V (\<lambda>m. cof V True on m \<and> \<not> cof V False dc m) (cof V True dc) need v0 pc1 r1 v1"
    and p2: "\<And>c0 c1. pc0 = Some c0 \<Longrightarrow> pc1 = Some c1 \<Longrightarrow>
      isop_post V (\<lambda>m. cof V False on m \<and> \<not> r0 m \<or> cof V True on m \<and> \<not> r1 m)
        (\<lambda>m. cof V False dc m \<and> cof V True dc m) need v1 pc2 r2 v2"
    and f: "Vec_IntFetch v2 (length (pCubes (isop_cover V (the pc0) (the pc1) (the pc2)))) = (p, v3)"
    and u: "nSize u \<le> nSize v + s" "nCap u = nCap v" "s + (3 * need + 2 ^ Suc V) \<le> need'"
    and res: "(pcRes, v') = (case pc0 of None \<Rightarrow> (None, v0) | Some c0 \<Rightarrow>
      (case pc1 of None \<Rightarrow> (None, v1) | Some c1 \<Rightarrow>
      (case pc2 of None \<Rightarrow> (None, v2) | Some c2 \<Rightarrow>
      (case p of None \<Rightarrow> None | Some _ \<Rightarrow> Some (isop_cover V c0 c1 c2), v3))))"
    and r: "pcRes \<noteq> None \<Longrightarrow> r = (\<lambda>m. r2 m \<or> (if bit m V then r1 m else r0 m))"
  shows "isop_post n on dc need' v pcRes r v'"
proof -
  consider "pc0 = None" | c0 where "pc0 = Some c0" "pc1 = None" | c0 c1 where "pc0 = Some c0" "pc1 = Some c1" "pc2 = None"
    | c0 c1 c2 where "pc0 = Some c0" "pc1 = Some c1" "pc2 = Some c2" by (metis not_None_eq)
  then show ?thesis
  proof cases
    case 1
    then show ?thesis using p0 u res by (simp add: isop_post_def)
  next
    case 2
    then show ?thesis using p0 p1 [OF 2(1)] u res by (simp add: isop_post_def)
  next
    case 3
    then show ?thesis using p0 p1 [OF 3(1)] p2 [OF 3(1,2)] u res by (simp add: isop_post_def)
  next
    case (4 c0 c1 c2)
    note comb = isop_cover_combine [OF V(1) p0 [unfolded 4(1)] p1 [OF 4(1), unfolded 4(2)] p2 [OF 4(1,2), unfolded 4(3)]]
    have "isop_post n on dc need' v (case p of None \<Rightarrow> None | Some _ \<Rightarrow> Some (isop_cover V c0 c1 c2))
        (\<lambda>m. r2 m \<or> (if bit m V then r1 m else r0 m)) v3"
      by (rule isop_post_fetch [OF comb(1,2) _ Suc_leI [OF V(2)], where u = v2 and s = "s + 3 * need"])
        (use m comb(3,4) u f 4 in auto)
    then show ?thesis using res r 4 by (cases p) (simp_all add: isop_post_def)
  qed
qed

subsection \<open>One word\<close>

lemma tfun_le5: "n \<le> 5 \<Longrightarrow> tfun n p = tfun 5 p"
  by (auto simp: tfun_def tt_size_def Kit_TruthWordNum_def)

lemma tfun_word_ops:
  "tfun 5 [NOT b] = (\<lambda>m. \<not> tfun 5 [b] m)"
  "tfun 5 [a AND b] = (\<lambda>m. tfun 5 [a] m \<and> tfun 5 [b] m)"
  "tfun 5 [a OR b] = (\<lambda>m. tfun 5 [a] m \<or> tfun 5 [b] m)"
  by (auto simp: tfun_word bit_and_iff bit_or_iff not_32)

lemma tfun_cofactor:
  assumes "V < n" "tt_ok n p"
  shows "tfun n (Kit_TruthCofactor0 p n V) = cof V False (tfun n p)"
    and "tfun n (Kit_TruthCofactor1 p n V) = cof V True (tfun n p)"
  using assms by (auto simp: tfun_def cof_def Kit_TruthCofactor0_bit Kit_TruthCofactor1_bit flip_mod_tt_size)

lemma hd_singleton: "length xs = 1 \<Longrightarrow> [hd xs] = xs"
  by (cases xs) auto

lemma tfun_cofactor_word:
  assumes "V < 5"
  shows "tfun 5 [hd (Kit_TruthCofactor0 [w] (V + 1) V)] = cof V False (tfun 5 [w])"
    and "tfun 5 [hd (Kit_TruthCofactor1 [w] (V + 1) V)] = cof V True (tfun 5 [w])"
proof -
  have "tt_ok (V + 1) [w]" using assms by (simp add: tt_ok_def Kit_TruthWordNum_def)
  from tfun_cofactor [OF _ this, of V] show
    "tfun 5 [hd (Kit_TruthCofactor0 [w] (V + 1) V)] = cof V False (tfun 5 [w])"
    "tfun 5 [hd (Kit_TruthCofactor1 [w] (V + 1) V)] = cof V True (tfun 5 [w])"
    using assms tfun_le5 [of "V + 1"] by (simp_all add: hd_singleton)
qed

lemma tfun_zero: "tfun 5 [w] = (\<lambda>_. False) \<longleftrightarrow> w = 0"
  by (auto simp: tfun_word word_eq_iff fun_eq_iff) (metis mod_less)

lemma tfun_full: "tfun 5 [w] = (\<lambda>_. True) \<longleftrightarrow> w = 0xFFFFFFFF"
proof -
  have "(0xFFFFFFFF :: u32) = NOT 0" by simp
  then show ?thesis by (auto simp: tfun_word word_eq_iff fun_eq_iff not_32) (metis mod_less)
qed

lemma uMasks_bit: "V < 5 \<Longrightarrow> tfun 5 [uMasks ! V] m \<longleftrightarrow> bit m V"
  using var_masks [of V "m mod 32"] by (simp add: tfun_word uMasks_def bit_mod_32)

fun isop_need5 :: "nat \<Rightarrow> nat" where
  "isop_need5 0 = 1"
| "isop_need5 (Suc n) = 3 * isop_need5 n + 2 ^ Suc n"

lemma isop_need5_mono: "m \<le> n \<Longrightarrow> isop_need5 m \<le> isop_need5 n"
  by (rule lift_Suc_mono_le [of isop_need5]) auto

lemma isop_need5_pos: "1 \<le> isop_need5 n"
  using isop_need5_mono [of 0 n] by simp

lemma below_const: "below n f \<Longrightarrow> below n g \<Longrightarrow> below n (\<lambda>m. f m \<and> \<not> g m)"
    "below n f \<Longrightarrow> below n g \<Longrightarrow> below n (\<lambda>m. f m \<and> g m)" "below n f \<Longrightarrow> below n g \<Longrightarrow> below n (\<lambda>m. f m \<or> g m)"
  unfolding below_def by blast+

lemma isop5_rec_split:
  assumes V5: "V < 5" "V < n" and m: "tfun 5 [uOn] m"
    and bel: "below (Suc V) (tfun 5 [uOn])" "below (Suc V) (tfun 5 [uOnDc])"
    and imp: "\<And>m. tfun 5 [uOn] m \<Longrightarrow> tfun 5 [uOnDc] m"
    and IH: "\<And>uOn uOnDc v pcRes r v'. below V (tfun 5 [uOn]) \<Longrightarrow> below V (tfun 5 [uOnDc]) \<Longrightarrow>
      (\<And>m. tfun 5 [uOn] m \<Longrightarrow> tfun 5 [uOnDc] m) \<Longrightarrow> Kit_TruthIsop5_rec uOn uOnDc V v = (pcRes, r, v') \<Longrightarrow>
      isop_post V (tfun 5 [uOn]) (tfun 5 [uOnDc]) (isop_need5 V) v pcRes (tfun 5 [r]) v'"
    and split: "uOn \<noteq> 0" "uOnDc \<noteq> 0xFFFFFFFF" "topmost [uOn] [uOnDc] 5 n = Some V"
    and res: "Kit_TruthIsop5_rec uOn uOnDc n v = (pcRes, r, v')"
  shows "isop_post n (tfun 5 [uOn]) (tfun 5 [uOnDc]) (isop_need5 n) v pcRes (tfun 5 [r]) v'"
proof -
  define on dc where "on = tfun 5 [uOn]" and "dc = tfun 5 [uOnDc]"
  note bel = below_cof [OF bel(1), of False, folded on_def] below_cof [OF bel(1), of True, folded on_def]
    below_cof [OF bel(2), of False, folded dc_def] below_cof [OF bel(2), of True, folded dc_def]
  have imp': "cof V b on m \<Longrightarrow> cof V b dc m" for b m using imp by (simp add: cof_def on_def dc_def)
  define on0 on1 dc0 dc1 where cdefs: "on0 = hd (Kit_TruthCofactor0 [uOn] (V + 1) V)"
    "on1 = hd (Kit_TruthCofactor1 [uOn] (V + 1) V)" "dc0 = hd (Kit_TruthCofactor0 [uOnDc] (V + 1) V)"
    "dc1 = hd (Kit_TruthCofactor1 [uOnDc] (V + 1) V)"
  have tf: "tfun 5 [on0] = cof V False on" "tfun 5 [on1] = cof V True on"
    "tfun 5 [dc0] = cof V False dc" "tfun 5 [dc1] = cof V True dc"
    unfolding cdefs on_def dc_def by (rule tfun_cofactor_word [OF V5(1)])+
  note tf = tfun_word_ops tf
  obtain pc0 r0 v0 where e0: "Kit_TruthIsop5_rec (on0 AND NOT dc1) dc0 V v = (pc0, r0, v0)"
    by (rule prod_cases3)
  obtain pc1 r1 v1 where e1: "Kit_TruthIsop5_rec (on1 AND NOT dc0) dc1 V v0 = (pc1, r1, v1)"
    by (rule prod_cases3)
  obtain pc2 r2 v2 where e2: "Kit_TruthIsop5_rec ((on0 AND NOT r0) OR (on1 AND NOT r1)) (dc0 AND dc1) V v1 =
    (pc2, r2, v2)" by (rule prod_cases3)
  obtain p u where f: "Vec_IntFetch v2 (length (pCubes (isop_cover V (the pc0) (the pc1) (the pc2)))) = (p, u)"
    by fastforce
  let ?r = "r2 OR ((r0 AND NOT (uMasks ! V)) OR (r1 AND uMasks ! V))"
  note res = res [unfolded Kit_TruthIsop5_rec.simps [of uOn uOnDc n v] if_not_P [OF split(1)]
    if_not_P [OF split(2)] split(3) option.case Let_def, folded cdefs, unfolded e0 prod.case]
  have p0: "isop_post V (\<lambda>m. cof V False on m \<and> \<not> cof V True dc m) (cof V False dc)
      (isop_need5 V) v pc0 (tfun 5 [r0]) v0"
    using IH [OF _ _ _ e0] bel imp' unfolding tf by (simp add: below_const)
  have p1: "isop_post V (\<lambda>m. cof V True on m \<and> \<not> cof V False dc m) (cof V True dc)
      (isop_need5 V) v0 pc1 (tfun 5 [r1]) v1"
    using IH [OF _ _ _ e1] bel imp' unfolding tf by (simp add: below_const)
  have p2: "isop_post V (\<lambda>m. cof V False on m \<and> \<not> tfun 5 [r0] m \<or> cof V True on m \<and> \<not> tfun 5 [r1] m)
      (\<lambda>m. cof V False dc m \<and> cof V True dc m) (isop_need5 V) v1 pc2 (tfun 5 [r2]) v2"
    if c: "pc0 = Some c0" "pc1 = Some c1" for c0 c1
  proof (rule IH [OF _ _ _ e2, unfolded tf])
    have "below V (tfun 5 [r0])" "below V (tfun 5 [r1])"
      using p0 p1 c by (auto simp: isop_post_def intro: isop_below)
    then show "below V (\<lambda>m. cof V False on m \<and> \<not> tfun 5 [r0] m \<or> cof V True on m \<and> \<not> tfun 5 [r1] m)"
      by (intro below_const bel)
    show "cof V False dc m \<and> cof V True dc m"
      if "cof V False on m \<and> \<not> tfun 5 [r0] m \<or> cof V True on m \<and> \<not> tfun 5 [r1] m" for m
      using that imp' isop_post_lower [OF p0 [unfolded c]] isop_post_lower [OF p1 [unfolded c]] by blast
  qed (intro below_const bel)
  show ?thesis
    unfolding on_def [symmetric] dc_def [symmetric]
  proof (rule isop_split [OF _ V5(2) _ p0 p1 p2 f, where v = v and s = 0])
    show "0 + (3 * isop_need5 V + 2 ^ Suc V) \<le> isop_need5 n"
      using isop_need5_mono [of "Suc V" n] V5(2) by simp
    show "(pcRes, v') = (case pc0 of None \<Rightarrow> (None, v0) | Some c0 \<Rightarrow>
      (case pc1 of None \<Rightarrow> (None, v1) | Some c1 \<Rightarrow>
      (case pc2 of None \<Rightarrow> (None, v2) | Some c2 \<Rightarrow>
      (case p of None \<Rightarrow> None | Some _ \<Rightarrow> Some (isop_cover V c0 c1 c2), u))))"
      using res f e1 e2 by (auto split: option.splits)
    show "tfun 5 [r] = (\<lambda>m. tfun 5 [r2] m \<or> (if bit m V then tfun 5 [r1] m else tfun 5 [r0] m))" if "pcRes \<noteq> None"
    proof -
      have "r = ?r" using that res f e1 e2 by (auto split: option.splits)
      then show ?thesis by (auto simp: tfun_word_ops uMasks_bit [OF V5(1)])
    qed
  qed (use V5 m in \<open>simp_all add: on_def\<close>)
qed

lemma isop5_rec:
  assumes "n \<le> 5" "below n (tfun 5 [uOn])" "below n (tfun 5 [uOnDc])"
    and "\<And>m. tfun 5 [uOn] m \<Longrightarrow> tfun 5 [uOnDc] m"
    and "Kit_TruthIsop5_rec uOn uOnDc n v = (pcRes, r, v')"
  shows "isop_post n (tfun 5 [uOn]) (tfun 5 [uOnDc]) (isop_need5 n) v pcRes (tfun 5 [r]) v'"
  using assms
proof (induction n arbitrary: uOn uOnDc v pcRes r v' rule: less_induct)
  case (less n)
  define on dc where "on = tfun 5 [uOn]" and "dc = tfun 5 [uOnDc]"
  note res = less.prems(5) [unfolded Kit_TruthIsop5_rec.simps [of uOn uOnDc n v]]
  consider (empty) "uOn = 0" | (full) "uOn \<noteq> 0" "uOnDc = 0xFFFFFFFF"
    | (split) "uOn \<noteq> 0" "uOnDc \<noteq> 0xFFFFFFFF" by blast
  then show ?case
  proof cases
    case empty
    then have "tfun 5 [uOn] = (\<lambda>_. False)" by (simp add: tfun_zero)
    moreover have "tfun 5 [0 :: u32] = (\<lambda>_. False)" by (simp add: tfun_zero)
    moreover have "pcRes = Some \<lparr>nLits = 0, pCubes = []\<rparr>" "r = 0" "v' = v" using res empty by auto
    ultimately show ?thesis by (simp add: isop_post_const0)
  next
    case full
    have on: "\<exists>m. tfun 5 [uOn] m" using full(1) tfun_zero [of uOn] by (auto simp: fun_eq_iff)
    have dc: "tfun 5 [uOnDc] = (\<lambda>_. True)" "tfun 5 [0xFFFFFFFF :: u32] = (\<lambda>_. True)"
      using full(2) tfun_full by blast+
    obtain p u where f: "Vec_IntFetch v 1 = (p, u)" by fastforce
    have "pcRes = (case p of None \<Rightarrow> None | Some _ \<Rightarrow> Some \<lparr>nLits = 0, pCubes = [0]\<rparr>)" "u = v'"
      "p \<noteq> None \<Longrightarrow> r = 0xFFFFFFFF"
      using res full f by (auto split: option.splits)
    then show ?thesis
      using isop_post_const1 [OF on, of "tfun 5 [uOnDc]" "tfun 5 [0xFFFFFFFF]" v v 0 "isop_need5 n" p u n]
        f dc isop_need5_pos [of n]
      by (cases p) (simp_all add: isop_post_def)
  next
    case split
    obtain m m' where m: "on m" "\<not> dc m'"
      using split tfun_zero [of uOn] tfun_full [of uOnDc] by (auto simp: on_def dc_def fun_eq_iff)
    have "topmost [uOn] [uOnDc] 5 n \<noteq> None"
      using topmost_NoneD [of "[uOn]" "[uOnDc]" 5 n m m'] less.prems(1,2,4) m by (auto simp: on_def dc_def)
    then obtain V where V: "topmost [uOn] [uOnDc] 5 n = Some V" by blast
    have Vn: "V < n" by (rule topmost_less [OF V])
    show ?thesis
    proof (rule isop5_rec_split [OF _ Vn])
      show "V < 5" using Vn less.prems(1) by simp
      show "tfun 5 [uOn] m" using m(1) by (simp add: on_def)
      show "below (Suc V) (tfun 5 [uOn])" "below (Suc V) (tfun 5 [uOnDc])"
        by (fact topmost_SomeD [OF V less.prems(1-3)])+
      show "topmost [uOn] [uOnDc] 5 n = Some V" by (fact V)
      show "Kit_TruthIsop5_rec uOn uOnDc n v = (pcRes, r, v')" by (fact less.prems(5))
      show "isop_post V (tfun 5 [a]) (tfun 5 [b]) (isop_need5 V) w c (tfun 5 [x]) w'"
        if "below V (tfun 5 [a])" "below V (tfun 5 [b])" "\<And>m. tfun 5 [a] m \<Longrightarrow> tfun 5 [b] m"
          "Kit_TruthIsop5_rec a b V w = (c, x, w')" for a b w c x w'
        using less.IH [OF Vn _ that] Vn less.prems(1) by simp
    qed (use split less.prems(4) in auto)
  qed
qed

subsection \<open>Tables of several words\<close>

lemma tfun_ops:
  assumes "tt_ok n out"
  shows "tfun n (Kit_TruthSharp out a b n) = (\<lambda>m. tfun n a m \<and> \<not> tfun n b m)"
    and "tfun n (Kit_TruthAnd out a b n) = (\<lambda>m. tfun n a m \<and> tfun n b m)"
    and "tfun n (Kit_TruthOr out a b n) = (\<lambda>m. tfun n a m \<or> tfun n b m)"
    and "tfun n (Kit_TruthNot out a n) = (\<lambda>m. \<not> tfun n a m)"
    and "tfun n (Kit_TruthClear out n) = (\<lambda>m. False)"
    and "tfun n (Kit_TruthFill out n) = (\<lambda>m. True)"
  using assms by (simp_all add: tfun_def fun_eq_iff tt_bits)

lemma tt_ok_replicate [simp]: "tt_ok n (replicate (Kit_TruthWordNum n) w)"
  by (simp add: tt_ok_def)

lemma IsConst_tfun:
  "Kit_TruthIsConst0 p n \<longleftrightarrow> tfun n p = (\<lambda>_. False)" "Kit_TruthIsConst1 p n \<longleftrightarrow> tfun n p = (\<lambda>_. True)"
  unfolding Kit_TruthIsConst0_iff Kit_TruthIsConst1_iff all_mod_tt_size by (auto simp: tfun_def fun_eq_iff)

lemma IsEqual_tfun: "Kit_TruthIsEqual p q n \<longleftrightarrow> tfun n p = tfun n q"
  unfolding Kit_TruthIsEqual_iff all_mod_tt_size by (auto simp: tfun_def fun_eq_iff)

lemma tfun_first_word:
  assumes "below 5 (tfun n p)"
  shows "tfun 5 [p ! 0] = tfun n p"
proof
  fix m
  have "tfun n p m = tfun n p (take_bit 5 m)" by (rule belowD [OF assms]) (simp add: bit_take_bit_iff)
  also have "\<dots> = tt_bit p (take_bit 5 m)" by (simp add: tfun_def mod_tt_size)
  also have "\<dots> = tfun 5 [p ! 0] m"
    by (simp add: tfun_word tt_bit_def take_bit_eq_mod)
  finally show "tfun 5 [p ! 0] m = tfun n p m" ..
qed

lemma tfun_for_words_const: "tfun n (for_words (Kit_TruthWordNum n) (\<lambda>_ _. w) (replicate (Kit_TruthWordNum n) 0)) = tfun 5 [w]"
proof
  fix m
  have "m mod tt_size n mod 32 = m mod 32" by (simp add: tt_size_def mod_mod_cancel)
  then show "tfun n (for_words (Kit_TruthWordNum n) (\<lambda>_ _. w) (replicate (Kit_TruthWordNum n) 0)) m = tfun 5 [w] m"
    by (simp add: tfun_def [of n] tt_bit_for_words tfun_word)
qed

lemma WordNum_5: "5 \<le> V \<Longrightarrow> Kit_TruthWordNum V = 2 ^ (V - 5)"
  by (auto simp: Kit_TruthWordNum_def)

lemma words_pow: "5 \<le> V \<Longrightarrow> 32 * Kit_TruthWordNum V = 2 ^ V"
  using tt_size_eq [of V] by (simp add: tt_size_def max_absorb1)

text \<open>The halves of a table are its cofactors.\<close>

lemma tfun_halves:
  assumes "5 \<le> V" "V < n" "tt_ok n p" "below (Suc V) (tfun n p)"
  shows "tfun V p = cof V False (tfun n p)"
    and "tfun V (drop (Kit_TruthWordNum V) p) = cof V True (tfun n p)"
proof -
  have mx: "max V 5 = V" "max n 5 = n" using assms(1,2) by auto
  show "tfun V p = cof V False (tfun n p)"
  proof
    fix m
    have "tfun n p (unset_bit V m) = tfun n p (take_bit V m)"
      by (rule belowD [OF assms(4)]) (auto simp: bit_simps less_Suc_eq)
    then show "tfun V p m = cof V False (tfun n p) m"
      using assms(2) by (simp add: cof_def tfun_def mod_tt_size mx min_def)
  qed
  have "(2 :: nat) ^ (V - 5) \<le> 2 ^ (n - 5)" using assms(2) by (intro power_increasing) auto
  then have "Kit_TruthWordNum V \<le> Kit_TruthWordNum n"
    using assms(1,2) WordNum_5 [of V] WordNum_5 [of n] by simp
  then have len: "Kit_TruthWordNum V \<le> length p" using assms(3) by (simp add: tt_ok_def)
  show "tfun V (drop (Kit_TruthWordNum V) p) = cof V True (tfun n p)"
  proof
    fix m
    have "tfun n p (set_bit V m) = tfun n p (take_bit V m + 2 ^ V)"
      using add_pow_set_bit [of "take_bit V m" V]
      by (intro belowD [OF assms(4)]) (auto simp: bit_simps less_Suc_eq)
    also have "\<dots> = tt_bit p (take_bit V m + 2 ^ V)"
    proof -
      have "take_bit V m + 2 ^ V < 2 ^ Suc V" using take_bit_nat_less_exp [of V m] by simp
      also have "\<dots> \<le> 2 ^ n" using assms(2) by (intro power_increasing) auto
      finally show ?thesis by (simp add: tfun_def mod_tt_size mx take_bit_nat_eq_self)
    qed
    also have "\<dots> = tt_bit (drop (Kit_TruthWordNum V) p) (take_bit V m)"
      using len by (simp add: tt_bit_def words_pow [OF assms(1), symmetric] add.commute)
    finally show "tfun V (drop (Kit_TruthWordNum V) p) m = cof V True (tfun n p) m"
      by (simp add: cof_def tfun_def mod_tt_size mx)
  qed
qed

lemma nth_concat_replicate:
  "i < k * length xs \<Longrightarrow> concat (replicate k xs) ! i = xs ! (i mod length xs)"
proof (induction k arbitrary: i)
  case (Suc k)
  show ?case
  proof (cases "i < length xs")
    case False
    then have "i - length xs < k * length xs" using Suc.prems by auto
    then show ?thesis using Suc.IH [of "i - length xs"] False by (simp add: nth_append le_mod_geq)
  qed (simp add: nth_append)
qed simp

text \<open>Copies of two tables in a row.\<close>

lemma tfun_copies:
  assumes "5 \<le> V" "V < n" "length t0 = Kit_TruthWordNum V" "length t1 = Kit_TruthWordNum V"
  shows "tfun n (concat (replicate (Kit_TruthWordNum n div (2 * Kit_TruthWordNum V)) (t0 @ t1))) =
    (\<lambda>m. if bit m V then tfun V t1 m else tfun V t0 m)"
proof
  fix m
  let ?w = "Kit_TruthWordNum V"
  define k where "k = m mod tt_size n"
  have mx: "max V 5 = V" "max n 5 = n" using assms(1,2) by auto
  have two: "2 * ?w = 2 ^ (Suc V - 5)" using WordNum_5 [OF assms(1)] Suc_diff_le [OF assms(1)] by (simp only: power_Suc)
  have "Kit_TruthWordNum n = 2 ^ (n - Suc V) * (2 * ?w)"
    using assms(1,2) WordNum_5 [of n] two power_add [of "2 :: nat" "n - Suc V" "Suc V - 5"] by simp
  then have all: "Kit_TruthWordNum n div (2 * ?w) * (2 * ?w) = Kit_TruthWordNum n" by simp
  have kb: "bit k j \<longleftrightarrow> j < n \<and> bit m j" for j
    by (simp add: k_def mod_tt_size mx bit_take_bit_iff)
  have k32: "k div 32 < Kit_TruthWordNum n" unfolding k_def by (rule div_32_less) simp
  define x where "x = k div 32 mod (2 * ?w)"
  have xb: "bit x j \<longleftrightarrow> j < Suc V - 5 \<and> bit k (j + 5)" for j
    unfolding x_def two by (simp add: take_bit_eq_mod [symmetric] bit_take_bit_iff bit_div_32)
  have x: "x < 2 * ?w" by (simp add: x_def)
  have low: "bit (x mod ?w) j \<longleftrightarrow> j < V - 5 \<and> bit m (j + 5)" for j
    using assms(2) by (auto simp: WordNum_5 [OF assms(1)] take_bit_eq_mod [symmetric] bit_take_bit_iff xb kb)
  have idx: "x mod ?w = m mod tt_size V div 32" "k mod 32 = m mod tt_size V mod 32"
  proof -
    show "x mod ?w = m mod tt_size V div 32"
      by (rule bit_eqI) (use assms(1) in \<open>auto simp: low bit_div_32 mod_tt_size mx bit_take_bit_iff\<close>)
    show "k mod 32 = m mod tt_size V mod 32" by (simp add: k_def tt_size_def mod_mod_cancel)
  qed
  have "bit x (V - 5) \<longleftrightarrow> bit m V" using xb [of "V - 5"] kb [of V] assms(1,2) by auto
  moreover have "bit x (V - 5) \<longleftrightarrow> ?w \<le> x"
  proof
    show "?w \<le> x" if "bit x (V - 5)" using bit_ge_pow [OF that] by (simp add: WordNum_5 [OF assms(1)])
    show "bit x (V - 5)" if "?w \<le> x"
      using bit_sub_pow [of "V - 5" x] that x bit_bound [of "x - ?w" "V - 5" "V - 5"]
      by (auto simp: WordNum_5 [OF assms(1)])
  qed
  ultimately have hi: "?w \<le> x \<longleftrightarrow> bit m V" by blast
  have "concat (replicate (Kit_TruthWordNum n div (2 * ?w)) (t0 @ t1)) ! (k div 32) = (t0 @ t1) ! x"
    using nth_concat_replicate [of "k div 32" "Kit_TruthWordNum n div (2 * ?w)" "t0 @ t1"] all k32 assms(3,4)
    by (simp add: x_def mult_2)
  also have "\<dots> = (if ?w \<le> x then t1 ! (x mod ?w) else t0 ! (x mod ?w))"
    using x assms(3,4) by (auto simp: nth_append le_mod_geq)
  finally show "tfun n (concat (replicate (Kit_TruthWordNum n div (2 * ?w)) (t0 @ t1))) m =
      (if bit m V then tfun V t1 m else tfun V t0 m)"
    unfolding tfun_def tt_bit_def k_def [symmetric] hi by (simp add: idx)
qed

fun isop_need :: "nat \<Rightarrow> nat" where
  "isop_need 0 = 2"
| "isop_need (Suc n) = Kit_TruthWordNum (Suc n) + 3 * isop_need n + 2 ^ Suc n"

lemma isop_need_mono: "m \<le> n \<Longrightarrow> isop_need m \<le> isop_need n"
  by (rule lift_Suc_mono_le [of isop_need]) auto

lemma isop_need_ge: "Kit_TruthWordNum n + 1 \<le> isop_need n"
  by (cases n) (simp_all add: Kit_TruthWordNum_def Suc_le_eq)

lemma isop_need_5: "Kit_TruthWordNum n + isop_need5 n \<le> isop_need n"
proof -
  have le: "isop_need5 k \<le> isop_need k" for k by (induction k) auto
  show ?thesis using le [of "n - 1"] by (cases n) (auto simp: Kit_TruthWordNum_def)
qed

lemma isop_post_weaken:
  "isop_post n on dc need u pc r v' \<Longrightarrow> nSize u \<le> nSize v + s \<Longrightarrow> nCap u = nCap v \<Longrightarrow>
    s + need \<le> need' \<Longrightarrow> n \<le> n' \<Longrightarrow> isop_post n' on dc need' v pc r v'"
  using isop_mono [of n on dc _ r n'] by (auto simp: isop_post_def split: option.splits)

lemma isop_rec_split:
  assumes V5: "5 \<le> V" "V < 16" "V < n" and m: "tfun n puOn m"
    and ok: "tt_ok n puOn" "tt_ok n puOnDc"
    and bel: "below (Suc V) (tfun n puOn)" "below (Suc V) (tfun n puOnDc)"
    and imp: "\<And>m. tfun n puOn m \<Longrightarrow> tfun n puOnDc m"
    and IH: "\<And>puOn puOnDc v pcRes r v'. tt_ok V puOn \<Longrightarrow> tt_ok V puOnDc \<Longrightarrow>
      (\<And>m. tfun V puOn m \<Longrightarrow> tfun V puOnDc m) \<Longrightarrow> Kit_TruthIsop_rec puOn puOnDc V v = (pcRes, r, v') \<Longrightarrow>
      isop_post V (tfun V puOn) (tfun V puOnDc) (isop_need V) v pcRes (tfun V r) v'"
    and split: "Vec_IntFetch v (Kit_TruthWordNum n) = (Some q, u)" "\<not> Kit_TruthIsConst0 puOn n"
      "\<not> Kit_TruthIsConst1 puOnDc n" "topmost puOn puOnDc n n = Some V" "\<not> V < 5"
    and res: "Kit_TruthIsop_rec puOn puOnDc n v = (pcRes, r, v')"
  shows "isop_post n (tfun n puOn) (tfun n puOnDc) (isop_need n) v pcRes (tfun n r) v'"
proof -
  define on dc where "on = tfun n puOn" and "dc = tfun n puOnDc"
  have imp': "cof V b on m \<Longrightarrow> cof V b dc m" for b m using imp by (simp add: cof_def on_def dc_def)
  let ?w = "Kit_TruthWordNum V"
  define z on1 dc1 where cdefs: "z = replicate ?w (0 :: u32)" "on1 = drop ?w puOn" "dc1 = drop ?w puOnDc"
  have z: "tt_ok V z" "length z = ?w" by (simp_all add: cdefs)
  have n1: "n = Suc (n - 1)" "V \<le> n - 1" using V5 by auto
  have "2 * ?w \<le> Kit_TruthWordNum n"
    using WordNum_5 [OF V5(1)] WordNum_5 [of n] V5(1,3) power_increasing [of "Suc (V - 5)" "n - 5" "2 :: nat"] by simp
  then have okV: "tt_ok V puOn" "tt_ok V puOnDc" "tt_ok V on1" "tt_ok V dc1"
    using ok by (auto simp: tt_ok_def cdefs)
  note tf = tfun_halves [OF V5(1,3) ok(1) bel(1), folded on_def cdefs] tfun_halves [OF V5(1,3) ok(2) bel(2), folded dc_def cdefs]
  define s0 where "s0 = Kit_TruthSharp z puOn dc1 V"
  define s1 where "s1 = Kit_TruthSharp z on1 puOnDc V"
  obtain pc0 r0 v0 where e0: "Kit_TruthIsop_rec s0 puOnDc V u = (pc0, r0, v0)"
    by (rule prod_cases3)
  obtain pc1 r1 v1 where e1: "Kit_TruthIsop_rec s1 dc1 V v0 = (pc1, r1, v1)"
    by (rule prod_cases3)
  define t0 where "t0 = Kit_TruthSharp s0 puOn r0 V"
  define t1 where "t1 = Kit_TruthSharp s1 on1 r1 V"
  define o2 where "o2 = Kit_TruthOr t0 t0 t1 V"
  define d2 where "d2 = Kit_TruthAnd t1 puOnDc dc1 V"
  obtain pc2 r2 v2 where e2: "Kit_TruthIsop_rec o2 d2 V v1 = (pc2, r2, v2)"
    by (rule prod_cases3)
  obtain p x where f: "Vec_IntFetch v2 (length (pCubes (isop_cover V (the pc0) (the pc1) (the pc2)))) = (p, x)"
    by fastforce
  have len: "length s0 = ?w" "length s1 = ?w" "length t0 = ?w" "length t1 = ?w" "length o2 = ?w" "length d2 = ?w"
    by (simp_all add: s0_def s1_def t0_def t1_def o2_def d2_def z)
  then have okt: "tt_ok V s0" "tt_ok V s1" "tt_ok V t0" "tt_ok V t1" "tt_ok V o2" "tt_ok V d2"
    by (simp_all add: tt_ok_def)
  have ts: "tfun V s0 = (\<lambda>m. cof V False on m \<and> \<not> cof V True dc m)"
    "tfun V s1 = (\<lambda>m. cof V True on m \<and> \<not> cof V False dc m)"
    "tfun V o2 = (\<lambda>m. cof V False on m \<and> \<not> tfun V r0 m \<or> cof V True on m \<and> \<not> tfun V r1 m)"
    "tfun V d2 = (\<lambda>m. cof V False dc m \<and> cof V True dc m)"
    by (simp_all add: s0_def s1_def t0_def t1_def o2_def d2_def tfun_ops z okt [unfolded s0_def s1_def t0_def t1_def o2_def d2_def] tf)
  let ?r = "concat (replicate (Kit_TruthWordNum n div (2 * ?w)) (Kit_TruthOr o2 r0 r2 V @ Kit_TruthOr d2 r1 r2 V))"
  have tr: "tfun n ?r = (\<lambda>m. tfun V r2 m \<or> (if bit m V then tfun V r1 m else tfun V r0 m))"
    by (subst tfun_copies [OF V5(1,3)]) (auto simp: len tfun_ops okt)
  have p0: "isop_post V (\<lambda>m. cof V False on m \<and> \<not> cof V True dc m) (cof V False dc)
      (isop_need V) u pc0 (tfun V r0) v0"
    using IH [OF okt(1) okV(2) _ e0] imp' unfolding tf ts by simp
  have p1: "isop_post V (\<lambda>m. cof V True on m \<and> \<not> cof V False dc m) (cof V True dc)
      (isop_need V) v0 pc1 (tfun V r1) v1"
    using IH [OF okt(2) okV(4) _ e1] imp' unfolding tf ts by simp
  have p2: "isop_post V (\<lambda>m. cof V False on m \<and> \<not> tfun V r0 m \<or> cof V True on m \<and> \<not> tfun V r1 m)
      (\<lambda>m. cof V False dc m \<and> cof V True dc m) (isop_need V) v1 pc2 (tfun V r2) v2"
    if c: "pc0 = Some c0" "pc1 = Some c1" for c0 c1
  proof (rule IH [OF okt(5,6) _ e2, unfolded ts])
    show "cof V False dc m \<and> cof V True dc m"
      if "cof V False on m \<and> \<not> tfun V r0 m \<or> cof V True on m \<and> \<not> tfun V r1 m" for m
      using that imp' isop_post_lower [OF p0 [unfolded c]] isop_post_lower [OF p1 [unfolded c]] by blast
  qed
  note res = res [unfolded Kit_TruthIsop_rec.simps [of puOn puOnDc n v] Let_def split(1) prod.case option.case
    if_not_P [OF split(2)] if_not_P [OF split(3)] if_not_P [OF split(5)] split(4), folded cdefs,
    folded s0_def s1_def, unfolded e0 prod.case]
  show ?thesis
    unfolding on_def [symmetric] dc_def [symmetric]
  proof (rule isop_split [OF V5(2,3) _ p0 p1 p2 f, where v = v and s = "Kit_TruthWordNum n"])
    show "Kit_TruthWordNum n + (3 * isop_need V + 2 ^ Suc V) \<le> isop_need n"
      using isop_need.simps(2) [of "n - 1"] isop_need_mono [OF n1(2)] power_increasing [of "Suc V" n "2 :: nat"] V5(3) n1
      by simp
    show "(pcRes, v') = (case pc0 of None \<Rightarrow> (None, v0) | Some c0 \<Rightarrow>
      (case pc1 of None \<Rightarrow> (None, v1) | Some c1 \<Rightarrow>
      (case pc2 of None \<Rightarrow> (None, v2) | Some c2 \<Rightarrow>
      (case p of None \<Rightarrow> None | Some _ \<Rightarrow> Some (isop_cover V c0 c1 c2), x))))"
      using res f e1 e2 [unfolded o2_def d2_def t0_def t1_def] by (simp split: option.splits)
    show "tfun n r = (\<lambda>m. tfun V r2 m \<or> (if bit m V then tfun V r1 m else tfun V r0 m))" if "pcRes \<noteq> None"
    proof -
      have "r = ?r"
        using that res f e1 e2 [unfolded o2_def d2_def t0_def t1_def]
        by (simp add: o2_def d2_def t0_def t1_def split: option.splits)
      then show ?thesis by (simp only: tr)
    qed
    show "nSize u \<le> nSize v + Kit_TruthWordNum n" "nCap u = nCap v"
      using split(1) by (auto simp: Vec_IntFetch_def Let_def split: if_splits)
  qed (use m in \<open>simp add: on_def\<close>)
qed

lemma isop_rec:
  assumes "n \<le> 16" "tt_ok n puOn" "tt_ok n puOnDc" "below n (tfun n puOn)" "below n (tfun n puOnDc)"
    and "\<And>m. tfun n puOn m \<Longrightarrow> tfun n puOnDc m"
    and "Kit_TruthIsop_rec puOn puOnDc n v = (pcRes, r, v')"
  shows "isop_post n (tfun n puOn) (tfun n puOnDc) (isop_need n) v pcRes (tfun n r) v'"
  using assms
proof (induction n arbitrary: puOn puOnDc v pcRes r v' rule: less_induct)
  case (less n)
  define on dc where "on = tfun n puOn" and "dc = tfun n puOnDc"
  note res = less.prems(7) [unfolded Kit_TruthIsop_rec.simps [of puOn puOnDc n v] Let_def]
  let ?w = "Kit_TruthWordNum n"
  obtain q u where fetch: "Vec_IntFetch v ?w = (q, u)" by fastforce
  note res = res [unfolded fetch prod.case]
  have u: "nSize u \<le> nSize v + ?w" "nCap u = nCap v"
    using fetch by (auto simp: Vec_IntFetch_def Let_def split: if_splits)
  show ?case
  proof (cases q)
    case None
    then have "nCap v < nSize v + ?w"
      using fetch Kit_TruthWordNum_pos [of n] by (auto simp: Vec_IntFetch_def Let_def split: if_splits)
    then show ?thesis using res None u isop_need_ge [of n] by (simp add: isop_post_def)
  next
    case q: (Some q')
    note res = res [unfolded q option.case]
    have V16: "n \<le> 16" by (rule less.prems(1))
    consider (empty) "Kit_TruthIsConst0 puOn n"
      | (full) "\<not> Kit_TruthIsConst0 puOn n" "Kit_TruthIsConst1 puOnDc n"
      | (split) "\<not> Kit_TruthIsConst0 puOn n" "\<not> Kit_TruthIsConst1 puOnDc n" by blast
    then show ?thesis
    proof cases
      case empty
      then have eq: "pcRes = Some \<lparr>nLits = 0, pCubes = []\<rparr>" "r = Kit_TruthClear (replicate ?w 0) n" "v' = u"
        using res by auto
      have "\<not> tfun n puOn m" "\<not> tfun n r m" for m
        using empty eq(2) tfun_ops(5) [OF tt_ok_replicate] by (simp_all add: IsConst_tfun)
      then show ?thesis
        unfolding eq(1,3) using u isop_need_ge [of n] by (intro isop_post_const0) simp_all
    next
      case full
      have ex: "\<exists>m. tfun n puOn m" using full(1) by (auto simp: IsConst_tfun fun_eq_iff)
      have all: "tfun n puOnDc m" "tfun n (Kit_TruthFill (replicate ?w 0) n) m" for m
        using full(2) tfun_ops(6) [OF tt_ok_replicate] by (simp_all add: IsConst_tfun)
      obtain p w where f: "Vec_IntFetch u 1 = (p, w)" by fastforce
      have "pcRes = (case p of None \<Rightarrow> None | Some _ \<Rightarrow> Some \<lparr>nLits = 0, pCubes = [0]\<rparr>)" "w = v'"
        "p \<noteq> None \<Longrightarrow> r = Kit_TruthFill (replicate ?w 0) n"
        using res full f by (auto split: option.splits)
      then show ?thesis
        using isop_post_const1 [OF ex all u isop_need_ge f] by (cases p) (simp_all add: isop_post_def)
    next
      case split
      note res = res [unfolded if_not_P [OF split(1)] if_not_P [OF split(2)]]
      obtain m m' where m: "on m" "\<not> dc m'"
        using split by (auto simp: on_def dc_def IsConst_tfun fun_eq_iff)
      have "topmost puOn puOnDc n n \<noteq> None"
        using topmost_NoneD [of puOn puOnDc n n m m'] less.prems(4,6) m by (auto simp: on_def dc_def)
      then obtain V where V: "topmost puOn puOnDc n n = Some V" by blast
      have Vn: "V < n" by (rule topmost_less [OF V])
      note bel = topmost_SomeD [OF V order_refl less.prems(4,5)]
      note res = res [unfolded V option.case]
      show ?thesis
      proof (cases "V < 5")
        case True
        have S5: "Suc V \<le> 5" using True by simp
        note first = tfun_first_word [OF below_mono [OF bel(1) S5]] tfun_first_word [OF below_mono [OF bel(2) S5]]
        obtain x w where e: "Kit_TruthIsop5_rec (puOn ! 0) (puOnDc ! 0) (V + 1) u = (pcRes, x, w)" "v' = w"
          "r = for_words ?w (\<lambda>_ _. x) (replicate ?w 0)"
          using res True by (auto split: prod.splits)
        have "isop_post (Suc V) on dc (isop_need5 (Suc V)) u pcRes (tfun 5 [x]) v'"
          using isop5_rec [OF _ _ _ _ e(1)] S5 bel less.prems(6)
          by (simp add: first on_def dc_def e(2))
        then show ?thesis
          unfolding e(3) tfun_for_words_const on_def [symmetric] dc_def [symmetric]
          by (rule isop_post_weaken [OF _ u])
            (use Vn isop_need_5 [of n] isop_need5_mono [of "Suc V" n] in simp_all)
      next
        case False
        have V5: "5 \<le> V" "V < 16" using False Vn V16 by simp_all
        have okV: "tt_ok V p \<Longrightarrow> below V (tfun V p)" for p
          using below_tfun [of V p] V5(1) by (simp add: max_absorb1)
        show ?thesis
        proof (rule isop_rec_split [OF V5 Vn _ less.prems(2,3) bel less.prems(6)])
          show "tfun n puOn m" using m(1) by (simp add: on_def)
          show "isop_post V (tfun V a) (tfun V b) (isop_need V) w c (tfun V x) w'"
            if "tt_ok V a" "tt_ok V b" "\<And>m. tfun V a m \<Longrightarrow> tfun V b m"
              "Kit_TruthIsop_rec a b V w = (c, x, w')" for a b w c x w'
            using less.IH [OF Vn _ that(1,2) okV [OF that(1)] okV [OF that(2)] that(3,4)] V5(2) by simp
        qed (use fetch q split V False less.prems(7) in auto)
      qed
    qed
  qed
qed

section \<open>The top-level routine\<close>

lemma Kit_TruthNot_twice: "tt_ok n p \<Longrightarrow> Kit_TruthNot (Kit_TruthNot p p n) (Kit_TruthNot p p n) n = p"
  by (rule nth_equalityI) (auto simp: Kit_TruthNot_def tt_ok_def nth_for_words_down)

lemma below_not: "below n f \<Longrightarrow> below n (\<lambda>m. \<not> f m)"
  unfolding below_def by blast

lemma isop_top:
  assumes "n \<le> 16" "tt_ok n p" "below n (tfun n p)"
    and "Kit_TruthIsop_rec p p n v = (pcRes, r, v')"
  shows "isop_post n (tfun n p) (tfun n p) (isop_need n) v pcRes (tfun n p) v'"
proof -
  have post: "isop_post n (tfun n p) (tfun n p) (isop_need n) v pcRes (tfun n r) v'"
    using isop_rec [OF assms(1,2,2,3,3) _ assms(4)] by simp
  have "tfun n r = tfun n p" if "pcRes = Some c" for c
    using post isopD(1,2) [of n "tfun n p" "tfun n p" "pCubes c" "tfun n r"] that by (auto simp: isop_post_def)
  then show ?thesis using post by (cases pcRes) (auto simp: isop_post_def)
qed

text \<open>The assertions \<open>Kit_TruthIsEqual( puTruth, pResult, nVars )\<close> of \<open>Kit_TruthIsop\<close> hold.\<close>

lemma isop_asserts:
  assumes "n \<le> 16" "tt_ok n p" "below n (tfun n p)"
    and "Kit_TruthIsop_rec p p n v = (Some pcRes, pResult, v')"
  shows "Kit_TruthIsEqual p pResult n"
  using isop_rec [OF assms(1,2,2,3,3) _ assms(4)] isopD(1,2) [of n "tfun n p" "tfun n p" "pCubes pcRes" "tfun n pResult"]
  by (auto simp: isop_post_def IsEqual_tfun)

lemma isop_const_cover:
  "length cs = 0 \<or> length cs = 1 \<and> cs ! 0 = 0 \<Longrightarrow> take (length cs) [0] = cs"
  by (cases cs) auto

text \<open>
  C3 (functional). For up to 16 variables \<open>Kit_TruthIsop\<close> leaves the table as it was and returns
  either 0 with an irredundant prime cover of the function, or, when both polarities are tried, 1
  with an irredundant prime cover of its complement. It returns -1 only when the memory limit is
  below the explicit bound \<open>isop_need nVars\<close>.
\<close>

theorem Kit_TruthIsop_correct:
  assumes "n \<le> 16" "tt_ok n p" "below n (tfun n p)"
  shows "case Kit_TruthIsop p n cap fTryBoth of
    (ret, None, p') \<Rightarrow> ret = -1 \<and> p' = p \<and> max cap KIT_ISOP_MEM_LIMIT < isop_need n
  | (ret, Some cs, p') \<Rightarrow> p' = p \<and>
      (ret = 0 \<and> isop n (tfun n p) (tfun n p) cs (tfun n p) \<or>
       ret = 1 \<and> fTryBoth \<and>
         isop n (\<lambda>m. \<not> tfun n p m) (\<lambda>m. \<not> tfun n p m) cs (\<lambda>m. \<not> tfun n p m))"
proof -
  let ?v = "\<lparr>nSize = 0, nCap = max cap KIT_ISOP_MEM_LIMIT\<rparr>" and ?q = "Kit_TruthNot p p n"
  obtain c r v where e: "Kit_TruthIsop_rec p p n ?v = (c, r, v)" by (rule prod_cases3)
  obtain c' r' v' where e': "Kit_TruthIsop_rec ?q ?q n v = (c', r', v')" by (rule prod_cases3)
  note post = isop_top [OF assms e]
  have "tfun n ?q = (\<lambda>m. \<not> tfun n p m)" by (rule tfun_ops(4) [OF assms(2)])
  then have post': "isop_post n (\<lambda>m. \<not> tfun n p m) (\<lambda>m. \<not> tfun n p m) (isop_need n) v c' (\<lambda>m. \<not> tfun n p m) v'"
    using isop_top [OF assms(1) _ _ e'] assms(2) below_not [OF assms(3)] by (simp add: tt_ok_def)
  show ?thesis
  proof (cases c)
    case None
    then show ?thesis using e post by (simp add: Kit_TruthIsop_def isop_post_def Let_def)
  next
    case (Some d)
    show ?thesis
      using e e' post post' Some isop_const_cover [of "pCubes d"] Kit_TruthNot_twice [OF assms(2)]
      by (auto simp: Kit_TruthIsop_def isop_post_def Let_def split: option.splits)
  qed
qed

theorem Kit_TruthIsop_witness:
  "case Kit_TruthIsop [0xCAFEBABE] 5 0 True of
    (ret, None, p') \<Rightarrow> ret = -1 \<and> p' = [0xCAFEBABE] \<and> max 0 KIT_ISOP_MEM_LIMIT < isop_need 5
  | (ret, Some cs, p') \<Rightarrow> p' = [0xCAFEBABE] \<and>
      (ret = 0 \<and> isop 5 (tfun 5 [0xCAFEBABE]) (tfun 5 [0xCAFEBABE]) cs (tfun 5 [0xCAFEBABE]) \<or>
       ret = 1 \<and> True \<and> isop 5 (\<lambda>m. \<not> tfun 5 [0xCAFEBABE] m) (\<lambda>m. \<not> tfun 5 [0xCAFEBABE] m) cs
         (\<lambda>m. \<not> tfun 5 [0xCAFEBABE] m))"
  using Kit_TruthIsop_correct [of 5 "[0xCAFEBABE]" 0 True] below_tfun [of 5 "[0xCAFEBABE]"]
  by (simp add: tt_ok_def Kit_TruthWordNum_def)

lemma isop_result:
  assumes "n \<le> 16" "tt_ok n p" "below n (tfun n p)"
    and "Kit_TruthIsop_rec p p n \<lparr>nSize = 0, nCap = max cap KIT_ISOP_MEM_LIMIT\<rparr> = (pcRes, r, v)"
  shows "isop_need n \<le> KIT_ISOP_MEM_LIMIT \<Longrightarrow> pcRes \<noteq> None"
  using isop_top [OF assms] by (cases pcRes) (auto simp: isop_post_def)

lemma isop_need_numeral:
  "isop_need (numeral k) = Kit_TruthWordNum (numeral k) + 3 * isop_need (pred_numeral k) + 2 ^ numeral k"
  unfolding numeral_eq_Suc [of k] by (rule isop_need.simps(2))

text \<open>
  C27 (bounds). The memory limit of \<open>2^20\<close> words is enough for every function of up to 11 variables:
  \<open>Kit_TruthIsop\<close> never returns -1 there, whatever the capacity of the vector it is given.
\<close>

theorem Kit_TruthIsop_memory:
  assumes "n \<le> 11" "tt_ok n p" "below n (tfun n p)"
  shows "fst (Kit_TruthIsop p n cap fTryBoth) \<in> {0, 1} \<and> fst (snd (Kit_TruthIsop p n cap fTryBoth)) \<noteq> None"
proof -
  have "isop_need 11 \<le> KIT_ISOP_MEM_LIMIT"
    by (simp add: isop_need_numeral isop_need.simps(2) [of 0, simplified] KIT_ISOP_MEM_LIMIT_def Kit_TruthWordNum_def)
  then have "isop_need n \<le> KIT_ISOP_MEM_LIMIT" using isop_need_mono [OF assms(1)] by simp
  then show ?thesis
    using isop_result [OF _ assms(2,3)] assms(1)
    by (auto simp: Kit_TruthIsop_def Let_def split: prod.splits option.splits)
qed

theorem Kit_TruthIsop_memory_witness:
  "fst (Kit_TruthIsop (replicate 64 0x12345678) 11 0 True) \<in> {0, 1} \<and>
   fst (snd (Kit_TruthIsop (replicate 64 0x12345678) 11 0 True)) \<noteq> None"
  by (rule Kit_TruthIsop_memory)
    (use below_tfun [of 11 "replicate 64 0x12345678"] in \<open>simp_all add: tt_ok_def Kit_TruthWordNum_def\<close>)

section \<open>Printing a cover\<close>

lemma those_eq_None: "those xs = None \<longleftrightarrow> None \<in> set xs"
  by (induction xs) (auto split: option.splits)

lemma bit_literal: "bit (3 AND drop_bit (2 * k) c :: u32) j \<longleftrightarrow> j < 2 \<and> bit c (2 * k + j)"
proof -
  have "(3 :: u32) = mask 2" by (simp add: mask_eq_exp_minus_1)
  then show ?thesis unfolding bit_and_iff bit_drop_bit_eq by (simp only: bit_mask_iff) auto
qed

lemma lit_char_None:
  assumes "lit_char (3 AND drop_bit (2 * k) c) = None"
  shows "bit c (2 * k) \<and> bit c (2 * k + 1)"
proof (rule ccontr)
  let ?x = "3 AND drop_bit (2 * k) c"
  assume not: "\<not> ?thesis"
  have b: "bit (1 :: u32) j \<longleftrightarrow> j = 0" "bit (2 :: u32) j \<longleftrightarrow> j = 1" for j
    using bit_exp_iff [of 1 j, where 'a = "32 word"] by (auto simp: bit_1_iff)
  have j: "j < 2 \<Longrightarrow> j = 0 \<or> j = 1" for j :: nat by auto
  have "?x = 0 \<or> ?x = 1 \<or> ?x = 2"
  proof (cases "bit c (2 * k)")
    case True
    then have "?x = 1" using not by (intro cube_eqI) (auto simp: bit_literal b dest!: j)
    then show ?thesis by simp
  next
    case neg: False
    show ?thesis
    proof (cases "bit c (2 * k + 1)")
      case True
      then have "?x = 2" using neg by (intro cube_eqI, unfold bit_literal b) (auto dest!: j)
      then show ?thesis by simp
    next
      case False
      then have "?x = 0" using neg by (intro cube_eqI) (auto simp: bit_literal dest!: j)
      then show ?thesis by simp
    qed
  qed
  then show False using assms by (auto simp: lit_char_def)
qed

lemma PrintCover_isop:
  assumes "isop n on dc cs r" "n \<le> 16"
  shows "Kit_TruthIsopPrintCover cs n fCompl \<noteq> None"
proof
  assume "Kit_TruthIsopPrintCover cs n fCompl = None"
  then obtain c k where c: "c \<in> set cs" "k < n" "lit_char (3 AND drop_bit (2 * k) c) = None"
    by (auto simp: Kit_TruthIsopPrintCover_def those_eq_None image_iff split: if_splits)
  then obtain i where "i < length cs" "c = cs ! i" by (metis in_set_conv_nth)
  then obtain m where "cube_eval c m" using isopD(5) [OF assms(1)] by (auto simp: owns_def)
  then show False using lit_char_None [OF c(3)] c(2) assms(2) by (auto simp: cube_eval_def dest!: spec [of _ k])
qed

text \<open>
  A cover returned by \<open>Kit_TruthIsop\<close> can be printed: no variable occurs with both
  literals in a cube, so the assertion of \<open>Kit_TruthIsopPrintCover\<close> never fails.
\<close>

theorem Kit_TruthIsopPrintCover_safe:
  assumes "n \<le> 16" "tt_ok n p" "below n (tfun n p)" "Kit_TruthIsop p n cap fTryBoth = (ret, Some cs, p')"
  shows "Kit_TruthIsopPrintCover cs n fCompl \<noteq> None"
proof -
  let ?v = "\<lparr>nSize = 0, nCap = max cap KIT_ISOP_MEM_LIMIT\<rparr>" and ?q = "Kit_TruthNot p p n"
  obtain c r v where e: "Kit_TruthIsop_rec p p n ?v = (c, r, v)" by (rule prod_cases3)
  obtain c' r' v' where e': "Kit_TruthIsop_rec ?q ?q n v = (c', r', v')" by (rule prod_cases3)
  have q: "tt_ok n ?q" "below n (tfun n ?q)"
    using assms(2) below_not [OF assms(3)] by (simp_all add: tt_ok_def tfun_ops(4))
  have "\<exists>on dc r. isop n on dc cs r"
    using isop_top [OF assms(1-3) e] isop_top [OF assms(1) q e'] assms(4) e e' isop_const_cover
    by (fastforce simp: Kit_TruthIsop_def isop_post_def Let_def split: option.splits if_splits)
  then show ?thesis using PrintCover_isop assms(1) by blast
qed

lemma isop_const_run:
  "Kit_TruthIsop [0xFFFFFFFF] 5 0 False = (0, Some [0], [0xFFFFFFFF])"
  by (simp add: Kit_TruthIsop_def Kit_TruthIsop_rec.simps [of "[0xFFFFFFFF]"] Vec_IntFetch_def
      KIT_ISOP_MEM_LIMIT_def Kit_TruthWordNum_def Kit_TruthIsConst0_def Kit_TruthIsConst1_def any_words_def)

theorem Kit_TruthIsopPrintCover_witness:
  "Kit_TruthIsopPrintCover [0] 5 False \<noteq> None"
  by (rule Kit_TruthIsopPrintCover_safe [OF _ _ _ isop_const_run])
    (use below_tfun [of 5 "[0xFFFFFFFF]"] in \<open>simp_all add: tt_ok_def Kit_TruthWordNum_def\<close>)

end
