(* ===== verification/Kit_Graph.thy ===== *)
theory Kit_Graph
  imports Kit_Isop
begin

text \<open>
  \<open>kitGraph.c\<close>: factored forms as arrays of AND nodes with complemented edges. The array is the list
  \<open>pNodes\<close>; an edge is a node number with a complement bit. \<open>edge_val\<close> is the value of an edge
  under an assignment of the leaves. The locale \<open>gate_builder\<close> states the contract of a circuit
  under construction, with what follows from it; its interpretation \<open>kg\<close> proves the contract of
  \<open>Kit_GraphAddNodeAnd\<close> and \<open>Kit_GraphAddNodeOr\<close>. The other parts are the truth table of a graph
  and the depth of a leaf. \<open>Kit_TruthToGraph\<close> is in the theory \<open>Kit_Factor\<close>.
\<close>

unbundle bit_operations_syntax

section \<open>Data\<close>

text \<open>The structs of \<open>kit.h\<close>; the node numbers of edges are 30-bit fields, the other fields of a
  node that this code does not use are set to 0 by \<open>memset\<close>.\<close>

record kit_edge =
  fCompl :: bool
  Node :: nat

record kit_node =
  eEdge0 :: kit_edge
  eEdge1 :: kit_edge
  pFunc :: u32
  Level :: nat
  fNodeOr :: bool
  fCompl0 :: bool
  fCompl1 :: bool
  nLat0 :: nat
  nLat1 :: nat
  nLat2 :: nat

text \<open>\<open>nSize\<close> is the length of \<open>pNodes\<close>, and \<open>gCap\<close> the number of allocated nodes.\<close>

record kit_graph =
  fConst :: bool
  nLeaves :: nat
  gCap :: nat
  pNodes :: "kit_node list"
  eRoot :: kit_edge

definition Kit_EdgeCreate :: "nat \<Rightarrow> bool \<Rightarrow> kit_edge" where
  "Kit_EdgeCreate n c = \<lparr>fCompl = c, Node = n mod 2 ^ 30\<rparr>"

definition Kit_EdgeToInt :: "kit_edge \<Rightarrow> u32" where
  "Kit_EdgeToInt e = push_bit 1 (of_nat (Node e)) OR (if fCompl e then 1 else 0)"

definition Kit_IntToEdge :: "u32 \<Rightarrow> kit_edge" where
  "Kit_IntToEdge x = Kit_EdgeCreate (unat (drop_bit 1 x)) (x AND 1 = 1)"

definition zero_node :: kit_node where
  "zero_node = (let e = \<lparr>fCompl = False, Node = 0\<rparr> in \<lparr>eEdge0 = e, eEdge1 = e, pFunc = 0, Level = 0,
    fNodeOr = False, fCompl0 = False, fCompl1 = False, nLat0 = 0, nLat1 = 0, nLat2 = 0\<rparr>)"

definition Kit_GraphIsConst :: "kit_graph \<Rightarrow> bool" where
  "Kit_GraphIsConst pGraph = fConst pGraph"

definition Kit_GraphIsConst0 :: "kit_graph \<Rightarrow> bool" where
  "Kit_GraphIsConst0 pGraph \<longleftrightarrow> fConst pGraph \<and> fCompl (eRoot pGraph)"

definition Kit_GraphIsConst1 :: "kit_graph \<Rightarrow> bool" where
  "Kit_GraphIsConst1 pGraph \<longleftrightarrow> fConst pGraph \<and> \<not> fCompl (eRoot pGraph)"

definition Kit_GraphIsComplement :: "kit_graph \<Rightarrow> bool" where
  "Kit_GraphIsComplement pGraph = fCompl (eRoot pGraph)"

definition Kit_GraphIsVar :: "kit_graph \<Rightarrow> bool" where
  "Kit_GraphIsVar pGraph \<longleftrightarrow> Node (eRoot pGraph) < nLeaves pGraph"

definition Kit_GraphComplement :: "kit_graph \<Rightarrow> kit_graph" where
  "Kit_GraphComplement pGraph = pGraph\<lparr>eRoot := (eRoot pGraph)\<lparr>fCompl := \<not> fCompl (eRoot pGraph)\<rparr>\<rparr>"

definition Kit_GraphSetRoot :: "kit_graph \<Rightarrow> kit_edge \<Rightarrow> kit_graph" where
  "Kit_GraphSetRoot pGraph e = pGraph\<lparr>eRoot := e\<rparr>"

definition Kit_GraphNodeNum :: "kit_graph \<Rightarrow> nat" where
  "Kit_GraphNodeNum pGraph = length (pNodes pGraph) - nLeaves pGraph"

definition Kit_GraphVarInt :: "kit_graph \<Rightarrow> nat" where
  "Kit_GraphVarInt pGraph = Node (eRoot pGraph)"

section \<open>Construction\<close>

definition Kit_GraphCreate :: "nat \<Rightarrow> kit_graph" where
  "Kit_GraphCreate n = \<lparr>fConst = False, nLeaves = n, gCap = 2 * n + 50,
    pNodes = replicate n zero_node, eRoot = \<lparr>fCompl = False, Node = 0\<rparr>\<rparr>"

definition Kit_GraphCreateConst0 :: kit_graph where
  "Kit_GraphCreateConst0 = \<lparr>fConst = True, nLeaves = 0, gCap = 0, pNodes = [],
    eRoot = \<lparr>fCompl = True, Node = 0\<rparr>\<rparr>"

definition Kit_GraphCreateConst1 :: kit_graph where
  "Kit_GraphCreateConst1 = \<lparr>fConst = True, nLeaves = 0, gCap = 0, pNodes = [],
    eRoot = \<lparr>fCompl = False, Node = 0\<rparr>\<rparr>"

definition Kit_GraphCreateLeaf :: "nat \<Rightarrow> nat \<Rightarrow> bool \<Rightarrow> kit_graph" where
  "Kit_GraphCreateLeaf iLeaf n c = (Kit_GraphCreate n)\<lparr>eRoot := \<lparr>fCompl = c, Node = iLeaf mod 2 ^ 30\<rparr>\<rparr>"

text \<open>\<open>Kit_GraphAppendNode\<close> returns the number of the new node.\<close>

definition Kit_GraphAppendNode :: "kit_graph \<Rightarrow> nat \<times> kit_graph" where
  "Kit_GraphAppendNode pGraph =
    (let pGraph = (if length (pNodes pGraph) = gCap pGraph then pGraph\<lparr>gCap := 2 * gCap pGraph\<rparr> else pGraph)
     in (length (pNodes pGraph), pGraph\<lparr>pNodes := pNodes pGraph @ [zero_node]\<rparr>))"

definition Kit_GraphAddNodeAnd :: "kit_graph \<Rightarrow> kit_edge \<Rightarrow> kit_edge \<Rightarrow> kit_edge \<times> kit_graph" where
  "Kit_GraphAddNodeAnd pGraph e0 e1 =
    (let (i, pGraph) = Kit_GraphAppendNode pGraph;
         pNode = (pNodes pGraph ! i)\<lparr>eEdge0 := e0, eEdge1 := e1, fCompl0 := fCompl e0, fCompl1 := fCompl e1\<rparr>;
         pGraph = pGraph\<lparr>pNodes := (pNodes pGraph)[i := pNode]\<rparr>
     in (Kit_EdgeCreate (length (pNodes pGraph) - 1) False, pGraph))"

definition compl_edge :: "kit_edge \<Rightarrow> kit_edge" where
  "compl_edge e = e\<lparr>fCompl := \<not> fCompl e\<rparr>"

definition Kit_GraphAddNodeOr :: "kit_graph \<Rightarrow> kit_edge \<Rightarrow> kit_edge \<Rightarrow> kit_edge \<times> kit_graph" where
  "Kit_GraphAddNodeOr pGraph e0 e1 =
    (let (i, pGraph) = Kit_GraphAppendNode pGraph;
         pNode = (pNodes pGraph ! i)\<lparr>eEdge0 := e0, eEdge1 := e1, fCompl0 := fCompl e0, fCompl1 := fCompl e1\<rparr>;
         pNode = pNode\<lparr>fNodeOr := True, eEdge0 := compl_edge (eEdge0 pNode), eEdge1 := compl_edge (eEdge1 pNode)\<rparr>;
         pGraph = pGraph\<lparr>pNodes := (pNodes pGraph)[i := pNode]\<rparr>
     in (Kit_EdgeCreate (length (pNodes pGraph) - 1) True, pGraph))"

definition Kit_GraphAddNodeXor :: "kit_graph \<Rightarrow> kit_edge \<Rightarrow> kit_edge \<Rightarrow> nat \<Rightarrow> kit_edge \<times> kit_graph" where
  "Kit_GraphAddNodeXor pGraph e0 e1 Type =
    (if Type = 0 then
       let e0 = compl_edge e0;
           (n0, pGraph) = Kit_GraphAddNodeAnd pGraph e0 e1;
           e0 = compl_edge e0;
           e1 = compl_edge e1;
           (n1, pGraph) = Kit_GraphAddNodeAnd pGraph e0 e1
       in Kit_GraphAddNodeOr pGraph n0 n1
     else
       let (n0, pGraph) = Kit_GraphAddNodeAnd pGraph e0 e1;
           e0 = compl_edge e0;
           e1 = compl_edge e1;
           (n1, pGraph) = Kit_GraphAddNodeAnd pGraph e0 e1;
           (n, pGraph) = Kit_GraphAddNodeOr pGraph n0 n1
       in (compl_edge n, pGraph))"

definition Kit_GraphAddNodeMux ::
    "kit_graph \<Rightarrow> kit_edge \<Rightarrow> kit_edge \<Rightarrow> kit_edge \<Rightarrow> nat \<Rightarrow> kit_edge \<times> kit_graph" where
  "Kit_GraphAddNodeMux pGraph eC eT eE Type =
    (if Type = 0 then
       let (n0, pGraph) = Kit_GraphAddNodeAnd pGraph eC eT;
           eC = compl_edge eC;
           (n1, pGraph) = Kit_GraphAddNodeAnd pGraph eC eE
       in Kit_GraphAddNodeOr pGraph n0 n1
     else
       let eT = compl_edge eT;
           eE = compl_edge eE;
           (n0, pGraph) = Kit_GraphAddNodeAnd pGraph eC eT;
           eC = compl_edge eC;
           (n1, pGraph) = Kit_GraphAddNodeAnd pGraph eC eE;
           (n, pGraph) = Kit_GraphAddNodeOr pGraph n0 n1
       in (compl_edge n, pGraph))"

text \<open>The loops of \<open>Kit_GraphToTruth\<close>: leaves first, then the internal nodes in order.\<close>

definition assign_leaves :: "kit_graph \<Rightarrow> kit_graph" where
  "assign_leaves pGraph = pGraph\<lparr>pNodes :=
    fold (\<lambda>i ns. ns[i := (ns ! i)\<lparr>pFunc := uMasks ! i\<rparr>]) [0..<nLeaves pGraph] (pNodes pGraph)\<rparr>"

definition node_truth :: "kit_node list \<Rightarrow> nat \<Rightarrow> u32" where
  "node_truth ns i =
    (let uTruth0 = pFunc (ns ! Node (eEdge0 (ns ! i)));
         uTruth1 = pFunc (ns ! Node (eEdge1 (ns ! i)));
         uTruth0 = (if fCompl (eEdge0 (ns ! i)) then NOT uTruth0 else uTruth0);
         uTruth1 = (if fCompl (eEdge1 (ns ! i)) then NOT uTruth1 else uTruth1)
     in uTruth0 AND uTruth1)"

definition Kit_GraphToTruth :: "kit_graph \<Rightarrow> u32" where
  "Kit_GraphToTruth pGraph =
    (if Kit_GraphIsConst pGraph then if Kit_GraphIsComplement pGraph then 0 else NOT 0
     else if Kit_GraphIsVar pGraph then
       if Kit_GraphIsComplement pGraph then NOT (uMasks ! Kit_GraphVarInt pGraph)
       else uMasks ! Kit_GraphVarInt pGraph
     else
       let ns = pNodes (assign_leaves pGraph);
           (ns, uTruth) = fold (\<lambda>i (ns, uTruth). let uTruth = node_truth ns i
             in (ns[i := (ns ! i)\<lparr>pFunc := uTruth\<rparr>], uTruth)) [nLeaves pGraph ..< length ns] (ns, 0)
       in if Kit_GraphIsComplement pGraph then NOT uTruth else uTruth)"

text \<open>
  \<open>Kit_GraphLeafDepth_rec\<close> on node numbers. The recursion follows the edges, which lead to smaller
  numbers in a well-formed graph; a node whose edge does not is given no depth here.
\<close>

function Kit_GraphLeafDepth_rec :: "kit_graph \<Rightarrow> nat \<Rightarrow> nat \<Rightarrow> int option" where
  "Kit_GraphLeafDepth_rec pGraph pNode pLeaf =
    (if pNode = pLeaf then Some 0
     else if pNode < nLeaves pGraph then Some (-100)
     else let f0 = Node (eEdge0 (pNodes pGraph ! pNode)); f1 = Node (eEdge1 (pNodes pGraph ! pNode)) in
     if f0 < pNode \<and> f1 < pNode then
       case Kit_GraphLeafDepth_rec pGraph f0 pLeaf of None \<Rightarrow> None | Some Depth0 \<Rightarrow>
       (case Kit_GraphLeafDepth_rec pGraph f1 pLeaf of None \<Rightarrow> None | Some Depth1 \<Rightarrow>
        let Depth = (if Depth0 > Depth1 then Depth0 else Depth1)
        in Some (if Depth = -100 then -100 else Depth + 1))
     else None)"
  by pat_completeness auto
termination
  by (relation "measure (\<lambda>(g, n, l). n)") auto

declare Kit_GraphLeafDepth_rec.simps [simp del]

section \<open>Values of nodes and edges\<close>

text \<open>
  The values of the nodes in the order of the array, for the leaf values given by the bits of a
  minterm.
\<close>

definition node_val :: "nat \<Rightarrow> nat \<Rightarrow> bool list \<Rightarrow> kit_node \<Rightarrow> bool" where
  "node_val L m vs n = (if length vs < L then bit m (length vs)
    else (fCompl (eEdge0 n) \<noteq> vs ! Node (eEdge0 n)) \<and> (fCompl (eEdge1 n) \<noteq> vs ! Node (eEdge1 n)))"

definition node_vals :: "nat \<Rightarrow> nat \<Rightarrow> kit_node list \<Rightarrow> bool list" where
  "node_vals L m ns = foldl (\<lambda>vs n. vs @ [node_val L m vs n]) [] ns"

definition edge_val :: "kit_graph \<Rightarrow> nat \<Rightarrow> kit_edge \<Rightarrow> bool" where
  "edge_val g m e \<longleftrightarrow> fCompl e \<noteq> node_vals (nLeaves g) m (pNodes g) ! Node e"

definition edge_ok :: "kit_graph \<Rightarrow> kit_edge \<Rightarrow> bool" where
  "edge_ok g e \<longleftrightarrow> Node e < length (pNodes g)"

definition graph_ext :: "kit_graph \<Rightarrow> kit_graph \<Rightarrow> bool" where
  "graph_ext g g' \<longleftrightarrow> (\<exists>ns. pNodes g' = pNodes g @ ns) \<and> nLeaves g' = nLeaves g"

text \<open>
  The invariant of a graph with room for \<open>k\<close> more nodes: the array is allocated, the edges of
  internal nodes lead to earlier nodes, and all node numbers fit into 30 bits.
\<close>

definition graph_inv :: "nat \<Rightarrow> kit_graph \<Rightarrow> bool" where
  "graph_inv k g \<longleftrightarrow> \<not> fConst g \<and> nLeaves g \<le> length (pNodes g) \<and>
    0 < gCap g \<and> length (pNodes g) \<le> gCap g \<and> length (pNodes g) + k \<le> 2 ^ 30 \<and>
    (\<forall>i<length (pNodes g). nLeaves g \<le> i \<longrightarrow>
      Node (eEdge0 (pNodes g ! i)) < i \<and> Node (eEdge1 (pNodes g ! i)) < i)"

lemma node_vals_snoc: "node_vals L m (ns @ [n]) = node_vals L m ns @ [node_val L m (node_vals L m ns) n]"
  by (simp add: node_vals_def)

lemma length_node_vals [simp]: "length (node_vals L m ns) = length ns"
  by (induction ns rule: rev_induct) (auto simp: node_vals_snoc node_vals_def)

lemma node_vals_prefix: "i < length ns \<Longrightarrow> node_vals L m (ns @ ms) ! i = node_vals L m ns ! i"
proof (induction ms rule: rev_induct)
  case (snoc n ms)
  then show ?case
    using node_vals_snoc [of L m "ns @ ms" n] by (simp add: nth_append)
qed simp

lemma node_vals_nth:
  assumes "i < length ns"
  shows "node_vals L m ns ! i = node_val L m (node_vals L m (take i ns)) (ns ! i)"
proof -
  have "ns = take i ns @ [ns ! i] @ drop (Suc i) ns" using assms by (simp add: id_take_nth_drop)
  then have "node_vals L m ns ! i = node_vals L m (take i ns @ [ns ! i]) ! i"
    using node_vals_prefix [of i "take i ns @ [ns ! i]" L m "drop (Suc i) ns"] assms by simp
  then show ?thesis using assms by (simp add: node_vals_snoc nth_append)
qed

lemma edge_val_leaf: "i < nLeaves g \<Longrightarrow> nLeaves g \<le> length (pNodes g) \<Longrightarrow>
    edge_val g m \<lparr>fCompl = c, Node = i\<rparr> \<longleftrightarrow> c \<noteq> bit m i"
  by (simp add: edge_val_def node_vals_nth node_val_def)

lemma compl_edge [simp]:
  "fCompl (compl_edge e) \<longleftrightarrow> \<not> fCompl e" "Node (compl_edge e) = Node e"
  "compl_edge (compl_edge e) = e"
  by (simp_all add: compl_edge_def)

lemma edge_val_compl: "edge_val g m (compl_edge e) \<longleftrightarrow> \<not> edge_val g m e"
  by (auto simp: edge_val_def)

lemma edge_ok_compl: "edge_ok g (compl_edge e) = edge_ok g e"
  by (simp add: edge_ok_def)

lemma graph_ext_refl [simp]: "graph_ext g g"
  by (simp add: graph_ext_def)

lemma graph_ext_trans: "graph_ext g g' \<Longrightarrow> graph_ext g' g'' \<Longrightarrow> graph_ext g g''"
  by (auto simp: graph_ext_def)

lemma graph_ext_ok: "graph_ext g g' \<Longrightarrow> edge_ok g e \<Longrightarrow> edge_ok g' e"
  by (auto simp: graph_ext_def edge_ok_def)

lemma graph_ext_val: "graph_ext g g' \<Longrightarrow> edge_ok g e \<Longrightarrow> edge_val g' m e = edge_val g m e"
  by (auto simp: graph_ext_def edge_ok_def edge_val_def node_vals_prefix)

lemma graph_inv_less: "graph_inv k g \<Longrightarrow> l \<le> k \<Longrightarrow> graph_inv l g"
  by (auto simp: graph_inv_def)

section \<open>Gates\<close>

text \<open>
  The contract of a circuit under construction, as the clients of the graph use it: an invariant
  with room for a number of gates, the edges that exist, their values, extension of the circuit,
  complement, and the two gates.
\<close>

locale gate_builder =
  fixes inv :: "nat \<Rightarrow> 'g \<Rightarrow> bool" and ok :: "'g \<Rightarrow> 'e \<Rightarrow> bool" and val :: "'g \<Rightarrow> 'm \<Rightarrow> 'e \<Rightarrow> bool"
    and ext :: "'g \<Rightarrow> 'g \<Rightarrow> bool" and neg :: "'e \<Rightarrow> 'e"
    and conj_gate :: "'g \<Rightarrow> 'e \<Rightarrow> 'e \<Rightarrow> 'e \<times> 'g" and disj_gate :: "'g \<Rightarrow> 'e \<Rightarrow> 'e \<Rightarrow> 'e \<times> 'g"
  assumes ext_refl: "ext g g"
    and ext_trans: "ext g g' \<Longrightarrow> ext g' g'' \<Longrightarrow> ext g g''"
    and ext_ok: "ext g g' \<Longrightarrow> ok g e \<Longrightarrow> ok g' e"
    and ext_val: "ext g g' \<Longrightarrow> ok g e \<Longrightarrow> val g' m e = val g m e"
    and neg_ok: "ok g (neg e) = ok g e"
    and neg_val: "val g m (neg e) = (\<not> val g m e)"
    and conj_gate: "inv (Suc k) g \<Longrightarrow> ok g a \<Longrightarrow> ok g b \<Longrightarrow> conj_gate g a b = (e, g') \<Longrightarrow>
      inv k g' \<and> ext g g' \<and> ok g' e \<and> (\<forall>m. val g' m e \<longleftrightarrow> val g m a \<and> val g m b)"
    and disj_gate: "inv (Suc k) g \<Longrightarrow> ok g a \<Longrightarrow> ok g b \<Longrightarrow> disj_gate g a b = (e, g') \<Longrightarrow>
      inv k g' \<and> ext g g' \<and> ok g' e \<and> (\<forall>m. val g' m e \<longleftrightarrow> val g m a \<or> val g m b)"
begin

text \<open>What a call that adds gates establishes.\<close>

definition built :: "nat \<Rightarrow> 'g \<Rightarrow> ('m \<Rightarrow> bool) \<Rightarrow> 'e \<times> 'g \<Rightarrow> bool" where
  "built k g f r \<longleftrightarrow> inv k (snd r) \<and> ext g (snd r) \<and> ok (snd r) (fst r) \<and> (\<forall>m. val (snd r) m (fst r) = f m)"

lemma built_conj: "inv (Suc k) g \<Longrightarrow> ok g a \<Longrightarrow> ok g b \<Longrightarrow> built k g (\<lambda>m. val g m a \<and> val g m b) (conj_gate g a b)"
  unfolding built_def by (rule conj_gate) auto

lemma built_disj: "inv (Suc k) g \<Longrightarrow> ok g a \<Longrightarrow> ok g b \<Longrightarrow> built k g (\<lambda>m. val g m a \<or> val g m b) (disj_gate g a b)"
  unfolding built_def by (rule disj_gate) auto

lemma builtD: "built k g f (e, g') \<Longrightarrow> inv k g'" "built k g f (e, g') \<Longrightarrow> ext g g'"
  "built k g f (e, g') \<Longrightarrow> ok g' e" "built k g f (e, g') \<Longrightarrow> val g' m e = f m"
  by (simp_all add: built_def)

lemma built_edge: "inv k g \<Longrightarrow> ok g e \<Longrightarrow> built k g (\<lambda>m. val g m e) (e, g)"
  by (simp add: built_def ext_refl)

lemma built_neg: "built k g f (e, g') \<Longrightarrow> built k g (\<lambda>m. \<not> f m) (neg e, g')"
  by (simp add: built_def neg_ok neg_val)

text \<open>A gate on the results of two calls in sequence.\<close>

lemma built_seq:
  assumes "built j g f (e1, g1)" "built (Suc k) g1 h (e2, g2)"
  shows "inv (Suc k) g2" "ext g g2" "ok g2 e1" "ok g2 e2" "val g2 m e1 = f m" "val g2 m e2 = h m"
proof -
  note b1 = builtD [OF assms(1)] and b2 = builtD [OF assms(2)]
  show "inv (Suc k) g2" "ok g2 e2" "val g2 m e2 = h m" by (fact b2)+
  show "ext g g2" by (rule ext_trans [OF b1(2) b2(2)])
  show "ok g2 e1" by (rule ext_ok [OF b2(2) b1(3)])
  show "val g2 m e1 = f m" by (simp add: ext_val [OF b2(2) b1(3)] b1(4))
qed

lemma built_from:
  assumes "ext g g'" "built k g' f r" "\<And>m. f m = f' m"
  shows "built k g f' r"
  using assms(2,3) ext_trans [OF assms(1)] by (simp add: built_def)

lemma built_seq_conj:
  assumes "built j g f (e1, g1)" "built (Suc k) g1 h (e2, g2)"
  shows "built k g (\<lambda>m. f m \<and> h m) (conj_gate g2 e1 e2)"
  by (rule built_from [OF built_seq(2) [OF assms] built_conj [OF built_seq(1,3,4) [OF assms]]])
    (simp add: built_seq(5,6) [OF assms])

lemma built_seq_disj:
  assumes "built j g f (e1, g1)" "built (Suc k) g1 h (e2, g2)"
  shows "built k g (\<lambda>m. f m \<or> h m) (disj_gate g2 e1 e2)"
  by (rule built_from [OF built_seq(2) [OF assms] built_disj [OF built_seq(1,3,4) [OF assms]]])
    (simp add: built_seq(5,6) [OF assms])

text \<open>Two conjunctions joined by a disjunction, and the other way round: the shape of the
  exclusive or and of the multiplexer.\<close>

lemma built_and_or:
  assumes "inv (3 + k) g" "ok g a" "ok g b" "ok g c" "ok g d"
  shows "built k g (\<lambda>m. val g m a \<and> val g m b \<or> val g m c \<and> val g m d)
    (case conj_gate g a b of (n0, g) \<Rightarrow> case conj_gate g c d of (n1, g) \<Rightarrow> disj_gate g n0 n1)"
proof -
  obtain n0 g1 where 1: "conj_gate g a b = (n0, g1)" by fastforce
  have b1: "built (Suc (Suc k)) g (\<lambda>m. val g m a \<and> val g m b) (n0, g1)"
    using built_conj [of "Suc (Suc k)" g a b] assms 1 by (simp add: numeral_eq_Suc)
  obtain n1 g2 where 2: "conj_gate g1 c d = (n1, g2)" by fastforce
  have b2: "built (Suc k) g1 (\<lambda>m. val g1 m c \<and> val g1 m d) (n1, g2)"
    using built_conj [of "Suc k" g1 c d] builtD(1,2) [OF b1] ext_ok assms 2 by simp
  have b3: "built k g2 (\<lambda>m. val g2 m n0 \<or> val g2 m n1) (disj_gate g2 n0 n1)"
    using built_disj [of k g2 n0 n1] builtD [OF b2] ext_ok [OF builtD(2) [OF b2] builtD(3) [OF b1]] by simp
  have "val g2 m n0 = (val g m a \<and> val g m b)" for m
    using ext_val [OF builtD(2) [OF b2] builtD(3) [OF b1]] builtD(4) [OF b1] by simp
  moreover have "val g2 m n1 = (val g m c \<and> val g m d)" for m
    using builtD(4) [OF b2] ext_val [OF builtD(2) [OF b1]] assms by simp
  moreover have "ext g g2" using ext_trans builtD(2) [OF b1] builtD(2) [OF b2] by blast
  ultimately have "built k g (\<lambda>m. val g m a \<and> val g m b \<or> val g m c \<and> val g m d) (disj_gate g2 n0 n1)"
    using b3 ext_trans by (auto simp: built_def)
  then show ?thesis by (simp add: 1 2)
qed

end

lemma edges_update: "(xs @ [x])[length xs := y] = xs @ [y]"
  by simp

lemma graph_inv_append:
  assumes "graph_inv (Suc k) g" "Node (eEdge0 n) < length (pNodes g)" "Node (eEdge1 n) < length (pNodes g)"
  shows "graph_inv k (g\<lparr>gCap := (if length (pNodes g) = gCap g then 2 * gCap g else gCap g),
    pNodes := pNodes g @ [n]\<rparr>)"
  using assms by (auto simp: graph_inv_def nth_append less_Suc_eq)

lemma AddNode_eq:
  "Kit_GraphAddNodeAnd g a b = (Kit_EdgeCreate (length (pNodes g)) False,
    g\<lparr>gCap := (if length (pNodes g) = gCap g then 2 * gCap g else gCap g),
      pNodes := pNodes g @ [zero_node\<lparr>eEdge0 := a, eEdge1 := b, fCompl0 := fCompl a, fCompl1 := fCompl b\<rparr>]\<rparr>)"
  "Kit_GraphAddNodeOr g a b = (Kit_EdgeCreate (length (pNodes g)) True,
    g\<lparr>gCap := (if length (pNodes g) = gCap g then 2 * gCap g else gCap g),
      pNodes := pNodes g @ [zero_node\<lparr>eEdge0 := compl_edge a, eEdge1 := compl_edge b,
        fCompl0 := fCompl a, fCompl1 := fCompl b, fNodeOr := True\<rparr>]\<rparr>)"
  by (simp_all add: Kit_GraphAddNodeAnd_def Kit_GraphAddNodeOr_def Kit_GraphAppendNode_def Let_def)

lemma edge_val_append:
  assumes "graph_inv (Suc k) g" "edge_ok g (eEdge0 n)" "edge_ok g (eEdge1 n)"
  shows "edge_val (g\<lparr>gCap := c, pNodes := pNodes g @ [n]\<rparr>) m (Kit_EdgeCreate (length (pNodes g)) b) \<longleftrightarrow>
    b \<noteq> (edge_val g m (eEdge0 n) \<and> edge_val g m (eEdge1 n))"
  using assms by (simp add: edge_val_def Kit_EdgeCreate_def node_vals_snoc nth_append node_val_def graph_inv_def)

interpretation kg: gate_builder graph_inv edge_ok edge_val graph_ext compl_edge
  Kit_GraphAddNodeAnd Kit_GraphAddNodeOr
proof
  fix k g a b e g'
  assume inv: "graph_inv (Suc k) g" and ok: "edge_ok g a" "edge_ok g b"
  have node: "Node (Kit_EdgeCreate (length (pNodes g)) c) = length (pNodes g)" for c
    using inv by (simp add: Kit_EdgeCreate_def graph_inv_def)
  show "graph_inv k g' \<and> graph_ext g g' \<and> edge_ok g' e \<and> (\<forall>m. edge_val g' m e \<longleftrightarrow> edge_val g m a \<and> edge_val g m b)"
    if "Kit_GraphAddNodeAnd g a b = (e, g')"
    using that inv ok node graph_inv_append [OF inv] edge_val_append [OF inv]
    by (auto simp: AddNode_eq edge_ok_def graph_ext_def)
  show "graph_inv k g' \<and> graph_ext g g' \<and> edge_ok g' e \<and> (\<forall>m. edge_val g' m e \<longleftrightarrow> edge_val g m a \<or> edge_val g m b)"
    if "Kit_GraphAddNodeOr g a b = (e, g')"
    using that inv ok node graph_inv_append [OF inv] edge_val_append [OF inv]
    by (auto simp: AddNode_eq edge_ok_def graph_ext_def edge_val_compl)
qed (auto simp: edge_ok_compl edge_val_compl graph_ext_ok graph_ext_val intro: graph_ext_trans)

text \<open>What a call that adds nodes establishes, written out.\<close>

definition graph_built :: "nat \<Rightarrow> kit_graph \<Rightarrow> (nat \<Rightarrow> bool) \<Rightarrow> kit_edge \<times> kit_graph \<Rightarrow> bool" where
  "graph_built k g f r \<longleftrightarrow> (case r of (e, g') \<Rightarrow>
    graph_inv k g' \<and> graph_ext g g' \<and> edge_ok g' e \<and> (\<forall>m. edge_val g' m e = f m))"

lemma built_graph: "kg.built = graph_built"
  by (auto simp: fun_eq_iff kg.built_def graph_built_def)

text \<open>
  In a well-formed graph with room for three nodes, both types of the exclusive or
  and of the multiplexer return an edge whose value is that of the operation on the values of the
  argument edges; the graph stays well-formed, and all edges there were keep their values.
\<close>

theorem Kit_GraphAddNodeXorMux_correct:
  assumes "graph_inv (3 + k) g" "edge_ok g a" "edge_ok g b" "edge_ok g c"
  shows "graph_built k g (\<lambda>m. edge_val g m a \<noteq> edge_val g m b) (Kit_GraphAddNodeXor g a b Type)
    \<and> graph_built k g (\<lambda>m. if edge_val g m c then edge_val g m a else edge_val g m b)
        (Kit_GraphAddNodeMux g c a b Type)"
proof -
  have neg: "graph_built k g f' (case r of (e, g') \<Rightarrow> (compl_edge e, g'))"
    if "graph_built k g f r" "\<And>m. f' m = (\<not> f m)" for f f' r
    using that kg.built_neg [unfolded built_graph, of k g f "fst r" "snd r"] by (cases r) (simp add: graph_built_def)
  have pos: "graph_built k g f' r" if "graph_built k g f r" "\<And>m. f' m = f m" for f f' r
    using that by (simp add: graph_built_def)
  note ao = kg.built_and_or [unfolded built_graph, OF assms(1)]
  note e = edge_ok_compl edge_val_compl assms(2-4)
  have "graph_built k g (\<lambda>m. edge_val g m a \<noteq> edge_val g m b) (Kit_GraphAddNodeXor g a b Type)"
  proof (cases "Type = 0")
    case True
    have "graph_built k g (\<lambda>m. edge_val g m a \<noteq> edge_val g m b)
      (case Kit_GraphAddNodeAnd g (compl_edge a) b of (n0, g) \<Rightarrow>
       case Kit_GraphAddNodeAnd g a (compl_edge b) of (n1, g) \<Rightarrow> Kit_GraphAddNodeOr g n0 n1)"
      by (rule pos [OF ao [of "compl_edge a" b a "compl_edge b"]]) (auto simp: e)
    then show ?thesis using True by (simp add: Kit_GraphAddNodeXor_def)
  next
    case False
    have "graph_built k g (\<lambda>m. edge_val g m a \<noteq> edge_val g m b)
      (case (case Kit_GraphAddNodeAnd g a b of (n0, g) \<Rightarrow>
       case Kit_GraphAddNodeAnd g (compl_edge a) (compl_edge b) of (n1, g) \<Rightarrow> Kit_GraphAddNodeOr g n0 n1)
       of (e, g') \<Rightarrow> (compl_edge e, g'))"
      by (rule neg [OF ao [of a b "compl_edge a" "compl_edge b"]]) (auto simp: e)
    then show ?thesis using False by (simp add: Kit_GraphAddNodeXor_def split_beta Let_def)
  qed
  moreover have "graph_built k g (\<lambda>m. if edge_val g m c then edge_val g m a else edge_val g m b)
        (Kit_GraphAddNodeMux g c a b Type)"
  proof (cases "Type = 0")
    case True
    have "graph_built k g (\<lambda>m. if edge_val g m c then edge_val g m a else edge_val g m b)
      (case Kit_GraphAddNodeAnd g c a of (n0, g) \<Rightarrow>
       case Kit_GraphAddNodeAnd g (compl_edge c) b of (n1, g) \<Rightarrow> Kit_GraphAddNodeOr g n0 n1)"
      by (rule pos [OF ao [of c a "compl_edge c" b]]) (auto simp: e)
    then show ?thesis using True by (simp add: Kit_GraphAddNodeMux_def)
  next
    case False
    have "graph_built k g (\<lambda>m. if edge_val g m c then edge_val g m a else edge_val g m b)
      (case (case Kit_GraphAddNodeAnd g c (compl_edge a) of (n0, g) \<Rightarrow>
       case Kit_GraphAddNodeAnd g (compl_edge c) (compl_edge b) of (n1, g) \<Rightarrow> Kit_GraphAddNodeOr g n0 n1)
       of (e, g') \<Rightarrow> (compl_edge e, g'))"
      by (rule neg [OF ao [of c "compl_edge a" "compl_edge c" "compl_edge b"]]) (auto simp: e)
    then show ?thesis using False by (simp add: Kit_GraphAddNodeMux_def split_beta Let_def)
  qed
  ultimately show ?thesis ..
qed

lemma graph_inv_Create: "2 * n + k \<le> 2 ^ 30 \<Longrightarrow> graph_inv k (Kit_GraphCreate n)"
  by (simp add: graph_inv_def Kit_GraphCreate_def)

lemma edge_ok_Create: "i < n \<Longrightarrow> edge_ok (Kit_GraphCreate n) \<lparr>fCompl = b, Node = i\<rparr>"
  by (simp add: edge_ok_def Kit_GraphCreate_def)

theorem Kit_GraphAddNodeXorMux_witness:
  "let g = Kit_GraphCreate 3; x = \<lambda>i. \<lparr>fCompl = False, Node = i\<rparr>
   in graph_built 0 g (\<lambda>m. edge_val g m (x 0) \<noteq> edge_val g m (x 1)) (Kit_GraphAddNodeXor g (x 0) (x 1) 1)
    \<and> graph_built 0 g (\<lambda>m. if edge_val g m (x 2) then edge_val g m (x 0) else edge_val g m (x 1))
        (Kit_GraphAddNodeMux g (x 2) (x 0) (x 1) 1)"
  unfolding Let_def
  by (rule Kit_GraphAddNodeXorMux_correct) (simp_all add: graph_inv_Create edge_ok_Create)

text \<open>Numbers for edges and back.\<close>

lemma Kit_IntToEdge_inverse:
  assumes "Node e < 2 ^ 30"
  shows "Kit_IntToEdge (Kit_EdgeToInt e) = e"
proof -
  have n: "bit (of_nat (Node e) :: u32) j \<longleftrightarrow> j < 32 \<and> bit (Node e) j" for j
    by (auto simp: bit_of_nat_iff dest: bit_imp_le_length)
  have hi: "bit (Node e) j \<Longrightarrow> j < 30" for j using bit_bound [OF assms, of j] by (meson not_le)
  have b: "bit (Kit_EdgeToInt e) j \<longleftrightarrow> j < 32 \<and> (if j = 0 then fCompl e else bit (Node e) (j - 1))" for j
    unfolding Kit_EdgeToInt_def bit_or_iff bit_push_bit_iff n by (cases j) (auto simp: bit_1_iff)
  have "unat (drop_bit 1 (Kit_EdgeToInt e)) = Node e"
    by (rule bit_eqI) (auto simp: bit_unsigned_iff bit_drop_bit_eq b dest: hi)
  moreover have "(Kit_EdgeToInt e AND 1 = 1) = fCompl e"
    using b [of 0] by (auto simp: and_one_eq odd_iff_mod_2_eq_one bit_0)
  ultimately show ?thesis using assms by (simp add: Kit_IntToEdge_def Kit_EdgeCreate_def)
qed

section \<open>The truth table of a graph\<close>

lemma tfun5: "tfun 5 [w] m = bit w (m mod 32)"
  by (simp add: tfun_word)

lemma tfun5_not: "tfun 5 [NOT w] m \<longleftrightarrow> \<not> tfun 5 [w] m"
  by (simp add: tfun5 not_32)

lemma length_assign_leaves [simp]: "length (pNodes (assign_leaves g)) = length (pNodes g)"
  using fold_elem_update [of "[0..<nLeaves g]" "\<lambda>i n. n\<lparr>pFunc := uMasks ! i\<rparr>" "pNodes g"]
  by (simp add: assign_leaves_def)

lemma assign_leaves_nth:
  assumes "i < length (pNodes g)"
  shows "pNodes (assign_leaves g) ! i =
      (if i < nLeaves g then (pNodes g ! i)\<lparr>pFunc := uMasks ! i\<rparr> else pNodes g ! i)"
  using fold_elem_update [of "[0..<nLeaves g]" "\<lambda>i n. n\<lparr>pFunc := uMasks ! i\<rparr>" "pNodes g" i] assms
  by (simp add: assign_leaves_def)

text \<open>After the nodes below \<open>j\<close> have been processed, their fields hold their tables.\<close>

definition truth_upto :: "kit_graph \<Rightarrow> kit_node list \<Rightarrow> nat \<Rightarrow> bool" where
  "truth_upto g ns j \<longleftrightarrow> length ns = length (pNodes g) \<and>
    (\<forall>i<length ns. eEdge0 (ns ! i) = eEdge0 (pNodes g ! i) \<and> eEdge1 (ns ! i) = eEdge1 (pNodes g ! i)) \<and>
    (\<forall>i<j. \<forall>m. tfun 5 [pFunc (ns ! i)] m = node_vals (nLeaves g) m (pNodes g) ! i)"

lemma truth_upto_leaves:
  assumes "graph_inv k g" "nLeaves g \<le> 5"
  shows "truth_upto g (pNodes (assign_leaves g)) (nLeaves g)"
proof -
  have L: "nLeaves g \<le> length (pNodes g)" using assms(1) by (simp add: graph_inv_def)
  have "tfun 5 [pFunc (pNodes (assign_leaves g) ! i)] m = node_vals (nLeaves g) m (pNodes g) ! i"
    if "i < nLeaves g" for i m
    using that L assms(2) by (simp add: assign_leaves_nth node_vals_nth node_val_def uMasks_bit)
  then show ?thesis by (simp add: truth_upto_def assign_leaves_nth)
qed

lemma node_truth_val:
  assumes "graph_inv k g" "truth_upto g ns j" "nLeaves g \<le> j" "j < length ns"
  shows "tfun 5 [node_truth ns j] m = node_vals (nLeaves g) m (pNodes g) ! j"
proof -
  have j: "j < length (pNodes g)" and e: "eEdge0 (ns ! j) = eEdge0 (pNodes g ! j)" "eEdge1 (ns ! j) = eEdge1 (pNodes g ! j)"
    using assms(2,4) by (auto simp: truth_upto_def)
  have lt: "Node (eEdge0 (pNodes g ! j)) < j" "Node (eEdge1 (pNodes g ! j)) < j"
    using assms(1,3) j by (auto simp: graph_inv_def)
  have t: "tfun 5 [pFunc (ns ! i)] m = node_vals (nLeaves g) m (pNodes g) ! i" if "i < j" for i
    using assms(2) that by (simp add: truth_upto_def)
  have p: "node_vals (nLeaves g) m (take j (pNodes g)) ! i = node_vals (nLeaves g) m (pNodes g) ! i" if "i < j" for i
    using node_vals_prefix [of i "take j (pNodes g)" "nLeaves g" m "drop j (pNodes g)"] that j by simp
  have w: "tfun 5 [if c then NOT x else x] m \<longleftrightarrow> c \<noteq> tfun 5 [x] m" for c x
    by (simp add: tfun5_not)
  have n: "node_truth ns j = (if fCompl (eEdge0 (pNodes g ! j)) then NOT (pFunc (ns ! Node (eEdge0 (pNodes g ! j))))
        else pFunc (ns ! Node (eEdge0 (pNodes g ! j)))) AND
      (if fCompl (eEdge1 (pNodes g ! j)) then NOT (pFunc (ns ! Node (eEdge1 (pNodes g ! j))))
        else pFunc (ns ! Node (eEdge1 (pNodes g ! j))))"
    by (simp only: node_truth_def Let_def e)
  have v: "node_vals (nLeaves g) m (pNodes g) ! j =
      node_val (nLeaves g) m (node_vals (nLeaves g) m (take j (pNodes g))) (pNodes g ! j)"
    by (rule node_vals_nth [OF j])
  show ?thesis
    unfolding n v tfun_word_ops(2) w t [OF lt(1)] t [OF lt(2)]
    using assms(3) j p [OF lt(1)] p [OF lt(2)] by (simp add: node_val_def)
qed

lemma truth_upto_fold:
  assumes "graph_inv k g" "truth_upto g ns j" "nLeaves g \<le> j" "j \<le> length ns"
  shows "\<exists>ns'. fold (\<lambda>i (ns, u). let u = node_truth ns i in (ns[i := (ns ! i)\<lparr>pFunc := u\<rparr>], u)) [j ..< length (pNodes g)] (ns, u) =
      (ns', if j < length (pNodes g) then pFunc (ns' ! (length (pNodes g) - 1)) else u) \<and> truth_upto g ns' (length (pNodes g))"
  using assms(2-)
proof (induction "length (pNodes g) - j" arbitrary: j ns u)
  case 0
  then have "j = length (pNodes g)" by (auto simp: truth_upto_def)
  then show ?case using 0 by auto
next
  case (Suc d)
  have len: "length ns = length (pNodes g)" using Suc.prems by (simp add: truth_upto_def)
  then have j: "j < length (pNodes g)" using Suc.hyps(2) by simp
  let ?u = "node_truth ns j"
  let ?ns = "ns[j := (ns ! j)\<lparr>pFunc := ?u\<rparr>]"
  have t: "tfun 5 [?u] m = node_vals (nLeaves g) m (pNodes g) ! j" for m
    using node_truth_val [OF assms(1) Suc.prems(1,2)] j len by simp
  have step: "truth_upto g ?ns (Suc j)"
    using Suc.prems(1) t j len by (auto simp: truth_upto_def nth_list_update less_Suc_eq)
  have d: "d = length (pNodes g) - Suc j" using Suc.hyps(2) by simp
  have "\<exists>ns'. fold (\<lambda>i (ns, u). let u = node_truth ns i in (ns[i := (ns ! i)\<lparr>pFunc := u\<rparr>], u))
      [Suc j ..< length (pNodes g)] (?ns, ?u) =
      (ns', if Suc j < length (pNodes g) then pFunc (ns' ! (length (pNodes g) - 1)) else ?u) \<and>
      truth_upto g ns' (length (pNodes g))"
    by (rule Suc.hyps(1) [OF d step]) (use Suc.prems(2) j len in simp_all)
  then obtain ns' where ns': "fold (\<lambda>i (ns, u). let u = node_truth ns i in (ns[i := (ns ! i)\<lparr>pFunc := u\<rparr>], u))
      [Suc j ..< length (pNodes g)] (?ns, ?u) =
      (ns', if Suc j < length (pNodes g) then pFunc (ns' ! (length (pNodes g) - 1)) else ?u) \<and>
      truth_upto g ns' (length (pNodes g))" ..
  show ?case
  proof (cases "Suc j < length (pNodes g)")
    case True
    then show ?thesis using ns' j by (auto simp: upt_conv_Cons Let_def)
  next
    case False
    then have "length (pNodes g) = Suc j" using j by simp
    then show ?thesis using step j len by (auto simp: Let_def)
  qed
qed

lemma Kit_GraphToTruth_val:
  assumes "graph_inv k g" "nLeaves g \<le> 5" "edge_ok g (eRoot g)"
    and "Node (eRoot g) < nLeaves g \<or> Node (eRoot g) = length (pNodes g) - 1"
  shows "tfun 5 [Kit_GraphToTruth g] m = edge_val g m (eRoot g)"
proof (cases "Kit_GraphIsVar g")
  case True
  then have v: "Node (eRoot g) < nLeaves g" by (simp add: Kit_GraphIsVar_def)
  have "eRoot g = \<lparr>fCompl = fCompl (eRoot g), Node = Node (eRoot g)\<rparr>" by simp
  then have "edge_val g m (eRoot g) \<longleftrightarrow> fCompl (eRoot g) \<noteq> bit m (Node (eRoot g))"
    using edge_val_leaf [OF v, of m] assms(1) by (metis graph_inv_def)
  then show ?thesis
    using True v assms(1,2) uMasks_bit [of "Node (eRoot g)" m]
    by (simp add: Kit_GraphToTruth_def Kit_GraphIsConst_def Kit_GraphIsComplement_def Kit_GraphVarInt_def
        graph_inv_def tfun5_not)
next
  case False
  then have root: "Node (eRoot g) = length (pNodes g) - 1" "nLeaves g \<le> Node (eRoot g)"
    "Node (eRoot g) < length (pNodes g)"
    using assms(3,4) by (auto simp: Kit_GraphIsVar_def edge_ok_def)
  from truth_upto_fold [OF assms(1) truth_upto_leaves [OF assms(1,2)] order_refl, of 0] obtain ns' where
    f: "fold (\<lambda>i (ns, u). let u = node_truth ns i in (ns[i := (ns ! i)\<lparr>pFunc := u\<rparr>], u))
      [nLeaves g ..< length (pNodes g)] (pNodes (assign_leaves g), 0) =
      (ns', if nLeaves g < length (pNodes g) then pFunc (ns' ! (length (pNodes g) - 1)) else 0)"
    "truth_upto g ns' (length (pNodes g))"
    using assms(1) by (auto simp: graph_inv_def)
  have "tfun 5 [pFunc (ns' ! Node (eRoot g))] m = node_vals (nLeaves g) m (pNodes g) ! Node (eRoot g)"
    using f(2) root by (auto simp: truth_upto_def)
  then show ?thesis
    using False f(1) root assms(1)
    by (simp add: Kit_GraphToTruth_def Kit_GraphIsConst_def Kit_GraphIsComplement_def graph_inv_def edge_val_def
        Let_def tfun5_not)
qed

section \<open>The depth of a leaf\<close>

text \<open>Paths from a node down the edges, with their lengths.\<close>

inductive graph_path :: "kit_graph \<Rightarrow> nat \<Rightarrow> nat \<Rightarrow> nat \<Rightarrow> bool" where
  path_refl: "graph_path g n n 0"
| path_left: "nLeaves g \<le> n \<Longrightarrow> graph_path g (Node (eEdge0 (pNodes g ! n))) l d \<Longrightarrow> graph_path g n l (Suc d)"
| path_right: "nLeaves g \<le> n \<Longrightarrow> graph_path g (Node (eEdge1 (pNodes g ! n))) l d \<Longrightarrow> graph_path g n l (Suc d)"

inductive_simps path_zero: "graph_path g n l 0"
inductive_simps path_Suc: "graph_path g n l (Suc d)"

lemma path_bound:
  "graph_path g n l d \<Longrightarrow> graph_inv k g \<Longrightarrow> n < length (pNodes g) \<Longrightarrow> l + d \<le> n"
proof (induction rule: graph_path.induct)
  case (path_left g n l d)
  then have "Node (eEdge0 (pNodes g ! n)) < n" by (simp add: graph_inv_def)
  then show ?case using path_left by simp
next
  case (path_right g n l d)
  then have "Node (eEdge1 (pNodes g ! n)) < n" by (simp add: graph_inv_def)
  then show ?case using path_right by simp
qed simp

text \<open>\<open>D\<close> is the length of the longest path, or -100 when there is none.\<close>

definition longest_path :: "kit_graph \<Rightarrow> nat \<Rightarrow> nat \<Rightarrow> int \<Rightarrow> bool" where
  "longest_path g n l D \<longleftrightarrow>
    (if \<exists>d. graph_path g n l d
     then \<exists>d. D = int d \<and> graph_path g n l d \<and> (\<forall>d'. graph_path g n l d' \<longrightarrow> d' \<le> d)
     else D = -100)"

lemma longest_path_step:
  assumes "n \<noteq> l" "nLeaves g \<le> n"
    and "longest_path g (Node (eEdge0 (pNodes g ! n))) l D0" "longest_path g (Node (eEdge1 (pNodes g ! n))) l D1"
  shows "longest_path g n l (let D = (if D0 > D1 then D0 else D1) in if D = -100 then -100 else D + 1)"
proof -
  let ?p0 = "graph_path g (Node (eEdge0 (pNodes g ! n))) l" and ?p1 = "graph_path g (Node (eEdge1 (pNodes g ! n))) l"
  have p: "graph_path g n l d \<longleftrightarrow> (\<exists>d'. d = Suc d' \<and> (?p0 d' \<or> ?p1 d'))" for d
    using assms(1,2) by (cases d) (auto simp: path_zero path_Suc)
  have ex: "(\<exists>d. graph_path g n l d) \<longleftrightarrow> (\<exists>d. ?p0 d) \<or> (\<exists>d. ?p1 d)" using p by blast
  consider "\<nexists>d. ?p0 d" "\<nexists>d. ?p1 d" | d1 where "\<nexists>d. ?p0 d" "D0 = -100" "D1 = int d1" "?p1 d1" "\<forall>d. ?p1 d \<longrightarrow> d \<le> d1"
    | d0 where "\<nexists>d. ?p1 d" "D1 = -100" "D0 = int d0" "?p0 d0" "\<forall>d. ?p0 d \<longrightarrow> d \<le> d0"
    | d0 d1 where "D0 = int d0" "?p0 d0" "\<forall>d. ?p0 d \<longrightarrow> d \<le> d0" "D1 = int d1" "?p1 d1" "\<forall>d. ?p1 d \<longrightarrow> d \<le> d1"
    using assms(3,4) unfolding longest_path_def by (auto split: if_splits)
  then show ?thesis
  proof cases
    case 1
    then show ?thesis using assms(3,4) ex by (simp add: longest_path_def)
  next
    case (2 d1)
    then have "graph_path g n l (Suc d1)" "\<forall>d'. graph_path g n l d' \<longrightarrow> d' \<le> Suc d1" using p by auto
    then show ?thesis using 2(2,3) by (auto simp: longest_path_def Let_def intro!: exI [of _ "Suc d1"])
  next
    case (3 d0)
    then have "graph_path g n l (Suc d0)" "\<forall>d'. graph_path g n l d' \<longrightarrow> d' \<le> Suc d0" using p by auto
    then show ?thesis using 3(2,3) by (auto simp: longest_path_def Let_def intro!: exI [of _ "Suc d0"])
  next
    case (4 d0 d1)
    then have "graph_path g n l (Suc (max d0 d1))" "\<forall>d'. graph_path g n l d' \<longrightarrow> d' \<le> Suc (max d0 d1)"
      using p by (auto simp: max_def le_max_iff_disj)
    then show ?thesis
      using 4(1,4) by (auto simp: longest_path_def Let_def max_def intro!: exI [of _ "Suc (max d0 d1)"])
  qed
qed

text \<open>
  On a well-formed graph \<open>Kit_GraphLeafDepth_rec\<close> returns, and the result is the
  length of the longest path from the node to the leaf, or -100 when there is no path.
\<close>

theorem Kit_GraphLeafDepth_rec_correct:
  assumes "graph_inv k g" "n < length (pNodes g)"
  shows "\<exists>D. Kit_GraphLeafDepth_rec g n l = Some D \<and> longest_path g n l D"
  using assms(2)
proof (induction n rule: less_induct)
  case (less n)
  consider "n = l" | "n \<noteq> l" "n < nLeaves g" | "n \<noteq> l" "nLeaves g \<le> n" by linarith
  then show ?case
  proof cases
    case 1
    have "d \<le> 0" if "graph_path g n n d" for d using path_bound [OF that assms(1) less.prems] by simp
    then have "longest_path g n l 0"
      using 1 path_refl [of g n] by (auto simp: longest_path_def intro!: exI [of _ 0])
    then show ?thesis using 1 Kit_GraphLeafDepth_rec.simps [of g n l] by simp
  next
    case 2
    have "\<not> graph_path g n l d" for d using 2 by (cases d) (auto simp: path_zero path_Suc)
    then show ?thesis using 2 Kit_GraphLeafDepth_rec.simps [of g n l] by (simp add: longest_path_def)
  next
    case 3
    let ?f0 = "Node (eEdge0 (pNodes g ! n))" and ?f1 = "Node (eEdge1 (pNodes g ! n))"
    have lt: "?f0 < n" "?f1 < n" using assms(1) 3(2) less.prems by (auto simp: graph_inv_def)
    obtain D0 where D0: "Kit_GraphLeafDepth_rec g ?f0 l = Some D0" "longest_path g ?f0 l D0"
      using less.IH [OF lt(1)] lt(1) less.prems by auto
    obtain D1 where D1: "Kit_GraphLeafDepth_rec g ?f1 l = Some D1" "longest_path g ?f1 l D1"
      using less.IH [OF lt(2)] lt(2) less.prems by auto
    show ?thesis
      using longest_path_step [OF 3 D0(2) D1(2)] Kit_GraphLeafDepth_rec.simps [of g n l] 3 lt D0(1) D1(1)
      by (simp add: Let_def)
  qed
qed

theorem Kit_GraphLeafDepth_rec_witness:
  "\<exists>D. Kit_GraphLeafDepth_rec (snd (Kit_GraphAddNodeAnd (Kit_GraphCreate 2)
      \<lparr>fCompl = False, Node = 0\<rparr> \<lparr>fCompl = True, Node = 1\<rparr>)) 2 0 = Some D \<and>
    longest_path (snd (Kit_GraphAddNodeAnd (Kit_GraphCreate 2)
      \<lparr>fCompl = False, Node = 0\<rparr> \<lparr>fCompl = True, Node = 1\<rparr>)) 2 0 D"
proof (rule Kit_GraphLeafDepth_rec_correct [of 0])
  let ?a = "\<lparr>fCompl = False, Node = 0\<rparr>" and ?b = "\<lparr>fCompl = True, Node = 1\<rparr>" and ?g = "Kit_GraphCreate 2"
  show "graph_inv 0 (snd (Kit_GraphAddNodeAnd ?g ?a ?b))"
    using kg.built_conj [of 0 ?g ?a ?b] by (simp add: kg.built_def graph_inv_Create edge_ok_Create)
  show "2 < length (pNodes (snd (Kit_GraphAddNodeAnd ?g ?a ?b)))"
    by (simp add: AddNode_eq Kit_GraphCreate_def)
qed

end
