(* ===== verification/Kit_Sop.thy ===== *)
theory Kit_Sop
  imports Kit_Graph "HOL-Library.Monad_Syntax"
begin

text \<open>
  \<open>kitSop.c\<close>: sums of products as arrays of cubes. This theory has all operations of the file, the
  view of cubes as sets of literals (\<open>lits\<close>), the covers in which no cube contains another
  (\<open>antichain\<close>), algebraic products and divisions of covers, and the facts about literals, common
  cubes and kernels: a divisor found by \<open>Kit_SopDivisor\<close> is the quotient of the cover by a cube.
  Division by covers is the subject of \<open>Kit_Divide\<close>.
\<close>

unbundle bit_operations_syntax

section \<open>Iteration\<close>

text \<open>
  \<open>Kit_SopForEachCube\<close> visits the cubes up to the first one that is 0. The index at which a loop over
  \<open>n\<close> positions stops is that of the first position where the loop condition fails or its body
  breaks, and \<open>n\<close> when there is none.
\<close>

definition for_each_cube :: "u32 list \<Rightarrow> u32 list" where
  "for_each_cube cs = takeWhile (\<lambda>c. c \<noteq> 0) cs"

definition break_index :: "nat \<Rightarrow> (nat \<Rightarrow> bool) \<Rightarrow> nat" where
  "break_index n P = length (takeWhile (\<lambda>i. \<not> P i) [0..<n])"

lemma break_index_le: "break_index n P \<le> n"
  unfolding break_index_def by (metis diff_zero length_takeWhile_le length_upt)

lemma break_index_eq: "break_index n P = n \<longleftrightarrow> (\<forall>i<n. \<not> P i)"
proof -
  have "break_index n P = n \<longleftrightarrow> takeWhile (\<lambda>i. \<not> P i) [0..<n] = [0..<n]"
    unfolding break_index_def
    by (metis diff_zero length_upt takeWhile_eq_take take_all_iff order_refl)
  also have "\<dots> \<longleftrightarrow> (\<forall>i<n. \<not> P i)" by (auto simp: takeWhile_eq_all_conv)
  finally show ?thesis .
qed

lemma break_index_less:
  assumes "break_index n P < n"
  shows "P (break_index n P)" "\<And>i. i < break_index n P \<Longrightarrow> \<not> P i"
proof -
  have "length (takeWhile (\<lambda>i. \<not> P i) [0..<n]) < length [0..<n]" using assms by (simp add: break_index_def)
  from nth_length_takeWhile [OF this] show "P (break_index n P)"
    using assms by (simp add: break_index_def)
  fix i assume i: "i < break_index n P"
  then have "takeWhile (\<lambda>i. \<not> P i) [0..<n] ! i = i"
    using takeWhile_nth [of i "\<lambda>i. \<not> P i" "[0..<n]"] assms by (simp add: break_index_def)
  then show "\<not> P i" using nth_mem [of i "takeWhile (\<lambda>i. \<not> P i) [0..<n]"] i set_takeWhileD
    by (fastforce simp: break_index_def)
qed

section \<open>Covers in memory\<close>

text \<open>
  A new cover of at most \<open>n\<close> cubes. When the memory is exhausted \<open>Vec_IntFetch\<close> returns \<open>NULL\<close>, and
  the code writes to it without a test; here the computation ends with \<open>None\<close>. Blocks of no words are
  \<open>NULL\<close> as well, and nothing is written to them.
\<close>

definition fetch_cubes :: "vec_mem \<Rightarrow> nat \<Rightarrow> vec_mem option" where
  "fetch_cubes v n = (if n = 0 then Some v else
    case Vec_IntFetch v n of (None, _) \<Rightarrow> None | (Some _, v) \<Rightarrow> Some v)"

text \<open>The covers of this file are the lists of the first \<open>nCubes\<close> cubes; \<open>nLits\<close> is not used.\<close>

definition Kit_SopPushCube :: "u32 list \<Rightarrow> u32 \<Rightarrow> u32 list" where
  "Kit_SopPushCube cSop uCube = cSop @ [uCube]"

definition Kit_SopShrink :: "u32 list \<Rightarrow> nat \<Rightarrow> u32 list" where
  "Kit_SopShrink cSop n = take n cSop"

definition Kit_SopCreate :: "u32 list \<Rightarrow> vec_mem \<Rightarrow> (u32 list \<times> vec_mem) option" where
  "Kit_SopCreate vInput vMemory =
    do { vMemory \<leftarrow> fetch_cubes vMemory (length vInput);
         Some (foldl Kit_SopPushCube [] vInput, vMemory) }"

definition inverse_cube :: "u32 \<Rightarrow> u32" where
  "inverse_cube uCube =
    (let uMask = (uCube OR drop_bit 1 uCube) AND 0x55555555;
         uMask = uMask OR push_bit 1 uMask
     in uCube XOR uMask)"

definition Kit_SopCreateInverse :: "u32 list \<Rightarrow> vec_mem \<Rightarrow> (u32 list \<times> vec_mem) option" where
  "Kit_SopCreateInverse vInput vMemory =
    do { vMemory \<leftarrow> fetch_cubes vMemory (length vInput);
         Some (foldl (\<lambda>cResult uCube. Kit_SopPushCube cResult (inverse_cube uCube)) [] vInput, vMemory) }"

definition Kit_SopDup :: "u32 list \<Rightarrow> vec_mem \<Rightarrow> (u32 list \<times> vec_mem) option" where
  "Kit_SopDup cSop vMemory =
    do { vMemory \<leftarrow> fetch_cubes vMemory (length cSop);
         Some (foldl Kit_SopPushCube [] (for_each_cube cSop), vMemory) }"

section \<open>Division\<close>

text \<open>\<open>Kit_SopDivideByLiteralQuo\<close> compacts the array in place: \<open>i\<close> reads, \<open>k\<close> writes.\<close>

fun literal_quo :: "nat \<Rightarrow> nat \<Rightarrow> nat \<Rightarrow> nat \<Rightarrow> u32 list \<Rightarrow> u32 list" where
  "literal_quo iLit 0 i k cs = Kit_SopShrink cs k"
| "literal_quo iLit (Suc n) i k cs =
    (if cs ! i = 0 then Kit_SopShrink cs k
     else if Kit_CubeHasLit (cs ! i) iLit
     then literal_quo iLit n (i + 1) (k + 1) (cs[k := Kit_CubeRemLit (cs ! i) iLit])
     else literal_quo iLit n (i + 1) k cs)"

definition Kit_SopDivideByLiteralQuo :: "u32 list \<Rightarrow> nat \<Rightarrow> u32 list" where
  "Kit_SopDivideByLiteralQuo cSop iLit = literal_quo iLit (length cSop) 0 0 cSop"

definition Kit_SopDivideByCube ::
    "u32 list \<Rightarrow> u32 list \<Rightarrow> vec_mem \<Rightarrow> (u32 list \<times> u32 list \<times> vec_mem) option" where
  "Kit_SopDivideByCube cSop cDiv vMemory =
    (if length cDiv \<noteq> 1 then None else
     let uDiv = cDiv ! 0 in
     do { vMemory \<leftarrow> fetch_cubes vMemory (length cSop);
          vMemory \<leftarrow> fetch_cubes vMemory (length cSop);
          let (vQuo, vRem) = foldl (\<lambda>(vQuo, vRem) uCube.
            if Kit_CubeContains uCube uDiv then (Kit_SopPushCube vQuo (Kit_CubeSharp uCube uDiv), vRem)
            else (vQuo, Kit_SopPushCube vRem uCube)) ([], []) (for_each_cube cSop);
          Some (vQuo, vRem, vMemory) })"

text \<open>
  The inner loops of \<open>Kit_SopDivideInternal\<close>: \<open>find_div\<close> is the index \<open>k\<close> of the cube of the divisor
  that the cube contains, \<open>find_cube\<close> the index \<open>i2\<close> of an unmarked cube with the given quotient, and
  \<open>find_rest\<close> the index \<open>k2\<close> at which the search for the other cubes stops.
\<close>

definition find_div :: "u32 list \<Rightarrow> u32 \<Rightarrow> nat" where
  "find_div cDiv uCube =
    break_index (length cDiv) (\<lambda>k. cDiv ! k = 0 \<or> Kit_CubeContains uCube (cDiv ! k))"

definition find_cube :: "u32 list \<Rightarrow> u32 \<Rightarrow> u32 \<Rightarrow> nat" where
  "find_cube cSop uDiv2 uQuo =
    break_index (length cSop) (\<lambda>i2. cSop ! i2 = 0 \<or> \<not> Kit_CubeIsMarked (cSop ! i2) \<and>
      Kit_CubeContains (cSop ! i2) uDiv2 \<and> uQuo = Kit_CubeSharp (cSop ! i2) uDiv2)"

definition find_rest :: "u32 list \<Rightarrow> u32 list \<Rightarrow> nat \<Rightarrow> u32 \<Rightarrow> nat" where
  "find_rest cSop cDiv k uQuo =
    break_index (length cDiv) (\<lambda>k2. cDiv ! k2 = 0 \<or> k2 \<noteq> k \<and> find_cube cSop (cDiv ! k2) uQuo = length cSop)"

text \<open>The loop that marks the cubes of one quotient cube; \<open>None\<close> when the assertion fails.\<close>

definition mark_rest :: "u32 list \<Rightarrow> nat \<Rightarrow> u32 \<Rightarrow> u32 list \<Rightarrow> u32 list option" where
  "mark_rest cDiv k uQuo cSop =
    foldl (\<lambda>cSop k2. if k2 = k then cSop else
        do { cSop \<leftarrow> cSop;
             let i2 = find_cube cSop (cDiv ! k2) uQuo;
             if i2 < length cSop then Some (cSop[i2 := Kit_CubeMark (cSop ! i2)]) else None })
      (Some cSop) [0..<length (for_each_cube cDiv)]"

definition divide_step :: "u32 list \<Rightarrow> (u32 list \<times> u32 list) option \<Rightarrow> nat \<Rightarrow> (u32 list \<times> u32 list) option" where
  "divide_step cDiv st i =
    do { (cSop, vQuo) \<leftarrow> st;
         let uCube = cSop ! i;
         if Kit_CubeIsMarked uCube then Some (cSop, vQuo) else
         let k = find_div cDiv uCube in
         if k = length cDiv then Some (cSop, vQuo) else
         let uDiv = cDiv ! k; uQuo = Kit_CubeSharp uCube uDiv in
         if find_rest cSop cDiv k uQuo \<noteq> length cDiv then Some (cSop, vQuo) else
         do { cSop \<leftarrow> mark_rest cDiv k uQuo (cSop[i := Kit_CubeMark uCube]);
              Some (cSop, Kit_SopPushCube vQuo uQuo) } }"

text \<open>
  The marks are removed at the end, so that the cover is unchanged. The cubes of the remainder are
  fetched before they are collected, and the assertion compares their numbers. The outer loop runs
  over the cubes before the first zero cube of the cover as it is given; the code would also pass a
  zero cube that was marked before it is reached. No cover of the theorems holds a zero cube.
\<close>

definition Kit_SopDivideInternal ::
    "u32 list \<Rightarrow> u32 list \<Rightarrow> vec_mem \<Rightarrow> (u32 list \<times> u32 list \<times> u32 list \<times> vec_mem) option" where
  "Kit_SopDivideInternal cSop cDiv vMemory =
    (if length cSop < length cDiv then None
     else if length cDiv = 1 then
       do { (vQuo, vRem, vMemory) \<leftarrow> Kit_SopDivideByCube cSop cDiv vMemory; Some (cSop, vQuo, vRem, vMemory) }
     else
       do { vMemory \<leftarrow> fetch_cubes vMemory (length cSop div length cDiv);
            (cSop, vQuo) \<leftarrow> foldl (divide_step cDiv) (Some (cSop, [])) [0..<length (for_each_cube cSop)];
            let nCubesRem = length cSop - length vQuo * length cDiv;
            vMemory \<leftarrow> fetch_cubes vMemory nCubesRem;
            let (cSop, vRem) = foldl (\<lambda>(cSop, vRem) i.
              if \<not> Kit_CubeIsMarked (cSop ! i) then (cSop, Kit_SopPushCube vRem (cSop ! i))
              else (cSop[i := Kit_CubeUnmark (cSop ! i)], vRem))
              (cSop, []) [0..<length (for_each_cube cSop)];
            if nCubesRem = length vRem then Some (cSop, vQuo, vRem, vMemory) else None })"

section \<open>Common cubes and literals\<close>

definition Kit_SopCommonCube :: "u32 list \<Rightarrow> u32" where
  "Kit_SopCommonCube cSop = foldl (\<lambda>uMask uCube. uMask AND uCube) (NOT 0) (for_each_cube cSop)"

definition Kit_SopMakeCubeFree :: "u32 list \<Rightarrow> u32 list" where
  "Kit_SopMakeCubeFree cSop =
    (let uMask = Kit_SopCommonCube cSop in
     if uMask = 0 then cSop
     else foldl (\<lambda>cSop i. cSop[i := Kit_CubeSharp (cSop ! i) uMask]) cSop [0..<length (for_each_cube cSop)])"

definition Kit_SopIsCubeFree :: "u32 list \<Rightarrow> bool" where
  "Kit_SopIsCubeFree cSop \<longleftrightarrow> Kit_SopCommonCube cSop = 0"

definition Kit_SopCommonCubeCover :: "u32 list \<Rightarrow> vec_mem \<Rightarrow> (u32 list \<times> vec_mem) option" where
  "Kit_SopCommonCubeCover cSop vMemory =
    (if length cSop = 0 then None else
     do { vMemory \<leftarrow> fetch_cubes vMemory 1;
          Some (Kit_SopPushCube [] (Kit_SopCommonCube cSop), vMemory) })"

definition lit_count :: "u32 list \<Rightarrow> nat \<Rightarrow> nat" where
  "lit_count cSop i =
    foldl (\<lambda>nLitsCur uCube. if Kit_CubeHasLit uCube i then nLitsCur + 1 else nLitsCur) 0 (for_each_cube cSop)"

definition Kit_SopAnyLiteral :: "u32 list \<Rightarrow> nat \<Rightarrow> int" where
  "Kit_SopAnyLiteral cSop nLit =
    (case find (\<lambda>i. lit_count cSop i > 1) [0..<nLit] of Some i \<Rightarrow> int i | None \<Rightarrow> -1)"

text \<open>\<open>fUseFirst\<close> is the constant 1.\<close>

definition Kit_SopWorstLiteral :: "u32 list \<Rightarrow> nat \<Rightarrow> int" where
  "Kit_SopWorstLiteral cSop nLit =
    (let (iMin, nLitsMin) = foldl (\<lambda>(iMin, nLitsMin) i.
       let nLitsCur = lit_count cSop i in
       if nLitsCur < 2 then (iMin, nLitsMin)
       else if nLitsMin > nLitsCur then (int i, nLitsCur) else (iMin, nLitsMin)) (-1, 1000000) [0..<nLit]
     in if nLitsMin < 1000000 then iMin else -1)"

definition Kit_SopBestLiteral :: "u32 list \<Rightarrow> nat \<Rightarrow> u32 \<Rightarrow> int" where
  "Kit_SopBestLiteral cSop nLit uMask =
    (let (iMax, nLitsMax) = foldl (\<lambda>(iMax, nLitsMax) i.
       if \<not> Kit_CubeHasLit uMask i then (iMax, nLitsMax) else
       let nLitsCur = lit_count cSop i in
       if nLitsCur < 2 then (iMax, nLitsMax)
       else if nLitsMax < int nLitsCur then (int i, int nLitsCur) else (iMax, nLitsMax)) (-1, -1) [0..<nLit]
     in if nLitsMax \<ge> 0 then iMax else -1)"

section \<open>Cubes as sets of literals\<close>

definition lits :: "u32 \<Rightarrow> nat set" where
  "lits c = {j. bit c j}"

lemma mem_lits: "j \<in> lits c \<longleftrightarrow> bit c j"
  by (simp add: lits_def)

lemma lits_less: "j \<in> lits c \<Longrightarrow> j < 32"
  using bit_imp_le_length [of c j] by (simp add: lits_def)

lemma finite_lits [simp]: "finite (lits c)"
  by (rule finite_subset [of _ "{..<32}"]) (auto dest: lits_less)

lemma lits_eq_iff: "lits c = lits d \<longleftrightarrow> c = d"
  by (auto simp: lits_def intro: bit_eqI)

named_theorems lits_simps \<open>the operators on cubes as operators on sets of literals\<close>

lemma lits_0 [lits_simps]: "lits 0 = {}"
  by (simp add: lits_def)

lemma lits_empty_iff [lits_simps]: "lits c = {} \<longleftrightarrow> c = 0"
  using lits_eq_iff [of c 0] by (simp add: lits_0)

lemma lits_or [lits_simps]: "lits (c OR d) = lits c \<union> lits d"
  by (auto simp: lits_def bit_or_iff)

lemma lits_and [lits_simps]: "lits (c AND d) = lits c \<inter> lits d"
  by (auto simp: lits_def bit_and_iff)

lemma lits_Contains [lits_simps]: "Kit_CubeContains c d \<longleftrightarrow> lits d \<subseteq> lits c"
  by (auto simp: Kit_CubeContains_iff lits_def)

lemma lits_Sharp [lits_simps]: "lits (Kit_CubeSharp c d) = lits c - lits d"
  by (auto simp: lits_def bit_CubeSharp)

lemma lits_SetLit [lits_simps]: "i < 32 \<Longrightarrow> lits (Kit_CubeSetLit c i) = insert i (lits c)"
  by (auto simp: lits_def bit_CubeSetLit)

lemma lits_RemLit [lits_simps]: "i < 32 \<Longrightarrow> lits (Kit_CubeRemLit c i) = lits c - {i}"
  by (auto simp: lits_def bit_CubeRemLit)

lemma lits_HasLit [lits_simps]: "i < 32 \<Longrightarrow> Kit_CubeHasLit c i \<longleftrightarrow> i \<in> lits c"
  by (simp add: Kit_CubeHasLit_iff lits_def)

lemma lits_Mark [lits_simps]:
  "Kit_CubeIsMarked c \<longleftrightarrow> 31 \<in> lits c" "lits (Kit_CubeMark c) = insert 31 (lits c)"
  "lits (Kit_CubeUnmark c) = lits c - {31}"
  by (simp_all add: Kit_CubeIsMarked_def Kit_CubeMark_def Kit_CubeUnmark_def lits_HasLit lits_SetLit lits_RemLit)

lemma Unmark_Mark: "31 \<notin> lits c \<Longrightarrow> Kit_CubeUnmark (Kit_CubeMark c) = c"
  by (simp add: lits_eq_iff [symmetric] lits_Mark)

lemma Sharp_eq_iff: "lits d \<subseteq> lits c \<Longrightarrow> q = Kit_CubeSharp c d \<longleftrightarrow> lits q \<inter> lits d = {} \<and> c = q OR d"
  by (auto simp: lits_eq_iff [symmetric] lits_Sharp lits_or)

lemma or_disjoint_inj:
  "lits q \<inter> lits a = {} \<Longrightarrow> lits q \<inter> lits b = {} \<Longrightarrow> q OR a = q OR b \<longleftrightarrow> a = (b :: u32)"
  by (auto simp: lits_eq_iff [symmetric] lits_or)

text \<open>Covers without a cube inside another one, and the covers that are factored: no empty cube, and
  literals below \<open>N\<close>.\<close>

definition antichain :: "u32 list \<Rightarrow> bool" where
  "antichain cs \<longleftrightarrow> distinct cs \<and> (\<forall>c\<in>set cs. \<forall>d\<in>set cs. lits c \<subseteq> lits d \<longrightarrow> c = d)"

definition cubes_below :: "nat \<Rightarrow> u32 list \<Rightarrow> bool" where
  "cubes_below N cs \<longleftrightarrow> (\<forall>c\<in>set cs. lits c \<subseteq> {..<N})"

definition cover_ok :: "nat \<Rightarrow> u32 list \<Rightarrow> bool" where
  "cover_ok N cs \<longleftrightarrow> antichain cs \<and> 0 \<notin> set cs \<and> cubes_below N cs"

lemma for_each_all [simp]: "0 \<notin> set cs \<Longrightarrow> for_each_cube cs = cs"
  unfolding for_each_cube_def by (rule takeWhile_eq_all_conv [THEN iffD2]) auto

lemma antichainD: "antichain cs \<Longrightarrow> c \<in> set cs \<Longrightarrow> d \<in> set cs \<Longrightarrow> lits c \<subseteq> lits d \<Longrightarrow> c = d"
  by (auto simp: antichain_def)

lemma antichain_nonzero:
  assumes "antichain cs" "2 \<le> length cs" shows "0 \<notin> set cs"
proof
  assume z: "0 \<in> set cs"
  then have "\<forall>c\<in>set cs. c = 0" using antichainD [OF assms(1) z] by (auto simp: lits_0)
  then have "set cs \<subseteq> {0}" by auto
  then have "card (set cs) \<le> 1" using card_mono [of "{0 :: u32}" "set cs"] by simp
  then show False using assms by (simp add: antichain_def distinct_card)
qed

lemma antichain_filter: "antichain cs \<Longrightarrow> antichain (filter P cs)"
  by (auto simp: antichain_def)

text \<open>Removing from the cubes a set of literals they all have.\<close>

lemma antichain_map:
  assumes "antichain cs" "\<And>c. c \<in> set cs \<Longrightarrow> lits (f c) = lits c - s \<and> s \<subseteq> lits c"
  shows "antichain (map f cs)"
proof -
  have *: "c = d" if "c \<in> set cs" "d \<in> set cs" "lits (f c) \<subseteq> lits (f d)" for c d
    using that assms(2) [OF that(1)] assms(2) [OF that(2)] antichainD [OF assms(1) that(1,2)] by blast
  then have "inj_on f (set cs)" by (auto intro!: inj_onI)
  then show ?thesis using assms(1) * by (auto simp: antichain_def distinct_map)
qed

section \<open>Values of covers\<close>

text \<open>
  The covers of the factoring code have the positive literal of a variable in the even position:
  literal \<open>j\<close> is the edge \<open>Kit_EdgeCreate( j/2, j%2 )\<close>.
\<close>

definition lit_val :: "nat \<Rightarrow> nat \<Rightarrow> bool" where
  "lit_val m j \<longleftrightarrow> odd j \<noteq> bit m (j div 2)"

definition fcube_val :: "nat \<Rightarrow> u32 \<Rightarrow> bool" where
  "fcube_val m c \<longleftrightarrow> (\<forall>j\<in>lits c. lit_val m j)"

definition fcover_val :: "nat \<Rightarrow> u32 list \<Rightarrow> bool" where
  "fcover_val m cs \<longleftrightarrow> (\<exists>c\<in>set cs. fcube_val m c)"

lemma fcube_val_or: "fcube_val m (c OR d) \<longleftrightarrow> fcube_val m c \<and> fcube_val m d"
  by (auto simp: fcube_val_def lits_or)

text \<open>Algebraic products of covers, and divisions.\<close>

definition cover_prod :: "u32 list \<Rightarrow> u32 list \<Rightarrow> u32 list" where
  "cover_prod ds qs = concat (map (\<lambda>q. map (\<lambda>d. q OR d) ds) qs)"

definition division :: "u32 list \<Rightarrow> u32 list \<Rightarrow> u32 list \<Rightarrow> u32 list \<Rightarrow> bool" where
  "division cs ds qs rs \<longleftrightarrow> mset cs = mset (cover_prod ds qs) + mset rs \<and>
    (\<forall>q\<in>set qs. \<forall>d\<in>set ds. lits q \<inter> lits d = {})"

lemma fcover_val_prod: "fcover_val m (cover_prod ds qs) \<longleftrightarrow> fcover_val m ds \<and> fcover_val m qs"
  by (auto simp: fcover_val_def cover_prod_def fcube_val_or)

lemma division_set: "division cs ds qs rs \<Longrightarrow> set cs = set (cover_prod ds qs) \<union> set rs"
  unfolding division_def by (metis set_mset_mset set_mset_union)

lemma division_val:
  "division cs ds qs rs \<Longrightarrow> fcover_val m cs \<longleftrightarrow> fcover_val m ds \<and> fcover_val m qs \<or> fcover_val m rs"
  using division_set [of cs ds qs rs] fcover_val_prod [of m ds qs] by (auto simp: fcover_val_def)

lemma set_cover_prod: "set (cover_prod ds qs) = (\<lambda>(q, d). q OR d) ` (set qs \<times> set ds)"
  by (auto simp: cover_prod_def)

lemma length_cover_prod: "length (cover_prod ds qs) = length qs * length ds"
  by (simp add: cover_prod_def length_concat comp_def sum_list_triv)

lemma division_length: "division cs ds qs rs \<Longrightarrow> length cs = length qs * length ds + length rs"
  unfolding division_def by (metis length_cover_prod size_mset size_union)

lemma division_mem: "division cs ds qs rs \<Longrightarrow> q \<in> set qs \<Longrightarrow> d \<in> set ds \<Longrightarrow> q OR d \<in> set cs"
  using division_set [of cs ds qs rs] set_cover_prod [of ds qs] by auto

lemma division_distinct:
  assumes "division cs ds qs rs" "distinct cs"
  shows "distinct (cover_prod ds qs)" "distinct rs"
proof -
  have "mset (cover_prod ds qs @ rs) = mset cs" using assms(1) by (simp add: division_def)
  then have "distinct (cover_prod ds qs @ rs)" using assms(2) mset_eq_imp_distinct_iff by blast
  then show "distinct (cover_prod ds qs)" "distinct rs" by auto
qed

text \<open>Number of literals.\<close>

lemma cover_lits_eq: "cover_lits cs = (\<Sum>c\<leftarrow>cs. card (lits c))"
  by (simp add: cover_lits_def lits_def)

lemma cover_lits_mset: "mset cs = mset ds \<Longrightarrow> cover_lits cs = cover_lits ds"
  unfolding cover_lits_eq sum_mset_sum_list [symmetric] mset_map by (rule arg_cong)

lemma cover_lits_simps [simp]: "cover_lits [] = 0" "cover_lits (c # cs) = card (lits c) + cover_lits cs"
  by (simp_all add: cover_lits_eq)

lemma cover_lits_prod:
  assumes "\<And>q d. q \<in> set qs \<Longrightarrow> d \<in> set ds \<Longrightarrow> lits q \<inter> lits d = {}"
  shows "cover_lits (cover_prod ds qs) = length ds * cover_lits qs + length qs * cover_lits ds"
proof -
  have one: "cover_lits (map (\<lambda>d. q OR d) ds) = length ds * card (lits q) + cover_lits ds"
    if "\<And>d. d \<in> set ds \<Longrightarrow> lits q \<inter> lits d = {}" for q ds
    using that by (induction ds) (auto simp: lits_or card_Un_disjoint)
  show ?thesis using assms
  proof (induction qs)
    case (Cons q qs)
    then show ?case using one [of ds q] by (simp add: cover_prod_def cover_lits_append algebra_simps)
  qed (simp add: cover_prod_def)
qed

lemma division_lits:
  assumes "division cs ds qs rs"
  shows "cover_lits cs = length ds * cover_lits qs + length qs * cover_lits ds + cover_lits rs"
proof -
  have "cover_lits cs = cover_lits (cover_prod ds qs @ rs)"
    by (rule cover_lits_mset) (use assms in \<open>simp add: division_def\<close>)
  then show ?thesis using cover_lits_prod [of qs ds] assms by (simp add: division_def cover_lits_append)
qed

lemma cover_lits_pos: "0 \<notin> set cs \<Longrightarrow> length cs \<le> cover_lits cs"
proof (induction cs)
  case (Cons c cs)
  then have "0 < card (lits c)" by (auto simp: card_gt_0_iff lits_empty_iff)
  then show ?case using Cons by simp
qed simp

section \<open>The quotient by a literal\<close>

lemma for_each_Cons [simp]: "for_each_cube (c # cs) = (if c = 0 then [] else c # for_each_cube cs)"
  by (simp add: for_each_cube_def)

lemma for_each_Nil [simp]: "for_each_cube [] = []"
  by (simp add: for_each_cube_def)

lemma literal_quo_eq:
  "n = length cs - i \<Longrightarrow> k \<le> i \<Longrightarrow> i \<le> length cs \<Longrightarrow>
    literal_quo l n i k cs =
      take k cs @ map (\<lambda>c. Kit_CubeRemLit c l) (filter (\<lambda>c. Kit_CubeHasLit c l) (for_each_cube (drop i cs)))"
proof (induction n arbitrary: i k cs)
  case 0
  then show ?case by (simp add: Kit_SopShrink_def)
next
  case (Suc n)
  then have i: "i < length cs" "drop i cs = cs ! i # drop (Suc i) cs" by (simp_all add: Cons_nth_drop_Suc)
  let ?x = "Kit_CubeRemLit (cs ! i) l"
  have "take (Suc k) (cs[k := ?x]) = take k cs @ [?x]"
    using i(1) Suc.prems(2) by (simp add: take_Suc_conv_app_nth)
  moreover have n: "n = length cs - Suc i" using Suc.prems(1) by arith
  ultimately have e1: "literal_quo l n (Suc i) (Suc k) (cs[k := ?x]) = take k cs @ [?x] @
      map (\<lambda>c. Kit_CubeRemLit c l) (filter (\<lambda>c. Kit_CubeHasLit c l) (for_each_cube (drop (Suc i) cs)))"
    using Suc.IH [of "cs[k := ?x]" "Suc i" "Suc k"] Suc.prems(2) i(1) by (simp del: One_nat_def)
  have e2: "literal_quo l n (Suc i) k cs = take k cs @
      map (\<lambda>c. Kit_CubeRemLit c l) (filter (\<lambda>c. Kit_CubeHasLit c l) (for_each_cube (drop (Suc i) cs)))"
    using Suc.IH [of cs "Suc i" k] Suc.prems(2) i(1) n by (simp del: One_nat_def)
  show ?case using i(2) by (simp add: e1 e2 Kit_SopShrink_def)
qed

lemma LiteralQuo_eq: "Kit_SopDivideByLiteralQuo cs l =
    map (\<lambda>c. Kit_CubeRemLit c l) (filter (\<lambda>c. Kit_CubeHasLit c l) (for_each_cube cs))"
  by (simp add: Kit_SopDivideByLiteralQuo_def literal_quo_eq)

section \<open>Common cubes\<close>

lemma CommonCube_lits: "lits (Kit_SopCommonCube cs) = {j. j < 32 \<and> (\<forall>c\<in>set (for_each_cube cs). j \<in> lits c)}"
proof -
  have "lits (foldl (\<lambda>m c. m AND c) m0 ds) = {j \<in> lits m0. \<forall>c\<in>set ds. j \<in> lits c}" for m0 :: u32 and ds
    by (induction ds arbitrary: m0) (auto simp: lits_and)
  moreover have "lits (NOT 0) = {..<32}" by (auto simp: lits_def dest: bit_imp_le_length)
  ultimately show ?thesis by (auto simp: Kit_SopCommonCube_def)
qed

lemma CommonCube_subset: "c \<in> set (for_each_cube cs) \<Longrightarrow> lits (Kit_SopCommonCube cs) \<subseteq> lits c"
  by (auto simp: CommonCube_lits)

lemma foldl_update_map:
  assumes "k \<le> length xs"
  shows "foldl (\<lambda>xs i. xs[i := f (xs ! i)]) xs [0..<k] = map f (take k xs) @ drop k xs"
  using assms
proof (induction k)
  case (Suc k)
  then have "xs ! k = drop k xs ! 0" "k < length xs" by simp_all
  then show ?case
    using Suc by (simp add: nth_append list_update_append take_Suc_conv_app_nth Cons_nth_drop_Suc [symmetric])
qed simp

lemma length_for_each_le: "length (for_each_cube cs) \<le> length cs"
  unfolding for_each_cube_def by (rule length_takeWhile_le)

lemma MakeCubeFree_eq: "Kit_SopMakeCubeFree cs =
    map (\<lambda>c. Kit_CubeSharp c (Kit_SopCommonCube cs)) (for_each_cube cs) @ drop (length (for_each_cube cs)) cs"
proof -
  have t: "take (length (for_each_cube cs)) cs = for_each_cube cs"
    unfolding for_each_cube_def by (rule takeWhile_eq_take [symmetric])
  have "Kit_CubeSharp c 0 = c" for c by (simp add: lits_eq_iff [symmetric] lits_Sharp lits_0)
  then show ?thesis
    using t foldl_update_map [OF length_for_each_le, of "\<lambda>c. Kit_CubeSharp c (Kit_SopCommonCube cs)" cs]
      append_take_drop_id [of "length (for_each_cube cs)" cs]
    by (simp add: Kit_SopMakeCubeFree_def Let_def)
qed

lemma length_MakeCubeFree [simp]: "length (Kit_SopMakeCubeFree cs) = length cs"
  using length_for_each_le [of cs] by (simp add: MakeCubeFree_eq)

lemma cover_lits_MakeCubeFree: "cover_lits (Kit_SopMakeCubeFree cs) \<le> cover_lits cs"
proof -
  have le: "cover_lits (map (\<lambda>c. Kit_CubeSharp c m) ds) \<le> cover_lits ds" for m ds
    by (induction ds) (auto simp: lits_Sharp intro!: add_mono card_mono)
  have "cs = for_each_cube cs @ drop (length (for_each_cube cs)) cs"
    unfolding for_each_cube_def by (metis append_take_drop_id takeWhile_eq_take)
  then have "cover_lits cs = cover_lits (for_each_cube cs) + cover_lits (drop (length (for_each_cube cs)) cs)"
    by (metis cover_lits_append)
  then show ?thesis using le by (simp add: MakeCubeFree_eq cover_lits_append)
qed

section \<open>Counting literals\<close>

lemma lit_count_eq: "lit_count cs i = length (filter (\<lambda>c. Kit_CubeHasLit c i) (for_each_cube cs))"
proof -
  have "foldl (\<lambda>n c. if Kit_CubeHasLit c i then n + 1 else n) k ds = k + length (filter (\<lambda>c. Kit_CubeHasLit c i) ds)"
    for k ds by (induction ds arbitrary: k) auto
  then show ?thesis by (simp add: lit_count_def)
qed

text \<open>The least and the most frequent literal among those that occur at least twice.\<close>

definition worst_of :: "u32 list \<Rightarrow> nat \<Rightarrow> int \<Rightarrow> bool" where
  "worst_of cs n r \<longleftrightarrow> (r = -1 \<and> (\<forall>i<n. lit_count cs i < 2)) \<or>
    (\<exists>i<n. r = int i \<and> 2 \<le> lit_count cs i \<and> (\<forall>j<n. 2 \<le> lit_count cs j \<longrightarrow> lit_count cs i \<le> lit_count cs j))"

definition best_of :: "u32 list \<Rightarrow> nat \<Rightarrow> u32 \<Rightarrow> int \<Rightarrow> bool" where
  "best_of cs n m r \<longleftrightarrow> (r = -1 \<and> (\<forall>i<n. Kit_CubeHasLit m i \<longrightarrow> lit_count cs i < 2)) \<or>
    (\<exists>i<n. r = int i \<and> Kit_CubeHasLit m i \<and> 2 \<le> lit_count cs i \<and>
      (\<forall>j<n. Kit_CubeHasLit m j \<and> 2 \<le> lit_count cs j \<longrightarrow> lit_count cs j \<le> lit_count cs i))"

lemma WorstLiteral_loop:
  assumes "length cs < 1000000"
  shows "case foldl (\<lambda>(iMin, nLitsMin) i.
       let nLitsCur = lit_count cs i in
       if nLitsCur < 2 then (iMin, nLitsMin)
       else if nLitsMin > nLitsCur then (int i, nLitsCur) else (iMin, nLitsMin)) (-1, 1000000) [0..<n] of
    (r, m) \<Rightarrow> worst_of cs n r \<and> (if r = -1 then m = 1000000 else m = lit_count cs (nat r) \<and> m < 1000000)"
proof (induction n)
  case 0
  then show ?case by (simp add: worst_of_def)
next
  case (Suc n)
  obtain r m where rm: "foldl (\<lambda>(iMin, nLitsMin) i.
       let nLitsCur = lit_count cs i in
       if nLitsCur < 2 then (iMin, nLitsMin)
       else if nLitsMin > nLitsCur then (int i, nLitsCur) else (iMin, nLitsMin)) (-1, 1000000) [0..<n] = (r, m)"
    by (rule prod.exhaust)
  have IH: "worst_of cs n r" "if r = -1 then m = 1000000 else m = lit_count cs (nat r) \<and> m < 1000000"
    using Suc rm by auto
  have small: "lit_count cs n < 1000000"
    using assms length_for_each_le [of cs] length_filter_le [of _ "for_each_cube cs"]
    unfolding lit_count_eq by (meson le_less_trans)
  consider "lit_count cs n < 2" | "2 \<le> lit_count cs n" "lit_count cs n < m"
    | "2 \<le> lit_count cs n" "m \<le> lit_count cs n" by linarith
  then show ?case
  proof cases
    case 1
    then show ?thesis using IH rm by (auto simp: worst_of_def less_Suc_eq)
  next
    case 2
    then have "worst_of cs (Suc n) (int n)"
      using IH unfolding worst_of_def by (intro disjI2 exI [of _ n]) (auto simp: less_Suc_eq split: if_splits)
    then show ?thesis using 2 rm small by simp
  next
    case 3
    then have "r \<noteq> -1" using IH(2) small by (auto split: if_splits)
    then show ?thesis using 3 IH rm by (auto simp: worst_of_def less_Suc_eq)
  qed
qed

lemma WorstLiteral_cases:
  "Kit_SopWorstLiteral cs n = -1 \<or> (\<exists>i<n. Kit_SopWorstLiteral cs n = int i \<and> 2 \<le> lit_count cs i)"
proof -
  have "case foldl (\<lambda>(iMin, nLitsMin) i.
       let nLitsCur = lit_count cs i in
       if nLitsCur < 2 then (iMin, nLitsMin)
       else if nLitsMin > nLitsCur then (int i, nLitsCur) else (iMin, nLitsMin)) (-1, 1000000) [0..<n] of
    (r, m) \<Rightarrow> r = -1 \<or> (\<exists>i<n. r = int i \<and> 2 \<le> lit_count cs i)"
    by (induction n) (auto simp: Let_def less_Suc_eq split: prod.splits)
  then show ?thesis by (auto simp: Kit_SopWorstLiteral_def split: prod.splits)
qed

lemma WorstLiteral_spec: "length cs < 1000000 \<Longrightarrow> worst_of cs n (Kit_SopWorstLiteral cs n)"
  using WorstLiteral_loop [of cs n] by (auto simp: Kit_SopWorstLiteral_def Let_def split: prod.splits if_splits)

lemma BestLiteral_spec: "best_of cs n m (Kit_SopBestLiteral cs n m)"
proof -
  have "case foldl (\<lambda>(iMax, nLitsMax) i.
       if \<not> Kit_CubeHasLit m i then (iMax, nLitsMax) else
       let nLitsCur = lit_count cs i in
       if nLitsCur < 2 then (iMax, nLitsMax)
       else if nLitsMax < int nLitsCur then (int i, int nLitsCur) else (iMax, nLitsMax)) (-1, -1) [0..<n] of
    (r, x) \<Rightarrow> best_of cs n m r \<and> (if r = -1 then x = -1 else x = int (lit_count cs (nat r)) \<and> 0 \<le> x)"
  proof (induction n)
    case 0
    then show ?case by (simp add: best_of_def)
  next
    case (Suc n)
    obtain r x where rx: "foldl (\<lambda>(iMax, nLitsMax) i.
       if \<not> Kit_CubeHasLit m i then (iMax, nLitsMax) else
       let nLitsCur = lit_count cs i in
       if nLitsCur < 2 then (iMax, nLitsMax)
       else if nLitsMax < int nLitsCur then (int i, int nLitsCur) else (iMax, nLitsMax)) (-1, -1) [0..<n] = (r, x)"
      by (rule prod.exhaust)
    have IH: "best_of cs n m r" "if r = -1 then x = -1 else x = int (lit_count cs (nat r)) \<and> 0 \<le> x"
      using Suc rx by auto
    consider "\<not> Kit_CubeHasLit m n \<or> lit_count cs n < 2" | "Kit_CubeHasLit m n" "2 \<le> lit_count cs n" "x < int (lit_count cs n)"
      | "Kit_CubeHasLit m n" "2 \<le> lit_count cs n" "int (lit_count cs n) \<le> x" by linarith
    then show ?case
    proof cases
      case 1
      then show ?thesis using IH rx by (auto simp: best_of_def less_Suc_eq)
    next
      case 2
      then have "best_of cs (Suc n) m (int n)"
        using IH unfolding best_of_def by (intro disjI2 exI [of _ n]) (auto simp: less_Suc_eq split: if_splits)
      then show ?thesis using 2 rx by simp
    next
      case 3
      then have "r \<noteq> -1" using IH(2) by (auto split: if_splits)
      then show ?thesis using 3 IH rx by (auto simp: best_of_def less_Suc_eq)
    qed
  qed
  then show ?thesis by (auto simp: Kit_SopBestLiteral_def Let_def split: prod.splits if_splits)
qed

lemma AnyLiteral_eq: "Kit_SopAnyLiteral cs n = -1 \<longleftrightarrow> (\<forall>i<n. lit_count cs i < 2)"
  by (force simp: Kit_SopAnyLiteral_def find_None_iff find_Some_iff split: option.splits)

lemma cover_lits_LiteralQuo:
  assumes "0 < lit_count cs l"
  shows "cover_lits (Kit_SopDivideByLiteralQuo cs l) < cover_lits cs"
proof -
  have l: "l < 32 \<or> \<not> Kit_CubeHasLit c l" for c
  proof -
    have "push_bit l (1 :: u32) = 0" if "\<not> l < 32"
      by (rule bit_eqI) (use that in \<open>auto simp: bit_push_bit_iff simp del: push_bit_of_1\<close>)
    then show ?thesis by (auto simp: Kit_CubeHasLit_def simp del: push_bit_of_1)
  qed
  let ?f = "\<lambda>ds. map (\<lambda>c. Kit_CubeRemLit c l) (filter (\<lambda>c. Kit_CubeHasLit c l) ds)"
  have le: "cover_lits (?f ds) \<le> cover_lits ds" for ds
  proof (induction ds)
    case (Cons c ds)
    have "card (lits (Kit_CubeRemLit c l)) \<le> card (lits c)" if "Kit_CubeHasLit c l"
      using that l [of c] by (intro card_mono) (auto simp: lits_RemLit)
    then show ?case using Cons by auto
  qed simp
  have lt: "cover_lits (?f ds) < cover_lits ds" if "filter (\<lambda>c. Kit_CubeHasLit c l) ds \<noteq> []" for ds
    using that
  proof (induction ds)
    case (Cons c ds)
    show ?case
    proof (cases "Kit_CubeHasLit c l")
      case True
      then have "l < 32" using l by blast
      then have "card (lits (Kit_CubeRemLit c l)) < card (lits c)"
        using True by (intro psubset_card_mono) (auto simp: lits_RemLit lits_HasLit)
      then show ?thesis using True le [of ds] by simp
    qed (use Cons in auto)
  qed simp
  have "cover_lits (for_each_cube cs) \<le> cover_lits cs"
    by (induction cs) auto
  moreover have "filter (\<lambda>c. Kit_CubeHasLit c l) (for_each_cube cs) \<noteq> []" using assms by (auto simp: lit_count_eq)
  ultimately show ?thesis using lt [of "for_each_cube cs"] by (simp add: LiteralQuo_eq)
qed

section \<open>Kernels\<close>

function Kit_SopDivisorZeroKernel_rec :: "u32 list \<Rightarrow> nat \<Rightarrow> u32 list" where
  "Kit_SopDivisorZeroKernel_rec cSop nLit =
    (let iLit = Kit_SopWorstLiteral cSop nLit in
     if iLit = -1 then cSop
     else Kit_SopDivisorZeroKernel_rec
       (Kit_SopMakeCubeFree (Kit_SopDivideByLiteralQuo cSop (nat iLit))) nLit)"
  by pat_completeness auto
termination
proof (relation "measure (\<lambda>(cs, n). cover_lits cs)")
  fix cs n x assume "x = Kit_SopWorstLiteral cs n" "x \<noteq> -1"
  then have "0 < lit_count cs (nat x)" using WorstLiteral_cases [of cs n] by auto
  from cover_lits_LiteralQuo [OF this] show
    "((Kit_SopMakeCubeFree (Kit_SopDivideByLiteralQuo cs (nat x)), n), cs, n) \<in> measure (\<lambda>(cs, n). cover_lits cs)"
    using cover_lits_MakeCubeFree [of "Kit_SopDivideByLiteralQuo cs (nat x)"] by simp
qed simp

declare Kit_SopDivisorZeroKernel_rec.simps [simp del]

text \<open>The results 0 and 1 of \<open>Kit_SopDivisor\<close> are \<open>None\<close> and the divisor.\<close>

definition Kit_SopDivisor :: "u32 list \<Rightarrow> nat \<Rightarrow> vec_mem \<Rightarrow> (u32 list option \<times> vec_mem) option" where
  "Kit_SopDivisor cSop nLit vMemory =
    (if length cSop \<le> 1 then Some (None, vMemory)
     else if Kit_SopAnyLiteral cSop nLit = -1 then Some (None, vMemory)
     else do { (cResult, vMemory) \<leftarrow> Kit_SopDup cSop vMemory;
               let cResult = Kit_SopDivisorZeroKernel_rec cResult nLit;
               if length cResult > 0 then Some (Some cResult, vMemory) else None })"

definition Kit_SopBestLiteralCover :: "u32 list \<Rightarrow> u32 \<Rightarrow> nat \<Rightarrow> vec_mem \<Rightarrow> (u32 list \<times> vec_mem) option" where
  "Kit_SopBestLiteralCover cSop uCube nLit vMemory =
    (let iLitBest = Kit_SopBestLiteral cSop nLit uCube in
     do { vMemory \<leftarrow> fetch_cubes vMemory 1;
          if iLitBest = -1 then None
          else Some (Kit_SopPushCube [] (Kit_CubeSetLit 0 (nat iLitBest)), vMemory) })"

section \<open>Kernels are quotients by cubes\<close>

definition quotient_by :: "u32 list \<Rightarrow> u32 \<Rightarrow> u32 list" where
  "quotient_by cs q = map (\<lambda>c. Kit_CubeSharp c q) (filter (\<lambda>c. Kit_CubeContains c q) cs)"

lemma quotient_by_0: "quotient_by cs 0 = cs"
proof -
  have "Kit_CubeSharp c 0 = c" for c by (simp add: lits_eq_iff [symmetric] lits_simps)
  then show ?thesis by (simp add: quotient_by_def lits_simps)
qed

lemma set_quotient_by: "d \<in> set (quotient_by cs q) \<longleftrightarrow> lits q \<inter> lits d = {} \<and> q OR d \<in> set cs"
proof
  assume "d \<in> set (quotient_by cs q)"
  then obtain c where c: "c \<in> set cs" "lits q \<subseteq> lits c" "d = Kit_CubeSharp c q"
    by (auto simp: quotient_by_def lits_Contains)
  then have "lits d \<inter> lits q = {} \<and> c = d OR q" using Sharp_eq_iff by blast
  then show "lits q \<inter> lits d = {} \<and> q OR d \<in> set cs" using c(1) by (auto simp: or.commute)
next
  assume d: "lits q \<inter> lits d = {} \<and> q OR d \<in> set cs"
  then have "d = Kit_CubeSharp (q OR d) q" by (auto simp: lits_eq_iff [symmetric] lits_simps)
  then show "d \<in> set (quotient_by cs q)" using d by (force simp: quotient_by_def lits_simps)
qed

lemma antichain_quotient: "antichain cs \<Longrightarrow> antichain (quotient_by cs q)"
  unfolding quotient_by_def
  by (rule antichain_map [where s = "lits q"]) (auto simp: antichain_filter lits_simps)

lemma quotient_LiteralQuo:
  assumes "l < 32" "l \<notin> lits q"
  shows "map (\<lambda>c. Kit_CubeRemLit c l) (filter (\<lambda>c. Kit_CubeHasLit c l) (quotient_by cs q)) =
    quotient_by cs (Kit_CubeSetLit q l)"
proof -
  have "Kit_CubeRemLit (Kit_CubeSharp c q) l = Kit_CubeSharp c (Kit_CubeSetLit q l)" for c
    using assms by (auto simp: lits_eq_iff [symmetric] lits_simps)
  moreover have "filter (\<lambda>c. Kit_CubeContains c q \<and> Kit_CubeHasLit (Kit_CubeSharp c q) l) cs =
      filter (\<lambda>c. Kit_CubeContains c (Kit_CubeSetLit q l)) cs"
    by (rule filter_cong) (use assms in \<open>auto simp: lits_simps\<close>)
  ultimately show ?thesis by (simp add: quotient_by_def filter_map comp_def)
qed

lemma quotient_common:
  assumes "\<And>d. d \<in> set (quotient_by cs q) \<Longrightarrow> lits m \<subseteq> lits d"
  shows "map (\<lambda>c. Kit_CubeSharp c m) (quotient_by cs q) = quotient_by cs (q OR m)"
proof -
  have "Kit_CubeSharp (Kit_CubeSharp c q) m = Kit_CubeSharp c (q OR m)" for c
    by (auto simp: lits_eq_iff [symmetric] lits_simps)
  moreover have "filter (\<lambda>c. Kit_CubeContains c q) cs = filter (\<lambda>c. Kit_CubeContains c (q OR m)) cs"
  proof (rule filter_cong [OF refl])
    fix c assume c: "c \<in> set cs"
    show "Kit_CubeContains c q = Kit_CubeContains c (q OR m)"
    proof (cases "Kit_CubeContains c q")
      case True
      then have "Kit_CubeSharp c q \<in> set (quotient_by cs q)" using c by (simp add: quotient_by_def)
      from assms [OF this] show ?thesis using True by (auto simp: lits_simps)
    qed (auto simp: lits_simps)
  qed
  ultimately show ?thesis by (simp add: quotient_by_def comp_def)
qed

lemma lit_count_less_32: "0 < lit_count cs l \<Longrightarrow> l < 32"
proof (rule ccontr)
  assume l: "0 < lit_count cs l" "\<not> l < 32"
  have "push_bit l (1 :: u32) = 0"
    by (rule bit_eqI) (use l in \<open>auto simp: bit_push_bit_iff simp del: push_bit_of_1\<close>)
  then show False using l by (simp add: lit_count_eq Kit_CubeHasLit_def del: push_bit_of_1)
qed

text \<open>One round of \<open>Kit_SopDivisorZeroKernel_rec\<close>.\<close>

lemma kernel_step:
  assumes "antichain cs" "0 \<notin> set (quotient_by cs q)" "2 \<le> lit_count (quotient_by cs q) l"
  obtains q' where "lits q \<subset> lits q'"
    "Kit_SopMakeCubeFree (Kit_SopDivideByLiteralQuo (quotient_by cs q) l) = quotient_by cs q'"
    "lit_count (quotient_by cs q) l = length (quotient_by cs q')"
proof -
  have l: "l < 32" using lit_count_less_32 [of "quotient_by cs q" l] assms(3) by simp
  have "filter (\<lambda>c. Kit_CubeHasLit c l) (quotient_by cs q) \<noteq> []"
    using assms(2,3) by (auto simp: lit_count_eq)
  then obtain d where "d \<in> set (quotient_by cs q)" "l \<in> lits d"
    using l by (auto simp: filter_empty_conv lits_HasLit)
  then have lq: "l \<notin> lits q" using set_quotient_by [of d cs q] by blast
  let ?q = "Kit_CubeSetLit q l"
  have quo: "Kit_SopDivideByLiteralQuo (quotient_by cs q) l = quotient_by cs ?q"
    using assms(2) quotient_LiteralQuo [OF l lq] by (simp add: LiteralQuo_eq)
  have len: "lit_count (quotient_by cs q) l = length (quotient_by cs ?q)"
    using assms(2) by (simp add: lit_count_eq quotient_LiteralQuo [OF l lq, symmetric])
  have nz: "0 \<notin> set (quotient_by cs ?q)"
    using antichain_nonzero [OF antichain_quotient [OF assms(1)]] len assms(3) by simp
  let ?m = "Kit_SopCommonCube (quotient_by cs ?q)"
  have "Kit_SopMakeCubeFree (quotient_by cs ?q) = quotient_by cs (?q OR ?m)"
    using quotient_common [of cs ?q ?m] CommonCube_subset [of _ "quotient_by cs ?q"] nz
    by (simp add: MakeCubeFree_eq)
  moreover have "length (quotient_by cs (?q OR ?m)) = length (quotient_by cs ?q)"
    using calculation by (metis length_MakeCubeFree)
  moreover have "lits q \<subset> lits (?q OR ?m)" using l lq by (auto simp: lits_simps)
  ultimately show thesis using that len quo by metis
qed

lemma kernel_quotient:
  assumes "antichain cs" "2 \<le> length (quotient_by cs q)"
  shows "\<exists>q'. Kit_SopDivisorZeroKernel_rec (quotient_by cs q) n = quotient_by cs q' \<and>
    lits q \<subseteq> lits q' \<and> 2 \<le> length (quotient_by cs q') \<and>
    (Kit_SopWorstLiteral (quotient_by cs q) n \<noteq> -1 \<longrightarrow> lits q \<subset> lits q')"
  using assms(2)
proof (induction "card {..<32 :: nat} - card (lits q)" arbitrary: q rule: less_induct)
  case less
  have sub: "lits x \<subseteq> {..<32}" for x by (auto dest: lits_less)
  have nz: "0 \<notin> set (quotient_by cs q)"
    by (rule antichain_nonzero [OF antichain_quotient [OF assms(1)] less.prems])
  consider "Kit_SopWorstLiteral (quotient_by cs q) n = -1"
    | l where "Kit_SopWorstLiteral (quotient_by cs q) n = int l" "2 \<le> lit_count (quotient_by cs q) l"
    using WorstLiteral_cases [of "quotient_by cs q" n] by blast
  then show ?case
  proof cases
    case 1
    then have "Kit_SopDivisorZeroKernel_rec (quotient_by cs q) n = quotient_by cs q"
      using Kit_SopDivisorZeroKernel_rec.simps [of "quotient_by cs q" n] by simp
    then show ?thesis using less.prems 1 by auto
  next
    case (2 l)
    obtain q1 where q1: "lits q \<subset> lits q1"
      "Kit_SopMakeCubeFree (Kit_SopDivideByLiteralQuo (quotient_by cs q) l) = quotient_by cs q1"
      "lit_count (quotient_by cs q) l = length (quotient_by cs q1)"
      by (rule kernel_step [OF assms(1) nz 2(2)])
    have "card (lits q) < card (lits q1)" by (rule psubset_card_mono [OF finite_lits q1(1)])
    moreover have "card (lits q1) \<le> card {..<(32 :: nat)}" by (rule card_mono [OF _ sub]) simp
    ultimately have dec: "card {..<(32 :: nat)} - card (lits q1) < card {..<(32 :: nat)} - card (lits q)" by linarith
    obtain q' where q': "Kit_SopDivisorZeroKernel_rec (quotient_by cs q1) n = quotient_by cs q'"
      "lits q1 \<subseteq> lits q'" "2 \<le> length (quotient_by cs q')"
      using less.hyps [OF dec] q1(3) 2(2) by auto
    have "Kit_SopDivisorZeroKernel_rec (quotient_by cs q) n = quotient_by cs q'"
      using q1(2) 2(1) q'(1) Kit_SopDivisorZeroKernel_rec.simps [of "quotient_by cs q" n] by simp
    moreover have "lits q \<subset> lits q'" using q1(1) q'(2) by blast
    ultimately show ?thesis using q'(3) by blast
  qed
qed

section \<open>Memory\<close>

definition grown :: "vec_mem \<Rightarrow> nat \<Rightarrow> vec_mem \<Rightarrow> bool" where
  "grown v n v' \<longleftrightarrow> nCap v' = nCap v \<and> nSize v \<le> nSize v' \<and> nSize v' \<le> nSize v + n"

lemma fetch_cubes_ok:
  assumes "nSize v + n \<le> nCap v"
  shows "fetch_cubes v n = Some (v\<lparr>nSize := nSize v + n\<rparr>)"
  using assms by (auto simp: fetch_cubes_def Vec_IntFetch_def)

lemma grown_fetch: "grown v n (v\<lparr>nSize := nSize v + n\<rparr>)"
  by (simp add: grown_def)

lemma grown_trans: "grown u a v \<Longrightarrow> grown v b w \<Longrightarrow> grown u (a + b) w"
  by (auto simp: grown_def)

lemma grown_mono: "grown u a v \<Longrightarrow> a \<le> b \<Longrightarrow> grown u b v"
  by (auto simp: grown_def)

lemma grown_fits: "grown u a v \<Longrightarrow> nSize u + (a + b) \<le> nCap u \<Longrightarrow> nSize v + b \<le> nCap v"
  by (auto simp: grown_def)

lemma foldl_push [simp]: "foldl Kit_SopPushCube xs ys = xs @ ys"
  by (induction ys arbitrary: xs) (auto simp: Kit_SopPushCube_def)

text \<open>The divisor of a cover is a quotient by a cube that is not empty, with at least two cubes.\<close>

lemma Kit_SopDivisor_ok:
  assumes "antichain cs" "0 \<notin> set cs" "length cs < 1000000" "nSize v + length cs \<le> nCap v"
  shows "Kit_SopDivisor cs n v = Some (None, v) \<and> (length cs \<le> 1 \<or> (\<forall>i<n. lit_count cs i < 2)) \<or>
    (\<exists>q v'. Kit_SopDivisor cs n v = Some (Some (quotient_by cs q), v') \<and> grown v (length cs) v' \<and>
      q \<noteq> 0 \<and> 2 \<le> length (quotient_by cs q))"
proof (cases "length cs \<le> 1 \<or> Kit_SopAnyLiteral cs n = -1")
  case True
  then show ?thesis by (auto simp: Kit_SopDivisor_def AnyLiteral_eq)
next
  case False
  then have "\<exists>i<n. 2 \<le> lit_count cs i" by (auto simp: AnyLiteral_eq not_less)
  then have "Kit_SopWorstLiteral cs n \<noteq> -1"
    using WorstLiteral_spec [OF assms(3), of n] by (auto simp: worst_of_def not_less)
  then obtain q where q: "Kit_SopDivisorZeroKernel_rec cs n = quotient_by cs q" "{} \<subset> lits q"
    "2 \<le> length (quotient_by cs q)"
    using kernel_quotient [OF assms(1), of 0 n] False by (auto simp: quotient_by_0 lits_0)
  have "q \<noteq> 0" using q(2) by (auto simp: lits_0)
  moreover have "quotient_by cs q \<noteq> []" using q(3) by auto
  then have "Kit_SopDivisor cs n v = Some (Some (quotient_by cs q), v\<lparr>nSize := nSize v + length cs\<rparr>)"
    using False q(1) fetch_cubes_ok [OF assms(4)] assms(2) by (simp add: Kit_SopDivisor_def Kit_SopDup_def Let_def)
  ultimately show ?thesis using grown_fetch q(3) by blast
qed

text \<open>
  C28 (termination). The search for a divisor returns on every cover of cubes none of which contains
  another: either there is none, because the cover has one cube or no literal occurs twice, or the
  divisor is the quotient of the cover by a cube that is not empty, and has at least two cubes.
\<close>

theorem Kit_SopDivisor_correct:
  assumes "antichain cSop" "0 \<notin> set cSop" "length cSop < 1000000" "nSize v + length cSop \<le> nCap v"
  shows "(\<exists>v'. Kit_SopDivisor cSop nLit v = Some (None, v')) \<and>
      (length cSop \<le> 1 \<or> (\<forall>i<nLit. lit_count cSop i < 2)) \<or>
    (\<exists>q v'. Kit_SopDivisor cSop nLit v = Some (Some (quotient_by cSop q), v') \<and> q \<noteq> 0 \<and>
      2 \<le> length (quotient_by cSop q) \<and> antichain (quotient_by cSop q))"
  using Kit_SopDivisor_ok [OF assms, of nLit] antichain_quotient [OF assms(1)] by blast

text \<open>Deciding the hypotheses on concrete covers.\<close>

lemma antichain_code: "antichain cs \<longleftrightarrow> distinct cs \<and> list_all (\<lambda>c. list_all (\<lambda>d. Kit_CubeContains d c \<longrightarrow> c = d) cs) cs"
  by (simp add: antichain_def list_all_iff lits_Contains)

lemma cubes_below_31: "cubes_below 31 cs \<longleftrightarrow> list_all (\<lambda>c. \<not> bit c 31) cs"
proof -
  have "lits c \<subseteq> {..<31} \<longleftrightarrow> \<not> bit c 31" for c
  proof
    assume n: "\<not> bit c 31"
    show "lits c \<subseteq> {..<31}"
    proof
      fix j assume j: "j \<in> lits c"
      then have "j < 32" "j \<noteq> 31" using n lits_less by (auto simp: mem_lits)
      then show "j \<in> {..<31}" by simp
    qed
  qed (auto simp: lits_def)
  then show ?thesis by (simp add: cubes_below_def list_all_iff)
qed

theorem Kit_SopDivisor_witness:
  "let cs = [5, 6, 8]; v = \<lparr>nSize = 0, nCap = 100\<rparr> in
    (\<exists>v'. Kit_SopDivisor cs 8 v = Some (None, v')) \<and>
      (length cs \<le> 1 \<or> (\<forall>i<8. lit_count cs i < 2)) \<or>
    (\<exists>q v'. Kit_SopDivisor cs 8 v = Some (Some (quotient_by cs q), v') \<and> q \<noteq> 0 \<and>
      2 \<le> length (quotient_by cs q) \<and> antichain (quotient_by cs q))"
  unfolding Let_def by (rule Kit_SopDivisor_correct) (simp_all add: antichain_code Kit_CubeContains_def)

text \<open>
  \<open>Kit_SopWorstLiteral\<close> and \<open>Kit_SopBestLiteral\<close> return a literal that occurs in the
  smallest, respectively largest, number of cubes among the admissible literals that occur at least
  twice, and -1 when there is none.
\<close>

theorem Kit_SopWorstBestLiteral_correct:
  assumes "length cSop < 1000000"
  shows "worst_of cSop nLit (Kit_SopWorstLiteral cSop nLit) \<and> best_of cSop nLit uMask (Kit_SopBestLiteral cSop nLit uMask)"
  using WorstLiteral_spec [OF assms] BestLiteral_spec by blast

theorem Kit_SopWorstBestLiteral_witness:
  "worst_of [5, 6, 8] 8 (Kit_SopWorstLiteral [5, 6, 8] 8) \<and> best_of [5, 6, 8] 8 7 (Kit_SopBestLiteral [5, 6, 8] 8 7)"
  by (rule Kit_SopWorstBestLiteral_correct) simp

end
