(* ===== verification/Kit_Divide.thy ===== *)
theory Kit_Divide
  imports Kit_Sop
begin

text \<open>
  The division routines of \<open>kitSop.c\<close>. \<open>Kit_SopDivideInternal\<close> marks the cubes it has taken in bit 31
  and removes the marks at the end; the invariant \<open>division_inv\<close> states that the cubes without mark
  and the products of divisor and quotient are the cubes of the cover at every moment.
\<close>

unbundle bit_operations_syntax


section \<open>Division by one cube\<close>

lemma quotient_division:
  "division cs [d] (quotient_by cs d) (filter (\<lambda>c. \<not> Kit_CubeContains c d) cs)"
proof -
  have "cover_prod [d] (quotient_by cs d) = map (\<lambda>q. q OR d) (quotient_by cs d)"
    by (induction "quotient_by cs d") (auto simp: cover_prod_def)
  also have "\<dots> = filter (\<lambda>c. Kit_CubeContains c d) cs"
    unfolding quotient_by_def map_map
    by (rule map_idI) (auto simp: lits_eq_iff [symmetric] lits_simps)
  finally have "cover_prod [d] (quotient_by cs d) = filter (\<lambda>c. Kit_CubeContains c d) cs" .
  moreover have "\<forall>q\<in>set (quotient_by cs d). lits q \<inter> lits d = {}" using set_quotient_by by blast
  ultimately show ?thesis by (simp add: division_def)
qed

lemma DivideByCube_eq:
  assumes "0 \<notin> set cs" "nSize v + 2 * length cs \<le> nCap v"
  obtains v' where "Kit_SopDivideByCube cs [d] v =
      Some (quotient_by cs d, filter (\<lambda>c. \<not> Kit_CubeContains c d) cs, v')" "grown v (2 * length cs) v'"
proof -
  have f: "foldl (\<lambda>(vQuo, vRem) c. if Kit_CubeContains c d then (Kit_SopPushCube vQuo (Kit_CubeSharp c d), vRem)
            else (vQuo, Kit_SopPushCube vRem c)) (qs, rs) cs =
      (qs @ quotient_by cs d, rs @ filter (\<lambda>c. \<not> Kit_CubeContains c d) cs)" for qs rs
    by (induction cs arbitrary: qs rs) (auto simp: Kit_SopPushCube_def quotient_by_def)
  let ?v1 = "v\<lparr>nSize := nSize v + length cs\<rparr>"
  let ?v2 = "?v1\<lparr>nSize := nSize ?v1 + length cs\<rparr>"
  have "fetch_cubes v (length cs) = Some ?v1" "fetch_cubes ?v1 (length cs) = Some ?v2"
    using assms(2) fetch_cubes_ok [of v "length cs"] fetch_cubes_ok [of ?v1 "length cs"] by simp_all
  then have "Kit_SopDivideByCube cs [d] v =
      Some (quotient_by cs d, filter (\<lambda>c. \<not> Kit_CubeContains c d) cs, ?v2)"
    using assms(1) f [of "[]" "[]"] by (simp add: Kit_SopDivideByCube_def)
  moreover have "grown v (2 * length cs) ?v2" by (simp add: grown_def)
  ultimately show thesis by (rule that)
qed

section \<open>Division by a cover\<close>

text \<open>
  During the division some cubes carry the mark, bit 31. \<open>unmarked\<close> are the others; \<open>marks\<close> relates
  the cover to its state with marks.
\<close>

definition unmarked :: "u32 list \<Rightarrow> u32 list" where
  "unmarked cs = filter (\<lambda>c. \<not> Kit_CubeIsMarked c) cs"

definition marks :: "u32 list \<Rightarrow> u32 list \<Rightarrow> bool" where
  "marks cs cs' \<longleftrightarrow> length cs' = length cs \<and>
    (\<forall>i<length cs. cs' ! i = cs ! i \<or> cs' ! i = Kit_CubeMark (cs ! i))"

lemma mset_filter_update:
  assumes "i < length xs" "P (xs ! i)" "\<not> P y"
  shows "mset (filter P xs) = add_mset (xs ! i) (mset (filter P (xs[i := y])))"
proof -
  have "filter P xs = filter P (take i xs) @ [xs ! i] @ filter P (drop (Suc i) xs)"
    using assms id_take_nth_drop [OF assms(1)] by (metis filter.simps filter_append append_Cons append_Nil)
  moreover have "filter P (xs[i := y]) = filter P (take i xs) @ filter P (drop (Suc i) xs)"
    using assms by (simp add: upd_conv_take_nth_drop)
  ultimately show ?thesis by simp
qed

lemma unmarked_mark:
  assumes "i < length cs" "\<not> Kit_CubeIsMarked (cs ! i)"
  shows "mset (unmarked cs) = add_mset (cs ! i) (mset (unmarked (cs[i := Kit_CubeMark (cs ! i)])))"
  unfolding unmarked_def by (rule mset_filter_update) (use assms in \<open>auto simp: lits_Mark\<close>)

lemma marks_mark: "marks cs cs' \<Longrightarrow> i < length cs \<Longrightarrow> \<not> Kit_CubeIsMarked (cs' ! i) \<Longrightarrow>
    marks cs (cs'[i := Kit_CubeMark (cs' ! i)])"
  unfolding marks_def by (auto simp: nth_list_update lits_Mark)

lemma marks_nonzero:
  assumes "marks cs cs'" "0 \<notin> set cs" shows "0 \<notin> set cs'"
proof
  assume "0 \<in> set cs'"
  then obtain i where i: "i < length cs" "cs' ! i = 0" using assms(1) by (auto simp: in_set_conv_nth marks_def)
  then have "cs ! i \<noteq> 0" using assms(2) nth_mem [OF i(1)] by metis
  moreover have "Kit_CubeMark (cs ! i) \<noteq> 0"
  proof
    assume "Kit_CubeMark (cs ! i) = 0"
    then have "lits (Kit_CubeMark (cs ! i)) = {}" by (simp add: lits_0)
    then show False by (simp add: lits_Mark)
  qed
  ultimately show False using assms(1) i by (auto simp: marks_def)
qed

lemma find_cube_spec:
  assumes "0 \<notin> set cs"
  shows "find_cube cs d q < length cs \<longleftrightarrow> lits q \<inter> lits d = {} \<and> q OR d \<in> set (unmarked cs)"
    and "find_cube cs d q < length cs \<Longrightarrow>
      cs ! find_cube cs d q = q OR d \<and> \<not> Kit_CubeIsMarked (cs ! find_cube cs d q)"
proof -
  let ?P = "\<lambda>i. cs ! i = 0 \<or> \<not> Kit_CubeIsMarked (cs ! i) \<and>
      Kit_CubeContains (cs ! i) d \<and> q = Kit_CubeSharp (cs ! i) d"
  have P: "?P i \<longleftrightarrow> \<not> Kit_CubeIsMarked (cs ! i) \<and> lits q \<inter> lits d = {} \<and> cs ! i = q OR d" if "i < length cs" for i
  proof -
    have "cs ! i \<noteq> 0" using that assms nth_mem by metis
    moreover have "Kit_CubeContains (cs ! i) d \<and> q = Kit_CubeSharp (cs ! i) d \<longleftrightarrow>
        lits q \<inter> lits d = {} \<and> cs ! i = q OR d"
      using Sharp_eq_iff [of d "cs ! i" q] by (auto simp: lits_Contains lits_or)
    ultimately show ?thesis by blast
  qed
  have lt: "find_cube cs d q < length cs \<longleftrightarrow> (\<exists>i<length cs. ?P i)"
    using break_index_eq [of "length cs" ?P] break_index_le [of "length cs" ?P] unfolding find_cube_def nat_less_le by blast
  have ex: "(\<exists>i<length cs. ?P i) \<longleftrightarrow>
      (\<exists>i<length cs. \<not> Kit_CubeIsMarked (cs ! i) \<and> lits q \<inter> lits d = {} \<and> cs ! i = q OR d)"
    using P by blast
  show "find_cube cs d q < length cs \<longleftrightarrow> lits q \<inter> lits d = {} \<and> q OR d \<in> set (unmarked cs)"
    unfolding lt ex by (auto simp: unmarked_def in_set_conv_nth)
  assume "find_cube cs d q < length cs"
  then show "cs ! find_cube cs d q = q OR d \<and> \<not> Kit_CubeIsMarked (cs ! find_cube cs d q)"
    using break_index_less(1) [of "length cs" ?P] P unfolding find_cube_def by blast
qed

lemma mark_rest_loop:
  assumes "marks cs cs'" "0 \<notin> set cs" "distinct (map (\<lambda>k2. D ! k2) ks)"
    and "\<And>k2. k2 \<in> set ks \<Longrightarrow> k2 \<noteq> k \<Longrightarrow> lits q \<inter> lits (D ! k2) = {} \<and> q OR D ! k2 \<in> set (unmarked cs')"
  shows "\<exists>cs''. foldl (\<lambda>cSop k2. if k2 = k then cSop else
        do { cSop \<leftarrow> cSop; let i2 = find_cube cSop (D ! k2) q;
             if i2 < length cSop then Some (cSop[i2 := Kit_CubeMark (cSop ! i2)]) else None }) (Some cs') ks = Some cs''
    \<and> marks cs cs''
    \<and> mset (unmarked cs') = mset (map (\<lambda>k2. q OR D ! k2) (filter (\<lambda>k2. k2 \<noteq> k) ks)) + mset (unmarked cs'')"
  using assms(1,3,4)
proof (induction ks arbitrary: cs')
  case (Cons j ks)
  show ?case
  proof (cases "j = k")
    case True
    then show ?thesis using Cons.IH [OF Cons.prems(1)] Cons.prems(2,3) by simp
  next
    case False
    have nz: "0 \<notin> set cs'" by (rule marks_nonzero [OF Cons.prems(1) assms(2)])
    let ?i = "find_cube cs' (D ! j) q"
    have i: "?i < length cs'" using find_cube_spec(1) [OF nz] Cons.prems(3) [of j] False by simp
    note c = find_cube_spec(2) [OF nz i]
    let ?cs = "cs'[?i := Kit_CubeMark (cs' ! ?i)]"
    have "?i < length cs" using i Cons.prems(1) by (simp add: marks_def)
    then have m: "marks cs ?cs" using marks_mark [OF Cons.prems(1)] c by blast
    have u: "mset (unmarked cs') = add_mset (q OR D ! j) (mset (unmarked ?cs))"
      using unmarked_mark [OF i conjunct2 [OF c]] by (simp only: conjunct1 [OF c])
    have "q OR D ! k2 \<in> set (unmarked ?cs)" if "k2 \<in> set ks" "k2 \<noteq> k" for k2
    proof -
      have "D ! k2 \<in> (!) D ` set ks" using that(1) by (rule imageI)
      then have "D ! k2 \<noteq> D ! j" using Cons.prems(2) by auto
      then have "q OR D ! k2 \<noteq> q OR D ! j"
        using or_disjoint_inj [of q "D ! k2" "D ! j"] Cons.prems(3) [of k2] Cons.prems(3) [of j] that False by simp
      moreover have "q OR D ! k2 \<in># mset (unmarked cs')" using Cons.prems(3) [of k2] that by simp
      ultimately show ?thesis unfolding u by simp
    qed
    then obtain cs'' where "foldl (\<lambda>cSop k2. if k2 = k then cSop else
        do { cSop \<leftarrow> cSop; let i2 = find_cube cSop (D ! k2) q;
             if i2 < length cSop then Some (cSop[i2 := Kit_CubeMark (cSop ! i2)]) else None }) (Some ?cs) ks = Some cs''"
      "marks cs cs''"
      "mset (unmarked ?cs) = mset (map (\<lambda>k2. q OR D ! k2) (filter (\<lambda>k2. k2 \<noteq> k) ks)) + mset (unmarked cs'')"
      using Cons.IH [OF m] Cons.prems(2,3) by auto
    then show ?thesis using False i u by (auto simp: Let_def)
  qed
qed (use assms in simp)

text \<open>The state of the division: the cover with marks and the quotient.\<close>

definition division_inv :: "u32 list \<Rightarrow> u32 list \<Rightarrow> u32 list \<Rightarrow> u32 list \<Rightarrow> bool" where
  "division_inv cs D cs' qs \<longleftrightarrow> marks cs cs' \<and> division cs D qs (unmarked cs')"

lemma mset_remove_index:
  assumes "k < length D"
  shows "mset (map f D) = add_mset (f (D ! k)) (mset (map (\<lambda>j. f (D ! j)) (filter (\<lambda>j. j \<noteq> k) [0..<length D])))"
proof -
  have "mset (map (\<lambda>j. f (D ! j)) [0..<length D]) =
      mset (map (\<lambda>j. f (D ! j)) (filter (\<lambda>j. j = k) [0..<length D])) +
      mset (map (\<lambda>j. f (D ! j)) (filter (\<lambda>j. j \<noteq> k) [0..<length D]))"
    by (simp only: mset_map mset_filter image_mset_union [symmetric] multiset_partition [symmetric])
  moreover have "filter (\<lambda>j. j = k) [0..<length D] = [k]"
  proof -
    have "filter (\<lambda>j. j = k) [0..<n] = (if k < n then [k] else [])" for n by (induction n) auto
    then show ?thesis using assms by simp
  qed
  moreover have "map (\<lambda>j. f (D ! j)) [0..<length D] = map f D"
    by (rule nth_equalityI) auto
  ultimately show ?thesis by simp
qed

lemma division_push:
  assumes "division cs D qs rs" "mset rs = mset (map (\<lambda>d. q OR d) D) + mset rs'" "\<forall>d\<in>set D. lits q \<inter> lits d = {}"
  shows "division cs D (qs @ [q]) rs'"
  using assms by (auto simp: division_def cover_prod_def)

lemma find_div_spec:
  assumes "0 \<notin> set D"
  shows "find_div D c < length D \<Longrightarrow> lits (D ! find_div D c) \<subseteq> lits c"
    and "find_div D c = length D \<Longrightarrow> d \<in> set D \<Longrightarrow> \<not> lits d \<subseteq> lits c"
proof -
  let ?P = "\<lambda>k. D ! k = 0 \<or> Kit_CubeContains c (D ! k)"
  show "lits (D ! find_div D c) \<subseteq> lits c" if k: "find_div D c < length D"
  proof -
    have "?P (find_div D c)" using break_index_less(1) [of "length D" ?P] k unfolding find_div_def by blast
    moreover have "D ! find_div D c \<noteq> 0" using k assms nth_mem by metis
    ultimately show ?thesis by (simp add: lits_Contains)
  qed
  show "\<not> lits d \<subseteq> lits c" if "find_div D c = length D" "d \<in> set D"
    using that break_index_eq [of "length D" ?P] by (auto simp: find_div_def in_set_conv_nth lits_Contains)
qed

lemma divide_step_inv:
  assumes D: "distinct D" "0 \<notin> set D" and cs: "0 \<notin> set cs"
    and inv: "division_inv cs D cs' qs" and i: "i < length cs"
  shows "\<exists>cs'' qs'. divide_step D (Some (cs', qs)) i = Some (cs'', qs') \<and> division_inv cs D cs'' qs' \<and>
    (qs' = [] \<longrightarrow> qs = [] \<and>
      (Kit_CubeIsMarked (cs' ! i) \<or> find_div D (cs' ! i) = length D \<or>
       find_rest cs' D (find_div D (cs' ! i)) (Kit_CubeSharp (cs' ! i) (D ! find_div D (cs' ! i))) \<noteq> length D))"
proof -
  let ?k = "find_div D (cs' ! i)"
  let ?q = "Kit_CubeSharp (cs' ! i) (D ! ?k)"
  show ?thesis
  proof (cases "Kit_CubeIsMarked (cs' ! i) \<or> ?k = length D \<or> find_rest cs' D ?k ?q \<noteq> length D")
    case True
    then have "divide_step D (Some (cs', qs)) i = Some (cs', qs)" by (auto simp: divide_step_def Let_def)
    then show ?thesis using inv True by blast
  next
    case False
    have m: "marks cs cs'" and len: "length cs' = length cs" using inv by (auto simp: division_inv_def marks_def)
    have nz: "0 \<notin> set cs'" by (rule marks_nonzero [OF m cs])
    have k: "?k < length D" using False break_index_le unfolding find_div_def by (meson le_neq_implies_less)
    then have "lits (D ! ?k) \<subseteq> lits (cs' ! i)" using find_div_spec D(2) by blast
    then have q: "lits ?q \<inter> lits (D ! ?k) = {}" "cs' ! i = ?q OR D ! ?k" using Sharp_eq_iff by blast+
    have rest: "lits ?q \<inter> lits (D ! j) = {} \<and> ?q OR D ! j \<in> set (unmarked cs')" if "j < length D" "j \<noteq> ?k" for j
    proof -
      have "find_cube cs' (D ! j) ?q \<noteq> length cs'"
        using False that break_index_eq [of "length D" "\<lambda>k2. D ! k2 = 0 \<or> k2 \<noteq> ?k \<and> find_cube cs' (D ! k2) ?q = length cs'"]
        unfolding find_rest_def by blast
      then have "find_cube cs' (D ! j) ?q < length cs'"
        using break_index_le unfolding find_cube_def by (meson le_neq_implies_less)
      then show ?thesis using find_cube_spec(1) [OF nz] by blast
    qed
    let ?cs = "cs'[i := Kit_CubeMark (cs' ! i)]"
    have m1: "marks cs ?cs" using marks_mark [OF m i] False by blast
    have u1: "mset (unmarked cs') = add_mset (cs' ! i) (mset (unmarked ?cs))"
      using unmarked_mark [of i cs'] False i len by simp
    have r1: "lits ?q \<inter> lits (D ! j) = {} \<and> ?q OR D ! j \<in> set (unmarked ?cs)" if "j \<in> set [0..<length D]" "j \<noteq> ?k" for j
    proof -
      have j: "j < length D" using that(1) by simp
      then have "D ! j \<noteq> D ! ?k" using D(1) k that(2) by (simp add: nth_eq_iff_index_eq)
      then have "?q OR D ! j \<noteq> cs' ! i" using or_disjoint_inj [of ?q "D ! j" "D ! ?k"] rest [OF j that(2)] q by metis
      moreover have "?q OR D ! j \<in># mset (unmarked cs')" using rest [OF j that(2)] by simp
      ultimately show ?thesis using rest [OF j that(2)] unfolding u1 by simp
    qed
    have "map ((!) D) [0..<length D] = D" by (rule map_nth)
    then have "distinct (map (\<lambda>k2. D ! k2) [0..<length D])" using D(1) by simp
    from mark_rest_loop [OF m1 cs this r1] obtain cs'' where
      cs'': "mark_rest D ?k ?q ?cs = Some cs''" "marks cs cs''"
      "mset (unmarked ?cs) = mset (map (\<lambda>j. ?q OR D ! j) (filter (\<lambda>j. j \<noteq> ?k) [0..<length D])) + mset (unmarked cs'')"
      using D(2) unfolding mark_rest_def by auto
    have "mset (unmarked cs') = mset (map (\<lambda>d. ?q OR d) D) + mset (unmarked cs'')"
      using u1 cs''(3) q(2) mset_remove_index [OF k, of "\<lambda>d. ?q OR d"] by simp
    moreover have "\<forall>d\<in>set D. lits ?q \<inter> lits d = {}" using rest q(1) by (metis in_set_conv_nth)
    ultimately have "division_inv cs D cs'' (qs @ [?q])"
      using inv cs''(2) division_push by (auto simp: division_inv_def)
    moreover have "divide_step D (Some (cs', qs)) i = Some (cs'', qs @ [?q])"
      using False cs''(1) by (simp add: divide_step_def Let_def Kit_SopPushCube_def)
    ultimately show ?thesis by blast
  qed
qed

lemma divide_loop_inv:
  assumes D: "distinct D" "0 \<notin> set D" and cs: "0 \<notin> set cs"
    and "division_inv cs D cs' qs" "\<forall>i\<in>set is. i < length cs"
  shows "\<exists>cs'' qs'. foldl (divide_step D) (Some (cs', qs)) is = Some (cs'', qs') \<and> division_inv cs D cs'' qs' \<and>
    (qs' = [] \<longrightarrow> qs = [])"
  using assms(4,5)
proof (induction "is" arbitrary: cs' qs)
  case (Cons i "is")
  then obtain cs1 qs1 where 1: "divide_step D (Some (cs', qs)) i = Some (cs1, qs1)" "division_inv cs D cs1 qs1"
    "qs1 = [] \<longrightarrow> qs = []" using divide_step_inv [OF D cs, of cs' qs i] by auto
  then show ?case using Cons.IH [OF 1(2)] Cons.prems(2) by auto
qed auto

lemma division_inv_start:
  assumes "\<forall>c\<in>set cs. 31 \<notin> lits c"
  shows "division_inv cs D cs []"
  using assms by (auto simp: division_inv_def division_def marks_def cover_prod_def unmarked_def lits_Mark
      intro!: filter_True [symmetric] arg_cong [where f = mset])

lemma division_inv_unchanged:
  assumes "division_inv cs D cs' []"
  shows "cs' = cs"
proof -
  have m: "marks cs cs'" and "mset cs = mset (unmarked cs')"
    using assms by (auto simp: division_inv_def division_def cover_prod_def)
  then have "length (unmarked cs') = length cs'" by (metis marks_def size_mset)
  then have "\<forall>c\<in>set cs'. \<not> Kit_CubeIsMarked c"
    unfolding unmarked_def by (metis filter_id_conv length_filter_less nat_less_le)
  then have "cs' ! i = cs ! i" if "i < length cs" for i
    using m that nth_mem [of i cs'] by (fastforce simp: marks_def lits_Mark)
  then show ?thesis using m by (intro nth_equalityI) (auto simp: marks_def)
qed

text \<open>A quotient cube that exists is not missed altogether.\<close>

lemma divide_loop_complete:
  assumes D: "antichain D" "0 \<notin> set D" "D \<noteq> []" and cs: "0 \<notin> set cs" "\<forall>c\<in>set cs. 31 \<notin> lits c"
    and q: "\<And>d. d \<in> set D \<Longrightarrow> lits q \<inter> lits d = {} \<and> q OR d \<in> set cs"
    and res: "foldl (divide_step D) (Some (cs, [])) [0..<length cs] = Some (cs', qs)"
  shows "qs \<noteq> []"
proof
  assume empty: "qs = []"
  have dD: "distinct D" using D(1) by (simp add: antichain_def)
  have "D ! 0 \<in> set D" using D(3) by simp
  then obtain i where i: "i < length cs" "cs ! i = q OR D ! 0" using q by (metis in_set_conv_nth)
  obtain cs1 qs1 where 1: "foldl (divide_step D) (Some (cs, [])) [0..<i] = Some (cs1, qs1)" "division_inv cs D cs1 qs1"
    using divide_loop_inv [OF dD D(2) cs(1) division_inv_start [OF cs(2), of D], of "[0..<i]"] i by auto
  obtain cs2 qs2 where 2: "divide_step D (Some (cs1, qs1)) i = Some (cs2, qs2)" "division_inv cs D cs2 qs2"
    "qs2 = [] \<longrightarrow> qs1 = [] \<and>
      (Kit_CubeIsMarked (cs1 ! i) \<or> find_div D (cs1 ! i) = length D \<or>
       find_rest cs1 D (find_div D (cs1 ! i)) (Kit_CubeSharp (cs1 ! i) (D ! find_div D (cs1 ! i))) \<noteq> length D)"
    using divide_step_inv [OF dD D(2) cs(1) 1(2) i(1)] by blast
  obtain cs3 qs3 where 3: "foldl (divide_step D) (Some (cs2, qs2)) [Suc i..<length cs] = Some (cs3, qs3)"
    "qs3 = [] \<longrightarrow> qs2 = []"
    using divide_loop_inv [OF dD D(2) cs(1) 2(2), of "[Suc i..<length cs]"] by auto
  have "[0..<length cs] = [0..<i] @ i # [Suc i..<length cs]"
    using i(1) upt_add_eq_append [of 0 i "length cs - i"] upt_conv_Cons [OF i(1)] by simp
  then have "qs3 = qs" using res 1(1) 2(1) 3(1) by simp
  then have qs: "qs2 = []" "qs1 = []" using 2(3) 3(2) empty by blast+
  then have cs1: "cs1 = cs" using division_inv_unchanged 1(2) by blast
  let ?k = "find_div D (cs ! i)"
  have k: "?k < length D"
  proof (rule ccontr)
    assume "\<not> ?thesis"
    then have "?k = length D" using break_index_le unfolding find_div_def by (meson le_neq_implies_less)
    then have "\<not> lits (D ! 0) \<subseteq> lits (cs ! i)" using find_div_spec(2) [OF D(2)] \<open>D ! 0 \<in> set D\<close> by blast
    then show False by (simp add: i(2) lits_or)
  qed
  have mem: "D ! ?k \<in> set D" using k by simp
  have "lits (D ! ?k) \<subseteq> lits (D ! 0)"
    using find_div_spec(1) [OF D(2) k] q [OF mem] by (auto simp: i(2) lits_or)
  then have D0: "D ! ?k = D ! 0" using antichainD [OF D(1) mem \<open>D ! 0 \<in> set D\<close>] by blast
  have quo: "Kit_CubeSharp (cs ! i) (D ! ?k) = q"
    unfolding D0 unfolding i(2) using q [OF \<open>D ! 0 \<in> set D\<close>] by (auto simp: lits_eq_iff [symmetric] lits_simps)
  have unm: "unmarked cs = cs" using cs(2) by (auto simp: unmarked_def lits_Mark filter_id_conv)
  have "find_rest cs D ?k q = length D"
  proof -
    have "\<not> (D ! j = 0 \<or> j \<noteq> ?k \<and> find_cube cs (D ! j) q = length cs)" if "j < length D" for j
    proof -
      have j: "D ! j \<in> set D" using that by simp
      then have "find_cube cs (D ! j) q < length cs" using find_cube_spec(1) [OF cs(1)] q unm by simp
      then show ?thesis using D(2) j by auto
    qed
    then show ?thesis unfolding find_rest_def by (subst break_index_eq) blast
  qed
  moreover have "\<not> Kit_CubeIsMarked (cs ! i)" using cs(2) i(1) by (simp add: lits_Mark)
  ultimately show False using 2(3) qs k quo cs1 by simp
qed

text \<open>The last loop: the marks are removed, the unmarked cubes are the remainder.\<close>

lemma remainder_loop:
  assumes "k \<le> length cs"
  shows "foldl (\<lambda>(cSop, vRem) i.
              if \<not> Kit_CubeIsMarked (cSop ! i) then (cSop, Kit_SopPushCube vRem (cSop ! i))
              else (cSop[i := Kit_CubeUnmark (cSop ! i)], vRem)) (cs, []) [0..<k] =
    (map (\<lambda>c. if Kit_CubeIsMarked c then Kit_CubeUnmark c else c) (take k cs) @ drop k cs, unmarked (take k cs))"
  using assms
proof (induction k)
  case (Suc k)
  then have "k < length cs" by simp
  then show ?case
    using Suc
    by (auto simp: unmarked_def Kit_SopPushCube_def nth_append take_Suc_conv_app_nth list_update_append
        Cons_nth_drop_Suc [symmetric])
qed (simp add: unmarked_def)

lemma unmark_all:
  assumes "marks cs cs'" "\<forall>c\<in>set cs. 31 \<notin> lits c"
  shows "map (\<lambda>c. if Kit_CubeIsMarked c then Kit_CubeUnmark c else c) cs' = cs"
proof (rule nth_equalityI)
  fix i assume "i < length (map (\<lambda>c. if Kit_CubeIsMarked c then Kit_CubeUnmark c else c) cs')"
  then have i: "i < length cs" "i < length cs'" using assms(1) by (auto simp: marks_def)
  then have c: "31 \<notin> lits (cs ! i)" "cs' ! i = cs ! i \<or> cs' ! i = Kit_CubeMark (cs ! i)"
    using assms by (auto simp: marks_def)
  then show "map (\<lambda>c. if Kit_CubeIsMarked c then Kit_CubeUnmark c else c) cs' ! i = cs ! i"
    using i(2) Unmark_Mark [OF c(1)] by (auto simp: lits_Mark(1,2))
qed (use assms(1) in \<open>simp add: marks_def\<close>)

lemma DivideInternal_ok:
  assumes cs: "cover_ok 31 cs" and D: "antichain D" "0 \<notin> set D" "D \<noteq> []" "length D \<le> length cs"
    and mem: "nSize v + 2 * length cs \<le> nCap v"
  obtains qs rs v' where "Kit_SopDivideInternal cs D v = Some (cs, qs, rs, v')" "division cs D qs rs"
    "grown v (2 * length cs) v'" "length qs \<le> length cs div length D"
    "\<And>q. (\<And>d. d \<in> set D \<Longrightarrow> lits q \<inter> lits d = {} \<and> q OR d \<in> set cs) \<Longrightarrow> qs \<noteq> []"
proof -
  have cs0: "0 \<notin> set cs" and cs31: "\<forall>c\<in>set cs. 31 \<notin> lits c" using cs by (auto simp: cover_ok_def cubes_below_def)
  have len: "length qs \<le> length cs div length D" if "division cs D qs rs" for qs rs
    using division_length [OF that] D(3) by (simp add: less_eq_div_iff_mult_less_eq)
  show thesis
  proof (cases "length D = 1")
    case True
    then obtain d where d: "D = [d]" by (auto simp: length_Suc_conv)
    obtain v' where v': "Kit_SopDivideByCube cs [d] v =
      Some (quotient_by cs d, filter (\<lambda>c. \<not> Kit_CubeContains c d) cs, v')" "grown v (2 * length cs) v'"
      by (rule DivideByCube_eq [OF cs0 mem])
    have run: "Kit_SopDivideInternal cs D v =
        Some (cs, quotient_by cs d, filter (\<lambda>c. \<not> Kit_CubeContains c d) cs, v')"
      using v'(1) D(4) by (auto simp: Kit_SopDivideInternal_def d)
    have div: "division cs D (quotient_by cs d) (filter (\<lambda>c. \<not> Kit_CubeContains c d) cs)"
      unfolding d by (rule quotient_division)
    have "quotient_by cs d \<noteq> []" if "\<And>d. d \<in> set D \<Longrightarrow> lits q \<inter> lits d = {} \<and> q OR d \<in> set cs" for q
      using that [of d] set_quotient_by [of q cs d] by (auto simp: d or.commute)
    then show ?thesis using that [OF run div v'(2) len [OF div]] by blast
  next
    case False
    then have two: "2 \<le> length D" using D(3) by (cases D) (auto simp: Suc_le_eq)
    have dD: "distinct D" using D(1) by (simp add: antichain_def)
    obtain cs' qs where loop: "foldl (divide_step D) (Some (cs, [])) [0..<length cs] = Some (cs', qs)"
      "division_inv cs D cs' qs"
      using divide_loop_inv [OF dD D(2) cs0 division_inv_start [OF cs31], of "[0..<length cs]"] by auto
    then have div: "division cs D qs (unmarked cs')" and m: "marks cs cs'" by (auto simp: division_inv_def)
    have lcs: "length cs' = length cs" using m by (simp add: marks_def)
    have nz': "0 \<notin> set cs'" by (rule marks_nonzero [OF m cs0])
    let ?a = "length cs div length D" and ?b = "length (unmarked cs')"
    have rem: "length cs - length qs * length D = ?b" using division_length [OF div] by simp
    let ?v1 = "v\<lparr>nSize := nSize v + ?a\<rparr>"
    let ?v2 = "?v1\<lparr>nSize := nSize ?v1 + ?b\<rparr>"
    have "?a \<le> length cs" by (rule div_le_dividend)
    moreover have "?b \<le> length cs" using division_length [OF div] by simp
    ultimately have ab: "?a + ?b \<le> 2 * length cs" by linarith
    have "fetch_cubes v ?a = Some ?v1" "fetch_cubes ?v1 ?b = Some ?v2"
      using fetch_cubes_ok [of v ?a] fetch_cubes_ok [of ?v1 ?b] ab mem by simp_all
    then have run: "Kit_SopDivideInternal cs D v = Some (cs, qs, unmarked cs', ?v2)"
      using False D(4) cs0 nz' loop(1) rem remainder_loop [of "length cs'" cs'] unmark_all [OF m cs31] lcs
      by (simp add: Kit_SopDivideInternal_def Let_def)
    have "grown v (2 * length cs) ?v2" using ab by (simp add: grown_def)
    then show ?thesis
      using that [OF run div _ len [OF div]] divide_loop_complete [OF D(1,2,3) cs0 cs31 _ loop(1)] by blast
  qed
qed

text \<open>
  C5 (equivalence). For a cover of cubes none of which contains another, and a divisor of the same
  kind, \<open>Kit_SopDivideInternal\<close> returns as long as there is memory: it leaves the cover as it was, the
  products of divisor and quotient cubes together with the remainder are exactly the cubes of the
  cover, the quotient shares no literal with the divisor, and it fits into the block fetched for it.
  The quotient is not empty when some cube times the divisor is part of the cover.
\<close>

theorem Kit_SopDivideInternal_correct:
  assumes "cover_ok 31 cSop" "antichain cDiv" "0 \<notin> set cDiv" "cDiv \<noteq> []" "length cDiv \<le> length cSop"
    and "nSize v + 2 * length cSop \<le> nCap v"
  shows "\<exists>vQuo vRem v'. Kit_SopDivideInternal cSop cDiv v = Some (cSop, vQuo, vRem, v') \<and>
    mset cSop = mset (cover_prod cDiv vQuo) + mset vRem \<and>
    (\<forall>q\<in>set vQuo. \<forall>d\<in>set cDiv. lits q \<inter> lits d = {}) \<and>
    length vQuo \<le> length cSop div length cDiv \<and>
    ((\<exists>q. \<forall>d\<in>set cDiv. lits q \<inter> lits d = {} \<and> q OR d \<in> set cSop) \<longrightarrow> vQuo \<noteq> [])"
proof -
  obtain qs rs v' where *: "Kit_SopDivideInternal cSop cDiv v = Some (cSop, qs, rs, v')" "division cSop cDiv qs rs"
    "grown v (2 * length cSop) v'" "length qs \<le> length cSop div length cDiv"
    "\<And>q. (\<And>d. d \<in> set cDiv \<Longrightarrow> lits q \<inter> lits d = {} \<and> q OR d \<in> set cSop) \<Longrightarrow> qs \<noteq> []"
    by (rule DivideInternal_ok [OF assms]) blast
  have ne: "(\<exists>q. \<forall>d\<in>set cDiv. lits q \<inter> lits d = {} \<and> q OR d \<in> set cSop) \<longrightarrow> qs \<noteq> []" using *(5) by blast
  show ?thesis
    by (intro exI [of _ qs] exI [of _ rs] exI [of _ v'] conjI)
      (use *(1,2,4) ne in \<open>simp_all add: division_def\<close>)
qed

theorem Kit_SopDivideInternal_witness:
  "let cSop = [5, 6, 8]; cDiv = [1, 2]; v = \<lparr>nSize = 0, nCap = 100\<rparr> in
   \<exists>vQuo vRem v'. Kit_SopDivideInternal cSop cDiv v = Some (cSop, vQuo, vRem, v') \<and>
    mset cSop = mset (cover_prod cDiv vQuo) + mset vRem \<and>
    (\<forall>q\<in>set vQuo. \<forall>d\<in>set cDiv. lits q \<inter> lits d = {}) \<and>
    length vQuo \<le> length cSop div length cDiv \<and>
    ((\<exists>q. \<forall>d\<in>set cDiv. lits q \<inter> lits d = {} \<and> q OR d \<in> set cSop) \<longrightarrow> vQuo \<noteq> [])"
  unfolding Let_def
  by (rule Kit_SopDivideInternal_correct)
    (simp_all add: antichain_code cover_ok_def cubes_below_31 Kit_CubeContains_def)

end
