(* ===== verification/Kit_Factor.thy ===== *)
theory Kit_Factor
  imports Kit_Divide "HOL-Library.Monad_Syntax"
begin

text \<open>
  \<open>kitFactor.c\<close> and \<open>Kit_TruthToGraph\<close> of \<open>kitGraph.c\<close>: the algebraic factoring of a cover into a
  graph of AND gates. The recursive procedures run with fuel twice the number of literals of the
  cover, which is enough because the quotient, the divisor and the remainder of a division have
  together fewer literals than the cover; the same induction bounds the memory by \<open>(7 N + 2) L\<close>
  words and the gates by \<open>L\<close>, for a cover with \<open>N\<close> cubes and \<open>L\<close> literals.
\<close>

unbundle bit_operations_syntax

section \<open>The code\<close>

definition KIT_FACTOR_MEM_LIMIT :: nat where
  "KIT_FACTOR_MEM_LIMIT = 2 ^ 20"

text \<open>
  \<open>Kit_SopFactorTrivialCube_rec\<close>: \<open>ls\<close> are the literals of the cube in the interval, in the order of
  the two loops; the first one leaves their number and the last of them, the second one stops at
  literal number \<open>nLits1\<close>. \<open>None\<close> stands for a failing assertion.
\<close>

function Kit_SopFactorTrivialCube_rec :: "kit_graph \<Rightarrow> u32 \<Rightarrow> nat \<Rightarrow> nat \<Rightarrow> (kit_edge \<times> kit_graph) option" where
  "Kit_SopFactorTrivialCube_rec pFForm uCube nStart nFinish =
    (let ls = filter (Kit_CubeHasLit uCube) [nStart..<nFinish] in
     if uCube = 0 \<or> ls = [] then None
     else if length ls = 1 then Some (Kit_EdgeCreate (last ls div 2) (last ls mod 2 = 1), pFForm)
     else let nLits1 = length ls div 2; i = ls ! nLits1 in
       do { (eNode1, pFForm) \<leftarrow> Kit_SopFactorTrivialCube_rec pFForm uCube nStart i;
            (eNode2, pFForm) \<leftarrow> Kit_SopFactorTrivialCube_rec pFForm uCube i nFinish;
            Some (Kit_GraphAddNodeAnd pFForm eNode1 eNode2) })"
  by pat_completeness auto

lemma nth_filter_upt:
  assumes "k < length (filter P [a..<b])"
  shows "a + k \<le> filter P [a..<b] ! k" "filter P [a..<b] ! k < b" "P (filter P [a..<b] ! k)"
proof -
  have mem: "filter P [a..<b] ! k \<in> set (filter P [a..<b])" using assms by (rule nth_mem)
  then show "filter P [a..<b] ! k < b" "P (filter P [a..<b] ! k)" by auto
  show "a + k \<le> filter P [a..<b] ! k" using assms
  proof (induction k)
    case 0
    then have "filter P [a..<b] ! 0 \<in> set (filter P [a..<b])" by (rule nth_mem)
    then show ?case by auto
  next
    case (Suc k)
    have "sorted_wrt (<) (filter P [a..<b])" by (intro sorted_wrt_filter) simp
    then have "filter P [a..<b] ! k < filter P [a..<b] ! Suc k" using Suc.prems by (simp add: sorted_wrt_nth_less)
    then show ?case using Suc by simp
  qed
qed

termination Kit_SopFactorTrivialCube_rec
proof (relation "measure (\<lambda>(g, c, a, b). b - a)")
  fix g c a b ls k i
  assume ls: "ls = filter (Kit_CubeHasLit c) [a..<b]" "\<not> (c = 0 \<or> ls = [])" "length ls \<noteq> 1"
    "k = length ls div 2" "i = ls ! k"
  then have "length ls \<noteq> 0" "length ls \<noteq> 1" by simp_all
  then have "2 \<le> length ls" by linarith
  then have k: "1 \<le> k" "k < length ls" using ls(4) by auto
  then have "a < i" "i < b" using nth_filter_upt [of k "Kit_CubeHasLit c" a b] ls(1,5) by auto
  then show "((g, c, a, i), g, c, a, b) \<in> measure (\<lambda>(g, c, a, b). b - a)"
    "\<And>x y g'. ((g', c, i, b), g, c, a, b) \<in> measure (\<lambda>(g, c, a, b). b - a)" by auto
qed auto

declare Kit_SopFactorTrivialCube_rec.simps [simp del]

definition Kit_SopFactorTrivialCube :: "kit_graph \<Rightarrow> u32 \<Rightarrow> nat \<Rightarrow> (kit_edge \<times> kit_graph) option" where
  "Kit_SopFactorTrivialCube pFForm uCube nLit = Kit_SopFactorTrivialCube_rec pFForm uCube 0 nLit"

text \<open>The number of cubes is the length of the list; the code is not called with 0 cubes.\<close>

function Kit_SopFactorTrivial_rec :: "kit_graph \<Rightarrow> u32 list \<Rightarrow> nat \<Rightarrow> (kit_edge \<times> kit_graph) option" where
  "Kit_SopFactorTrivial_rec pFForm cs nLit =
    (if length cs = 0 then None
     else if length cs = 1 then Kit_SopFactorTrivialCube_rec pFForm (cs ! 0) 0 nLit
     else let nCubes1 = length cs div 2 in
       do { (eNode1, pFForm) \<leftarrow> Kit_SopFactorTrivial_rec pFForm (take nCubes1 cs) nLit;
            (eNode2, pFForm) \<leftarrow> Kit_SopFactorTrivial_rec pFForm (drop nCubes1 cs) nLit;
            Some (Kit_GraphAddNodeOr pFForm eNode1 eNode2) })"
  by pat_completeness auto
termination
proof (relation "measure (\<lambda>(g, cs, n). length cs)")
  fix g cs n k assume "length cs \<noteq> 0" "length cs \<noteq> 1" "k = length cs div 2"
  then have "1 \<le> k" "k < length cs" by linarith+
  then show "((g, take k cs, n), g, cs, n) \<in> measure (\<lambda>(g, cs, n). length cs)"
    "\<And>x y g'. ((g', drop k cs, n), g, cs, n) \<in> measure (\<lambda>(g, cs, n). length cs)" by auto
qed auto

declare Kit_SopFactorTrivial_rec.simps [simp del]

definition Kit_SopFactorTrivial :: "kit_graph \<Rightarrow> u32 list \<Rightarrow> nat \<Rightarrow> (kit_edge \<times> kit_graph) option" where
  "Kit_SopFactorTrivial pFForm cSop nLit = Kit_SopFactorTrivial_rec pFForm cSop nLit"

text \<open>
  The two recursive procedures, with fuel. \<open>None\<close> stands for a failing assertion, for a write to a
  block that could not be fetched, and for the end of the fuel; the theorems show that with
  fuel twice the number of literals none of them happens.
\<close>

fun Kit_SopFactor_rec :: "nat \<Rightarrow> kit_graph \<Rightarrow> u32 list \<Rightarrow> nat \<Rightarrow> vec_mem \<Rightarrow> (kit_edge \<times> kit_graph \<times> vec_mem) option"
  and Kit_SopFactorLF_rec ::
    "nat \<Rightarrow> kit_graph \<Rightarrow> u32 list \<Rightarrow> u32 list \<Rightarrow> nat \<Rightarrow> vec_mem \<Rightarrow> (kit_edge \<times> kit_graph \<times> vec_mem) option" where
  "Kit_SopFactor_rec 0 pFForm cSop nLit vMemory = None"
| "Kit_SopFactor_rec (Suc fuel) pFForm cSop nLit vMemory =
    (if cSop = [] then None else
     do { (fDiv, vMemory) \<leftarrow> Kit_SopDivisor cSop nLit vMemory;
       case fDiv of
         None \<Rightarrow> do { (eNode, pFForm) \<leftarrow> Kit_SopFactorTrivial pFForm cSop nLit; Some (eNode, pFForm, vMemory) }
       | Some cDiv \<Rightarrow>
       do { (cSop, cQuo, cRem, vMemory) \<leftarrow> Kit_SopDivideInternal cSop cDiv vMemory;
         if cQuo = [] then None
         else if length cQuo = 1 then Kit_SopFactorLF_rec fuel pFForm cSop cQuo nLit vMemory
         else let cQuo = Kit_SopMakeCubeFree cQuo in
         do { (cSop, cDiv, cRem, vMemory) \<leftarrow> Kit_SopDivideInternal cSop cQuo vMemory;
           if Kit_SopIsCubeFree cDiv then
             do { (eNodeDiv, pFForm, vMemory) \<leftarrow> Kit_SopFactor_rec fuel pFForm cDiv nLit vMemory;
                  (eNodeQuo, pFForm, vMemory) \<leftarrow> Kit_SopFactor_rec fuel pFForm cQuo nLit vMemory;
                  let (eNodeAnd, pFForm) = Kit_GraphAddNodeAnd pFForm eNodeDiv eNodeQuo;
                  if cRem = [] then Some (eNodeAnd, pFForm, vMemory) else
                  do { (eNodeRem, pFForm, vMemory) \<leftarrow> Kit_SopFactor_rec fuel pFForm cRem nLit vMemory;
                       let (eNode, pFForm) = Kit_GraphAddNodeOr pFForm eNodeAnd eNodeRem;
                       Some (eNode, pFForm, vMemory) } }
           else
             do { (cCom, vMemory) \<leftarrow> Kit_SopCommonCubeCover cDiv vMemory;
                  Kit_SopFactorLF_rec fuel pFForm cSop cCom nLit vMemory } } } })"
| "Kit_SopFactorLF_rec 0 pFForm cSop cSimple nLit vMemory = None"
| "Kit_SopFactorLF_rec (Suc fuel) pFForm cSop cSimple nLit vMemory =
    (if length cSimple \<noteq> 1 then None else
     do { (cDiv, vMemory) \<leftarrow> Kit_SopBestLiteralCover cSop (cSimple ! 0) nLit vMemory;
          (cQuo, cRem, vMemory) \<leftarrow> Kit_SopDivideByCube cSop cDiv vMemory;
          (eNodeDiv, pFForm) \<leftarrow> Kit_SopFactorTrivialCube pFForm (cDiv ! 0) nLit;
          (eNodeQuo, pFForm, vMemory) \<leftarrow> Kit_SopFactor_rec fuel pFForm cQuo nLit vMemory;
          let (eNodeAnd, pFForm) = Kit_GraphAddNodeAnd pFForm eNodeDiv eNodeQuo;
          if cRem = [] then Some (eNodeAnd, pFForm, vMemory) else
          do { (eNodeRem, pFForm, vMemory) \<leftarrow> Kit_SopFactor_rec fuel pFForm cRem nLit vMemory;
               let (eNode, pFForm) = Kit_GraphAddNodeOr pFForm eNodeAnd eNodeRem;
               Some (eNode, pFForm, vMemory) } })"

declare Kit_SopFactor_rec.simps(2) [simp del] Kit_SopFactorLF_rec.simps(2) [simp del]

text \<open>
  \<open>Kit_SopFactor\<close>; \<open>nCap\<close> of the memory grows to the limit before the cover is copied into it.
\<close>

definition Kit_SopFactor :: "u32 list \<Rightarrow> bool \<Rightarrow> nat \<Rightarrow> vec_mem \<Rightarrow> kit_graph option" where
  "Kit_SopFactor vCover fCompl' nVars vMemory =
    (if 16 \<le> nVars then None
     else if length vCover = 0 then Some Kit_GraphCreateConst0
     else if length vCover = 1 \<and> vCover ! 0 = 0 then Some Kit_GraphCreateConst1
     else let vMemory = vMemory\<lparr>nCap := max (nCap vMemory) KIT_FACTOR_MEM_LIMIT\<rparr> in
       do { (cSop, vMemory) \<leftarrow> Kit_SopCreateInverse vCover vMemory;
            let pFForm = Kit_GraphCreate nVars;
            (eRoot, pFForm, vMemory) \<leftarrow> Kit_SopFactor_rec (2 * cover_lits cSop) pFForm cSop (2 * nVars) vMemory;
            let pFForm = Kit_GraphSetRoot pFForm eRoot;
            Some (if fCompl' then Kit_GraphComplement pFForm else pFForm) })"

text \<open>
  \<open>Kit_TruthToGraph\<close>: \<open>None\<close> for the result \<open>NULL\<close>, \<open>Some None\<close> when the factoring fails. The cover is
  in \<open>vMemory\<close>, whose size is that of the cover.
\<close>

definition Kit_TruthToGraph :: "u32 list \<Rightarrow> nat \<Rightarrow> nat \<Rightarrow> kit_graph option option" where
  "Kit_TruthToGraph pTruth nVars cap =
    (case Kit_TruthIsop pTruth nVars cap True of
       (RetValue, None, _) \<Rightarrow> None
     | (RetValue, Some vMemory, _) \<Rightarrow>
       if RetValue = -1 \<or> length vMemory > 2 ^ 16 then None
       else Some (Kit_SopFactor vMemory (RetValue = 1) nVars
         \<lparr>nSize = length vMemory, nCap = max cap KIT_ISOP_MEM_LIMIT\<rparr>))"

section \<open>Trivial factoring\<close>

text \<open>The edge of a result: a leaf, or the last node of the graph.\<close>

definition top_edge :: "kit_edge \<times> kit_graph \<Rightarrow> bool" where
  "top_edge r \<longleftrightarrow> (case r of (e, g) \<Rightarrow> Node e < nLeaves g \<or> Node e = length (pNodes g) - 1)"

lemmas graph_built_seq_conj = kg.built_seq_conj [unfolded built_graph]
lemmas graph_built_seq_disj = kg.built_seq_disj [unfolded built_graph]

lemma top_edge_gate:
  assumes "length (pNodes g) < 2 ^ 30"
  shows "top_edge (Kit_GraphAddNodeAnd g a b)" "top_edge (Kit_GraphAddNodeOr g a b)"
  using assms by (simp_all add: top_edge_def AddNode_eq Kit_EdgeCreate_def)

lemma graph_built_room: "graph_built (Suc k) g f (e, g') \<Longrightarrow> length (pNodes g') < 2 ^ 30"
  by (simp add: graph_built_def graph_inv_def)

lemma graph_built_weaken: "graph_built k g f r \<Longrightarrow> l \<le> k \<Longrightarrow> (\<And>m. f m = f' m) \<Longrightarrow> graph_built l g f' r"
  by (auto simp: graph_built_def intro: graph_inv_less split: prod.splits)

lemma graph_built_inv: "graph_built k g f (e, g') \<Longrightarrow> graph_inv k g'" "graph_built k g f (e, g') \<Longrightarrow> nLeaves g' = nLeaves g"
  by (simp_all add: graph_built_def graph_ext_def)

lemma built_literal:
  assumes "graph_inv k g" "l div 2 < nLeaves g"
  shows "graph_built k g (\<lambda>m. lit_val m l) (Kit_EdgeCreate (l div 2) (l mod 2 = 1), g)"
    and "top_edge (Kit_EdgeCreate (l div 2) (l mod 2 = 1), g)"
proof -
  have "nLeaves g \<le> length (pNodes g)" "length (pNodes g) \<le> 2 ^ 30" using assms(1) by (auto simp: graph_inv_def)
  then have e: "Kit_EdgeCreate (l div 2) (l mod 2 = 1) = \<lparr>fCompl = l mod 2 = 1, Node = l div 2\<rparr>"
    and len: "nLeaves g \<le> length (pNodes g)" using assms(2) by (auto simp: Kit_EdgeCreate_def)
  show "graph_built k g (\<lambda>m. lit_val m l) (Kit_EdgeCreate (l div 2) (l mod 2 = 1), g)"
    using assms len edge_val_leaf [OF assms(2) len, of _ "l mod 2 = 1"]
    unfolding e by (simp add: graph_built_def edge_ok_def lit_val_def odd_iff_mod_2_eq_one)
  show "top_edge (Kit_EdgeCreate (l div 2) (l mod 2 = 1), g)" unfolding e using assms(2) by (simp add: top_edge_def)
qed

text \<open>A cube becomes a tree with one gate less than it has literals.\<close>

lemma filter_upt_split:
  assumes "k < length (filter P [a..<b])"
  shows "filter P [a..<filter P [a..<b] ! k] = take k (filter P [a..<b])"
    and "filter P [filter P [a..<b] ! k..<b] = drop k (filter P [a..<b])"
proof -
  let ?ls = "filter P [a..<b]"
  let ?i = "?ls ! k"
  have i: "a \<le> ?i" "?i < b" "P ?i" using nth_filter_upt [OF assms] by auto
  have "[a..<b] = [a..<?i] @ [?i..<b]" using i upt_add_eq_append [of a ?i "b - ?i"] by simp
  then have split: "?ls = filter P [a..<?i] @ filter P [?i..<b]" by (metis filter_append)
  have "[?i..<b] = ?i # [Suc ?i..<b]" by (rule upt_conv_Cons [OF i(2)])
  then have hd: "filter P [?i..<b] = ?i # filter P [Suc ?i..<b]" using i(3) by simp
  have "distinct ?ls" by simp
  moreover have "?ls ! length (filter P [a..<?i]) = ?i" using split hd by (metis nth_append_length)
  moreover have "length (filter P [a..<?i]) < length ?ls" using split hd by (metis length_append length_Cons less_add_same_cancel1 zero_less_Suc)
  ultimately have "length (filter P [a..<?i]) = k" using assms nth_eq_iff_index_eq by blast
  then show "filter P [a..<?i] = take k ?ls" "filter P [?i..<b] = drop k ?ls"
    using split by (metis append_eq_conv_conj)+
qed

lemma TrivialCube_ok:
  assumes "filter (Kit_CubeHasLit c) [a..<b] \<noteq> []" "b \<le> 2 * nLeaves g"
    and "graph_inv (k + (length (filter (Kit_CubeHasLit c) [a..<b]) - 1)) g" "c \<noteq> 0"
  shows "\<exists>r. Kit_SopFactorTrivialCube_rec g c a b = Some r \<and> top_edge r \<and>
    graph_built k g (\<lambda>m. \<forall>l\<in>set (filter (Kit_CubeHasLit c) [a..<b]). lit_val m l) r"
  using assms(1-3)
proof (induction "b - a" arbitrary: k g a b rule: less_induct)
  case less
  let ?ls = "filter (Kit_CubeHasLit c) [a..<b]"
  let ?k = "length ?ls div 2"
  let ?i = "?ls ! ?k"
  note simps = Kit_SopFactorTrivialCube_rec.simps [of g c a b]
  show ?case
  proof (cases "length ?ls = 1")
    case True
    then obtain l where l: "?ls = [l]" by (auto simp: length_Suc_conv)
    then have "l \<in> set ?ls" by simp
    then have "l < b" by auto
    then have "l div 2 < nLeaves g" using less.prems(2) by linarith
    moreover have "graph_inv k g" using less.prems(3) True by simp
    ultimately show ?thesis
      using built_literal [of k g l] simps assms(4) l by (simp add: Let_def)
  next
    case False
    have "length ?ls \<noteq> 0" using less.prems(1) by simp
    then have k: "1 \<le> ?k" "?k < length ?ls" using False by linarith+
    note split = filter_upt_split [OF k(2)]
    have i: "a < ?i" "?i < b" using nth_filter_upt [OF k(2)] k(1) by auto
    have ne: "filter (Kit_CubeHasLit c) [a..<?i] \<noteq> []" "filter (Kit_CubeHasLit c) [?i..<b] \<noteq> []"
      using split k by auto
    let ?m = "length (filter (Kit_CubeHasLit c) [?i..<b]) - 1"
    have "length (filter (Kit_CubeHasLit c) [a..<?i]) = ?k" using split(1) k(2) by simp
    moreover have "length ?ls - 1 = (?k - 1) + Suc ?m" using split(2) k by simp
    ultimately have "(k + Suc ?m) + (length (filter (Kit_CubeHasLit c) [a..<?i]) - 1) = k + (length ?ls - 1)"
      by linarith
    then have room: "graph_inv ((k + Suc ?m) + (length (filter (Kit_CubeHasLit c) [a..<?i]) - 1)) g"
      using less.prems(3) by (simp only:)
    have "\<exists>r. Kit_SopFactorTrivialCube_rec g c a ?i = Some r \<and> top_edge r \<and>
        graph_built (k + Suc ?m) g (\<lambda>m. \<forall>l\<in>set (filter (Kit_CubeHasLit c) [a..<?i]). lit_val m l) r"
      by (rule less.hyps [OF _ ne(1) _ room]) (use i less.prems(2) in simp_all)
    then obtain e1 g1 where 1: "Kit_SopFactorTrivialCube_rec g c a ?i = Some (e1, g1)"
      "graph_built (k + Suc ?m) g (\<lambda>m. \<forall>l\<in>set (take ?k ?ls). lit_val m l) (e1, g1)"
      unfolding split(1) by auto
    have g1: "graph_inv (Suc k + ?m) g1" "nLeaves g1 = nLeaves g" using graph_built_inv [OF 1(2)] by simp_all
    have "\<exists>r. Kit_SopFactorTrivialCube_rec g1 c ?i b = Some r \<and> top_edge r \<and>
        graph_built (Suc k) g1 (\<lambda>m. \<forall>l\<in>set (filter (Kit_CubeHasLit c) [?i..<b]). lit_val m l) r"
      by (rule less.hyps [OF _ ne(2) _ g1(1)]) (use i less.prems(2) g1(2) in simp_all)
    then obtain e2 g2 where 2: "Kit_SopFactorTrivialCube_rec g1 c ?i b = Some (e2, g2)"
      "graph_built (Suc k) g1 (\<lambda>m. \<forall>l\<in>set (drop ?k ?ls). lit_val m l) (e2, g2)"
      unfolding split(2) by auto
    have all: "set ?ls = set (take ?k ?ls) \<union> set (drop ?k ?ls)"
      by (metis append_take_drop_id set_append)
    have "graph_built k g (\<lambda>m. \<forall>l\<in>set ?ls. lit_val m l) (Kit_GraphAddNodeAnd g2 e1 e2)"
      by (rule graph_built_weaken [OF graph_built_seq_conj [OF 1(2) 2(2)] order_refl]) (simp only: all ball_Un)
    moreover have "Kit_SopFactorTrivialCube_rec g c a b = Some (Kit_GraphAddNodeAnd g2 e1 e2)"
      using simps less.prems(1) assms(4) False 1(1) 2(1) by (simp add: Let_def)
    ultimately show ?thesis using top_edge_gate(1) [OF graph_built_room [OF 2(2)]] by blast
  qed
qed

lemma TrivialCube_cube:
  assumes "c \<noteq> 0" "lits c \<subseteq> {..<n}" "n \<le> 2 * nLeaves g" "graph_inv (k + (card (lits c) - 1)) g"
  shows "\<exists>r. Kit_SopFactorTrivialCube_rec g c 0 n = Some r \<and> top_edge r \<and> graph_built k g (\<lambda>m. fcube_val m c) r"
proof -
  let ?ls = "filter (Kit_CubeHasLit c) [0..<n]"
  have "Kit_CubeHasLit c l \<longleftrightarrow> l \<in> lits c" if "l < 32" for l using that by (rule lits_HasLit)
  moreover have "\<not> Kit_CubeHasLit c l" if "\<not> l < 32" for l
    using lit_count_less_32 [of "[c]" l] that by (cases "c = 0") (auto simp: lit_count_eq Kit_CubeHasLit_def)
  ultimately have "Kit_CubeHasLit c l \<longleftrightarrow> l \<in> lits c" for l using lits_less by blast
  then have set: "set ?ls = lits c" using assms(2) by auto
  then have "length ?ls = card (lits c)" by (metis distinct_card distinct_filter distinct_upt)
  then have inv: "graph_inv (k + (length ?ls - 1)) g" using assms(4) by simp
  have ne: "?ls \<noteq> []" using set assms(1) lits_empty_iff by (metis list.set(1))
  show ?thesis
    unfolding fcube_val_def set [symmetric] by (rule TrivialCube_ok [OF ne assms(3) inv assms(1)])
qed

lemma Trivial_ok:
  assumes "cs \<noteq> []" "0 \<notin> set cs" "cubes_below n cs" "n \<le> 2 * nLeaves g"
    and "graph_inv (k + (cover_lits cs - 1)) g"
  shows "\<exists>r. Kit_SopFactorTrivial_rec g cs n = Some r \<and> top_edge r \<and> graph_built k g (\<lambda>m. fcover_val m cs) r"
  using assms
proof (induction "length cs" arbitrary: cs g k rule: less_induct)
  case less
  note simps = Kit_SopFactorTrivial_rec.simps [of g cs n]
  show ?case
  proof (cases "length cs = 1")
    case True
    then obtain c where c: "cs = [c]" by (auto simp: length_Suc_conv)
    then show ?thesis
      using TrivialCube_cube [of c n g k] less.prems simps by (simp add: cubes_below_def fcover_val_def)
  next
    case False
    have "length cs \<noteq> 0" using less.prems(1) by simp
    define h where "h = length cs div 2"
    have h: "1 \<le> h" "h < length cs" using \<open>length cs \<noteq> 0\<close> False unfolding h_def by linarith+
    let ?a = "take h cs" and ?b = "drop h cs"
    have ab: "?a \<noteq> []" "?b \<noteq> []" "0 \<notin> set ?a" "0 \<notin> set ?b" "cubes_below n ?a" "cubes_below n ?b"
      using h less.prems(2,3) by (auto simp: cubes_below_def dest: in_set_takeD in_set_dropD)
    have "cover_lits cs = cover_lits ?a + cover_lits ?b" by (metis append_take_drop_id cover_lits_append)
    moreover have "1 \<le> cover_lits ?a" "1 \<le> cover_lits ?b"
      using cover_lits_pos [OF ab(3)] cover_lits_pos [OF ab(4)] h by simp_all
    ultimately have "(k + Suc (cover_lits ?b - 1)) + (cover_lits ?a - 1) = k + (cover_lits cs - 1)" by linarith
    then have room: "graph_inv ((k + Suc (cover_lits ?b - 1)) + (cover_lits ?a - 1)) g" using less.prems(5) by (simp only:)
    have "\<exists>r. Kit_SopFactorTrivial_rec g ?a n = Some r \<and> top_edge r \<and>
        graph_built (k + Suc (cover_lits ?b - 1)) g (\<lambda>m. fcover_val m ?a) r"
      by (rule less.hyps [OF _ ab(1,3,5) less.prems(4) room]) (use h in simp)
    then obtain e1 g1 where 1: "Kit_SopFactorTrivial_rec g ?a n = Some (e1, g1)"
      "graph_built (k + Suc (cover_lits ?b - 1)) g (\<lambda>m. fcover_val m ?a) (e1, g1)" by auto
    have g1: "graph_inv (Suc k + (cover_lits ?b - 1)) g1" "nLeaves g1 = nLeaves g"
      using graph_built_inv [OF 1(2)] by simp_all
    have "\<exists>r. Kit_SopFactorTrivial_rec g1 ?b n = Some r \<and> top_edge r \<and>
        graph_built (Suc k) g1 (\<lambda>m. fcover_val m ?b) r"
      by (rule less.hyps [OF _ ab(2,4,6) _ g1(1)]) (use h less.prems(4) g1(2) in simp_all)
    then obtain e2 g2 where 2: "Kit_SopFactorTrivial_rec g1 ?b n = Some (e2, g2)"
      "graph_built (Suc k) g1 (\<lambda>m. fcover_val m ?b) (e2, g2)" by auto
    have all: "fcover_val m cs \<longleftrightarrow> fcover_val m ?a \<or> fcover_val m ?b" for m
      unfolding fcover_val_def by (metis Un_iff append_take_drop_id set_append)
    have "graph_built k g (\<lambda>m. fcover_val m cs) (Kit_GraphAddNodeOr g2 e1 e2)"
      by (rule graph_built_weaken [OF graph_built_seq_disj [OF 1(2) 2(2)] order_refl]) (simp only: all)
    moreover have "Kit_SopFactorTrivial_rec g cs n = Some (Kit_GraphAddNodeOr g2 e1 e2)"
      using simps less.prems(1) False 1(1) 2(1) by (simp add: Let_def h_def)
    ultimately show ?thesis using top_edge_gate(2) [OF graph_built_room [OF 2(2)]] by blast
  qed
qed

section \<open>The pieces of a division\<close>

lemma division_antichain:
  assumes "division cs ds qs rs" "cover_ok n cs" "ds \<noteq> []"
  shows "antichain qs" "antichain rs" "0 \<notin> set rs" "cubes_below n qs" "cubes_below n rs" "qs \<noteq> [] \<Longrightarrow> cubes_below n ds"
proof -
  have anti: "antichain cs" and nz: "0 \<notin> set cs" and bel: "cubes_below n cs"
    using assms(2) by (auto simp: cover_ok_def)
  have dist: "distinct cs" using anti by (simp add: antichain_def)
  have sub: "set rs \<subseteq> set cs" using division_set [OF assms(1)] by blast
  obtain d where d: "d \<in> set ds" using assms(3) by fastforce
  have mem: "q OR d' \<in> set cs" if "q \<in> set qs" "d' \<in> set ds" for q d' by (rule division_mem [OF assms(1) that])
  have disj: "lits q \<inter> lits d' = {}" if "q \<in> set qs" "d' \<in> set ds" for q d'
    using assms(1) that by (simp add: division_def)
  have q: "q1 = q2" if "q1 \<in> set qs" "q2 \<in> set qs" "lits q1 \<subseteq> lits q2" for q1 q2
  proof -
    have "lits (q1 OR d) \<subseteq> lits (q2 OR d)" using that(3) by (auto simp: lits_or)
    then have "q1 OR d = q2 OR d" by (rule antichainD [OF anti mem [OF that(1) d] mem [OF that(2) d]])
    then show ?thesis
      using or_disjoint_inj [of d q1 q2] disj [OF that(1) d] disj [OF that(2) d] by (metis Int_commute or.commute)
  qed
  have "distinct qs"
  proof -
    have "distinct (map (\<lambda>q. q OR d) qs)" if "distinct (cover_prod ds qs)" for qs
      using that d by (induction qs) (auto simp: cover_prod_def)
    then show ?thesis using division_distinct(1) [OF assms(1) dist] distinct_map by blast
  qed
  then show "antichain qs" using q by (simp add: antichain_def)
  show "antichain rs" using division_distinct(2) [OF assms(1) dist] sub anti by (auto simp: antichain_def)
  show "0 \<notin> set rs" using sub nz by blast
  show "cubes_below n qs" unfolding cubes_below_def
  proof
    fix q assume "q \<in> set qs"
    then have "lits (q OR d) \<subseteq> {..<n}" using mem d bel by (auto simp: cubes_below_def)
    then show "lits q \<subseteq> {..<n}" by (simp add: lits_or)
  qed
  show "cubes_below n rs" using sub bel by (auto simp: cubes_below_def)
  show "cubes_below n ds" if ne: "qs \<noteq> []"
    unfolding cubes_below_def
  proof
    fix d' assume d': "d' \<in> set ds"
    obtain q where "q \<in> set qs" using ne by fastforce
    then have "lits (q OR d') \<subseteq> {..<n}" using mem d' bel by (auto simp: cubes_below_def)
    then show "lits d' \<subseteq> {..<n}" by (simp add: lits_or)
  qed
qed

lemma lit_count_ge_2:
  assumes "cover_ok n cs" "a \<in> set cs" "b \<in> set cs" "a \<noteq> b" "l \<in> lits a" "l \<in> lits b"
  shows "2 \<le> lit_count cs l"
proof -
  have "l < 32" using assms(5) lits_less by blast
  then have h: "set (filter (\<lambda>c. Kit_CubeHasLit c l) cs) = {c \<in> set cs. l \<in> lits c}" by (simp add: lits_HasLit)
  have "distinct (filter (\<lambda>c. Kit_CubeHasLit c l) cs)" using assms(1) by (simp add: cover_ok_def antichain_def)
  then have "lit_count cs l = card {c \<in> set cs. l \<in> lits c}"
    using assms(1) h distinct_card by (fastforce simp: lit_count_eq cover_ok_def)
  moreover have "card {a, b} \<le> card {c \<in> set cs. l \<in> lits c}" using assms by (intro card_mono) auto
  ultimately show ?thesis using assms(4) by simp
qed

lemma two_elements:
  assumes "distinct xs" "2 \<le> length xs"
  obtains a b where "a \<in> set xs" "b \<in> set xs" "a \<noteq> b"
proof -
  have "0 < length xs" "1 < length xs" using assms(2) by linarith+
  moreover from this have "xs ! 0 \<noteq> xs ! 1" using nth_eq_iff_index_eq [OF assms(1), of 0 1] by simp
  ultimately show thesis using that nth_mem by blast
qed

section \<open>Correctness of the factoring\<close>

text \<open>
  \<open>N\<close> bounds the number of cubes. A cover with \<open>L\<close> literals takes at most \<open>(7 * N + 2) * L\<close> words of
  memory and fewer than \<open>L\<close> nodes.
\<close>

definition fac_pre :: "nat \<Rightarrow> nat \<Rightarrow> nat \<Rightarrow> kit_graph \<Rightarrow> u32 list \<Rightarrow> vec_mem \<Rightarrow> bool" where
  "fac_pre N k n g cs v \<longleftrightarrow> cover_ok n cs \<and> cs \<noteq> [] \<and> length cs \<le> N \<and> graph_inv (k + cover_lits cs) g \<and>
    n \<le> 2 * nLeaves g \<and> nSize v + (7 * N + 2) * cover_lits cs \<le> nCap v"

definition fac_post :: "nat \<Rightarrow> nat \<Rightarrow> kit_graph \<Rightarrow> u32 list \<Rightarrow> vec_mem \<Rightarrow>
    (kit_edge \<times> kit_graph \<times> vec_mem) option \<Rightarrow> bool" where
  "fac_post N k g cs v r \<longleftrightarrow> (\<exists>e g' v'. r = Some (e, g', v') \<and>
    graph_built k g (\<lambda>m. fcover_val m cs) (e, g') \<and> top_edge (e, g') \<and>
    grown v ((7 * N + 2) * cover_lits cs) v')"

definition fac_ok :: "nat \<Rightarrow> nat \<Rightarrow> nat \<Rightarrow> bool" where
  "fac_ok N n fuel \<longleftrightarrow> (\<forall>k g cs v. 2 * cover_lits cs \<le> fuel \<longrightarrow> fac_pre N k n g cs v \<longrightarrow>
    fac_post N k g cs v (Kit_SopFactor_rec fuel g cs n v))"

lemma fac_okE:
  assumes "fac_ok N n fuel" "2 * cover_lits cs \<le> fuel" "fac_pre N k n g cs v"
  obtains e g' v' where "Kit_SopFactor_rec fuel g cs n v = Some (e, g', v')"
    "graph_built k g (\<lambda>m. fcover_val m cs) (e, g')" "top_edge (e, g')"
    "grown v ((7 * N + 2) * cover_lits cs) v'"
  using assms unfolding fac_ok_def fac_post_def by blast

lemma graph_built_ext: "graph_built k g f (e, g') \<Longrightarrow> graph_built l g' h r \<Longrightarrow> (\<And>m. h m = h' m) \<Longrightarrow> graph_built l g h' r"
  unfolding built_graph [symmetric] using kg.built_from kg.builtD(2) by blast

text \<open>The end of both procedures: a gate for the product, and one for the remainder if there is one.\<close>

lemma fac_finish:
  assumes ok: "fac_ok N n fuel" and rem: "cover_ok n rs" "length rs \<le> N" "2 * cover_lits rs \<le> fuel"
    and b1: "graph_built j g f1 (e1, g1)"
    and b2: "graph_built (Suc (k + Suc (cover_lits rs))) g1 f2 (e2, g2)"
    and val: "\<And>m. fcover_val m cs \<longleftrightarrow> f1 m \<and> f2 m \<or> fcover_val m rs"
    and mem: "grown v a v2" "a + (7 * N + 2) * cover_lits rs \<le> (7 * N + 2) * cover_lits cs"
    and room: "n \<le> 2 * nLeaves g" "nSize v + (7 * N + 2) * cover_lits cs \<le> nCap v"
  shows "fac_post N k g cs v
    (let (eAnd, g3) = Kit_GraphAddNodeAnd g2 e1 e2 in
     if rs = [] then Some (eAnd, g3, v2) else
     do { (eRem, g4, v3) \<leftarrow> Kit_SopFactor_rec fuel g3 rs n v2;
          let (e, g5) = Kit_GraphAddNodeOr g4 eAnd eRem;
          Some (e, g5, v3) })"
proof -
  obtain eAnd g3 where And: "Kit_GraphAddNodeAnd g2 e1 e2 = (eAnd, g3)" by (rule prod.exhaust)
  have b3: "graph_built (k + Suc (cover_lits rs)) g (\<lambda>m. f1 m \<and> f2 m) (eAnd, g3)"
    using graph_built_seq_conj [OF b1 b2] And by simp
  have top3: "top_edge (eAnd, g3)" using top_edge_gate(1) [OF graph_built_room [OF b2], of e1 e2] And by simp
  show ?thesis
  proof (cases "rs = []")
    case True
    have "graph_built k g (\<lambda>m. fcover_val m cs) (eAnd, g3)"
      by (rule graph_built_weaken [OF b3]) (use val True in \<open>simp_all add: fcover_val_def\<close>)
    moreover have "grown v ((7 * N + 2) * cover_lits cs) v2" using grown_mono [OF mem(1)] mem(2) by simp
    ultimately show ?thesis using True And top3 by (simp add: fac_post_def)
  next
    case False
    have g3: "graph_inv (Suc k + cover_lits rs) g3" "nLeaves g3 = nLeaves g" using graph_built_inv [OF b3] by simp_all
    have fits: "nSize v2 + (7 * N + 2) * cover_lits rs \<le> nCap v2"
      using grown_fits [OF mem(1)] mem(2) room(2) by simp
    have pre: "fac_pre N (Suc k) n g3 rs v2"
      unfolding fac_pre_def using rem(1,2) False g3 room(1) fits by simp
    obtain eRem g4 v3 where r: "Kit_SopFactor_rec fuel g3 rs n v2 = Some (eRem, g4, v3)"
      "graph_built (Suc k) g3 (\<lambda>m. fcover_val m rs) (eRem, g4)" "grown v2 ((7 * N + 2) * cover_lits rs) v3"
      by (rule fac_okE [OF ok rem(3) pre])
    obtain e g5 where Or: "Kit_GraphAddNodeOr g4 eAnd eRem = (e, g5)" by (rule prod.exhaust)
    have "graph_built k g (\<lambda>m. fcover_val m cs) (e, g5)"
      using graph_built_weaken [OF graph_built_seq_disj [OF b3 r(2)] order_refl, of "\<lambda>m. fcover_val m cs"] val Or
      by simp
    moreover have "top_edge (e, g5)" using top_edge_gate(2) [OF graph_built_room [OF r(2)], of eAnd eRem] Or by simp
    moreover have "grown v ((7 * N + 2) * cover_lits cs) v3"
      using grown_mono [OF grown_trans [OF mem(1) r(3)] mem(2)] .
    ultimately show ?thesis using False And Or r(1) by (simp add: fac_post_def)
  qed
qed

text \<open>The procedure for a literal.\<close>

lemma LF_ok:
  assumes ok: "fac_ok N n fuel" and fuel: "2 * cover_lits cs \<le> Suc (Suc fuel)" and n: "n \<le> 31"
    and pre: "fac_pre N k n g cs v0" and v: "grown v0 (5 * N + 1) v"
    and l: "l < n" "l \<in> lits s" "2 \<le> lit_count cs l"
  shows "fac_post N k g cs v0 (Kit_SopFactorLF_rec (Suc fuel) g cs [s] n v)"
proof -
  have cov: "cover_ok n cs" "length cs \<le> N" "graph_inv (k + cover_lits cs) g" "n \<le> 2 * nLeaves g"
    "nSize v0 + (7 * N + 2) * cover_lits cs \<le> nCap v0"
    using pre by (auto simp: fac_pre_def)
  have anti: "antichain cs" and nz: "0 \<notin> set cs" and bel: "cubes_below n cs" using cov(1) by (auto simp: cover_ok_def)
  have "Kit_CubeHasLit s l" using l n by (simp add: lits_HasLit)
  then obtain b where b: "b < n" "Kit_SopBestLiteral cs n s = int b" "2 \<le> lit_count cs b"
    using BestLiteral_spec [of cs n s] l by (auto simp: best_of_def not_less)
  let ?d = "Kit_CubeSetLit 0 b"
  have d: "lits ?d = {b}" using b(1) n by (simp add: lits_SetLit lits_0)
  let ?qs = "quotient_by cs ?d" and ?rs = "filter (\<lambda>c. \<not> Kit_CubeContains c ?d) cs"
  note div = quotient_division [of cs ?d]
  have len: "length ?qs = lit_count cs b"
  proof -
    have "Kit_CubeContains c ?d \<longleftrightarrow> Kit_CubeHasLit c b" for c using b(1) n by (simp add: lits_simps d)
    then show ?thesis using nz by (simp add: lit_count_eq quotient_by_def)
  qed
  note parts = division_antichain [OF div cov(1)]
  have q0: "0 \<notin> set ?qs" using antichain_nonzero parts(1) len b(3) by simp
  have qs: "cover_ok n ?qs" "cover_ok n ?rs" using parts q0 by (simp_all add: cover_ok_def)
  have L: "cover_lits cs = cover_lits ?qs + length ?qs + cover_lits ?rs" using division_lits [OF div] d by simp
  have qpos: "length ?qs \<le> cover_lits ?qs" by (rule cover_lits_pos [OF q0])
  have leN: "length ?qs \<le> N" "length ?rs \<le> N" using division_length [OF div] cov(2) by simp_all
  have fits: "(7 * N + 2) * 1 \<le> (7 * N + 2) * cover_lits cs" using L len b(3) by (intro mult_le_mono) auto
  let ?v1 = "v\<lparr>nSize := nSize v + 1\<rparr>"
  have v1: "grown v0 (5 * N + 2) ?v1" using grown_trans [OF v grown_fetch [of v 1]] by simp
  have room1: "nSize v + 1 \<le> nCap v" using grown_fits [OF v, of 1] cov(5) fits by simp
  have best: "Kit_SopBestLiteralCover cs s n v = Some ([?d], ?v1)"
    using b(2) fetch_cubes_ok [OF room1] by (simp add: Kit_SopBestLiteralCover_def Kit_SopPushCube_def)
  have room2: "nSize ?v1 + 2 * length cs \<le> nCap ?v1" using grown_fits [OF v1, of "2 * N"] cov(2,5) fits by simp
  obtain v2 where v2: "Kit_SopDivideByCube cs [?d] ?v1 = Some (?qs, ?rs, v2)" "grown ?v1 (2 * length cs) v2"
    by (rule DivideByCube_eq [OF nz room2])
  have g2: "grown v0 (7 * N + 2) v2" using grown_mono [OF grown_trans [OF v1 v2(2)]] cov(2) by simp
  have "?d \<noteq> 0" using d lits_empty_iff [of ?d] by auto
  then obtain e1 g1 where t: "Kit_SopFactorTrivialCube g ?d n = Some (e1, g1)"
    "graph_built (k + cover_lits cs) g (\<lambda>m. fcube_val m ?d) (e1, g1)"
    using TrivialCube_cube [of ?d n g "k + cover_lits cs"] d b(1) cov(3,4)
    by (auto simp: Kit_SopFactorTrivialCube_def)
  have g1: "graph_inv (k + cover_lits cs) g1" "nLeaves g1 = nLeaves g" using graph_built_inv [OF t(2)] by simp_all
  let ?k = "Suc (k + Suc (cover_lits ?rs))"
  have "graph_inv (?k + cover_lits ?qs) g1" using graph_inv_less [OF g1(1)] L len b(3) by simp
  moreover have mq: "nSize v2 + (7 * N + 2) * cover_lits ?qs \<le> nCap v2"
  proof -
    have "(7 * N + 2) * (1 + cover_lits ?qs) \<le> (7 * N + 2) * cover_lits cs" using L len b(3) by (intro mult_le_mono) auto
    then show ?thesis using grown_fits [OF g2] cov(5) by simp
  qed
  moreover have "?qs \<noteq> []" using len b(3) by auto
  ultimately have preq: "fac_pre N ?k n g1 ?qs v2" unfolding fac_pre_def using qs(1) leN(1) cov(4) g1(2) by simp
  have fuelq: "2 * cover_lits ?qs \<le> fuel" "2 * cover_lits ?rs \<le> fuel" using fuel L len b(3) qpos by simp_all
  obtain e2 g2' v3 where q: "Kit_SopFactor_rec fuel g1 ?qs n v2 = Some (e2, g2', v3)"
    "graph_built ?k g1 (\<lambda>m. fcover_val m ?qs) (e2, g2')" "grown v2 ((7 * N + 2) * cover_lits ?qs) v3"
    by (rule fac_okE [OF ok fuelq(1) preq])
  have val: "fcover_val m cs \<longleftrightarrow> fcube_val m ?d \<and> fcover_val m ?qs \<or> fcover_val m ?rs" for m
    using division_val [OF div, of m] by (simp add: fcover_val_def)
  have tot: "(7 * N + 2 + (7 * N + 2) * cover_lits ?qs) + (7 * N + 2) * cover_lits ?rs \<le> (7 * N + 2) * cover_lits cs"
  proof -
    have "(7 * N + 2) * (1 + cover_lits ?qs + cover_lits ?rs) \<le> (7 * N + 2) * cover_lits cs"
      using L len b(3) by (intro mult_le_mono) auto
    then show ?thesis by (simp add: algebra_simps)
  qed
  note fin = fac_finish [OF ok qs(2) leN(2) fuelq(2) t(2) q(2) val grown_trans [OF g2 q(3)] tot cov(4,5)]
  have "Kit_SopFactorLF_rec (Suc fuel) g cs [s] n v =
    (let (eAnd, g3) = Kit_GraphAddNodeAnd g2' e1 e2 in
     if ?rs = [] then Some (eAnd, g3, v3) else
     do { (eRem, g4, v3) \<leftarrow> Kit_SopFactor_rec fuel g3 ?rs n v3;
          let (e, g5) = Kit_GraphAddNodeOr g4 eAnd eRem;
          Some (e, g5, v3) })"
    unfolding Kit_SopFactorLF_rec.simps(2) using best v2(1) t(1) q(1) by (simp add: Let_def)
  then show ?thesis using fin by (simp only:)
qed

text \<open>The divisions of the main procedure, and what the second one starts from.\<close>

lemma single_quotient_nonzero:
  assumes "antichain cs" "p \<noteq> 0" "d \<in> set (quotient_by cs p)" "division cs (quotient_by cs p) [q] rs"
  shows "q \<noteq> 0"
proof
  assume q: "q = 0"
  have "lits p \<inter> lits d = {}" "p OR d \<in> set cs" using set_quotient_by assms(3) by blast+
  moreover have "d \<in> set cs" using division_mem [OF assms(4), of q d] assms(3) q by simp
  ultimately have "d = p OR d" using antichainD [OF assms(1), of d "p OR d"] by (simp add: lits_or)
  then have "lits p \<subseteq> lits d" by (metis lits_or sup.cobounded1)
  then show False using \<open>lits p \<inter> lits d = {}\<close> assms(2) lits_empty_iff by blast
qed

lemma MakeCubeFree_facts:
  assumes "antichain qs" "2 \<le> length qs" "cubes_below n qs"
  defines "m \<equiv> Kit_SopCommonCube qs"
  shows "Kit_SopMakeCubeFree qs = map (\<lambda>c. Kit_CubeSharp c m) qs" "antichain (Kit_SopMakeCubeFree qs)"
    "0 \<notin> set (Kit_SopMakeCubeFree qs)" "cubes_below n (Kit_SopMakeCubeFree qs)"
    "q \<in> set qs \<Longrightarrow> lits m \<subseteq> lits q"
proof -
  have nz: "0 \<notin> set qs" by (rule antichain_nonzero [OF assms(1,2)])
  show eq: "Kit_SopMakeCubeFree qs = map (\<lambda>c. Kit_CubeSharp c m) qs" using nz by (simp add: MakeCubeFree_eq m_def)
  show sub: "q \<in> set qs \<Longrightarrow> lits m \<subseteq> lits q" for q
    unfolding m_def using nz CommonCube_subset [of q qs] by simp
  show anti: "antichain (Kit_SopMakeCubeFree qs)"
    unfolding eq by (rule antichain_map [OF assms(1), of _ "lits m"]) (simp add: lits_Sharp sub)
  show "0 \<notin> set (Kit_SopMakeCubeFree qs)" using antichain_nonzero [OF anti] assms(2) by simp
  show "cubes_below n (Kit_SopMakeCubeFree qs)"
    using assms(3) unfolding eq cubes_below_def by (auto simp: lits_Sharp)
qed

lemma second_division:
  assumes "cover_ok n cs" "antichain D" "0 \<notin> set D" "d \<in> set D" "division cs D qs rs" "2 \<le> length qs"
  defines "Q \<equiv> Kit_SopMakeCubeFree qs"
  shows "\<exists>p. \<forall>q\<in>set Q. lits p \<inter> lits q = {} \<and> p OR q \<in> set cs" "set Q \<inter> set cs = {}" "length Q \<le> length cs"
proof -
  let ?m = "Kit_SopCommonCube qs"
  have "D \<noteq> []" using assms(4) by auto
  note parts = division_antichain [OF assms(5,1) this]
  note Q = MakeCubeFree_facts [OF parts(1) assms(6) parts(4), folded Q_def]
  have disj: "lits q \<inter> lits d = {}" if "q \<in> set qs" for q using assms(4,5) that by (simp add: division_def)
  have "lits (?m OR d) \<inter> lits (Kit_CubeSharp q ?m) = {} \<and> (?m OR d) OR Kit_CubeSharp q ?m \<in> set cs" if q: "q \<in> set qs" for q
  proof
    show "lits (?m OR d) \<inter> lits (Kit_CubeSharp q ?m) = {}" using disj [OF q] by (auto simp: lits_simps)
    have "(?m OR d) OR Kit_CubeSharp q ?m = q OR d"
      using Q(5) [OF q] by (auto simp: lits_eq_iff [symmetric] lits_simps)
    then show "(?m OR d) OR Kit_CubeSharp q ?m \<in> set cs" using division_mem [OF assms(5) q assms(4)] by simp
  qed
  then show "\<exists>p. \<forall>q\<in>set Q. lits p \<inter> lits q = {} \<and> p OR q \<in> set cs" unfolding Q(1) by auto
  show "set Q \<inter> set cs = {}"
  proof (rule equals0I)
    fix c assume "c \<in> set Q \<inter> set cs"
    then obtain q where q: "q \<in> set qs" "c = Kit_CubeSharp q ?m" "c \<in> set cs" unfolding Q(1) by auto
    have "lits c \<subseteq> lits (q OR d)" using q(2) by (auto simp: lits_simps)
    then have "c = q OR d"
      using antichainD [of cs c "q OR d"] assms(1) q(3) division_mem [OF assms(5) q(1) assms(4)] by (simp add: cover_ok_def)
    then have "lits d \<subseteq> lits q" using q(2) by (auto simp: lits_eq_iff [symmetric] lits_simps)
    then have "d = 0" using disj [OF q(1)] lits_empty_iff by blast
    then show False using assms(3,4) by simp
  qed
  have "1 \<le> length D" using assms(4) by (cases D) auto
  then have "length qs * 1 \<le> length qs * length D" by (rule mult_le_mono2)
  moreover have "length Q = length qs" by (simp add: Q_def)
  ultimately show "length Q \<le> length cs" using division_length [OF assms(5)] by linarith
qed

lemma cube_free_two:
  assumes "antichain ds" "ds \<noteq> []" "Kit_SopIsCubeFree ds"
  shows "2 \<le> length ds"
proof (rule ccontr)
  assume "\<not> ?thesis"
  moreover have "length ds \<noteq> 0" using assms(2) by simp
  ultimately have "length ds = 1" by linarith
  then obtain c where c: "ds = [c]" by (auto simp: length_Suc_conv)
  have "(NOT 0 :: u32) \<noteq> 0" by simp
  then have "Kit_SopCommonCube [c] \<noteq> 0" by (cases "c = 0") (auto simp: Kit_SopCommonCube_def)
  then show False using assms(3) c by (simp add: Kit_SopIsCubeFree_def)
qed

text \<open>The first division has one quotient cube.\<close>

lemma factor_single:
  assumes ok: "fac_ok N n f'" and fuel: "2 * cover_lits cs \<le> Suc (Suc f')" and n: "n \<le> 31"
    and pre: "fac_pre N k n g cs v" and v2: "grown v (5 * N + 1) v2"
    and div: "division cs (quotient_by cs p) [q] rs" and p: "p \<noteq> 0" "2 \<le> length (quotient_by cs p)"
  shows "fac_post N k g cs v (Kit_SopFactorLF_rec (Suc f') g cs [q] n v2)"
proof -
  have cov: "cover_ok n cs" and anti: "antichain cs" using pre by (auto simp: fac_pre_def cover_ok_def)
  let ?D = "quotient_by cs p"
  have "distinct ?D" using antichain_quotient [OF anti] by (simp add: antichain_def)
  then obtain a b where ab: "a \<in> set ?D" "b \<in> set ?D" "a \<noteq> b" by (rule two_elements [OF _ p(2)])
  have "q \<noteq> 0" by (rule single_quotient_nonzero [OF anti p(1) ab(1) div])
  then obtain l where l: "l \<in> lits q" using lits_empty_iff by blast
  have mem: "q OR a \<in> set cs" "q OR b \<in> set cs" using division_mem [OF div] ab by simp_all
  have "lits q \<inter> lits a = {}" "lits q \<inter> lits b = {}" using div ab by (simp_all add: division_def)
  then have "q OR a \<noteq> q OR b" using or_disjoint_inj ab(3) by blast
  then have "2 \<le> lit_count cs l" using lit_count_ge_2 [OF cov mem] l by (simp add: lits_or)
  moreover have "lits (q OR a) \<subseteq> {..<n}" using mem(1) cov by (auto simp: cover_ok_def cubes_below_def)
  then have "l < n" using l by (auto simp: lits_or)
  ultimately show ?thesis using LF_ok [OF ok fuel n pre v2 _ l] by blast
qed

text \<open>The second division, by the cube-free quotient, has a quotient with a common cube.\<close>

lemma factor_common:
  assumes ok: "fac_ok N n f'" and fuel: "2 * cover_lits cs \<le> Suc (Suc f')" and n: "n \<le> 31"
    and pre: "fac_pre N k n g cs v" and v3: "grown v (5 * N + 1) v3"
    and div: "division cs Q ds rs" "antichain Q" "2 \<le> length Q" "ds \<noteq> []" "0 \<notin> set ds"
    and m: "Kit_SopCommonCube ds \<noteq> 0"
  shows "fac_post N k g cs v (Kit_SopFactorLF_rec (Suc f') g cs [Kit_SopCommonCube ds] n v3)"
proof -
  have cov: "cover_ok n cs" using pre by (simp add: fac_pre_def)
  obtain l where l: "l \<in> lits (Kit_SopCommonCube ds)" using m lits_empty_iff by blast
  obtain c where c: "c \<in> set ds" using div(4) by fastforce
  then have lc: "l \<in> lits c" using l CommonCube_subset [of c ds] div(5) by auto
  have "distinct Q" using div(2) by (simp add: antichain_def)
  then obtain a b where ab: "a \<in> set Q" "b \<in> set Q" "a \<noteq> b" by (rule two_elements [OF _ div(3)])
  have mem: "c OR a \<in> set cs" "c OR b \<in> set cs" using division_mem [OF div(1) c] ab by simp_all
  have "lits c \<inter> lits a = {}" "lits c \<inter> lits b = {}" using div(1) c ab by (simp_all add: division_def)
  then have "c OR a \<noteq> c OR b" using or_disjoint_inj ab(3) by blast
  then have "2 \<le> lit_count cs l" using lit_count_ge_2 [OF cov mem] lc by (simp add: lits_or)
  moreover have "lits (c OR a) \<subseteq> {..<n}" using mem(1) cov by (auto simp: cover_ok_def cubes_below_def)
  then have "l < n" using lc by (auto simp: lits_or)
  ultimately show ?thesis using LF_ok [OF ok fuel n pre v3 _ l] by blast
qed

text \<open>The second division has a cube-free quotient: a product of two smaller covers.\<close>

lemma factor_product:
  assumes ok: "fac_ok N n f" and fuel: "2 * cover_lits cs \<le> Suc f"
    and pre: "fac_pre N k n g cs v" and v3: "grown v (5 * N) v3"
    and div: "division cs Q ds rs" "cover_ok n Q" "cover_ok n ds" "2 \<le> length Q" "2 \<le> length ds"
  shows "fac_post N k g cs v
    (do { (eDiv, g, v) \<leftarrow> Kit_SopFactor_rec f g ds n v3;
          (eQuo, g, v) \<leftarrow> Kit_SopFactor_rec f g Q n v;
          let (eAnd, g) = Kit_GraphAddNodeAnd g eDiv eQuo;
          if rs = [] then Some (eAnd, g, v) else
          do { (eRem, g, v) \<leftarrow> Kit_SopFactor_rec f g rs n v;
               let (e, g) = Kit_GraphAddNodeOr g eAnd eRem;
               Some (e, g, v) } })"
proof -
  have cov: "cover_ok n cs" "length cs \<le> N" "graph_inv (k + cover_lits cs) g" "n \<le> 2 * nLeaves g"
    "nSize v + (7 * N + 2) * cover_lits cs \<le> nCap v"
    using pre by (auto simp: fac_pre_def)
  have Q: "Q \<noteq> []" "0 \<notin> set Q" and ds: "ds \<noteq> []" "0 \<notin> set ds" using div(2-5) by (auto simp: cover_ok_def)
  note parts = division_antichain [OF div(1) cov(1) Q(1)]
  have rs: "cover_ok n rs" using parts by (simp add: cover_ok_def)
  let ?a = "cover_lits ds" and ?b = "cover_lits Q" and ?c = "cover_lits rs"
  have ab: "2 \<le> ?a" "2 \<le> ?b"
    using cover_lits_pos [OF ds(2)] cover_lits_pos [OF Q(2)] div(4,5) by linarith+
  have "2 * ?a \<le> length Q * ?a" "2 * ?b \<le> length ds * ?b" using div(4,5) by (intro mult_le_mono1; simp)+
  then have L: "2 * ?a + 2 * ?b + ?c \<le> cover_lits cs" using division_lits [OF div(1)] by linarith
  have len: "length cs = length ds * length Q + length rs" by (rule division_length [OF div(1)])
  have "length ds * 1 \<le> length ds * length Q" "1 * length Q \<le> length ds * length Q"
    using div(4,5) by (intro mult_le_mono; simp)+
  then have leN: "length ds \<le> N" "length Q \<le> N" "length rs \<le> N" using len cov(2) by linarith+
  have C: "(7 * N + 2) * (1 + ?a + ?b + ?c) \<le> (7 * N + 2) * cover_lits cs" using L ab by (intro mult_le_mono) auto
  have fits1: "5 * N + (7 * N + 2) * ?a \<le> (7 * N + 2) * cover_lits cs" using C by (simp add: algebra_simps)
  have room1: "nSize v3 + (7 * N + 2) * ?a \<le> nCap v3" using grown_fits [OF v3] fits1 cov(5) by simp
  let ?kq = "Suc (k + Suc ?c)"
  have "graph_inv (?kq + ?b + ?a) g" by (rule graph_inv_less [OF cov(3)]) (use L ab in linarith)
  then have pre1: "fac_pre N (?kq + ?b) n g ds v3"
    unfolding fac_pre_def using div(3) ds(1) leN(1) cov(4) room1 by blast
  have f1: "2 * ?a \<le> f" "2 * ?b \<le> f" "2 * ?c \<le> f" using fuel L ab by linarith+
  obtain e1 g1 v4 where 1: "Kit_SopFactor_rec f g ds n v3 = Some (e1, g1, v4)"
    "graph_built (?kq + ?b) g (\<lambda>m. fcover_val m ds) (e1, g1)" "grown v3 ((7 * N + 2) * ?a) v4"
    by (rule fac_okE [OF ok f1(1) pre1])
  have v4: "grown v (5 * N + (7 * N + 2) * ?a) v4" by (rule grown_trans [OF v3 1(3)])
  have g1: "graph_inv (?kq + ?b) g1" "nLeaves g1 = nLeaves g" using graph_built_inv [OF 1(2)] by simp_all
  have fits2: "5 * N + (7 * N + 2) * ?a + (7 * N + 2) * ?b \<le> (7 * N + 2) * cover_lits cs" using C by (simp add: algebra_simps)
  have room2: "nSize v4 + (7 * N + 2) * ?b \<le> nCap v4" using grown_fits [OF v4] fits2 cov(5) by simp
  have pre2: "fac_pre N ?kq n g1 Q v4"
    unfolding fac_pre_def using div(2) Q(1) leN(2) cov(4) g1 room2 by simp
  obtain e2 g2 v5 where 2: "Kit_SopFactor_rec f g1 Q n v4 = Some (e2, g2, v5)"
    "graph_built ?kq g1 (\<lambda>m. fcover_val m Q) (e2, g2)" "grown v4 ((7 * N + 2) * ?b) v5"
    by (rule fac_okE [OF ok f1(2) pre2])
  have val: "fcover_val m cs \<longleftrightarrow> fcover_val m ds \<and> fcover_val m Q \<or> fcover_val m rs" for m
    using division_val [OF div(1), of m] by blast
  have tot: "5 * N + (7 * N + 2) * ?a + (7 * N + 2) * ?b + (7 * N + 2) * ?c \<le> (7 * N + 2) * cover_lits cs"
    using C by (simp add: algebra_simps)
  show ?thesis
    using fac_finish [OF ok rs leN(3) f1(3) 1(2) 2(2) val grown_trans [OF v4 2(3)] tot cov(4,5)] 1(1) 2(1)
    by (simp add: Let_def)
qed

lemma factor_second:
  assumes ok: "fac_ok N n (Suc f')" "fac_ok N n f'" and fuel: "2 * cover_lits cs \<le> Suc (Suc f')" and n: "n \<le> 31"
    and pre: "fac_pre N k n g cs v" and v2: "grown v (3 * N) v2"
    and D: "antichain D" "0 \<notin> set D" "D \<noteq> []" and div: "division cs D qs rs'" "2 \<le> length qs"
  shows "fac_post N k g cs v
    (let cQuo = Kit_SopMakeCubeFree qs in
     do { (cSop, cDiv, cRem, vMemory) \<leftarrow> Kit_SopDivideInternal cs cQuo v2;
          if Kit_SopIsCubeFree cDiv then
             do { (eNodeDiv, pFForm, vMemory) \<leftarrow> Kit_SopFactor_rec (Suc f') g cDiv n vMemory;
                  (eNodeQuo, pFForm, vMemory) \<leftarrow> Kit_SopFactor_rec (Suc f') pFForm cQuo n vMemory;
                  let (eNodeAnd, pFForm) = Kit_GraphAddNodeAnd pFForm eNodeDiv eNodeQuo;
                  if cRem = [] then Some (eNodeAnd, pFForm, vMemory) else
                  do { (eNodeRem, pFForm, vMemory) \<leftarrow> Kit_SopFactor_rec (Suc f') pFForm cRem n vMemory;
                       let (eNode, pFForm) = Kit_GraphAddNodeOr pFForm eNodeAnd eNodeRem;
                       Some (eNode, pFForm, vMemory) } }
          else
             do { (cCom, vMemory) \<leftarrow> Kit_SopCommonCubeCover cDiv vMemory;
                  Kit_SopFactorLF_rec (Suc f') g cSop cCom n vMemory } })"
proof -
  have cov: "cover_ok n cs" "length cs \<le> N" "nSize v + (7 * N + 2) * cover_lits cs \<le> nCap v" "cs \<noteq> []"
    using pre by (auto simp: fac_pre_def)
  have cov31: "cover_ok 31 cs" using cov(1) n by (fastforce simp: cover_ok_def cubes_below_def)
  have "length cs \<le> cover_lits cs" using cov(1) by (intro cover_lits_pos) (simp add: cover_ok_def)
  moreover have "0 < length cs" using cov(4) by simp
  ultimately have "1 \<le> cover_lits cs" by linarith
  then have fits: "(7 * N + 2) * 1 \<le> (7 * N + 2) * cover_lits cs" by (rule mult_le_mono2)
  obtain d where d: "d \<in> set D" using D(3) by fastforce
  let ?Q = "Kit_SopMakeCubeFree qs"
  note parts = division_antichain [OF div(1) cov(1) D(3)]
  note Q = MakeCubeFree_facts [OF parts(1) div(2) parts(4)]
  note second = second_division [OF cov(1) D(1,2) d div]
  have "length ?Q = length qs" by simp
  then have pos: "0 < length ?Q" and two: "2 \<le> length ?Q" using div(2) by linarith+
  note Q2 = two pos [unfolded length_greater_0_conv]
  have "nSize v2 + 2 * length cs \<le> nCap v2" using grown_fits [OF v2, of "2 * length cs"] cov(2,3) fits by simp
  then obtain ds rs v3 where d2: "Kit_SopDivideInternal cs ?Q v2 = Some (cs, ds, rs, v3)" "division cs ?Q ds rs"
    "grown v2 (2 * length cs) v3" and ne: "\<And>p. (\<And>q. q \<in> set ?Q \<Longrightarrow> lits p \<inter> lits q = {} \<and> p OR q \<in> set cs) \<Longrightarrow> ds \<noteq> []"
    by (rule DivideInternal_ok [OF cov31 Q(2,3) Q2(2) second(3)]) blast
  have v3: "grown v (5 * N) v3" using grown_mono [OF grown_trans [OF v2 d2(3)]] cov(2) by simp
  have ds: "ds \<noteq> []" using ne second(1) by blast
  note parts2 = division_antichain [OF d2(2) cov(1) Q2(2)]
  show ?thesis
  proof (cases "Kit_SopIsCubeFree ds")
    case True
    have two': "2 \<le> length ds" by (rule cube_free_two [OF parts2(1) ds True])
    then have "cover_ok n ds" using antichain_nonzero [OF parts2(1) two'] parts2(1,4) by (simp add: cover_ok_def)
    moreover have "cover_ok n ?Q" using Q by (simp add: cover_ok_def)
    ultimately show ?thesis
      using factor_product [OF ok(1) fuel pre v3 d2(2) _ _ Q2(1) two'] d2(1) True by (simp add: Let_def)
  next
    case False
    have nz: "0 \<notin> set ds"
    proof
      assume z: "0 \<in> set ds"
      obtain q where "q \<in> set ?Q" using Q2(2) by fastforce
      then show False using division_mem [OF d2(2) z] second(2) by auto
    qed
    have com: "Kit_SopCommonCube ds \<noteq> 0" using False by (simp add: Kit_SopIsCubeFree_def)
    have room: "nSize v3 + 1 \<le> nCap v3" using grown_fits [OF v3, of 1] cov(3) fits by simp
    have "grown v (5 * N + 1) (v3\<lparr>nSize := nSize v3 + 1\<rparr>)" by (rule grown_trans [OF v3 grown_fetch])
    from factor_common [OF ok(2) fuel n pre this d2(2) Q(2) Q2(1) ds nz com] show ?thesis
      using d2(1) False fetch_cubes_ok [OF room] ds
      by (simp add: Let_def Kit_SopCommonCubeCover_def Kit_SopPushCube_def)
  qed
qed

lemma factor_step:
  assumes ok: "\<And>f. f < fuel \<Longrightarrow> fac_ok N n f" and n: "n \<le> 31" and N: "N < 1000000"
  shows "fac_ok N n fuel"
  unfolding fac_ok_def
proof (intro allI impI)
  fix k g cs v assume fuel: "2 * cover_lits cs \<le> fuel" and pre: "fac_pre N k n g cs v"
  have cov: "cover_ok n cs" "cs \<noteq> []" "length cs \<le> N" "graph_inv (k + cover_lits cs) g" "n \<le> 2 * nLeaves g"
    "nSize v + (7 * N + 2) * cover_lits cs \<le> nCap v"
    using pre by (auto simp: fac_pre_def)
  have anti: "antichain cs" and nz: "0 \<notin> set cs" and bel: "cubes_below n cs" using cov(1) by (auto simp: cover_ok_def)
  have cov31: "cover_ok 31 cs" using cov(1) n by (fastforce simp: cover_ok_def cubes_below_def)
  have pos: "length cs \<le> cover_lits cs" by (rule cover_lits_pos [OF nz])
  moreover have "1 \<le> length cs" using cov(2) by (cases cs) auto
  ultimately have Lpos: "1 \<le> cover_lits cs" by linarith
  obtain f where f: "fuel = Suc f" using fuel Lpos by (cases fuel) auto
  have fits: "(7 * N + 2) * 1 \<le> (7 * N + 2) * cover_lits cs" using Lpos by (intro mult_le_mono) auto
  note step = Kit_SopFactor_rec.simps(2) [of f g cs n v]
  have room: "nSize v + length cs \<le> nCap v" using cov(3,6) fits by simp
  have small: "length cs < 1000000" using cov(3) N by simp
  consider (triv) "Kit_SopDivisor cs n v = Some (None, v)"
    | (divide) p v1 where "Kit_SopDivisor cs n v = Some (Some (quotient_by cs p), v1)" "grown v (length cs) v1"
      "p \<noteq> 0" "2 \<le> length (quotient_by cs p)"
    using Kit_SopDivisor_ok [OF anti nz small room, of n] by blast
  then show "fac_post N k g cs v (Kit_SopFactor_rec fuel g cs n v)"
  proof cases
    case triv
    have "graph_inv (k + (cover_lits cs - 1)) g" by (rule graph_inv_less [OF cov(4)]) simp
    then obtain e g' where t: "Kit_SopFactorTrivial g cs n = Some (e, g')" "top_edge (e, g')"
      "graph_built k g (\<lambda>m. fcover_val m cs) (e, g')"
      using Trivial_ok [OF cov(2) nz bel cov(5)] by (fastforce simp: Kit_SopFactorTrivial_def)
    then show ?thesis using step triv f cov(2) by (simp add: fac_post_def grown_def)
  next
    case (divide p v1)
    let ?D = "quotient_by cs p"
    have D: "antichain ?D" "0 \<notin> set ?D" "?D \<noteq> []" "length ?D \<le> length cs"
      using antichain_quotient [OF anti] antichain_nonzero [OF antichain_quotient [OF anti] divide(4)] divide(4)
        length_filter_le [of _ cs] by (auto simp: quotient_by_def)
    have "nSize v1 + 2 * length cs \<le> nCap v1" using grown_fits [OF divide(2), of "2 * length cs"] cov(3,6) fits by simp
    then obtain qs rs v2 where d1: "Kit_SopDivideInternal cs ?D v1 = Some (cs, qs, rs, v2)" "division cs ?D qs rs"
      "grown v1 (2 * length cs) v2" and ne: "\<And>q. (\<And>d. d \<in> set ?D \<Longrightarrow> lits q \<inter> lits d = {} \<and> q OR d \<in> set cs) \<Longrightarrow> qs \<noteq> []"
      by (rule DivideInternal_ok [OF cov31 D]) blast
    have qs: "qs \<noteq> []" using ne [of p] set_quotient_by by blast
    have v2: "grown v (3 * N) v2" using grown_mono [OF grown_trans [OF divide(2) d1(3)]] cov(3) by simp
    obtain f' where f': "f = Suc f'" using fuel f Lpos by (cases f) auto
    have okf: "fac_ok N n f" "fac_ok N n f'" using ok f f' by simp_all
    have fuel': "2 * cover_lits cs \<le> Suc (Suc f')" "2 * cover_lits cs \<le> Suc f" using fuel f f' by simp_all
    note step = step [unfolded divide(1) bind.bind_lunit prod.case option.case d1(1) if_not_P [OF cov(2)] if_not_P [OF qs]]
    show ?thesis
    proof (cases "length qs = 1")
      case True
      then obtain q where q: "qs = [q]" by (auto simp: length_Suc_conv)
      have "grown v (5 * N + 1) v2" by (rule grown_mono [OF v2]) simp
      from factor_single [OF okf(2) fuel'(1) n pre this d1(2) [unfolded q] divide(3,4)] show ?thesis
        using step f f' q by simp
    next
      case False
      then have two: "2 \<le> length qs" using qs by (cases qs; cases "tl qs") auto
      show ?thesis
        using step factor_second [OF okf(1) [unfolded f'] okf(2) fuel'(1) n pre v2 D(1-3) d1(2) two] f f' False
        by (simp only: if_False)
    qed
  qed
qed

lemma factor_rec_ok: "n \<le> 31 \<Longrightarrow> N < 1000000 \<Longrightarrow> fac_ok N n fuel"
  by (induction fuel rule: less_induct) (blast intro: factor_step)

section \<open>Exchanging the literals of the cubes\<close>

definition consistent :: "u32 \<Rightarrow> bool" where
  "consistent c \<longleftrightarrow> (\<forall>v<16. \<not> (bit c (2 * v) \<and> bit c (2 * v + 1)))"

definition other_lit :: "nat \<Rightarrow> nat" where
  "other_lit j = (if even j then j + 1 else j - 1)"

lemma other_lit [simp]: "other_lit (other_lit j) = j" "other_lit j div 2 = j div 2" "even (other_lit j) \<longleftrightarrow> odd j"
  "other_lit j < 2 * n \<longleftrightarrow> j < 2 * n" "other_lit j < 32 \<longleftrightarrow> j < 32"
  by (auto simp: other_lit_def elim!: evenE oddE)

lemma consistentD: "consistent c \<Longrightarrow> j \<in> lits c \<Longrightarrow> other_lit j \<notin> lits c"
proof
  assume c: "consistent c" "j \<in> lits c" "other_lit j \<in> lits c"
  have v: "j div 2 < 16" using lits_less [OF c(2)] by simp
  show False using c spec [OF c(1) [unfolded consistent_def], of "j div 2"] v
    by (cases "even j") (auto simp: mem_lits other_lit_def elim!: evenE oddE)
qed

lemma inverse_cube_bit:
  assumes "j < 32"
  shows "bit (inverse_cube c) j \<longleftrightarrow> bit c j \<noteq> (bit c j \<or> bit c (other_lit j))"
proof -
  let ?u = "(c OR drop_bit 1 c) AND 0x55555555"
  have u: "bit ?u i \<longleftrightarrow> even i \<and> (bit c i \<or> bit c (i + 1))" if "i < 32" for i
    using mask_0_lo [OF that] by (auto simp: bit_and_iff bit_or_iff bit_drop_bit_eq bit_0 add.commute)
  have "bit (?u OR push_bit 1 ?u) j \<longleftrightarrow> bit c j \<or> bit c (other_lit j)"
  proof (cases "even j")
    case True
    then have "\<not> bit (push_bit 1 ?u) j"
      using u [of "j - 1"] assms unfolding bit_push_bit_iff by (cases j) auto
    then show ?thesis using u [OF assms] True unfolding bit_or_iff [of ?u] by (simp add: other_lit_def)
  next
    case False
    then have "bit (push_bit 1 ?u) j \<longleftrightarrow> bit ?u (j - 1)"
      using assms unfolding bit_push_bit_iff by (cases j) auto
    also have "\<dots> \<longleftrightarrow> bit c (j - 1) \<or> bit c j" using u [of "j - 1"] assms False by (cases j) auto
    finally show ?thesis using u [OF assms] False unfolding bit_or_iff [of ?u] by (auto simp: other_lit_def)
  qed
  then show ?thesis unfolding inverse_cube_def Let_def bit_xor_iff by blast
qed

lemma lits_inverse:
  assumes "consistent c" shows "lits (inverse_cube c) = other_lit ` lits c"
proof (intro equalityI subsetI)
  fix j assume j: "j \<in> lits (inverse_cube c)"
  then have "j < 32" by (rule lits_less)
  then have "other_lit j \<in> lits c" using j inverse_cube_bit [of j c] by (auto simp: mem_lits)
  then show "j \<in> other_lit ` lits c" by (intro image_eqI [of _ _ "other_lit j"]) simp_all
next
  fix j assume "j \<in> other_lit ` lits c"
  then obtain i where i: "i \<in> lits c" "j = other_lit i" by blast
  then have "j < 32" "other_lit j \<in> lits c" "j \<notin> lits c" using lits_less consistentD [OF assms] by auto
  then show "j \<in> lits (inverse_cube c)" using inverse_cube_bit [of j c] by (auto simp: mem_lits)
qed

lemma inj_other_lit: "inj_on other_lit A"
  by (rule inj_onI) (metis other_lit(1))

lemma fcube_val_inverse:
  assumes "consistent c" shows "fcube_val m (inverse_cube c) \<longleftrightarrow> cube_eval c m"
proof -
  have "cube_eval c m \<longleftrightarrow> (\<forall>j\<in>lits c. bit m (j div 2) = odd j)"
  proof
    assume c: "cube_eval c m"
    show "\<forall>j\<in>lits c. bit m (j div 2) = odd j"
    proof
      fix j assume j: "j \<in> lits c"
      then have "j div 2 < 16" using lits_less [OF j] by simp
      then show "bit m (j div 2) = odd j"
        using c j by (cases "even j") (auto simp: cube_eval_def mem_lits elim!: evenE oddE)
    qed
  next
    assume l: "\<forall>j\<in>lits c. bit m (j div 2) = odd j"
    have "bit c (2 * v) \<Longrightarrow> \<not> bit m v" "bit c (2 * v + 1) \<Longrightarrow> bit m v" for v
      using bspec [OF l, of "2 * v"] bspec [OF l, of "2 * v + 1"] by (simp_all add: mem_lits)
    then show "cube_eval c m" by (auto simp: cube_eval_def)
  qed
  then show ?thesis by (auto simp: fcube_val_def lits_inverse [OF assms] lit_val_def)
qed

lemma inverse_cover:
  assumes "\<forall>c\<in>set cs. consistent c" "antichain cs" "cubes_below (2 * n) cs"
  shows "antichain (map inverse_cube cs)" "cubes_below (2 * n) (map inverse_cube cs)"
    "cover_lits (map inverse_cube cs) = cover_lits cs" "fcover_val m (map inverse_cube cs) \<longleftrightarrow> cover_eval cs m"
    "0 \<in> set (map inverse_cube cs) \<longleftrightarrow> 0 \<in> set cs"
proof -
  have sub: "lits (inverse_cube c) \<subseteq> lits (inverse_cube d) \<longleftrightarrow> lits c \<subseteq> lits d" if "c \<in> set cs" "d \<in> set cs" for c d
    using assms(1) that inj_image_subset_iff [OF inj_other_lit, of "lits c" "lits d"] by (simp add: lits_inverse)
  have "inj_on inverse_cube (set cs)"
  proof (rule inj_onI)
    fix c d assume "c \<in> set cs" "d \<in> set cs" "inverse_cube c = inverse_cube d"
    then show "c = d" using sub [of c d] antichainD [OF assms(2), of c d] by simp
  qed
  then show "antichain (map inverse_cube cs)"
    using assms(2) sub by (auto simp: antichain_def distinct_map)
  have "lits (inverse_cube c) \<subseteq> {..<2 * n}" if "c \<in> set cs" for c
    using assms that unfolding cubes_below_def by (auto simp: lits_inverse image_subset_iff)
  then show "cubes_below (2 * n) (map inverse_cube cs)" by (auto simp: cubes_below_def)
  show "cover_lits (map inverse_cube cs) = cover_lits cs"
    using assms(1) by (induction cs) (auto simp: lits_inverse card_image [OF inj_other_lit])
  show "fcover_val m (map inverse_cube cs) \<longleftrightarrow> cover_eval cs m"
    using assms(1) by (auto simp: fcover_val_def cover_eval_def fcube_val_inverse)
  have "inverse_cube c = 0 \<longleftrightarrow> c = 0" if "c \<in> set cs" for c
    using assms(1) that by (simp add: lits_empty_iff [symmetric] lits_inverse)
  then show "0 \<in> set (map inverse_cube cs) \<longleftrightarrow> 0 \<in> set cs" by force
qed

lemma CreateInverse_eq:
  assumes "nSize v + length cs \<le> nCap v"
  shows "Kit_SopCreateInverse cs v = Some (map inverse_cube cs, v\<lparr>nSize := nSize v + length cs\<rparr>)"
proof -
  have "foldl (\<lambda>cResult c. Kit_SopPushCube cResult (inverse_cube c)) ds cs = ds @ map inverse_cube cs" for ds
    by (induction cs arbitrary: ds) (auto simp: Kit_SopPushCube_def)
  then show ?thesis using fetch_cubes_ok [OF assms] by (simp add: Kit_SopCreateInverse_def)
qed

section \<open>The factored form of a cover\<close>

text \<open>The value of a graph.\<close>

definition graph_val :: "kit_graph \<Rightarrow> nat \<Rightarrow> bool" where
  "graph_val g m \<longleftrightarrow> (if fConst g then \<not> fCompl (eRoot g) else edge_val g m (eRoot g))"

text \<open>Well-formed results: constants, and graphs whose root is a leaf or the last node.\<close>

definition graph_result :: "nat \<Rightarrow> kit_graph \<Rightarrow> bool" where
  "graph_result n g \<longleftrightarrow> fConst g \<or> graph_inv 0 g \<and> nLeaves g = n \<and> edge_ok g (eRoot g) \<and> top_edge (eRoot g, g)"

lemma set_root_result:
  assumes "graph_inv k g" "nLeaves g = n" "edge_ok g e" "top_edge (e, g)" "\<not> fConst g"
  shows "graph_result n (Kit_GraphSetRoot g e)" "graph_val (Kit_GraphSetRoot g e) m = edge_val g m e"
    "graph_result n (Kit_GraphComplement (Kit_GraphSetRoot g e))"
    "graph_val (Kit_GraphComplement (Kit_GraphSetRoot g e)) m = (\<not> edge_val g m e)"
  using assms
  by (auto simp: graph_result_def graph_inv_def edge_ok_def top_edge_def Kit_GraphSetRoot_def Kit_GraphComplement_def
      graph_val_def edge_val_def)

text \<open>The covers that are factored.\<close>

definition factor_input :: "nat \<Rightarrow> u32 list \<Rightarrow> vec_mem \<Rightarrow> bool" where
  "factor_input n cs v \<longleftrightarrow> antichain cs \<and> (\<forall>c\<in>set cs. consistent c) \<and> cubes_below (2 * n) cs \<and>
    length cs < 1000000 \<and> 2 * n + cover_lits cs \<le> 2 ^ 30 \<and>
    nSize v + length cs + (7 * length cs + 2) * cover_lits cs \<le> max (nCap v) KIT_FACTOR_MEM_LIMIT"

lemma Kit_SopFactor_ok:
  assumes "factor_input n cs v" "n < 16"
  shows "\<exists>g. Kit_SopFactor cs b n v = Some g \<and> graph_result n g \<and>
    (\<forall>m. graph_val g m \<longleftrightarrow> (if cs = [] \<or> cs = [0] then cover_eval cs m else cover_eval cs m \<noteq> b))"
proof -
  have inp: "antichain cs" "\<forall>c\<in>set cs. consistent c" "cubes_below (2 * n) cs"
    "length cs < 1000000" "2 * n + cover_lits cs \<le> 2 ^ 30"
    "nSize v + length cs + (7 * length cs + 2) * cover_lits cs \<le> max (nCap v) KIT_FACTOR_MEM_LIMIT"
    using assms(1) by (auto simp: factor_input_def)
  consider "cs = []" | "cs = [0]" | "cs \<noteq> []" "cs \<noteq> [0]" by blast
  then show ?thesis
  proof cases
    case 1
    then show ?thesis using assms(2)
      by (simp add: Kit_SopFactor_def graph_result_def graph_val_def Kit_GraphCreateConst0_def)
  next
    case 2
    then show ?thesis using assms(2)
      by (simp add: Kit_SopFactor_def graph_result_def graph_val_def Kit_GraphCreateConst1_def)
  next
    case 3
    have nz: "0 \<notin> set cs"
    proof (cases "length cs = 1")
      case True
      then show ?thesis using 3 by (auto simp: length_Suc_conv)
    next
      case False
      then have "2 \<le> length cs" using 3(1) by (cases cs; cases "tl cs") auto
      then show ?thesis using antichain_nonzero inp(1) by blast
    qed
    let ?cs = "map inverse_cube cs" and ?v = "v\<lparr>nCap := max (nCap v) KIT_FACTOR_MEM_LIMIT\<rparr>"
    let ?v1 = "?v\<lparr>nSize := nSize ?v + length cs\<rparr>"
    note inv = inverse_cover [OF inp(2,1,3)]
    have cov: "cover_ok (2 * n) ?cs" using inv nz by (simp add: cover_ok_def)
    have create: "Kit_SopCreateInverse cs ?v = Some (?cs, ?v1)" by (rule CreateInverse_eq) (use inp(6) in simp)
    have "graph_inv (0 + cover_lits ?cs) (Kit_GraphCreate n)" using graph_inv_Create inp(5) inv(3) by simp
    then have pre: "fac_pre (length cs) 0 (2 * n) (Kit_GraphCreate n) ?cs ?v1"
      unfolding fac_pre_def using cov 3(1) inv(3) inp(6) by (simp add: Kit_GraphCreate_def)
    have "2 * n \<le> 31" using assms(2) by simp
    from factor_rec_ok [OF this inp(4)] obtain e g v2 where
      r: "Kit_SopFactor_rec (2 * cover_lits ?cs) (Kit_GraphCreate n) ?cs (2 * n) ?v1 = Some (e, g, v2)"
      "graph_built 0 (Kit_GraphCreate n) (\<lambda>m. fcover_val m ?cs) (e, g)" "top_edge (e, g)"
      by (rule fac_okE [OF _ order_refl pre])
    have g: "graph_inv 0 g" "nLeaves g = n" "edge_ok g e" "\<not> fConst g" "edge_val g m e = cover_eval cs m" for m
      using graph_built_inv [OF r(2)] r(2) inv(4) [of m]
      by (auto simp: graph_built_def Kit_GraphCreate_def graph_inv_def)
    have "\<not> (length cs = 1 \<and> cs ! 0 = 0)" using 3 by (auto simp: length_Suc_conv)
    then have "Kit_SopFactor cs b n v =
        Some (if b then Kit_GraphComplement (Kit_GraphSetRoot g e) else Kit_GraphSetRoot g e)"
      using assms(2) 3(1) create r(1) unfolding Kit_SopFactor_def by (simp only: if_not_P) (simp add: Let_def)
    then show ?thesis using set_root_result [OF g(1,2,3) r(3) g(4)] g(5) 3 by auto
  qed
qed

section \<open>From the truth table to the factored form\<close>

lemma isop_consistent:
  assumes "isop n on dc cs r" "c \<in> set cs" shows "consistent c"
proof -
  obtain i where "i < length cs" "c = cs ! i" using assms(2) by (metis in_set_conv_nth)
  then obtain m where "cube_eval c m" using isopD(5) [OF assms(1)] by (auto simp: owns_def)
  then show ?thesis by (auto simp: cube_eval_def consistent_def)
qed

lemma cube_eval_lits: "lits c \<subseteq> lits d \<Longrightarrow> cube_eval d m \<Longrightarrow> cube_eval c m"
  by (auto simp: cube_eval_def lits_def)

lemma isop_antichain:
  assumes "isop n on dc cs r" shows "antichain cs"
proof -
  have inj: "i = j" if "i < length cs" "j < length cs" "lits (cs ! i) \<subseteq> lits (cs ! j)" for i j
  proof -
    from isopD(5) [OF assms that(2)] obtain m where m: "cube_eval (cs ! j) m"
      "\<forall>k<length cs. k \<noteq> j \<longrightarrow> \<not> cube_eval (cs ! k) m" by (auto simp: owns_def)
    then show ?thesis using cube_eval_lits [OF that(3) m(1)] that(1) by blast
  qed
  have "distinct cs" unfolding distinct_conv_nth using inj by force
  moreover have "c = d" if "c \<in> set cs" "d \<in> set cs" "lits c \<subseteq> lits d" for c d
    using that inj by (metis in_set_conv_nth)
  ultimately show ?thesis by (auto simp: antichain_def)
qed

lemma consistent_card:
  assumes "consistent c" "lits c \<subseteq> {..<2 * n}" shows "card (lits c) \<le> n"
proof -
  have "inj_on (\<lambda>j. j div 2) (lits c)"
  proof (rule inj_onI)
    fix i j assume ij: "i \<in> lits c" "j \<in> lits c" "i div 2 = j div 2"
    show "i = j"
    proof (rule ccontr)
      assume "i \<noteq> j"
      then have "j = other_lit i" using ij(3) by (cases "even i"; cases "even j") (auto simp: other_lit_def elim!: evenE oddE)
      then show False using consistentD [OF assms(1) ij(1)] ij(2) by simp
    qed
  qed
  moreover have "(\<lambda>j. j div 2) ` lits c \<subseteq> {..<n}" using assms(2) by auto
  ultimately show ?thesis using card_inj_on_le [of "\<lambda>j. j div 2" "lits c" "{..<n}"] by simp
qed

lemma isop_lits:
  assumes "isop n on dc cs r" shows "cubes_below (2 * n) cs" "cover_lits cs \<le> n * length cs"
proof -
  have b: "lits c \<subseteq> {..<2 * n}" if "c \<in> set cs" for c
    using isopD(4) [OF assms that] by (auto simp: cube_below_def lits_def)
  then show "cubes_below (2 * n) cs" by (simp add: cubes_below_def)
  have "\<forall>c\<in>set cs. card (lits c) \<le> n" using consistent_card [OF isop_consistent [OF assms] b] by blast
  then show "cover_lits cs \<le> n * length cs" by (induction cs) auto
qed

lemma isop_true: "isop n (\<lambda>_. True) (\<lambda>_. True) cs r \<Longrightarrow> length cs = 1 \<and> cs ! 0 = 0"
proof -
  assume i: "isop n (\<lambda>_. True) (\<lambda>_. True) cs r"
  have "\<not> bit c l" if "c \<in> set cs" for c l
    using isopD(6) [OF i that, of l] bit_imp_le_length [of c l] by auto
  then have z: "\<forall>c\<in>set cs. c = 0" using lits_empty_iff unfolding lits_def by blast
  have "cs \<noteq> []" using isop_nonempty [OF i] by simp
  moreover have "distinct cs" using isop_antichain [OF i] by (simp add: antichain_def)
  ultimately show ?thesis using z by (cases cs; cases "tl cs") auto
qed

text \<open>What \<open>Kit_TruthIsop\<close> returns when the memory suffices.\<close>

lemma Kit_TruthIsop_ok:
  assumes "n \<le> 11" "tt_ok n p" "below n (tfun n p)"
  obtains ret cs f where "Kit_TruthIsop p n cap True = (ret, Some cs, p)" "isop n f f cs f"
    "ret = 0 \<and> f = tfun n p \<or> ret = 1 \<and> f = (\<lambda>m. \<not> tfun n p m) \<and> cs \<noteq> [] \<and> cs \<noteq> [0]"
proof -
  let ?v = "\<lparr>nSize = 0, nCap = max cap KIT_ISOP_MEM_LIMIT\<rparr>" and ?q = "Kit_TruthNot p p n"
  have n: "n \<le> 16" using assms(1) by simp
  obtain c r v where e: "Kit_TruthIsop_rec p p n ?v = (c, r, v)" by (rule prod_cases3)
  obtain c' r' v' where e': "Kit_TruthIsop_rec ?q ?q n v = (c', r', v')" by (rule prod_cases3)
  have q: "tfun n ?q = (\<lambda>m. \<not> tfun n p m)" by (rule tfun_ops(4) [OF assms(2)])
  have nt: "Kit_TruthNot ?q ?q n = p" by (rule Kit_TruthNot_twice [OF assms(2)])
  have "isop_need 11 \<le> KIT_ISOP_MEM_LIMIT"
    by (simp add: isop_need_numeral isop_need.simps(2) [of 0, simplified] KIT_ISOP_MEM_LIMIT_def Kit_TruthWordNum_def)
  then have "isop_need n \<le> KIT_ISOP_MEM_LIMIT" using isop_need_mono [OF assms(1)] by simp
  then obtain d where d: "c = Some d" using isop_result [OF n assms(2,3) e] by blast
  have i: "isop n (tfun n p) (tfun n p) (pCubes d) (tfun n p)"
    using isop_top [OF n assms(2,3) e] d by (simp add: isop_post_def)
  have i': "isop n (\<lambda>m. \<not> tfun n p m) (\<lambda>m. \<not> tfun n p m) (pCubes d') (\<lambda>m. \<not> tfun n p m)" if "c' = Some d'" for d'
    using isop_top [OF n _ _ e'] assms(2) below_not [OF assms(3)] that q by (simp add: isop_post_def tt_ok_def)
  consider "length (pCubes d) = 0 \<or> length (pCubes d) = 1 \<and> pCubes d ! 0 = 0"
    | "\<not> (length (pCubes d) = 0 \<or> length (pCubes d) = 1 \<and> pCubes d ! 0 = 0)" "c' = None"
    | d' where "\<not> (length (pCubes d) = 0 \<or> length (pCubes d) = 1 \<and> pCubes d ! 0 = 0)" "c' = Some d'"
    by blast
  then show thesis
  proof cases
    case 1
    then show thesis using that [OF _ i] e d isop_const_cover [OF 1] by (simp add: Kit_TruthIsop_def Let_def)
  next
    case 2
    have "Kit_TruthIsop p n cap True = (0, Some (pCubes d), p)"
      using e e' d nt 2 unfolding Kit_TruthIsop_def by (auto simp add: Let_def)
    then show thesis using that [OF _ i] by simp
  next
    case (3 d')
    have "Kit_TruthIsop p n cap True = (if length (pCubes d) > length (pCubes d') \<or>
        length (pCubes d) = length (pCubes d') \<and> nLits d > nLits d' then (1, Some (pCubes d'), p) else (0, Some (pCubes d), p))"
      using e e' d nt 3(2) unfolding Kit_TruthIsop_def Let_def by (simp only: if_not_P [OF 3(1)] prod.case option.case if_True)
    moreover have "pCubes d' \<noteq> [] \<and> pCubes d' \<noteq> [0]"
    proof (rule ccontr)
      assume "\<not> ?thesis"
      then consider "pCubes d' = []" | "pCubes d' = [0]" by blast
      then show False
      proof cases
        case 1
        have "tfun n p = (\<lambda>_. True)" using isopD(3) [OF i' [OF 3(2)]] 1 by auto
        then show False using isop_true [of n "pCubes d"] i 3(1) by simp
      next
        case 2
        have "\<not> tfun n p m" for m using isopD(3) [OF i' [OF 3(2)], of m] 2 by simp
        then have "length (pCubes d) = 0" using isopD(1) [OF i] isopD(5) [OF i, of 0] by (auto simp: owns_def)
        then show False using 3(1) by simp
      qed
    qed
    ultimately show thesis using that [OF _ i] that [OF _ i' [OF 3(2)]] by (simp split: if_splits)
  qed
qed

text \<open>For up to 7 variables the limits of both routines suffice.\<close>

lemma TruthToGraph_ok:
  assumes "n \<le> 7" "tt_ok n p" "below n (tfun n p)"
  shows "\<exists>g. Kit_TruthToGraph p n cap = Some (Some g) \<and> graph_result n g \<and> (\<forall>m. graph_val g m \<longleftrightarrow> tfun n p m)"
proof -
  have "n \<le> 11" using assms(1) by simp
  then obtain ret cs f where i: "Kit_TruthIsop p n cap True = (ret, Some cs, p)" "isop n f f cs f"
    "ret = 0 \<and> f = tfun n p \<or> ret = 1 \<and> f = (\<lambda>m. \<not> tfun n p m) \<and> cs \<noteq> [] \<and> cs \<noteq> [0]"
    by (rule Kit_TruthIsop_ok [OF _ assms(2,3)])
  let ?v = "\<lparr>nSize = length cs, nCap = max cap KIT_ISOP_MEM_LIMIT\<rparr>"
  have "length cs \<le> 2 ^ n" by (rule isop_length [OF i(2)])
  also have "\<dots> \<le> 2 ^ 7" by (rule power_increasing [OF assms(1)]) simp
  finally have len: "length cs \<le> 128" by simp
  have "n * length cs \<le> 7 * 128" by (rule mult_le_mono [OF assms(1) len])
  then have L: "cover_lits cs \<le> 896" using isop_lits(2) [OF i(2)] by simp
  have "(7 * length cs + 2) * cover_lits cs \<le> (7 * 128 + 2) * 896" using len L by (intro mult_le_mono) auto
  then have "nSize ?v + length cs + (7 * length cs + 2) * cover_lits cs \<le> max (nCap ?v) KIT_FACTOR_MEM_LIMIT"
    using len by (simp add: KIT_FACTOR_MEM_LIMIT_def)
  then have inp: "factor_input n cs ?v"
    unfolding factor_input_def
    using isop_antichain [OF i(2)] isop_consistent [OF i(2)] isop_lits(1) [OF i(2)] len L assms(1) by simp
  have "n < 16" using assms(1) by simp
  from Kit_SopFactor_ok [OF inp this, of "ret = 1"] obtain g where g:
    "Kit_SopFactor cs (ret = 1) n ?v = Some g" "graph_result n g"
    "\<And>m. graph_val g m \<longleftrightarrow> (if cs = [] \<or> cs = [0] then cover_eval cs m else cover_eval cs m \<noteq> (ret = 1))" by blast
  have "Kit_TruthToGraph p n cap = Some (Some g)"
    using i(1,3) g(1) len by (auto simp: Kit_TruthToGraph_def)
  moreover have "graph_val g m \<longleftrightarrow> tfun n p m" for m
    using g(3) [of m] isopD(3) [OF i(2), of m] i(3) by auto
  ultimately show ?thesis using g(2) by blast
qed

text \<open>
  C14 (functional). \<open>Kit_SopFactor\<close> on an irredundant cover of up to 15 variables that fits its memory
  bound (\<open>factor_input\<close>) fails no assertion and never runs out of memory or fuel. The graph it
  returns is well-formed, with its root in a leaf or in the last node, and computes the
  cover, or its complement when \<open>fCompl\<close> is set and the cover is not a constant. For the constant
  covers the flag is ignored.
\<close>

theorem Kit_SopFactor_correct:
  assumes "factor_input n cs v" "n < 16"
  shows "\<exists>g. Kit_SopFactor cs fCompl' n v = Some g \<and> graph_result n g \<and>
    (\<forall>m. graph_val g m \<longleftrightarrow> (if cs = [] \<or> cs = [0] then cover_eval cs m else cover_eval cs m \<noteq> fCompl'))"
  by (rule Kit_SopFactor_ok [OF assms])

text \<open>The cover \<open>a b' + b c\<close>.\<close>

theorem Kit_SopFactor_witness:
  "\<exists>g. Kit_SopFactor [0x06, 0x28] True 3 \<lparr>nSize = 2, nCap = 0\<rparr> = Some g \<and> graph_result 3 g \<and>
    (\<forall>m. graph_val g m \<longleftrightarrow> (if [0x06, 0x28 :: u32] = [] \<or> [0x06, 0x28] = [0 :: u32] then cover_eval [0x06, 0x28] m
      else cover_eval [0x06, 0x28] m \<noteq> True))"
proof (rule Kit_SopFactor_correct)
  have code: "lits c = set (filter (bit c) [0..<32])" for c :: u32
    using lits_less by (auto simp: lits_def)
  have six: "lits 0x06 = {1, 2}" "lits 0x28 = {3, 5}"
    unfolding code by code_simp+
  show "factor_input 3 [0x06, 0x28] \<lparr>nSize = 2, nCap = 0\<rparr>"
    unfolding factor_input_def antichain_def cubes_below_def consistent_def
    by (auto simp: six cover_lits_def lits_def [symmetric] mem_lits [symmetric] KIT_FACTOR_MEM_LIMIT_def) presburger+
qed simp

text \<open>
  C2 (liveness). For every function of up to 7 variables \<open>Kit_TruthToGraph\<close> returns a graph: neither
  the cover nor the factoring can exceed the memory limits, no assertion fails, and the fuel
  given is enough. The graph is well-formed and computes the function of the table.
\<close>

theorem Kit_TruthToGraph_correct:
  assumes "n \<le> 7" "tt_ok n p" "below n (tfun n p)"
  shows "\<exists>g. Kit_TruthToGraph p n cap = Some (Some g) \<and> graph_result n g \<and> (\<forall>m. graph_val g m \<longleftrightarrow> tfun n p m)"
  by (rule TruthToGraph_ok [OF assms])

theorem Kit_TruthToGraph_witness:
  "\<exists>g. Kit_TruthToGraph [0x12345678, 0xCAFEBABE] 6 0 = Some (Some g) \<and> graph_result 6 g \<and>
    (\<forall>m. graph_val g m \<longleftrightarrow> tfun 6 [0x12345678, 0xCAFEBABE] m)"
  by (rule Kit_TruthToGraph_correct)
    (use below_tfun [of 6 "[0x12345678, 0xCAFEBABE]"] in \<open>simp_all add: tt_ok_def Kit_TruthWordNum_def\<close>)

text \<open>
  C26 (roundtrip). A function of up to 5 variables survives \<open>Kit_TruthToGraph\<close> followed by
  \<open>Kit_GraphToTruth\<close>, bit by bit.
\<close>

theorem Kit_GraphToTruth_TruthToGraph:
  assumes "n \<le> 5" "below n (tfun 5 [w])"
  shows "\<exists>g. Kit_TruthToGraph [w] n cap = Some (Some g) \<and> Kit_GraphToTruth g = w"
proof -
  have t: "tfun n [w] = tfun 5 [w]" using assms(1) by (auto simp: tfun_def tt_size_def fun_eq_iff Kit_TruthWordNum_def)
  have "n \<le> 7" "tt_ok n [w]" using assms(1) by (simp_all add: tt_ok_def Kit_TruthWordNum_def)
  then obtain g where g: "Kit_TruthToGraph [w] n cap = Some (Some g)" "graph_result n g"
    "\<And>m. graph_val g m \<longleftrightarrow> tfun 5 [w] m"
    using TruthToGraph_ok [of n "[w]"] assms(2) t by auto
  have val: "tfun 5 [Kit_GraphToTruth g] m = tfun 5 [w] m" for m
  proof (cases "fConst g")
    case True
    then have "graph_val g m \<longleftrightarrow> \<not> fCompl (eRoot g)" by (simp add: graph_val_def)
    then show ?thesis using g(3) [of m] True
      by (simp add: Kit_GraphToTruth_def Kit_GraphIsConst_def Kit_GraphIsComplement_def tfun5 not_32)
  next
    case False
    then have r: "graph_inv 0 g" "nLeaves g = n" "edge_ok g (eRoot g)"
      "Node (eRoot g) < nLeaves g \<or> Node (eRoot g) = length (pNodes g) - 1"
      using g(2) by (auto simp: graph_result_def top_edge_def)
    have "nLeaves g \<le> 5" using r(2) assms(1) by simp
    then show ?thesis
      using Kit_GraphToTruth_val [OF r(1) _ r(3,4), of m] g(3) [of m] False by (simp add: graph_val_def)
  qed
  have "Kit_GraphToTruth g = w"
  proof (rule cube_eqI)
    fix j :: nat assume "j < 32"
    then show "bit (Kit_GraphToTruth g) j = bit w j" using val [of j] by (simp add: tfun5)
  qed
  then show ?thesis using g(1) by blast
qed

theorem Kit_GraphToTruth_TruthToGraph_witness:
  "\<exists>g. Kit_TruthToGraph [0xCAFEBABE] 5 0 = Some (Some g) \<and> Kit_GraphToTruth g = 0xCAFEBABE"
  by (rule Kit_GraphToTruth_TruthToGraph) (use below_tfun [of 5 "[0xCAFEBABE]"] in simp_all)

end
