(* ===== verification/Sc_Bitvector.thy ===== *)
theory Sc_Bitvector
  imports Word_Fields
begin

text \<open>
  \<open>include/setcover/bitop.h\<close> and \<open>src/setcover/bitop.cpp\<close>: the class \<open>bitvector\<close> of the set cover,
  rows and columns of a matrix of bits packed in 64-bit words with a counter of the ones. The
  class invariant is \<open>bv_ok\<close>, and \<open>bv_set\<close> is the set of positions that a vector stands for; the
  lemmas \<open>bv_*_ok\<close> give for every operation the invariant, the set and the size of its result.
\<close>

unbundle bit_operations_syntax

type_synonym u64 = "64 word"

section \<open>The code\<close>

subsection \<open>Counting the ones of a word\<close>

definition count64 :: "u64 \<Rightarrow> nat" where
  "count64 x =
    (let x = x - (drop_bit 1 x AND 0x5555555555555555);
         x = (x AND 0x3333333333333333) + (drop_bit 2 x AND 0x3333333333333333);
         x = (x + drop_bit 4 x) AND 0x0F0F0F0F0F0F0F0F
     in unat (drop_bit 56 (x * 0x0101010101010101)))"

subsection \<open>The class\<close>

text \<open>
  The members of \<open>bitvector\<close>. The sizes are numbers of bits and of words, \<open>counter\<close> is the number of
  ones. The counter is a 32-bit unsigned number, whose wrap-around is written out.
\<close>

record bitvector =
  bsize :: nat
  wsize :: nat
  counter :: nat
  data :: "u64 list"

definition u32_add :: "nat \<Rightarrow> nat \<Rightarrow> nat" where
  "u32_add a b = (a + b) mod 2 ^ 32"

definition u32_sub :: "nat \<Rightarrow> nat \<Rightarrow> nat" where
  "u32_sub a b = (a + (2 ^ 32 - b)) mod 2 ^ 32"

definition words_for :: "nat \<Rightarrow> nat" where
  "words_for n = n div 64 + (if n mod 64 \<noteq> 0 then 1 else 0)"

text \<open>\<open>std::vector::resize\<close> cuts the vector or extends it with zeros.\<close>

definition vec_resize :: "u64 list \<Rightarrow> nat \<Rightarrow> u64 list" where
  "vec_resize xs n = take n xs @ replicate (n - length xs) 0"

definition bv_empty :: bitvector where
  "bv_empty = \<lparr>bsize = 0, wsize = 0, counter = 0, data = []\<rparr>"

definition bv_set_size :: "nat \<Rightarrow> bitvector \<Rightarrow> bitvector" where
  "bv_set_size n b =
    (let b = b\<lparr>bsize := n, wsize := words_for n, counter := 0\<rparr>
     in b\<lparr>data := for_words (wsize b) (\<lambda>_ _. 0) (vec_resize (data b) (wsize b))\<rparr>)"

definition bv_new :: "nat \<Rightarrow> bitvector" where
  "bv_new n = bv_set_size n bv_empty"

definition bv_copy :: "bitvector \<Rightarrow> bitvector \<Rightarrow> bitvector" where
  "bv_copy cpy b = b\<lparr>bsize := bsize cpy, wsize := wsize cpy, counter := counter cpy,
    data := for_words (wsize cpy) (\<lambda>i _. data cpy ! i) (vec_resize (data b) (wsize cpy))\<rparr>"

definition bv_clear :: "bitvector \<Rightarrow> bitvector" where
  "bv_clear b = b\<lparr>counter := 0, data := for_words (wsize b) (\<lambda>_ _. 0) (data b)\<rparr>"

text \<open>The loop that builds \<open>p\<close> ones.\<close>

fun low_ones :: "nat \<Rightarrow> u64 \<Rightarrow> u64" where
  "low_ones 0 d = d"
| "low_ones (Suc p) d = low_ones p (push_bit 1 d OR 1)"

text \<open>For a vector that is not empty; otherwise the code writes behind the array.\<close>

definition bv_setall :: "bitvector \<Rightarrow> bitvector" where
  "bv_setall b =
    (let i = wsize b - 1;
         ws = for_words i (\<lambda>_ _. 0xFFFFFFFFFFFFFFFF) (data b);
         p = bsize b mod 64;
         d = (if p = 0 then 0xFFFFFFFFFFFFFFFF else low_ones p 0)
     in b\<lparr>counter := bsize b, data := ws[i := d]\<rparr>)"

definition bv_resize :: "nat \<Rightarrow> bitvector \<Rightarrow> bitvector" where
  "bv_resize newsize b =
    (if newsize = bsize b then b else
     let nwsize = words_for newsize;
         b = (if nwsize > wsize b
              then b\<lparr>wsize := nwsize, data := fold (\<lambda>i ws. ws[i := 0]) [wsize b..<nwsize] (vec_resize (data b) nwsize)\<rparr>
              else b)
     in b\<lparr>bsize := newsize\<rparr>)"

definition bv_is_set :: "bitvector \<Rightarrow> nat \<Rightarrow> bool" where
  "bv_is_set b pos \<longleftrightarrow> data b ! (pos div 64) AND push_bit (pos mod 64) 1 \<noteq> 0"

definition bv_setbit :: "nat \<Rightarrow> bitvector \<Rightarrow> bitvector" where
  "bv_setbit pos b =
    (let p1 = pos div 64; mask = push_bit (pos mod 64) 1; bval = data b ! p1 AND mask
     in if bval = 0 then b\<lparr>data := (data b)[p1 := data b ! p1 OR mask], counter := u32_add (counter b) 1\<rparr> else b)"

definition bv_resetbit :: "nat \<Rightarrow> bitvector \<Rightarrow> bitvector" where
  "bv_resetbit pos b =
    (let p1 = pos div 64; mask = push_bit (pos mod 64) 1; bval = data b ! p1 AND mask
     in if bval \<noteq> 0 then b\<lparr>data := (data b)[p1 := data b ! p1 AND NOT mask], counter := u32_sub (counter b) 1\<rparr> else b)"

definition bv_is_allset :: "bitvector \<Rightarrow> bool" where
  "bv_is_allset b \<longleftrightarrow> counter b = bsize b"

subsection \<open>Searching\<close>

text \<open>
  \<open>while (p2 < WSIZE && pos < lim)\<close>: the position of the first one of \<open>d\<close>, and the position at which
  the loop ends. The loop over a full word has no test of \<open>pos\<close>; there \<open>lim\<close> is the end of the word.
\<close>

function scan_word :: "u64 \<Rightarrow> nat \<Rightarrow> nat \<Rightarrow> nat \<Rightarrow> nat option \<times> nat" where
  "scan_word d pos p2 lim =
    (if p2 < 64 \<and> pos < lim then
       if d AND 1 \<noteq> 0 then (Some pos, pos) else scan_word (drop_bit 1 d) (pos + 1) (p2 + 1) lim
     else (None, pos))"
  by pat_completeness auto
termination
  by (relation "measure (\<lambda>(d, pos, p2, lim). 64 - p2)") auto

text \<open>The words between the first and the last one: a hit, or the index of the word at which the loop ends.\<close>

function scan_words :: "u64 list \<Rightarrow> nat \<Rightarrow> nat \<Rightarrow> nat + nat" where
  "scan_words ws n p1 =
    (if p1 < n - 1 then
       case (if ws ! p1 \<noteq> 0 then fst (scan_word (ws ! p1) (p1 * 64) 0 (p1 * 64 + 64)) else None) of
         Some pos \<Rightarrow> Inl pos
       | None \<Rightarrow> scan_words ws n (p1 + 1)
     else Inr p1)"
  by pat_completeness auto
termination
  by (relation "measure (\<lambda>(ws, n, p1). n - p1)") auto

declare scan_word.simps [simp del] scan_words.simps [simp del]

text \<open>
  When the search has passed the last word, the code reads \<open>data[wsize]\<close>, which is not checked; the
  word found behind the array is the parameter \<open>oob\<close>. The position is unsigned in the first
  comparison, so that a negative one is never below the size.
\<close>

definition word_at :: "u64 \<Rightarrow> u64 list \<Rightarrow> nat \<Rightarrow> u64" where
  "word_at oob ws i = (if i < length ws then ws ! i else oob)"

definition bv_next_set :: "u64 \<Rightarrow> bitvector \<Rightarrow> int \<Rightarrow> nat" where
  "bv_next_set oob b pos =
    (if pos + 1 < 0 \<or> int (bsize b) \<le> pos + 1 then bsize b else
     let pos = nat (pos + 1);
         p1 = pos div 64; p2 = pos mod 64;
         d = drop_bit p2 (data b ! p1);
         (hit, pos) = (if d \<noteq> 0 then scan_word d pos p2 (bsize b) else (None, pos))
     in case hit of Some q \<Rightarrow> q | None \<Rightarrow>
       if d \<noteq> 0 \<and> bsize b \<le> pos then bsize b else
       (case scan_words (data b) (wsize b) (p1 + 1) of
          Inl q \<Rightarrow> q
        | Inr p1 \<Rightarrow>
          let d = word_at oob (data b) p1 in
          case (if d \<noteq> 0 then fst (scan_word d (p1 * 64) 0 (bsize b)) else None) of
            Some q \<Rightarrow> q
          | None \<Rightarrow> bsize b))"

subsection \<open>Counting and combining\<close>

definition recount_word :: "u64 \<Rightarrow> nat" where
  "recount_word w =
    (if w = 0 then 0
     else if w = 0xFFFFFFFF00000000 \<or> w = 0x00000000FFFFFFFF then 32
     else if w = 0xFFFFFFFFFFFFFFFF then 64
     else count64 w)"

definition bv_recount :: "bitvector \<Rightarrow> bitvector" where
  "bv_recount b = b\<lparr>counter := fold (\<lambda>i c. u32_add c (recount_word (data b ! i))) [0..<wsize b] 0\<rparr>"

text \<open>The functions that return the number of ones leave it in the counter.\<close>

definition bv_or_count :: "bitvector \<Rightarrow> bitvector \<Rightarrow> bitvector" where
  "bv_or_count c b = bv_recount (b\<lparr>data := for_words (wsize b) (\<lambda>i w. w OR data c ! i) (data b)\<rparr>)"

definition bv_and_count :: "bitvector \<Rightarrow> bitvector \<Rightarrow> bitvector" where
  "bv_and_count c b = bv_recount (b\<lparr>data := for_words (wsize b) (\<lambda>i w. w AND data c ! i) (data b)\<rparr>)"

definition bv_mask_count :: "bitvector \<Rightarrow> bitvector \<Rightarrow> bitvector" where
  "bv_mask_count c b = bv_recount (b\<lparr>data := for_words (wsize b) (\<lambda>i w. w AND NOT (data c ! i)) (data b)\<rparr>)"

definition bv_not_count :: "bitvector \<Rightarrow> bitvector" where
  "bv_not_count b = b\<lparr>data := for_words (wsize b) (\<lambda>_ w. NOT w) (data b), counter := u32_sub (bsize b) (counter b)\<rparr>"

text \<open>The functions of \<open>bitop.cpp\<close>.\<close>

definition count_or :: "bitvector \<Rightarrow> bitvector \<Rightarrow> nat" where
  "count_or b1 b2 = (if bsize b1 \<noteq> bsize b2 then 0
    else sum_words (wsize b1) (\<lambda>i. count64 (data b1 ! i OR data b2 ! i)))"

definition count_and :: "bitvector \<Rightarrow> bitvector \<Rightarrow> nat" where
  "count_and b1 b2 = (if bsize b1 \<noteq> bsize b2 then 0
    else sum_words (wsize b1) (\<lambda>i. count64 (data b1 ! i AND data b2 ! i)))"

definition count_or_mask :: "bitvector \<Rightarrow> bitvector \<Rightarrow> bitvector \<Rightarrow> nat" where
  "count_or_mask b1 b2 m = (if bsize b1 \<noteq> bsize b2 \<or> bsize b2 \<noteq> bsize m then 0
    else sum_words (wsize b1) (\<lambda>i. count64 ((data b1 ! i OR data b2 ! i) AND NOT (data m ! i))))"

definition count_and_mask :: "bitvector \<Rightarrow> bitvector \<Rightarrow> bitvector \<Rightarrow> nat" where
  "count_and_mask b1 b2 m = (if bsize b1 \<noteq> bsize b2 \<or> bsize b2 \<noteq> bsize m then 0
    else sum_words (wsize b1) (\<lambda>i. count64 ((data b1 ! i AND data b2 ! i) AND NOT (data m ! i))))"

section \<open>The population count\<close>

lemma all_bits_64: "j < 64 \<Longrightarrow> list_all P [0..<64] \<Longrightarrow> P (j :: nat)"
  by (auto simp: list_all_iff)

lemma masks_64:
  assumes "j < 64"
  shows "bit (0x5555555555555555 :: u64) j \<longleftrightarrow> \<not> bit j 0"
    "bit (0x3333333333333333 :: u64) j \<longleftrightarrow> \<not> bit j 1"
    "bit (0x0F0F0F0F0F0F0F0F :: u64) j \<longleftrightarrow> \<not> bit j 2"
  using assms by (rule all_bits_64, code_simp)+

text \<open>The first step subtracts the upper bit of every pair from the pair.\<close>

lemma pairs_of_bits:
  fixes w :: u64
  defines "M \<equiv> 0x5555555555555555"
  shows "w - (drop_bit 1 w AND M) = (w AND M) + (drop_bit 1 w AND M)"
proof -
  let ?d = "drop_bit 1 w AND M"
  have hi: "w AND NOT M = push_bit 1 ?d"
  proof (rule bit_word_eqI)
    fix j assume "j < LENGTH(64)"
    then have j: "j < 64" by simp
    show "bit (w AND NOT M) j = bit (push_bit 1 ?d) j"
    proof (cases j)
      case 0
      then show ?thesis using masks_64(1) [of 0] unfolding M_def bit_and_iff bit_push_bit_iff bit_not_iff by simp
    next
      case (Suc i)
      then have "bit M j \<longleftrightarrow> \<not> bit M i" using masks_64(1) [of i] masks_64(1) [of j] j by (simp add: M_def bit_0)
      then show ?thesis using Suc j unfolding bit_and_iff bit_push_bit_iff bit_not_iff bit_drop_bit_eq by auto
    qed
  qed
  have two: "push_bit 1 ?d = ?d + ?d" by (simp only: push_bit_eq_mult power_one_right mult_2_right)
  have "(w AND M) + (w AND NOT M) = (w AND M) OR (w AND NOT M)"
    by (rule disjunctive_add) (simp add: bit_and_iff bit_not_iff)
  also have "\<dots> = w" by (rule bit_word_eqI) (auto simp: bit_or_iff bit_and_iff bit_not_iff)
  finally have "w = (w AND M) + ?d + ?d" unfolding hi two by (simp only: add.assoc)
  then show ?thesis by (metis add_diff_cancel_right')
qed

lemma field_drop_bit:
  fixes x :: "'a::len word"
  shows "field t k (unat (drop_bit t x)) = field t (k + 1) (unat x)"
proof (rule bit_eqI)
  fix j
  have "t * (k + 1) + j = t + (t * k + j)" by (simp add: algebra_simps)
  then show "bit (field t k (unat (drop_bit t x))) j = bit (field t (k + 1) (unat x)) j"
    unfolding bit_field by (simp add: bit_unsigned_iff bit_drop_bit_eq add.assoc)
qed

lemma unat_fields: "(x :: nat) < 256 ^ n \<Longrightarrow> x = (\<Sum>k<n. field 8 k x * 256 ^ k)"
proof (induction n arbitrary: x)
  case (Suc n)
  have "x mod 256 ^ n = (\<Sum>k<n. field 8 k (x mod 256 ^ n) * 256 ^ k)" by (rule Suc.IH) simp
  also have "\<dots> = (\<Sum>k<n. field 8 k x * 256 ^ k)"
  proof (rule sum.cong)
    fix k assume "k \<in> {..<n}"
    then have k: "8 * k + 8 \<le> 8 * n" by simp
    have p: "(256 :: nat) ^ n = 2 ^ (8 * n)" by (simp add: power_mult)
    have "field 8 k (x mod 256 ^ n) = field 8 k x"
      by (rule bit_eqI) (use k in \<open>auto simp: p bit_field take_bit_eq_mod [symmetric] bit_take_bit_iff\<close>)
    then show "field 8 k (x mod 256 ^ n) * 256 ^ k = field 8 k x * 256 ^ k" by simp
  qed simp
  finally have "x mod 256 ^ n = (\<Sum>k<n. field 8 k x * 256 ^ k)" .
  moreover have "field 8 n x = x div 256 ^ n"
  proof -
    have "(2 :: nat) ^ (8 * n) = 256 ^ n" by (simp add: power_mult)
    then show ?thesis using Suc.prems unfolding field_def by (simp add: less_mult_imp_div_less mult.commute)
  qed
  ultimately show ?case using div_mult_mod_eq [of x "256 ^ n"] by simp
qed simp

text \<open>The multiplication adds up the bytes in the topmost one.\<close>

lemma sum_bytes:
  fixes x :: u64
  assumes "(\<Sum>k<8. field 8 k (unat x)) < 256"
  shows "unat (drop_bit 56 (x * 0x0101010101010101)) = (\<Sum>k<8. field 8 k (unat x))"
proof -
  define f where "f k = field 8 k (unat x)" for k
  have n8: "(\<Sum>k<8. g k) = g 0 + g 1 + g 2 + g 3 + g 4 + g 5 + g 6 + g (7 :: nat)" for g :: "nat \<Rightarrow> nat"
    by (simp add: eval_nat_numeral)
  have "unat x < 256 ^ 8" using unsigned_less [where 'a = nat, of x] by simp
  then have x: "unat x = f 0 + f 1 * 256 + f 2 * 256 ^ 2 + f 3 * 256 ^ 3 + f 4 * 256 ^ 4 + f 5 * 256 ^ 5 +
      f 6 * 256 ^ 6 + f 7 * 256 ^ 7"
    using unat_fields [of "unat x" 8] unfolding f_def [symmetric] n8 by simp
  define S where "S = f 0 + f 1 + f 2 + f 3 + f 4 + f 5 + f 6 + f 7"
  have S: "S < 256" using assms by (simp add: n8 f_def S_def)
  define A where "A = f 0 + (f 0 + f 1) * 256 + (f 0 + f 1 + f 2) * 256 ^ 2 + (f 0 + f 1 + f 2 + f 3) * 256 ^ 3 +
    (f 0 + f 1 + f 2 + f 3 + f 4) * 256 ^ 4 + (f 0 + f 1 + f 2 + f 3 + f 4 + f 5) * 256 ^ 5 +
    (f 0 + f 1 + f 2 + f 3 + f 4 + f 5 + f 6) * 256 ^ 6"
  define B where "B = (f 1 + f 2 + f 3 + f 4 + f 5 + f 6 + f 7) + (f 2 + f 3 + f 4 + f 5 + f 6 + f 7) * 256 +
    (f 3 + f 4 + f 5 + f 6 + f 7) * 256 ^ 2 + (f 4 + f 5 + f 6 + f 7) * 256 ^ 3 + (f 5 + f 6 + f 7) * 256 ^ 4 +
    (f 6 + f 7) * 256 ^ 5 + f 7 * 256 ^ 6"
  have A: "A < 2 ^ 56" using S unfolding A_def S_def by simp
  have "unat x * 0x0101010101010101 = A + S * 2 ^ 56 + B * 2 ^ 64"
    unfolding x A_def S_def B_def by (simp add: algebra_simps)
  then have "(unat x * 0x0101010101010101) mod 2 ^ 64 = A + S * 2 ^ 56"
    using A S by simp
  then have "unat (x * 0x0101010101010101) = A + S * 2 ^ 56" by (simp add: unat_word_ariths)
  moreover have "unat (drop_bit 56 y) = unat y div 2 ^ 56" for y :: u64
    by (simp add: drop_bit_eq_div unat_div)
  ultimately have "unat (drop_bit 56 (x * 0x0101010101010101)) = (A + S * 2 ^ 56) div 2 ^ 56"
    by (simp only:)
  also have "\<dots> = S" using A by simp
  finally show ?thesis by (simp add: n8 f_def S_def)
qed

lemma count64_eq: "count64 w = card {j. j < 64 \<and> bit w j}"
proof -
  let ?d = "drop_bit 1 w AND 0x5555555555555555"
  let ?x1 = "w - ?d"
  let ?x2 = "(?x1 AND 0x3333333333333333) + (drop_bit 2 ?x1 AND 0x3333333333333333)"
  let ?x3 = "(?x2 + drop_bit 4 ?x2) AND 0x0F0F0F0F0F0F0F0F"
  have x1: "?x1 = (w AND 0x5555555555555555) + ?d" by (rule pairs_of_bits)
  have f1: "field 2 k (unat ?x1) = field 1 (2 * k) (unat w) + field 1 (2 * k + 1) (unat w)" if "k < 32" for k
    unfolding x1 using field_step [of "0x5555555555555555 :: u64" 0 32 k w, OF masks_64(1)] that by simp
  have f2: "field 4 k (unat ?x2) = field 2 (2 * k) (unat ?x1) + field 2 (2 * k + 1) (unat ?x1)" if "k < 16" for k
    using field_step [of "0x3333333333333333 :: u64" 1 16 k ?x1, OF masks_64(2)] that by simp
  have b2: "field 2 k (unat ?x1) \<le> 2" if "k < 32" for k
    using f1 [OF that] field_less [of 1 "2 * k" "unat w"] field_less [of 1 "2 * k + 1" "unat w"] by simp
  have b4: "field 4 k (unat ?x2) \<le> 4" if "k < 16" for k
    using f2 [OF that] b2 [of "2 * k"] b2 [of "2 * k + 1"] that by simp
  have add: "field 4 k (unat (?x2 + drop_bit 4 ?x2)) = field 4 k (unat ?x2) + field 4 (k + 1) (unat ?x2)" if "k < 15" for k
  proof -
    have high: "field 4 16 (unat ?x2) = 0" by (rule bit_eqI) (auto simp: bit_field bit_unsigned_iff dest: bit_imp_le_length)
    have small: "\<forall>k<16. field 4 k (unat ?x2) + field 4 k (unat (drop_bit 4 ?x2)) < 2 ^ 4"
    proof (intro allI impI)
      fix k :: nat assume k: "k < 16"
      have "field 4 (k + 1) (unat ?x2) \<le> 4" using b4 [of "k + 1"] high k by (cases "k = 15") auto
      then show "field 4 k (unat ?x2) + field 4 k (unat (drop_bit 4 ?x2)) < 2 ^ 4"
        using b4 [OF k] unfolding field_drop_bit by simp
    qed
    have "unat ?x2 mod 2 ^ 64 + unat (drop_bit 4 ?x2) mod 2 ^ 64 < 2 ^ 64"
      using fields_no_carry [OF small] by simp
    then have "unat (?x2 + drop_bit 4 ?x2) = unat ?x2 + unat (drop_bit 4 ?x2)"
      using unsigned_less [where 'a = nat, of ?x2] unsigned_less [where 'a = nat, of "drop_bit 4 ?x2"]
      by (simp add: unat_word_ariths)
    then show ?thesis using field_add [OF small, of k] that unfolding field_drop_bit by simp
  qed
  have f3: "field 8 k (unat ?x3) = field 4 (2 * k) (unat ?x2) + field 4 (2 * k + 1) (unat ?x2)" if "k < 8" for k
    using field_mask(1) [of "0x0F0F0F0F0F0F0F0F :: u64" 2 k "?x2 + drop_bit 4 ?x2", OF masks_64(3)] add [of "2 * k"] that
    by simp
  have pair: "(\<Sum>k<n. f (2 * k) + f (2 * k + 1)) = (\<Sum>k<2 * n. f k)" for f :: "nat \<Rightarrow> nat" and n
    by (induction n) auto
  have "(\<Sum>k<8. field 8 k (unat ?x3)) = (\<Sum>k<16. field 4 k (unat ?x2))" using f3 pair [of _ 8] by simp
  also have "\<dots> = (\<Sum>k<32. field 2 k (unat ?x1))" using f2 pair [of _ 16] by simp
  also have "\<dots> = (\<Sum>k<64. field 1 k (unat w))" using f1 pair [of _ 32] by simp
  finally have sum: "(\<Sum>k<8. field 8 k (unat ?x3)) = (\<Sum>k<64. field 1 k (unat w))" .
  have "(\<Sum>k<64. field 1 k (unat w)) \<le> (\<Sum>k<(64::nat). 1)"
    by (intro sum_mono) (use field_less [of 1 _ "unat w"] in \<open>simp add: less_Suc_eq_le numeral_2_eq_2\<close>)
  then have "(\<Sum>k<8. field 8 k (unat ?x3)) < 256" using sum by simp
  from sum_bytes [OF this] have "count64 w = (\<Sum>k<64. field 1 k (unat w))"
    by (simp only: count64_def Let_def sum)
  then show ?thesis unfolding sum_field_1 by (simp add: bit_unsigned_iff)
qed

lemma recount_word_eq: "recount_word w = card {j. j < 64 \<and> bit w j}"
proof -
  have "count64 0 = 0" "count64 0xFFFFFFFF00000000 = 32" "count64 0x00000000FFFFFFFF = 32"
    "count64 0xFFFFFFFFFFFFFFFF = 64" by code_simp+
  then show ?thesis by (auto simp: recount_word_def count64_eq [symmetric])
qed

section \<open>Bit vectors as sets\<close>

text \<open>
  The abstraction \<open>bv_set\<close>, and the class invariant: the array has the right number of words, the
  counter is the number of ones, and there are no ones behind the size.
\<close>

definition bv_set :: "bitvector \<Rightarrow> nat set" where
  "bv_set b = {i. i div 64 < length (data b) \<and> bit (data b ! (i div 64)) (i mod 64)}"

definition bv_shape :: "bitvector \<Rightarrow> bool" where
  "bv_shape b \<longleftrightarrow> bsize b < 2 ^ 31 \<and> wsize b = words_for (bsize b) \<and> length (data b) = wsize b \<and>
    bv_set b \<subseteq> {..<bsize b}"

definition bv_ok :: "bitvector \<Rightarrow> bool" where
  "bv_ok b \<longleftrightarrow> bv_shape b \<and> counter b = card (bv_set b)"

lemma words_for_less: "i < n \<Longrightarrow> i div 64 < words_for n"
  unfolding words_for_def by (auto simp: div_less_iff_less_mult)

lemma words_for_bounds: "n \<le> 64 * words_for n" "64 * words_for n < n + 64"
  unfolding words_for_def by (auto, presburger+)

lemma bv_shapeD:
  assumes "bv_shape b"
  shows "bsize b < 2 ^ 31" "wsize b = words_for (bsize b)" "length (data b) = wsize b"
    "i \<in> bv_set b \<Longrightarrow> i < bsize b" "finite (bv_set b)" "card (bv_set b) \<le> bsize b"
proof -
  have s: "bv_set b \<subseteq> {..<bsize b}" using assms by (simp add: bv_shape_def)
  then show "finite (bv_set b)" by (rule finite_subset) simp
  show "card (bv_set b) \<le> bsize b" using card_mono [OF _ s] by simp
  show "bsize b < 2 ^ 31" "wsize b = words_for (bsize b)" "length (data b) = wsize b"
    "i \<in> bv_set b \<Longrightarrow> i < bsize b" using assms by (auto simp: bv_shape_def)
qed

lemma bv_okD:
  assumes "bv_ok b"
  shows "bv_shape b" "counter b = card (bv_set b)"
  using assms by (auto simp: bv_ok_def)

text \<open>The ones of an array, word by word.\<close>

lemma card_bits:
  "(\<Sum>i<n. card {j. j < 64 \<and> bit (ws ! i) j}) = card {i. i div 64 < n \<and> bit (ws ! (i div 64)) (i mod 64)}"
proof (induction n)
  case (Suc n)
  let ?A = "{i. i div 64 < n \<and> bit (ws ! (i div 64)) (i mod 64)}"
  let ?B = "(\<lambda>j. 64 * n + j) ` {j. j < 64 \<and> bit (ws ! n) j}"
  have "{i. i div 64 < Suc n \<and> bit (ws ! (i div 64)) (i mod 64)} = ?A \<union> ?B"
  proof (intro equalityI subsetI)
    fix i assume i: "i \<in> {i. i div 64 < Suc n \<and> bit (ws ! (i div 64)) (i mod 64)}"
    show "i \<in> ?A \<union> ?B"
    proof (cases "i div 64 = n")
      case True
      then have "i = 64 * n + i mod 64" "i mod 64 < 64" using mult_div_mod_eq [of 64 i] by simp_all
      then show ?thesis using i True by blast
    qed (use i in auto)
  qed auto
  moreover have "?A \<inter> ?B = {}" by auto
  moreover have "finite ?A" by (rule finite_subset [of _ "{..<64 * n}"]) (auto simp: div_less_iff_less_mult)
  moreover have "card ?B = card {j. j < 64 \<and> bit (ws ! n) j}" by (rule card_image) (simp add: inj_on_def)
  ultimately show ?case using Suc by (simp add: card_Un_disjoint)
qed simp

lemma fold_u32_add: "fold (\<lambda>i c. u32_add c (f i)) [0..<n] 0 = (\<Sum>i<n. f i) mod 2 ^ 32"
  by (induction n) (simp_all add: u32_add_def mod_simps add.commute)

lemma bv_recount_simps [simp]:
  "bsize (bv_recount b) = bsize b" "wsize (bv_recount b) = wsize b" "data (bv_recount b) = data b"
  "bv_set (bv_recount b) = bv_set b" "bv_shape (bv_recount b) = bv_shape b"
  by (simp_all add: bv_recount_def bv_set_def bv_shape_def)

lemma bv_recount_ok:
  assumes "bv_shape b" shows "bv_ok (bv_recount b)"
proof -
  note b = bv_shapeD [OF assms]
  have "(\<Sum>i<wsize b. recount_word (data b ! i)) = card (bv_set b)"
    using card_bits [of "data b" "wsize b"] b(3) by (simp add: recount_word_eq bv_set_def)
  moreover have "card (bv_set b) < 2 ^ 32" using b(1,6) by simp
  ultimately have "counter (bv_recount b) = card (bv_set b)" by (simp add: bv_recount_def fold_u32_add)
  then show ?thesis using assms by (simp add: bv_ok_def)
qed

subsection \<open>The operations on sets\<close>

lemma bv_wordwise:
  assumes "bv_shape b" "bv_shape c" "bsize c = bsize b"
    and "\<And>x y j. j < 64 \<Longrightarrow> bit (f x y) j \<longleftrightarrow> P (bit x j) (bit y j)"
    and "\<not> P False False"
  shows "bv_ok (bv_recount (b\<lparr>data := for_words (wsize b) (\<lambda>i w. f w (data c ! i)) (data b)\<rparr>))"
    and "bv_set (b\<lparr>data := for_words (wsize b) (\<lambda>i w. f w (data c ! i)) (data b)\<rparr>) =
      {i. P (i \<in> bv_set b) (i \<in> bv_set c)}"
proof -
  let ?b = "b\<lparr>data := for_words (wsize b) (\<lambda>i w. f w (data c ! i)) (data b)\<rparr>"
  note b = bv_shapeD [OF assms(1)] and c = bv_shapeD [OF assms(2)]
  have len: "length (data c) = length (data b)" using b(2,3) c(2,3) assms(3) by simp
  have "i \<in> bv_set ?b \<longleftrightarrow> P (i \<in> bv_set b) (i \<in> bv_set c)" for i
    using len b(3) assms(4,5) by (cases "i div 64 < length (data b)") (simp_all add: bv_set_def nth_for_words)
  then show set: "bv_set ?b = {i. P (i \<in> bv_set b) (i \<in> bv_set c)}" by blast
  have "i < bsize b" if "i \<in> bv_set ?b" for i
    using that b(4) [of i] c(4) [of i] assms(3,5) unfolding set by (cases "i \<in> bv_set b"; cases "i \<in> bv_set c") auto
  then have "bv_shape ?b" using b(1,2,3) by (auto simp: bv_shape_def)
  then show "bv_ok (bv_recount ?b)" by (rule bv_recount_ok)
qed

lemma bv_or_count_ok:
  assumes "bv_shape b" "bv_shape c" "bsize c = bsize b"
  shows "bv_ok (bv_or_count c b)" "bv_set (bv_or_count c b) = bv_set b \<union> bv_set c" "bsize (bv_or_count c b) = bsize b"
  using bv_wordwise [OF assms, of "(OR)" "(\<or>)"] by (auto simp: bv_or_count_def bit_or_iff)

lemma bv_and_count_ok:
  assumes "bv_shape b" "bv_shape c" "bsize c = bsize b"
  shows "bv_ok (bv_and_count c b)" "bv_set (bv_and_count c b) = bv_set b \<inter> bv_set c" "bsize (bv_and_count c b) = bsize b"
  using bv_wordwise [OF assms, of "(AND)" "(\<and>)"] by (auto simp: bv_and_count_def bit_and_iff)

lemma bv_mask_count_ok:
  assumes "bv_shape b" "bv_shape c" "bsize c = bsize b"
  shows "bv_ok (bv_mask_count c b)" "bv_set (bv_mask_count c b) = bv_set b - bv_set c" "bsize (bv_mask_count c b) = bsize b"
  using bv_wordwise [OF assms, of "\<lambda>x y. x AND NOT y" "\<lambda>p q. p \<and> \<not> q"]
  by (auto simp: bv_mask_count_def bit_and_iff bit_not_iff)

lemma length_vec_resize [simp]: "length (vec_resize xs n) = n"
  by (simp add: vec_resize_def)

lemma words_for_0: "words_for 0 = 0"
  by (simp add: words_for_def)

lemma bv_set_size_ok:
  assumes "n < 2 ^ 31"
  shows "bv_ok (bv_set_size n b)" "bv_set (bv_set_size n b) = {}" "bsize (bv_set_size n b) = n"
proof -
  show e: "bv_set (bv_set_size n b) = {}" by (auto simp: bv_set_def bv_set_size_def Let_def nth_for_words)
  show "bsize (bv_set_size n b) = n" by (simp add: bv_set_size_def Let_def)
  show "bv_ok (bv_set_size n b)"
    unfolding bv_ok_def bv_shape_def e using assms by (simp add: bv_set_size_def Let_def)
qed

lemma bv_new_ok:
  assumes "n < 2 ^ 31"
  shows "bv_ok (bv_new n)" "bv_set (bv_new n) = {}" "bsize (bv_new n) = n"
  unfolding bv_new_def by (rule bv_set_size_ok [OF assms])+

lemma bv_copy_eq: "bv_shape c \<Longrightarrow> bv_copy c b = c"
proof -
  assume "bv_shape c"
  then have "length (data c) = wsize c" by (rule bv_shapeD)
  then have "for_words (wsize c) (\<lambda>i _. data c ! i) (vec_resize (data b) (wsize c)) = data c"
    by (intro nth_equalityI) (simp_all add: nth_for_words)
  then show ?thesis by (simp add: bv_copy_def)
qed

lemma bv_clear_ok:
  assumes "bv_shape b" shows "bv_ok (bv_clear b)" "bv_set (bv_clear b) = {}" "bsize (bv_clear b) = bsize b"
proof -
  note b = bv_shapeD [OF assms]
  show e: "bv_set (bv_clear b) = {}" using b(3) by (auto simp: bv_set_def bv_clear_def nth_for_words)
  show "bv_ok (bv_clear b)" unfolding bv_ok_def bv_shape_def e using b by (simp add: bv_clear_def)
qed (simp add: bv_clear_def)

lemma bit_low_ones: "j < 64 \<Longrightarrow> bit (low_ones p d) j \<longleftrightarrow> j < p \<or> p \<le> j \<and> bit d (j - p)"
proof (induction p arbitrary: d)
  case (Suc p)
  have "bit (push_bit 1 d OR 1) (j - p) \<longleftrightarrow> j = p \<or> p < j \<and> bit d (j - Suc p)" if "p \<le> j"
  proof -
    have "j - p = 0 \<longleftrightarrow> j = p" "1 \<le> j - p \<longleftrightarrow> p < j" "j - p - 1 = j - Suc p" using that by auto
    then show ?thesis using Suc.prems unfolding bit_or_iff bit_push_bit_iff bit_1_iff by auto
  qed
  then show ?case using Suc by auto
qed simp

lemma bv_setall_ok:
  assumes "bv_shape b" "0 < bsize b"
  shows "bv_ok (bv_setall b)" "bv_set (bv_setall b) = {..<bsize b}" "bsize (bv_setall b) = bsize b"
proof -
  note b = bv_shapeD [OF assms(1)]
  have full: "bit (0xFFFFFFFFFFFFFFFF :: u64) j" if "j < 64" for j using that by (rule all_bits_64) code_simp
  let ?n = "bsize b" and ?W = "wsize b"
  let ?d = "if ?n mod 64 = 0 then 0xFFFFFFFFFFFFFFFF else low_ones (?n mod 64) 0"
  have W: "0 < ?W" using words_for_less [OF assms(2)] b(2) by simp
  have w: "?n = 64 * (?W - 1) + (if ?n mod 64 = 0 then 64 else ?n mod 64)"
    using assms(2) W unfolding b(2) words_for_def by (auto simp: mod_eq_0_iff_dvd elim!: dvdE)
  have w': "64 * (?W - 1) < ?n" "?n \<le> 64 * (?W - 1) + 64"
    using w mod_less_divisor [of 64 ?n] by (auto split: if_splits)
  have last: "bit ?d j \<longleftrightarrow> 64 * (?W - 1) + j < ?n" if "j < 64" for j
    using that w full [OF that] by (auto simp: bit_low_ones split: if_splits)
  show e: "bv_set (bv_setall b) = {..<?n}"
  proof (intro set_eqI)
    fix i :: nat
    have i: "i = 64 * (i div 64) + i mod 64" "i mod 64 < 64" by simp_all
    consider "i div 64 < ?W - 1" | "i div 64 = ?W - 1" | "?W - 1 < i div 64" by linarith
    then show "i \<in> bv_set (bv_setall b) \<longleftrightarrow> i \<in> {..<?n}"
    proof cases
      case 1
      then have "i < 64 * (?W - 1)" by (simp only: div_less_iff_less_mult zero_less_numeral mult.commute)
      then have "i < ?n" using w'(1) by simp
      then show ?thesis using 1 full [OF i(2)] b(3) W by (simp add: bv_set_def bv_setall_def Let_def nth_for_words)
    next
      case 2
      then have "i \<in> bv_set (bv_setall b) \<longleftrightarrow> bit ?d (i mod 64)"
        using b(3) W by (simp add: bv_set_def bv_setall_def Let_def)
      also have "\<dots> \<longleftrightarrow> i < ?n" using last [OF i(2)] i(1) 2 by simp
      finally show ?thesis by simp
    next
      case 3
      then have "\<not> i div 64 < ?W" by simp
      then have "\<not> i < 64 * ?W" by (simp only: div_less_iff_less_mult zero_less_numeral mult.commute not_False_eq_True)
      moreover have "64 * ?W = 64 * (?W - 1) + 64" using W by simp
      ultimately have "\<not> i < ?n" using w'(2) by simp
      then show ?thesis using \<open>\<not> i div 64 < ?W\<close> b(3) by (simp add: bv_set_def bv_setall_def Let_def)
    qed
  qed
  show "bv_ok (bv_setall b)"
    unfolding bv_ok_def bv_shape_def e using b by (simp add: bv_setall_def Let_def)
qed (simp add: bv_setall_def Let_def)

lemma bv_resize_ok:
  assumes "bv_ok b" "bsize b \<le> n" "n < 2 ^ 31"
  shows "bv_ok (bv_resize n b)" "bv_set (bv_resize n b) = bv_set b" "bsize (bv_resize n b) = n"
proof -
  note b = bv_shapeD [OF bv_okD(1) [OF assms(1)]]
  have mono: "wsize b \<le> words_for n"
    using assms(2) b(2) words_for_bounds(2) [of "bsize b"] words_for_bounds(1) [of n] by linarith
  have id: "fold (\<lambda>i ws. ws[i := 0]) [l..<k] (vec_resize (data b) n') = vec_resize (data b) n'"
    if "length (data b) = l" for l k n'
  proof -
    have "fold (\<lambda>i ws. ws[i := 0]) is ws = ws" if "\<forall>i\<in>set is. i < length ws \<longrightarrow> ws ! i = 0" for "is" and ws :: "u64 list"
      using that
    proof (induction "is" arbitrary: ws)
      case (Cons i "is")
      have "ws[i := 0] = ws" using Cons.prems by (cases "i < length ws") (auto simp: list_update_same_conv list_update_beyond)
      then show ?case using Cons by simp
    qed simp
    moreover have "\<forall>i\<in>set [l..<k]. i < length (vec_resize (data b) n') \<longrightarrow> vec_resize (data b) n' ! i = 0"
      using that by (auto simp: vec_resize_def nth_append)
    ultimately show ?thesis by blast
  qed
  have d: "data (bv_resize n b) = data b @ replicate (words_for n - wsize b) 0"
    using id [OF b(3), of "words_for n" "words_for n"] mono b(2,3) by (auto simp: bv_resize_def Let_def vec_resize_def)
  have "p < length (ds @ replicate k 0) \<and> bit ((ds @ replicate k 0) ! p) q \<longleftrightarrow> p < length ds \<and> bit (ds ! p) q"
    for ds :: "u64 list" and k p q by (cases "p < length ds") (simp_all add: nth_append)
  then show s: "bv_set (bv_resize n b) = bv_set b" unfolding bv_set_def d by blast
  show sz: "bsize (bv_resize n b) = n" by (simp add: bv_resize_def Let_def)
  have "wsize (bv_resize n b) = words_for n" "length (data (bv_resize n b)) = words_for n"
    using mono b(2,3) d by (auto simp: bv_resize_def Let_def)
  moreover have "counter (bv_resize n b) = counter b" by (simp add: bv_resize_def Let_def)
  moreover have "bv_set b \<subseteq> {..<n}" using b(4) assms(2) by (meson lessThan_iff order_less_le_trans subsetI)
  ultimately show "bv_ok (bv_resize n b)"
    using assms(1,3) s sz unfolding bv_ok_def bv_shape_def by auto
qed

lemma and_bit_eq: "(w :: u64) AND push_bit q 1 \<noteq> 0 \<longleftrightarrow> q < 64 \<and> bit w q"
proof -
  have "w AND push_bit q 1 = (if q < 64 \<and> bit w q then push_bit q 1 else 0)"
    by (rule bit_word_eqI) (auto simp: bit_simps)
  moreover have "(push_bit q 1 :: u64) \<noteq> 0" if "q < 64"
  proof
    assume e: "(push_bit q 1 :: u64) = 0"
    have "bit (push_bit q 1 :: u64) q" using that by (simp add: bit_simps)
    then show False unfolding e by simp
  qed
  ultimately show ?thesis by auto
qed

lemma bv_is_set_iff: "bv_shape b \<Longrightarrow> pos < bsize b \<Longrightarrow> bv_is_set b pos \<longleftrightarrow> pos \<in> bv_set b"
  using words_for_less [of pos "bsize b"] bv_shapeD(2,3) [of b]
  unfolding bv_is_set_def and_bit_eq by (simp add: bv_set_def)

lemma bv_set_update:
  assumes "p1 < length (data b)"
    and "\<And>j. j < 64 \<Longrightarrow> bit w j \<longleftrightarrow> (if j = p2 then v else bit (data b ! p1) j)" and "p2 < 64"
  shows "bv_set (b\<lparr>data := (data b)[p1 := w]\<rparr>) =
    (if v then insert (64 * p1 + p2) (bv_set b) else bv_set b - {64 * p1 + p2})"
proof -
  let ?b = "b\<lparr>data := (data b)[p1 := w]\<rparr>"
  have mem: "i \<in> bv_set ?b \<longleftrightarrow> (if i = 64 * p1 + p2 then v else i \<in> bv_set b)" for i
  proof (cases "i div 64 = p1")
    case True
    have i: "i = 64 * p1 + p2 \<longleftrightarrow> i mod 64 = p2" by (metis True add_left_imp_eq mult_div_mod_eq)
    have "i \<in> bv_set ?b \<longleftrightarrow> bit w (i mod 64)" using assms(1) True by (simp add: bv_set_def)
    also have "\<dots> \<longleftrightarrow> (if i mod 64 = p2 then v else i \<in> bv_set b)" using assms(1,2) True by (simp add: bv_set_def)
    finally show ?thesis unfolding i .
  next
    case False
    then have "i \<noteq> 64 * p1 + p2" using assms(3) by auto
    then show ?thesis using False by (simp add: bv_set_def)
  qed
  show ?thesis
    by (rule set_eqI) (simp only: mem insert_iff Diff_iff singleton_iff empty_iff split: if_splits, blast)
qed

lemma word_setbit:
  fixes w :: u64
  assumes "j < 64" "q < 64"
  shows "bit (w OR push_bit q 1) j \<longleftrightarrow> (if j = q then True else bit w j)"
    "bit (w AND NOT (push_bit q 1)) j \<longleftrightarrow> (if j = q then False else bit w j)"
proof -
  have "bit (push_bit q 1 :: u64) j \<longleftrightarrow> j = q" using assms by (auto simp: bit_simps)
  then show "bit (w OR push_bit q 1) j \<longleftrightarrow> (if j = q then True else bit w j)"
    "bit (w AND NOT (push_bit q 1)) j \<longleftrightarrow> (if j = q then False else bit w j)"
    using assms(1) unfolding bit_or_iff bit_and_iff bit_not_iff by auto
qed

lemma bit_at:
  assumes "bv_shape b" "pos < bsize b"
  shows "pos div 64 < length (data b)"
    "data b ! (pos div 64) AND push_bit (pos mod 64) 1 \<noteq> 0 \<longleftrightarrow> pos \<in> bv_set b"
    "bv_set (b\<lparr>data := (data b)[pos div 64 := data b ! (pos div 64) OR push_bit (pos mod 64) 1]\<rparr>) = insert pos (bv_set b)"
    "bv_set (b\<lparr>data := (data b)[pos div 64 := data b ! (pos div 64) AND NOT (push_bit (pos mod 64) 1)]\<rparr>) = bv_set b - {pos}"
proof -
  show p: "pos div 64 < length (data b)" using words_for_less [OF assms(2)] bv_shapeD(2,3) [OF assms(1)] by simp
  show "data b ! (pos div 64) AND push_bit (pos mod 64) 1 \<noteq> 0 \<longleftrightarrow> pos \<in> bv_set b"
    using p unfolding and_bit_eq by (simp add: bv_set_def)
  have q: "pos mod 64 < 64" "64 * (pos div 64) + pos mod 64 = pos" by simp_all
  note upd = bv_set_update [OF p _ q(1), unfolded q(2)]
  show "bv_set (b\<lparr>data := (data b)[pos div 64 := data b ! (pos div 64) OR push_bit (pos mod 64) 1]\<rparr>) = insert pos (bv_set b)"
    by (subst upd [where v = True, OF word_setbit(1) [OF _ q(1)]]) simp_all
  show "bv_set (b\<lparr>data := (data b)[pos div 64 := data b ! (pos div 64) AND NOT (push_bit (pos mod 64) 1)]\<rparr>) = bv_set b - {pos}"
    by (subst upd [where v = False, OF word_setbit(2) [OF _ q(1)]]) simp_all
qed

lemma bv_setbit_eq:
  assumes "bv_shape b" "pos < bsize b"
  shows "bv_setbit pos b = (if pos \<in> bv_set b then b else b\<lparr>data := (data b)[pos div 64 := data b ! (pos div 64) OR push_bit (pos mod 64) 1],
      counter := u32_add (counter b) 1\<rparr>)"
    "bv_resetbit pos b = (if pos \<in> bv_set b then b\<lparr>data := (data b)[pos div 64 := data b ! (pos div 64) AND NOT (push_bit (pos mod 64) 1)],
      counter := u32_sub (counter b) 1\<rparr> else b)"
  using bit_at(2) [OF assms] by (auto simp add: bv_setbit_def bv_resetbit_def Let_def simp del: push_bit_of_1)

lemma u32_sub_1: "0 < c \<Longrightarrow> c < 2 ^ 32 \<Longrightarrow> u32_sub c 1 = c - 1"
  by (cases c) (simp_all add: u32_sub_def)

lemma bv_set_counter [simp]: "bv_set (b\<lparr>counter := c\<rparr>) = bv_set b"
  by (simp add: bv_set_def)

lemma bv_setbit_ok:
  assumes "bv_ok b" "pos < bsize b"
  shows "bv_ok (bv_setbit pos b)" "bv_set (bv_setbit pos b) = insert pos (bv_set b)" "bsize (bv_setbit pos b) = bsize b"
proof -
  have shape: "bv_shape b" and cnt: "counter b = card (bv_set b)" using bv_okD [OF assms(1)] by auto
  note b = bv_shapeD [OF shape] and eq = bv_setbit_eq(1) [OF shape assms(2)] and at = bit_at [OF shape assms(2)]
  show s: "bv_set (bv_setbit pos b) = insert pos (bv_set b)"
    using at(3) unfolding eq by (auto simp: bv_set_def)
  show sz: "bsize (bv_setbit pos b) = bsize b" unfolding eq by simp
  have "counter (bv_setbit pos b) = card (insert pos (bv_set b))"
    using b(1,5,6) cnt unfolding eq by (simp add: u32_add_def insert_absorb)
  moreover have "bv_shape (bv_setbit pos b)"
    unfolding bv_shape_def s sz using assms(2) b(1,2,3) shape by (simp add: eq bv_shape_def)
  ultimately show "bv_ok (bv_setbit pos b)" by (simp add: bv_ok_def s)
qed

lemma bv_resetbit_ok:
  assumes "bv_ok b" "pos < bsize b"
  shows "bv_ok (bv_resetbit pos b)" "bv_set (bv_resetbit pos b) = bv_set b - {pos}" "bsize (bv_resetbit pos b) = bsize b"
proof -
  have shape: "bv_shape b" and cnt: "counter b = card (bv_set b)" using bv_okD [OF assms(1)] by auto
  note b = bv_shapeD [OF shape] and eq = bv_setbit_eq(2) [OF shape assms(2)] and at = bit_at [OF shape assms(2)]
  show s: "bv_set (bv_resetbit pos b) = bv_set b - {pos}"
    using at(4) unfolding eq by (auto simp: bv_set_def)
  show sz: "bsize (bv_resetbit pos b) = bsize b" unfolding eq by simp
  have "pos \<in> bv_set b \<Longrightarrow> 0 < card (bv_set b)" using b(5) by (auto simp: card_gt_0_iff)
  then have "counter (bv_resetbit pos b) = card (bv_set b - {pos})"
    using b(1,5,6) cnt unfolding eq by (simp add: u32_sub_1 [unfolded One_nat_def])
  moreover have "bv_shape (bv_resetbit pos b)"
    unfolding bv_shape_def s sz using b(1,2,3) shape by (auto simp add: eq bv_shape_def)
  ultimately show "bv_ok (bv_resetbit pos b)" by (simp add: bv_ok_def s)
qed

lemma bv_is_allset_iff: "bv_ok b \<Longrightarrow> bv_is_allset b \<longleftrightarrow> bv_set b = {..<bsize b}"
proof -
  assume b: "bv_ok b"
  have sub: "bv_set b \<subseteq> {..<bsize b}" using bv_okD(1) [OF b] by (simp add: bv_shape_def)
  have "counter b = card (bv_set b)" by (rule bv_okD(2) [OF b])
  moreover have "card (bv_set b) = card {..<bsize b} \<Longrightarrow> bv_set b = {..<bsize b}" by (rule card_subset_eq [OF _ sub]) simp
  ultimately show ?thesis unfolding bv_is_allset_def by (metis card_lessThan)
qed

lemma count_wordwise:
  assumes "bv_shape a" "\<And>i. i < wsize a \<Longrightarrow> f i = data a ! i"
  shows "sum_words (wsize a) (\<lambda>i. count64 (f i)) = card (bv_set a)"
  using card_bits [of "data a" "wsize a"] bv_shapeD(3) [OF assms(1)] assms(2)
  by (simp add: sum_words_eq count64_eq bv_set_def)

lemma count_ops:
  assumes "bv_shape a" "bv_shape b" "bsize b = bsize a"
  shows "count_or a b = card (bv_set a \<union> bv_set b)" "count_and a b = card (bv_set a \<inter> bv_set b)"
proof -
  note a = bv_shapeD [OF assms(1)]
  have sh: "bv_shape (bv_or_count b a)" "bv_shape (bv_and_count b a)"
    using bv_or_count_ok(1) [OF assms] bv_and_count_ok(1) [OF assms] bv_okD(1) by blast+
  show "count_or a b = card (bv_set a \<union> bv_set b)"
    using count_wordwise [OF sh(1), of "\<lambda>i. data a ! i OR data b ! i"] bv_or_count_ok(2) [OF assms] assms(3) a(3)
    by (simp add: count_or_def bv_or_count_def nth_for_words)
  show "count_and a b = card (bv_set a \<inter> bv_set b)"
    using count_wordwise [OF sh(2), of "\<lambda>i. data a ! i AND data b ! i"] bv_and_count_ok(2) [OF assms] assms(3) a(3)
    by (simp add: count_and_def bv_and_count_def nth_for_words)
qed

lemma count_mask_ops:
  assumes "bv_shape a" "bv_shape b" "bv_shape m" "bsize b = bsize a" "bsize m = bsize a"
  shows "count_or_mask a b m = card ((bv_set a \<union> bv_set b) - bv_set m)"
    "count_and_mask a b m = card ((bv_set a \<inter> bv_set b) - bv_set m)"
proof -
  note a = bv_shapeD [OF assms(1)]
  have sh: "bv_shape (bv_or_count b a)" "bv_shape (bv_and_count b a)"
    using bv_or_count_ok(1) [OF assms(1,2,4)] bv_and_count_ok(1) [OF assms(1,2,4)] bv_okD(1) by blast+
  have sz: "bsize m = bsize (bv_or_count b a)" "bsize m = bsize (bv_and_count b a)"
    using assms(5) by (simp_all add: bv_or_count_def bv_and_count_def)
  note either = bv_mask_count_ok [OF sh(1) assms(3) sz(1)] and both = bv_mask_count_ok [OF sh(2) assms(3) sz(2)]
  show "count_or_mask a b m = card ((bv_set a \<union> bv_set b) - bv_set m)"
    using count_wordwise [OF bv_okD(1) [OF either(1)], of "\<lambda>i. (data a ! i OR data b ! i) AND NOT (data m ! i)"]
      either(2) bv_or_count_ok(2) [OF assms(1,2,4)] assms(4,5) a(3)
    by (simp add: count_or_mask_def bv_mask_count_def bv_or_count_def nth_for_words)
  show "count_and_mask a b m = card ((bv_set a \<inter> bv_set b) - bv_set m)"
    using count_wordwise [OF bv_okD(1) [OF both(1)], of "\<lambda>i. (data a ! i AND data b ! i) AND NOT (data m ! i)"]
      both(2) bv_and_count_ok(2) [OF assms(1,2,4)] assms(4,5) a(3)
    by (simp add: count_and_mask_def bv_mask_count_def bv_and_count_def nth_for_words)
qed

section \<open>Searching\<close>

definition no_ones :: "bitvector \<Rightarrow> nat \<Rightarrow> nat \<Rightarrow> bool" where
  "no_ones b lo hi \<longleftrightarrow> (\<forall>i. lo \<le> i \<longrightarrow> i < hi \<longrightarrow> i \<notin> bv_set b)"

definition first_from :: "bitvector \<Rightarrow> nat \<Rightarrow> nat \<Rightarrow> bool" where
  "first_from b lo q \<longleftrightarrow> q \<in> bv_set b \<and> lo \<le> q \<and> no_ones b lo q"

lemma scan_word_spec:
  assumes "s \<le> 64"
  shows "case scan_word d pos s lim of
      (Some q, _) \<Rightarrow> \<exists>k<min (64 - s) (lim - pos). q = pos + k \<and> bit d k \<and> (\<forall>i<k. \<not> bit d i)
    | (None, e) \<Rightarrow> e = pos + min (64 - s) (lim - pos) \<and> (\<forall>i<min (64 - s) (lim - pos). \<not> bit d i)"
  using assms
proof (induction "64 - s" arbitrary: d pos s)
  case 0
  then show ?case by (simp add: scan_word.simps)
next
  case (Suc n)
  have one: "d AND 1 \<noteq> 0 \<longleftrightarrow> bit d 0" by (simp add: and_one_eq odd_iff_mod_2_eq_one bit_0)
  show ?case
  proof (cases "pos < lim")
    case False
    then show ?thesis by (simp add: scan_word.simps)
  next
    case True
    let ?m = "min (64 - Suc s) (lim - Suc pos)"
    have s: "s < 64" using Suc.hyps(2) by simp
    have m: "min (64 - s) (lim - pos) = Suc ?m" using True s by auto
    show ?thesis
    proof (cases "bit d 0")
      case True
      then show ?thesis using \<open>pos < lim\<close> s one m by (subst scan_word.simps) auto
    next
      case False
      have eq: "scan_word d pos s lim = scan_word (drop_bit 1 d) (Suc pos) (Suc s) lim"
        using False True s one by (subst scan_word.simps) simp
      have IH: "case scan_word (drop_bit 1 d) (Suc pos) (Suc s) lim of
          (Some q, _) \<Rightarrow> \<exists>k<?m. q = Suc pos + k \<and> bit (drop_bit 1 d) k \<and> (\<forall>i<k. \<not> bit (drop_bit 1 d) i)
        | (None, e) \<Rightarrow> e = Suc pos + ?m \<and> (\<forall>i<?m. \<not> bit (drop_bit 1 d) i)"
        by (rule Suc.hyps(1)) (use Suc.hyps(2) s in simp_all)
      have all: "(\<forall>i<Suc k. \<not> bit d i) \<longleftrightarrow> (\<forall>i<k. \<not> bit (drop_bit 1 d) i)" for k
        using False by (simp add: bit_drop_bit_eq All_less_Suc2)
      show ?thesis
      proof (cases "scan_word (drop_bit 1 d) (Suc pos) (Suc s) lim")
        case (Pair h e)
        show ?thesis
        proof (cases h)
          case None
          then show ?thesis using IH Pair by (simp add: eq m all)
        next
          case (Some q)
          then obtain k where "k < ?m" "q = Suc pos + k" "bit (drop_bit 1 d) k" "\<forall>i<k. \<not> bit (drop_bit 1 d) i"
            using IH Pair by auto
          then have "Suc k < Suc ?m \<and> q = pos + Suc k \<and> bit d (Suc k) \<and> (\<forall>i<Suc k. \<not> bit d i)"
            using all [of k] by (simp add: bit_drop_bit_eq)
          then show ?thesis using Pair Some unfolding eq m by auto
        qed
      qed
    qed
  qed
qed

text \<open>The scan of a word from bit \<open>p2\<close> on, in terms of the set.\<close>

lemma scan_word_set:
  assumes "bv_shape b" "p1 < wsize b" "p2 < 64" "lim \<le> p1 * 64 + 64" "p1 * 64 + p2 \<le> lim"
  shows "case scan_word (drop_bit p2 (data b ! p1)) (p1 * 64 + p2) p2 lim of
      (Some q, _) \<Rightarrow> first_from b (p1 * 64 + p2) q
    | (None, e) \<Rightarrow> e = lim \<and> no_ones b (p1 * 64 + p2) lim"
proof -
  let ?lo = "p1 * 64 + p2" and ?d = "drop_bit p2 (data b ! p1)"
  have p: "p1 < length (data b)" using assms(2) bv_shapeD(3) [OF assms(1)] by simp
  have mem: "?lo + k \<in> bv_set b \<longleftrightarrow> bit ?d k" if "k < 64 - p2" for k
  proof -
    have "(p1 * 64 + (p2 + k)) div 64 = p1" "(p1 * 64 + (p2 + k)) mod 64 = p2 + k" using that by auto
    then have "(?lo + k) div 64 = p1" "(?lo + k) mod 64 = p2 + k" by (simp_all only: add.assoc)
    then show ?thesis using p by (simp add: bv_set_def bit_drop_bit_eq)
  qed
  have none: "no_ones b ?lo (?lo + k)" if "\<forall>i<k. \<not> bit ?d i" "k \<le> 64 - p2" for k
    unfolding no_ones_def
  proof (intro allI impI)
    fix i assume i: "?lo \<le> i" "i < ?lo + k"
    then obtain j where "i = ?lo + j" using le_Suc_ex by blast
    then show "i \<notin> bv_set b" using i that mem [of j] by simp
  qed
  have m: "min (64 - p2) (lim - ?lo) = lim - ?lo" using assms(4) by simp
  note spec = scan_word_spec [where s = p2 and d = ?d and pos = ?lo and lim = lim, unfolded m]
  show ?thesis
  proof (cases "scan_word ?d ?lo p2 lim")
    case (Pair h e)
    show ?thesis
    proof (cases h)
      case None
      then have "e = ?lo + (lim - ?lo)" "\<forall>i<lim - ?lo. \<not> bit ?d i" using spec Pair assms(3) by simp_all
      then show ?thesis using none [of "lim - ?lo"] Pair None assms(4,5) by simp
    next
      case (Some q)
      then obtain k where "k < lim - ?lo" "q = ?lo + k" "bit ?d k" "\<forall>i<k. \<not> bit ?d i" using spec Pair assms(3) by auto
      then show ?thesis using mem [of k] none [of k] Pair Some assms(4) by (simp add: first_from_def)
    qed
  qed
qed

lemma no_ones_zero:
  assumes "bv_shape b" "p1 < wsize b" "p2 < 64" "drop_bit p2 (data b ! p1) = 0"
  shows "no_ones b (p1 * 64 + p2) (p1 * 64 + 64)"
  unfolding no_ones_def
proof (intro allI impI)
  fix i assume i: "p1 * 64 + p2 \<le> i" "i < p1 * 64 + 64"
  then obtain k where k: "i = p1 * 64 + (p2 + k)" using le_Suc_ex by (metis add.assoc)
  then have "i div 64 = p1" "i mod 64 = p2 + k" using i by auto
  then show "i \<notin> bv_set b" using assms(4) by (metis (no_types, lifting) bit_0_eq bit_drop_bit_eq bot_apply bot_bool_def bv_set_def comp_apply mem_Collect_eq)
qed

lemma no_ones_trans: "no_ones b lo mid \<Longrightarrow> no_ones b mid hi \<Longrightarrow> no_ones b lo hi"
  by (metis no_ones_def not_le)

lemma first_from_later: "no_ones b lo mid \<Longrightarrow> lo \<le> mid \<Longrightarrow> first_from b mid q \<Longrightarrow> first_from b lo q"
  using no_ones_trans [of b lo mid q] by (auto simp: first_from_def)

lemma word_step:
  assumes "bv_shape b" "p1 < wsize b" "lim \<le> p1 * 64 + 64" "p1 * 64 \<le> lim"
  shows "case (if data b ! p1 \<noteq> 0 then fst (scan_word (data b ! p1) (p1 * 64) 0 lim) else None) of
      Some q \<Rightarrow> first_from b (p1 * 64) q | None \<Rightarrow> no_ones b (p1 * 64) lim"
proof (cases "data b ! p1 = 0")
  case True
  then have "no_ones b (p1 * 64) (p1 * 64 + 64)" using no_ones_zero [OF assms(1,2), of 0] by simp
  then show ?thesis using True assms(3) by (simp add: no_ones_def)
next
  case False
  then show ?thesis using scan_word_set [OF assms(1,2), of 0 lim] assms(3,4) by (auto split: prod.splits option.splits)
qed

lemma scan_words_spec:
  assumes "bv_shape b"
  shows "case scan_words (data b) (wsize b) p1 of
      Inl q \<Rightarrow> first_from b (p1 * 64) q
    | Inr p \<Rightarrow> p = max p1 (wsize b - 1) \<and> no_ones b (p1 * 64) (p * 64)"
proof (induction "wsize b - p1" arbitrary: p1 rule: less_induct)
  case less
  show ?case
  proof (cases "p1 < wsize b - 1")
    case False
    then show ?thesis by (subst scan_words.simps) (simp add: no_ones_def max_def)
  next
    case True
    let ?h = "if data b ! p1 \<noteq> 0 then fst (scan_word (data b ! p1) (p1 * 64) 0 (p1 * 64 + 64)) else None"
    have step: "case ?h of Some q \<Rightarrow> first_from b (p1 * 64) q | None \<Rightarrow> no_ones b (p1 * 64) (p1 * 64 + 64)"
      by (rule word_step [OF assms]) (use True in simp_all)
    have eq: "scan_words (data b) (wsize b) p1 = (case ?h of Some q \<Rightarrow> Inl q | None \<Rightarrow> scan_words (data b) (wsize b) (p1 + 1))"
      using True by (subst scan_words.simps) simp
    show ?thesis
    proof (cases ?h)
      case (Some q)
      then show ?thesis using step unfolding eq by simp
    next
      case None
      then have no: "no_ones b (p1 * 64) ((p1 + 1) * 64)" using step by (simp add: algebra_simps)
      have IH: "case scan_words (data b) (wsize b) (p1 + 1) of
          Inl q \<Rightarrow> first_from b ((p1 + 1) * 64) q
        | Inr p \<Rightarrow> p = max (p1 + 1) (wsize b - 1) \<and> no_ones b ((p1 + 1) * 64) (p * 64)"
        by (rule less.hyps) (use True in simp)
      show ?thesis
      proof (cases "scan_words (data b) (wsize b) (p1 + 1)")
        case (Inl q)
        then have "first_from b ((p1 + 1) * 64) q" using IH by simp
        then have "first_from b (p1 * 64) q" using first_from_later [OF no] by simp
        then show ?thesis using Inl None unfolding eq by simp
      next
        case (Inr p)
        have "p = max (p1 + 1) (wsize b - 1) \<and> no_ones b ((p1 + 1) * 64) (p * 64)"
          using IH unfolding Inr sum.case .
        then have p: "p = max (p1 + 1) (wsize b - 1)" "no_ones b ((p1 + 1) * 64) (p * 64)" by blast+
        then have "no_ones b (p1 * 64) (p * 64)" using no_ones_trans [OF no] by blast
        then show ?thesis using Inr None p(1) True unfolding eq by simp
      qed
    qed
  qed
qed

text \<open>
  The result of \<open>next_set\<close> does not depend on the word behind the array, although the code reads it
  whenever no one follows in the last word.
\<close>

lemma bv_next_set_ok:
  assumes "bv_shape b" "-1 \<le> pos"
  shows "bv_next_set oob b pos = bsize b \<and> no_ones b (nat (pos + 1)) (bsize b) \<or>
    first_from b (nat (pos + 1)) (bv_next_set oob b pos)"
proof (cases "int (bsize b) \<le> pos + 1")
  case True
  then show ?thesis by (auto simp: bv_next_set_def no_ones_def)
next
  case False
  define lo where "lo = nat (pos + 1)"
  have lo: "lo < bsize b" "\<not> pos + 1 < 0" using False assms(2) by (auto simp: lo_def)
  define p1 p2 where "p1 = lo div 64" and "p2 = lo mod 64"
  have p: "lo = p1 * 64 + p2" "p2 < 64" by (simp_all add: p1_def p2_def)
  note b = bv_shapeD [OF assms(1)]
  have W: "p1 < wsize b" using words_for_less [OF lo(1)] b(2) by (simp add: p1_def)
  let ?n = "bsize b" and ?d = "drop_bit p2 (data b ! p1)"
  let ?lim = "min ?n (p1 * 64 + 64)"
  let ?s = "if ?d \<noteq> 0 then scan_word ?d lo p2 ?n else (None, lo)"
  let ?last = "\<lambda>q1. case (if word_at oob (data b) q1 \<noteq> 0 then fst (scan_word (word_at oob (data b) q1) (q1 * 64) 0 ?n) else None) of
      Some q \<Rightarrow> q | None \<Rightarrow> ?n"
  let ?rest = "case scan_words (data b) (wsize b) (p1 + 1) of Inl q \<Rightarrow> q | Inr q1 \<Rightarrow> ?last q1"
  have eq: "bv_next_set oob b pos = (case fst ?s of Some q \<Rightarrow> q | None \<Rightarrow>
      if ?d \<noteq> 0 \<and> ?n \<le> snd ?s then ?n else ?rest)"
    using False lo(2) unfolding bv_next_set_def Let_def lo_def [symmetric] p1_def [symmetric] p2_def [symmetric]
    by (simp split: prod.splits)
  have lim: "scan_word ?d lo p2 ?n = scan_word ?d lo p2 ?lim"
  proof -
    have "fst (scan_word d x k ?n) = fst (scan_word d x k ?lim) \<and> snd (scan_word d x k ?n) = snd (scan_word d x k ?lim)"
      if "x + 64 = p1 * 64 + 64 + k" "k \<le> 64" for d x k
      using that
    proof (induction "64 - k" arbitrary: d x k)
      case 0
      then show ?case by (simp add: scan_word.simps)
    next
      case (Suc j)
      have k: "k < 64" using Suc.hyps(2) by simp
      then have "x < ?n \<longleftrightarrow> x < ?lim" using Suc.prems(1) by simp
      then show ?case
        using Suc.hyps(1) [of "Suc k" "Suc x" "drop_bit 1 d"] Suc.hyps(2) Suc.prems(1) k
        by (subst (1 2 3 4) scan_word.simps) simp
    qed
    then show ?thesis using p by (simp add: prod_eq_iff)
  qed
  show ?thesis
  proof (cases "fst ?s")
    case (Some q)
    then have d: "?d \<noteq> 0" and s: "fst (scan_word ?d lo p2 ?lim) = Some q" using lim by (auto split: if_splits)
    have "first_from b lo q"
      using scan_word_set [OF assms(1) W p(2), of ?lim] s p lo(1) by (auto split: prod.splits)
    then show ?thesis using Some by (simp add: eq lo_def)
  next
    case None
    have first: "no_ones b lo ?lim"
    proof (cases "?d = 0")
      case True
      then show ?thesis using no_ones_zero [OF assms(1) W p(2)] p(1) by (simp add: no_ones_def)
    next
      case False
      then show ?thesis
        using scan_word_set [OF assms(1) W p(2), of ?lim] None p lo(1) lim by (auto split: prod.splits)
    qed
    have e: "snd ?s = ?lim" if "?d \<noteq> 0"
      using scan_word_set [OF assms(1) W p(2), of ?lim] None that p lo(1) lim by (auto split: prod.splits)
    show ?thesis
    proof (cases "?d \<noteq> 0 \<and> ?n \<le> snd ?s")
      case True
      then have "no_ones b lo ?n" using first e by (simp add: min_def split: if_splits)
      moreover have "bv_next_set oob b pos = ?n" unfolding eq None option.case if_P [OF True] ..
      ultimately show ?thesis by (simp add: lo_def)
    next
      case False
      have no1: "no_ones b lo ((p1 + 1) * 64)"
        using first b(4) by (auto simp: no_ones_def)
      have rest: "bv_next_set oob b pos = ?rest" using False None by (simp only: eq option.case if_False)
      show ?thesis
      proof (cases "scan_words (data b) (wsize b) (p1 + 1)")
        case (Inl q)
        have "first_from b ((p1 + 1) * 64) q" using scan_words_spec [OF assms(1), of "p1 + 1"] unfolding Inl by (simp only: sum.case)
        then have "first_from b lo q" using first_from_later [OF no1] p by simp
        then show ?thesis unfolding rest Inl by (simp add: lo_def)
      next
        case (Inr q1)
        have "q1 = max (p1 + 1) (wsize b - 1) \<and> no_ones b ((p1 + 1) * 64) (q1 * 64)"
          using scan_words_spec [OF assms(1), of "p1 + 1"] unfolding Inr sum.case .
        then have q1: "q1 = max (p1 + 1) (wsize b - 1)" "no_ones b ((p1 + 1) * 64) (q1 * 64)" by blast+
        have no2: "no_ones b lo (q1 * 64)" by (rule no_ones_trans [OF no1 q1(2)])
        have r: "bv_next_set oob b pos = ?last q1" unfolding rest Inr by (simp only: sum.case)
        show ?thesis
        proof (cases "q1 < wsize b")
          case True
          have "wsize b \<le> q1 + 1" using q1(1) by (simp add: max_def split: if_splits)
          then have "64 * wsize b \<le> q1 * 64 + 64" by linarith
          then have n: "?n \<le> q1 * 64 + 64" using words_for_bounds(1) [of ?n] b(2) by simp
          show ?thesis
          proof (cases "q1 * 64 \<le> ?n")
            case le: True
            have w: "word_at oob (data b) q1 = data b ! q1" using True b(3) by (simp add: word_at_def)
            have "case (if data b ! q1 \<noteq> 0 then fst (scan_word (data b ! q1) (q1 * 64) 0 ?n) else None) of
              Some q \<Rightarrow> first_from b (q1 * 64) q | None \<Rightarrow> no_ones b (q1 * 64) ?n"
              by (rule word_step [OF assms(1) True n le])
            moreover have "p1 + 1 \<le> q1" using q1(1) by simp
            then have "lo \<le> q1 * 64" using p by linarith
            ultimately show ?thesis
              using no_ones_trans [OF no2, of ?n] first_from_later [OF no2] unfolding r w lo_def [symmetric]
              by (cases "if data b ! q1 \<noteq> 0 then fst (scan_word (data b ! q1) (q1 * 64) 0 ?n) else None") simp_all
          next
            case gt: False
            then have "64 * words_for ?n < q1 * 64 + 64" using words_for_bounds(2) [of ?n] by simp
            then show ?thesis using True b(2) by simp
          qed
        next
          case False
          then have "?n \<le> q1 * 64" using words_for_bounds(1) [of ?n] b(2) by simp
          then have "fst (scan_word d (q1 * 64) 0 ?n) = None" for d by (subst scan_word.simps) simp
          then have "?last q1 = ?n" by simp
          moreover have "no_ones b lo ?n" using no2 \<open>?n \<le> q1 * 64\<close> by (simp add: no_ones_def)
          ultimately show ?thesis unfolding r by (simp add: lo_def)
        qed
      qed
    qed
  qed
qed

section \<open>Properties\<close>

text \<open>
  \<open>count64\<close> is the number of ones of a 64-bit word, for every word.
\<close>

theorem count64_correct: "count64 w = card {j. j < 64 \<and> bit w j}"
  by (rule count64_eq)


text \<open>\<open>not_count\<close> also inverts the bits behind the size; counting again then gives too many.\<close>

lemma bv_not_count_stray:
  "bv_ok (bv_new 3) \<and> counter (bv_not_count (bv_new 3)) = 3 \<and> counter (bv_recount (bv_not_count (bv_new 3))) = 64 \<and>
   \<not> bv_ok (bv_not_count (bv_new 3))"
proof -
  have new: "bv_new 3 = \<lparr>bsize = 3, wsize = 1, counter = 0, data = [0]\<rparr>"
    by (simp add: bv_new_def bv_set_size_def words_for_def vec_resize_def for_words_def bv_empty_def)
  have neg: "bv_not_count (bv_new 3) = \<lparr>bsize = 3, wsize = 1, counter = 3, data = [NOT 0]\<rparr>"
    by (simp add: new bv_not_count_def for_words_def u32_sub_def)
  have "(NOT 0 :: u64) = 0xFFFFFFFFFFFFFFFF" by simp
  then have c: "counter (bv_recount (bv_not_count (bv_new 3))) = 64"
    unfolding neg by (simp add: bv_recount_def recount_word_def u32_add_def)
  have "5 \<in> bv_set (bv_not_count (bv_new 3))" unfolding neg by (simp add: bv_set_def bit_not_iff)
  then have "\<not> bv_ok (bv_not_count (bv_new 3))"
    using bv_shapeD(4) [OF bv_okD(1), of "bv_not_count (bv_new 3)" 5] by (auto simp: neg)
  then show ?thesis using c bv_new_ok(1) [of 3] by (simp add: neg)
qed


text \<open>
  C11 (refinement). On vectors with the invariant the operations are those of finite sets of
  positions, and \<open>count\<close> and the four functions of \<open>bitop.cpp\<close> return the sizes of the sets.
\<close>

theorem bitvector_refines_sets:
  assumes "bv_ok b" "bv_ok c" "bv_ok m" "bsize c = bsize b" "bsize m = bsize b" "pos < bsize b" "bsize b \<le> n" "n < 2 ^ 31"
  shows "bv_set (bv_new n) = {} \<and> bv_set (bv_clear b) = {} \<and> bv_set (bv_setall b) = {..<bsize b} \<and>
    bv_set (bv_resize n b) = bv_set b \<and> bv_set (bv_copy c b) = bv_set c \<and>
    bv_set (bv_setbit pos b) = insert pos (bv_set b) \<and> bv_set (bv_resetbit pos b) = bv_set b - {pos} \<and>
    bv_set (bv_or_count c b) = bv_set b \<union> bv_set c \<and> bv_set (bv_and_count c b) = bv_set b \<inter> bv_set c \<and>
    bv_set (bv_mask_count c b) = bv_set b - bv_set c \<and>
    (bv_is_set b pos \<longleftrightarrow> pos \<in> bv_set b) \<and> (bv_is_allset b \<longleftrightarrow> bv_set b = {..<bsize b}) \<and>
    counter b = card (bv_set b) \<and> count_or b c = card (bv_set b \<union> bv_set c) \<and>
    count_and b c = card (bv_set b \<inter> bv_set c) \<and>
    count_or_mask b c m = card ((bv_set b \<union> bv_set c) - bv_set m) \<and>
    count_and_mask b c m = card ((bv_set b \<inter> bv_set c) - bv_set m)"
proof -
  have sh: "bv_shape b" "bv_shape c" "bv_shape m" using assms(1-3) bv_okD(1) by blast+
  have "0 < bsize b" using assms(6) by simp
  then show ?thesis
    using bv_new_ok(2) [OF assms(8)] bv_resize_ok(2) [OF assms(1,7,8)]
      bv_copy_eq [OF sh(2), of b] bv_clear_ok(2) [OF sh(1)] bv_setall_ok(2) [OF sh(1)]
      bv_setbit_ok(2) [OF assms(1,6)] bv_resetbit_ok(2) [OF assms(1,6)] bv_is_set_iff [OF sh(1) assms(6)]
      bv_or_count_ok(2) [OF sh(1,2) assms(4)] bv_and_count_ok(2) [OF sh(1,2) assms(4)] bv_mask_count_ok(2) [OF sh(1,2) assms(4)]
      bv_is_allset_iff [OF assms(1)] bv_okD(2) [OF assms(1)] count_ops [OF sh(1,2) assms(4)]
      count_mask_ops [OF sh assms(4,5)]
    by (intro conjI) simp_all
qed

theorem bitvector_refines_sets_witness:
  "bv_set (bv_new 80) = {} \<and> bv_set (bv_clear (bv_new 70)) = {} \<and> bv_set (bv_setall (bv_new 70)) = {..<bsize (bv_new 70)} \<and>
    bv_set (bv_resize 80 (bv_new 70)) = bv_set (bv_new 70) \<and> bv_set (bv_copy (bv_setbit 3 (bv_new 70)) (bv_new 70)) = bv_set (bv_setbit 3 (bv_new 70)) \<and>
    bv_set (bv_setbit 65 (bv_new 70)) = insert 65 (bv_set (bv_new 70)) \<and> bv_set (bv_resetbit 65 (bv_new 70)) = bv_set (bv_new 70) - {65} \<and>
    bv_set (bv_or_count (bv_setbit 3 (bv_new 70)) (bv_new 70)) = bv_set (bv_new 70) \<union> bv_set (bv_setbit 3 (bv_new 70)) \<and>
    bv_set (bv_and_count (bv_setbit 3 (bv_new 70)) (bv_new 70)) = bv_set (bv_new 70) \<inter> bv_set (bv_setbit 3 (bv_new 70)) \<and>
    bv_set (bv_mask_count (bv_setbit 3 (bv_new 70)) (bv_new 70)) = bv_set (bv_new 70) - bv_set (bv_setbit 3 (bv_new 70)) \<and>
    (bv_is_set (bv_new 70) 65 \<longleftrightarrow> 65 \<in> bv_set (bv_new 70)) \<and> (bv_is_allset (bv_new 70) \<longleftrightarrow> bv_set (bv_new 70) = {..<bsize (bv_new 70)}) \<and>
    counter (bv_new 70) = card (bv_set (bv_new 70)) \<and>
    count_or (bv_new 70) (bv_setbit 3 (bv_new 70)) = card (bv_set (bv_new 70) \<union> bv_set (bv_setbit 3 (bv_new 70))) \<and>
    count_and (bv_new 70) (bv_setbit 3 (bv_new 70)) = card (bv_set (bv_new 70) \<inter> bv_set (bv_setbit 3 (bv_new 70))) \<and>
    count_or_mask (bv_new 70) (bv_setbit 3 (bv_new 70)) (bv_new 70) =
      card ((bv_set (bv_new 70) \<union> bv_set (bv_setbit 3 (bv_new 70))) - bv_set (bv_new 70)) \<and>
    count_and_mask (bv_new 70) (bv_setbit 3 (bv_new 70)) (bv_new 70) =
      card ((bv_set (bv_new 70) \<inter> bv_set (bv_setbit 3 (bv_new 70))) - bv_set (bv_new 70))"
  by (rule bitvector_refines_sets) (simp_all add: bv_new_ok bv_setbit_ok)

text \<open>
  \<open>next_set\<close> returns the first one behind the position, and the size when there
  is none, whatever word the code finds behind the array.
\<close>

theorem bv_next_set_correct:
  assumes "bv_ok b" "-1 \<le> pos"
  shows "let q = bv_next_set oob b pos in
    if \<exists>i\<in>bv_set b. pos < int i then q \<in> bv_set b \<and> pos < int q \<and> (\<forall>i\<in>bv_set b. pos < int i \<longrightarrow> q \<le> i)
    else q = bsize b"
proof -
  let ?q = "bv_next_set oob b pos"
  have ge: "pos < int i \<longleftrightarrow> nat (pos + 1) \<le> i" for i using assms(2) by auto
  have sub: "i < bsize b" if "i \<in> bv_set b" for i using bv_shapeD(4) [OF bv_okD(1) [OF assms(1)] that] .
  from bv_next_set_ok [OF bv_okD(1) [OF assms(1)] assms(2), of oob] show ?thesis
  proof
    assume n: "?q = bsize b \<and> no_ones b (nat (pos + 1)) (bsize b)"
    then have "\<not> (\<exists>i\<in>bv_set b. pos < int i)" using sub unfolding ge no_ones_def by blast
    then show ?thesis using n by (simp add: Let_def)
  next
    assume f: "first_from b (nat (pos + 1)) ?q"
    then have "?q \<in> bv_set b" "pos < int ?q" unfolding first_from_def ge by blast+
    moreover have "\<forall>i\<in>bv_set b. pos < int i \<longrightarrow> ?q \<le> i"
      using f unfolding first_from_def ge no_ones_def by (meson not_le)
    ultimately show ?thesis by (auto simp: Let_def)
  qed
qed

theorem bv_next_set_witness:
  "let q = bv_next_set 7 (bv_setbit 65 (bv_new 70)) 3 in
    if \<exists>i\<in>bv_set (bv_setbit 65 (bv_new 70)). 3 < int i
    then q \<in> bv_set (bv_setbit 65 (bv_new 70)) \<and> 3 < int q \<and> (\<forall>i\<in>bv_set (bv_setbit 65 (bv_new 70)). 3 < int i \<longrightarrow> q \<le> i)
    else q = bsize (bv_setbit 65 (bv_new 70))"
  by (rule bv_next_set_correct) (simp_all add: bv_new_ok bv_setbit_ok)

end
