(* ===== verification/Sc_Cover.thy ===== *)
theory Sc_Cover
  imports Sc_Bitvector
begin

text \<open>
  \<open>src/setcover/setcover.cpp\<close>, the parts on which the set cover is built: the covering test on words
  (\<open>IsSolutionLite\<close>), the removal of covered rows (\<open>RemoveRowCol1\<close>), the excluded solutions and the
  searches for solutions of two, three and four columns. The locale \<open>row_vectors\<close> is the interface to the
  bit vectors; \<open>covers\<close> says in sets of rows what the test decides. A result \<open>None\<close> is a read of an element
  outside a vector. Sums of weights are numbers without wrap-around, which the 32-bit sums of the
  code are for up to 2^29 rows.
\<close>

unbundle bit_operations_syntax

section \<open>The code\<close>

text \<open>
  Columns and rows of the covering matrix are lists of bit vectors. Positions of columns are
  numbers; a set of positions that the code walks in order (\<open>set<int>\<close>) is a sorted list.
\<close>

type_synonym matrix = "bitvector list"

definition all_ones :: u64 where
  "all_ones = 0xFFFFFFFFFFFFFFFF"

subsection \<open>Removing covered rows\<close>

text \<open>The positions that the loop over \<open>next_set\<close> visits, from \<open>nn\<close> on.\<close>

lemma scan_word_ge: "fst (scan_word d pos p2 lim) = Some q \<Longrightarrow> pos \<le> q"
  by (induction d pos p2 lim rule: scan_word.induct) (auto simp: scan_word.simps split: if_splits)

lemma scan_words_ge:
  "case scan_words ws n p1 of Inl q \<Rightarrow> p1 * 64 \<le> q | Inr r \<Rightarrow> p1 \<le> r"
proof (induction ws n p1 rule: scan_words.induct)
  case (1 ws n p1)
  let ?hit = "if ws ! p1 \<noteq> 0 then fst (scan_word (ws ! p1) (p1 * 64) 0 (p1 * 64 + 64)) else None"
  show ?case
  proof (cases "p1 < n - 1 \<and> ?hit = None")
    case True
    then have "scan_words ws n p1 = scan_words ws n (p1 + 1)" by (subst scan_words.simps) simp
    then show ?thesis using "1.IH" [of] True by (auto split: sum.splits)
  next
    case False
    show ?thesis
    proof (cases "p1 < n - 1")
      case True
      then obtain q where q: "?hit = Some q" using False by auto
      then have "p1 * 64 \<le> q" using scan_word_ge by (auto split: if_splits)
      moreover have "scan_words ws n p1 = Inl q" using True q by (subst scan_words.simps) simp
      ultimately show ?thesis by simp
    qed (subst scan_words.simps, simp)
  qed
qed

lemma bv_next_set_gt: "pos < int (bv_next_set oob b pos) \<or> bv_next_set oob b pos = bsize b"
proof (cases "pos + 1 < 0 \<or> int (bsize b) \<le> pos + 1")
  case False
  define p where "p = nat (pos + 1)"
  have p: "int p = pos + 1" using False by (simp add: p_def)
  have far: "p < (p div 64 + 1) * 64" by (simp add: div_less_iff_less_mult flip: less_Suc_eq_le)
  have later: "pos < int q" if "p \<le> q" for q using that p by simp
  have last: "pos < int q" if "fst (scan_word d (r * 64) 0 (bsize b)) = Some q" "Suc (p div 64) \<le> r" for d r q
  proof -
    have "r * 64 \<le> q" using that(1) by (rule scan_word_ge)
    moreover have "(p div 64 + 1) * 64 \<le> r * 64" using that(2) by simp
    ultimately show ?thesis using far later [of q] by linarith
  qed
  have mid: "case scan_words (data b) (wsize b) (p div 64 + 1) of Inl q \<Rightarrow> (p div 64 + 1) * 64 \<le> q | Inr r \<Rightarrow> p div 64 + 1 \<le> r"
    by (rule scan_words_ge)
  obtain hit e where scan: "(if drop_bit (p mod 64) (data b ! (p div 64)) \<noteq> 0
      then scan_word (drop_bit (p mod 64) (data b ! (p div 64))) p (p mod 64) (bsize b) else (None, p)) = (hit, e)"
    by (metis surj_pair)
  have first: "pos < int q" if "hit = Some q" for q
    using scan that scan_word_ge [of "drop_bit (p mod 64) (data b ! (p div 64))" p "p mod 64" "bsize b" q] later
    by (auto split: if_splits)
  have sc: "pos < int q" if "scan_words (data b) (wsize b) (p div 64 + 1) = Inl q" for q
    using mid far later [of q] that by simp
  have eq: "bv_next_set oob b pos = (case hit of Some q \<Rightarrow> q | None \<Rightarrow>
       if drop_bit (p mod 64) (data b ! (p div 64)) \<noteq> 0 \<and> bsize b \<le> e then bsize b else
       (case scan_words (data b) (wsize b) (p div 64 + 1) of
          Inl q \<Rightarrow> q
        | Inr p1 \<Rightarrow>
          (case (if word_at oob (data b) p1 \<noteq> 0 then fst (scan_word (word_at oob (data b) p1) (p1 * 64) 0 (bsize b)) else None) of
            Some q \<Rightarrow> q
          | None \<Rightarrow> bsize b)))"
    using False scan unfolding bv_next_set_def Let_def p_def [symmetric] by (simp only: if_False prod.case)
  show ?thesis unfolding eq
    using first sc mid by (auto dest: last split: option.splits sum.splits)
qed (auto simp: bv_next_set_def)

function set_positions :: "u64 \<Rightarrow> bitvector \<Rightarrow> nat \<Rightarrow> nat list" where
  "set_positions oob b nn =
    (if nn < bsize b then nn # set_positions oob b (bv_next_set oob b (int nn)) else [])"
  by pat_completeness auto
termination
proof (relation "measure (\<lambda>(oob, b, nn). bsize b - nn)", simp)
  fix oob and b :: bitvector and nn assume "nn < bsize b"
  then show "((oob, b, bv_next_set oob b (int nn)), oob, b, nn) \<in> measure (\<lambda>(oob, b, nn). bsize b - nn)"
    using bv_next_set_gt [of "int nn" oob b] by auto
qed

declare set_positions.simps [simp del]

definition RemoveRowCol1 :: "u64 \<Rightarrow> matrix \<Rightarrow> matrix \<Rightarrow> bitvector \<Rightarrow> matrix \<times> matrix" where
  "RemoveRowCol1 oob cols rows rowmask =
    (map (bv_mask_count rowmask) cols,
     fold (\<lambda>nn rows. rows[nn := bv_clear (rows ! nn)]) (set_positions oob rowmask (bv_next_set oob rowmask (-1))) rows)"

subsection \<open>Does a list of columns cover all rows?\<close>

text \<open>\<open>for (pos = 0; res != UINT64_MAX && pos < pos_list.size(); pos++)\<close>\<close>

fun or_until_full :: "matrix \<Rightarrow> nat \<Rightarrow> u64 \<Rightarrow> nat list \<Rightarrow> u64" where
  "or_until_full cols i res [] = res"
| "or_until_full cols i res (pos # ps) =
    (if res \<noteq> all_ones then or_until_full cols i (res OR data (cols ! pos) ! i) ps else res)"

definition IsSolutionLite :: "matrix \<Rightarrow> bitvector \<Rightarrow> nat list \<Rightarrow> bool" where
  "IsSolutionLite cols rowmask pos_list =
    (let w = wsize rowmask - 1;
         res = fold (\<lambda>pos res. res OR data (cols ! pos) ! w) pos_list (data rowmask ! w)
     in list_all (\<lambda>i. or_until_full cols i (data rowmask ! i) pos_list = all_ones) [0..<w] \<and>
        count64 res mod 64 = bsize rowmask mod 64)"

definition IsSolutionLite2 :: "matrix \<Rightarrow> bitvector \<Rightarrow> nat \<Rightarrow> nat \<Rightarrow> bool" where
  "IsSolutionLite2 cols rowmask pos1 pos2 =
    (let w = wsize rowmask - 1;
         res = (\<lambda>i. data rowmask ! i OR data (cols ! pos1) ! i OR data (cols ! pos2) ! i)
     in list_all (\<lambda>i. res i = all_ones) [0..<w] \<and> count64 (res w) mod 64 = bsize rowmask mod 64)"

definition IsSolutionLite3 :: "matrix \<Rightarrow> bitvector \<Rightarrow> nat \<Rightarrow> nat \<Rightarrow> nat \<Rightarrow> bool" where
  "IsSolutionLite3 cols rowmask pos1 pos2 pos3 =
    (let w = wsize rowmask - 1;
         res = (\<lambda>i. data rowmask ! i OR data (cols ! pos1) ! i OR data (cols ! pos2) ! i OR data (cols ! pos3) ! i)
     in list_all (\<lambda>i. res i = all_ones) [0..<w] \<and> count64 (res w) mod 64 = bsize rowmask mod 64)"

subsection \<open>Excluded solutions\<close>

text \<open>The constants \<open>CUR_MAX_EXACT_LIMIT\<close>, \<open>MINSIZE\<close> and \<open>MAXMINSIZE\<close> of the class.\<close>

definition CUR_MAX_EXACT_LIMIT :: nat where "CUR_MAX_EXACT_LIMIT = 4"
definition MINSIZE :: nat where "MINSIZE = 16"
definition MAXMINSIZE :: nat where "MAXMINSIZE = 64"

definition IsExSolution :: "nat list \<Rightarrow> nat set set \<Rightarrow> bool" where
  "IsExSolution sol ex_sols =
    (if ex_sols = {} then False
     else if CUR_MAX_EXACT_LIMIT < length sol then False
     else set sol \<in> ex_sols)"

text \<open>
  The loop inserts into the set it walks: whether the walk meets a new element or not, a set without
  \<open>rpos\<close> adds nothing more, so that the result is the set with all the reduced ones.
\<close>

definition AdjustExSolutions :: "nat set set \<Rightarrow> nat \<Rightarrow> nat set set" where
  "AdjustExSolutions ex_sols rpos =
    (if ex_sols = {} then ex_sols
     else ex_sols \<union> (\<lambda>s. s - {rpos}) ` {s \<in> ex_sols. rpos \<in> s})"

subsection \<open>Searching for small solutions\<close>

text \<open>
  The searches walk tuples of columns in nested loops; the loops give the list of the tuples, and
  \<open>first_sol\<close> is the body of the innermost one: the weight of a tuple is left in \<open>cur_weight\<close>, and the first
  tuple that passes the test is returned with it. An empty list is returned when there is none.
\<close>

fun first_sol :: "(nat list \<Rightarrow> nat) \<Rightarrow> (nat list \<Rightarrow> bool) \<Rightarrow> nat \<Rightarrow> nat list list \<Rightarrow> nat \<times> nat list" where
  "first_sol weight ok cur [] = (cur, [])"
| "first_sol weight ok cur (t # ts) = (if ok t then (weight t, t) else first_sol weight ok (weight t) ts)"

definition weight_of :: "matrix \<Rightarrow> nat list \<Rightarrow> nat" where
  "weight_of cols t = (\<Sum>p\<leftarrow>t. counter (cols ! p))"

text \<open>The number of rows not covered yet. (The counter is at most the size.)\<close>

definition rows_left :: "bitvector \<Rightarrow> nat" where
  "rows_left rowmask = bsize rowmask - counter rowmask"

text \<open>Comparing an unsigned number with a signed one.\<close>

definition u32_ge :: "nat \<Rightarrow> int \<Rightarrow> bool" where
  "u32_ge c r \<longleftrightarrow> r mod 2 ^ 32 \<le> int c"

text \<open>\<open>midindex\<close>, where \<open>dist\<close> is the distance of the column tested first from the end.\<close>

definition mid_index :: "matrix \<Rightarrow> nat list \<Rightarrow> nat \<Rightarrow> nat \<Rightarrow> nat" where
  "mid_index cols idx dist half =
    (let col_size = length idx in
     if half \<le> counter (cols ! (idx ! (col_size - dist))) then col_size - dist
     else length (takeWhile (\<lambda>p. half \<le> counter (cols ! p)) idx))"

text \<open>With no column in the list the code reads the element \<open>-1\<close> of it: the result is \<open>None\<close>.\<close>

definition pairs_sorted :: "matrix \<Rightarrow> nat list \<Rightarrow> nat \<Rightarrow> nat \<Rightarrow> nat list list" where
  "pairs_sorted cols idx maxsize mid = concat (map (\<lambda>ii.
     let i = idx ! ii; rem_weight = int maxsize - int (counter (cols ! i)) in
     map (\<lambda>jj. [i, idx ! jj])
       (dropWhile (\<lambda>jj. \<not> u32_ge (counter (cols ! (idx ! jj))) rem_weight) (rev [Suc ii..<length idx])))
     [0..<mid])"

definition GetBest2Solution :: "matrix \<Rightarrow> bitvector \<Rightarrow> nat list \<Rightarrow> nat set set \<Rightarrow> (nat \<times> nat list) option" where
  "GetBest2Solution cols rowmask csum_sortindex ex_sols =
    (if csum_sortindex = [] then None else
     let maxsize = rows_left rowmask;
         mid = mid_index cols csum_sortindex 1 (maxsize div 2)
     in Some (first_sol (\<lambda>_. 0) (\<lambda>t. IsSolutionLite2 cols rowmask (t ! 0) (t ! 1) \<and> \<not> IsExSolution t ex_sols) 0
          (pairs_sorted cols csum_sortindex maxsize mid)))"

definition GetBest2Solution_list :: "matrix \<Rightarrow> bitvector \<Rightarrow> nat list \<Rightarrow> nat set set \<Rightarrow> nat \<times> nat list" where
  "GetBest2Solution_list cols rowmask pos_list ex_sols =
    (let maxsize = rows_left rowmask
     in first_sol (weight_of cols)
          (\<lambda>t. maxsize \<le> weight_of cols t \<and> IsSolutionLite2 cols rowmask (t ! 0) (t ! 1) \<and> \<not> IsExSolution t ex_sols) 0
          (concat (map (\<lambda>i. map (\<lambda>j. [i, j]) [0..<length cols]) pos_list)))"

text \<open>The pairs \<open>i < j\<close> of the list, in the order of the two loops.\<close>

fun pairs :: "nat list \<Rightarrow> (nat \<times> nat) list" where
  "pairs [] = []"
| "pairs (i # is) = map (\<lambda>j. (i, j)) is @ pairs is"

definition best_pair_step ::
    "matrix \<Rightarrow> bitvector \<Rightarrow> nat set set \<Rightarrow> nat \<times> nat \<Rightarrow> nat \<times> nat \<times> nat list \<Rightarrow> nat \<times> nat \<times> nat list" where
  "best_pair_step cols rowmask ex_sols = (\<lambda>(i, j) (max_weight, ovp_weight, sol).
     let cur_weight = count_or_mask (cols ! i) (cols ! j) rowmask;
         cur_ovp = count_and_mask (cols ! i) (cols ! j) rowmask
     in if max_weight < cur_weight \<or> cur_weight = max_weight \<and> cur_ovp < ovp_weight then
          if IsExSolution [i, j] ex_sols then (0, 0, []) else (cur_weight, cur_ovp, [i, j])
        else (max_weight, ovp_weight, sol))"

definition GetBest2Selection :: "matrix \<Rightarrow> bitvector \<Rightarrow> nat list \<Rightarrow> nat set set \<Rightarrow> nat \<times> nat list" where
  "GetBest2Selection cols rowmask pos_list ex_sols =
    (let (max_weight, ovp_weight, sol) = fold (best_pair_step cols rowmask ex_sols) (pairs pos_list) (0, 0, [])
     in (max_weight, sol))"

text \<open>
  The loops over three and four columns. The innermost loop of the first search stops at the first
  triple whose weight is too small, which is still visited (\<open>upto_fail\<close>).
\<close>

definition upto_fail :: "('a \<Rightarrow> bool) \<Rightarrow> 'a list \<Rightarrow> 'a list" where
  "upto_fail P xs = takeWhile P xs @ take 1 (dropWhile P xs)"

definition triple_ok :: "matrix \<Rightarrow> bitvector \<Rightarrow> nat set set \<Rightarrow> nat list \<Rightarrow> bool" where
  "triple_ok cols rowmask ex_sols t \<longleftrightarrow> rows_left rowmask \<le> weight_of cols t \<and>
    IsSolutionLite3 cols rowmask (t ! 0) (t ! 1) (t ! 2) \<and> \<not> IsExSolution t ex_sols"

definition GetBest3Solution :: "matrix \<Rightarrow> bitvector \<Rightarrow> nat list \<Rightarrow> nat set set \<Rightarrow> (nat \<times> nat list) option" where
  "GetBest3Solution cols rowmask csum_sortindex ex_sols =
    (if length csum_sortindex < 2 then None else
     let maxsize = rows_left rowmask; idx = csum_sortindex; col_size = length idx;
         mid = mid_index cols idx 2 (maxsize div 3)
     in Some (first_sol (weight_of cols) (triple_ok cols rowmask ex_sols) 0
          (concat (map (\<lambda>ii. concat (map (\<lambda>kk.
             upto_fail (\<lambda>t. maxsize \<le> weight_of cols t) (map (\<lambda>jj. [idx ! ii, idx ! jj, idx ! kk]) [Suc ii..<kk]))
             (rev [Suc mid..<col_size]))) [0..<mid]))))"

definition GetBest3Solution_list ::
    "matrix \<Rightarrow> bitvector \<Rightarrow> nat list \<Rightarrow> nat list \<Rightarrow> nat set set \<Rightarrow> (nat \<times> nat list) option" where
  "GetBest3Solution_list cols rowmask pos_list csum_sortindex ex_sols =
    (if length csum_sortindex < 2 then None else
     let maxsize = rows_left rowmask; idx = csum_sortindex; col_size = length idx;
         mid = mid_index cols idx 2 (maxsize div 3)
     in Some (first_sol (weight_of cols) (triple_ok cols rowmask ex_sols) 0
          (concat (map (\<lambda>k. concat (map (\<lambda>ii.
             map (\<lambda>jj. [idx ! ii, idx ! jj, k]) (filter (\<lambda>jj. idx ! jj \<noteq> k) (rev [Suc ii..<col_size])))
             (filter (\<lambda>ii. idx ! ii \<noteq> k) [0..<mid]))) pos_list))))"

definition GetBest3Solution_all :: "matrix \<Rightarrow> bitvector \<Rightarrow> nat list \<Rightarrow> nat set set \<Rightarrow> nat \<times> nat list" where
  "GetBest3Solution_all cols rowmask pos_list ex_sols =
    (let maxsize = rows_left rowmask; col_size = length cols
     in first_sol (weight_of cols) (triple_ok cols rowmask ex_sols) 0
          (concat (map (\<lambda>i. concat (map (\<lambda>j.
             map (\<lambda>k. [i, j, k]) (filter (\<lambda>k. counter (cols ! k) \<noteq> 0 \<and> i \<noteq> k) [Suc j..<col_size]))
             (filter (\<lambda>j. counter (cols ! j) \<noteq> 0 \<and> i \<noteq> j) [0..<col_size - 1]))) pos_list)))"

definition GetBest4Solution ::
    "matrix \<Rightarrow> bitvector \<Rightarrow> nat list \<Rightarrow> nat list \<Rightarrow> nat set set \<Rightarrow> (nat \<times> nat list) option" where
  "GetBest4Solution cols rowmask pos_list csum_sortindex ex_sols =
    (if csum_sortindex = [] then None else
     let maxsize = rows_left rowmask; idx = csum_sortindex; col_size = length idx;
         mid = mid_index cols idx 1 (maxsize div 3)
     in Some (first_sol (weight_of cols)
          (\<lambda>t. maxsize \<le> weight_of cols t \<and> IsSolutionLite cols rowmask t \<and> \<not> IsExSolution t ex_sols) 0
          (concat (map (\<lambda>(k1, k2). concat (map (\<lambda>ii.
             map (\<lambda>jj. [idx ! ii, idx ! jj, k1, k2])
               (filter (\<lambda>jj. idx ! jj \<noteq> k1 \<and> idx ! jj \<noteq> k2) (rev [Suc ii..<col_size])))
             (filter (\<lambda>ii. idx ! ii \<noteq> k1 \<and> idx ! ii \<noteq> k2) [0..<mid]))) (pairs pos_list)))))"

section \<open>Rows as sets\<close>

text \<open>
  The interface through which the set cover sees its bit vectors: vectors that stand for sets of
  rows, with union, difference and the sizes of sets and of intersections.
\<close>

locale row_vectors =
  fixes ok :: "'v \<Rightarrow> bool" and elems :: "'v \<Rightarrow> nat set" and width cnt :: "'v \<Rightarrow> nat"
    and join mask :: "'v \<Rightarrow> 'v \<Rightarrow> 'v" and common :: "'v \<Rightarrow> 'v \<Rightarrow> nat"
  assumes elems_width: "ok v \<Longrightarrow> elems v \<subseteq> {..<width v}"
    and cnt_card: "ok v \<Longrightarrow> cnt v = card (elems v)"
    and join_law: "ok u \<Longrightarrow> ok v \<Longrightarrow> width u = width v \<Longrightarrow>
      ok (join u v) \<and> elems (join u v) = elems v \<union> elems u \<and> width (join u v) = width v"
    and mask_law: "ok u \<Longrightarrow> ok v \<Longrightarrow> width u = width v \<Longrightarrow>
      ok (mask u v) \<and> elems (mask u v) = elems v - elems u \<and> width (mask u v) = width v"
    and common_card: "ok u \<Longrightarrow> ok v \<Longrightarrow> width u = width v \<Longrightarrow> common u v = card (elems u \<inter> elems v)"
begin

lemma finite_elems: "ok v \<Longrightarrow> finite (elems v)"
  using elems_width finite_subset by blast

lemma cnt_le: "ok v \<Longrightarrow> cnt v \<le> width v"
  using card_mono [OF _ elems_width] by (simp add: cnt_card)

lemma cnt_0_iff: "ok v \<Longrightarrow> cnt v = 0 \<longleftrightarrow> elems v = {}"
  by (simp add: cnt_card finite_elems)

text \<open>A vector is full when its count is the width.\<close>

lemma cnt_full_iff:
  assumes "ok v" shows "cnt v = width v \<longleftrightarrow> elems v = {..<width v}"
proof
  assume "cnt v = width v"
  then have "card (elems v) = card {..<width v}" using assms by (simp add: cnt_card)
  then show "elems v = {..<width v}" by (rule card_subset_eq [OF finite_lessThan elems_width [OF assms]])
next
  assume "elems v = {..<width v}"
  then have "card (elems v) = card {..<width v}" by (rule arg_cong)
  then show "cnt v = width v" using assms by (simp only: cnt_card card_lessThan)
qed

lemma cnt_less_iff: "ok v \<Longrightarrow> cnt v < width v \<longleftrightarrow> elems v \<noteq> {..<width v}"
  using cnt_full_iff [of v] cnt_le [of v] by linarith

text \<open>A set is part of another when the intersection is as large as the set.\<close>

lemma common_iff:
  assumes "ok u" "ok v" "width u = width v"
  shows "common u v = cnt u \<longleftrightarrow> elems u \<subseteq> elems v"
proof
  assume "common u v = cnt u"
  then have "elems u \<inter> elems v = elems u"
    using assms by (intro card_subset_eq [OF finite_elems]) (auto simp: common_card cnt_card)
  then show "elems u \<subseteq> elems v" by blast
next
  assume "elems u \<subseteq> elems v"
  then have "elems u \<inter> elems v = elems u" by blast
  then show "common u v = cnt u" using assms by (simp add: common_card cnt_card)
qed

lemma subset_cnt: "ok u \<Longrightarrow> ok v \<Longrightarrow> elems u \<subseteq> elems v \<Longrightarrow> cnt u \<le> cnt v"
  by (simp add: cnt_card card_mono finite_elems)

lemma fold_mask:
  assumes "ok v" "\<forall>u\<in>set us. ok u \<and> width u = width v"
  shows "ok (fold mask us v) \<and> elems (fold mask us v) = elems v - (\<Union>u\<in>set us. elems u) \<and> width (fold mask us v) = width v"
  using assms
proof (induction us arbitrary: v)
  case (Cons u us)
  then have "ok (mask u v) \<and> elems (mask u v) = elems v - elems u \<and> width (mask u v) = width v"
    using mask_law [of u v] by simp
  then show ?case using Cons.IH [of "mask u v"] Cons.prems(2) by auto
qed simp

lemma fold_join:
  assumes "ok v" "\<forall>u\<in>set us. ok u \<and> width u = width v"
  shows "ok (fold join us v) \<and> elems (fold join us v) = elems v \<union> (\<Union>u\<in>set us. elems u) \<and> width (fold join us v) = width v"
  using assms
proof (induction us arbitrary: v)
  case (Cons u us)
  then have "ok (join u v) \<and> elems (join u v) = elems v \<union> elems u \<and> width (join u v) = width v"
    using join_law [of u v] by simp
  then show ?case using Cons.IH [of "join u v"] Cons.prems(2) by auto
qed simp

end

interpretation bv: row_vectors bv_ok bv_set bsize counter bv_or_count bv_mask_count count_and
proof unfold_locales
  fix u v :: bitvector assume uv: "bv_ok u" "bv_ok v" "bsize u = bsize v"
  note sh = bv_okD(1) [OF uv(1)] bv_okD(1) [OF uv(2)]
  show "bv_ok (bv_or_count u v) \<and> bv_set (bv_or_count u v) = bv_set v \<union> bv_set u \<and> bsize (bv_or_count u v) = bsize v"
    using bv_or_count_ok [OF sh(2,1) uv(3)] by simp
  show "bv_ok (bv_mask_count u v) \<and> bv_set (bv_mask_count u v) = bv_set v - bv_set u \<and> bsize (bv_mask_count u v) = bsize v"
    using bv_mask_count_ok [OF sh(2,1) uv(3)] by simp
  show "count_and u v = card (bv_set u \<inter> bv_set v)" using count_ops(2) [OF sh] uv(3) by simp
qed (simp_all add: bv_ok_def bv_shape_def)

text \<open>Matrices, and what it means that columns cover all rows.\<close>

definition matrix_ok :: "nat \<Rightarrow> matrix \<Rightarrow> bool" where
  "matrix_ok n m \<longleftrightarrow> (\<forall>v\<in>set m. bv_ok v \<and> bsize v = n)"

definition union_of :: "matrix \<Rightarrow> nat list \<Rightarrow> nat set" where
  "union_of cols ps = (\<Union>p\<in>set ps. bv_set (cols ! p))"

definition covers :: "matrix \<Rightarrow> bitvector \<Rightarrow> nat list \<Rightarrow> bool" where
  "covers cols rowmask ps \<longleftrightarrow> bv_set rowmask \<union> union_of cols ps = {..<bsize rowmask}"

definition cols_in :: "matrix \<Rightarrow> nat list \<Rightarrow> bool" where
  "cols_in cols ps \<longleftrightarrow> (\<forall>p\<in>set ps. p < length cols)"

lemma matrix_okD: "matrix_ok n m \<Longrightarrow> p < length m \<Longrightarrow> bv_ok (m ! p) \<and> bsize (m ! p) = n"
  by (simp add: matrix_ok_def)

lemma union_of_simps [simp]:
  "union_of cols [] = {}" "union_of cols (p # ps) = bv_set (cols ! p) \<union> union_of cols ps"
  "union_of cols (ps @ qs) = union_of cols ps \<union> union_of cols qs"
  by (auto simp: union_of_def)

lemma cols_in_simps [simp]:
  "cols_in cols []" "cols_in cols (p # ps) \<longleftrightarrow> p < length cols \<and> cols_in cols ps"
  "cols_in cols (ps @ qs) \<longleftrightarrow> cols_in cols ps \<and> cols_in cols qs"
  by (auto simp: cols_in_def)

lemma union_of_width: "matrix_ok n cols \<Longrightarrow> cols_in cols ps \<Longrightarrow> union_of cols ps \<subseteq> {..<n}"
  unfolding union_of_def cols_in_def using matrix_okD bv.elems_width by blast

lemma covers_iff:
  assumes "matrix_ok (bsize m) cols" "cols_in cols ps" "bv_ok m"
  shows "covers cols m ps \<longleftrightarrow> {..<bsize m} \<subseteq> bv_set m \<union> union_of cols ps"
proof -
  have "bv_set m \<union> union_of cols ps \<subseteq> {..<bsize m}"
    using union_of_width [OF assms(1,2)] bv.elems_width [OF assms(3)] by (rule Un_least [rotated])
  then show ?thesis unfolding covers_def set_eq_subset by (simp only: simp_thms)
qed

lemma covers_mono:
  assumes "matrix_ok (bsize m) cols" "cols_in cols qs" "bv_ok m" "set ps \<subseteq> set qs" "covers cols m ps"
  shows "covers cols m qs"
proof -
  have sub: "union_of cols ps \<subseteq> union_of cols qs" using assms(4) unfolding union_of_def by (rule UN_mono) simp
  have "{..<bsize m} = bv_set m \<union> union_of cols ps" using assms(5) unfolding covers_def by (rule sym)
  also have "\<dots> \<subseteq> bv_set m \<union> union_of cols qs" using sub by (rule Un_mono [OF subset_refl])
  finally show ?thesis unfolding covers_iff [OF assms(1,2,3)] .
qed

section \<open>The covering test\<close>

lemma bit_all_ones: "j < 64 \<Longrightarrow> bit all_ones j"
proof -
  have e: "all_ones = NOT 0" by (simp add: all_ones_def)
  show "j < 64 \<Longrightarrow> bit all_ones j" by (subst e) (simp add: bit_not_iff)
qed

lemma eq_all_ones: "w = all_ones \<longleftrightarrow> (\<forall>j<64. bit w j)"
proof
  assume *: "\<forall>j<64. bit w j"
  show "w = all_ones" by (rule bit_word_eqI) (use * bit_all_ones in simp)
qed (simp add: bit_all_ones)

lemma all_ones_or [simp]: "all_ones OR w = all_ones"
  by (simp add: eq_all_ones bit_or_iff bit_all_ones)

lemma or_until_full_eq: "or_until_full cols i res ps = fold (\<lambda>pos res. res OR data (cols ! pos) ! i) ps res"
proof (induction ps arbitrary: res)
  case (Cons p ps)
  have "fold (\<lambda>pos res. res OR data (cols ! pos) ! i) qs all_ones = all_ones" for qs by (induction qs) simp_all
  then show ?case using Cons by auto
qed simp

lemma bit_data: "bv_shape b \<Longrightarrow> i < wsize b \<Longrightarrow> j < 64 \<Longrightarrow> bit (data b ! i) j \<longleftrightarrow> 64 * i + j \<in> bv_set b"
  using bv_shapeD(3) [of b] by (simp add: bv_set_def)

lemma bit_fold_or:
  assumes "matrix_ok n cols" "cols_in cols ps" "i < words_for n" "j < 64"
  shows "bit (fold (\<lambda>pos res. res OR data (cols ! pos) ! i) ps r) j \<longleftrightarrow> bit r j \<or> 64 * i + j \<in> union_of cols ps"
  using assms(2)
proof (induction ps arbitrary: r)
  case (Cons p ps)
  have b: "bv_ok (cols ! p)" "bsize (cols ! p) = n" using matrix_okD [OF assms(1), of p] Cons.prems by simp_all
  then have "bit (data (cols ! p) ! i) j \<longleftrightarrow> 64 * i + j \<in> bv_set (cols ! p)"
    using bit_data [OF bv_okD(1) [OF b(1)], of i j] bv_shapeD(2) [OF bv_okD(1) [OF b(1)]] assms(3,4) by simp
  then show ?case using Cons.IH [of "r OR data (cols ! p) ! i"] Cons.prems by (auto simp: bit_or_iff)
qed simp

text \<open>The test on the words of a set, which is right when the last word is not full.\<close>

definition words_test :: "nat \<Rightarrow> (nat \<Rightarrow> u64) \<Rightarrow> bool" where
  "words_test n f \<longleftrightarrow> list_all (\<lambda>i. f i = all_ones) [0..<words_for n - 1] \<and> count64 (f (words_for n - 1)) mod 64 = n mod 64"

lemma words_test_cong: "0 < n \<Longrightarrow> (\<And>i. i < words_for n \<Longrightarrow> f i = g i) \<Longrightarrow> words_test n f = words_test n g"
  unfolding words_test_def list_all_iff using words_for_less [of 0 n] by auto

lemma full_words:
  assumes "\<And>i j. i < words_for n \<Longrightarrow> j < 64 \<Longrightarrow> bit (f i) j \<longleftrightarrow> 64 * i + j \<in> U" "k \<le> words_for n"
  shows "(\<forall>i<k. f i = all_ones) \<longleftrightarrow> {..<64 * k} \<subseteq> U"
proof
  assume *: "\<forall>i<k. f i = all_ones"
  show "{..<64 * k} \<subseteq> U"
  proof
    fix x assume "x \<in> {..<64 * k}"
    then have x: "x div 64 < k" by (simp add: div_less_iff_less_mult mult.commute)
    then have "bit (f (x div 64)) (x mod 64)" using * bit_all_ones by simp
    then show "x \<in> U" using assms(1) [of "x div 64" "x mod 64"] assms(2) x by simp
  qed
next
  assume *: "{..<64 * k} \<subseteq> U"
  show "\<forall>i<k. f i = all_ones"
    unfolding eq_all_ones
  proof (intro allI impI)
    fix i j :: nat assume ij: "i < k" "j < 64"
    have "64 * i + j < 64 * k" using ij by linarith
    then show "bit (f i) j" using assms ij * by auto
  qed
qed

lemma words_test_iff:
  assumes bits: "\<And>i j. i < words_for n \<Longrightarrow> j < 64 \<Longrightarrow> bit (f i) j \<longleftrightarrow> 64 * i + j \<in> U"
    and U: "U \<subseteq> {..<n}" and n: "0 < n"
  shows "words_test n f \<longleftrightarrow> U = {..<n} \<or>
    n mod 64 = 0 \<and> U = {..<n - 64}"
proof -
  define w where "w = words_for n - 1"
  have W: "words_for n = Suc w" using words_for_less [OF n] by (simp add: w_def)
  have lo: "64 * w < n" and hi: "n \<le> 64 * w + 64" using words_for_bounds [of n] W by simp_all
  let ?L = "{j. j < 64 \<and> 64 * w + j \<in> U}"
  have full: "list_all (\<lambda>i. f i = all_ones) [0..<w] \<longleftrightarrow> {..<64 * w} \<subseteq> U"
    using full_words [where n = n and f = f and U = U and k = w] bits W by (simp add: list_all_iff Ball_def)
  have cnt: "count64 (f w) = card ?L"
    unfolding count64_eq using bits [of w] W by (intro arg_cong [where f = card]) auto
  have Lsub: "?L \<subseteq> {..<n - 64 * w}" using U by auto
  have Lmax: "card ?L \<le> n - 64 * w" using card_mono [OF _ Lsub] by simp
  have Lall: "card ?L = n - 64 * w \<longleftrightarrow> {64 * w..<n} \<subseteq> U"
  proof
    assume "card ?L = n - 64 * w"
    then have eq: "?L = {..<n - 64 * w}" by (intro card_subset_eq [OF _ Lsub]) simp_all
    show "{64 * w..<n} \<subseteq> U"
    proof
      fix x assume x: "x \<in> {64 * w..<n}"
      then have "x - 64 * w \<in> ?L" unfolding eq by auto
      then show "x \<in> U" using x by simp
    qed
  next
    assume "{64 * w..<n} \<subseteq> U"
    then have "?L = {..<n - 64 * w}" using Lsub hi by auto
    then show "card ?L = n - 64 * w" by simp
  qed
  have Lnone: "card ?L = 0 \<longleftrightarrow> U \<subseteq> {..<64 * w}"
  proof -
    have "card ?L = 0 \<longleftrightarrow> ?L = {}" by simp
    also have "\<dots> \<longleftrightarrow> U \<subseteq> {..<64 * w}"
    proof
      assume e: "?L = {}"
      show "U \<subseteq> {..<64 * w}"
      proof
        fix x assume x: "x \<in> U"
        then have "x < 64 * w + 64" using U hi by auto
        then have "\<not> 64 * w \<le> x" using e x by (auto dest!: spec [of _ "x - 64 * w"])
        then show "x \<in> {..<64 * w}" by simp
      qed
    qed auto
    finally show ?thesis .
  qed
  have "{..<n} = {..<64 * w} \<union> {64 * w..<n}" using lo by auto
  then have split: "{..<64 * w} \<subseteq> U \<and> {64 * w..<n} \<subseteq> U \<longleftrightarrow> U = {..<n}" using U by blast
  have md: "n mod 64 = (if n = 64 * w + 64 then 0 else n - 64 * w)"
  proof (cases "n = 64 * w + 64")
    case False
    then have "n = 64 * w + (n - 64 * w)" "n - 64 * w < 64" using lo hi by simp_all
    then have "n mod 64 = (n - 64 * w) mod 64" by (metis mod_mult_self4)
    then show ?thesis using \<open>n - 64 * w < 64\<close> False by simp
  qed simp
  have test: "words_test n f \<longleftrightarrow> {..<64 * w} \<subseteq> U \<and> card ?L mod 64 = n mod 64"
    unfolding words_test_def w_def [symmetric] full cnt ..
  show ?thesis
  proof (cases "n = 64 * w + 64")
    case True
    have small: "c mod 64 = 0 \<longleftrightarrow> c = 0 \<or> c = 64" if "c \<le> 64" for c :: nat
      using that by (cases "c = 64") (simp_all add: le_neq_implies_less)
    have "card ?L \<le> 64" using Lmax unfolding True by simp
    then have "card ?L mod 64 = 0 \<longleftrightarrow> card ?L = 0 \<or> card ?L = 64" by (rule small)
    then have "words_test n f \<longleftrightarrow> {..<64 * w} \<subseteq> U \<and> (U \<subseteq> {..<64 * w} \<or> {64 * w..<n} \<subseteq> U)"
      using test True Lall Lnone by simp
    also have "\<dots> \<longleftrightarrow> U = {..<n} \<or> U = {..<64 * w}" unfolding split [symmetric] by blast
    finally show ?thesis using True by simp
  next
    case False
    then have "card ?L mod 64 = card ?L" using Lmax lo hi by simp
    then have "words_test n f \<longleftrightarrow> {..<64 * w} \<subseteq> U \<and> {64 * w..<n} \<subseteq> U"
      using test md False Lall by simp
    then show ?thesis using split md False lo by simp
  qed
qed

lemma Lite_words: "bv_ok m \<Longrightarrow> IsSolutionLite cols m ps \<longleftrightarrow>
  words_test (bsize m) (\<lambda>i. fold (\<lambda>pos res. res OR data (cols ! pos) ! i) ps (data m ! i))"
  using bv_shapeD(2) [OF bv_okD(1), of m] by (simp add: IsSolutionLite_def words_test_def or_until_full_eq Let_def)

lemma IsSolutionLite_iff:
  assumes "matrix_ok (bsize m) cols" "cols_in cols ps" "bv_ok m" "0 < bsize m"
  shows "IsSolutionLite cols m ps \<longleftrightarrow>
    covers cols m ps \<or> bsize m mod 64 = 0 \<and> bv_set m \<union> union_of cols ps = {..<bsize m - 64}"
proof -
  note sh = bv_okD(1) [OF assms(3)]
  have bits: "bit (fold (\<lambda>pos res. res OR data (cols ! pos) ! i) ps (data m ! i)) j \<longleftrightarrow> 64 * i + j \<in> bv_set m \<union> union_of cols ps"
    if "i < words_for (bsize m)" "j < 64" for i j
    using bit_fold_or [OF assms(1,2) that] bit_data [OF sh, of i j] bv_shapeD(2) [OF sh] that by simp
  have "bv_set m \<union> union_of cols ps \<subseteq> {..<bsize m}"
    using union_of_width [OF assms(1,2)] bv.elems_width [OF assms(3)] by (rule Un_least [rotated])
  then show ?thesis
    unfolding Lite_words [OF assms(3)] covers_def by (intro words_test_iff bits assms(4))
qed

lemma Lite2_eq: "IsSolutionLite2 cols m p q = IsSolutionLite cols m [p, q]"
  by (simp add: IsSolutionLite2_def IsSolutionLite_def or_until_full_eq or.assoc Let_def)

lemma Lite3_eq: "IsSolutionLite3 cols m p q r = IsSolutionLite cols m [p, q, r]"
  by (simp add: IsSolutionLite3_def IsSolutionLite_def or_until_full_eq or.assoc Let_def)

section \<open>Removing covered rows\<close>

lemma set_positions_eq:
  assumes "bv_shape b" "-1 \<le> pos"
  shows "set (set_positions oob b (bv_next_set oob b pos)) = {i \<in> bv_set b. pos < int i}"
  using assms(2)
proof (induction "bsize b - nat (pos + 1)" arbitrary: pos rule: less_induct)
  case less
  let ?q = "bv_next_set oob b pos"
  from bv_next_set_ok [OF assms(1) less.prems] show ?case
  proof
    assume *: "?q = bsize b \<and> no_ones b (nat (pos + 1)) (bsize b)"
    have "\<not> pos < int i" if "i \<in> bv_set b" for i
      using * that bv_shapeD(4) [OF assms(1) that] less.prems by (auto simp: no_ones_def nat_le_iff)
    then show ?thesis using * by (auto simp: set_positions.simps)
  next
    assume f: "first_from b (nat (pos + 1)) ?q"
    then have q: "?q \<in> bv_set b" "?q < bsize b" "nat (pos + 1) \<le> ?q" "\<And>i. i \<in> bv_set b \<Longrightarrow> pos < int i \<Longrightarrow> ?q \<le> i"
      using bv_shapeD(4) [OF assms(1)] less.prems by (auto simp: first_from_def no_ones_def not_less [symmetric])
    have "set (set_positions oob b (bv_next_set oob b (int ?q))) = {i \<in> bv_set b. int ?q < int i}"
      using q less.prems by (intro less.hyps) auto
    then show ?thesis
      using q less.prems by (subst set_positions.simps) (auto simp: le_less)
  qed
qed

lemma fold_clear:
  assumes "\<forall>i\<in>set is. i < length rows"
  shows "length (fold (\<lambda>nn rows. rows[nn := bv_clear (rows ! nn)]) is rows) = length rows"
    "i < length rows \<Longrightarrow> fold (\<lambda>nn rows. rows[nn := bv_clear (rows ! nn)]) is rows ! i =
      (if i \<in> set is then bv_clear (rows ! i) else rows ! i)"
proof -
  have idem: "bv_clear (bv_clear b) = bv_clear b" for b
    unfolding bv_clear_def by (simp add: list_eq_iff_nth_eq nth_for_words)
  have "length (fold (\<lambda>nn rows. rows[nn := bv_clear (rows ! nn)]) is rows) = length rows \<and> (i < length rows \<longrightarrow>
     fold (\<lambda>nn rows. rows[nn := bv_clear (rows ! nn)]) is rows ! i = (if i \<in> set is then bv_clear (rows ! i) else rows ! i))" for i
    using assms
  proof (induction "is" arbitrary: rows)
    case (Cons k ks)
    then show ?case using Cons.IH [of "rows[k := bv_clear (rows ! k)]"] by (auto simp: nth_list_update idem)
  qed simp
  then show "length (fold (\<lambda>nn rows. rows[nn := bv_clear (rows ! nn)]) is rows) = length rows"
    "i < length rows \<Longrightarrow> fold (\<lambda>nn rows. rows[nn := bv_clear (rows ! nn)]) is rows ! i =
      (if i \<in> set is then bv_clear (rows ! i) else rows ! i)" by blast+
qed

text \<open>The columns lose the covered rows, and the covered rows become empty.\<close>

lemma RemoveRowCol1_ok:
  fixes oob :: u64
  assumes "matrix_ok n cols" "matrix_ok c rows" "bv_ok m" "bsize m = n" "length rows = n"
  defines "r \<equiv> RemoveRowCol1 oob cols rows m"
  shows "matrix_ok n (fst r)" "length (fst r) = length cols" "matrix_ok c (snd r)" "length (snd r) = n"
    "p < length cols \<Longrightarrow> bv_set (fst r ! p) = bv_set (cols ! p) - bv_set m"
    "i < n \<Longrightarrow> bv_set (snd r ! i) = (if i \<in> bv_set m then {} else bv_set (rows ! i))"
proof -
  have col: "bv_ok (bv_mask_count m v) \<and> bv_set (bv_mask_count m v) = bv_set v - bv_set m \<and> bsize (bv_mask_count m v) = n"
    if "v \<in> set cols" for v
    using bv.mask_law [OF assms(3), of v] that assms(1,4) by (auto simp: matrix_ok_def)
  show "matrix_ok n (fst r)" using col by (auto simp: r_def RemoveRowCol1_def matrix_ok_def)
  show "length (fst r) = length cols" by (simp add: r_def RemoveRowCol1_def)
  show "p < length cols \<Longrightarrow> bv_set (fst r ! p) = bv_set (cols ! p) - bv_set m"
    using col by (simp add: r_def RemoveRowCol1_def)
  have pos: "set (set_positions oob m (bv_next_set oob m (-1))) = bv_set m"
    using set_positions_eq [OF bv_okD(1) [OF assms(3)], of "-1" oob] by auto
  have "\<forall>i\<in>set (set_positions oob m (bv_next_set oob m (-1))). i < length rows"
    unfolding pos using bv.elems_width [OF assms(3)] assms(4,5) by auto
  note f = fold_clear [OF this]
  have len: "length (snd r) = length rows" by (simp add: r_def RemoveRowCol1_def f(1))
  have nth: "snd r ! i = (if i \<in> bv_set m then bv_clear (rows ! i) else rows ! i)" if "i < n" for i
    using f(2) that assms(5) by (simp add: r_def RemoveRowCol1_def pos)
  show "length (snd r) = n" using len assms(5) by simp
  have clear: "bv_ok (bv_clear v) \<and> bv_set (bv_clear v) = {} \<and> bsize (bv_clear v) = c" if "v \<in> set rows" for v
    using bv_clear_ok [OF bv_okD(1), of v] that assms(2) by (auto simp: matrix_ok_def)
  show "matrix_ok c (snd r)"
    unfolding matrix_ok_def
  proof
    fix v assume "v \<in> set (snd r)"
    then obtain i where i: "i < n" "v = snd r ! i" using len assms(5) by (auto simp: in_set_conv_nth)
    then have "rows ! i \<in> set rows" using assms(5) by simp
    then show "bv_ok v \<and> bsize v = c"
      using clear [of "rows ! i"] assms(2) nth [OF i(1)] i(2) by (auto simp: matrix_ok_def)
  qed
  show "i < n \<Longrightarrow> bv_set (snd r ! i) = (if i \<in> bv_set m then {} else bv_set (rows ! i))"
    using nth clear [of "rows ! i"] assms(5) by simp
qed

section \<open>The searches\<close>

lemma first_sol_find: "snd (first_sol weight ok cur ts) = (case find ok ts of Some t \<Rightarrow> t | None \<Rightarrow> [])"
  by (induction ts arbitrary: cur) auto

lemma first_sol_cases:
  obtains "snd (first_sol weight ok cur ts) = []" "\<forall>t\<in>set ts. \<not> ok t"
  | t where "snd (first_sol weight ok cur ts) = t" "t \<in> set ts" "ok t"
proof (cases "find ok ts")
  case None
  then have "\<forall>t\<in>set ts. \<not> ok t" by (simp add: find_None_iff)
  then show ?thesis using that(1) None by (simp add: first_sol_find)
next
  case (Some t)
  then have "t \<in> set ts" "ok t" by (auto simp: find_Some_iff)
  then show ?thesis using that(2) Some by (simp add: first_sol_find)
qed

lemma first_sol_sound:
  assumes "\<And>t. t \<in> set ts \<Longrightarrow> ok t \<Longrightarrow> P t"
  shows "snd (first_sol weight ok cur ts) = [] \<or> P (snd (first_sol weight ok cur ts))"
  using assms by (cases rule: first_sol_cases [of weight ok cur ts]) auto

lemma set_upto_fail: "set (upto_fail P xs) \<subseteq> set xs"
  unfolding upto_fail_def by (auto dest: set_takeWhileD set_dropWhileD in_set_takeD)

lemma set_pairs: "(i, j) \<in> set (pairs ps) \<Longrightarrow> i \<in> set ps \<and> j \<in> set ps"
  by (induction ps) auto

lemma pairs_nth: "a < b \<Longrightarrow> b < length ps \<Longrightarrow> (ps ! a, ps ! b) \<in> set (pairs ps)"
proof (induction ps arbitrary: a b)
  case (Cons p ps)
  then show ?case by (cases a; cases b) auto
qed simp

lemma mid_index_bound: "mid_index cols idx dist half \<le> length idx"
  by (simp add: mid_index_def Let_def length_takeWhile_le)

text \<open>A list that covers the remaining rows has at least their number as weight.\<close>

lemma weight_of_ge:
  assumes "matrix_ok (bsize m) cols" "cols_in cols ps" "bv_ok m" "covers cols m ps"
  shows "rows_left m \<le> weight_of cols ps"
proof -
  have un: "card (union_of cols ps) \<le> weight_of cols ps" if "cols_in cols ps" for ps
    using that
  proof (induction ps)
    case (Cons p ps)
    then have ok: "bv_ok (cols ! p)" using matrix_okD [OF assms(1)] by simp
    have "card (union_of cols (p # ps)) \<le> card (bv_set (cols ! p)) + card (union_of cols ps)"
      using card_Un_le by simp
    then show ?case using Cons bv.cnt_card [OF ok] by (simp add: weight_of_def)
  qed (simp add: weight_of_def)
  have "bsize m = card (bv_set m \<union> union_of cols ps)" using assms(4) unfolding covers_def by simp
  also have "\<dots> \<le> card (bv_set m) + card (union_of cols ps)" by (rule card_Un_le)
  finally show ?thesis using un [OF assms(2)] bv.cnt_card [OF assms(3)] by (simp add: rows_left_def)
qed

text \<open>Every nonempty result of a search passed the test.\<close>

definition found :: "matrix \<Rightarrow> bitvector \<Rightarrow> nat set set \<Rightarrow> nat \<Rightarrow> nat set \<Rightarrow> nat list \<Rightarrow> bool" where
  "found cols m ex k cand sol \<longleftrightarrow> length sol = k \<and> set sol \<subseteq> cand \<and> IsSolutionLite cols m sol \<and> \<not> IsExSolution sol ex"

lemma GetBest2Solution_found:
  assumes "GetBest2Solution cols m idx ex = Some r"
  shows "snd r = [] \<or> found cols m ex 2 (set idx) (snd r)"
proof -
  let ?mid = "mid_index cols idx 1 (rows_left m div 2)"
  have r: "idx \<noteq> []" "r = first_sol (\<lambda>_. 0) (\<lambda>t. IsSolutionLite2 cols m (t ! 0) (t ! 1) \<and> \<not> IsExSolution t ex) 0
      (pairs_sorted cols idx (rows_left m) ?mid)"
    using assms by (auto simp: GetBest2Solution_def Let_def split: if_splits)
  have t: "\<exists>i j. t = [i, j] \<and> i \<in> set idx \<and> j \<in> set idx" if "t \<in> set (pairs_sorted cols idx (rows_left m) ?mid)" for t
  proof -
    from that obtain ii jj where "ii < ?mid" "jj \<in> set (rev [Suc ii..<length idx])" "t = [idx ! ii, idx ! jj]"
      unfolding pairs_sorted_def Let_def by (auto dest: set_dropWhileD)
    then show ?thesis using mid_index_bound [of cols idx 1 "rows_left m div 2"] by simp
  qed
  show ?thesis
    unfolding r(2) by (rule first_sol_sound) (use t in \<open>fastforce simp: found_def Lite2_eq\<close>)
qed

lemma GetBest2Solution_list_found:
  "snd (GetBest2Solution_list cols m ps ex) = [] \<or>
   found cols m ex 2 (set ps \<union> {..<length cols}) (snd (GetBest2Solution_list cols m ps ex)) \<and>
   (\<exists>k\<in>set ps. \<exists>l<length cols. snd (GetBest2Solution_list cols m ps ex) = [k, l])"
  unfolding GetBest2Solution_list_def Let_def
  by (rule first_sol_sound) (auto simp: found_def Lite2_eq)

lemma GetBest3Solution_found:
  assumes "GetBest3Solution cols m idx ex = Some r"
  shows "snd r = [] \<or> found cols m ex 3 (set idx) (snd r)"
proof -
  have r: "r = first_sol (weight_of cols) (triple_ok cols m ex) 0
          (concat (map (\<lambda>ii. concat (map (\<lambda>kk.
             upto_fail (\<lambda>t. rows_left m \<le> weight_of cols t) (map (\<lambda>jj. [idx ! ii, idx ! jj, idx ! kk]) [Suc ii..<kk]))
             (rev [Suc (mid_index cols idx 2 (rows_left m div 3))..<length idx]))) [0..<mid_index cols idx 2 (rows_left m div 3)]))"
    using assms by (auto simp: GetBest3Solution_def Let_def split: if_splits)
  show ?thesis
    unfolding r
  proof (rule first_sol_sound, goal_cases)
    case (1 t)
    then obtain ii kk jj where "ii < mid_index cols idx 2 (rows_left m div 3)" "kk < length idx" "jj < kk" "t = [idx ! ii, idx ! jj, idx ! kk]"
      by (auto dest!: subsetD [OF set_upto_fail])
    then show ?case
      using 1(2) mid_index_bound [of cols idx 2 "rows_left m div 3"] by (simp add: found_def triple_ok_def Lite3_eq)
  qed
qed

lemma GetBest3Solution_list_found:
  assumes "GetBest3Solution_list cols m ps idx ex = Some r"
  shows "snd r = [] \<or> found cols m ex 3 (set idx \<union> set ps) (snd r)"
proof -
  have r: "r = first_sol (weight_of cols) (triple_ok cols m ex) 0
          (concat (map (\<lambda>k. concat (map (\<lambda>ii.
             map (\<lambda>jj. [idx ! ii, idx ! jj, k]) (filter (\<lambda>jj. idx ! jj \<noteq> k) (rev [Suc ii..<length idx])))
             (filter (\<lambda>ii. idx ! ii \<noteq> k) [0..<mid_index cols idx 2 (rows_left m div 3)]))) ps))"
    using assms by (auto simp: GetBest3Solution_list_def Let_def split: if_splits)
  show ?thesis
    unfolding r
  proof (rule first_sol_sound, goal_cases)
    case (1 t)
    then obtain ii k jj where "ii < mid_index cols idx 2 (rows_left m div 3)" "k \<in> set ps" "jj < length idx" "t = [idx ! ii, idx ! jj, k]"
      by auto
    then show ?case
      using 1(2) mid_index_bound [of cols idx 2 "rows_left m div 3"] by (simp add: found_def triple_ok_def Lite3_eq)
  qed
qed

lemma GetBest3Solution_all_found:
  "snd (GetBest3Solution_all cols m ps ex) = [] \<or>
   found cols m ex 3 (set ps \<union> {..<length cols}) (snd (GetBest3Solution_all cols m ps ex))"
  unfolding GetBest3Solution_all_def Let_def
  by (rule first_sol_sound) (auto simp: found_def triple_ok_def Lite3_eq)

lemma GetBest4Solution_found:
  assumes "GetBest4Solution cols m ps idx ex = Some r"
  shows "snd r = [] \<or> found cols m ex 4 (set idx \<union> set ps) (snd r)"
proof -
  have r: "r = first_sol (weight_of cols)
          (\<lambda>t. rows_left m \<le> weight_of cols t \<and> IsSolutionLite cols m t \<and> \<not> IsExSolution t ex) 0
          (concat (map (\<lambda>(k1, k2). concat (map (\<lambda>ii.
             map (\<lambda>jj. [idx ! ii, idx ! jj, k1, k2])
               (filter (\<lambda>jj. idx ! jj \<noteq> k1 \<and> idx ! jj \<noteq> k2) (rev [Suc ii..<length idx])))
             (filter (\<lambda>ii. idx ! ii \<noteq> k1 \<and> idx ! ii \<noteq> k2) [0..<mid_index cols idx 1 (rows_left m div 3)]))) (pairs ps)))"
    using assms by (auto simp: GetBest4Solution_def Let_def split: if_splits)
  show ?thesis
    unfolding r
  proof (rule first_sol_sound, goal_cases)
    case (1 t)
    then obtain ii jj k1 k2 where "ii < mid_index cols idx 1 (rows_left m div 3)" "(k1, k2) \<in> set (pairs ps)" "jj < length idx"
        "t = [idx ! ii, idx ! jj, k1, k2]" by auto
    then show ?case
      using 1(2) mid_index_bound [of cols idx 1 "rows_left m div 3"] set_pairs by (auto simp: found_def)
  qed
qed

lemma first_sol_nonempty:
  assumes "t \<in> set ts" "ok t" "\<And>t. t \<in> set ts \<Longrightarrow> t \<noteq> []"
  shows "snd (first_sol weight ok cur ts) \<noteq> []"
  using assms by (cases rule: first_sol_cases [of weight ok cur ts]) auto

text \<open>The search over the sorted columns misses no pair, when the columns hold no covered rows.\<close>

lemma masked_count_le:
  assumes "bv_ok v" "bv_ok m" "bsize v = bsize m" "bv_set v \<inter> bv_set m = {}"
  shows "counter v \<le> rows_left m"
proof -
  have "bv_set v \<subseteq> {..<bsize m} - bv_set m" using bv.elems_width [OF assms(1)] assms(3,4) by auto
  then have "card (bv_set v) \<le> card ({..<bsize m} - bv_set m)" by (intro card_mono) simp_all
  also have "\<dots> = bsize m - card (bv_set m)"
    using bv.elems_width [OF assms(2)] bv.finite_elems [OF assms(2)] by (simp add: card_Diff_subset)
  finally show ?thesis using bv.cnt_card [OF assms(1)] bv.cnt_card [OF assms(2)] by (simp add: rows_left_def)
qed

lemma u32_ge_iff: "0 \<le> r \<Longrightarrow> r < 2 ^ 32 \<Longrightarrow> u32_ge c r \<longleftrightarrow> r \<le> int c"
  by (simp add: u32_ge_def)

definition by_count :: "matrix \<Rightarrow> nat list \<Rightarrow> bool" where
  "by_count cols = sorted_wrt (\<lambda>p q. counter (cols ! q) \<le> counter (cols ! p))"

lemma by_count_mono: "by_count cols idx \<Longrightarrow> a \<le> b \<Longrightarrow> b < length idx \<Longrightarrow> counter (cols ! (idx ! b)) \<le> counter (cols ! (idx ! a))"
  by (cases "a = b") (simp_all add: by_count_def sorted_wrt_iff_nth_less)

lemma mid_index_gt:
  assumes "by_count cols idx" "a < b" "b < length idx" "half \<le> counter (cols ! (idx ! a))"
  shows "a < mid_index cols idx 1 half"
proof (cases "half \<le> counter (cols ! (idx ! (length idx - 1)))")
  case True
  then show ?thesis using assms(2,3) by (simp add: mid_index_def Let_def)
next
  case False
  let ?P = "\<lambda>p. half \<le> counter (cols ! p)"
  have "\<not> length (takeWhile ?P idx) \<le> a"
  proof
    assume *: "length (takeWhile ?P idx) \<le> a"
    then have "\<not> ?P (idx ! length (takeWhile ?P idx))" using assms(2,3) by (intro nth_length_takeWhile) simp
    then show False using by_count_mono [OF assms(1) *] assms(2-4) by simp
  qed
  then show ?thesis using False by (simp add: mid_index_def Let_def)
qed

lemma in_set_dropWhile: "x \<in> set xs \<Longrightarrow> \<not> P x \<Longrightarrow> x \<in> set (dropWhile P xs)"
  by (induction xs) auto

lemma GetBest2Solution_complete:
  assumes mat: "matrix_ok (bsize m) cols" "bv_ok m" "0 < bsize m"
    and masked: "\<forall>p<length cols. bv_set (cols ! p) \<inter> bv_set m = {}"
    and idx: "by_count cols idx" "cols_in cols idx" "a < b" "b < length idx" and cov: "covers cols m [idx ! a, idx ! b]"
  shows "\<exists>r. GetBest2Solution cols m idx {} = Some r \<and> snd r \<noteq> []"
proof -
  have ab: "idx ! a < length cols" "idx ! b < length cols" using idx by (simp_all add: cols_in_def)
  then have w: "rows_left m \<le> counter (cols ! (idx ! a)) + counter (cols ! (idx ! b))"
    using weight_of_ge [OF mat(1) _ mat(2) cov] by (simp add: weight_of_def)
  have small: "counter (cols ! p) \<le> rows_left m" if "p < length cols" for p
    using masked_count_le [OF _ mat(2)] matrix_okD [OF mat(1) that] masked that by blast
  have "rows_left m < 2 ^ 31" using bv_shapeD(1) [OF bv_okD(1) [OF mat(2)]] by (simp add: rows_left_def)
  then have "u32_ge (counter (cols ! (idx ! b))) (int (rows_left m) - int (counter (cols ! (idx ! a))))"
    using w small [OF ab(1)] by (subst u32_ge_iff) simp_all
  moreover have "b \<in> set (rev [Suc a..<length idx])" using idx by simp
  ultimately have "b \<in> set (dropWhile (\<lambda>jj. \<not> u32_ge (counter (cols ! (idx ! jj)))
      (int (rows_left m) - int (counter (cols ! (idx ! a))))) (rev [Suc a..<length idx]))"
    by (intro in_set_dropWhile) simp_all
  moreover have "a < mid_index cols idx 1 (rows_left m div 2)"
    using by_count_mono [OF idx(1), of a b] idx w by (intro mid_index_gt [OF idx(1,3,4)]) simp
  ultimately have pair: "[idx ! a, idx ! b] \<in> set (pairs_sorted cols idx (rows_left m) (mid_index cols idx 1 (rows_left m div 2)))"
    unfolding pairs_sorted_def Let_def by fastforce
  have ne: "t \<noteq> []" if "t \<in> set (pairs_sorted cols idx mx md)" for t mx md
    using that unfolding pairs_sorted_def Let_def by auto
  have ok: "IsSolutionLite2 cols m (idx ! a) (idx ! b)"
    unfolding Lite2_eq using IsSolutionLite_iff [OF mat(1) _ mat(2,3)] ab cov by simp
  have "idx \<noteq> []" using idx by auto
  then show ?thesis
    using first_sol_nonempty [OF pair, of "\<lambda>t. IsSolutionLite2 cols m (t ! 0) (t ! 1) \<and> \<not> IsExSolution t {}" "\<lambda>_. 0" 0] ok ne
    by (simp add: GetBest2Solution_def Let_def IsExSolution_def)
qed

lemma GetBest2Solution_list_complete:
  assumes mat: "matrix_ok (bsize m) cols" "bv_ok m" "0 < bsize m" and cov: "covers cols m [i, j]"
    and ij: "i \<in> set ps" "i < length cols" "j < length cols"
  shows "snd (GetBest2Solution_list cols m ps {}) \<noteq> []"
proof -
  have ok: "IsSolutionLite2 cols m i j"
    unfolding Lite2_eq using IsSolutionLite_iff [OF mat(1) _ mat(2,3)] ij cov by simp
  have w: "rows_left m \<le> weight_of cols [i, j]" using ij cov by (intro weight_of_ge mat) simp_all
  have pair: "[i, j] \<in> set (concat (map (\<lambda>i. map (\<lambda>j. [i, j]) [0..<length cols]) ps))" using ij by fastforce
  show ?thesis
    unfolding GetBest2Solution_list_def Let_def
    by (rule first_sol_nonempty [OF pair]) (use ok w in \<open>auto simp: IsExSolution_def\<close>)
qed

text \<open>The best pair: the largest weight first, then the smallest overlap.\<close>

lemma best_pair_fold:
  fixes wt ov :: "nat \<times> nat \<Rightarrow> nat"
  assumes "\<And>p s. step p s = (case s of (mw, ow, sol) \<Rightarrow>
      if mw < wt p \<or> wt p = mw \<and> ov p < ow then (wt p, ov p, [fst p, snd p]) else (mw, ow, sol))"
    and "fold step P (0, 0, []) = (mw, ow, sol)"
  shows "mw = 0 \<and> ow = 0 \<and> sol = [] \<and> (\<forall>p\<in>set P. wt p = 0) \<or>
    (\<exists>p\<in>set P. sol = [fst p, snd p] \<and> 0 < mw \<and> mw = wt p \<and> ow = ov p \<and>
      (\<forall>q\<in>set P. wt q < mw \<or> wt q = mw \<and> ow \<le> ov q))"
  using assms(2)
proof (induction P arbitrary: mw ow sol rule: rev_induct)
  case (snoc p P)
  obtain mw' ow' sol' where f: "fold step P (0, 0, []) = (mw', ow', sol')" by (metis prod_cases3)
  then have s: "(mw, ow, sol) = (if mw' < wt p \<or> wt p = mw' \<and> ov p < ow' then (wt p, ov p, [fst p, snd p]) else (mw', ow', sol'))"
    using snoc.prems f assms(1) [of p "(mw', ow', sol')"] by simp
  show ?case
  proof (cases "mw' < wt p \<or> wt p = mw' \<and> ov p < ow'")
    case True
    then have "mw = wt p" "ow = ov p" "sol = [fst p, snd p]" using s by simp_all
    then show ?thesis using snoc.IH [OF f] True by fastforce
  next
    case False
    then have "(mw, ow, sol) = (mw', ow', sol')" using s by argo
    then have "mw = mw'" "ow = ow'" "sol = sol'" by simp_all
    then show ?thesis using snoc.IH [OF f] False by fastforce
  qed
qed simp

lemma GetBest2Selection_best:
  assumes "GetBest2Selection cols m ps {} = (w, sol)"
  shows "w = 0 \<and> sol = [] \<and> (\<forall>(i, j)\<in>set (pairs ps). count_or_mask (cols ! i) (cols ! j) m = 0) \<or>
    (\<exists>(i, j)\<in>set (pairs ps). sol = [i, j] \<and> 0 < w \<and> w = count_or_mask (cols ! i) (cols ! j) m \<and>
      (\<forall>(k, l)\<in>set (pairs ps). count_or_mask (cols ! k) (cols ! l) m < w \<or> count_or_mask (cols ! k) (cols ! l) m = w \<and>
         count_and_mask (cols ! i) (cols ! j) m \<le> count_and_mask (cols ! k) (cols ! l) m))"
proof -
  let ?wt = "\<lambda>p. count_or_mask (cols ! fst p) (cols ! snd p) m" and ?ov = "\<lambda>p. count_and_mask (cols ! fst p) (cols ! snd p) m"
  obtain ow where f: "fold (best_pair_step cols m {}) (pairs ps) (0, 0, []) = (w, ow, sol)"
    using assms by (auto simp: GetBest2Selection_def split: prod.splits)
  have step: "best_pair_step cols m {} p s = (case s of (mw, ow, sol) \<Rightarrow>
      if mw < ?wt p \<or> ?wt p = mw \<and> ?ov p < ow then (?wt p, ?ov p, [fst p, snd p]) else (mw, ow, sol))" for p s
    by (cases p; cases s) (simp add: best_pair_step_def IsExSolution_def Let_def)
  show ?thesis using best_pair_fold [OF step f] by (auto simp: case_prod_beta)
qed

section \<open>Correctness\<close>

text \<open>
  C13 (equivalence). The covering test on words decides whether the columns and the row mask cover
  all rows, when the number of rows is not a multiple of 64; the tests for two and for three columns
  are the general one. For a multiple of 64 the test also accepts exactly the 64 last rows left
  uncovered, because the count of the last word is compared modulo 64.
\<close>

theorem IsSolutionLite_correct:
  assumes "matrix_ok (bsize m) cols" "cols_in cols ps" "bv_ok m" "0 < bsize m"
  shows "(bsize m mod 64 \<noteq> 0 \<longrightarrow> (IsSolutionLite cols m ps \<longleftrightarrow> bv_set m \<union> (\<Union>p\<in>set ps. bv_set (cols ! p)) = {..<bsize m})) \<and>
    (bsize m mod 64 = 0 \<longrightarrow> (IsSolutionLite cols m ps \<longleftrightarrow>
       (\<exists>k\<in>{bsize m, bsize m - 64}. bv_set m \<union> (\<Union>p\<in>set ps. bv_set (cols ! p)) = {..<k}))) \<and>
    IsSolutionLite2 cols m p q = IsSolutionLite cols m [p, q] \<and>
    IsSolutionLite3 cols m p q r = IsSolutionLite cols m [p, q, r]"
  using IsSolutionLite_iff [OF assms] unfolding covers_def union_of_def by (auto simp: Lite2_eq Lite3_eq)

lemma two_columns:
  defines "v \<equiv> \<lambda>i. bv_setbit i (bv_new 2)"
  shows "matrix_ok 2 [v 0, v 1] \<and> bv_ok (bv_new 2) \<and> bsize (bv_new 2) = 2 \<and> bv_set (bv_new 2) = {} \<and>
    bv_ok (v 0) \<and> bv_ok (v 1) \<and> bsize (v 0) = 2 \<and> bsize (v 1) = 2 \<and>
    bv_set (v 0) = {0} \<and> bv_set (v 1) = {1} \<and> counter (v 0) = 1 \<and> counter (v 1) = 1"
proof -
  have n: "bv_ok (bv_new 2) \<and> bsize (bv_new 2) = 2 \<and> bv_set (bv_new 2) = {}" using bv_new_ok [of 2] by simp
  then have b: "bv_ok (v i) \<and> bsize (v i) = 2 \<and> bv_set (v i) = {i}" if "i < 2" for i
    unfolding v_def using bv_setbit_ok [of "bv_new 2" i] that by simp
  then show ?thesis using n b [of 0] b [of 1] bv.cnt_card [of "v 0"] bv.cnt_card [of "v 1"] by (simp add: matrix_ok_def)
qed

lemma bv_new_64: "bv_ok (bv_new 64)" "bsize (bv_new 64) = 64" "bv_set (bv_new 64) = {}"
  using bv_new_ok [of 64] by simp_all

theorem IsSolutionLite_witness:
  "IsSolutionLite [bv_setbit 0 (bv_new 2), bv_setbit 1 (bv_new 2)] (bv_new 2) [0, 1] \<and>
   \<not> IsSolutionLite [bv_setbit 0 (bv_new 2), bv_setbit 1 (bv_new 2)] (bv_new 2) [0]"
proof -
  let ?cols = "[bv_setbit 0 (bv_new 2), bv_setbit 1 (bv_new 2)]"
  have m: "matrix_ok (bsize (bv_new 2)) ?cols" "bv_ok (bv_new 2)" "0 < bsize (bv_new 2)" "bsize (bv_new 2) = 2"
    using two_columns by simp_all
  have sets: "bv_set (bv_setbit 0 (bv_new 2)) = {0}" "bv_set (bv_setbit 1 (bv_new 2)) = {1}" "bv_set (bv_new 2) = {}"
    using two_columns by simp_all
  have "{..<2} = {0, 1 :: nat}" "{0 :: nat} \<noteq> {0, 1}" by auto
  then show ?thesis
    using IsSolutionLite_correct [OF m(1) _ m(2,3), of "[0, 1]" 0 0 0] IsSolutionLite_correct [OF m(1) _ m(2,3), of "[0]" 0 0 0]
    by (simp add: m(4) sets sets [unfolded One_nat_def] insert_commute)
qed

text \<open>With 64 rows, none covered, the test accepts the empty list of columns.\<close>

lemma IsSolutionLite_accepts_nothing: "IsSolutionLite [] (bv_new 64) [] \<and> \<not> covers [] (bv_new 64) []"
proof
  show "IsSolutionLite [] (bv_new 64) []"
    using IsSolutionLite_iff [of "bv_new 64" "[]" "[]"] by (simp add: bv_new_64 matrix_ok_def)
  have "(0 :: nat) \<in> {..<64}" by simp
  then have "{} \<noteq> {..<64 :: nat}" by blast
  then show "\<not> covers [] (bv_new 64) []" by (simp add: bv_new_64 covers_def)
qed

text \<open>
  C30 (refinement). \<open>RemoveRowCol1\<close> takes the masked rows out of every column and empties them as
  rows; the matrices stay well formed.
\<close>

theorem RemoveRowCol1_correct:
  assumes "matrix_ok n cols" "matrix_ok c rows" "bv_ok m" "bsize m = n" "length rows = n"
    and "RemoveRowCol1 oob cols rows m = (cols', rows')"
  shows "matrix_ok n cols' \<and> matrix_ok c rows' \<and>
    map bv_set cols' = map (\<lambda>v. bv_set v - bv_set m) cols \<and>
    map bv_set rows' = map (\<lambda>i. if i \<in> bv_set m then {} else bv_set (rows ! i)) [0..<n]"
  using RemoveRowCol1_ok [OF assms(1-5), where oob = oob] assms(6) by (auto simp: list_eq_iff_nth_eq)

theorem RemoveRowCol1_witness:
  "case RemoveRowCol1 0 [bv_new 2, bv_setbit 1 (bv_new 2)] [bv_setbit 0 (bv_new 2), bv_setbit 1 (bv_new 2)] (bv_setbit 1 (bv_new 2)) of
    (cols', rows') \<Rightarrow> map bv_set cols' = [{}, {}] \<and> map bv_set rows' = [{0}, {}]"
proof -
  let ?a = "bv_setbit 0 (bv_new 2)" and ?b = "bv_setbit 1 (bv_new 2)"
  have m: "matrix_ok 2 [bv_new 2, ?b]" "matrix_ok 2 [?a, ?b]" "bv_ok ?b" "bsize ?b = 2" "length [?a, ?b] = 2"
    using two_columns by (simp_all add: matrix_ok_def)
  obtain cols' rows' where r: "RemoveRowCol1 0 [bv_new 2, ?b] [?a, ?b] ?b = (cols', rows')" by (metis surj_pair)
  have sets: "bv_set (bv_new 2) = {}" "bv_set ?a = {0}" "bv_set ?b = {1}" using two_columns by simp_all
  have u: "[0..<2] = [0, 1 :: nat]" by (simp add: upt_rec)
  have "map bv_set cols' = [{}, {}]" "map bv_set rows' = [{0}, {}]"
    using RemoveRowCol1_correct [OF m r] unfolding sets u by (simp_all add: sets sets [unfolded One_nat_def])
  then show ?thesis unfolding r by simp
qed

text \<open>
  C31 (functional). With no solution excluded the two searches for two columns are complete. When the
  rows of the mask were taken out of the columns and the list is sorted by the counters,
  \<open>GetBest2Solution\<close> returns two columns of the list that pass the covering test whenever two columns
  of the list cover the rows that are left, although it starts at the middle of the list and skips the
  light columns. The search \<open>GetBest2Solution_list\<close> from a list of columns, in any order, returns a
  pair that passes the test whenever a column of the list and some column of the matrix cover the rows
  that are left.
\<close>

theorem GetBest2Solution_finds:
  assumes "matrix_ok (bsize m) cols" "bv_ok m" "0 < bsize m"
  shows "(\<forall>idx a b. (\<forall>p<length cols. bv_set (cols ! p) \<inter> bv_set m = {}) \<and> by_count cols idx \<and> cols_in cols idx \<and>
        a < b \<and> b < length idx \<and> covers cols m [idx ! a, idx ! b] \<longrightarrow>
      (\<exists>w i j. GetBest2Solution cols m idx {} = Some (w, [i, j]) \<and> i \<in> set idx \<and> j \<in> set idx \<and> IsSolutionLite cols m [i, j])) \<and>
    (\<forall>ps i j. i \<in> set ps \<and> i < length cols \<and> j < length cols \<and> covers cols m [i, j] \<longrightarrow>
      (\<exists>w k l. GetBest2Solution_list cols m ps {} = (w, [k, l]) \<and> k \<in> set ps \<and> l < length cols \<and> IsSolutionLite cols m [k, l]))"
proof (intro conjI allI impI; elim conjE)
  fix idx a b
  assume *: "\<forall>p<length cols. bv_set (cols ! p) \<inter> bv_set m = {}" "by_count cols idx" "cols_in cols idx" "a < b" "b < length idx"
    "covers cols m [idx ! a, idx ! b]"
  obtain r where r: "GetBest2Solution cols m idx {} = Some r" "snd r \<noteq> []"
    using GetBest2Solution_complete [OF assms *] by blast
  have two: "length t = 2 \<Longrightarrow> \<exists>i j. t = [i, j]" for t :: "nat list" by (auto simp: length_Suc_conv numeral_2_eq_2)
  obtain i j where ij: "snd r = [i, j]" "i \<in> set idx" "j \<in> set idx" "IsSolutionLite cols m [i, j]"
    using GetBest2Solution_found [OF r(1)] r(2) two [of "snd r"] by (auto simp: found_def)
  then show "\<exists>w i j. GetBest2Solution cols m idx {} = Some (w, [i, j]) \<and> i \<in> set idx \<and> j \<in> set idx \<and> IsSolutionLite cols m [i, j]"
    using r(1) by (metis prod.collapse)
next
  fix ps i j
  assume *: "i \<in> set ps" "i < length cols" "j < length cols" "covers cols m [i, j]"
  obtain w t where g: "GetBest2Solution_list cols m ps {} = (w, t)" by fastforce
  have "t \<noteq> []" using GetBest2Solution_list_complete [OF assms *(4,1-3)] g by simp
  then have "found cols m {} 2 (set ps \<union> {..<length cols}) t" "\<exists>k\<in>set ps. \<exists>l<length cols. t = [k, l]"
    using GetBest2Solution_list_found [of cols m ps "{}"] g by simp_all
  then show "\<exists>w k l. GetBest2Solution_list cols m ps {} = (w, [k, l]) \<and> k \<in> set ps \<and> l < length cols \<and> IsSolutionLite cols m [k, l]"
    using g by (auto simp: found_def)
qed

theorem GetBest2Solution_witness:
  "(\<exists>w i j. GetBest2Solution [bv_setbit 0 (bv_new 2), bv_setbit 1 (bv_new 2)] (bv_new 2) [0, 1] {} = Some (w, [i, j]) \<and>
    IsSolutionLite [bv_setbit 0 (bv_new 2), bv_setbit 1 (bv_new 2)] (bv_new 2) [i, j]) \<and>
   (\<exists>w k. GetBest2Solution_list [bv_setbit 0 (bv_new 2), bv_setbit 1 (bv_new 2)] (bv_new 2) [1] {} = (w, [1, k]))"
proof -
  let ?cols = "[bv_setbit 0 (bv_new 2), bv_setbit 1 (bv_new 2)]"
  have c: "covers ?cols (bv_new 2) [0, 1]" "covers ?cols (bv_new 2) [1, 0]"
    using two_columns by (auto simp: covers_def)
  have "\<forall>p<2. bv_set (?cols ! p) \<inter> bv_set (bv_new 2) = {}" using two_columns by simp
  moreover have "matrix_ok (bsize (bv_new 2)) ?cols" "bv_ok (bv_new 2)" "0 < bsize (bv_new 2)" "by_count ?cols [0, 1]"
    using two_columns by (simp_all add: by_count_def)
  ultimately have f:
    "\<exists>w i j. GetBest2Solution ?cols (bv_new 2) [0, 1] {} = Some (w, [i, j]) \<and> i \<in> set [0, 1] \<and> j \<in> set [0, 1] \<and>
       IsSolutionLite ?cols (bv_new 2) [i, j]"
    "\<forall>ps i j. i \<in> set ps \<and> i < length ?cols \<and> j < length ?cols \<and> covers ?cols (bv_new 2) [i, j] \<longrightarrow>
       (\<exists>w k l. GetBest2Solution_list ?cols (bv_new 2) ps {} = (w, [k, l]) \<and> k \<in> set ps \<and> l < length ?cols \<and>
          IsSolutionLite ?cols (bv_new 2) [k, l])"
    using GetBest2Solution_finds [of "bv_new 2" ?cols, THEN conjunct1, rule_format, of "[0, 1]" 0 1]
      GetBest2Solution_finds [of "bv_new 2" ?cols, THEN conjunct2] c(1) by auto
  have "\<exists>w k l. GetBest2Solution_list ?cols (bv_new 2) [1] {} = (w, [k, l]) \<and> k \<in> set [1] \<and> l < length ?cols \<and>
      IsSolutionLite ?cols (bv_new 2) [k, l]"
    by (rule f(2) [rule_format, of 1 _ 0]) (use c(2) in simp)
  then show ?thesis using f(1) by auto
qed

text \<open>
  C32 (safety). No search returns columns that do not pass: a nonempty result has the right number of
  columns, all from the candidates, passes the covering test, and is not an excluded solution.
\<close>

theorem searches_sound:
  assumes "GetBest2Solution cols m idx ex = Some r2" "GetBest3Solution cols m idx ex = Some r3"
    "GetBest3Solution_list cols m ps idx ex = Some r3'" "GetBest4Solution cols m ps idx ex = Some r4"
    "cols_in cols idx" "cols_in cols ps"
  shows "\<forall>(k, sol)\<in>set [(2, snd r2), (2, snd (GetBest2Solution_list cols m ps ex)), (3, snd r3), (3, snd r3'),
      (3, snd (GetBest3Solution_all cols m ps ex)), (4, snd r4)].
    sol \<noteq> [] \<longrightarrow> length sol = k \<and> (\<forall>p\<in>set sol. p < length cols) \<and> IsSolutionLite cols m sol \<and> \<not> IsExSolution sol ex"
  using GetBest2Solution_found [OF assms(1)] GetBest2Solution_list_found [of cols m ps ex] GetBest3Solution_found [OF assms(2)]
    GetBest3Solution_list_found [OF assms(3)] GetBest3Solution_all_found [of cols m ps ex] GetBest4Solution_found [OF assms(4)] assms(5,6)
  unfolding found_def cols_in_def list.set ball_simps prod.case by (intro conjI impI) blast+

theorem searches_witness:
  "\<exists>r2 r3 r3' r4. GetBest2Solution [bv_setbit 0 (bv_new 2), bv_setbit 1 (bv_new 2)] (bv_new 2) [0, 1] {} = Some r2 \<and>
    GetBest3Solution [bv_setbit 0 (bv_new 2), bv_setbit 1 (bv_new 2)] (bv_new 2) [0, 1] {} = Some r3 \<and>
    GetBest3Solution_list [bv_setbit 0 (bv_new 2), bv_setbit 1 (bv_new 2)] (bv_new 2) [1] [0, 1] {} = Some r3' \<and>
    GetBest4Solution [bv_setbit 0 (bv_new 2), bv_setbit 1 (bv_new 2)] (bv_new 2) [1] [0, 1] {} = Some r4 \<and>
    length (snd r2) \<in> {0, 2} \<and> length (snd r3) \<in> {0, 3} \<and> length (snd r3') \<in> {0, 3} \<and> length (snd r4) \<in> {0, 4}"
proof -
  let ?cols = "[bv_setbit 0 (bv_new 2), bv_setbit 1 (bv_new 2)]"
  obtain r2 r3 r3' r4 where r: "GetBest2Solution ?cols (bv_new 2) [0, 1] {} = Some r2" "GetBest3Solution ?cols (bv_new 2) [0, 1] {} = Some r3"
    "GetBest3Solution_list ?cols (bv_new 2) [1] [0, 1] {} = Some r3'" "GetBest4Solution ?cols (bv_new 2) [1] [0, 1] {} = Some r4"
    by (simp add: GetBest2Solution_def GetBest3Solution_def GetBest3Solution_list_def GetBest4Solution_def Let_def)
  have "cols_in ?cols [0, 1]" "cols_in ?cols [1]" by simp_all
  from searches_sound [OF r this]
  have "length (snd r2) \<in> {0, 2}" "length (snd r3) \<in> {0, 3}" "length (snd r3') \<in> {0, 3}" "length (snd r4) \<in> {0, 4}" by fastforce+
  then show ?thesis using r by blast
qed

text \<open>
  \<open>GetBest2Selection\<close> returns a pair of the largest union outside the mask, and of
  the smallest overlap among those; it returns no pair exactly when every union is empty.
\<close>

theorem GetBest2Selection_correct:
  assumes "matrix_ok (bsize m) cols" "cols_in cols ps" "bv_ok m" "GetBest2Selection cols m ps {} = (w, sol)"
  defines "gain \<equiv> \<lambda>(i, j). card ((bv_set (cols ! i) \<union> bv_set (cols ! j)) - bv_set m)"
    and "overlap \<equiv> \<lambda>(i, j). card ((bv_set (cols ! i) \<inter> bv_set (cols ! j)) - bv_set m)"
  shows "if \<forall>p\<in>set (pairs ps). gain p = 0 then sol = [] \<and> w = 0
    else \<exists>p\<in>set (pairs ps). sol = [fst p, snd p] \<and> w = gain p \<and>
      (\<forall>q\<in>set (pairs ps). gain q < gain p \<or> gain q = gain p \<and> overlap p \<le> overlap q)"
proof -
  have cnt: "count_or_mask (cols ! i) (cols ! j) m = gain (i, j)" "count_and_mask (cols ! i) (cols ! j) m = overlap (i, j)"
    if "(i, j) \<in> set (pairs ps)" for i j
  proof -
    have "i < length cols" "j < length cols" using set_pairs [OF that] assms(2) by (simp_all add: cols_in_def)
    then show "count_or_mask (cols ! i) (cols ! j) m = gain (i, j)" "count_and_mask (cols ! i) (cols ! j) m = overlap (i, j)"
      using matrix_okD [OF assms(1)] assms(3) bv_okD(1) count_mask_ops by (simp_all add: gain_def overlap_def)
  qed
  from GetBest2Selection_best [OF assms(4)] show ?thesis
  proof
    assume "w = 0 \<and> sol = [] \<and> (\<forall>(i, j)\<in>set (pairs ps). count_or_mask (cols ! i) (cols ! j) m = 0)"
    then have "\<forall>p\<in>set (pairs ps). gain p = 0" "w = 0" "sol = []" using cnt by auto
    then show ?thesis by simp
  next
    assume "\<exists>(i, j)\<in>set (pairs ps). sol = [i, j] \<and> 0 < w \<and> w = count_or_mask (cols ! i) (cols ! j) m \<and>
      (\<forall>(k, l)\<in>set (pairs ps). count_or_mask (cols ! k) (cols ! l) m < w \<or> count_or_mask (cols ! k) (cols ! l) m = w \<and>
         count_and_mask (cols ! i) (cols ! j) m \<le> count_and_mask (cols ! k) (cols ! l) m)"
    then obtain i j where ij: "(i, j) \<in> set (pairs ps)" "sol = [i, j]" "0 < w" "w = count_or_mask (cols ! i) (cols ! j) m"
      and best: "\<And>k l. (k, l) \<in> set (pairs ps) \<Longrightarrow> count_or_mask (cols ! k) (cols ! l) m < w \<or>
        count_or_mask (cols ! k) (cols ! l) m = w \<and> count_and_mask (cols ! i) (cols ! j) m \<le> count_and_mask (cols ! k) (cols ! l) m"
      by blast
    have w: "w = gain (i, j)" using ij(4) cnt(1) [OF ij(1)] by simp
    have "gain q < gain (i, j) \<or> gain q = gain (i, j) \<and> overlap (i, j) \<le> overlap q" if q: "q \<in> set (pairs ps)" for q
      using best [of "fst q" "snd q"] cnt [of "fst q" "snd q"] cnt(2) [OF ij(1)] q w by simp
    moreover have "\<not> (\<forall>p\<in>set (pairs ps). gain p = 0)" using ij(1,3) w by auto
    ultimately show ?thesis using ij(1,2) w by (auto intro!: bexI [OF _ ij(1)])
  qed
qed

theorem GetBest2Selection_witness:
  "\<exists>w sol. GetBest2Selection [bv_setbit 0 (bv_new 2), bv_setbit 1 (bv_new 2)] (bv_new 2) [0, 1] {} = (w, sol) \<and> sol = [0, 1] \<and> w = 2"
proof -
  obtain w sol where r: "GetBest2Selection [bv_setbit 0 (bv_new 2), bv_setbit 1 (bv_new 2)] (bv_new 2) [0, 1] {} = (w, sol)"
    by (metis surj_pair)
  have m: "matrix_ok (bsize (bv_new 2)) [bv_setbit 0 (bv_new 2), bv_setbit 1 (bv_new 2)]" "bv_ok (bv_new 2)"
    using two_columns by simp_all
  have sets: "bv_set (bv_setbit 0 (bv_new 2)) = {0}" "bv_set (bv_setbit 1 (bv_new 2)) = {1}" "bv_set (bv_new 2) = {}"
    using two_columns by simp_all
  have "card ({0, 1} :: nat set) = 2" by simp
  then show ?thesis
    using GetBest2Selection_correct [OF m(1) _ m(2) r] r by (simp add: sets sets [unfolded One_nat_def] split: if_splits)
qed

end
