(* ===== verification/Sc_Sort.thy ===== *)
theory Sc_Sort
  imports Sc_Cover "HOL-Library.Multiset"
begin

text \<open>
  \<open>src/setcover/setcover.cpp\<close>: the two quicksorts of the set cover, \<open>SortCol\<close> over the numbers of rows of the
  columns and \<open>SortWei\<close> over the weights of the signals. They work in place, with a partition loop that
  moves a hole and an explicit stack of intervals. A sort of an empty vector reads outside it: \<open>None\<close>.
\<close>

section \<open>The code\<close>

subsection \<open>Partition\<close>

text \<open>
  \<open>PartitionCol\<close> and \<open>PartitionWei\<close> are the same loop over the keys \<open>count\<close> and \<open>weight\<close>. The list has a hole at
  \<open>low\<close>, whose value is the pivot; the loop moves the hole from the left end to the right one and back.
\<close>

function scan_down :: "('a \<Rightarrow> 'k :: linorder) \<Rightarrow> 'a \<Rightarrow> 'a list \<Rightarrow> nat \<Rightarrow> nat \<Rightarrow> nat" where
  "scan_down key pivot xs low high =
    (if low < high \<and> key (xs ! high) \<le> key pivot then scan_down key pivot xs low (high - 1) else high)"
  by pat_completeness auto
termination
  by (relation "measure (\<lambda>(key, pivot, xs, low, high). high)") auto

function scan_up :: "('a \<Rightarrow> 'k :: linorder) \<Rightarrow> 'a \<Rightarrow> 'a list \<Rightarrow> nat \<Rightarrow> nat \<Rightarrow> nat" where
  "scan_up key pivot xs low high =
    (if low < high \<and> key pivot \<le> key (xs ! low) then scan_up key pivot xs (low + 1) high else low)"
  by pat_completeness auto
termination
  by (relation "measure (\<lambda>(key, pivot, xs, low, high). high - low)") auto

declare scan_down.simps [simp del] scan_up.simps [simp del]

lemma scan_down_spec:
  assumes "low \<le> high"
  shows "low \<le> scan_down key p xs low high \<and> scan_down key p xs low high \<le> high \<and>
    (\<forall>i. scan_down key p xs low high < i \<and> i \<le> high \<longrightarrow> key (xs ! i) \<le> key p) \<and>
    (low < scan_down key p xs low high \<longrightarrow> key p < key (xs ! scan_down key p xs low high))"
  using assms
proof (induction key p xs low high rule: scan_down.induct)
  case (1 key p xs low high)
  show ?case
  proof (cases "low < high \<and> key (xs ! high) \<le> key p")
    case True
    then have "scan_down key p xs low high = scan_down key p xs low (high - 1)" by (simp add: scan_down.simps)
    moreover have "i \<le> high - 1 \<or> i = high" if "i \<le> high" for i using that by linarith
    ultimately show ?thesis using "1.IH" [OF True] True by fastforce
  next
    case False
    then have "scan_down key p xs low high = high" by (subst scan_down.simps) auto
    then show ?thesis using False "1.prems" by auto
  qed
qed

lemma scan_up_spec:
  assumes "low \<le> high"
  shows "low \<le> scan_up key p xs low high \<and> scan_up key p xs low high \<le> high \<and>
    (\<forall>i. low \<le> i \<and> i < scan_up key p xs low high \<longrightarrow> key p \<le> key (xs ! i)) \<and>
    (scan_up key p xs low high < high \<longrightarrow> key (xs ! scan_up key p xs low high) < key p) \<and>
    (low < high \<and> key p \<le> key (xs ! low) \<longrightarrow> low < scan_up key p xs low high)"
  using assms
proof (induction key p xs low high rule: scan_up.induct)
  case (1 key p xs low high)
  show ?case
  proof (cases "low < high \<and> key p \<le> key (xs ! low)")
    case True
    then have "scan_up key p xs low high = scan_up key p xs (low + 1) high" by (subst scan_up.simps) simp
    moreover have "low + 1 \<le> i \<or> i = low" if "low \<le> i" for i using that by linarith
    ultimately show ?thesis using "1.IH" [OF True] True by fastforce
  next
    case False
    then have "scan_up key p xs low high = low" by (subst scan_up.simps) auto
    then show ?thesis using False "1.prems" by auto
  qed
qed

text \<open>The indices are always inside the list; the loop is not defined outside.\<close>

function partition_loop :: "('a \<Rightarrow> 'k :: linorder) \<Rightarrow> 'a \<Rightarrow> 'a list \<Rightarrow> nat \<Rightarrow> nat \<Rightarrow> 'a list \<times> nat" where
  "partition_loop key pivot xs low high =
    (if low < high \<and> high < length xs then
       let high = scan_down key pivot xs low high;
           xs = xs[low := xs ! high];
           low = scan_up key pivot xs low high;
           xs = xs[high := xs ! low]
       in partition_loop key pivot xs low high
     else (xs, low))"
  by pat_completeness auto

lemma partition_step:
  fixes key :: "'a \<Rightarrow> 'k :: linorder" and p :: 'a
  assumes "low < high" "high < length xs"
  defines "h \<equiv> scan_down key p xs low high"
  defines "xs1 \<equiv> xs[low := xs ! h]"
  defines "l \<equiv> scan_up key p xs1 low h"
  shows "low \<le> l" "l \<le> h" "h \<le> high" "h - l < high - low"
    "\<forall>i. h < i \<and> i \<le> high \<longrightarrow> key (xs ! i) \<le> key p"
    "\<forall>i. low \<le> i \<and> i < l \<longrightarrow> key p \<le> key (xs1 ! i)"
proof -
  have d: "low \<le> h" "h \<le> high" "\<forall>i. h < i \<and> i \<le> high \<longrightarrow> key (xs ! i) \<le> key p" "low < h \<longrightarrow> key p < key (xs ! h)"
    using scan_down_spec [of low high key p xs] assms(1) by (simp_all add: h_def)
  have u: "low \<le> l" "l \<le> h" "\<forall>i. low \<le> i \<and> i < l \<longrightarrow> key p \<le> key (xs1 ! i)" "low < h \<and> key p \<le> key (xs1 ! low) \<longrightarrow> low < l"
    using scan_up_spec [OF d(1), of key p xs1] by (simp_all add: l_def)
  show "low \<le> l" "l \<le> h" "h \<le> high" "\<forall>i. h < i \<and> i \<le> high \<longrightarrow> key (xs ! i) \<le> key p"
    "\<forall>i. low \<le> i \<and> i < l \<longrightarrow> key p \<le> key (xs1 ! i)" by (fact d u)+
  have "xs1 ! low = xs ! h" using assms(1,2) by (simp add: xs1_def)
  then have "low < h \<Longrightarrow> low < l" using d(4) u(4) by (simp add: less_imp_le)
  then show "h - l < high - low" using assms(1) d(1,2) u(1,2) by (cases "low < h") linarith+
qed

termination partition_loop
proof (relation "measure (\<lambda>(key, pivot, xs, low, high). high - low)", simp)
  fix key :: "'a \<Rightarrow> 'k :: linorder" and p xs low high h xs1 l xs2
  assume "low < high \<and> high < length xs" "h = scan_down key p xs low high" "xs1 = xs[low := xs ! h]"
    "l = scan_up key p xs1 low h" "xs2 = xs1[h := xs1 ! l]"
  then show "((key, p, xs2, l, h), key, p, xs, low, high) \<in> measure (\<lambda>(key, pivot, xs, low, high). high - low)"
    using partition_step(4) [of low high xs key p] by simp
qed

declare partition_loop.simps [simp del]

definition partition_at :: "('a \<Rightarrow> 'k :: linorder) \<Rightarrow> 'a list \<Rightarrow> nat \<Rightarrow> nat \<Rightarrow> 'a list \<times> nat" where
  "partition_at key xs low high =
    (let pivot = xs ! low; (xs, low) = partition_loop key pivot xs low high in (xs[low := pivot], low))"

definition PartitionCol :: "matrix \<Rightarrow> nat list \<Rightarrow> nat \<Rightarrow> nat \<Rightarrow> nat list \<times> nat" where
  "PartitionCol cols = partition_at (\<lambda>p. counter (cols ! p))"

definition PartitionWei :: "int list \<Rightarrow> nat list \<Rightarrow> nat \<Rightarrow> nat \<Rightarrow> nat list \<times> nat" where
  "PartitionWei weights = partition_at (\<lambda>p. weights ! p)"

subsection \<open>Sorting with a stack of intervals\<close>

text \<open>The stack \<open>pivots\<close>, its top first: each interval is pushed as its low end and then its high end.\<close>

definition push_intervals :: "nat \<Rightarrow> nat \<Rightarrow> nat \<Rightarrow> nat list \<Rightarrow> nat list" where
  "push_intervals low mid high pivots =
    (let pivots = (if low < mid - 1 then (mid - 1) # low # pivots else pivots)
     in if mid + 1 < high then high # (mid + 1) # pivots else pivots)"

lemma partition_loop_bounds:
  "low \<le> high \<Longrightarrow> low \<le> snd (partition_loop key p xs low high) \<and> snd (partition_loop key p xs low high) \<le> high"
proof (induction key p xs low high rule: partition_loop.induct)
  case (1 key p xs low high)
  show ?case
  proof (cases "low < high \<and> high < length xs")
    case True
    note s = partition_step [OF True [THEN conjunct1] True [THEN conjunct2], of key p]
    have "partition_loop key p xs low high = (let high = scan_down key p xs low high; xs = xs[low := xs ! high];
       low = scan_up key p xs low high; xs = xs[high := xs ! low] in partition_loop key p xs low high)"
      using True by (subst partition_loop.simps) simp
    then show ?thesis using "1.IH" [OF True refl refl refl refl] s(1-3) by (simp add: Let_def)
  next
    case False
    then show ?thesis using "1.prems" by (subst (1 2) partition_loop.simps) auto
  qed
qed

lemma partition_at_bounds:
  "low \<le> high \<Longrightarrow> low \<le> snd (partition_at key xs low high) \<and> snd (partition_at key xs low high) \<le> high"
  using partition_loop_bounds [of low high key "xs ! low" xs] by (simp add: partition_at_def Let_def case_prod_beta)

text \<open>The number of positions on the stack.\<close>

fun stack_size :: "nat list \<Rightarrow> nat" where
  "stack_size (high # low # ps) = (high + 1 - low) + stack_size ps"
| "stack_size _ = 0"

lemma push_smaller: "low \<le> mid \<Longrightarrow> mid \<le> high \<Longrightarrow> stack_size (push_intervals low mid high ps) < high + 1 - low + stack_size ps"
  by (auto simp: push_intervals_def Let_def)

function sort_loop :: "('a \<Rightarrow> 'k :: linorder) \<Rightarrow> 'a list \<Rightarrow> nat list \<Rightarrow> 'a list" where
  "sort_loop key xs (high # low # pivots) =
    (let (xs, mid) = partition_at key xs low high in sort_loop key xs (push_intervals low mid high pivots))"
| "sort_loop key xs [] = xs"
| "sort_loop key xs [v] = xs"
  by pat_completeness auto
termination
proof (relation "measures [\<lambda>(key, xs, ps). stack_size ps, \<lambda>(key, xs, ps). length ps]", simp)
  fix key :: "'a \<Rightarrow> 'k :: linorder" and xs xs' high low mid p ps
  assume p: "p = partition_at key xs low high" "(xs', mid) = p"
  show "((key, xs', push_intervals low mid high ps), key, xs, high # low # ps) \<in>
    measures [\<lambda>(key, xs, ps). stack_size ps, \<lambda>(key, xs, ps). length ps]"
  proof (cases "low \<le> high")
    case True
    have "mid = snd (partition_at key xs low high)" using p by (metis snd_conv)
    then have "low \<le> mid" "mid \<le> high" using partition_at_bounds [OF True, of key xs] by simp_all
    then show ?thesis using push_smaller [of low mid high ps] by simp
  next
    case False
    then have "(xs', mid) = (xs[low := xs ! low], low)"
      using p unfolding partition_at_def by (subst (asm) partition_loop.simps) simp
    then show ?thesis using False by (simp add: push_intervals_def Let_def)
  qed
qed

definition sort_by :: "('a \<Rightarrow> 'k :: linorder) \<Rightarrow> 'a list \<Rightarrow> 'a list option" where
  "sort_by key xs =
    (if xs = [] then None else
     let low = 0; high = length xs - 1; (xs, mid) = partition_at key xs low high
     in Some (sort_loop key xs (push_intervals low mid high [])))"

text \<open>With no column to sort, \<open>PartitionCol\<close> reads and writes the first element of an empty vector: \<open>None\<close>.\<close>

definition SortCol :: "matrix \<Rightarrow> matrix \<Rightarrow> nat list option" where
  "SortCol cols cols_copy =
    sort_by (\<lambda>p. counter (cols ! p)) (filter (\<lambda>col. counter (cols_copy ! col) \<noteq> 0) [0..<length cols_copy])"

definition SortWei :: "int list \<Rightarrow> nat list \<Rightarrow> nat list option" where
  "SortWei weights sol = sort_by (\<lambda>p. weights ! p) sol"

section \<open>Partition splits an interval\<close>

text \<open>Moving the hole with the value \<open>p\<close> in it exchanges two elements.\<close>

definition within :: "nat \<Rightarrow> nat \<Rightarrow> 'a list \<Rightarrow> 'a list \<Rightarrow> bool" where
  "within lo hi xs ys \<longleftrightarrow> length ys = length xs \<and> mset ys = mset xs \<and> (\<forall>i. i < lo \<or> hi < i \<longrightarrow> ys ! i = xs ! i) \<and>
    (\<forall>i. lo \<le> i \<and> i \<le> hi \<longrightarrow> (\<exists>j. lo \<le> j \<and> j \<le> hi \<and> ys ! i = xs ! j))"

lemma within_refl: "within lo hi xs xs"
  unfolding within_def by blast

lemma within_trans: "within lo hi xs ys \<Longrightarrow> within lo hi ys zs \<Longrightarrow> within lo hi xs zs"
  unfolding within_def by (metis (no_types, lifting))

lemma within_swap:
  assumes "lo \<le> a" "a \<le> hi" "lo \<le> b" "b \<le> hi" "hi < length xs"
  shows "within lo hi xs (xs[a := xs ! b, b := xs ! a])"
  unfolding within_def
proof (intro conjI allI impI)
  show "mset (xs[a := xs ! b, b := xs ! a]) = mset xs" using mset_swap [of b xs a] assms by simp
next
  fix i assume "lo \<le> i \<and> i \<le> hi"
  then show "\<exists>j. lo \<le> j \<and> j \<le> hi \<and> xs[a := xs ! b, b := xs ! a] ! i = xs ! j"
    using assms by (cases "i = a"; cases "i = b") (auto simp: nth_list_update)
qed (use assms in \<open>auto simp: nth_list_update\<close>)

lemma within_move:
  assumes "lo \<le> a" "a \<le> hi" "lo \<le> b" "b \<le> hi" "hi < length xs"
  shows "within lo hi (xs[a := p]) (xs[a := xs ! b, b := p])"
proof (cases "a = b")
  case True
  then show ?thesis by (simp add: within_refl)
next
  case False
  have "(xs[a := p])[a := xs[a := p] ! b, b := xs[a := p] ! a] = xs[a := xs ! b, b := p]"
    using False assms by simp
  then show ?thesis using within_swap [OF assms(1-4), of "xs[a := p]"] assms(5) by simp
qed

definition split_at :: "('a \<Rightarrow> 'k :: linorder) \<Rightarrow> 'k \<Rightarrow> nat \<Rightarrow> nat \<Rightarrow> nat \<Rightarrow> nat \<Rightarrow> 'a list \<Rightarrow> bool" where
  "split_at key k lo low high hi xs \<longleftrightarrow> (\<forall>i. lo \<le> i \<and> i < low \<longrightarrow> k \<le> key (xs ! i)) \<and> (\<forall>i. high < i \<and> i \<le> hi \<longrightarrow> key (xs ! i) \<le> k)"

lemma partition_loop_ok:
  assumes "lo \<le> low" "low \<le> high" "high \<le> hi" "hi < length xs" "split_at key (key p) lo low high hi xs"
    and "partition_loop key p xs low high = (ys, mid)"
  shows "within lo hi (xs[low := p]) (ys[mid := p]) \<and> low \<le> mid \<and> mid \<le> high \<and>
    split_at key (key p) lo mid mid hi ys \<and> length ys = length xs"
  using assms
proof (induction key p xs low high rule: partition_loop.induct)
  case (1 key p xs low high)
  show ?case
  proof (cases "low < high")
    case True
    then have in_range: "low < high \<and> high < length xs" using "1.prems"(3,4) by simp
    define h where "h = scan_down key p xs low high"
    define xs1 where "xs1 = xs[low := xs ! h]"
    define l where "l = scan_up key p xs1 low h"
    define xs2 where "xs2 = xs1[h := xs1 ! l]"
    note s = partition_step [OF in_range [THEN conjunct1] in_range [THEN conjunct2], of key p, folded h_def, folded xs1_def, folded l_def]
    have next_loop: "partition_loop key p xs2 l h = (ys, mid)"
      using "1.prems"(6) in_range unfolding h_def xs1_def l_def xs2_def by (subst (asm) partition_loop.simps) (simp add: Let_def)
    have len: "length xs1 = length xs" "length xs2 = length xs" by (simp_all add: xs1_def xs2_def)
    have rng: "lo \<le> l" "l \<le> h" "h \<le> hi" "low \<le> hi" "lo \<le> h" using s(1-3) "1.prems"(1,2,3) by linarith+
    have "within lo hi (xs[low := p]) (xs1[h := p])"
      unfolding xs1_def using within_move [of lo low hi h xs p] rng "1.prems"(1,4) by simp
    moreover have "within lo hi (xs1[h := p]) (xs2[l := p])"
      unfolding xs2_def using within_move [of lo h hi l xs1 p] rng "1.prems"(4) len by simp
    ultimately have move: "within lo hi (xs[low := p]) (xs2[l := p])" by (rule within_trans)
    have split: "split_at key (key p) lo l h hi xs2"
      unfolding split_at_def
    proof (intro conjI allI impI)
      fix i assume i: "lo \<le> i \<and> i < l"
      then have "xs2 ! i = xs1 ! i" using s(2) by (simp add: xs2_def)
      moreover have "i < low \<Longrightarrow> xs1 ! i = xs ! i" by (simp add: xs1_def)
      ultimately show "key p \<le> key (xs2 ! i)"
        using "1.prems"(5) s(6) i unfolding split_at_def by (metis not_le)
    next
      fix i assume i: "h < i \<and> i \<le> hi"
      then have "xs2 ! i = xs ! i" using s(1,2) by (simp add: xs2_def xs1_def)
      then show "key (xs2 ! i) \<le> key p" using "1.prems"(5) s(5) i unfolding split_at_def by (metis not_le)
    qed
    from "1.IH" [OF in_range h_def xs1_def l_def xs2_def rng(1,2,3) _ split next_loop] "1.prems"(4) len
    have "within lo hi (xs2[l := p]) (ys[mid := p]) \<and> l \<le> mid \<and> mid \<le> h \<and> split_at key (key p) lo mid mid hi ys \<and> length ys = length xs"
      by simp
    then show ?thesis using within_trans [OF move] s(1,3) by auto
  next
    case False
    then have "partition_loop key p xs low high = (xs, low)" by (subst partition_loop.simps) simp
    then have "ys = xs" "mid = low" "low = high" using False "1.prems"(2,6) by simp_all
    then show ?thesis using "1.prems"(1,5) within_refl by simp
  qed
qed

lemma partition_at_ok:
  assumes "lo \<le> hi" "hi < length xs" "partition_at key xs lo hi = (ys, mid)"
  shows "within lo hi xs ys" "lo \<le> mid" "mid \<le> hi"
    "\<forall>i. lo \<le> i \<and> i < mid \<longrightarrow> key (ys ! mid) \<le> key (ys ! i)"
    "\<forall>i. mid < i \<and> i \<le> hi \<longrightarrow> key (ys ! i) \<le> key (ys ! mid)"
proof -
  obtain zs where z: "partition_loop key (xs ! lo) xs lo hi = (zs, mid)" "ys = zs[mid := xs ! lo]"
    using assms(3) by (auto simp: partition_at_def Let_def split: prod.splits)
  have "split_at key (key (xs ! lo)) lo lo hi hi xs" by (auto simp: split_at_def)
  from partition_loop_ok [OF order_refl assms(1) order_refl assms(2) this z(1)]
  have w: "within lo hi (xs[lo := xs ! lo]) (zs[mid := xs ! lo])" "lo \<le> mid" "mid \<le> hi" "length zs = length xs"
    and split: "split_at key (key (xs ! lo)) lo mid mid hi zs" by simp_all
  then show "within lo hi xs ys" "lo \<le> mid" "mid \<le> hi" unfolding z(2) by simp_all
  have "ys ! mid = xs ! lo" using w(3,4) assms(2) z(2) by simp
  then show "\<forall>i. lo \<le> i \<and> i < mid \<longrightarrow> key (ys ! mid) \<le> key (ys ! i)"
    "\<forall>i. mid < i \<and> i \<le> hi \<longrightarrow> key (ys ! i) \<le> key (ys ! mid)" using split unfolding split_at_def z(2) by simp_all
qed

section \<open>Sorting\<close>

text \<open>The intervals on the stack, and what they promise: they are disjoint, and two positions that are not in one of them are in order.\<close>

fun intervals :: "nat list \<Rightarrow> (nat \<times> nat) list" where
  "intervals (high # low # ps) = (low, high) # intervals ps"
| "intervals _ = []"

definition disjoint_intervals :: "(nat \<times> nat) list \<Rightarrow> bool" where
  "disjoint_intervals = sorted_wrt (\<lambda>(a, b) (c, d). b < c \<or> d < a)"

definition sorted_but :: "('a \<Rightarrow> 'k :: linorder) \<Rightarrow> 'a list \<Rightarrow> (nat \<times> nat) list \<Rightarrow> bool" where
  "sorted_but key xs I \<longleftrightarrow> (\<forall>i j. i < j \<and> j < length xs \<longrightarrow>
     key (xs ! j) \<le> key (xs ! i) \<or> (\<exists>(lo, hi)\<in>set I. lo \<le> i \<and> j \<le> hi))"

definition stack_ok :: "nat \<Rightarrow> nat list \<Rightarrow> bool" where
  "stack_ok n ps \<longleftrightarrow> even (length ps) \<and> (\<forall>(lo, hi)\<in>set (intervals ps). lo \<le> hi \<and> hi < n) \<and> disjoint_intervals (intervals ps)"

lemma intervals_push:
  "intervals (push_intervals low mid high ps) =
    (if mid + 1 < high then [(mid + 1, high)] else []) @ (if low < mid - 1 then [(low, mid - 1)] else []) @ intervals ps"
  by (simp add: push_intervals_def Let_def)

lemma stack_ok_push:
  assumes "stack_ok n (high # low # ps)" "low \<le> mid" "mid \<le> high"
  shows "stack_ok n (push_intervals low mid high ps)"
  using assms unfolding stack_ok_def intervals_push disjoint_intervals_def
  by (auto simp: push_intervals_def Let_def case_prod_beta)

text \<open>Partitioning an interval of the stack leaves only its two parts out of order.\<close>

lemma sorted_but_partition:
  fixes key :: "'a \<Rightarrow> 'k :: linorder"
  assumes "stack_ok (length xs) (high # low # ps)" "sorted_but key xs ((low, high) # intervals ps)"
    and "partition_at key xs low high = (ys, mid)"
  shows "sorted_but key ys (intervals (push_intervals low mid high ps))"
  unfolding sorted_but_def
proof (intro allI impI)
  fix i j assume ij: "i < j \<and> j < length ys"
  let ?I = "intervals (push_intervals low mid high ps)"
  have b: "low \<le> high" "high < length xs" and disj: "\<forall>(c, d)\<in>set (intervals ps). high < c \<or> d < low"
    using assms(1) by (auto simp: stack_ok_def disjoint_intervals_def)
  note p = partition_at_ok [OF b assms(3)]
  have outside: "k < low \<or> high < k \<Longrightarrow> ys ! k = xs ! k" and inside: "low \<le> k \<and> k \<le> high \<Longrightarrow> \<exists>l. low \<le> l \<and> l \<le> high \<and> ys ! k = xs ! l"
    and len: "length ys = length xs" for k
    using p(1) unfolding within_def by blast+
  have sorted: "key (xs ! b) \<le> key (xs ! a) \<or> low \<le> a \<and> b \<le> high \<or> (\<exists>(lo, hi)\<in>set (intervals ps). lo \<le> a \<and> b \<le> hi)"
    if "a < b" "b < length xs" for a b
    using assms(2) that unfolding sorted_but_def by fastforce
  have apart: "key (xs ! b) \<le> key (xs ! a)" if "a < b" "b < length xs" "\<not> (low \<le> a \<and> b \<le> high)"
    "low \<le> a \<and> a \<le> high \<or> low \<le> b \<and> b \<le> high" for a b
    using sorted [OF that(1,2)] that disj by fastforce
  show "key (ys ! j) \<le> key (ys ! i) \<or> (\<exists>(lo, hi)\<in>set ?I. lo \<le> i \<and> j \<le> hi)"
  proof (cases "low \<le> i \<and> j \<le> high")
    case True
    have "key (ys ! j) \<le> key (ys ! i)" if "i \<le> mid" "mid \<le> j"
    proof -
      have "key (ys ! mid) \<le> key (ys ! i)" using that(1) p(4) True by (cases "i = mid") simp_all
      moreover have "key (ys ! j) \<le> key (ys ! mid)" using that(2) p(5) True by (cases "j = mid") simp_all
      ultimately show ?thesis by simp
    qed
    moreover have "\<exists>(lo, hi)\<in>set ?I. lo \<le> i \<and> j \<le> hi" if "j < mid"
      by (rule bexI [of _ "(low, mid - 1)"]) (use that True ij in \<open>auto simp: intervals_push\<close>)
    moreover have "\<exists>(lo, hi)\<in>set ?I. lo \<le> i \<and> j \<le> hi" if "mid < i"
      by (rule bexI [of _ "(mid + 1, high)"]) (use that True ij in \<open>auto simp: intervals_push\<close>)
    ultimately show ?thesis by linarith
  next
    case False
    show ?thesis
    proof (cases "low \<le> i \<and> i \<le> high")
      case True
      then obtain l where "low \<le> l" "l \<le> high" "ys ! i = xs ! l" using inside by blast
      moreover have "high < j" using False True by simp
      ultimately show ?thesis using apart [of l j] ij len outside [of j] by simp
    next
      case out: False
      show ?thesis
      proof (cases "low \<le> j \<and> j \<le> high")
        case True
        then obtain l where "low \<le> l" "l \<le> high" "ys ! j = xs ! l" using inside by blast
        moreover have "i < low" using True out ij by simp
        ultimately show ?thesis using apart [of i l] b(2) outside [of i] by simp
      next
        case False
        then have "ys ! i = xs ! i" "ys ! j = xs ! j" using out outside by (simp_all add: not_le)
        moreover have "key (xs ! j) \<le> key (xs ! i) \<or> low \<le> i \<and> j \<le> high \<or> (\<exists>(lo, hi)\<in>set (intervals ps). lo \<le> i \<and> j \<le> hi)"
          using sorted ij len by simp
        ultimately show ?thesis using \<open>\<not> (low \<le> i \<and> j \<le> high)\<close> by (auto simp: intervals_push)
      qed
    qed
  qed
qed

lemma sort_loop_ok:
  assumes "stack_ok (length xs) ps" "sorted_but key xs (intervals ps)"
  shows "mset (sort_loop key xs ps) = mset xs \<and> sorted_wrt (\<lambda>x y. key y \<le> key x) (sort_loop key xs ps)"
  using assms
proof (induction key xs ps rule: sort_loop.induct)
  case (1 key xs high low ps)
  obtain ys mid where p: "partition_at key xs low high = (ys, mid)" by (metis surj_pair)
  have b: "low \<le> high" "high < length xs" using "1.prems"(1) by (auto simp: stack_ok_def)
  note q = partition_at_ok [OF b p]
  have len: "length ys = length xs" "mset ys = mset xs" using q(1) by (simp_all add: within_def)
  have "stack_ok (length ys) (push_intervals low mid high ps)" unfolding len using "1.prems"(1) q(2,3) by (rule stack_ok_push)
  moreover have "sorted_but key ys (intervals (push_intervals low mid high ps))"
    using sorted_but_partition [OF "1.prems"(1) _ p] "1.prems"(2) by simp
  ultimately show ?case using "1.IH" [OF p [symmetric] refl] p len by simp
qed (auto simp: stack_ok_def sorted_but_def sorted_wrt_iff_nth_less)

lemma sort_by_ok:
  assumes "xs \<noteq> []"
  shows "\<exists>ys. sort_by key xs = Some ys \<and> mset ys = mset xs \<and> sorted_wrt (\<lambda>x y. key y \<le> key x) ys"
proof -
  let ?n = "length xs"
  obtain ys mid where p: "partition_at key xs 0 (?n - 1) = (ys, mid)" by (metis surj_pair)
  have b: "0 \<le> ?n - 1" "?n - 1 < ?n" using assms by simp_all
  note q = partition_at_ok [OF b p]
  have len: "length ys = ?n" "mset ys = mset xs" using q(1) by (simp_all add: within_def)
  have st: "stack_ok ?n [?n - 1, 0]" using b by (simp add: stack_ok_def disjoint_intervals_def)
  have "sorted_but key xs [(0, ?n - 1)]" by (auto simp: sorted_but_def)
  then have "sorted_but key ys (intervals (push_intervals 0 mid (?n - 1) []))"
    using sorted_but_partition [OF st _ p] by simp
  moreover have "stack_ok (length ys) (push_intervals 0 mid (?n - 1) [])" unfolding len using st q(2,3) by (rule stack_ok_push)
  ultimately show ?thesis
    using sort_loop_ok [of ys "push_intervals 0 mid (?n - 1) []" key] assms(1) p len by (simp add: sort_by_def)
qed

lemma SortCol_ok:
  assumes "\<forall>v\<in>set cols_copy. bv_ok v"
  shows "SortCol cols cols_copy = None \<longleftrightarrow> (\<forall>v\<in>set cols_copy. bv_set v = {})"
    "SortCol cols cols_copy = Some idx \<Longrightarrow> by_count cols idx \<and> distinct idx \<and>
       set idx = {p. p < length cols_copy \<and> bv_set (cols_copy ! p) \<noteq> {}}"
proof -
  let ?f = "filter (\<lambda>col. counter (cols_copy ! col) \<noteq> 0) [0..<length cols_copy]"
  have zero: "counter (cols_copy ! p) = 0 \<longleftrightarrow> bv_set (cols_copy ! p) = {}" if "p < length cols_copy" for p
    using bv.cnt_0_iff [of "cols_copy ! p"] assms that by simp
  have in_f: "p \<in> set ?f \<longleftrightarrow> p < length cols_copy \<and> bv_set (cols_copy ! p) \<noteq> {}" for p
    using zero [of p] by (cases "p < length cols_copy") (simp_all del: neq0_conv)
  have f: "set ?f = {p. p < length cols_copy \<and> bv_set (cols_copy ! p) \<noteq> {}}" using in_f by blast
  have "?f = [] \<longleftrightarrow> (\<forall>v\<in>set cols_copy. bv_set v = {})"
  proof -
    have "?f = [] \<longleftrightarrow> set ?f = {}" by (simp only: set_empty)
    also have "\<dots> \<longleftrightarrow> (\<forall>p<length cols_copy. bv_set (cols_copy ! p) = {})" unfolding f by auto
    finally show ?thesis by (simp add: all_set_conv_all_nth)
  qed
  moreover have "SortCol cols cols_copy = None \<longleftrightarrow> ?f = []"
    using sort_by_ok [of ?f "\<lambda>p. counter (cols ! p)"] unfolding SortCol_def by (cases "?f = []") (auto simp: sort_by_def)
  ultimately show "SortCol cols cols_copy = None \<longleftrightarrow> (\<forall>v\<in>set cols_copy. bv_set v = {})" by simp
  assume s: "SortCol cols cols_copy = Some idx"
  then have "?f \<noteq> []" by (auto simp: SortCol_def sort_by_def)
  then have m: "mset idx = mset ?f" "by_count cols idx"
    using sort_by_ok [of ?f "\<lambda>p. counter (cols ! p)"] s by (auto simp: SortCol_def by_count_def)
  then have "set idx = set ?f" "distinct idx" using mset_eq_setD [OF m(1)] mset_eq_imp_distinct_iff [OF m(1)] by simp_all
  then show "by_count cols idx \<and> distinct idx \<and> set idx = {p. p < length cols_copy \<and> bv_set (cols_copy ! p) \<noteq> {}}"
    using f m(2) by simp
qed

definition by_weight :: "int list \<Rightarrow> nat list \<Rightarrow> bool" where
  "by_weight weights = sorted_wrt (\<lambda>p q. weights ! q \<le> weights ! p)"

lemma SortWei_ok: "xs \<noteq> [] \<Longrightarrow> \<exists>ys. SortWei weights xs = Some ys \<and> mset ys = mset xs \<and> by_weight weights ys"
  unfolding SortWei_def by_weight_def by (rule sort_by_ok)

section \<open>Correctness\<close>

text \<open>
  C33 (functional). \<open>SortCol\<close> lists the columns that are not empty, each once, with descending counts. It
  has no result (it reads the first element of an empty vector) exactly when all columns are empty.
\<close>

theorem SortCol_correct:
  assumes "\<forall>v\<in>set cols_copy. bv_ok v"
  shows "case SortCol cols cols_copy of
      None \<Rightarrow> \<forall>v\<in>set cols_copy. bv_set v = {}
    | Some idx \<Rightarrow> idx \<noteq> [] \<and> distinct idx \<and> set idx = {p. p < length cols_copy \<and> bv_set (cols_copy ! p) \<noteq> {}} \<and>
        sorted_wrt (\<lambda>p q. counter (cols ! q) \<le> counter (cols ! p)) idx"
proof (cases "SortCol cols cols_copy")
  case None
  then show ?thesis using SortCol_ok(1) [OF assms, of cols] by simp
next
  case (Some idx)
  have "idx \<noteq> []"
  proof
    assume "idx = []"
    then have "{p. p < length cols_copy \<and> bv_set (cols_copy ! p) \<noteq> {}} = {}" using SortCol_ok(2) [OF assms Some] by simp
    then have "\<forall>v\<in>set cols_copy. bv_set v = {}" by (auto simp: all_set_conv_all_nth)
    then show False using SortCol_ok(1) [OF assms, of cols] Some by simp
  qed
  then show ?thesis using SortCol_ok(2) [OF assms Some] Some by (simp add: by_count_def)
qed

theorem SortCol_witness:
  "\<exists>idx. SortCol [bv_new 2, bv_setbit 1 (bv_new 2)] [bv_new 2, bv_setbit 1 (bv_new 2)] = Some idx \<and> set idx = {1}"
proof -
  let ?cols = "[bv_new 2, bv_setbit 1 (bv_new 2)]"
  have v: "\<forall>v\<in>set ?cols. bv_ok v" and sets: "bv_set (bv_new 2) = {}" "bv_set (bv_setbit 1 (bv_new 2)) = {1}"
    using two_columns by simp_all
  have len: "length ?cols = 2" by simp
  have "p < 2 \<and> bv_set (?cols ! p) \<noteq> {} \<longleftrightarrow> p = 1" for p
    using sets by (cases p) (auto simp: less_Suc_eq numeral_2_eq_2 nth_Cons')
  then have set1: "{p. p < length ?cols \<and> bv_set (?cols ! p) \<noteq> {}} = {1}" unfolding len by simp
  have "\<not> (\<forall>v\<in>set ?cols. bv_set v = {})" using sets by simp
  then obtain idx where "SortCol ?cols ?cols = Some idx"
    using SortCol_correct [OF v, of ?cols] by (cases "SortCol ?cols ?cols") simp_all
  moreover from this have "set idx = {1}" using SortCol_correct [OF v, of ?cols] unfolding set1 by simp
  ultimately show ?thesis by blast
qed

text \<open>
  \<open>SortWei\<close> returns for every solution that is not empty: the same columns in
  another order, with descending weights. Both loops of the partition and the loop over the stack end.
\<close>

theorem SortWei_correct:
  assumes "sol \<noteq> []"
  shows "\<exists>ys. SortWei weights sol = Some ys \<and> mset ys = mset sol \<and> sorted_wrt (\<lambda>p q. weights ! q \<le> weights ! p) ys"
  using SortWei_ok [OF assms, of weights] unfolding by_weight_def .

theorem SortWei_witness: "\<exists>ys. SortWei [3, 1, 7] [0, 1, 2] = Some ys \<and> mset ys = {#0, 1, 2#}"
  using SortWei_correct [of "[0, 1, 2]" "[3, 1, 7]"] by auto

end
