(* ===== verification/Sc_Reduce.thy ===== *)
theory Sc_Reduce
  imports Sc_Sort
begin

text \<open>
  \<open>src/setcover/setcover.cpp\<close>: the passes that make a solution smaller or lighter. \<open>ReduceColCompress\<close> and
  \<open>ReduceColCompress_All\<close> drop columns, \<open>ReduceColReplace21\<close> and \<open>ReduceColReplace31\<close> replace two or three columns by one,
  \<open>ReduceWeightReplace11\<close> replaces a column by a lighter one; the \<open>Traverse\<close> functions start from every rotation.
  A result \<open>None\<close> is a call that does not return or reads outside a vector. \<open>solves\<close> and \<open>improves\<close> say what all
  of them keep, \<open>settled\<close> and \<open>irredundant\<close> what they reach.
\<close>

section \<open>The code\<close>

datatype In_Ex_Type = No_In_Ex | IncludedFlag | ExcludedFlag

text \<open>\<open>bitvector nomask(pvalues_col[0].size())\<close>\<close>

definition nomask :: "matrix \<Rightarrow> bitvector" where
  "nomask cols = bv_new (bsize (cols ! 0))"

subsection \<open>Dropping redundant columns\<close>

definition without :: "nat list \<Rightarrow> nat \<Rightarrow> nat list" where
  "without sol p = filter (\<lambda>q. q \<noteq> p) sol"

text \<open>The loop over the iterator, which is the position \<open>k\<close>; erasing leaves it at the next element.\<close>

function compress_loop :: "matrix \<Rightarrow> nat list \<Rightarrow> nat \<Rightarrow> nat list" where
  "compress_loop cols sol k =
    (if k < length sol then
       if IsSolutionLite cols (nomask cols) (without sol (sol ! k))
       then compress_loop cols (take k sol @ drop (k + 1) sol) k
       else compress_loop cols sol (k + 1)
     else sol)"
  by pat_completeness auto
termination
  by (relation "measure (\<lambda>(cols, sol, k). length sol - k)") auto

declare compress_loop.simps [simp del]

definition ReduceColCompress :: "matrix \<Rightarrow> nat list \<Rightarrow> nat list" where
  "ReduceColCompress cols sol = compress_loop cols sol 0"

text \<open>
  \<open>ReduceColCompress_All\<close>. A round appends to the current solutions those without one column more that
  still cover all rows; the next round starts from the new ones, until there are none.
\<close>

definition compress_step :: "matrix \<Rightarrow> nat list \<Rightarrow> nat \<Rightarrow> nat list list \<Rightarrow> nat list list" where
  "compress_step cols s p all_sol =
    (let tempsol = without s p in
     if tempsol \<in> set all_sol then all_sol
     else if IsSolutionLite cols (nomask cols) tempsol then all_sol @ [tempsol] else all_sol)"

definition compress_round :: "matrix \<Rightarrow> nat list list \<Rightarrow> nat list list" where
  "compress_round cols cur = fold (\<lambda>s. fold (compress_step cols s) s) cur cur"

lemma compress_step_fold:
  "\<exists>new. fold (compress_step cols s) ps all_sol = all_sol @ new \<and> set new \<subseteq> without s ` set ps"
proof (induction ps arbitrary: all_sol)
  case (Cons p ps)
  have "\<exists>new. compress_step cols s p all_sol = all_sol @ new \<and> set new \<subseteq> {without s p}"
    by (auto simp: compress_step_def Let_def)
  then obtain new where "compress_step cols s p all_sol = all_sol @ new" "set new \<subseteq> {without s p}" by blast
  moreover obtain new' where "fold (compress_step cols s) ps (all_sol @ new) = (all_sol @ new) @ new'" "set new' \<subseteq> without s ` set ps"
    using Cons.IH by blast
  ultimately show ?case by (intro exI [of _ "new @ new'"]) auto
qed simp

lemma compress_round_new:
  "\<exists>new. compress_round cols cur = cur @ new \<and> set new \<subseteq> (\<Union>s\<in>set cur. without s ` set s)"
proof -
  have "\<exists>new. fold (\<lambda>s. fold (compress_step cols s) s) ss all_sol = all_sol @ new \<and>
      set new \<subseteq> (\<Union>s\<in>set ss. without s ` set s)" for ss all_sol
  proof (induction ss arbitrary: all_sol)
    case (Cons s ss)
    obtain new where n: "fold (compress_step cols s) s all_sol = all_sol @ new" "set new \<subseteq> without s ` set s"
      using compress_step_fold by blast
    obtain new' where n': "fold (\<lambda>s. fold (compress_step cols s) s) ss (all_sol @ new) = (all_sol @ new) @ new'"
        "set new' \<subseteq> (\<Union>s\<in>set ss. without s ` set s)" using Cons.IH by blast
    have "set (new @ new') \<subseteq> (\<Union>t\<in>set (s # ss). without t ` set t)" using n(2) n'(2) by auto
    then show ?case using n(1) n'(1) by (intro exI [of _ "new @ new'"]) simp
  qed simp
  then show ?thesis unfolding compress_round_def .
qed

lemma length_without: "p \<in> set s \<Longrightarrow> length (without s p) < length s"
  by (auto simp: without_def length_filter_less)

function compress_rounds :: "matrix \<Rightarrow> nat list list \<Rightarrow> nat list list" where
  "compress_rounds cols cur =
    (let all_sol = compress_round cols cur in
     if length cur < length all_sol then compress_rounds cols (drop (length cur) all_sol) else all_sol)"
  by pat_completeness auto

termination
proof (relation "measure (\<lambda>(cols, cur). Max (length ` set cur))", simp)
  fix cols cur all_sol assume a: "all_sol = compress_round cols cur" "length cur < length all_sol"
  then obtain new where new: "all_sol = cur @ new" "set new \<subseteq> (\<Union>s\<in>set cur. without s ` set s)"
    using compress_round_new by blast
  then have ne: "set new \<noteq> {}" using a(2) by simp
  have "length t < Max (length ` set cur)" if t: "t \<in> set new" for t
  proof -
    obtain s p where "t = without s p" "s \<in> set cur" "p \<in> set s" using t new(2) by blast
    then have "length t < length s" "length s \<le> Max (length ` set cur)" by (simp_all add: length_without)
    then show ?thesis by simp
  qed
  then have "Max (length ` set new) < Max (length ` set cur)" using ne by (subst Max_less_iff) auto
  then show "((cols, drop (length cur) all_sol), cols, cur) \<in> measure (\<lambda>(cols, cur). Max (length ` set cur))"
    using new(1) by simp
qed

declare compress_rounds.simps [simp del]

definition sol_weight :: "int list \<Rightarrow> nat list \<Rightarrow> int" where
  "sol_weight weights sol = (\<Sum>p\<leftarrow>sol. weights ! p)"

definition better :: "int list \<Rightarrow> nat list \<Rightarrow> nat list \<Rightarrow> nat list" where
  "better weights s best =
    (if length s < length best \<or> length s = length best \<and> sol_weight weights s < sol_weight weights best then s else best)"

definition ReduceColCompress_All :: "int list \<Rightarrow> matrix \<Rightarrow> nat list \<Rightarrow> nat list" where
  "ReduceColCompress_All weights cols sol =
    (let all_sol = compress_rounds cols [sol] in
     if length (hd all_sol) < length sol then fold (better weights) (tl all_sol) (hd all_sol) else sol)"

subsection \<open>Replacing two or three columns by one\<close>

text \<open>
  The rows that only the columns at the positions \<open>is\<close> of the solution cover. Every call returns the
  number of ones, which is left in the counter, so that \<open>cnt\<close> is the counter at the end.
\<close>

definition only_rows :: "matrix \<Rightarrow> nat list \<Rightarrow> nat list \<Rightarrow> bitvector" where
  "only_rows cols sol is =
    (let both = bv_copy (cols ! (sol ! hd is)) bv_empty;
         both = fold (\<lambda>i. bv_or_count (cols ! (sol ! i))) (tl is) both
     in fold (\<lambda>m. bv_mask_count (cols ! (sol ! m))) (filter (\<lambda>m. m \<notin> set is) [0..<length sol]) both)"

text \<open>
  The candidates are tried from the lightest one that is heavy enough to the heaviest. A candidate that
  is excluded leaves \<open>k\<close> unchanged, and the loop does not end: \<open>None\<close>.
\<close>

fun try_cols :: "matrix \<Rightarrow> In_Ex_Type list \<Rightarrow> bitvector \<Rightarrow> nat list \<Rightarrow> nat list \<Rightarrow> nat option option" where
  "try_cols cols inex both sol [] = Some None"
| "try_cols cols inex both sol (newcol # cs) =
    (if newcol \<in> set sol then try_cols cols inex both sol cs
     else if counter both \<le> counter (cols ! newcol) \<and> inex ! newcol \<noteq> ExcludedFlag then
       if count_and both (cols ! newcol) = counter both then Some (Some newcol)
       else try_cols cols inex both sol cs
     else None)"

definition replacement :: "matrix \<Rightarrow> In_Ex_Type list \<Rightarrow> nat list \<Rightarrow> nat list \<Rightarrow> nat list \<Rightarrow> nat option option" where
  "replacement cols inex csum_sortindex sol is =
    (let both = only_rows cols sol is; cnt = counter both in
     try_cols cols inex both sol (rev (takeWhile (\<lambda>p. cnt \<le> counter (cols ! p)) csum_sortindex)))"

fun first_replacement :: "(nat list \<Rightarrow> nat option option) \<Rightarrow> nat list list \<Rightarrow> (nat list \<times> nat) option option" where
  "first_replacement f [] = Some None"
| "first_replacement f (t # ts) =
    (case f t of None \<Rightarrow> None | Some (Some c) \<Rightarrow> Some (Some (t, c)) | Some None \<Rightarrow> first_replacement f ts)"

text \<open>The positions \<open>i < j\<close> and \<open>i < j1 < j2\<close> in the order of the loops.\<close>

definition index_tuples :: "nat \<Rightarrow> nat \<Rightarrow> nat list list" where
  "index_tuples k n =
    (if k = 2 then concat (map (\<lambda>i. map (\<lambda>j. [i, j]) [i + 1..<n]) [0..<n - 1])
     else concat (map (\<lambda>i. concat (map (\<lambda>j1. map (\<lambda>j2. [i, j1, j2]) [j1 + 1..<n]) [i + 1..<n - 1])) [0..<n - 2]))"

text \<open>\<open>sol[j] = sol[sol.size() - 1]; sol.pop_back()\<close>, from the last position to the first one.\<close>

definition remove_at :: "nat \<Rightarrow> nat list \<Rightarrow> nat list" where
  "remove_at j sol = butlast (sol[j := last sol])"

definition swap_in :: "nat list \<Rightarrow> nat list \<Rightarrow> nat \<Rightarrow> nat list" where
  "swap_in sol is newcol = fold remove_at (rev is) sol @ [newcol]"

lemma length_remove_at [simp]: "length (remove_at j sol) = length sol - 1"
  by (simp add: remove_at_def)

lemma length_swap_in: "length is \<le> length sol \<Longrightarrow> length (swap_in sol is c) = length sol - length is + 1"
proof -
  have "length (fold remove_at js sol) = length sol - length js" for js
    by (induction js arbitrary: sol) simp_all
  then show "length is \<le> length sol \<Longrightarrow> length (swap_in sol is c) = length sol - length is + 1" by (simp add: swap_in_def)
qed

lemma first_replacement_in: "first_replacement f ts = Some (Some (t, c)) \<Longrightarrow> t \<in> set ts \<and> f t = Some (Some c)"
  by (induction ts) (auto split: option.splits)

lemma index_tuples_bounds: "t \<in> set (index_tuples k n) \<Longrightarrow> 2 \<le> length t \<and> length t \<le> n"
  by (auto simp: index_tuples_def split: if_splits)

text \<open>
  Both routines start over from the first positions after a replacement. Their outer loops run to
  \<open>sol.size() - 1\<close> and \<open>sol.size() - 2\<close>, which are unsigned: for shorter solutions the bound wraps around
  and the counter overflows (\<open>None\<close>). Of the sort, a shorter solution is never empty.
\<close>

function replace_loop :: "nat \<Rightarrow> int list \<Rightarrow> matrix \<Rightarrow> In_Ex_Type list \<Rightarrow> nat list \<Rightarrow> nat list \<Rightarrow> nat list option" where
  "replace_loop k weights cols inex csum_sortindex sol =
    (if length sol < k - 1 then None else
     case first_replacement (replacement cols inex csum_sortindex sol) (index_tuples k (length sol)) of
       None \<Rightarrow> None
     | Some None \<Rightarrow> Some sol
     | Some (Some (is, newcol)) \<Rightarrow>
         (case SortWei weights (swap_in sol is newcol) of
            None \<Rightarrow> None
          | Some sol \<Rightarrow> replace_loop k weights cols inex csum_sortindex sol))"
  by pat_completeness auto
termination
proof (relation "measure (\<lambda>(k, weights, cols, inex, idx, sol). length sol)", simp, goal_cases)
  case (1 k weights cols inex idx sol r t "is" c sol')
  then have t: "2 \<le> length is" "length is \<le> length sol"
    using first_replacement_in index_tuples_bounds by fastforce+
  have "swap_in sol is c \<noteq> []" by (simp add: swap_in_def)
  then have "length sol' = length (swap_in sol is c)"
    using SortWei_ok [of "swap_in sol is c" weights] 1 by (metis mset_eq_length option.inject)
  then show ?case using t length_swap_in [OF t(2)] by simp
qed

declare replace_loop.simps [simp del]

definition ReduceColReplace21 where
  "ReduceColReplace21 = replace_loop 2"

definition ReduceColReplace31 where
  "ReduceColReplace31 = replace_loop 3"

text \<open>The solution turned around from each start, replaced, and the shortest result kept.\<close>

fun traverse21 :: "int list \<Rightarrow> matrix \<Rightarrow> In_Ex_Type list \<Rightarrow> nat list \<Rightarrow> nat list \<Rightarrow> nat list \<Rightarrow> nat list \<Rightarrow> nat list option" where
  "traverse21 weights cols inex idx sol [] best = Some best"
| "traverse21 weights cols inex idx sol (start_sig # starts) best =
    (case ReduceColReplace21 weights cols inex idx (drop start_sig sol @ take start_sig sol) of
       None \<Rightarrow> None
     | Some tmp_sol \<Rightarrow>
         traverse21 weights cols inex idx sol starts (if length tmp_sol < length best then tmp_sol else best))"

definition ReduceColReplace21_Traverse ::
    "int list \<Rightarrow> matrix \<Rightarrow> In_Ex_Type list \<Rightarrow> nat list \<Rightarrow> nat list \<Rightarrow> nat list option" where
  "ReduceColReplace21_Traverse weights cols inex csum_sortindex sol =
    traverse21 weights cols inex csum_sortindex sol [0..<length sol] sol"

subsection \<open>Replacing one column by a lighter one\<close>

text \<open>
  The loop over \<open>index\<close> ends at the first signal that is not lighter, at the latest at the replaced
  column itself, so that it does not leave the columns.
\<close>

definition lighter :: "int list \<Rightarrow> matrix \<Rightarrow> In_Ex_Type list \<Rightarrow> nat list \<Rightarrow> nat \<Rightarrow> nat option" where
  "lighter weights cols inex sol cur_sig =
    (let curcol = only_rows cols sol [cur_sig]; curcnt = counter curcol;
         cur_col_wei = weights ! (sol ! cur_sig)
     in find (\<lambda>index. curcnt \<le> counter (cols ! index) \<and> inex ! index \<noteq> ExcludedFlag \<and> index \<notin> set sol \<and>
          count_and curcol (cols ! index) = curcnt)
        (takeWhile (\<lambda>index. weights ! index < cur_col_wei) [0..<length cols]))"

fun first_lighter :: "(nat \<Rightarrow> nat option) \<Rightarrow> nat list \<Rightarrow> (nat \<times> nat) option" where
  "first_lighter f [] = None"
| "first_lighter f (i # is) = (case f i of Some c \<Rightarrow> Some (i, c) | None \<Rightarrow> first_lighter f is)"

lemma first_lighter_Some: "first_lighter f is = Some (i, c) \<Longrightarrow> i \<in> set is \<and> f i = Some c"
  by (induction "is") (auto split: option.splits)

lemma lighter_Some:
  "lighter weights cols inex sol i = Some c \<Longrightarrow> c < length cols \<and> weights ! c < weights ! (sol ! i) \<and> c \<notin> set sol"
  unfolding lighter_def Let_def by (auto simp: find_Some_iff dest!: set_takeWhileD nth_mem)

text \<open>The lighter columns there are for a column; the sum over a solution falls with every replacement.\<close>

definition rank_of :: "int list \<Rightarrow> nat \<Rightarrow> nat \<Rightarrow> nat" where
  "rank_of weights n p = card {q. q < n \<and> weights ! q < weights ! p}"

lemma rank_less:
  assumes "c < n" "weights ! c < weights ! p"
  shows "rank_of weights n c < rank_of weights n p"
  unfolding rank_of_def
proof (rule psubset_card_mono)
  show "{q. q < n \<and> weights ! q < weights ! c} \<subset> {q. q < n \<and> weights ! q < weights ! p}" using assms by fastforce
qed simp

lemma sum_update_less:
  fixes f :: "nat \<Rightarrow> nat"
  assumes "i < length xs" "f c < f (xs ! i)"
  shows "(\<Sum>p\<leftarrow>xs[i := c]. f p) < (\<Sum>p\<leftarrow>xs. f p)"
  using assms by (induction xs arbitrary: i) (auto split: nat.splits)

lemma sum_mset_eq: "mset xs = mset ys \<Longrightarrow> (\<Sum>p\<leftarrow>xs. f p) = (\<Sum>p\<leftarrow>ys. f p)"
  for f :: "'a \<Rightarrow> 'b :: comm_monoid_add"
  by (metis mset_map sum_mset_sum_list)

function replace11_loop ::
    "int list \<Rightarrow> matrix \<Rightarrow> In_Ex_Type list \<Rightarrow> nat list \<Rightarrow> int \<Rightarrow> (int \<times> nat list) option" where
  "replace11_loop weights cols inex cur_sol cur_weight =
    (case first_lighter (lighter weights cols inex cur_sol) [0..<length cur_sol] of
       None \<Rightarrow> Some (cur_weight, cur_sol)
     | Some (cur_sig, index) \<Rightarrow>
         (case SortWei weights (cur_sol[cur_sig := index]) of
            None \<Rightarrow> None
          | Some sol \<Rightarrow> replace11_loop weights cols inex sol (cur_weight - weights ! (cur_sol ! cur_sig) + weights ! index)))"
  by pat_completeness auto
termination
proof (relation "measure (\<lambda>(weights, cols, inex, sol, w). \<Sum>p\<leftarrow>sol. rank_of weights (length cols) p)", simp, goal_cases)
  case (1 weights cols inex sol w r i c sol')
  then have i: "i < length sol" "lighter weights cols inex sol i = Some c" using first_lighter_Some by fastforce+
  then have "sol[i := c] \<noteq> []" by auto
  then have "mset sol' = mset (sol[i := c])" using SortWei_ok [of "sol[i := c]" weights] 1 by (metis option.inject)
  then have "(\<Sum>p\<leftarrow>sol'. rank_of weights (length cols) p) = (\<Sum>p\<leftarrow>sol[i := c]. rank_of weights (length cols) p)" by (rule sum_mset_eq)
  moreover have "rank_of weights (length cols) c < rank_of weights (length cols) (sol ! i)"
    using lighter_Some [OF i(2)] by (intro rank_less) simp_all
  ultimately show ?case using sum_update_less [OF i(1)] by simp
qed

declare replace11_loop.simps [simp del]

definition ReduceWeightReplace11 ::
    "int list \<Rightarrow> matrix \<Rightarrow> In_Ex_Type list \<Rightarrow> nat list \<Rightarrow> (int \<times> nat list) option" where
  "ReduceWeightReplace11 weights cols inex cur_sol = replace11_loop weights cols inex cur_sol (sol_weight weights cur_sol)"

fun traverse11 ::
    "int list \<Rightarrow> matrix \<Rightarrow> In_Ex_Type list \<Rightarrow> nat list \<Rightarrow> nat list \<Rightarrow> int \<times> nat list \<Rightarrow> (int \<times> nat list) option" where
  "traverse11 weights cols inex sol [] best = Some best"
| "traverse11 weights cols inex sol (start_sig # starts) best =
    (case ReduceWeightReplace11 weights cols inex (drop start_sig sol @ take start_sig sol) of
       None \<Rightarrow> None
     | Some (new_weight, tmp_sol) \<Rightarrow>
         traverse11 weights cols inex sol starts (if new_weight < fst best then (new_weight, tmp_sol) else best))"

definition ReduceWeightReplace11_Traverse ::
    "int list \<Rightarrow> matrix \<Rightarrow> In_Ex_Type list \<Rightarrow> nat list \<Rightarrow> (int \<times> nat list) option" where
  "ReduceWeightReplace11_Traverse weights cols inex cur_sol =
    (case SortWei weights cur_sol of
       None \<Rightarrow> None
     | Some sol \<Rightarrow> traverse11 weights cols inex sol [0..<length sol] (sol_weight weights sol, sol))"

section \<open>Solutions\<close>

text \<open>A covering problem: columns of \<open>n\<close> rows, where \<open>n\<close> is no multiple of 64, for which the test is right.\<close>

definition problem_ok :: "nat \<Rightarrow> matrix \<Rightarrow> bool" where
  "problem_ok n cols \<longleftrightarrow> matrix_ok n cols \<and> cols \<noteq> [] \<and> n mod 64 \<noteq> 0"

definition solves :: "nat \<Rightarrow> matrix \<Rightarrow> nat list \<Rightarrow> bool" where
  "solves n cols ps \<longleftrightarrow> union_of cols ps = {..<n}"

lemma problem_okD:
  assumes "problem_ok n cols"
  shows "matrix_ok n cols" "0 < n" "n < 2 ^ 31" "bsize (cols ! 0) = n" "bv_ok (nomask cols)" "bsize (nomask cols) = n" "bv_set (nomask cols) = {}"
proof -
  show m: "matrix_ok n cols" and "0 < n" using assms by (auto simp: problem_ok_def)
  then have v: "bv_ok (cols ! 0) \<and> bsize (cols ! 0) = n" using matrix_okD [OF m, of 0] assms by (simp add: problem_ok_def)
  then show n: "n < 2 ^ 31" "bsize (cols ! 0) = n" using bv_shapeD(1) [OF bv_okD(1)] by auto
  then show "bv_ok (nomask cols)" "bsize (nomask cols) = n" "bv_set (nomask cols) = {}"
    using bv_new_ok [OF n(1)] by (simp_all add: nomask_def)
qed

lemma Lite_solves: "problem_ok n cols \<Longrightarrow> cols_in cols ps \<Longrightarrow> IsSolutionLite cols (nomask cols) ps \<longleftrightarrow> solves n cols ps"
  using IsSolutionLite_iff [of "nomask cols" cols ps] problem_okD [of n cols]
  by (auto simp: problem_ok_def covers_def solves_def)

lemma union_of_mono: "set ps \<subseteq> set qs \<Longrightarrow> union_of cols ps \<subseteq> union_of cols qs"
  unfolding union_of_def by (rule UN_mono) simp_all

lemma solves_mono:
  assumes "problem_ok n cols" "cols_in cols qs" "solves n cols ps" "set ps \<subseteq> set qs"
  shows "solves n cols qs"
  using union_of_mono [OF assms(4), of cols] union_of_width [OF problem_okD(1) [OF assms(1)] assms(2)] assms(3)
  unfolding solves_def by (simp only: set_eq_subset)

lemma solves_cong: "set ps = set qs \<Longrightarrow> solves n cols ps = solves n cols qs"
  by (simp add: solves_def union_of_def)

lemma cols_in_subset: "cols_in cols qs \<Longrightarrow> set ps \<subseteq> set qs \<Longrightarrow> cols_in cols ps"
  unfolding cols_in_def by blast

lemma set_without: "set (without sol p) = set sol - {p}"
  by (auto simp: without_def)

text \<open>An irredundant list of columns: none of them can be left out.\<close>

definition irredundant :: "nat \<Rightarrow> matrix \<Rightarrow> nat list \<Rightarrow> bool" where
  "irredundant n cols sol \<longleftrightarrow> solves n cols sol \<and> (\<forall>p\<in>set sol. \<not> solves n cols (without sol p))"

lemma compress_loop_ok:
  assumes "problem_ok n cols" "cols_in cols sol" "solves n cols sol" "k \<le> length sol"
    and "\<forall>i<k. \<not> solves n cols (without sol (sol ! i))"
  shows "irredundant n cols (compress_loop cols sol k) \<and> set (compress_loop cols sol k) \<subseteq> set sol \<and>
    length (compress_loop cols sol k) \<le> length sol"
  using assms
proof (induction cols sol k rule: compress_loop.induct)
  case (1 cols sol k)
  note pr = "1.prems"(1) and cin = "1.prems"(2)
  have test: "IsSolutionLite cols (nomask cols) (without sol (sol ! k)) \<longleftrightarrow> solves n cols (without sol (sol ! k))"
    by (rule Lite_solves [OF pr]) (rule cols_in_subset [OF cin], simp add: set_without)
  show ?case
  proof (cases "k < length sol")
    case k: True
    show ?thesis
    proof (cases "solves n cols (without sol (sol ! k))")
      case True
      let ?sol = "take k sol @ drop (k + 1) sol"
      have sol: "sol = take k sol @ sol ! k # drop (k + 1) sol" using k by (simp add: Cons_nth_drop_Suc)
      have "set sol = set (take k sol) \<union> insert (sol ! k) (set (drop (k + 1) sol))"
        by (subst sol) (simp only: set_append list.set)
      then have sub: "set ?sol \<subseteq> set sol" "set sol \<subseteq> insert (sol ! k) (set ?sol)" by auto
      have c: "cols_in cols ?sol" by (rule cols_in_subset [OF cin sub(1)])
      have "solves n cols ?sol" by (rule solves_mono [OF pr c True]) (use sub(2) in \<open>auto simp: set_without\<close>)
      moreover have "\<not> solves n cols (without ?sol (?sol ! i))" if "i < k" for i
      proof
        assume s: "solves n cols (without ?sol (?sol ! i))"
        have "?sol ! i = sol ! i" using that k by (simp add: nth_append)
        then have "solves n cols (without sol (sol ! i))"
          using s sub(1) by (intro solves_mono [OF pr cols_in_subset [OF cin] s]) (auto simp: set_without)
        then show False using "1.prems"(5) that by blast
      qed
      ultimately have "irredundant n cols (compress_loop cols ?sol k) \<and> set (compress_loop cols ?sol k) \<subseteq> set ?sol \<and>
          length (compress_loop cols ?sol k) \<le> length ?sol"
        using "1.IH"(1) [OF k] test True pr c k by simp
      moreover have "compress_loop cols sol k = compress_loop cols ?sol k" using k test True by (subst compress_loop.simps) simp
      ultimately show ?thesis using sub(1) k by auto
    next
      case False
      then have "\<forall>i<k + 1. \<not> solves n cols (without sol (sol ! i))" using "1.prems"(5) by (auto simp: less_Suc_eq)
      moreover have "compress_loop cols sol k = compress_loop cols sol (k + 1)" using k test False by (subst compress_loop.simps) simp
      ultimately show ?thesis using "1.IH"(2) [OF k] test False "1.prems" k by simp
    qed
  next
    case False
    then have "compress_loop cols sol k = sol" by (subst compress_loop.simps) simp
    then show ?thesis using False "1.prems"(3-5) by (auto simp: irredundant_def in_set_conv_nth)
  qed
qed

section \<open>All smallest sub-solutions\<close>

text \<open>The solutions left when \<open>k\<close> columns are dropped.\<close>

definition dropped :: "nat \<Rightarrow> matrix \<Rightarrow> nat list \<Rightarrow> nat \<Rightarrow> nat list set" where
  "dropped n cols sol k =
    {filter (\<lambda>p. p \<notin> R) sol | R. R \<subseteq> set sol \<and> card R = k \<and> solves n cols (filter (\<lambda>p. p \<notin> R) sol)}"

lemma droppedI: "R \<subseteq> set sol \<Longrightarrow> card R = k \<Longrightarrow> solves n cols (filter (\<lambda>p. p \<notin> R) sol) \<Longrightarrow> filter (\<lambda>p. p \<notin> R) sol \<in> dropped n cols sol k"
  unfolding dropped_def by blast

lemma length_dropped:
  assumes "distinct sol" "s \<in> dropped n cols sol k" shows "length s = length sol - k" "set s \<subseteq> set sol" "k \<le> length sol" "solves n cols s"
proof -
  obtain R where R: "R \<subseteq> set sol" "card R = k" "s = filter (\<lambda>p. p \<notin> R) sol" "solves n cols s" using assms(2) by (auto simp: dropped_def)
  have "length s = card (set sol - R)" using assms(1) R(3) by (metis distinct_card distinct_filter set_diff_eq set_filter)
  then show "length s = length sol - k" using R(1,2) assms(1) by (simp add: card_Diff_subset finite_subset [OF R(1)] distinct_card)
  show "set s \<subseteq> set sol" "solves n cols s" using R by auto
  show "k \<le> length sol" using card_mono [OF _ R(1)] R(2) assms(1) by (simp add: distinct_card)
qed

lemma filter_without: "without (filter (\<lambda>p. p \<notin> R) sol) q = filter (\<lambda>p. p \<notin> insert q R) sol"
  by (simp add: without_def conj_commute)

lemma compress_step_set:
  "set (compress_step cols s p all_sol) =
    set all_sol \<union> (if IsSolutionLite cols (nomask cols) (without s p) then {without s p} else {})"
  by (auto simp: compress_step_def Let_def)

text \<open>A round adds the solutions with one column less, all of them and nothing else.\<close>

definition shorter :: "matrix \<Rightarrow> nat list \<Rightarrow> nat list set" where
  "shorter cols s = without s ` {p \<in> set s. IsSolutionLite cols (nomask cols) (without s p)}"

lemma compress_fold_set:
  "set (fold (compress_step cols s) ps all_sol) =
    set all_sol \<union> without s ` {p \<in> set ps. IsSolutionLite cols (nomask cols) (without s p)}"
proof (induction ps arbitrary: all_sol)
  case (Cons p ps)
  have "set (fold (compress_step cols s) (p # ps) all_sol) = set (compress_step cols s p all_sol) \<union>
      without s ` {p \<in> set ps. IsSolutionLite cols (nomask cols) (without s p)}"
    by (simp only: fold.simps o_apply Cons.IH)
  then show ?case unfolding compress_step_set by auto
qed simp

lemma compress_round_set: "set (compress_round cols cur) = set cur \<union> (\<Union>s\<in>set cur. shorter cols s)"
proof -
  have "set (fold (\<lambda>s. fold (compress_step cols s) s) ss all_sol) = set all_sol \<union> (\<Union>s\<in>set ss. shorter cols s)" for ss all_sol
  proof (induction ss arbitrary: all_sol)
    case (Cons s ss)
    have "set (fold (\<lambda>s. fold (compress_step cols s) s) (s # ss) all_sol) =
        set (fold (compress_step cols s) s all_sol) \<union> (\<Union>s\<in>set ss. shorter cols s)"
      by (simp only: fold.simps o_apply Cons.IH)
    then show ?case unfolding compress_fold_set shorter_def [of cols s, symmetric] by auto
  qed simp
  then show ?thesis unfolding compress_round_def .
qed

lemma shorter_dropped:
  assumes pr: "problem_ok n cols" and sol: "cols_in cols sol" "distinct sol"
  shows "(\<Union>s\<in>dropped n cols sol k. shorter cols s) = dropped n cols sol (Suc k)"
proof (intro equalityI subsetI)
  fix t assume "t \<in> (\<Union>s\<in>dropped n cols sol k. shorter cols s)"
  then obtain s p where s: "s \<in> dropped n cols sol k" "p \<in> set s" "IsSolutionLite cols (nomask cols) (without s p)" "t = without s p"
    by (auto simp: shorter_def)
  then obtain R where R: "R \<subseteq> set sol" "card R = k" "s = filter (\<lambda>p. p \<notin> R) sol" by (auto simp: dropped_def)
  have t: "t = filter (\<lambda>q. q \<notin> insert p R) sol" unfolding s(4) R(3) by (rule filter_without)
  have "cols_in cols (without s p)" by (rule cols_in_subset [OF sol(1)]) (use R in \<open>auto simp: set_without\<close>)
  then have "solves n cols (filter (\<lambda>q. q \<notin> insert p R) sol)" using s(3,4) Lite_solves [OF pr] t by simp
  moreover have "insert p R \<subseteq> set sol" "p \<notin> R" using R(1,3) s(2) by auto
  moreover have "card (insert p R) = Suc k" using \<open>p \<notin> R\<close> R(2) finite_subset [OF R(1)] by simp
  ultimately show "t \<in> dropped n cols sol (Suc k)" unfolding t by (intro droppedI)
next
  fix t assume "t \<in> dropped n cols sol (Suc k)"
  then obtain R where R: "R \<subseteq> set sol" "card R = Suc k" "t = filter (\<lambda>p. p \<notin> R) sol" "solves n cols t" by (auto simp: dropped_def)
  obtain p where p: "p \<in> R" using R(2) by (metis card.empty equals0I nat.distinct(1))
  let ?R = "R - {p}" and ?s = "filter (\<lambda>q. q \<notin> R - {p}) sol"
  have fin: "finite R" using finite_subset [OF R(1)] by simp
  have ins: "insert p ?R = R" using p by blast
  have "solves n cols ?s" by (rule solves_mono [OF pr cols_in_subset [OF sol(1)] R(4)]) (auto simp: R(3))
  moreover have "card ?R = k" using p R(2) fin by simp
  moreover have "?R \<subseteq> set sol" using R(1) by blast
  ultimately have s: "?s \<in> dropped n cols sol k" by (intro droppedI)
  have t: "t = without ?s p" unfolding R(3) filter_without ins ..
  have "p \<in> set ?s" using p R(1) by auto
  moreover have "IsSolutionLite cols (nomask cols) (without ?s p)"
    unfolding t [symmetric] using R(4) by (subst Lite_solves [OF pr cols_in_subset [OF sol(1)]]) (auto simp: R(3))
  ultimately have "t \<in> shorter cols ?s" unfolding shorter_def using t by (intro image_eqI [where x = p] CollectI conjI) assumption+
  with s show "t \<in> (\<Union>s\<in>dropped n cols sol k. shorter cols s)" by (rule UN_I)
qed

lemma compress_rounds_ok:
  assumes "problem_ok n cols" "cols_in cols sol" "distinct sol" "set cur = dropped n cols sol k" "cur \<noteq> []"
  shows "\<exists>k'. set (compress_rounds cols cur) = dropped n cols sol k' \<and> k \<le> k' \<and> dropped n cols sol k' \<noteq> {} \<and>
    dropped n cols sol (Suc k') = {}"
  using assms
proof (induction cols cur arbitrary: k rule: compress_rounds.induct)
  case (1 cols cur)
  note sd = shorter_dropped [OF "1.prems"(1-3)]
  obtain new where new: "compress_round cols cur = cur @ new" using compress_round_new by blast
  have all: "set cur \<union> set new = dropped n cols sol k \<union> dropped n cols sol (Suc k)"
  proof -
    have "set cur \<union> set new = set cur \<union> (\<Union>s\<in>set cur. shorter cols s)" using compress_round_set [of cols cur] new by simp
    then show ?thesis unfolding "1.prems"(4) sd .
  qed
  have apart: "t \<notin> dropped n cols sol (Suc k)" if "t \<in> dropped n cols sol k" for t
    using length_dropped(1) [OF "1.prems"(3) that] length_dropped(1,3) [OF "1.prems"(3), of t n cols "Suc k"] by linarith
  have sub: "set new \<subseteq> (\<Union>s\<in>set cur. without s ` set s)" using compress_round_new [of cols cur] new by auto
  have "length t < length sol - k" if "t \<in> set new" for t
  proof -
    obtain s p where "s \<in> set cur" "p \<in> set s" "t = without s p" using sub \<open>t \<in> set new\<close> by blast
    then show ?thesis using length_without length_dropped(1) [OF "1.prems"(3)] "1.prems"(4) by fastforce
  qed
  then have "set new \<inter> set cur = {}" using length_dropped(1) [OF "1.prems"(3)] "1.prems"(4) by fastforce
  then have newset: "set new = dropped n cols sol (Suc k)" using all apart "1.prems"(4) by blast
  show ?case
  proof (cases "new = []")
    case True
    then have "compress_rounds cols cur = cur" using new by (subst compress_rounds.simps) simp
    then show ?thesis using newset True "1.prems"(4,5) by (intro exI [of _ k]) auto
  next
    case False
    then have eq: "compress_rounds cols cur = compress_rounds cols new" using new by (subst compress_rounds.simps) simp
    have "\<exists>k'. set (compress_rounds cols (drop (length cur) (compress_round cols cur))) = dropped n cols sol k' \<and> Suc k \<le> k' \<and>
        dropped n cols sol k' \<noteq> {} \<and> dropped n cols sol (Suc k') = {}"
      using False new newset "1.prems"(1-3) by (intro "1.IH" [OF refl]) simp_all
    then show ?thesis using new eq by (auto intro: Suc_leD)
  qed
qed

text \<open>The best of a list: no element is shorter, and none of the same length is lighter.\<close>

definition at_least :: "int list \<Rightarrow> nat list \<Rightarrow> nat list \<Rightarrow> bool" where
  "at_least weights r s \<longleftrightarrow> length r < length s \<or> length r = length s \<and> sol_weight weights r \<le> sol_weight weights s"

lemma fold_better:
  "fold (better weights) ss b \<in> set (b # ss) \<and> (\<forall>s\<in>set (b # ss). at_least weights (fold (better weights) ss b) s)"
proof (induction ss arbitrary: b)
  case Nil
  show ?case by (simp add: at_least_def)
next
  case (Cons s ss)
  let ?c = "better weights s b"
  define r where "r = fold (better weights) ss ?c"
  have c: "?c = s \<or> ?c = b" "at_least weights ?c s \<and> at_least weights ?c b"
    unfolding better_def at_least_def by (simp_all split: if_split) linarith
  have trans: "at_least weights x z" if "at_least weights x y" "at_least weights y z" for x y z
    using that unfolding at_least_def by linarith
  have r: "at_least weights r ?c" "r \<in> set (?c # ss)" "\<forall>t\<in>set ss. at_least weights r t"
    using Cons.IH [of ?c] unfolding r_def [symmetric] by simp_all
  have "at_least weights r s" "at_least weights r b" using trans [OF r(1)] c(2) by blast+
  moreover have "r \<in> set (b # s # ss)" using r(2) c(1) by auto
  ultimately show ?case using r(3) by (simp add: r_def)
qed

lemma mset_distinct: "distinct xs \<Longrightarrow> distinct ys \<Longrightarrow> set xs = set ys \<Longrightarrow> mset xs = mset ys"
  by (rule iffD1 [OF set_eq_iff_mset_eq_distinct])

text \<open>A solution among the columns of \<open>sol\<close> is one of the dropped lists, up to the order.\<close>

lemma sub_dropped:
  assumes "distinct sol" "set qs \<subseteq> set sol" "distinct qs" "solves n cols qs"
  shows "\<exists>s\<in>dropped n cols sol (length sol - length qs). mset s = mset qs"
proof -
  let ?R = "set sol - set qs" and ?s = "filter (\<lambda>p. p \<notin> set sol - set qs) sol"
  have ss: "set ?s = set qs" using assms(2) by auto
  have "card ?R = length sol - length qs" using assms(1-3) by (simp add: card_Diff_subset distinct_card)
  then have "?s \<in> dropped n cols sol (length sol - length qs)"
    using assms(4) solves_cong [OF ss, of n cols] by (intro droppedI) auto
  moreover have "mset ?s = mset qs" using assms(1,3) ss by (intro mset_distinct) simp_all
  ultimately show ?thesis by blast
qed

lemma sol_weight_mset: "mset xs = mset ys \<Longrightarrow> sol_weight weights xs = sol_weight weights ys"
  unfolding sol_weight_def by (rule sum_mset_eq)

lemma dropped_antimono:
  assumes "problem_ok n cols" "cols_in cols sol" "distinct sol" "dropped n cols sol k = {}" "k \<le> k'"
  shows "dropped n cols sol k' = {}"
  using assms(5)
proof (induction rule: dec_induct)
  case (step m)
  then show ?case using shorter_dropped [OF assms(1-3), of m] by simp
qed (fact assms(4))

lemma ReduceColCompress_All_ok:
  fixes weights :: "int list"
  assumes pr: "problem_ok n cols" and sol: "cols_in cols sol" "distinct sol" "solves n cols sol"
  defines "r \<equiv> ReduceColCompress_All weights cols sol"
  shows "solves n cols r" "distinct r" "set r \<subseteq> set sol"
    "distinct qs \<Longrightarrow> set qs \<subseteq> set sol \<Longrightarrow> solves n cols qs \<Longrightarrow> at_least weights r qs"
proof -
  have zero: "set [sol] = dropped n cols sol 0"
  proof (intro equalityI subsetI)
    fix t assume "t \<in> set [sol]"
    then show "t \<in> dropped n cols sol 0" using droppedI [of "{}" sol 0 n cols] sol(3) by simp
  next
    fix t assume "t \<in> dropped n cols sol 0"
    then obtain R where R: "R \<subseteq> set sol" "card R = 0" "t = filter (\<lambda>p. p \<notin> R) sol" by (auto simp: dropped_def)
    then have "R = {}" using finite_subset [OF R(1)] by simp
    then show "t \<in> set [sol]" using R(3) by simp
  qed
  obtain k where k: "set (compress_rounds cols [sol]) = dropped n cols sol k" "dropped n cols sol k \<noteq> {}" "dropped n cols sol (Suc k) = {}"
    using compress_rounds_ok [OF pr sol(1,2) zero] by auto
  obtain b ss where bs: "compress_rounds cols [sol] = b # ss" using k(1,2) by (cases "compress_rounds cols [sol]") auto
  have len: "length s = length sol - k" "set s \<subseteq> set sol" "solves n cols s" "distinct s" if "s \<in> dropped n cols sol k" for s
    using length_dropped [OF sol(2) that] sol(2) that by (auto simp: dropped_def)
  have kle: "k \<le> length sol" using length_dropped(3) [OF sol(2)] k(2) by blast
  have b: "b \<in> dropped n cols sol k" using k(1) bs by (metis list.set_intros(1))
  have r: "r = (if length b < length sol then fold (better weights) ss b else sol)"
    unfolding r_def ReduceColCompress_All_def Let_def bs by simp
  have in_r: "r \<in> dropped n cols sol k \<and> (\<forall>s\<in>dropped n cols sol k. at_least weights r s)"
  proof (cases "length b < length sol")
    case True
    have set_bs: "set (b # ss) = dropped n cols sol k" using k(1) unfolding bs .
    have fold: "r = fold (better weights) ss b" using r True by simp
    show ?thesis using fold_better [of weights ss b] unfolding set_bs fold .
  next
    case False
    then have "k = 0" using len(1) [OF b] kle by simp
    then have "dropped n cols sol k = {sol}" using zero by simp
    moreover have "r = sol" using r False by simp
    ultimately show ?thesis by (simp add: at_least_def)
  qed
  show "solves n cols r" "distinct r" "set r \<subseteq> set sol" by (rule len [OF in_r [THEN conjunct1]])+
  show "at_least weights r qs" if qs: "distinct qs" "set qs \<subseteq> set sol" "solves n cols qs"
  proof -
    let ?k = "length sol - length qs"
    obtain s where s: "s \<in> dropped n cols sol ?k" "mset s = mset qs" using sub_dropped [OF sol(2) qs(2,1,3)] by blast
    then have "?k \<le> k" using dropped_antimono [OF pr sol(1,2) k(3), of ?k] by (cases "Suc k \<le> ?k") auto
    moreover have "length qs \<le> length sol" using card_mono [OF _ qs(2)] qs(1) sol(2) by (simp add: distinct_card)
    ultimately have "length r < length qs \<or> ?k = k" using len(1) [OF in_r [THEN conjunct1]] kle by linarith
    then show ?thesis
    proof
      assume "?k = k"
      then have "at_least weights r s" using in_r s(1) by simp
      then show ?thesis using s(2) sol_weight_mset [OF s(2)] mset_eq_length [OF s(2)] by (simp add: at_least_def)
    qed (simp add: at_least_def)
  qed
qed

section \<open>Replacements\<close>

lemma mset_remove_at: "j < length sol \<Longrightarrow> add_mset (sol ! j) (mset (remove_at j sol)) = mset sol"
proof -
  assume j: "j < length sol"
  then obtain ys y where sol: "sol = ys @ [y]" by (cases sol rule: rev_cases) auto
  show ?thesis
  proof (cases "j < length ys")
    case True
    then have "remove_at j sol = ys[j := y]" "sol ! j = ys ! j" by (simp_all add: sol remove_at_def list_update_append nth_append)
    moreover have "add_mset (ys ! j) (mset ys - {#ys ! j#}) = mset ys" using True by simp
    ultimately show ?thesis using True by (simp only: sol mset_update mset_append mset_single_iff add_mset_commute [of "ys ! j" y])
        simp
  next
    case False
    then have "j = length ys" using j sol by simp
    then show ?thesis by (simp add: sol remove_at_def)
  qed
qed

lemma nth_remove_at: "i < j \<Longrightarrow> j < length sol \<Longrightarrow> remove_at j sol ! i = sol ! i"
  by (simp add: remove_at_def nth_butlast)

lemma mset_remove_all:
  assumes "sorted_wrt (<) is" "\<forall>i\<in>set is. i < length sol"
  shows "mset (fold remove_at (rev is) sol) + mset (map ((!) sol) is) = mset sol"
  using assms
proof (induction "is" arbitrary: sol rule: rev_induct)
  case (snoc j js)
  have j: "j < length sol" "\<forall>i\<in>set js. i < j" using snoc.prems by (auto simp: sorted_wrt_append)
  then have lt: "\<forall>i\<in>set js. i < length (remove_at j sol)" by fastforce
  have m: "map ((!) (remove_at j sol)) js = map ((!) sol) js" using j nth_remove_at by (intro map_cong) auto
  have "sorted_wrt (<) js" using snoc.prems(1) by (simp add: sorted_wrt_append)
  from snoc.IH [OF this lt, unfolded m]
  have "mset (fold remove_at (rev js) (remove_at j sol)) + mset (map ((!) sol) js) = mset (remove_at j sol)" .
  then show ?case using mset_remove_at [OF j(1)] by (simp add: ac_simps)
qed simp

text \<open>The columns at the other positions are those that are left.\<close>

definition others :: "nat list \<Rightarrow> nat list \<Rightarrow> nat list" where
  "others sol is = map ((!) sol) (filter (\<lambda>m. m \<notin> set is) [0..<length sol])"

lemma mset_swap_in:
  assumes "sorted_wrt (<) is" "\<forall>i\<in>set is. i < length sol"
  shows "mset (swap_in sol is c) = add_mset c (mset (others sol is))"
proof -
  have inn: "mset (filter (\<lambda>m. m \<in> set is) [0..<length sol]) = mset is"
  proof -
    have "set (filter (\<lambda>m. m \<in> set is) [0..<length sol]) = set is" using assms(2) by auto
    moreover have "distinct is" using assms(1) by (simp add: strict_sorted_iff)
    ultimately show ?thesis by (intro mset_distinct) simp_all
  qed
  have "mset sol = mset (map ((!) sol) [0..<length sol])" by (simp only: map_nth)
  also have "\<dots> = mset (map ((!) sol) (filter (\<lambda>m. m \<in> set is) [0..<length sol])) + mset (others sol is)"
    unfolding others_def mset_map mset_filter by (metis image_mset_union multiset_partition)
  also have "mset (map ((!) sol) (filter (\<lambda>m. m \<in> set is) [0..<length sol])) = mset (map ((!) sol) is)"
    using inn by (simp only: mset_map)
  finally have "mset (fold remove_at (rev is) sol) = mset (others sol is)"
    using mset_remove_all [OF assms] by (metis add.commute add_right_cancel)
  then show ?thesis by (simp add: swap_in_def)
qed

lemma fold_nth: "fold (\<lambda>m. f (cols ! (sol ! m))) ms b = fold f (map (\<lambda>m. cols ! (sol ! m)) ms) b"
  by (simp add: fold_map comp_def)

lemma only_rows_ok:
  assumes pr: "problem_ok n cols" and sol: "cols_in cols sol" and "is": "is \<noteq> []" "\<forall>i\<in>set is. i < length sol"
  shows "bv_ok (only_rows cols sol is) \<and> bsize (only_rows cols sol is) = n \<and>
    bv_set (only_rows cols sol is) = union_of cols (map ((!) sol) is) - union_of cols (others sol is)"
proof -
  have col: "bv_ok (cols ! (sol ! m)) \<and> bsize (cols ! (sol ! m)) = n" if "m < length sol" for m
    using matrix_okD [OF problem_okD(1) [OF pr]] sol that by (simp add: cols_in_def)
  obtain i js where ij: "is = i # js" using "is"(1) by (cases "is") auto
  let ?v = "bv_copy (cols ! (sol ! i)) bv_empty"
  let ?b = "fold bv_or_count (map (\<lambda>m. cols ! (sol ! m)) js) ?v"
  let ?ms = "filter (\<lambda>m. m \<notin> set is) [0..<length sol]"
  have v: "?v = cols ! (sol ! i)" using bv_copy_eq [OF bv_okD(1)] col "is"(2) ij by simp
  then have vok: "bv_ok ?v" "bsize ?v = n" using col "is"(2) ij by simp_all
  have j: "\<forall>u\<in>set (map (\<lambda>m. cols ! (sol ! m)) js). bv_ok u \<and> bsize u = bsize ?v" using col "is"(2) ij vok(2) by auto
  note b = bv.fold_join [OF vok(1) j]
  have ms: "\<forall>u\<in>set (map (\<lambda>m. cols ! (sol ! m)) ?ms). bv_ok u \<and> bsize u = bsize ?b" using col b vok(2) by auto
  note d = bv.fold_mask [OF conjunct1 [OF b] ms]
  have eq: "only_rows cols sol is = fold bv_mask_count (map (\<lambda>m. cols ! (sol ! m)) ?ms) ?b"
    unfolding only_rows_def Let_def ij list.sel fold_nth ..
  have "bv_set ?b = union_of cols (map ((!) sol) is)" using b v by (auto simp: ij union_of_def)
  moreover have "(\<Union>u\<in>set (map (\<lambda>m. cols ! (sol ! m)) ?ms). bv_set u) = union_of cols (others sol is)"
    by (simp add: union_of_def others_def)
  ultimately show ?thesis using d b vok(2) unfolding eq by simp
qed

lemma union_of_mset: "mset xs = mset ys \<Longrightarrow> union_of cols xs = union_of cols ys"
  unfolding union_of_def by (metis set_mset_mset)

text \<open>A column can replace others exactly when it has the rows that only they cover.\<close>

lemma swap_in_solves:
  assumes pr: "problem_ok n cols" and sol: "cols_in cols sol" "solves n cols sol" and c: "c < length cols"
    and "is": "sorted_wrt (<) is" "is \<noteq> []" "\<forall>i\<in>set is. i < length sol"
  shows "bv_set (only_rows cols sol is) \<subseteq> bv_set (cols ! c) \<longleftrightarrow> solves n cols (swap_in sol is c)"
proof -
  have all: "union_of cols (map ((!) sol) is) \<union> union_of cols (others sol is) = {..<n}"
  proof -
    have "set is \<union> {m. m < length sol \<and> m \<notin> set is} = {..<length sol}" using "is"(3) by auto
    then have "(!) sol ` set is \<union> (!) sol ` {m. m < length sol \<and> m \<notin> set is} = (!) sol ` {..<length sol}" by (simp only: image_Un [symmetric])
    moreover have "(!) sol ` {..<length sol} = set sol" by (auto simp: set_conv_nth)
    ultimately have "set (map ((!) sol) is) \<union> set (others sol is) = set sol" by (simp add: others_def)
    then have "union_of cols (map ((!) sol) is @ others sol is) = union_of cols sol" unfolding union_of_def by simp
    then show ?thesis using sol(2) by (simp add: solves_def)
  qed
  have c_sub: "bv_set (cols ! c) \<subseteq> {..<n}" using matrix_okD [OF problem_okD(1) [OF pr] c] bv.elems_width by blast
  have "union_of cols (swap_in sol is c) = bv_set (cols ! c) \<union> union_of cols (others sol is)"
    using union_of_mset [OF mset_swap_in [OF "is"(1,3), of c, folded mset.simps(2)], of cols] by simp
  then show ?thesis
    using only_rows_ok [OF pr sol(1) "is"(2,3)] all c_sub unfolding solves_def by blast
qed

lemma set_swap_in:
  assumes "sorted_wrt (<) is" "\<forall>i\<in>set is. i < length sol"
  shows "set (swap_in sol is c) \<subseteq> insert c (set sol)"
  using arg_cong [OF mset_swap_in [OF assms, of c], of set_mset] by (auto simp: others_def)

lemma try_cols_ok:
  assumes "\<forall>c\<in>set cs. counter both \<le> counter (cols ! c) \<and> inex ! c \<noteq> ExcludedFlag"
  shows "\<exists>r. try_cols cols inex both sol cs = Some r \<and>
    (case r of None \<Rightarrow> \<forall>c\<in>set cs. c \<in> set sol \<or> count_and both (cols ! c) \<noteq> counter both
     | Some c \<Rightarrow> c \<in> set cs \<and> c \<notin> set sol \<and> count_and both (cols ! c) = counter both)"
  using assms
proof (induction cs)
  case (Cons c cs)
  then obtain r where r: "try_cols cols inex both sol cs = Some r"
    "case r of None \<Rightarrow> \<forall>c\<in>set cs. c \<in> set sol \<or> count_and both (cols ! c) \<noteq> counter both
     | Some c \<Rightarrow> c \<in> set cs \<and> c \<notin> set sol \<and> count_and both (cols ! c) = counter both" by auto
  then show ?case using Cons.prems by (cases r) auto
qed simp

lemma takeWhile_desc:
  fixes f :: "'a \<Rightarrow> 'b :: linorder"
  shows "sorted_wrt (\<lambda>p q. f q \<le> f p) xs \<Longrightarrow> takeWhile (\<lambda>p. c \<le> f p) xs = filter (\<lambda>p. c \<le> f p) xs"
proof (induction xs)
  case (Cons x xs)
  show ?case
  proof (cases "c \<le> f x")
    case False
    then have "\<forall>y\<in>set xs. \<not> c \<le> f y" using Cons.prems by fastforce
    then have "filter (\<lambda>p. c \<le> f p) xs = []" by (simp add: filter_empty_conv)
    then show ?thesis using False by simp
  qed (use Cons in simp)
qed simp

lemma replacement_ok:
  assumes pr: "problem_ok n cols" and sol: "cols_in cols sol" "solves n cols sol"
    and idx: "cols_in cols idx" "by_count cols idx" "\<forall>c\<in>set idx. inex ! c \<noteq> ExcludedFlag"
    and "is": "sorted_wrt (<) is" "is \<noteq> []" "\<forall>i\<in>set is. i < length sol"
  shows "\<exists>r. replacement cols inex idx sol is = Some r \<and>
    (case r of None \<Rightarrow> \<forall>c\<in>set idx. c \<in> set sol \<or> \<not> solves n cols (swap_in sol is c)
     | Some c \<Rightarrow> c \<in> set idx \<and> c \<notin> set sol \<and> solves n cols (swap_in sol is c))"
proof -
  let ?b = "only_rows cols sol is"
  let ?cs = "rev (takeWhile (\<lambda>p. counter ?b \<le> counter (cols ! p)) idx)"
  note b = only_rows_ok [OF pr sol(1) "is"(2,3)]
  have cs: "set ?cs = {c \<in> set idx. counter ?b \<le> counter (cols ! c)}"
    using takeWhile_desc [of "\<lambda>p. counter (cols ! p)" idx] idx(2) by (simp add: by_count_def)
  have iff: "count_and ?b (cols ! c) = counter ?b \<longleftrightarrow> solves n cols (swap_in sol is c)" if "c \<in> set idx" for c
  proof -
    have c: "c < length cols" using idx(1) that by (simp add: cols_in_def)
    show ?thesis
      using bv.common_iff [of ?b "cols ! c"] b matrix_okD [OF problem_okD(1) [OF pr] c] swap_in_solves [OF pr sol c "is"] by simp
  qed
  have heavy: "counter ?b \<le> counter (cols ! c)" if "c \<in> set idx" "solves n cols (swap_in sol is c)" for c
  proof -
    have c: "c < length cols" using idx(1) that by (simp add: cols_in_def)
    then show ?thesis
      using bv.subset_cnt [of ?b "cols ! c"] b matrix_okD [OF problem_okD(1) [OF pr] c] swap_in_solves [OF pr sol c "is"] that(2) by simp
  qed
  have "\<forall>c\<in>set ?cs. counter ?b \<le> counter (cols ! c) \<and> inex ! c \<noteq> ExcludedFlag" using idx(3) cs by simp
  from try_cols_ok [OF this, of sol] obtain r where r: "try_cols cols inex ?b sol ?cs = Some r"
    "case r of None \<Rightarrow> \<forall>c\<in>set ?cs. c \<in> set sol \<or> count_and ?b (cols ! c) \<noteq> counter ?b
     | Some c \<Rightarrow> c \<in> set ?cs \<and> c \<notin> set sol \<and> count_and ?b (cols ! c) = counter ?b" by blast
  have "replacement cols inex idx sol is = Some r" unfolding replacement_def Let_def by (fact r(1))
  moreover have "case r of None \<Rightarrow> \<forall>c\<in>set idx. c \<in> set sol \<or> \<not> solves n cols (swap_in sol is c)
     | Some c \<Rightarrow> c \<in> set idx \<and> c \<notin> set sol \<and> solves n cols (swap_in sol is c)"
    using r(2) iff heavy unfolding cs by (cases r) auto
  ultimately show ?thesis by blast
qed

lemma index_tuples_sorted:
  "t \<in> set (index_tuples k n) \<Longrightarrow> sorted_wrt (<) t \<and> t \<noteq> [] \<and> (\<forall>i\<in>set t. i < n) \<and> length t = (if k = 2 then 2 else 3)"
  by (auto simp: index_tuples_def split: if_splits)

lemma first_replacement_cases:
  assumes "\<forall>t\<in>set ts. f t \<noteq> None"
  obtains "first_replacement f ts = Some None" "\<forall>t\<in>set ts. f t = Some None"
  | t c where "first_replacement f ts = Some (Some (t, c))" "t \<in> set ts" "f t = Some (Some c)"
proof -
  have "first_replacement f ts = Some None \<and> (\<forall>t\<in>set ts. f t = Some None) \<or>
    (\<exists>t c. first_replacement f ts = Some (Some (t, c)) \<and> t \<in> set ts \<and> f t = Some (Some c))"
    using assms
  proof (induction ts)
    case (Cons t ts)
    then obtain y where "f t = Some y" by auto
    then show ?case using Cons by (cases y) auto
  qed simp
  then show thesis using that by blast
qed

text \<open>No column of the list can replace the columns at two (three) positions.\<close>

definition settled :: "nat \<Rightarrow> nat \<Rightarrow> matrix \<Rightarrow> nat list \<Rightarrow> nat list \<Rightarrow> bool" where
  "settled k n cols idx sol \<longleftrightarrow>
    (\<forall>t\<in>set (index_tuples k (length sol)). \<forall>c\<in>set idx. c \<in> set sol \<or> \<not> solves n cols (swap_in sol t c))"

definition improves :: "nat \<Rightarrow> matrix \<Rightarrow> nat list \<Rightarrow> nat list \<Rightarrow> nat list \<Rightarrow> bool" where
  "improves n cols idx sol r \<longleftrightarrow> cols_in cols r \<and> solves n cols r \<and> length r \<le> length sol \<and>
    set r \<subseteq> set sol \<union> set idx \<and> (distinct sol \<longrightarrow> distinct r)"

lemma improves_refl: "cols_in cols sol \<Longrightarrow> solves n cols sol \<Longrightarrow> improves n cols idx sol sol"
  by (simp add: improves_def)

lemma improves_trans: "improves n cols idx r s \<Longrightarrow> improves n cols idx sol r \<Longrightarrow> improves n cols idx sol s"
  unfolding improves_def by auto

lemma improves_mset:
  assumes "mset r = mset r'" "improves n cols idx sol r" shows "improves n cols idx sol r'"
proof -
  have "set r = set r'" "length r = length r'" "distinct r = distinct r'"
    using assms(1) by (auto dest: mset_eq_setD mset_eq_length mset_eq_imp_distinct_iff)
  then show ?thesis using assms(2) solves_cong [of r r' n cols] by (simp add: improves_def cols_in_def)
qed

lemma improves_swap_in:
  assumes sol: "cols_in cols sol" and c: "c \<in> set idx" "c < length cols" "c \<notin> set sol" "solves n cols (swap_in sol is c)"
    and "is": "sorted_wrt (<) is" "is \<noteq> []" "\<forall>i\<in>set is. i < length sol" "length is \<le> length sol"
  shows "improves n cols idx sol (swap_in sol is c)"
proof -
  note m = mset_swap_in [OF "is"(1,3), of c]
  have sub: "set (swap_in sol is c) \<subseteq> insert c (set sol)" by (rule set_swap_in [OF "is"(1,3)])
  have "length (swap_in sol is c) \<le> length sol" using length_swap_in [OF "is"(4), of c] "is"(2,4) by (cases "is") auto
  moreover have "distinct (swap_in sol is c)" if "distinct sol"
  proof -
    have "distinct (others sol is)" using that unfolding others_def by (auto simp: distinct_map inj_on_def nth_eq_iff_index_eq)
    moreover have "c \<notin> set (others sol is)" using c(3) by (auto simp: others_def)
    ultimately have "distinct (c # others sol is)" by simp
    then show ?thesis using mset_eq_imp_distinct_iff [OF m [folded mset.simps(2)]] by simp
  qed
  ultimately show ?thesis using sub sol c unfolding improves_def cols_in_def by auto
qed

lemma replace_loop_ok:
  assumes k: "k = 2 \<or> k = 3" and pr: "problem_ok n cols"
    and idx: "cols_in cols idx" "by_count cols idx" "\<forall>c\<in>set idx. inex ! c \<noteq> ExcludedFlag"
    and sol: "cols_in cols sol" "solves n cols sol"
  shows "case replace_loop k weights cols inex idx sol of
      Some r \<Rightarrow> improves n cols idx sol r \<and> settled k n cols idx r
    | None \<Rightarrow> length sol < k - 1 \<or> k = 3 \<and> odd (length sol) \<and> (\<exists>c\<in>set idx. solves n cols [c])"
  using assms
proof (induction k weights cols inex idx sol rule: replace_loop.induct)
  case (1 k weights cols inex idx sol)
  note k = "1.prems"(1) and pr = "1.prems"(2) and idx = "1.prems"(3-5) and sol = "1.prems"(6,7)
  let ?f = "replacement cols inex idx sol" and ?ts = "index_tuples k (length sol)"
  show ?case
  proof (cases "length sol < k - 1")
    case True
    then show ?thesis by (subst replace_loop.simps) simp
  next
    case False
    have f: "\<exists>r. ?f t = Some r \<and>
        (case r of None \<Rightarrow> \<forall>c\<in>set idx. c \<in> set sol \<or> \<not> solves n cols (swap_in sol t c)
         | Some c \<Rightarrow> c \<in> set idx \<and> c \<notin> set sol \<and> solves n cols (swap_in sol t c))" if "t \<in> set ?ts" for t
      using index_tuples_sorted [OF that] by (intro replacement_ok [OF pr sol idx]) simp_all
    then have "\<forall>t\<in>set ?ts. ?f t \<noteq> None" by fastforce
    then show ?thesis
    proof (cases rule: first_replacement_cases)
      case none: 1
      then have "replace_loop k weights cols inex idx sol = Some sol" using False by (subst replace_loop.simps) simp
      moreover have "settled k n cols idx sol" unfolding settled_def using none(2) f by fastforce
      ultimately show ?thesis using improves_refl [OF sol] by simp
    next
      case some: (2 t c)
      then have c: "c \<in> set idx" "c \<notin> set sol" "solves n cols (swap_in sol t c)" using f [OF some(2)] by auto
      have t: "sorted_wrt (<) t" "t \<noteq> []" "\<forall>i\<in>set t. i < length sol" "length t \<le> length sol" "length t = k"
        using index_tuples_sorted [OF some(2)] index_tuples_bounds [OF some(2)] k by auto
      have clen: "c < length cols" using c(1) idx(1) by (simp add: cols_in_def)
      obtain sol' where s: "SortWei weights (swap_in sol t c) = Some sol'" "mset sol' = mset (swap_in sol t c)"
        using SortWei_ok [of "swap_in sol t c" weights] by (auto simp: swap_in_def)
      have imp: "improves n cols idx sol sol'"
        using improves_mset [OF s(2) [symmetric] improves_swap_in [OF sol(1) c(1) clen c(2,3) t(1-4)]] .
      have len: "length sol' = length sol - k + 1"
        using mset_eq_length [OF s(2)] length_swap_in [OF t(4), of c] t(5) by simp
      have eq: "replace_loop k weights cols inex idx sol = replace_loop k weights cols inex idx sol'"
        using False some(1) s(1) by (subst replace_loop.simps) simp
      have IH: "case replace_loop k weights cols inex idx sol' of
          Some r \<Rightarrow> improves n cols idx sol' r \<and> settled k n cols idx r
        | None \<Rightarrow> length sol' < k - 1 \<or> k = 3 \<and> odd (length sol') \<and> (\<exists>c\<in>set idx. solves n cols [c])"
        using imp by (intro "1.IH" [OF False some(1) refl refl s(1) k pr idx]) (simp_all add: improves_def)
      show ?thesis
      proof (cases "replace_loop k weights cols inex idx sol'")
        case (Some r)
        then show ?thesis using IH improves_trans [OF _ imp] unfolding eq by simp
      next
        case None
        then consider "length sol' < k - 1" | "k = 3 \<and> odd (length sol') \<and> (\<exists>c\<in>set idx. solves n cols [c])"
          using IH by auto
        then have "k = 3 \<and> odd (length sol) \<and> (\<exists>c\<in>set idx. solves n cols [c])"
        proof cases
          assume short: "length sol' < k - 1"
          then have k3: "k = 3" and l: "length sol' = 1" "length sol = 3" using k len t(4,5) by auto
          have "c \<in> set sol'" using mset_eq_setD [OF s(2)] by (simp add: swap_in_def)
          then have "sol' = [c]" using l(1) by (auto simp: length_Suc_conv)
          then have "solves n cols [c]" using imp by (simp add: improves_def)
          then show ?thesis using k3 l(2) c(1) by auto
        next
          assume "k = 3 \<and> odd (length sol') \<and> (\<exists>c\<in>set idx. solves n cols [c])"
          then show ?thesis using len t(4,5) by auto
        qed
        then show ?thesis unfolding eq None by simp
      qed
    qed
  qed
qed

lemma Replace21_ok:
  assumes pr: "problem_ok n cols" and idx: "cols_in cols idx" "by_count cols idx" "\<forall>c\<in>set idx. inex ! c \<noteq> ExcludedFlag"
    and sol: "cols_in cols sol" "solves n cols sol" "sol \<noteq> []"
  shows "\<exists>r. ReduceColReplace21 weights cols inex idx sol = Some r \<and> improves n cols idx sol r \<and> settled 2 n cols idx r"
  using replace_loop_ok [OF _ pr idx sol(1,2), of 2 weights] sol(3)
  by (auto simp: ReduceColReplace21_def split: option.splits)

lemma traverse21_ok:
  assumes pr: "problem_ok n cols" and idx: "cols_in cols idx" "by_count cols idx" "\<forall>c\<in>set idx. inex ! c \<noteq> ExcludedFlag"
    and sol: "cols_in cols sol" "solves n cols sol" "sol \<noteq> []" and best: "improves n cols idx sol best"
  shows "\<exists>r. traverse21 weights cols inex idx sol starts best = Some r \<and> improves n cols idx sol r \<and> length r \<le> length best"
  using best
proof (induction starts arbitrary: best)
  case (Cons st starts)
  let ?t = "drop st sol @ take st sol"
  have m: "mset sol = mset ?t" by (metis append_take_drop_id mset_append add.commute)
  have t: "improves n cols idx sol ?t" by (rule improves_mset [OF m improves_refl [OF sol(1,2)]])
  then have t': "cols_in cols ?t" "solves n cols ?t" by (simp_all add: improves_def)
  have "?t \<noteq> []" using sol(3) m by (metis mset_zero_iff)
  note this = t' this
  from Replace21_ok [OF pr idx this, of weights] obtain u where
    u: "ReduceColReplace21 weights cols inex idx ?t = Some u" "improves n cols idx ?t u" by blast
  have "improves n cols idx sol u" by (rule improves_trans [OF u(2) t])
  then have "improves n cols idx sol (if length u < length best then u else best)" using Cons.prems by simp
  from Cons.IH [OF this] show ?case using u(1) by auto
qed simp

lemma Traverse21_ok:
  assumes "problem_ok n cols" "cols_in cols idx" "by_count cols idx" "\<forall>c\<in>set idx. inex ! c \<noteq> ExcludedFlag"
    and "cols_in cols sol" "solves n cols sol" "sol \<noteq> []"
  shows "\<exists>r. ReduceColReplace21_Traverse weights cols inex idx sol = Some r \<and> improves n cols idx sol r"
  using traverse21_ok [OF assms improves_refl [OF assms(5,6)], of weights "[0..<length sol]"]
  unfolding ReduceColReplace21_Traverse_def by blast

section \<open>Lighter columns\<close>

lemma mset_update_at: "i < length sol \<Longrightarrow> mset (sol[i := c]) = mset (swap_in sol [i] c)"
proof -
  assume i: "i < length sol"
  have "mset (remove_at i sol) = mset sol - {#sol ! i#}" using mset_remove_at [OF i] by (metis add_mset_remove_trivial)
  then show ?thesis using i by (simp add: mset_update swap_in_def)
qed

lemma update_solves:
  assumes "problem_ok n cols" "cols_in cols sol" "solves n cols sol" "c < length cols" "i < length sol"
  shows "bv_set (only_rows cols sol [i]) \<subseteq> bv_set (cols ! c) \<longleftrightarrow> solves n cols (sol[i := c])"
  using swap_in_solves [OF assms(1-4), of "[i]"] assms(5) solves_cong [OF mset_eq_setD [OF mset_update_at [OF assms(5)]]] by simp

lemma lighter_ok:
  assumes pr: "problem_ok n cols" and sol: "cols_in cols sol" "solves n cols sol" and i: "i < length sol"
  shows "case lighter weights cols inex sol i of
      Some c \<Rightarrow> c < length cols \<and> weights ! c < weights ! (sol ! i) \<and> c \<notin> set sol \<and> inex ! c \<noteq> ExcludedFlag \<and> solves n cols (sol[i := c])
    | None \<Rightarrow> \<forall>c<length cols. (\<forall>q\<le>c. weights ! q < weights ! (sol ! i)) \<longrightarrow>
        inex ! c = ExcludedFlag \<or> c \<in> set sol \<or> \<not> solves n cols (sol[i := c])"
proof -
  let ?b = "only_rows cols sol [i]" and ?n = "length cols"
  let ?P = "\<lambda>c. counter ?b \<le> counter (cols ! c) \<and> inex ! c \<noteq> ExcludedFlag \<and> c \<notin> set sol \<and> count_and ?b (cols ! c) = counter ?b"
  have b: "bv_ok ?b" "bsize ?b = n" using only_rows_ok [OF pr sol(1), of "[i]"] i by simp_all
  have P: "?P c \<longleftrightarrow> inex ! c \<noteq> ExcludedFlag \<and> c \<notin> set sol \<and> solves n cols (sol[i := c])" if c: "c < ?n" for c
    using bv.common_iff [of ?b "cols ! c"] bv.subset_cnt [of ?b "cols ! c"] b matrix_okD [OF problem_okD(1) [OF pr] c]
      update_solves [OF pr sol c i] by auto
  have eq: "lighter weights cols inex sol i = find ?P (takeWhile (\<lambda>index. weights ! index < weights ! (sol ! i)) [0..<?n])"
    by (simp add: lighter_def Let_def)
  show ?thesis
  proof (cases "lighter weights cols inex sol i")
    case (Some c)
    then have c: "c < ?n" "weights ! c < weights ! (sol ! i)" "c \<notin> set sol" using lighter_Some by blast+
    have "?P c" using Some unfolding eq by (auto simp: find_Some_iff)
    then show ?thesis using Some c P [OF c(1)] by simp
  next
    case None
    have "c \<in> set (takeWhile (\<lambda>index. weights ! index < weights ! (sol ! i)) [0..<?n])"
      if c: "c < ?n" and light: "\<forall>q\<le>c. weights ! q < weights ! (sol ! i)" for c
    proof -
      obtain k where k: "?n = Suc c + k" using le_Suc_ex [OF Suc_leI [OF c]] by (elim exE)
      have split: "[0..<?n] = [0..<Suc c] @ [Suc c..<?n]" unfolding k by (rule upt_add_eq_append) simp
      have "takeWhile (\<lambda>index. weights ! index < weights ! (sol ! i)) ([0..<Suc c] @ [Suc c..<?n]) =
          [0..<Suc c] @ takeWhile (\<lambda>index. weights ! index < weights ! (sol ! i)) [Suc c..<?n]"
        using light by (intro takeWhile_append2) (simp del: upt_Suc add: less_Suc_eq_le)
      then show ?thesis unfolding split [symmetric] by (simp del: upt_Suc)
    qed
    moreover have "\<forall>c\<in>set (takeWhile (\<lambda>index. weights ! index < weights ! (sol ! i)) [0..<?n]). \<not> ?P c"
      using None unfolding eq by (simp add: find_None_iff)
    ultimately show ?thesis using None P by fastforce
  qed
qed

lemma first_lighter_None: "first_lighter f is = None \<longleftrightarrow> (\<forall>i\<in>set is. f i = None)"
  by (induction "is") (auto split: option.splits)

text \<open>No column of the light beginning of the list can replace a heavier one.\<close>

definition settled11 :: "int list \<Rightarrow> nat \<Rightarrow> matrix \<Rightarrow> In_Ex_Type list \<Rightarrow> nat list \<Rightarrow> bool" where
  "settled11 weights n cols inex r \<longleftrightarrow> (\<forall>i<length r. \<forall>c<length cols. (\<forall>q\<le>c. weights ! q < weights ! (r ! i)) \<longrightarrow>
     inex ! c = ExcludedFlag \<or> c \<in> set r \<or> \<not> solves n cols (r[i := c]))"

definition lightens :: "int list \<Rightarrow> nat \<Rightarrow> matrix \<Rightarrow> In_Ex_Type list \<Rightarrow> nat list \<Rightarrow> nat list \<Rightarrow> bool" where
  "lightens weights n cols inex sol r \<longleftrightarrow> cols_in cols r \<and> solves n cols r \<and> length r = length sol \<and>
    sol_weight weights r \<le> sol_weight weights sol \<and> (\<forall>p\<in>set r. p \<in> set sol \<or> inex ! p \<noteq> ExcludedFlag)"

lemma lightens_refl: "cols_in cols sol \<Longrightarrow> solves n cols sol \<Longrightarrow> lightens weights n cols inex sol sol"
  by (simp add: lightens_def)

lemma lightens_trans: "lightens weights n cols inex r s \<Longrightarrow> lightens weights n cols inex sol r \<Longrightarrow> lightens weights n cols inex sol s"
  unfolding lightens_def by auto

lemma lightens_mset:
  assumes "mset r = mset r'" "lightens weights n cols inex sol r" shows "lightens weights n cols inex sol r'"
proof -
  have "set r = set r'" "length r = length r'" "sol_weight weights r = sol_weight weights r'"
    using assms(1) by (auto dest: mset_eq_setD mset_eq_length sol_weight_mset)
  then show ?thesis using assms(2) solves_cong [of r r' n cols] by (simp add: lightens_def cols_in_def)
qed

lemma sol_weight_update: "i < length sol \<Longrightarrow> sol_weight weights (sol[i := c]) = sol_weight weights sol - weights ! (sol ! i) + weights ! c"
  unfolding sol_weight_def by (induction sol arbitrary: i) (auto split: nat.splits)

lemma replace11_loop_ok:
  assumes "problem_ok n cols" "cols_in cols sol" "solves n cols sol" "w = sol_weight weights sol"
  shows "\<exists>r. replace11_loop weights cols inex sol w = Some (sol_weight weights r, r) \<and>
    lightens weights n cols inex sol r \<and> settled11 weights n cols inex r"
  using assms
proof (induction weights cols inex sol w rule: replace11_loop.induct)
  case (1 weights cols inex sol w)
  note pr = "1.prems"(1) and sol = "1.prems"(2,3) and w = "1.prems"(4)
  let ?f = "first_lighter (lighter weights cols inex sol) [0..<length sol]"
  show ?case
  proof (cases ?f)
    case None
    then have "replace11_loop weights cols inex sol w = Some (w, sol)" by (subst replace11_loop.simps) simp
    moreover have "settled11 weights n cols inex sol"
      using None lighter_ok [OF pr sol, of _ weights inex] unfolding settled11_def first_lighter_None by fastforce
    ultimately show ?thesis using lightens_refl [OF sol] w by blast
  next
    case (Some ic)
    obtain i c where ic: "ic = (i, c)" by (cases ic)
    have i: "i < length sol" "lighter weights cols inex sol i = Some c" 
      using first_lighter_Some [of "lighter weights cols inex sol" "[0..<length sol]" i c] Some ic by simp_all
    have c: "c < length cols" "weights ! c < weights ! (sol ! i)" "c \<notin> set sol" "inex ! c \<noteq> ExcludedFlag" "solves n cols (sol[i := c])"
      using lighter_ok [OF pr sol i(1), of weights inex] i(2) by simp_all
    have "sol[i := c] \<noteq> []" using i(1) by auto
    then obtain sol' where s: "SortWei weights (sol[i := c]) = Some sol'" "mset sol' = mset (sol[i := c])" using SortWei_ok by blast
    have sub: "set (sol[i := c]) \<subseteq> insert c (set sol)" by (rule set_update_subset_insert)
    have "lightens weights n cols inex sol (sol[i := c])"
      using sub sol(1) c sol_weight_update [OF i(1), of weights c] unfolding lightens_def cols_in_def by auto
    then have imp: "lightens weights n cols inex sol sol'" by (rule lightens_mset [OF s(2) [symmetric]])
    have w': "w - weights ! (sol ! i) + weights ! c = sol_weight weights sol'"
      using w sol_weight_mset [OF s(2), of weights] sol_weight_update [OF i(1), of weights c] by simp
    have eq: "replace11_loop weights cols inex sol w = replace11_loop weights cols inex sol' (w - weights ! (sol ! i) + weights ! c)"
      using Some ic s(1) by (subst replace11_loop.simps) simp
    have "\<exists>r. replace11_loop weights cols inex sol' (w - weights ! (sol ! i) + weights ! c) = Some (sol_weight weights r, r) \<and>
        lightens weights n cols inex sol' r \<and> settled11 weights n cols inex r"
      using imp w' by (intro "1.IH" [OF Some ic [symmetric] s(1) pr]) (simp_all add: lightens_def)
    then show ?thesis unfolding eq using lightens_trans [OF _ imp] by blast
  qed
qed

lemma Replace11_ok:
  assumes "problem_ok n cols" "cols_in cols sol" "solves n cols sol"
  shows "\<exists>r. ReduceWeightReplace11 weights cols inex sol = Some (sol_weight weights r, r) \<and>
    lightens weights n cols inex sol r \<and> settled11 weights n cols inex r"
  unfolding ReduceWeightReplace11_def by (rule replace11_loop_ok [OF assms refl])

lemma traverse11_ok:
  assumes "problem_ok n cols" "cols_in cols sol" "solves n cols sol" "lightens weights n cols inex sol best" "w = sol_weight weights best"
  shows "\<exists>r. traverse11 weights cols inex sol starts (w, best) = Some (sol_weight weights r, r) \<and> lightens weights n cols inex sol r"
  using assms(4,5)
proof (induction starts arbitrary: w best)
  case (Cons st starts)
  let ?t = "drop st sol @ take st sol"
  have m: "mset sol = mset ?t" by (metis append_take_drop_id mset_append add.commute)
  have t: "lightens weights n cols inex sol ?t" by (rule lightens_mset [OF m lightens_refl [OF assms(2,3)]])
  then have t': "cols_in cols ?t" "solves n cols ?t" by (simp_all add: lightens_def)
  from Replace11_ok [OF assms(1) this, of weights inex] obtain u where
    u: "ReduceWeightReplace11 weights cols inex ?t = Some (sol_weight weights u, u)" "lightens weights n cols inex ?t u" by blast
  have "lightens weights n cols inex sol u" by (rule lightens_trans [OF u(2) t])
  then show ?case using Cons.IH [of u "sol_weight weights u"] Cons.IH [OF Cons.prems] Cons.prems u(1) by simp
qed simp

lemma Traverse11_ok:
  assumes "problem_ok n cols" "cols_in cols sol" "solves n cols sol" "sol \<noteq> []"
  shows "\<exists>r. ReduceWeightReplace11_Traverse weights cols inex sol = Some (sol_weight weights r, r) \<and> lightens weights n cols inex sol r"
proof -
  obtain s where s: "SortWei weights sol = Some s" "mset s = mset sol" using SortWei_ok [OF assms(4)] by blast
  have t: "lightens weights n cols inex sol s" by (rule lightens_mset [OF s(2) [symmetric] lightens_refl [OF assms(2,3)]])
  then have c: "cols_in cols s" "solves n cols s" by (simp_all add: lightens_def)
  from traverse11_ok [OF assms(1) c lightens_refl [OF c] refl, of weights inex "[0..<length s]"] obtain r where
    "traverse11 weights cols inex s [0..<length s] (sol_weight weights s, s) = Some (sol_weight weights r, r)" "lightens weights n cols inex s r" by blast
  then show ?thesis using s(1) lightens_trans [OF _ t] by (auto simp: ReduceWeightReplace11_Traverse_def)
qed

lemma settled_iff:
  assumes "k = 2 \<or> k = 3" "settled k n cols idx r" "t \<in> set (index_tuples k (length r))" "c \<in> set idx" "c \<notin> set r"
  shows "\<not> solves n cols (c # others r t)"
proof -
  have "mset (swap_in r t c) = mset (c # others r t)" using mset_swap_in [of t r c] index_tuples_sorted [OF assms(3)] by simp
  then have "solves n cols (swap_in r t c) = solves n cols (c # others r t)" by (intro solves_cong mset_eq_setD)
  then show ?thesis using assms(2-5) unfolding settled_def by blast
qed

section \<open>Correctness\<close>

text \<open>
  C34 (invariant). When the number of rows is not a multiple of 64 (part of \<open>problem_ok\<close>: for a multiple the
  covering test also accepts the last 64 rows left open), \<open>ReduceColCompress\<close> turns a solution into an
  irredundant one, of which no column can be left out, made of columns of the given one.
\<close>

theorem ReduceColCompress_correct:
  assumes "problem_ok n cols" "cols_in cols sol" "solves n cols sol"
  shows "solves n cols (ReduceColCompress cols sol) \<and>
    (\<forall>p\<in>set (ReduceColCompress cols sol). \<not> solves n cols (without (ReduceColCompress cols sol) p)) \<and>
    set (ReduceColCompress cols sol) \<subseteq> set sol \<and> length (ReduceColCompress cols sol) \<le> length sol"
  using compress_loop_ok [OF assms, of 0] unfolding ReduceColCompress_def irredundant_def by simp

text \<open>Two columns of two rows, one row each.\<close>

lemma two_problem:
  defines "cols \<equiv> [bv_setbit 0 (bv_new 2), bv_setbit 1 (bv_new 2)]"
  shows "problem_ok 2 cols \<and> cols_in cols [0, 1] \<and> solves 2 cols [0, 1] \<and> \<not> solves 2 cols [0] \<and> \<not> solves 2 cols [1] \<and>
    by_count cols [0, 1]"
proof -
  have s: "bv_set (bv_setbit 0 (bv_new 2)) = {0}" "bv_set (bv_setbit 1 (bv_new 2)) = {1}"
    "counter (bv_setbit 0 (bv_new 2)) = 1" "counter (bv_setbit 1 (bv_new 2)) = 1" "matrix_ok 2 cols"
    using two_columns by (simp_all add: cols_def)
  have two: "{..<2} = {0, 1 :: nat}" by auto
  show ?thesis using s(5) unfolding problem_ok_def solves_def by_count_def two by (auto simp: cols_def s s [unfolded One_nat_def])
qed

theorem ReduceColCompress_witness:
  "set (ReduceColCompress [bv_setbit 0 (bv_new 2), bv_setbit 1 (bv_new 2)] [0, 1, 0]) \<subseteq> {0, 1} \<and>
   solves 2 [bv_setbit 0 (bv_new 2), bv_setbit 1 (bv_new 2)] (ReduceColCompress [bv_setbit 0 (bv_new 2), bv_setbit 1 (bv_new 2)] [0, 1, 0])"
proof -
  let ?cols = "[bv_setbit 0 (bv_new 2), bv_setbit 1 (bv_new 2)]"
  have p: "problem_ok 2 ?cols" "cols_in ?cols [0, 1]" "solves 2 ?cols [0, 1]" using two_problem by blast+
  have "set [0, 1] = set [0, 1, 0 :: nat]" by auto
  then have "cols_in ?cols [0, 1, 0]" "solves 2 ?cols [0, 1, 0]" using p(2,3) solves_cong [of "[0, 1]" "[0, 1, 0]" 2 ?cols] by simp_all
  from ReduceColCompress_correct [OF p(1) this] show ?thesis by auto
qed

text \<open>
  C12 (functional). When the number of rows is not a multiple of 64 (part of \<open>problem_ok\<close>) and the columns of
  the given solution are distinct, \<open>ReduceColCompress_All\<close> is optimal: among all solutions made of columns of
  the given one, its result has the fewest columns, and the least weight among those.
\<close>

theorem ReduceColCompress_All_correct:
  assumes "problem_ok n cols" "cols_in cols sol" "distinct sol" "solves n cols sol"
    and "ReduceColCompress_All weights cols sol = r"
  shows "solves n cols r \<and> distinct r \<and> set r \<subseteq> set sol \<and>
    (\<forall>qs. distinct qs \<and> set qs \<subseteq> set sol \<and> solves n cols qs \<longrightarrow>
       length r < length qs \<or> length r = length qs \<and> (\<Sum>p\<leftarrow>r. weights ! p) \<le> (\<Sum>p\<leftarrow>qs. weights ! p))"
  using ReduceColCompress_All_ok [OF assms(1-4), where weights = weights] unfolding assms(5) at_least_def sol_weight_def by blast

theorem ReduceColCompress_All_witness:
  "solves 2 [bv_setbit 0 (bv_new 2), bv_setbit 1 (bv_new 2)]
     (ReduceColCompress_All [4, 7] [bv_setbit 0 (bv_new 2), bv_setbit 1 (bv_new 2)] [0, 1])"
  using ReduceColCompress_All_correct [OF _ _ _ _ refl, of 2 "[bv_setbit 0 (bv_new 2), bv_setbit 1 (bv_new 2)]" "[0, 1]" "[4, 7]"]
    two_problem by simp

text \<open>
  Without excluded candidates \<open>ReduceColReplace21\<close> ends, from every nonempty solution, with
  a solution that is not longer, in which no column of the sorted list can stand for two columns; so does
  the traversal of the starts.
\<close>

theorem ReduceColReplace21_correct:
  assumes "problem_ok n cols" "cols_in cols idx" "by_count cols idx" "\<forall>c\<in>set idx. inex ! c \<noteq> ExcludedFlag"
    and "cols_in cols sol" "solves n cols sol" "sol \<noteq> []"
  shows "(\<exists>r. ReduceColReplace21 weights cols inex idx sol = Some r \<and> solves n cols r \<and> length r \<le> length sol \<and>
      set r \<subseteq> set sol \<union> set idx \<and>
      (\<forall>i j c. i < j \<and> j < length r \<and> c \<in> set idx \<and> c \<notin> set r \<longrightarrow> \<not> solves n cols (c # others r [i, j]))) \<and>
    (\<exists>r. ReduceColReplace21_Traverse weights cols inex idx sol = Some r \<and> solves n cols r \<and> length r \<le> length sol \<and>
      set r \<subseteq> set sol \<union> set idx)"
proof -
  obtain r where r: "ReduceColReplace21 weights cols inex idx sol = Some r" "improves n cols idx sol r" "settled 2 n cols idx r"
    using Replace21_ok [OF assms] by blast
  obtain r' where r': "ReduceColReplace21_Traverse weights cols inex idx sol = Some r'" "improves n cols idx sol r'"
    using Traverse21_ok [OF assms] by blast
  have "[i, j] \<in> set (index_tuples 2 (length r))" if "i < j" "j < length r" for i j
    using that by (auto simp: index_tuples_def intro!: bexI [of _ i])
  then have "\<forall>i j c. i < j \<and> j < length r \<and> c \<in> set idx \<and> c \<notin> set r \<longrightarrow> \<not> solves n cols (c # others r [i, j])"
    using settled_iff [OF _ r(3)] by simp
  then show ?thesis using r(1,2) r' unfolding improves_def by blast
qed

theorem ReduceColReplace21_witness:
  "\<exists>r. ReduceColReplace21 [4, 7] [bv_setbit 0 (bv_new 2), bv_setbit 1 (bv_new 2)] [No_In_Ex, IncludedFlag] [0, 1] [0, 1] = Some r \<and>
    length r \<le> 2"
  using ReduceColReplace21_correct [of 2 "[bv_setbit 0 (bv_new 2), bv_setbit 1 (bv_new 2)]" "[0, 1]" "[No_In_Ex, IncludedFlag]" "[0, 1]" "[4, 7]"]
    two_problem by auto

text \<open>An excluded candidate makes the loop run forever.\<close>

lemma replacement_excluded:
  "counter both \<le> counter (cols ! c) \<Longrightarrow> c \<notin> set sol \<Longrightarrow> inex ! c = ExcludedFlag \<Longrightarrow> try_cols cols inex both sol (c # cs) = None"
  by simp

text \<open>
  C35 (error). For a number of rows that is not a multiple of 64, a list that is sorted by the counters and
  holds no excluded column (an excluded candidate makes the loop run forever, \<open>replacement_excluded\<close>):
  when \<open>ReduceColReplace31\<close> returns, its result is a solution that is not longer than the given one, made of
  columns of the given one and of the list, of which no three columns can be replaced by one of the list. It
  returns from every solution with an even number of columns, two or more; from an odd one it may come down
  to a single column that covers all rows, and only then, or when it starts with less than two, its loop
  bound wraps around and it does not return.
\<close>

theorem ReduceColReplace31_correct:
  assumes "problem_ok n cols" "cols_in cols idx" "by_count cols idx" "\<forall>c\<in>set idx. inex ! c \<noteq> ExcludedFlag"
    and "cols_in cols sol" "solves n cols sol"
  shows "case ReduceColReplace31 weights cols inex idx sol of
      Some r \<Rightarrow> solves n cols r \<and> length r \<le> length sol \<and> set r \<subseteq> set sol \<union> set idx \<and>
        (\<forall>i j1 j2 c. i < j1 \<and> j1 < j2 \<and> j2 < length r \<and> c \<in> set idx \<and> c \<notin> set r \<longrightarrow> \<not> solves n cols (c # others r [i, j1, j2]))
    | None \<Rightarrow> length sol < 2 \<or> odd (length sol) \<and> (\<exists>c\<in>set idx. solves n cols [c])"
proof (cases "ReduceColReplace31 weights cols inex idx sol")
  case None
  then show ?thesis
    using replace_loop_ok [OF _ assms(1-6), of 3 weights] by (auto simp: ReduceColReplace31_def)
next
  case (Some r)
  then have r: "improves n cols idx sol r" "settled 3 n cols idx r"
    using replace_loop_ok [OF _ assms(1-6), of 3 weights] by (auto simp: ReduceColReplace31_def)
  have "[i, j1, j2] \<in> set (index_tuples 3 (length r))" if "i < j1" "j1 < j2" "j2 < length r" for i j1 j2
  proof -
    have "[i, j1, j2] \<in> set (concat (map (\<lambda>j1. map (\<lambda>j2. [i, j1, j2]) [j1 + 1..<length r]) [i + 1..<length r - 1]))"
      using that by (auto intro!: bexI [of _ j1])
    moreover have "i \<in> set [0..<length r - 2]" using that by simp
    ultimately show ?thesis unfolding index_tuples_def by fastforce
  qed
  then have "\<forall>i j1 j2 c. i < j1 \<and> j1 < j2 \<and> j2 < length r \<and> c \<in> set idx \<and> c \<notin> set r \<longrightarrow> \<not> solves n cols (c # others r [i, j1, j2])"
    using settled_iff [OF _ r(2)] by simp
  then show ?thesis using Some r(1) unfolding improves_def by simp
qed

text \<open>Four rows: a column for each, and one for the first three.\<close>

definition four_cols :: matrix where
  "four_cols = map (\<lambda>i. bv_setbit i (bv_new 4)) [0, 1, 2, 3] @ [bv_setbit 2 (bv_setbit 1 (bv_setbit 0 (bv_new 4)))]"

lemma four_problem:
  "problem_ok 4 four_cols" "cols_in four_cols [0, 1, 2, 3]" "cols_in four_cols [4, 0, 1, 2, 3]"
  "solves 4 four_cols ps \<longleftrightarrow> (\<Union>p\<in>set ps. bv_set (four_cols ! p)) = {0, 1, 2, 3}"
  "map bv_set four_cols = [{0}, {1}, {2}, {3}, {0, 1, 2}]" "by_count four_cols [4, 0, 1, 2, 3]"
proof -
  have n: "bv_ok (bv_new 4)" "bsize (bv_new 4) = 4" "bv_set (bv_new 4) = {}" using bv_new_ok [of 4] by simp_all
  have one: "bv_ok (bv_setbit i (bv_new 4)) \<and> bsize (bv_setbit i (bv_new 4)) = 4 \<and> bv_set (bv_setbit i (bv_new 4)) = {i}"
    if "i < 4" for i
    using bv_setbit_ok [of "bv_new 4" i] n that by simp
  let ?a = "bv_setbit 0 (bv_new 4)" let ?b = "bv_setbit 1 ?a" let ?c = "bv_setbit 2 ?b"
  have a: "bv_ok ?a" "bsize ?a = 4" "bv_set ?a = {0}" using one [of 0] by simp_all
  have b: "bv_ok ?b" "bsize ?b = 4" "bv_set ?b = {1, 0}" using bv_setbit_ok [of ?a 1] a by simp_all
  have c: "bv_ok ?c" "bsize ?c = 4" "bv_set ?c = {2, 1, 0}" using bv_setbit_ok [of ?b 2] b by simp_all
  have ok: "\<forall>v\<in>set four_cols. bv_ok v \<and> bsize v = 4" using one c by (simp add: four_cols_def)
  then show pr: "problem_ok 4 four_cols" by (simp add: problem_ok_def matrix_ok_def four_cols_def)
  show "cols_in four_cols [0, 1, 2, 3]" "cols_in four_cols [4, 0, 1, 2, 3]" by (simp_all add: cols_in_def four_cols_def)
  have four: "{..<4} = {0, 1, 2, 3 :: nat}" by auto
  show "solves 4 four_cols ps \<longleftrightarrow> (\<Union>p\<in>set ps. bv_set (four_cols ! p)) = {0, 1, 2, 3}"
    by (simp only: solves_def union_of_def four)
  show "map bv_set four_cols = [{0}, {1}, {2}, {3}, {0, 1, 2}]"
    using one [of 0] one [of 1] one [of 2] one [of 3] c(3) by (auto simp: four_cols_def)
  have "counter (bv_setbit i (bv_new 4)) = 1" if "i < 4" for i using bv.cnt_card [of "bv_setbit i (bv_new 4)"] one [OF that] by simp
  from this [of 0] this [of 1] this [of 2] this [of 3] show "by_count four_cols [4, 0, 1, 2, 3]"
    using bv.cnt_card [OF c(1)] c(3) by (simp add: by_count_def four_cols_def)
qed

theorem ReduceColReplace31_witness:
  "\<exists>r. ReduceColReplace31 [1, 1, 1, 1, 5] four_cols (replicate 5 No_In_Ex) [4, 0, 1, 2, 3] [0, 1, 2, 3] = Some r \<and>
    solves 4 four_cols r \<and> length r \<le> 4 \<and> 4 \<in> set r"
proof -
  have nth: "bv_set (four_cols ! 0) = {0}" "bv_set (four_cols ! 1) = {1}" "bv_set (four_cols ! 2) = {2}"
    "bv_set (four_cols ! 3) = {3}" "bv_set (four_cols ! 4) = {0, 1, 2}"
    using four_problem(5) nth_map [of _ four_cols bv_set] by (simp_all add: four_cols_def)
  have s: "solves 4 four_cols [0, 1, 2, 3]" "solves 4 four_cols [4, 3]" unfolding four_problem(4) by (auto simp: nth nth [simplified])
  have ex: "\<forall>c\<in>set [4, 0, 1, 2, 3]. replicate 5 No_In_Ex ! c \<noteq> ExcludedFlag" by simp
  note c = ReduceColReplace31_correct [OF four_problem(1,3,6) ex four_problem(2) s(1), of "[1, 1, 1, 1, 5]"]
  obtain r where r: "ReduceColReplace31 [1, 1, 1, 1, 5] four_cols (replicate 5 No_In_Ex) [4, 0, 1, 2, 3] [0, 1, 2, 3] = Some r"
    using c by (cases "ReduceColReplace31 [1, 1, 1, 1, 5] four_cols (replicate 5 No_In_Ex) [4, 0, 1, 2, 3] [0, 1, 2, 3]") auto
  have res: "solves 4 four_cols r" "length r \<le> 4" "set r \<subseteq> {0, 1, 2, 3, 4}"
    "\<And>i j1 j2. i < j1 \<Longrightarrow> j1 < j2 \<Longrightarrow> j2 < length r \<Longrightarrow> 4 \<notin> set r \<Longrightarrow> \<not> solves 4 four_cols (4 # others r [i, j1, j2])"
    using c unfolding r by auto
  have "4 \<in> set r"
  proof (rule ccontr)
    assume no: "4 \<notin> set r"
    then have sub: "set r \<subseteq> {0, 1, 2, 3}" using res(3) by auto
    have own: "bv_set (four_cols ! q) = {q}" if "q \<in> set r" for q
      using that sub nth by (auto simp: nth [simplified])
    have "(\<Union>q\<in>set r. bv_set (four_cols ! q)) = set r" using own by simp
    then have all: "set r = {0, 1, 2, 3}" using res(1) unfolding four_problem(4) by simp
    then have "card (set r) = 4" by simp
    then have len: "length r = 4" using card_length [of r] res(2) by simp
    have "3 \<in> set r" using all by simp
    then obtain k where k: "k < 4" "r ! k = 3" using len by (auto simp: in_set_conv_nth)
    have upt: "[0 ..< 4] = [0, 1, 2, 3 :: nat]" by (simp add: upt_rec)
    have "others r [1, 2, 3] = [r ! 0]" "others r [0, 2, 3] = [r ! 1]" "others r [0, 1, 3] = [r ! 2]" "others r [0, 1, 2] = [r ! 3]"
      by (simp_all add: others_def len upt)
    then have "\<not> solves 4 four_cols [4, r ! 0]" "\<not> solves 4 four_cols [4, r ! 1]" "\<not> solves 4 four_cols [4, r ! 2]"
      "\<not> solves 4 four_cols [4, r ! 3]"
      using res(4) [of 1 2 3] res(4) [of 0 2 3] res(4) [of 0 1 3] res(4) [of 0 1 2] no len by simp_all
    moreover have "k = 0 \<or> k = 1 \<or> k = 2 \<or> k = 3" using k(1) by arith
    ultimately have "\<not> solves 4 four_cols [4, 3]" using k(2) by metis
    then show False using s(2) by simp
  qed
  then show ?thesis using r res(1,2) by blast
qed

text \<open>
  \<open>ReduceWeightReplace11\<close> always ends. The number it returns is the weight of its result,
  which covers all rows with as many columns and is not heavier than the given solution; no column in the
  beginning of the list, where all weights are smaller, can stand for one of it. The traversal keeps the
  first three of these.
\<close>

theorem ReduceWeightReplace11_correct:
  assumes "problem_ok n cols" "cols_in cols sol" "solves n cols sol" "sol \<noteq> []"
  shows "(\<exists>w r. ReduceWeightReplace11 weights cols inex sol = Some (w, r) \<and> w = (\<Sum>p\<leftarrow>r. weights ! p) \<and>
      solves n cols r \<and> length r = length sol \<and> w \<le> (\<Sum>p\<leftarrow>sol. weights ! p) \<and>
      (\<forall>i<length r. \<forall>c<length cols. (\<forall>q\<le>c. weights ! q < weights ! (r ! i)) \<and> inex ! c \<noteq> ExcludedFlag \<and> c \<notin> set r \<longrightarrow>
         \<not> solves n cols (r[i := c]))) \<and>
    (\<exists>w r. ReduceWeightReplace11_Traverse weights cols inex sol = Some (w, r) \<and> w = (\<Sum>p\<leftarrow>r. weights ! p) \<and>
      solves n cols r \<and> length r = length sol \<and> w \<le> (\<Sum>p\<leftarrow>sol. weights ! p))"
proof
  obtain r where r: "ReduceWeightReplace11 weights cols inex sol = Some (sol_weight weights r, r)"
    "lightens weights n cols inex sol r" "settled11 weights n cols inex r" using Replace11_ok [OF assms(1-3)] by blast
  then have "\<forall>i<length r. \<forall>c<length cols. (\<forall>q\<le>c. weights ! q < weights ! (r ! i)) \<and> inex ! c \<noteq> ExcludedFlag \<and> c \<notin> set r \<longrightarrow>
         \<not> solves n cols (r[i := c])" unfolding settled11_def by blast
  then show "\<exists>w r. ReduceWeightReplace11 weights cols inex sol = Some (w, r) \<and> w = (\<Sum>p\<leftarrow>r. weights ! p) \<and>
      solves n cols r \<and> length r = length sol \<and> w \<le> (\<Sum>p\<leftarrow>sol. weights ! p) \<and>
      (\<forall>i<length r. \<forall>c<length cols. (\<forall>q\<le>c. weights ! q < weights ! (r ! i)) \<and> inex ! c \<noteq> ExcludedFlag \<and> c \<notin> set r \<longrightarrow>
         \<not> solves n cols (r[i := c]))"
    using r(1,2) unfolding lightens_def sol_weight_def by blast
next
  show "\<exists>w r. ReduceWeightReplace11_Traverse weights cols inex sol = Some (w, r) \<and> w = (\<Sum>p\<leftarrow>r. weights ! p) \<and>
      solves n cols r \<and> length r = length sol \<and> w \<le> (\<Sum>p\<leftarrow>sol. weights ! p)"
    using Traverse11_ok [OF assms, of weights inex] unfolding lightens_def sol_weight_def by blast
qed

theorem ReduceWeightReplace11_witness:
  "\<exists>w r. ReduceWeightReplace11_Traverse [4, 7] [bv_setbit 0 (bv_new 2), bv_setbit 1 (bv_new 2)] [No_In_Ex, No_In_Ex] [0, 1] = Some (w, r) \<and>
    w \<le> 11 \<and> length r = 2"
proof -
  let ?cols = "[bv_setbit 0 (bv_new 2), bv_setbit 1 (bv_new 2)]"
  have p: "problem_ok 2 ?cols" "cols_in ?cols [0, 1]" "solves 2 ?cols [0, 1]" "[0, 1 :: nat] \<noteq> []" using two_problem by simp_all
  have "(\<Sum>p\<leftarrow>[0, 1]. [4, 7 :: int] ! p) = 11" "length [0, 1 :: nat] = 2" by simp_all
  then show ?thesis
    using ReduceWeightReplace11_correct [OF p, of "[4, 7]" "[No_In_Ex, No_In_Ex]"] by metis
qed

end
