(* ===== verification/Sc_Solve.thy ===== *)
theory Sc_Solve
  imports Sc_Reduce "HOL-Library.Monad_Syntax"
begin

text \<open>
  \<open>src/setcover/setcover.cpp\<close>: the class itself. \<open>AddRows\<close> fills the matrix, \<open>InExcludeSigs\<close> takes columns out and puts
  others into the solution, the three versions of \<open>SolveMinCol\<close> select columns until all rows are covered, and
  \<open>OptimizeWeight\<close> makes a given solution lighter. A result \<open>None\<close> is a call that does not return or reads outside a
  vector. \<open>sc_ok\<close> is the invariant of the class, \<open>run_ok\<close> the one of the search.
\<close>

section \<open>The code\<close>

subsection \<open>The class\<close>

text \<open>
  The members of \<open>setcover\<close>. A signal is a pointer to a node; of the nodes the set cover uses the
  identity, the order of the addresses and the weight.
\<close>

record setcover =
  signals :: "nat list"
  row_size :: nat
  col_size :: nat
  pvalues_row :: matrix
  pvalues_col :: matrix

definition setcover_new :: "nat list \<Rightarrow> setcover" where
  "setcover_new signals_in =
    \<lparr>signals = signals_in, row_size = 0, col_size = length signals_in, pvalues_row = [], pvalues_col = []\<rparr>"

text \<open>\<open>resize\<close> of a vector of bit vectors.\<close>

definition mat_resize :: "nat \<Rightarrow> matrix \<Rightarrow> matrix" where
  "mat_resize n m = take n m @ replicate (n - length m) bv_empty"

text \<open>One new row: a one in the row for every column with a one in it, and the other way round.\<close>

definition fill_row :: "nat \<Rightarrow> bool list \<Rightarrow> nat \<Rightarrow> matrix \<times> matrix \<Rightarrow> matrix \<times> matrix" where
  "fill_row i bits j = (\<lambda>(cols, rows).
    if bits ! j then (cols[j := bv_setbit i (cols ! j)], rows[i := bv_setbit j (rows ! i)]) else (cols, rows))"

definition AddRows :: "bool list list \<Rightarrow> setcover \<Rightarrow> setcover" where
  "AddRows Rows s =
    (let prow_size = row_size s; n = length Rows + prow_size; c = col_size s;
         rows = fold (\<lambda>i rows. rows[i := bv_set_size c (rows ! i)]) [prow_size..<n] (mat_resize n (pvalues_row s));
         cols = (if n = length Rows then map (bv_set_size n) (mat_resize c (pvalues_col s))
                 else map (bv_resize n) (pvalues_col s));
         (cols, rows) = fold (\<lambda>i. fold (fill_row i (Rows ! (i - prow_size))) [0..<c]) [prow_size..<n] (cols, rows)
     in s\<lparr>row_size := n, pvalues_row := rows, pvalues_col := cols\<rparr>)"

subsection \<open>Excluded and included signals\<close>

text \<open>\<open>std::set_intersection\<close> of two ranges, which walks both.\<close>

fun set_intersection :: "nat list \<Rightarrow> nat list \<Rightarrow> nat list" where
  "set_intersection (a # as) (b # bs) =
    (if a < b then set_intersection as (b # bs)
     else if b < a then set_intersection (a # as) bs
     else a # set_intersection as bs)"
| "set_intersection _ _ = []"

text \<open>
  The columns to exclude and to include, with the number of listed signals found of each kind. A signal
  of weight 0 is excluded. The walk stops when all listed signals are found.
\<close>

fun classify :: "(nat \<Rightarrow> int) \<Rightarrow> nat list \<Rightarrow> nat list \<Rightarrow> nat \<Rightarrow> nat list \<Rightarrow> nat \<Rightarrow> nat \<Rightarrow> (nat \<times> In_Ex_Type) list" where
  "classify weight excluded included col [] excludedCnt includedCnt = []"
| "classify weight excluded included col (sig # sigs) excludedCnt includedCnt =
    (let ex = excludedCnt < length excluded \<and> excluded \<noteq> [] \<and> weight sig \<noteq> 0;
         ex_marks = (if ex then (if sig \<in> set excluded then [(col, ExcludedFlag)] else [])
                     else if weight sig = 0 then [(col, ExcludedFlag)] else []);
         excludedCnt = (if ex \<and> sig \<in> set excluded then excludedCnt + 1 else excludedCnt);
         inc = includedCnt < length included \<and> included \<noteq> [] \<and> weight sig \<noteq> 0 \<and> sig \<in> set included;
         in_marks = (if inc then [(col, IncludedFlag)] else []);
         includedCnt = (if inc then includedCnt + 1 else includedCnt)
     in ex_marks @ in_marks @
        (if includedCnt = length included \<and> excludedCnt = length excluded then []
         else classify weight excluded included (col + 1) sigs excludedCnt includedCnt))"

definition marked :: "In_Ex_Type \<Rightarrow> (nat \<times> In_Ex_Type) list \<Rightarrow> nat list" where
  "marked t marks = map fst (filter (\<lambda>m. snd m = t) marks)"

text \<open>The working copies of the solver: \<open>rowmask\<close>, the columns, the rows, \<open>cur_sol\<close> and \<open>ex_sols\<close>.\<close>

record run =
  rowmask :: bitvector
  cols :: matrix
  rows :: matrix
  cur_sol :: "nat list"
  ex_sols :: "nat set set"

definition exclude_cols :: "nat \<Rightarrow> nat list \<Rightarrow> run \<Rightarrow> run" where
  "exclude_cols n cs = fold (\<lambda>c r.
     r\<lparr>cols := (cols r)[c := bv_clear (cols r ! c)],
       rows := fold (\<lambda>j rows. rows[j := bv_resetbit c (rows ! j)]) [0..<n] (rows r)\<rparr>) cs"

definition include_cols :: "u64 \<Rightarrow> bool \<Rightarrow> nat list \<Rightarrow> run \<Rightarrow> run" where
  "include_cols oob wri_pvalue cs r =
    (let r = fold (\<lambda>c r. if c \<in> set (cur_sol r) then r else r\<lparr>cur_sol := cur_sol r @ [c]\<rparr>) cs r
     in if wri_pvalue then
          let mask = fold (\<lambda>c. bv_or_count (cols r ! c)) cs (rowmask r);
              (cols', rows') = RemoveRowCol1 oob (cols r) (rows r) mask
          in r\<lparr>rowmask := mask, cols := cols', rows := rows'\<rparr>
        else r)"

text \<open>
  The result is the answer (0 when a row has no column left, and then nothing is included), the flags of
  the columns and the working copies.
\<close>

definition InExcludeSigs ::
    "u64 \<Rightarrow> (nat \<Rightarrow> int) \<Rightarrow> setcover \<Rightarrow> nat list \<Rightarrow> nat list \<Rightarrow> bool \<Rightarrow> run \<Rightarrow> bool \<times> In_Ex_Type list \<times> run" where
  "InExcludeSigs oob weight s excluded_sigs included_sigs wri_pvalue r =
    (let common = (if excluded_sigs \<noteq> [] \<and> included_sigs \<noteq> [] then set_intersection excluded_sigs included_sigs else []);
         excluded = fold remove1 common excluded_sigs;
         included = fold remove1 common included_sigs;
         marks = classify weight excluded included 0 (signals s) 0 0;
         inex = fold (\<lambda>(c, t) inex. inex[c := t]) marks (replicate (col_size s) No_In_Ex);
         ex_cols = marked ExcludedFlag marks; in_cols = marked IncludedFlag marks;
         r = (if ex_cols \<noteq> [] then exclude_cols (row_size s) ex_cols r else r)
     in if ex_cols \<noteq> [] \<and> (\<exists>v\<in>set (rows r). counter v = 0) then (False, inex, r)
        else (True, inex, if in_cols \<noteq> [] then include_cols oob wri_pvalue in_cols r else r))"

subsection \<open>Selecting columns\<close>

definition select_col :: "u64 \<Rightarrow> nat \<Rightarrow> run \<Rightarrow> run" where
  "select_col oob pos r =
    (let mask = bv_or_count (cols r ! pos) (rowmask r);
         (cols', rows') = RemoveRowCol1 oob (cols r) (rows r) mask
     in r\<lparr>cur_sol := cur_sol r @ [pos], rowmask := mask, cols := cols', rows := rows', ex_sols := AdjustExSolutions (ex_sols r) pos\<rparr>)"

definition push_sol :: "nat list \<Rightarrow> run \<Rightarrow> run" where
  "push_sol ps r = r\<lparr>cur_sol := cur_sol r @ ps\<rparr>"

text \<open>
  How a part of the loop ends: with the jump to \<open>PRINT_EXIT\<close>, with \<open>return 0\<close>, or by going on.
\<close>

datatype 'a outcome = Exit run | NoSolution | Go 'a

text \<open>
  The scan of the rows selects the only column of a row, and collects rows with few columns in
  \<open>min_pos_list\<close>. The first solver compares and stores in \<open>min\<close> the counts of the original rows, the others
  those of the working copy: \<open>low\<close>.
\<close>

fun scan_rows :: "u64 \<Rightarrow> nat \<Rightarrow> (run \<Rightarrow> nat \<Rightarrow> nat) \<Rightarrow> nat list \<Rightarrow> run \<Rightarrow> nat \<Rightarrow> nat list \<Rightarrow> (run \<times> nat \<times> nat list) outcome" where
  "scan_rows oob n low [] r mn min_pos_list = Go (r, mn, min_pos_list)"
| "scan_rows oob n low (i # is) r mn min_pos_list =
    (let c = counter (rows r ! i) in
     if c = 1 then
       let r = select_col oob (bv_next_set oob (rows r ! i) (-1)) r in
       if counter (rowmask r) = n then Exit r else scan_rows oob n low is r mn min_pos_list
     else if c = 0 then scan_rows oob n low is r mn min_pos_list
     else if c < MINSIZE then
       scan_rows oob n low is r (if low r i < mn then low r i else mn)
         ((if MINSIZE < mn then [] else min_pos_list) @ [i])
     else if c = mn then scan_rows oob n low is r mn (min_pos_list @ [i])
     else if c < mn then scan_rows oob n low is r c [i]
     else scan_rows oob n low is r mn min_pos_list)"

text \<open>The insertion of a column moves the lighter ones at the end of the list up.\<close>

definition insert_col :: "matrix \<Rightarrow> nat \<Rightarrow> nat list \<Rightarrow> nat list" where
  "insert_col m k idx =
    (let lighter = rev (takeWhile (\<lambda>p. counter (m ! p) < counter (m ! k)) (rev idx))
     in take (length idx - length lighter) idx @ k # lighter)"

text \<open>
  The ranking of the columns: the sorted list, the largest count and the columns with it. A column that
  covers all rows that are left ends the search.
\<close>

fun rank_cols :: "nat list \<Rightarrow> run \<Rightarrow> nat list \<Rightarrow> nat \<Rightarrow> nat list \<Rightarrow> (nat list \<times> nat \<times> nat list) outcome" where
  "rank_cols [] r csum_sortindex mx max_pos_list = Go (csum_sortindex, mx, max_pos_list)"
| "rank_cols (k # ks) r csum_sortindex mx max_pos_list =
    (let cur = counter (cols r ! k);
         idx = (if 0 < cur then insert_col (cols r) k csum_sortindex else csum_sortindex)
     in if mx < cur then
          if cur = rows_left (rowmask r) then
            if IsExSolution (cur_sol r @ [k]) (ex_sols r) then rank_cols ks r idx mx max_pos_list
            else Exit (push_sol [k] r)
          else rank_cols ks r idx cur [k]
        else if cur = mx then rank_cols ks r idx mx (max_pos_list @ [k])
        else rank_cols ks r idx mx max_pos_list)"

text \<open>The columns of the rows in \<open>min_pos_list\<close>. (The conjunction \<open>allminrows_and\<close> and \<open>newrowmask\<close> are not used.)\<close>

definition all_min :: "u64 \<Rightarrow> nat \<Rightarrow> run \<Rightarrow> nat list \<Rightarrow> nat list" where
  "all_min oob c r min_pos_list =
    (let allminrows = fold (\<lambda>i. bv_or_count (rows r ! i)) min_pos_list (bv_new c)
     in set_positions oob allminrows (bv_next_set oob allminrows (-1)))"

text \<open>Selecting the best pair. Without one the code reads elements that are not there: \<open>None\<close>.\<close>

definition select_pair :: "u64 \<Rightarrow> nat list \<Rightarrow> run \<Rightarrow> run option" where
  "select_pair oob all_min_pos r =
    (case snd (GetBest2Selection (cols r) (rowmask r) all_min_pos (ex_sols r)) of
       [i, j] \<Rightarrow> Some (select_col oob j (select_col oob i r))
     | _ \<Rightarrow> None)"

definition select_max :: "u64 \<Rightarrow> nat list \<Rightarrow> nat list \<Rightarrow> run \<Rightarrow> run outcome" where
  "select_max oob all_min_pos max_pos_list r =
    (if max_pos_list = [] then NoSolution
     else Go (select_col oob
       (case find (\<lambda>p. p \<in> set all_min_pos) max_pos_list of Some p \<Rightarrow> p | None \<Rightarrow> max_pos_list ! 0) r))"

definition select_more :: "u64 \<Rightarrow> nat \<Rightarrow> nat list \<Rightarrow> nat list \<Rightarrow> run \<Rightarrow> run outcome option" where
  "select_more oob mn all_min_pos max_pos_list r =
    (if mn < 4 \<and> 4 < length all_min_pos then map_option Go (select_pair oob all_min_pos r)
     else Some (select_max oob all_min_pos max_pos_list r))"

text \<open>
  The searches, from the one over all candidates (more than \<open>MAXMINSIZE\<close> of them) to the one over few. The
  tests for three and four columns that follow a search that is switched off see its old result, which is not of that size.
\<close>

definition search_many :: "u64 \<Rightarrow> nat \<Rightarrow> nat list \<Rightarrow> nat list \<Rightarrow> nat list \<Rightarrow> run \<Rightarrow> run outcome option" where
  "search_many oob mn all_min_pos csum_sortindex max_pos_list r =
    (let minlist = take (length all_min_pos) (filter (\<lambda>k. k \<in> set all_min_pos) csum_sortindex) in
     do {
       (_, best_sol) \<leftarrow> GetBest2Solution (cols r) (rowmask r) minlist (ex_sols r);
       if length best_sol = 2 then Some (Exit (push_sol best_sol r)) else do {
         let best_sol = snd (GetBest2Solution_list (cols r) (rowmask r) all_min_pos (ex_sols r));
         if length best_sol = 2 then Some (Exit (push_sol best_sol r)) else do {
           (_, best_sol) \<leftarrow> GetBest3Solution (cols r) (rowmask r) minlist (ex_sols r);
           if length best_sol = 3 then Some (Exit (push_sol best_sol r))
           else select_more oob mn all_min_pos max_pos_list r
         }
       }
     })"

definition search_few :: "u64 \<Rightarrow> nat \<Rightarrow> nat list \<Rightarrow> nat list \<Rightarrow> nat list \<Rightarrow> run \<Rightarrow> run outcome option" where
  "search_few oob mn all_min_pos csum_sortindex max_pos_list r =
    (let best_sol = snd (GetBest2Solution_list (cols r) (rowmask r) all_min_pos (ex_sols r)) in
     if length best_sol = 2 then Some (Exit (push_sol best_sol r)) else do {
       (_, best_sol) \<leftarrow> GetBest3Solution_list (cols r) (rowmask r) all_min_pos csum_sortindex (ex_sols r);
       if length best_sol = 3 then Some (Exit (push_sol best_sol r))
       else select_more oob mn all_min_pos max_pos_list r
     })"

definition search_all :: "u64 \<Rightarrow> nat list \<Rightarrow> nat list \<Rightarrow> run \<Rightarrow> run outcome option" where
  "search_all oob csum_sortindex max_pos_list r =
    do {
      (_, best_sol) \<leftarrow> GetBest2Solution (cols r) (rowmask r) csum_sortindex (ex_sols r);
      if length best_sol = 2 then Some (Exit (push_sol best_sol r)) else do {
        (_, best_sol) \<leftarrow> GetBest3Solution (cols r) (rowmask r) csum_sortindex (ex_sols r);
        if length best_sol = 3 then Some (Exit (push_sol best_sol r))
        else Some (if max_pos_list = [] then NoSolution else Go (select_col oob (max_pos_list ! 0) r))
      }
    }"

text \<open>One turn of the loop \<open>while (rowmask.count() < row_size)\<close>.\<close>

definition solve_step :: "u64 \<Rightarrow> nat \<Rightarrow> nat \<Rightarrow> (run \<Rightarrow> nat \<Rightarrow> nat) \<Rightarrow> run \<Rightarrow> run outcome option" where
  "solve_step oob n c low r =
    (case scan_rows oob n low [0..<n] r c [] of
       Exit r \<Rightarrow> Some (Exit r) | NoSolution \<Rightarrow> Some NoSolution
     | Go (r, mn, min_pos_list) \<Rightarrow>
       (case rank_cols [0..<c] r [] 0 [] of
          Exit r \<Rightarrow> Some (Exit r) | NoSolution \<Rightarrow> Some NoSolution
        | Go (csum_sortindex, mx, max_pos_list) \<Rightarrow>
          if max_pos_list = [] then Some NoSolution
          else if min_pos_list = [] then search_all oob csum_sortindex max_pos_list r
          else
            let all_min_pos = all_min oob c r min_pos_list in
            (case find (\<lambda>nn. counter (cols r ! nn) = n) all_min_pos of
               Some nn \<Rightarrow> Some (Exit (push_sol [nn] r))
             | None \<Rightarrow>
               if MAXMINSIZE < length all_min_pos then search_many oob mn all_min_pos csum_sortindex max_pos_list r
               else search_few oob mn all_min_pos csum_sortindex max_pos_list r)))"

text \<open>
  The loop: \<open>None\<close> when it does not end or when a turn reads outside a vector, \<open>Some None\<close> for \<open>return 0\<close>.
\<close>

partial_function (option) solve_loop ::
    "u64 \<Rightarrow> nat \<Rightarrow> nat \<Rightarrow> (run \<Rightarrow> nat \<Rightarrow> nat) \<Rightarrow> run \<Rightarrow> run option option" where
  "solve_loop oob n c low r =
    (if counter (rowmask r) < n then
       case solve_step oob n c low r of
         None \<Rightarrow> None
       | Some oc \<Rightarrow>
         (case oc of Exit r \<Rightarrow> Some (Some r) | NoSolution \<Rightarrow> Some None | Go r \<Rightarrow> solve_loop oob n c low r)
     else Some (Some r))"

subsection \<open>The solvers\<close>

definition start_run :: "setcover \<Rightarrow> run" where
  "start_run s = \<lparr>rowmask = bv_new (row_size s), cols = map (\<lambda>v. bv_copy v bv_empty) (pvalues_col s),
    rows = map (\<lambda>v. bv_copy v bv_empty) (pvalues_row s), cur_sol = [], ex_sols = {}\<rparr>"

text \<open>
  The reductions after \<open>PRINT_EXIT\<close>, with the sort before each of them that two of the solvers have.
\<close>

definition finish ::
    "(nat list \<Rightarrow> nat list option) \<Rightarrow> int list \<Rightarrow> matrix \<Rightarrow> In_Ex_Type list \<Rightarrow> nat list \<Rightarrow> nat list \<Rightarrow> nat list option" where
  "finish srt weights m inex idx sol =
    do {
      sol \<leftarrow> (if 2 \<le> length sol \<and> length sol \<le> 5 then map_option (ReduceColCompress_All weights m) (srt sol)
              else if 6 \<le> length sol then map_option (ReduceColCompress m) (srt sol)
              else Some sol);
      sol \<leftarrow> (if 5 < length sol then do { sol \<leftarrow> srt sol; ReduceColReplace31 weights m inex idx sol } else Some sol);
      (if 2 \<le> length sol \<and> length sol \<le> 5 then do { sol \<leftarrow> srt sol; ReduceColReplace21_Traverse weights m inex idx sol }
       else if 6 \<le> length sol then do { sol \<leftarrow> srt sol; ReduceColReplace21 weights m inex idx sol }
       else Some sol)
    }"

text \<open>The answer with the columns of the selected signals.\<close>

definition run_solver ::
    "u64 \<Rightarrow> (nat list \<Rightarrow> nat list option) \<Rightarrow> (run \<Rightarrow> nat \<Rightarrow> nat) \<Rightarrow> int list \<Rightarrow> setcover \<Rightarrow> In_Ex_Type list \<Rightarrow> run \<Rightarrow> (bool \<times> nat list) option" where
  "run_solver oob srt low weights s inex r =
    do {
      original_csum_sortindex \<leftarrow> SortCol (pvalues_col s) (cols r);
      res \<leftarrow> solve_loop oob (row_size s) (col_size s) low r;
      case res of
        None \<Rightarrow> Some (False, [])
      | Some r \<Rightarrow> do {
          sol \<leftarrow> finish srt weights (pvalues_col s) inex original_csum_sortindex (cur_sol r);
          Some (IsSolutionLite (pvalues_col s) (nomask (pvalues_col s)) sol, sol)
        }
    }"

definition weights_of :: "(nat \<Rightarrow> int) \<Rightarrow> setcover \<Rightarrow> int list" where
  "weights_of weight s = map weight (signals s)"

text \<open>The answer of \<open>InExcludeSigs\<close> is not looked at.\<close>

definition SolveMinCol :: "u64 \<Rightarrow> (nat \<Rightarrow> int) \<Rightarrow> setcover \<Rightarrow> nat list \<Rightarrow> nat list \<Rightarrow> (bool \<times> nat list) option" where
  "SolveMinCol oob weight s excluded_sigs included_sigs =
    (if \<exists>v\<in>set (rows (start_run s)). counter v = 0 then Some (False, []) else
     let (_, inex, r) = InExcludeSigs oob weight s excluded_sigs included_sigs True (start_run s);
         weights = weights_of weight s
     in run_solver oob (SortWei weights) (\<lambda>_ i. counter (pvalues_row s ! i)) weights s inex r)"

definition SolveMinCol_free :: "u64 \<Rightarrow> (nat \<Rightarrow> int) \<Rightarrow> setcover \<Rightarrow> (bool \<times> nat list) option" where
  "SolveMinCol_free oob weight s =
    (if \<exists>v\<in>set (rows (start_run s)). counter v = 0 then Some (False, []) else
     let (_, inex, r) = InExcludeSigs oob weight s [] [] True (start_run s)
     in run_solver oob Some (\<lambda>r i. counter (rows r ! i)) (weights_of weight s) s inex r)"

definition InExcludeSigs_Range :: "setcover \<Rightarrow> int \<Rightarrow> int \<Rightarrow> run \<Rightarrow> bool \<times> In_Ex_Type list \<times> run" where
  "InExcludeSigs_Range s ex_col_start ex_col_end r =
    (let inex = replicate (col_size s) No_In_Ex in
     if ex_col_end < ex_col_start then (False, inex, r)
     else
       let ex_col_end = (if int (col_size s) \<le> ex_col_end then int (col_size s) - 1 else ex_col_end);
           ex_col_start = (if ex_col_start < 0 then 0 else ex_col_start);
           cs = [nat ex_col_start..<nat (ex_col_end + 1)];
           inex = fold (\<lambda>c inex. inex[c := ExcludedFlag]) cs inex;
           r = exclude_cols (row_size s) cs r
       in (\<not> (\<exists>v\<in>set (rows r). counter v = 0), inex, r))"

definition SolveMinCol_ExRange :: "u64 \<Rightarrow> (nat \<Rightarrow> int) \<Rightarrow> setcover \<Rightarrow> int \<Rightarrow> int \<Rightarrow> (bool \<times> nat list) option" where
  "SolveMinCol_ExRange oob weight s ex_col_start ex_col_end =
    (if \<exists>v\<in>set (rows (start_run s)). counter v = 0 then Some (False, []) else
     let (ex_ret, inex, r) = InExcludeSigs_Range s ex_col_start ex_col_end (start_run s);
         weights = weights_of weight s
     in if \<not> ex_ret then Some (False, [])
        else run_solver oob (SortWei weights) (\<lambda>r i. counter (rows r ! i)) weights s inex r)"

subsection \<open>Making a solution lighter\<close>

definition start_sol :: "(nat \<Rightarrow> int) \<Rightarrow> setcover \<Rightarrow> nat list \<Rightarrow> nat list" where
  "start_sol weight s cands =
    take (length cands) (filter (\<lambda>c. weight (signals s ! c) \<noteq> 0 \<and> signals s ! c \<in> set cands) [0..<col_size s])"

definition sum_weight :: "(nat \<Rightarrow> int) \<Rightarrow> nat list \<Rightarrow> int" where
  "sum_weight weight sigs = (\<Sum>sig\<leftarrow>sigs. weight sig)"

definition lighten ::
    "(nat \<Rightarrow> int) \<Rightarrow> setcover \<Rightarrow> nat list \<Rightarrow> In_Ex_Type list \<Rightarrow> nat list \<Rightarrow> (bool \<times> nat list) option" where
  "lighten weight s current_cands inex sol =
    do {
      (_, sol) \<leftarrow> ReduceWeightReplace11_Traverse (weights_of weight s) (pvalues_col s) inex sol;
      let original_weight = sum_weight weight current_cands;
      let new_cands = map ((!) (signals s)) sol;
      let new_weight = sum_weight weight new_cands;
      let new_cands = (if original_weight < new_weight \<or> new_weight = original_weight \<and> length current_cands \<le> length new_cands
                       then current_cands else new_cands);
      Some (if IsSolutionLite (pvalues_col s) (nomask (pvalues_col s)) sol then (True, new_cands) else (False, current_cands))
    }"

text \<open>The time limit only bounds a pass that is switched off.\<close>

definition OptimizeWeight ::
    "u64 \<Rightarrow> (nat \<Rightarrow> int) \<Rightarrow> setcover \<Rightarrow> nat list \<Rightarrow> nat list \<Rightarrow> nat list \<Rightarrow> (bool \<times> nat list) option" where
  "OptimizeWeight oob weight s current_cands excluded_sigs included_sigs =
    (let sol = start_sol weight s current_cands in
     if current_cands = [] \<or> \<not> IsSolutionLite (pvalues_col s) (nomask (pvalues_col s)) sol then Some (False, current_cands)
     else
       let r = (start_run s)\<lparr>cols := replicate (col_size s) bv_empty, cur_sol := sol\<rparr>;
           (_, inex, r) = InExcludeSigs oob weight s excluded_sigs included_sigs False r
       in lighten weight s current_cands inex (cur_sol r))"

definition OptimizeWeight_ExRange ::
    "(nat \<Rightarrow> int) \<Rightarrow> setcover \<Rightarrow> nat list \<Rightarrow> int \<Rightarrow> int \<Rightarrow> (bool \<times> nat list) option" where
  "OptimizeWeight_ExRange weight s current_cands ex_col_start ex_col_end =
    (let sol = start_sol weight s current_cands in
     if current_cands = [] \<or> \<not> IsSolutionLite (pvalues_col s) (nomask (pvalues_col s)) sol then Some (False, current_cands)
     else
       let r = (start_run s)\<lparr>cols := replicate (col_size s) bv_empty, cur_sol := sol\<rparr>;
           (ex_ret, inex, r) = InExcludeSigs_Range s ex_col_start ex_col_end r
       in if \<not> ex_ret then Some (False, current_cands) else lighten weight s current_cands inex (cur_sol r))"

section \<open>The invariant of the solver\<close>

text \<open>
  The working copies are determined by the covered rows: a column is its base set \<open>A j\<close> without them, a
  covered row is empty, any other row has all the columns with it. The covered rows are those of the
  selected columns.
\<close>

definition run_ok :: "nat \<Rightarrow> nat \<Rightarrow> (nat \<Rightarrow> nat set) \<Rightarrow> run \<Rightarrow> bool" where
  "run_ok n c A r \<longleftrightarrow> bv_ok (rowmask r) \<and> bsize (rowmask r) = n \<and> matrix_ok n (cols r) \<and> length (cols r) = c \<and>
    matrix_ok c (rows r) \<and> length (rows r) = n \<and> ex_sols r = {} \<and>
    (\<forall>j<c. bv_set (cols r ! j) = A j - bv_set (rowmask r)) \<and>
    (\<forall>i<n. bv_set (rows r ! i) = (if i \<in> bv_set (rowmask r) then {} else {j. j < c \<and> i \<in> A j})) \<and>
    (\<forall>p\<in>set (cur_sol r). p < c \<and> A p \<noteq> {}) \<and> bv_set (rowmask r) = (\<Union>p\<in>set (cur_sol r). A p)"

abbreviation covered :: "run \<Rightarrow> nat set" where
  "covered r \<equiv> bv_set (rowmask r)"

text \<open>A finished search: the selected columns cover all rows, and none of them is empty.\<close>

definition complete :: "nat \<Rightarrow> nat \<Rightarrow> (nat \<Rightarrow> nat set) \<Rightarrow> run \<Rightarrow> bool" where
  "complete n c A r \<longleftrightarrow> (\<forall>p\<in>set (cur_sol r). p < c \<and> A p \<noteq> {}) \<and> (\<Union>p\<in>set (cur_sol r). A p) = {..<n}"

lemma run_okD:
  assumes "run_ok n c A r"
  shows "bv_ok (rowmask r)" "bsize (rowmask r) = n" "matrix_ok n (cols r)" "length (cols r) = c" "matrix_ok c (rows r)"
    "length (rows r) = n" "ex_sols r = {}" "\<And>j. j < c \<Longrightarrow> bv_set (cols r ! j) = A j - covered r"
    "\<And>i. i < n \<Longrightarrow> bv_set (rows r ! i) = (if i \<in> covered r then {} else {j. j < c \<and> i \<in> A j})"
    "\<And>p. p \<in> set (cur_sol r) \<Longrightarrow> p < c" "covered r = (\<Union>p\<in>set (cur_sol r). A p)"
    "covered r \<subseteq> {..<n}" "\<And>j. j < c \<Longrightarrow> bv_ok (cols r ! j) \<and> bsize (cols r ! j) = n"
    "\<And>i. i < n \<Longrightarrow> bv_ok (rows r ! i) \<and> bsize (rows r ! i) = c"
    "\<And>p. p \<in> set (cur_sol r) \<Longrightarrow> A p \<noteq> {}"
  using assms bv.elems_width [of "rowmask r"] matrix_okD by (auto simp: run_ok_def)

lemma run_counts:
  assumes "run_ok n c A r"
  shows "j < c \<Longrightarrow> counter (cols r ! j) = card (A j - covered r)" "counter (rowmask r) = card (covered r)"
    "i < n \<Longrightarrow> counter (rows r ! i) = (if i \<in> covered r then 0 else card {j. j < c \<and> i \<in> A j})"
    "counter (rowmask r) = n \<longleftrightarrow> covered r = {..<n}" "counter (rowmask r) < n \<longleftrightarrow> covered r \<noteq> {..<n}"
    "rows_left (rowmask r) = n - card (covered r)"
proof -
  note r = run_okD [OF assms]
  show "j < c \<Longrightarrow> counter (cols r ! j) = card (A j - covered r)" using bv.cnt_card r(8,13) by simp
  show cnt: "counter (rowmask r) = card (covered r)" by (rule bv.cnt_card [OF r(1)])
  show "i < n \<Longrightarrow> counter (rows r ! i) = (if i \<in> covered r then 0 else card {j. j < c \<and> i \<in> A j})"
    using bv.cnt_card r(9,14) by simp
  show "counter (rowmask r) = n \<longleftrightarrow> covered r = {..<n}" "counter (rowmask r) < n \<longleftrightarrow> covered r \<noteq> {..<n}"
    using bv.cnt_full_iff [OF r(1)] bv.cnt_less_iff [OF r(1)] r(2) by simp_all
  show "rows_left (rowmask r) = n - card (covered r)" using cnt r(2) by (simp add: rows_left_def)
qed

lemma covered_completeI: "run_ok n c A r \<Longrightarrow> covered r = {..<n} \<Longrightarrow> complete n c A r"
  using run_okD(10,11,15) [of n c A r] by (simp add: complete_def)

lemma select_ok:
  assumes "run_ok n c A r" "p < c" "A p \<subseteq> {..<n}" "A p \<noteq> {}"
  shows "run_ok n c A (select_col oob p r)" "covered (select_col oob p r) = covered r \<union> A p"
    "cur_sol (select_col oob p r) = cur_sol r @ [p]"
proof -
  note r = run_okD [OF assms(1)]
  let ?m = "bv_or_count (cols r ! p) (rowmask r)"
  have m: "bv_ok ?m \<and> bv_set ?m = covered r \<union> A p \<and> bsize ?m = n"
    using bv.join_law [of "cols r ! p" "rowmask r"] r(1,2) r(13) [OF assms(2)] r(8) [OF assms(2)] by auto
  obtain cs rs where rm: "RemoveRowCol1 oob (cols r) (rows r) ?m = (cs, rs)" by (metis surj_pair)
  note rem = RemoveRowCol1_ok [OF r(3,5) _ _ r(6), where m = ?m and oob = oob, unfolded rm fst_conv snd_conv]
  have rem': "matrix_ok n cs" "length cs = c" "matrix_ok c rs" "length rs = n"
    "\<And>j. j < c \<Longrightarrow> bv_set (cs ! j) = A j - (covered r \<union> A p)"
    "\<And>i. i < n \<Longrightarrow> bv_set (rs ! i) = (if i \<in> covered r \<union> A p then {} else {j. j < c \<and> i \<in> A j})"
    using rem m r(4) r(8) r(9) by auto
  have sel: "select_col oob p r = r\<lparr>cur_sol := cur_sol r @ [p], rowmask := ?m, cols := cs, rows := rs, ex_sols := {}\<rparr>"
    using rm r(7) by (simp add: select_col_def AdjustExSolutions_def)
  show "covered (select_col oob p r) = covered r \<union> A p" "cur_sol (select_col oob p r) = cur_sol r @ [p]"
    using m by (simp_all add: sel)
  show "run_ok n c A (select_col oob p r)"
    using m rem' r(10,11,15) assms(2,4) unfolding sel run_ok_def by auto
qed

text \<open>Every row can be covered.\<close>

definition coverable :: "nat \<Rightarrow> nat \<Rightarrow> (nat \<Rightarrow> nat set) \<Rightarrow> bool" where
  "coverable n c A \<longleftrightarrow> (\<forall>i<n. \<exists>j<c. i \<in> A j) \<and> (\<forall>j<c. A j \<subseteq> {..<n}) \<and> n mod 64 \<noteq> 0 \<and> c < 2 ^ 31"

lemma only_column:
  assumes "run_ok n c A r" "i < n" "counter (rows r ! i) = 1"
  shows "bv_next_set oob (rows r ! i) (-1) < c \<and> i \<in> A (bv_next_set oob (rows r ! i) (-1)) \<and> i \<notin> covered r"
proof -
  note r = run_okD [OF assms(1)]
  let ?v = "rows r ! i"
  have v: "bv_ok ?v" "bsize ?v = c" using r(14) [OF assms(2)] by simp_all
  have un: "i \<notin> covered r" using run_counts(3) [OF assms(1,2)] assms(3) by (auto split: if_splits)
  then have s: "bv_set ?v = {j. j < c \<and> i \<in> A j}" using r(9) [OF assms(2)] by simp
  have "bv_set ?v \<noteq> {}" using bv.cnt_0_iff [OF v(1)] assms(3) by simp
  then have "\<not> no_ones ?v 0 (bsize ?v)" using bv.elems_width [OF v(1)] by (auto simp: no_ones_def)
  then have "first_from ?v 0 (bv_next_set oob ?v (-1))"
    using bv_next_set_ok [OF bv_okD(1) [OF v(1)], of "-1" oob] by simp
  then show ?thesis using s un by (auto simp: first_from_def)
qed

text \<open>
  What the scan leaves: the rows that are not covered yet have two columns or more, and the list is not
  empty when one of the scanned rows is among them.
\<close>

lemma scan_rows_ok:
  assumes "run_ok n c A r" "coverable n c A" "\<forall>i\<in>set is. i < n" "\<forall>i\<in>set lst. i < n" "lst \<noteq> [] \<or> mn = c" "covered r \<noteq> {..<n}"
    and "\<forall>i<n. i \<notin> set is \<and> i \<notin> covered r \<longrightarrow> 2 \<le> card {j. j < c \<and> i \<in> A j} \<and> lst \<noteq> []"
  shows "case scan_rows oob n low is r mn lst of
      Exit r' \<Rightarrow> complete n c A r'
    | NoSolution \<Rightarrow> False
    | Go (r', mn', lst') \<Rightarrow> run_ok n c A r' \<and> covered r \<subseteq> covered r' \<and> covered r' \<noteq> {..<n} \<and> (\<forall>i\<in>set lst'. i < n) \<and>
        (\<forall>i<n. i \<notin> covered r' \<longrightarrow> 2 \<le> card {j. j < c \<and> i \<in> A j} \<and> lst' \<noteq> [])"
  using assms
proof (induction oob n low "is" r mn lst rule: scan_rows.induct)
  case (1 oob n low r mn lst)
  then show ?case by auto
next
  case (2 oob n low i "is" r mn lst)
  note inv = "2.prems"(1) and cov = "2.prems"(2)
  let ?k = "card {j. j < c \<and> i \<in> A j}" and ?c = "counter (rows r ! i)"
  have i: "i < n" using "2.prems"(3) by simp
  have cnt: "?c = (if i \<in> covered r then 0 else ?k)" by (rule run_counts(3) [OF inv i])
  have pos: "0 < ?k" using cov i unfolding coverable_def by (subst card_gt_0_iff) auto
  have kc: "?k \<le> c" using card_mono [of "{..<c}" "{j. j < c \<and> i \<in> A j}"] by auto
  have rest: "\<forall>i'\<in>set is. i' < n" using "2.prems"(3) by simp
  have old: "\<forall>i'<n. i' \<notin> set is \<and> i' \<noteq> i \<and> i' \<notin> covered r \<longrightarrow> 2 \<le> card {j. j < c \<and> i' \<in> A j} \<and> lst \<noteq> []"
    using "2.prems"(7) by simp
  show ?case
  proof (cases "?c = 1")
    case one: True
    let ?p = "bv_next_set oob (rows r ! i) (-1)"
    have p: "?p < c" "i \<in> A ?p" using only_column [OF inv i one, of oob] by simp_all
    note sel = select_ok [OF inv p(1), of oob]
    have Ap: "A ?p \<subseteq> {..<n}" "A ?p \<noteq> {}" using cov p by (auto simp: coverable_def)
    note sel = sel [OF Ap]
    show ?thesis
    proof (cases "counter (rowmask (select_col oob ?p r)) = n")
      case True
      then have "complete n c A (select_col oob ?p r)"
        using covered_completeI [OF sel(1)] run_counts(4) [OF sel(1)] by simp
      then show ?thesis using one True by (simp add: Let_def)
    next
      case False
      have "\<forall>i'<n. i' \<notin> set is \<and> i' \<notin> covered (select_col oob ?p r) \<longrightarrow> 2 \<le> card {j. j < c \<and> i' \<in> A j} \<and> lst \<noteq> []"
        using old p(2) unfolding sel(2) by blast
      moreover have "covered (select_col oob ?p r) \<noteq> {..<n}" using False run_counts(4) [OF sel(1)] by simp
      moreover note IH = "2.IH"(1) [OF refl one refl False sel(1) cov rest "2.prems"(4,5)]
      ultimately have "case scan_rows oob n low is (select_col oob ?p r) mn lst of
            Exit r' \<Rightarrow> complete n c A r' | NoSolution \<Rightarrow> False
          | Go (r', mn', lst') \<Rightarrow> run_ok n c A r' \<and> covered (select_col oob ?p r) \<subseteq> covered r' \<and> covered r' \<noteq> {..<n} \<and> (\<forall>i\<in>set lst'. i < n) \<and>
              (\<forall>i<n. i \<notin> covered r' \<longrightarrow> 2 \<le> card {j. j < c \<and> i \<in> A j} \<and> lst' \<noteq> [])" by blast
      then
      show ?thesis using one False unfolding sel(2) by (auto simp: Let_def split: outcome.splits)
    qed
  next
    case not_one: False
    show ?thesis
    proof (cases "?c = 0")
      case zero: True
      then have "i \<in> covered r" using cnt pos by (auto split: if_splits)
      then have "\<forall>i'<n. i' \<notin> set is \<and> i' \<notin> covered r \<longrightarrow> 2 \<le> card {j. j < c \<and> i' \<in> A j} \<and> lst \<noteq> []" using old by blast
      from "2.IH"(2) [OF refl not_one zero inv cov rest "2.prems"(4-6) this] show ?thesis using not_one zero by (simp add: Let_def)
    next
      case nz: False
      then have c: "?c = ?k" "2 \<le> ?k" "i \<notin> covered r" using cnt not_one by (auto split: if_splits)
      have push: "\<forall>i'<n. i' \<notin> set is \<and> i' \<notin> covered r \<longrightarrow> 2 \<le> card {j. j < c \<and> i' \<in> A j} \<and> lst' \<noteq> []"
        if "lst' \<noteq> []" for lst' :: "nat list" using old c(2) that by blast
      have step: "case scan_rows oob n low is r mn' lst' of
            Exit r' \<Rightarrow> complete n c A r' | NoSolution \<Rightarrow> False
          | Go (r', mn', lst') \<Rightarrow> run_ok n c A r' \<and> covered r \<subseteq> covered r' \<and> covered r' \<noteq> {..<n} \<and> (\<forall>i\<in>set lst'. i < n) \<and>
              (\<forall>i<n. i \<notin> covered r' \<longrightarrow> 2 \<le> card {j. j < c \<and> i \<in> A j} \<and> lst' \<noteq> [])"
        if "scan_rows oob n low (i # is) r mn lst = scan_rows oob n low is r mn' lst'"
          "\<lbrakk>run_ok n c A r; coverable n c A; \<forall>i\<in>set is. i < n; \<forall>i\<in>set lst'. i < n; lst' \<noteq> [] \<or> mn' = c; covered r \<noteq> {..<n};
            \<forall>i<n. i \<notin> set is \<and> i \<notin> covered r \<longrightarrow> 2 \<le> card {j. j < c \<and> i \<in> A j} \<and> lst' \<noteq> []\<rbrakk> \<Longrightarrow>
           case scan_rows oob n low is r mn' lst' of
            Exit r' \<Rightarrow> complete n c A r' | NoSolution \<Rightarrow> False
          | Go (r', mn', lst') \<Rightarrow> run_ok n c A r' \<and> covered r \<subseteq> covered r' \<and> covered r' \<noteq> {..<n} \<and> (\<forall>i\<in>set lst'. i < n) \<and>
              (\<forall>i<n. i \<notin> covered r' \<longrightarrow> 2 \<le> card {j. j < c \<and> i \<in> A j} \<and> lst' \<noteq> [])"
          "\<forall>i\<in>set lst'. i < n" "lst' \<noteq> []" for mn' lst'
        using that(2) [OF inv cov rest that(3) disjI1 [OF that(4)] "2.prems"(6) push [OF that(4)]] .
      consider "?c < MINSIZE" | "\<not> ?c < MINSIZE" "?c = mn" | "\<not> ?c < MINSIZE" "?c \<noteq> mn" "?c < mn"
        | "\<not> ?c < MINSIZE" "?c \<noteq> mn" "\<not> ?c < mn" by blast
      then show ?thesis
      proof cases
        case a: 1
        let ?l = "(if MINSIZE < mn then [] else lst) @ [i]" and ?m = "if low r i < mn then low r i else mn"
        have e: "scan_rows oob n low (i # is) r mn lst = scan_rows oob n low is r ?m ?l"
          using not_one nz a by (simp add: Let_def)
        show ?thesis unfolding e
          using "2.prems"(4) i by (intro step [OF e "2.IH"(3) [OF refl not_one nz a]]) auto
      next
        case a: 2
        have e: "scan_rows oob n low (i # is) r mn lst = scan_rows oob n low is r mn (lst @ [i])"
          using not_one nz a by (simp add: Let_def)
        show ?thesis unfolding e
          using "2.prems"(4) i by (intro step [OF e "2.IH"(4) [OF refl not_one nz a]]) auto
      next
        case a: 3
        have e: "scan_rows oob n low (i # is) r mn lst = scan_rows oob n low is r ?c [i]"
          using not_one nz a by (simp add: Let_def)
        show ?thesis unfolding e
          using i by (intro step [OF e "2.IH"(5) [OF refl not_one nz a]]) auto
      next
        case a: 4
        have e: "scan_rows oob n low (i # is) r mn lst = scan_rows oob n low is r mn lst"
          using not_one nz a by (simp add: Let_def)
        have "lst \<noteq> []" using "2.prems"(5) a c(1) kc by auto
        then show ?thesis unfolding e
          using "2.prems"(4) i by (intro step [OF e "2.IH"(6) [OF refl not_one nz a]]) auto
      qed
    qed
  qed
qed

lemma insert_col_ok:
  assumes "by_count m idx"
  shows "by_count m (insert_col m k idx) \<and> mset (insert_col m k idx) = add_mset k (mset idx)"
proof -
  let ?key = "\<lambda>p. counter (m ! p)"
  define ls where "ls = rev (takeWhile (\<lambda>p. ?key p < ?key k) (rev idx))"
  define hs where "hs = rev (dropWhile (\<lambda>p. ?key p < ?key k) (rev idx))"
  have split: "idx = hs @ ls"
  proof -
    have "rev idx = takeWhile (\<lambda>p. ?key p < ?key k) (rev idx) @ dropWhile (\<lambda>p. ?key p < ?key k) (rev idx)" by simp
    then show ?thesis unfolding ls_def hs_def by (metis rev_append rev_rev_ident)
  qed
  have ins: "insert_col m k idx = hs @ k # ls"
  proof -
    have "take (length idx - length ls) idx = hs" by (simp add: split)
    then show ?thesis by (simp add: insert_col_def Let_def flip: ls_def)
  qed
  have "?key p < ?key k" if "p \<in> set ls" for p
    using that by (auto simp: ls_def dest: set_takeWhileD)
  moreover have "?key k \<le> ?key p" if p: "p \<in> set hs" for p
  proof -
    have ne: "hs \<noteq> []" using p by auto
    then have "dropWhile (\<lambda>p. ?key p < ?key k) (rev idx) \<noteq> []" by (simp add: hs_def)
    then have "\<not> ?key (hd (dropWhile (\<lambda>p. ?key p < ?key k) (rev idx))) < ?key k" by (rule hd_dropWhile)
    then have "\<not> ?key (last hs) < ?key k" by (simp add: hs_def last_rev)
    moreover have "?key (last hs) \<le> ?key p"
    proof -
      obtain a where a: "a < length hs" "p = hs ! a" using p unfolding in_set_conv_nth by blast
      have "by_count m hs" using assms by (simp add: by_count_def split sorted_wrt_append)
      then have "?key (hs ! (length hs - 1)) \<le> ?key (hs ! a)" using a(1) by (intro by_count_mono) simp_all
      then show ?thesis using ne a(2) by (simp add: last_conv_nth)
    qed
    ultimately show ?thesis by simp
  qed
  moreover have "sorted_wrt (\<lambda>p q. ?key q \<le> ?key p) hs" "sorted_wrt (\<lambda>p q. ?key q \<le> ?key p) ls"
    "\<forall>p\<in>set hs. \<forall>q\<in>set ls. ?key q \<le> ?key p"
    using assms unfolding by_count_def split sorted_wrt_append by blast+
  ultimately have "by_count m (hs @ k # ls)"
    unfolding by_count_def sorted_wrt_append sorted_wrt.simps list.set by (auto simp: less_imp_le)
  then show ?thesis unfolding ins by (simp add: split)
qed

text \<open>The ranking: all columns with rows left, sorted, and the ones with most of them.\<close>

definition ranking :: "nat \<Rightarrow> run \<Rightarrow> nat \<Rightarrow> nat list \<Rightarrow> nat \<Rightarrow> nat list \<Rightarrow> bool" where
  "ranking c r k idx mx mpl \<longleftrightarrow> by_count (cols r) idx \<and> mset idx = mset (filter (\<lambda>p. 0 < counter (cols r ! p)) [0..<k]) \<and>
    (\<forall>p<k. counter (cols r ! p) \<le> mx) \<and> (\<forall>p\<in>set mpl. p < k \<and> counter (cols r ! p) = mx) \<and>
    (0 < mx \<longrightarrow> mpl \<noteq> []) \<and> (0 < k \<longrightarrow> mpl \<noteq> [])"

lemma rank_cols_ok:
  assumes inv: "run_ok n c A r" and A: "\<forall>j<c. A j \<subseteq> {..<n}" and "k \<le> c" "ranking c r k idx mx mpl" "mx < rows_left (rowmask r)"
  shows "case rank_cols [k..<c] r idx mx mpl of
      Exit r' \<Rightarrow> complete n c A r' \<and> (\<exists>p. p < c \<and> cur_sol r' = cur_sol r @ [p])
    | NoSolution \<Rightarrow> False
    | Go (idx', mx', mpl') \<Rightarrow> ranking c r c idx' mx' mpl' \<and> mx' < rows_left (rowmask r)"
  using assms(3-5)
proof (induction "c - k" arbitrary: k idx mx mpl)
  case 0
  then show ?case by simp
next
  case (Suc d)
  note r = run_okD [OF inv] and cnt = run_counts [OF inv]
  let ?cur = "counter (cols r ! k)"
  let ?idx = "if 0 < ?cur then insert_col (cols r) k idx else idx"
  have k: "k < c" "d = c - Suc k" "Suc k \<le> c" using Suc.hyps(2) by simp_all
  have upt: "[k..<c] = k # [Suc k..<c]" using k(1) by (rule upt_conv_Cons)
  have rank: "by_count (cols r) idx" "mset idx = mset (filter (\<lambda>p. 0 < counter (cols r ! p)) [0..<k])"
    "\<forall>p<k. counter (cols r ! p) \<le> mx" "\<forall>p\<in>set mpl. p < k \<and> counter (cols r ! p) = mx" "0 < mx \<longrightarrow> mpl \<noteq> []"
    using Suc.prems(2) by (simp_all add: ranking_def)
  have idx: "by_count (cols r) ?idx" "mset ?idx = mset (filter (\<lambda>p. 0 < counter (cols r ! p)) [0..<Suc k])"
    using insert_col_ok [OF rank(1), of k] rank(1,2) by simp_all
  have all: "\<forall>p<Suc k. counter (cols r ! p) \<le> mx'" if "mx \<le> mx'" "?cur \<le> mx'" for mx'
    using rank(3) that by (auto simp: less_Suc_eq intro: order_trans)
  show ?case
  proof (cases "mx < ?cur")
    case gt: True
    show ?thesis
    proof (cases "?cur = rows_left (rowmask r)")
      case True
      have nonempty: "A k \<noteq> {}" using gt cnt(1) [OF k(1)] by auto
      have "card (A k - covered r) = n - card (covered r)" using True cnt(1) [OF k(1)] cnt(6) by simp
      moreover have "A k - covered r \<subseteq> {..<n} - covered r" using A k(1) by blast
      moreover have "card ({..<n} - covered r) = n - card (covered r)" using r(12) by (simp add: card_Diff_subset finite_subset)
      ultimately have "A k - covered r = {..<n} - covered r" by (intro card_subset_eq) simp_all
      then have "covered r \<union> A k = {..<n}" using r(12) A k(1) by blast
      then have "complete n c A (push_sol [k] r)" using r(10,11,15) k(1) nonempty by (auto simp: complete_def push_sol_def)
      moreover have "rank_cols [k..<c] r idx mx mpl = Exit (push_sol [k] r)"
        unfolding upt using gt True r(7) by (simp add: Let_def IsExSolution_def)
      ultimately show ?thesis using k(1) by (simp add: push_sol_def)
    next
      case False
      have eq: "rank_cols [k..<c] r idx mx mpl = rank_cols [Suc k..<c] r ?idx ?cur [k]"
        unfolding upt using gt False by (simp add: Let_def)
      have "ranking c r (Suc k) ?idx ?cur [k]" using idx all [of ?cur] gt by (simp add: ranking_def)
      moreover have "?cur \<le> rows_left (rowmask r)"
        using masked_count_le [OF _ r(1)] r(13) [OF k(1)] r(8) [OF k(1)] r(2) by auto
      ultimately show ?thesis unfolding eq using False by (intro Suc.hyps(1) [OF k(2,3)]) simp_all
    qed
  next
    case le: False
    show ?thesis
    proof (cases "?cur = mx")
      case True
      have eq: "rank_cols [k..<c] r idx mx mpl = rank_cols [Suc k..<c] r ?idx mx (mpl @ [k])"
        unfolding upt using True by (simp add: Let_def)
      have "ranking c r (Suc k) ?idx mx (mpl @ [k])" using idx all [of mx] rank(4) True by (auto simp: ranking_def)
      then show ?thesis unfolding eq using Suc.prems(3) by (intro Suc.hyps(1) [OF k(2,3)])
    next
      case False
      then have "?cur < mx" using le by simp
      have eq: "rank_cols [k..<c] r idx mx mpl = rank_cols [Suc k..<c] r ?idx mx mpl"
        unfolding upt using le False by (simp add: Let_def)
      have "ranking c r (Suc k) ?idx mx mpl" using idx all [of mx] rank(4,5) \<open>?cur < mx\<close> by (auto simp: ranking_def)
      then show ?thesis unfolding eq using Suc.prems(3) by (intro Suc.hyps(1) [OF k(2,3)])
    qed
  qed
qed

lemma rank_start_ok:
  assumes "run_ok n c A r" "coverable n c A" "covered r \<noteq> {..<n}"
  shows "case rank_cols [0..<c] r [] 0 [] of
      Exit r' \<Rightarrow> complete n c A r' \<and> (\<exists>p. p < c \<and> cur_sol r' = cur_sol r @ [p])
    | NoSolution \<Rightarrow> False
    | Go (idx, mx, mpl) \<Rightarrow> by_count (cols r) idx \<and> distinct idx \<and> set idx = {p. p < c \<and> A p - covered r \<noteq> {}} \<and>
        mpl \<noteq> [] \<and> (\<forall>p\<in>set mpl. p < c \<and> A p - covered r \<noteq> {}) \<and>
        (\<forall>p<c. covered r \<union> A p \<noteq> {..<n})"
proof -
  note r = run_okD [OF assms(1)] and cnt = run_counts [OF assms(1)]
  have A: "\<forall>j<c. A j \<subseteq> {..<n}" using assms(2) by (simp add: coverable_def)
  have "ranking c r 0 [] 0 []" by (simp add: ranking_def by_count_def)
  have "covered r \<subset> {..<n}" using assms(3) r(12) by blast
  then have "card (covered r) < n" using psubset_card_mono [of "{..<n}" "covered r"] by simp
  then have "0 < rows_left (rowmask r)" using cnt(6) by simp
  note rank = rank_cols_ok [OF assms(1) A _ \<open>ranking c r 0 [] 0 []\<close> this]
  obtain i where i: "i < n" "i \<notin> covered r" using assms(3) r(12) by auto
  then obtain j where j: "j < c" "i \<in> A j" using assms(2) by (auto simp: coverable_def)
  have fin: "finite (A p - covered r)" if "p < c" for p using A that finite_subset [of "A p" "{..<n}"] by auto
  have zero: "0 < counter (cols r ! p) \<longleftrightarrow> A p - covered r \<noteq> {}" if "p < c" for p
    using cnt(1) [OF that] fin [OF that] by (simp add: card_gt_0_iff)
  show ?thesis
  proof (cases "rank_cols [0..<c] r [] 0 []")
    case (Go res)
    obtain idx mx mpl where res: "res = (idx, mx, mpl)" by (cases res)
    have rk: "ranking c r c idx mx mpl" and no: "mx < rows_left (rowmask r)" using rank Go res by simp_all
    have m: "mset idx = mset (filter (\<lambda>p. 0 < counter (cols r ! p)) [0..<c])" using rk by (simp add: ranking_def)
    have "set idx = {p. p < c \<and> A p - covered r \<noteq> {}}" using mset_eq_setD [OF m] zero by auto
    moreover have "distinct idx" using mset_eq_imp_distinct_iff [OF m] by simp
    moreover have "0 < counter (cols r ! j)" using zero [OF j(1)] i j by blast
    then have "0 < mx" using rk j(1) by (fastforce simp: ranking_def)
    then have "mpl \<noteq> []" "\<forall>p\<in>set mpl. p < c \<and> A p - covered r \<noteq> {}" using rk zero by (auto simp: ranking_def)
    moreover have "covered r \<union> A p \<noteq> {..<n}" if p: "p < c" for p
    proof
      assume "covered r \<union> A p = {..<n}"
      then have "A p - covered r = {..<n} - covered r" by blast
      then have "card (A p - covered r) = n - card (covered r)" using r(12) by (simp add: card_Diff_subset finite_subset)
      then have "counter (cols r ! p) = rows_left (rowmask r)" using cnt(1) [OF p] cnt(6) by simp
      moreover have "counter (cols r ! p) \<le> mx" using rk p by (simp add: ranking_def)
      ultimately show False using no by simp
    qed
    ultimately show ?thesis using rk Go res by (simp add: ranking_def)
  qed (use rank in auto)
qed

lemma all_min_ok:
  assumes inv: "run_ok n c A r" and "\<forall>i\<in>set lst. i < n" "c < 2 ^ 31"
  shows "set (all_min oob c r lst) = {j. j < c \<and> (\<exists>i\<in>set lst. i \<notin> covered r \<and> i \<in> A j)}"
proof -
  note r = run_okD [OF inv]
  let ?b = "fold bv_or_count (map (\<lambda>i. rows r ! i) lst) (bv_new c)"
  have b: "bv_ok ?b \<and> bv_set ?b = bv_set (bv_new c) \<union> (\<Union>u\<in>set (map (\<lambda>i. rows r ! i) lst). bv_set u) \<and> bsize ?b = bsize (bv_new c)"
    using bv_new_ok [OF assms(3)] r(14) assms(2) by (intro bv.fold_join) auto
  have eq: "all_min oob c r lst = set_positions oob ?b (bv_next_set oob ?b (-1))"
    by (simp add: all_min_def Let_def fold_map comp_def)
  have "set (all_min oob c r lst) = bv_set ?b"
    unfolding eq using set_positions_eq [OF bv_okD(1) [OF conjunct1 [OF b]], of "-1" oob] by auto
  then show ?thesis using b bv_new_ok(2) [OF assms(3)] r(9) assms(2) by (auto split: if_splits)
qed

section \<open>A turn of the loop\<close>

text \<open>A turn goes well: it ends with a complete selection or covers more rows.\<close>

definition progress :: "nat \<Rightarrow> nat \<Rightarrow> (nat \<Rightarrow> nat set) \<Rightarrow> run \<Rightarrow> run outcome option \<Rightarrow> bool" where
  "progress n c A r oc \<longleftrightarrow>
    (case oc of Some (Exit r') \<Rightarrow> complete n c A r' | Some (Go r') \<Rightarrow> run_ok n c A r' \<and> covered r \<subset> covered r' | _ \<Rightarrow> False)"

lemma progress_simps [simp]:
  "progress n c A r (Some (Exit r')) \<longleftrightarrow> complete n c A r'"
  "progress n c A r (Some (Go r')) \<longleftrightarrow> run_ok n c A r' \<and> covered r \<subset> covered r'"
  by (simp_all add: progress_def)

text \<open>Columns that pass the covering test complete the selection.\<close>

lemma found_covers:
  assumes inv: "run_ok n c A r" and cov: "coverable n c A" and "found (cols r) (rowmask r) {} k cand sol" "\<forall>p\<in>cand. p < c"
  shows "(\<forall>p\<in>set sol. p < c) \<and> covered r \<union> (\<Union>p\<in>set sol. A p) = {..<n}"
proof -
  note r = run_okD [OF inv]
  have sol: "\<forall>p\<in>set sol. p < c" "IsSolutionLite (cols r) (rowmask r) sol" using assms(3,4) by (auto simp: found_def)
  have n: "n mod 64 \<noteq> 0" "0 < n" using cov by (auto simp: coverable_def)
  have "cols_in (cols r) sol" using sol(1) r(4) by (simp add: cols_in_def)
  then have "covers (cols r) (rowmask r) sol" using sol(2) IsSolutionLite_iff [of "rowmask r" "cols r" sol] r(1-3) n by auto
  then have u: "covered r \<union> union_of (cols r) sol = {..<n}" using r(2) by (simp add: covers_def)
  have "union_of (cols r) sol = (\<Union>p\<in>set sol. A p - covered r)" using sol(1) r(8) unfolding union_of_def by simp
  then show ?thesis using u sol(1) by blast
qed

lemma push_complete:
  assumes "run_ok n c A r" "\<forall>p\<in>set sol. p < c" "covered r \<union> (\<Union>p\<in>set sol. A p) = {..<n}" "\<forall>p\<in>set sol. A p \<noteq> {}"
  shows "complete n c A (push_sol sol r)"
  using run_okD(10,11,15) [OF assms(1)] assms(2-4) by (auto simp: complete_def push_sol_def)

lemma found_exit:
  assumes "run_ok n c A r" "coverable n c A" "sol = [] \<or> found (cols r) (rowmask r) {} k cand sol" "length sol = k" "0 < k"
    and "\<forall>p\<in>cand. p < c \<and> A p \<noteq> {}"
  shows "progress n c A r (Some (Exit (push_sol sol r)))"
proof -
  have f: "found (cols r) (rowmask r) {} k cand sol" using assms(3-5) by auto
  then have "set sol \<subseteq> cand" by (simp add: found_def)
  then have "\<forall>p\<in>set sol. A p \<noteq> {}" using assms(6) by blast
  moreover have "\<forall>p\<in>cand. p < c" using assms(6) by blast
  ultimately show ?thesis using push_complete [OF assms(1)] found_covers [OF assms(1,2) f] by simp
qed

text \<open>A pair has no empty column, as no column completes the selection alone.\<close>

lemma pair_exit:
  assumes "run_ok n c A r" "coverable n c A" "sol = [] \<or> found (cols r) (rowmask r) {} 2 cand sol" "length sol = 2"
    and "\<forall>p\<in>cand. p < c" "\<forall>p<c. covered r \<union> A p \<noteq> {..<n}"
  shows "progress n c A r (Some (Exit (push_sol sol r)))"
proof -
  have f: "found (cols r) (rowmask r) {} 2 cand sol" using assms(3,4) by auto
  note c = found_covers [OF assms(1,2) f assms(5)]
  obtain i j where sol: "sol = [i, j]" using assms(4) by (auto simp: length_Suc_conv numeral_2_eq_2)
  have ij: "i < c" "j < c" "covered r \<union> (A i \<union> A j) = {..<n}" using c sol by simp_all
  have "A i \<noteq> {}" using ij assms(6) by fastforce
  moreover have "A j \<noteq> {}" using ij assms(6) by fastforce
  ultimately show ?thesis using push_complete [OF assms(1)] c sol by simp
qed

lemma select_progress:
  assumes "run_ok n c A r" "coverable n c A" "p < c" "A p - covered r \<noteq> {}"
  shows "progress n c A r (Some (Go (select_col oob p r)))"
proof -
  have "A p \<subseteq> {..<n}" "A p \<noteq> {}" using assms(2-4) by (auto simp: coverable_def)
  then show ?thesis using select_ok [OF assms(1,3), of oob] assms(4) by auto
qed

lemma select_max_progress:
  assumes "run_ok n c A r" "coverable n c A" "mpl \<noteq> []" "\<forall>p\<in>set mpl. p < c \<and> A p - covered r \<noteq> {}"
  shows "progress n c A r (Some (select_max oob am mpl r))"
proof -
  let ?p = "case find (\<lambda>p. p \<in> set am) mpl of Some p \<Rightarrow> p | None \<Rightarrow> mpl ! 0"
  have "?p \<in> set mpl" using assms(3) by (auto simp: find_Some_iff split: option.splits)
  then show ?thesis using select_progress [OF assms(1,2)] assms(3,4) by (simp add: select_max_def)
qed

lemma select_pair_progress:
  assumes inv: "run_ok n c A r" and cov: "coverable n c A" and am: "1 < length am" "\<forall>p\<in>set am. p < c \<and> A p - covered r \<noteq> {}"
  shows "progress n c A r (map_option Go (select_pair oob am r))"
proof -
  note r = run_okD [OF inv]
  let ?w = "\<lambda>i j. count_or_mask (cols r ! i) (cols r ! j) (rowmask r)"
  have pos: "0 < ?w i j" if "(i, j) \<in> set (pairs am)" for i j
  proof -
    have ij: "i < c" "j < c" "A i - covered r \<noteq> {}" using set_pairs [OF that] am(2) by blast+
    have "?w i j = card ((bv_set (cols r ! i) \<union> bv_set (cols r ! j)) - covered r)"
      using count_mask_ops(1) r(13) [OF ij(1)] r(13) [OF ij(2)] r(1,2) bv_okD(1) by simp
    moreover have "(bv_set (cols r ! i) \<union> bv_set (cols r ! j)) - covered r \<noteq> {}" using ij r(8) by auto
    moreover have "finite (bv_set (cols r ! i) \<union> bv_set (cols r ! j))" using r(13) ij bv.finite_elems by simp
    ultimately show ?thesis by (simp add: card_gt_0_iff)
  qed
  have ne: "(am ! 0, am ! 1) \<in> set (pairs am)" using am(1) by (intro pairs_nth) simp_all
  obtain w sol where s: "GetBest2Selection (cols r) (rowmask r) am {} = (w, sol)" by (metis surj_pair)
  obtain i j where ij: "(i, j) \<in> set (pairs am)" "sol = [i, j]"
    using GetBest2Selection_best [OF s] pos ne by fastforce
  have c: "i < c" "j < c" "A i - covered r \<noteq> {}" "A j - covered r \<noteq> {}" using set_pairs [OF ij(1)] am(2) by blast+
  have sub: "A i \<subseteq> {..<n}" "A j \<subseteq> {..<n}" "A i \<noteq> {}" "A j \<noteq> {}" using cov c by (auto simp: coverable_def)
  note s1 = select_ok [OF inv c(1) sub(1,3), of oob]
  note s2 = select_ok [OF s1(1) c(2) sub(2,4), of oob]
  have "select_pair oob am r = Some (select_col oob j (select_col oob i r))" using s ij(2) r(7) by (simp add: select_pair_def)
  moreover have "covered r \<subset> covered (select_col oob j (select_col oob i r))" unfolding s2(2) s1(2) using c(3) by blast
  ultimately show ?thesis using s2(1) by simp
qed

lemma select_more_progress:
  assumes "run_ok n c A r" "coverable n c A" "mpl \<noteq> []" "\<forall>p\<in>set mpl. p < c \<and> A p - covered r \<noteq> {}"
    "\<forall>p\<in>set am. p < c \<and> A p - covered r \<noteq> {}"
  shows "progress n c A r (select_more oob mn am mpl r)"
  using select_pair_progress [OF assms(1,2) _ assms(5)] select_max_progress [OF assms(1-4)] by (simp add: select_more_def)

lemma search_few_progress:
  assumes inv: "run_ok n c A r" and cov: "coverable n c A" and mpl: "mpl \<noteq> []" "\<forall>p\<in>set mpl. p < c \<and> A p - covered r \<noteq> {}"
    and am: "\<forall>p\<in>set am. p < c \<and> A p - covered r \<noteq> {}" and idx: "\<forall>p\<in>set idx. p < c \<and> A p \<noteq> {}" "2 \<le> length idx"
    and no: "\<forall>p<c. covered r \<union> A p \<noteq> {..<n}"
  shows "progress n c A r (search_few oob mn am idx mpl r)"
proof -
  note r = run_okD [OF inv]
  let ?b2 = "snd (GetBest2Solution_list (cols r) (rowmask r) am {})"
  show ?thesis
  proof (cases "length ?b2 = 2")
    case True
    have "progress n c A r (Some (Exit (push_sol ?b2 r)))"
      using GetBest2Solution_list_found [of "cols r" "rowmask r" am "{}"] am r(4) True
      by (intro pair_exit [OF inv cov _ _ _ no, of _ "set am \<union> {..<length (cols r)}"]) auto
    then show ?thesis using True r(7) by (simp add: search_few_def)
  next
    case False
    obtain w b3 where b3: "GetBest3Solution_list (cols r) (rowmask r) am idx {} = Some (w, b3)"
      using idx(2) by (auto simp: GetBest3Solution_list_def Let_def prod_eq_iff intro: prod.collapse [symmetric])
    show ?thesis
    proof (cases "length b3 = 3")
      case True
      have "progress n c A r (Some (Exit (push_sol b3 r)))"
        using GetBest3Solution_list_found [OF b3] am idx(1) True
        by (intro found_exit [OF inv cov, of _ 3 "set idx \<union> set am"]) auto
      then show ?thesis using \<open>length ?b2 \<noteq> 2\<close> b3 True r(7) by (simp add: search_few_def)
    next
      case 3: False
      then show ?thesis
        using False b3 r(7) select_more_progress [OF inv cov mpl am] by (simp add: search_few_def)
    qed
  qed
qed

lemma search_many_progress:
  assumes inv: "run_ok n c A r" and cov: "coverable n c A" and mpl: "mpl \<noteq> []" "\<forall>p\<in>set mpl. p < c \<and> A p - covered r \<noteq> {}"
    and am: "\<forall>p\<in>set am. p < c \<and> A p - covered r \<noteq> {}" "2 \<le> length am"
    and idx: "\<forall>p\<in>set idx. p < c \<and> A p \<noteq> {}" "2 \<le> length (filter (\<lambda>k. k \<in> set am) idx)"
    and no: "\<forall>p<c. covered r \<union> A p \<noteq> {..<n}"
  shows "progress n c A r (search_many oob mn am idx mpl r)"
proof -
  note r = run_okD [OF inv]
  define ml where "ml = take (length am) (filter (\<lambda>k. k \<in> set am) idx)"
  have ml: "2 \<le> length ml" "\<forall>p\<in>set ml. p < c \<and> A p \<noteq> {}" using am(2) idx by (auto simp: ml_def dest: in_set_takeD)
  then have "ml \<noteq> []" by auto
  obtain w2 b2 where b2: "GetBest2Solution (cols r) (rowmask r) ml {} = Some (w2, b2)"
    using \<open>ml \<noteq> []\<close> by (auto simp: GetBest2Solution_def Let_def prod_eq_iff intro: prod.collapse [symmetric])
  obtain w3 b3 where b3: "GetBest3Solution (cols r) (rowmask r) ml {} = Some (w3, b3)"
    using ml(1) by (auto simp: GetBest3Solution_def Let_def prod_eq_iff intro: prod.collapse [symmetric])
  let ?bl = "snd (GetBest2Solution_list (cols r) (rowmask r) am {})"
  have e2: "progress n c A r (Some (Exit (push_sol b2 r)))" if "length b2 = 2"
    using GetBest2Solution_found [OF b2] ml(2) that by (intro found_exit [OF inv cov, of _ 2 "set ml"]) auto
  have el: "progress n c A r (Some (Exit (push_sol ?bl r)))" if "length ?bl = 2"
    using GetBest2Solution_list_found [of "cols r" "rowmask r" am "{}"] am r(4) that
    by (intro pair_exit [OF inv cov _ _ _ no, of _ "set am \<union> {..<length (cols r)}"]) auto
  have e3: "progress n c A r (Some (Exit (push_sol b3 r)))" if "length b3 = 3"
    using GetBest3Solution_found [OF b3] ml(2) that by (intro found_exit [OF inv cov, of _ 3 "set ml"]) auto
  have em: "progress n c A r (select_more oob mn am mpl r)" by (rule select_more_progress [OF inv cov mpl am(1)])
  show ?thesis
    using e2 el e3 em b2 b3 r(7) unfolding search_many_def Let_def ml_def [symmetric] by simp
qed

lemma set_positions_sorted: "sorted_wrt (<) (set_positions oob b nn) \<and> (\<forall>q\<in>set (set_positions oob b nn). nn \<le> q)"
proof (induction oob b nn rule: set_positions.induct)
  case (1 oob b nn)
  show ?case
  proof (cases "nn < bsize b")
    case True
    then have "nn < bv_next_set oob b (int nn)" using bv_next_set_gt [of "int nn" oob b] by auto
    then show ?thesis using "1.IH" [OF True] True by (subst (1 2) set_positions.simps) fastforce
  qed (subst (1 2) set_positions.simps, simp)
qed

lemma distinct_all_min: "distinct (all_min oob c r lst)"
  using set_positions_sorted [of oob] unfolding all_min_def Let_def by (simp add: strict_sorted_iff)

lemma solve_step_ok:
  assumes inv: "run_ok n c A r" and cov: "coverable n c A" and un: "covered r \<noteq> {..<n}"
  shows "progress n c A r (solve_step oob n c low r)"
proof -
  have scan: "case scan_rows oob n low [0..<n] r c [] of
      Exit r' \<Rightarrow> complete n c A r' | NoSolution \<Rightarrow> False
    | Go (r', mn', lst') \<Rightarrow> run_ok n c A r' \<and> covered r \<subseteq> covered r' \<and> covered r' \<noteq> {..<n} \<and> (\<forall>i\<in>set lst'. i < n) \<and>
        (\<forall>i<n. i \<notin> covered r' \<longrightarrow> 2 \<le> card {j. j < c \<and> i \<in> A j} \<and> lst' \<noteq> [])"
    by (rule scan_rows_ok [OF inv cov _ _ _ un]) auto
  show ?thesis
  proof (cases "scan_rows oob n low [0..<n] r c []")
    case (Exit r1)
    then show ?thesis using scan by (simp add: solve_step_def)
  next
    case NoSolution
    then show ?thesis using scan by simp
  next
    case (Go res)
    obtain r1 mn lst where res: "res = (r1, mn, lst)" by (cases res)
    have s: "run_ok n c A r1" "covered r \<subseteq> covered r1" "covered r1 \<noteq> {..<n}" "\<forall>i\<in>set lst. i < n"
      "\<forall>i<n. i \<notin> covered r1 \<longrightarrow> 2 \<le> card {j. j < c \<and> i \<in> A j} \<and> lst \<noteq> []" using scan Go res by simp_all
    have later: "progress n c A r oc" if "progress n c A r1 oc" for oc
      using that s(2) by (auto simp: progress_def split: option.splits outcome.splits)
    note rank = rank_start_ok [OF s(1) cov s(3)]
    note step = solve_step_def [of oob n c low r, unfolded Go res outcome.case prod.case]
    show ?thesis
    proof (cases "rank_cols [0..<c] r1 [] 0 []")
      case (Exit r2)
      then show ?thesis using rank by (simp add: step)
    next
      case NoSolution
      then show ?thesis using rank by simp
    next
      case (Go res2)
      obtain idx mx mpl where res2: "res2 = (idx, mx, mpl)" by (cases res2)
      have idx: "distinct idx" "set idx = {p. p < c \<and> A p - covered r1 \<noteq> {}}"
        and mpl: "mpl \<noteq> []" "\<forall>p\<in>set mpl. p < c \<and> A p - covered r1 \<noteq> {}"
        and no: "\<forall>p<c. covered r1 \<union> A p \<noteq> {..<n}" using rank Go res2 by simp_all
      obtain i where i: "i < n" "i \<notin> covered r1" using s(3) run_okD(12) [OF s(1)] by auto
      then have two: "2 \<le> card {j. j < c \<and> i \<in> A j}" and lst: "lst \<noteq> []" using s(5) by simp_all
      define am where "am = all_min oob c r1 lst"
      have am_set: "set am = {j. j < c \<and> (\<exists>i\<in>set lst. i \<notin> covered r1 \<and> i \<in> A j)}"
        unfolding am_def using all_min_ok [OF s(1,4)] cov by (simp add: coverable_def)
      then have am: "\<forall>p\<in>set am. p < c \<and> A p - covered r1 \<noteq> {}" by blast
      have amd: "distinct am" unfolding am_def by (rule distinct_all_min)
      have idx_c: "\<forall>p\<in>set idx. p < c \<and> A p \<noteq> {}" using idx(2) by auto
      have "card {j. j < c \<and> i \<in> A j} \<le> card (set idx)" using idx(2) i(2) by (intro card_mono) auto
      then have len: "2 \<le> length idx" using two distinct_card [OF idx(1)] by simp
      show ?thesis
      proof (cases "find (\<lambda>nn. counter (cols r1 ! nn) = n) am")
        case (Some p)
        then have p: "p < c" "counter (cols r1 ! p) = n" using am by (auto simp: find_Some_iff)
        then have "card (A p - covered r1) = card {..<n}" using run_counts(1) [OF s(1) p(1)] by simp
        moreover have "A p \<subseteq> {..<n}" using cov p(1) by (simp add: coverable_def)
        ultimately have "A p - covered r1 = {..<n}" by (intro card_subset_eq) auto
        then have "A p = {..<n}" using \<open>A p \<subseteq> {..<n}\<close> by blast
        then have "complete n c A (push_sol [p] r1)"
          using run_okD(10,11,12,15) [OF s(1)] p(1) i(1) by (auto simp: complete_def push_sol_def)
        then show ?thesis using Go res2 mpl(1) lst Some by (simp add: step flip: am_def)
      next
        case None
        show ?thesis
        proof (cases "MAXMINSIZE < length am")
          case True
          have "set (filter (\<lambda>k. k \<in> set am) idx) = set am" using idx(2) am by auto
          then have "length (filter (\<lambda>k. k \<in> set am) idx) = length am"
            using idx(1) amd by (metis distinct_card distinct_filter)
          then have "progress n c A r1 (search_many oob mn am idx mpl r1)"
            using True by (intro search_many_progress [OF s(1) cov mpl am _ idx_c _ no]) (simp_all add: MAXMINSIZE_def)
          then show ?thesis using later Go res2 mpl(1) lst None True by (simp add: step flip: am_def)
        next
          case False
          have "progress n c A r1 (search_few oob mn am idx mpl r1)" by (rule search_few_progress [OF s(1) cov mpl am idx_c len no])
          then show ?thesis using later Go res2 mpl(1) lst None False by (simp add: step flip: am_def)
        qed
      qed
    qed
  qed
qed

text \<open>The loop ends: every turn that goes on covers more rows.\<close>

lemma solve_loop_ok:
  assumes "run_ok n c A r" "coverable n c A"
  shows "\<exists>r'. solve_loop oob n c low r = Some (Some r') \<and> complete n c A r'"
  using assms(1)
proof (induction "n - card (covered r)" arbitrary: r rule: less_induct)
  case less
  note inv = less.prems
  show ?case
  proof (cases "covered r = {..<n}")
    case True
    then have "solve_loop oob n c low r = Some (Some r)"
      using run_counts(4) [OF inv] by (subst solve_loop.simps) simp
    then show ?thesis using covered_completeI [OF inv True] by simp
  next
    case False
    then have lt: "counter (rowmask r) < n" using run_counts(5) [OF inv] by simp
    note p = solve_step_ok [OF inv assms(2) False, of oob low]
    show ?thesis
    proof (cases "solve_step oob n c low r")
      case None
      then show ?thesis using p by (simp add: progress_def)
    next
      case (Some oc)
      show ?thesis
      proof (cases oc)
        case (Exit r')
        then show ?thesis using p Some lt by (subst solve_loop.simps) simp
      next
        case NoSolution
        then show ?thesis using p Some by (simp add: progress_def)
      next
        case (Go r')
        then have r': "run_ok n c A r'" "covered r \<subset> covered r'" using p Some by simp_all
        have "card (covered r) < card (covered r')" using r' run_okD(12) [OF r'(1)] finite_subset by (intro psubset_card_mono) auto
        moreover have "card (covered r') \<le> n" using card_mono [OF _ run_okD(12) [OF r'(1)]] by simp
        ultimately have "\<exists>r''. solve_loop oob n c low r' = Some (Some r'') \<and> complete n c A r''"
          using r'(1) by (intro less.hyps) simp_all
        moreover have "solve_loop oob n c low r = solve_loop oob n c low r'" using Some Go lt by (subst solve_loop.simps) simp
        ultimately show ?thesis by simp
      qed
    qed
  qed
qed

section \<open>The reductions at the end\<close>

definition reduced :: "nat \<Rightarrow> matrix \<Rightarrow> nat list \<Rightarrow> nat list \<Rightarrow> nat list \<Rightarrow> bool" where
  "reduced n m idx sol r \<longleftrightarrow> cols_in m r \<and> solves n m r \<and> length r \<le> length sol \<and> set r \<subseteq> set sol \<union> set idx"

lemma reducedD: "reduced n m idx sol r \<Longrightarrow> cols_in m r \<and> solves n m r \<and> length r \<le> length sol"
  by (simp add: reduced_def)

lemma reduced_refl: "cols_in m sol \<Longrightarrow> solves n m sol \<Longrightarrow> reduced n m idx sol sol"
  by (simp add: reduced_def)

lemma reduced_trans: "reduced n m idx r s \<Longrightarrow> reduced n m idx sol r \<Longrightarrow> reduced n m idx sol s"
  unfolding reduced_def by auto

lemma reduced_mset: "mset s = mset r \<Longrightarrow> reduced n m idx sol r \<Longrightarrow> reduced n m idx sol s"
  using mset_eq_setD [of s r] mset_eq_length [of s r] solves_cong [of s r n m] by (simp add: reduced_def cols_in_def)

lemma improves_reduced: "improves n m idx sol r \<Longrightarrow> reduced n m idx sol r"
  by (simp add: improves_def reduced_def)

lemma solves_nonempty: "problem_ok n m \<Longrightarrow> solves n m sol \<Longrightarrow> sol \<noteq> []"
  using problem_okD(2) [of n m] unfolding solves_def by (cases "sol = []") (simp_all add: eq_commute [of "{}"] lessThan_empty_iff)

lemma reduced_without:
  assumes "problem_ok n m" "reduced n m idx sol s" "IsSolutionLite m (nomask m) (without s p)"
  shows "reduced n m idx sol (without s p)"
proof -
  have c: "cols_in m (without s p)" using assms(2) by (auto simp: reduced_def cols_in_def without_def)
  have "length (without s p) \<le> length sol"
    using assms(2) le_trans [OF length_filter_le [of "\<lambda>q. q \<noteq> p" s]] by (simp add: reduced_def without_def)
  then show ?thesis using c Lite_solves [OF assms(1) c] assms(2,3) set_without [of s p] unfolding reduced_def by blast
qed

lemma compress_rounds_reduced:
  assumes "problem_ok n m" "cur \<noteq> []" "\<forall>s\<in>set cur. reduced n m idx sol s"
  shows "compress_rounds m cur \<noteq> [] \<and> (\<forall>s\<in>set (compress_rounds m cur). reduced n m idx sol s)"
  using assms
proof (induction m cur rule: compress_rounds.induct)
  case (1 m cur)
  let ?all = "compress_round m cur"
  have all: "\<forall>s\<in>set ?all. reduced n m idx sol s"
    using "1.prems"(3) reduced_without [OF "1.prems"(1)] by (auto simp: compress_round_set shorter_def)
  have ne: "?all \<noteq> []" using "1.prems"(2) compress_round_set [of m cur] by (metis Un_empty set_empty)
  show ?case
  proof (cases "length cur < length ?all")
    case True
    have "\<forall>s\<in>set (drop (length cur) ?all). reduced n m idx sol s" using all by (auto dest: in_set_dropD)
    then show ?thesis
      using "1.IH" [OF refl True "1.prems"(1)] True by (subst (1 2) compress_rounds.simps) simp
  next
    case False
    then show ?thesis using all ne by (subst (1 2) compress_rounds.simps) simp
  qed
qed

lemma Compress_All_reduced:
  assumes "problem_ok n m" "cols_in m sol" "solves n m sol"
  shows "reduced n m idx sol (ReduceColCompress_All weights m sol)"
proof -
  let ?all = "compress_rounds m [sol]"
  have all: "?all \<noteq> []" "\<forall>s\<in>set ?all. reduced n m idx sol s"
    using compress_rounds_reduced [OF assms(1), of "[sol]" idx sol] reduced_refl [OF assms(2,3)] by simp_all
  have "fold (better weights) (tl ?all) (hd ?all) \<in> set ?all"
    using fold_better [of weights "tl ?all" "hd ?all"] all(1) by simp
  then show ?thesis using all(2) reduced_refl [OF assms(2,3)] by (simp add: ReduceColCompress_All_def Let_def)
qed

lemma Compress_reduced:
  assumes "problem_ok n m" "cols_in m sol" "solves n m sol"
  shows "reduced n m idx sol (ReduceColCompress m sol)"
  using compress_loop_ok [OF assms, of 0] cols_in_subset [OF assms(2)]
  unfolding reduced_def ReduceColCompress_def irredundant_def by blast

lemma finish_ok:
  assumes pr: "problem_ok n m" and idx: "cols_in m idx" "by_count m idx" "\<forall>c\<in>set idx. inex ! c \<noteq> ExcludedFlag"
    and sol: "cols_in m sol" "solves n m sol" and srt: "\<And>xs. xs \<noteq> [] \<Longrightarrow> \<exists>ys. srt xs = Some ys \<and> mset ys = mset xs"
    and single: "5 < length sol \<Longrightarrow> \<forall>c\<in>set idx. \<not> solves n m [c]"
  shows "\<exists>r. finish srt weights m inex idx sol = Some r \<and> reduced n m idx sol r"
proof -
  have sorted: "\<exists>t. srt s = Some t \<and> reduced n m idx sol t" if "reduced n m idx sol s" for s
    using srt [of s] reduced_mset [OF _ that] solves_nonempty [OF pr] that by (metis reduced_def)
  note step = reduced_trans [of n m idx _ _ sol]
  define f1 where "f1 = (if 2 \<le> length sol \<and> length sol \<le> 5 then map_option (ReduceColCompress_All weights m) (srt sol)
      else if 6 \<le> length sol then map_option (ReduceColCompress m) (srt sol) else Some sol)"
  define f2 where "f2 = (\<lambda>sol. if 5 < length sol then do { sol \<leftarrow> srt sol; ReduceColReplace31 weights m inex idx sol } else Some sol)"
  define f3 where "f3 = (\<lambda>sol. if 2 \<le> length sol \<and> length sol \<le> 5 then do { sol \<leftarrow> srt sol; ReduceColReplace21_Traverse weights m inex idx sol }
      else if 6 \<le> length sol then do { sol \<leftarrow> srt sol; ReduceColReplace21 weights m inex idx sol } else Some sol)"
  have fin: "finish srt weights m inex idx sol = do { sol \<leftarrow> f1; sol \<leftarrow> f2 sol; f3 sol }"
    by (simp add: finish_def f1_def f2_def f3_def)
  obtain t where t: "srt sol = Some t" "reduced n m idx sol t" using sorted [OF reduced_refl [OF sol]] by blast
  note rt = reducedD [OF t(2)]
  have "reduced n m idx t (ReduceColCompress_All weights m t)" "reduced n m idx t (ReduceColCompress m t)"
    using Compress_All_reduced [OF pr, of t idx weights] Compress_reduced [OF pr, of t idx] rt by simp_all
  then have "\<exists>r1. f1 = Some r1 \<and> reduced n m idx sol r1"
    using step [OF _ t(2)] t(1) reduced_refl [OF sol] unfolding f1_def by simp
  then obtain r1 where r1: "f1 = Some r1" "reduced n m idx sol r1" by blast
  obtain t1 where t1: "srt r1 = Some t1" "reduced n m idx sol t1" using sorted [OF r1(2)] by blast
  have "\<exists>r2. f2 r1 = Some r2 \<and> reduced n m idx sol r2"
  proof (cases "5 < length r1")
    case True
    then have "5 < length sol" using reducedD [OF r1(2)] by simp
    note no = single [OF this]
    have len: "\<not> length t1 < 2"
    proof
      assume "length t1 < 2"
      moreover have "length t1 = length r1" using srt [of r1] t1(1) True mset_eq_length by fastforce
      ultimately show False using True by simp
    qed
    have "case replace_loop 3 weights m inex idx t1 of Some r \<Rightarrow> improves n m idx t1 r \<and> settled 3 n m idx r
      | None \<Rightarrow> length t1 < 3 - 1 \<or> 3 = (3 :: nat) \<and> odd (length t1) \<and> (\<exists>c\<in>set idx. solves n m [c])"
      using reducedD [OF t1(2)] by (intro replace_loop_ok [OF _ pr idx]) simp_all
    then have "\<exists>r2. ReduceColReplace31 weights m inex idx t1 = Some r2 \<and> improves n m idx t1 r2"
      using len no by (auto simp: ReduceColReplace31_def split: option.splits)
    then show ?thesis using step [OF improves_reduced t1(2)] t1(1) True unfolding f2_def by auto
  next
    case False
    then show ?thesis using r1(2) by (simp add: f2_def)
  qed
  then obtain r2 where r2: "f2 r1 = Some r2" "reduced n m idx sol r2" by blast
  obtain t2 where t2: "srt r2 = Some t2" "reduced n m idx sol t2" using sorted [OF r2(2)] by blast
  have ok2: "cols_in m t2" "solves n m t2" "t2 \<noteq> []" using reducedD [OF t2(2)] solves_nonempty [OF pr] by blast+
  have "\<exists>r3. f3 r2 = Some r3 \<and> reduced n m idx sol r3"
    using Replace21_ok [OF pr idx ok2, of weights] Traverse21_ok [OF pr idx ok2, of weights] step [OF improves_reduced t2(2)] t2(1) r2(2)
    unfolding f3_def by auto
  then show ?thesis using r1(1) r2(1) by (simp add: fin)
qed

section \<open>The start of the search\<close>

text \<open>Updating the elements in a range of positions, one after the other.\<close>

lemma fold_update:
  "length (fold (\<lambda>i xs. xs[i := f i (xs ! i)]) [a..<b] xs) = length xs \<and>
   (b \<le> length xs \<longrightarrow> (\<forall>k<length xs. fold (\<lambda>i xs. xs[i := f i (xs ! i)]) [a..<b] xs ! k = (if a \<le> k \<and> k < b then f k (xs ! k) else xs ! k)))"
proof (induction b)
  case (Suc b)
  then show ?case by (cases "a \<le> b") (auto simp: nth_list_update)
qed simp

lemma fold_update_map: "fold (\<lambda>j xs. xs[j := f (xs ! j)]) [0..<length xs] xs = map f xs"
  using fold_update [of "\<lambda>_. f" 0 "length xs" xs] by (intro nth_equalityI) simp_all

lemma exclude_col_ok:
  assumes inv: "run_ok n c A r" and e: "cur_sol r = []" "p < c"
  defines "r' \<equiv> r\<lparr>cols := (cols r)[p := bv_clear (cols r ! p)],
    rows := fold (\<lambda>j rows. rows[j := bv_resetbit p (rows ! j)]) [0..<n] (rows r)\<rparr>"
  shows "run_ok n c (A(p := {})) r' \<and> cur_sol r' = []"
proof -
  note r = run_okD [OF inv]
  have cov: "covered r = {}" using r(11) e(1) by simp
  have rows: "rows r' = map (bv_resetbit p) (rows r)"
    using fold_update_map [of "bv_resetbit p" "rows r"] r(6) by (simp add: r'_def)
  have clear: "bv_ok (bv_clear (cols r ! p)) \<and> bv_set (bv_clear (cols r ! p)) = {} \<and> bsize (bv_clear (cols r ! p)) = n"
    using bv_clear_ok [OF bv_okD(1)] r(13) [OF e(2)] by simp
  have reset: "bv_ok (bv_resetbit p (rows r ! i)) \<and> bv_set (bv_resetbit p (rows r ! i)) = bv_set (rows r ! i) - {p} \<and>
      bsize (bv_resetbit p (rows r ! i)) = c" if "i < n" for i
    using bv_resetbit_ok r(14) [OF that] e(2) by simp
  have "matrix_ok n (cols r')" unfolding matrix_ok_def
  proof
    fix v assume "v \<in> set (cols r')"
    then have "v \<in> insert (bv_clear (cols r ! p)) (set (cols r))"
      using set_update_subset_insert [of "cols r" p "bv_clear (cols r ! p)"] by (auto simp: r'_def)
    then show "bv_ok v \<and> bsize v = n" using clear r(3) unfolding matrix_ok_def by auto
  qed
  moreover have "matrix_ok c (rows r')" using reset r(6) unfolding matrix_ok_def rows by (auto simp: in_set_conv_nth)
  moreover have "bv_set (cols r' ! j) = (A(p := {})) j" if "j < c" for j
    using r(4) r(8) [OF that] that clear cov by (simp add: r'_def nth_list_update)
  moreover have "bv_set (rows r' ! i) = {j. j < c \<and> i \<in> (A(p := {})) j}" if "i < n" for i
    using r(6) r(9) [OF that] that reset [OF that] cov unfolding rows by auto
  ultimately show ?thesis
    using r(1-7) cov e(1) unfolding run_ok_def rows by (simp add: r'_def rows)
qed

lemma exclude_cols_ok:
  assumes "run_ok n c A r" "cur_sol r = []" "\<forall>p\<in>set ps. p < c"
  shows "run_ok n c (\<lambda>j. if j \<in> set ps then {} else A j) (exclude_cols n ps r) \<and> cur_sol (exclude_cols n ps r) = []"
  using assms
proof (induction ps arbitrary: A r)
  case Nil
  then show ?case by (simp add: exclude_cols_def)
next
  case (Cons p ps)
  define r' where "r' = r\<lparr>cols := (cols r)[p := bv_clear (cols r ! p)],
    rows := fold (\<lambda>j rows. rows[j := bv_resetbit p (rows ! j)]) [0..<n] (rows r)\<rparr>"
  have r': "run_ok n c (A(p := {})) r'" "cur_sol r' = []"
    using exclude_col_ok [OF Cons.prems(1,2), of p] Cons.prems(3) by (simp_all flip: r'_def)
  have eq: "exclude_cols n (p # ps) r = exclude_cols n ps r'" by (simp add: exclude_cols_def r'_def)
  have fn: "(\<lambda>j. if j \<in> set ps then {} else (A(p := {})) j) = (\<lambda>j. if j \<in> set (p # ps) then {} else A j)"
    by (rule ext) simp
  have "\<forall>p\<in>set ps. p < c" using Cons.prems(3) by simp
  from Cons.IH [OF r' this] show ?case using fn by (simp only: eq)
qed

text \<open>
  The state of a set cover: the rows and the columns are the same matrix. Without rows there may be no
  columns yet.
\<close>

definition sc_ok :: "setcover \<Rightarrow> bool" where
  "sc_ok s \<longleftrightarrow> row_size s < 2 ^ 31 \<and> col_size s < 2 ^ 31 \<and> length (signals s) = col_size s \<and>
    matrix_ok (col_size s) (pvalues_row s) \<and> length (pvalues_row s) = row_size s \<and>
    matrix_ok (row_size s) (pvalues_col s) \<and> (row_size s \<noteq> 0 \<longrightarrow> length (pvalues_col s) = col_size s) \<and>
    (\<forall>i<row_size s. \<forall>j<col_size s. i \<in> bv_set (pvalues_col s ! j) \<longleftrightarrow> j \<in> bv_set (pvalues_row s ! i))"

abbreviation col_set :: "setcover \<Rightarrow> nat \<Rightarrow> nat set" where
  "col_set s j \<equiv> bv_set (pvalues_col s ! j)"

lemma sc_okD:
  assumes "sc_ok s"
  shows "row_size s < 2 ^ 31" "col_size s < 2 ^ 31" "length (signals s) = col_size s" "matrix_ok (col_size s) (pvalues_row s)"
    "length (pvalues_row s) = row_size s" "matrix_ok (row_size s) (pvalues_col s)" "row_size s \<noteq> 0 \<Longrightarrow> length (pvalues_col s) = col_size s"
    "\<And>i j. i < row_size s \<Longrightarrow> j < col_size s \<Longrightarrow> i \<in> col_set s j \<longleftrightarrow> j \<in> bv_set (pvalues_row s ! i)"
  using assms unfolding sc_ok_def by simp_all

lemma copy_matrix: "matrix_ok n m \<Longrightarrow> map (\<lambda>v. bv_copy v bv_empty) m = m"
  using bv_copy_eq bv_okD(1) by (intro map_idI) (simp add: matrix_ok_def)

lemma start_run_ok:
  assumes "sc_ok s" "row_size s \<noteq> 0"
  shows "run_ok (row_size s) (col_size s) (col_set s) (start_run s) \<and> cur_sol (start_run s) = [] \<and>
    rows (start_run s) = pvalues_row s \<and> cols (start_run s) = pvalues_col s"
proof -
  note s = sc_okD [OF assms(1)]
  have rows: "bv_set (pvalues_row s ! i) = {j. j < col_size s \<and> i \<in> col_set s j}" if "i < row_size s" for i
  proof -
    have "bv_ok (pvalues_row s ! i)" "bsize (pvalues_row s ! i) = col_size s" using matrix_okD [OF s(4)] s(5) that by simp_all
    then have "bv_set (pvalues_row s ! i) \<subseteq> {..<col_size s}" using bv.elems_width [of "pvalues_row s ! i"] by simp
    then show ?thesis using s(8) [OF that] by (intro set_eqI iffI) auto
  qed
  have new: "bv_ok (bv_new (row_size s)) \<and> bsize (bv_new (row_size s)) = row_size s \<and> bv_set (bv_new (row_size s)) = {}"
    using bv_new_ok [OF s(1)] by simp
  have eqs: "start_run s = \<lparr>rowmask = bv_new (row_size s), cols = pvalues_col s, rows = pvalues_row s, cur_sol = [], ex_sols = {}\<rparr>"
    by (simp add: start_run_def copy_matrix [OF s(4)] copy_matrix [OF s(6)])
  show ?thesis
    using s(4-6) s(7) [OF assms(2)] rows new unfolding eqs run_ok_def by simp
qed

text \<open>A row has no ones exactly when no column covers it.\<close>

lemma no_empty_row:
  assumes "sc_ok s"
  shows "(\<exists>v\<in>set (pvalues_row s). counter v = 0) \<longleftrightarrow> (\<exists>i<row_size s. \<forall>j<col_size s. i \<notin> col_set s j)"
proof -
  note s = sc_okD [OF assms]
  have "counter (pvalues_row s ! i) = 0 \<longleftrightarrow> (\<forall>j<col_size s. i \<notin> col_set s j)" if "i < row_size s" for i
  proof -
    have ok: "bv_ok (pvalues_row s ! i)" "bsize (pvalues_row s ! i) = col_size s" using matrix_okD [OF s(4)] s(5) that by simp_all
    have "bv_set (pvalues_row s ! i) \<subseteq> {..<col_size s}" using bv.elems_width [OF ok(1)] ok(2) by simp
    then show ?thesis using bv.cnt_0_iff [OF ok(1)] s(8) [OF that] by auto
  qed
  then show ?thesis using s(5) by (simp add: set_conv_nth) blast
qed

text \<open>Without included signals every column that is marked is excluded, and those of the excluded signals are.\<close>

lemma classify_marks:
  assumes "(col', t) \<in> set (classify weight excluded [] col sigs k 0)"
  shows "t = ExcludedFlag \<and> col \<le> col' \<and> col' < col + length sigs \<and>
    (sigs ! (col' - col) \<in> set excluded \<or> weight (sigs ! (col' - col)) = 0)"
  using assms
proof (induction sigs arbitrary: col k)
  case (Cons sig sigs)
  consider "t = ExcludedFlag" "col' = col" "sig \<in> set excluded \<or> weight sig = 0"
    | k' where "(col', t) \<in> set (classify weight excluded [] (col + 1) sigs k' 0)"
    using Cons.prems by (auto simp: Let_def split: if_splits)
  then show ?case
  proof cases
    case (2 k')
    note IH = Cons.IH [OF this]
    then have "col' - col = Suc (col' - (col + 1))" by linarith
    then show ?thesis using IH by simp
  qed simp
qed simp

lemma classify_all:
  assumes "distinct (done @ sigs)" "k = card {s \<in> set done. s \<in> set excluded \<and> weight s \<noteq> 0}" "j < length sigs" "sigs ! j \<in> set excluded"
  shows "(col + j, ExcludedFlag) \<in> set (classify weight excluded [] col sigs k 0)"
  using assms
proof (induction sigs arbitrary: "done" k col j)
  case (Cons sig sigs)
  let ?F = "\<lambda>d. {s \<in> set d. s \<in> set excluded \<and> weight s \<noteq> 0}"
  have full: "set excluded \<subseteq> set d" if "card (?F d) = length excluded" for d
  proof -
    have "?F d = set excluded" by (rule card_seteq) (use that card_length [of excluded] in auto)
    then show ?thesis by blast
  qed
  have le: "card (?F d) \<le> length excluded" for d
    using card_mono [of "set excluded" "?F d"] card_length [of excluded] by fastforce
  define k' where "k' = card (?F (done @ [sig]))"
  have fresh: "sig \<notin> set done" using Cons.prems(1) by simp
  have F: "?F (done @ [sig]) = (if sig \<in> set excluded \<and> weight sig \<noteq> 0 then insert sig (?F done) else ?F done)" by auto
  then have k': "k' = (if sig \<in> set excluded \<and> weight sig \<noteq> 0 then k + 1 else k)"
    using fresh Cons.prems(2) by (simp add: k'_def)
  have room: "k < length excluded" if "sig \<in> set excluded"
  proof (rule ccontr)
    assume "\<not> k < length excluded"
    then have "card (?F done) = length excluded" using le [of "done"] Cons.prems(2) by simp
    then show False using full fresh that by blast
  qed
  have unfold: "set (classify weight excluded [] col (sig # sigs) k 0) =
      (if sig \<in> set excluded \<or> weight sig = 0 \<and> \<not> (k < length excluded \<and> excluded \<noteq> [] \<and> weight sig \<noteq> 0) then {(col, ExcludedFlag)} else {}) \<union>
      (if k' = length excluded then {} else set (classify weight excluded [] (col + 1) sigs k' 0))"
    using room by (auto simp: k' Let_def)
  show ?case
  proof (cases j)
    case 0
    then show ?thesis using Cons.prems(4) unfolding unfold by simp
  next
    case (Suc j')
    have "k' \<noteq> length excluded"
    proof
      assume "k' = length excluded"
      then have "set excluded \<subseteq> set (done @ [sig])" unfolding k'_def by (rule full)
      then have "sigs ! j' \<in> set (done @ [sig])" using Cons.prems(4) Suc by auto
      moreover have "sigs ! j' \<in> set sigs" using Cons.prems(3) Suc by simp
      ultimately show False using Cons.prems(1) by auto
    qed
    moreover have "(col + 1 + j', ExcludedFlag) \<in> set (classify weight excluded [] (col + 1) sigs k' 0)"
      using Cons.prems(1,3,4) Suc by (intro Cons.IH [of "done @ [sig]"]) (simp_all add: k'_def)
    ultimately show ?thesis unfolding unfold using Suc by simp
  qed
qed simp

lemma fold_flags:
  "fold (\<lambda>(c, t) inex. inex[c := t]) marks inex ! j = ExcludedFlag \<Longrightarrow> j < length inex \<Longrightarrow>
   inex ! j = ExcludedFlag \<or> j \<in> set (marked ExcludedFlag marks)"
proof (induction marks arbitrary: inex)
  case (Cons m marks)
  obtain c t where m: "m = (c, t)" by fastforce
  have "inex[c := t] ! j = ExcludedFlag \<or> j \<in> set (marked ExcludedFlag marks)"
    using Cons.IH [of "inex[c := t]"] Cons.prems m by simp
  then show ?case using Cons.prems(2) m by (cases "j = c") (auto simp: marked_def)
qed (simp add: marked_def)

text \<open>The columns that an exclusion of signals takes out.\<close>

definition out_cols :: "(nat \<Rightarrow> int) \<Rightarrow> setcover \<Rightarrow> nat list \<Rightarrow> nat set" where
  "out_cols weight s excluded = set (marked ExcludedFlag (classify weight excluded [] 0 (signals s) 0 0))"

lemma out_cols:
  shows "j \<in> out_cols weight s excluded \<Longrightarrow> j < length (signals s) \<and> (signals s ! j \<in> set excluded \<or> weight (signals s ! j) = 0)"
    and "distinct (signals s) \<Longrightarrow> j < length (signals s) \<Longrightarrow> signals s ! j \<in> set excluded \<Longrightarrow> j \<in> out_cols weight s excluded"
  using classify_marks [of j _ weight excluded 0 "signals s" 0] classify_all [of "[]" "signals s" 0 excluded weight j 0]
  by (force simp: out_cols_def marked_def)+

lemma InExcludeSigs_ok:
  assumes inv: "run_ok (row_size s) c A r" and "cur_sol r = []" "length (signals s) = c" "col_size s = c"
    and res: "InExcludeSigs oob weight s excluded [] wri r = (ans, inex, r')"
  shows "run_ok (row_size s) c (\<lambda>j. if j \<in> out_cols weight s excluded then {} else A j) r'" "cur_sol r' = []"
    "\<And>j. j < c \<Longrightarrow> inex ! j = ExcludedFlag \<Longrightarrow> j \<in> out_cols weight s excluded"
proof -
  let ?marks = "classify weight excluded [] 0 (signals s) 0 0"
  have none: "marked IncludedFlag ?marks = []"
    using classify_marks [of _ IncludedFlag weight excluded 0 "signals s" 0] by (auto simp: marked_def filter_empty_conv)
  have inex: "inex = fold (\<lambda>(c, t) inex. inex[c := t]) ?marks (replicate (col_size s) No_In_Ex)"
    and r': "r' = exclude_cols (row_size s) (marked ExcludedFlag ?marks) r"
    using res none by (auto simp: InExcludeSigs_def Let_def exclude_cols_def split: if_splits)
  have "\<forall>p\<in>set (marked ExcludedFlag ?marks). p < c" using out_cols(1) [of _ weight s excluded] assms(3) by (auto simp: out_cols_def)
  from exclude_cols_ok [OF inv assms(2) this]
  show "run_ok (row_size s) c (\<lambda>j. if j \<in> out_cols weight s excluded then {} else A j) r'" "cur_sol r' = []"
    by (simp_all add: r' out_cols_def)
  show "j \<in> out_cols weight s excluded" if "j < c" "inex ! j = ExcludedFlag" for j
    using fold_flags [of ?marks "replicate (col_size s) No_In_Ex" j] that assms(4) unfolding inex out_cols_def by simp
qed

text \<open>When one column covers all rows, a search from the start selects only one.\<close>

lemma scan_rows_single:
  assumes "run_ok n c A r" "coverable n c A" "\<forall>i\<in>set is. i < n" "p < c" "A p = {..<n}" "cur_sol r = []"
  shows "case scan_rows oob n low is r mn lst of Exit r' \<Rightarrow> length (cur_sol r') = 1 | NoSolution \<Rightarrow> False | Go (r', _) \<Rightarrow> r' = r"
  using assms
proof (induction oob n low "is" r mn lst rule: scan_rows.induct)
  case (2 oob n low i "is" r mn lst)
  note inv = "2.prems"(1) and cov = "2.prems"(2)
  have i: "i < n" and rest: "\<forall>i\<in>set is. i < n" using "2.prems"(3) by simp_all
  have cr: "covered r = {}" using run_okD(11) [OF inv] "2.prems"(6) by simp
  show ?case
  proof (cases "counter (rows r ! i) = 1")
    case True
    let ?q = "bv_next_set oob (rows r ! i) (-1)"
    have q: "?q < c" "i \<in> A ?q" using only_column [OF inv i True, of oob] by simp_all
    have "card {j. j < c \<and> i \<in> A j} = 1" using run_counts(3) [OF inv i] True cr by simp
    then obtain x where x: "{j. j < c \<and> i \<in> A j} = {x}" by (rule card_1_singletonE)
    have "i \<in> A p" using "2.prems"(5) i by simp
    then have "?q \<in> {x}" "p \<in> {x}" using q "2.prems"(4) unfolding x [symmetric] by simp_all
    then have "?q = p" by simp
    have "A p \<subseteq> {..<n}" "A p \<noteq> {}" using "2.prems"(5) i by auto
    note sel = select_ok [OF inv "2.prems"(4) this, of oob]
    have "covered (select_col oob p r) = {..<n}" using sel(2) cr "2.prems"(5) by simp
    then have "counter (rowmask (select_col oob p r)) = n" using run_counts(4) [OF sel(1)] by simp
    moreover have "length (cur_sol (select_col oob p r)) = 1" using sel(3) "2.prems"(6) by simp
    ultimately show ?thesis using True \<open>?q = p\<close> by (simp add: Let_def)
  next
    case False
    have step: "?thesis" if "scan_rows oob n low (i # is) r mn lst = scan_rows oob n low is r mn' lst'"
      "\<lbrakk>run_ok n c A r; coverable n c A; \<forall>i\<in>set is. i < n; p < c; A p = {..<n}; cur_sol r = []\<rbrakk> \<Longrightarrow>
       case scan_rows oob n low is r mn' lst' of Exit r' \<Rightarrow> length (cur_sol r') = 1 | NoSolution \<Rightarrow> False | Go (r', _) \<Rightarrow> r' = r"
      for mn' lst' using that(2) [OF inv cov rest "2.prems"(4-6)] unfolding that(1) .
    let ?c = "counter (rows r ! i)"
    consider "?c = 0" | "?c \<noteq> 0" "?c < MINSIZE" | "?c \<noteq> 0" "\<not> ?c < MINSIZE" "?c = mn"
      | "?c \<noteq> 0" "\<not> ?c < MINSIZE" "?c \<noteq> mn" "?c < mn" | "?c \<noteq> 0" "\<not> ?c < MINSIZE" "?c \<noteq> mn" "\<not> ?c < mn" by blast
    then show ?thesis
    proof cases
      case 1
      then show ?thesis using False by (intro step [OF _ "2.IH"(2) [OF refl False 1]]) (simp_all add: Let_def)
    next
      case 2
      then show ?thesis using False by (intro step [OF _ "2.IH"(3) [OF refl False 2]]) (simp_all add: Let_def)
    next
      case 3
      then show ?thesis using False by (intro step [OF _ "2.IH"(4) [OF refl False 3]]) (simp_all add: Let_def)
    next
      case 4
      then show ?thesis using False by (intro step [OF _ "2.IH"(5) [OF refl False 4]]) (simp_all add: Let_def)
    next
      case 5
      then show ?thesis using False by (intro step [OF _ "2.IH"(6) [OF refl False 5]]) (simp_all add: Let_def)
    qed
  qed
qed simp

lemma solve_loop_single:
  assumes inv: "run_ok n c A r" and cov: "coverable n c A" and p: "p < c" "A p = {..<n}" and "cur_sol r = []"
    and loop: "solve_loop oob n c low r = Some (Some r')"
  shows "length (cur_sol r') = 1"
proof -
  have cr: "covered r = {}" using run_okD(11) [OF inv] assms(5) by simp
  have n: "0 < n" using cov by (auto simp: coverable_def intro: gr0I)
  then have ne: "covered r \<noteq> {..<n}" "counter (rowmask r) < n" using cr run_counts(5) [OF inv] by (auto simp: lessThan_empty_iff)
  have scan: "case scan_rows oob n low [0..<n] r c [] of Exit r' \<Rightarrow> length (cur_sol r') = 1 | NoSolution \<Rightarrow> False | Go (r', _) \<Rightarrow> r' = r"
    using scan_rows_single [OF inv cov _ p assms(5)] by simp
  have rank: "case rank_cols [0..<c] r [] 0 [] of Exit r' \<Rightarrow> length (cur_sol r') = 1 | NoSolution \<Rightarrow> False | Go _ \<Rightarrow> False"
  proof (cases "rank_cols [0..<c] r [] 0 []")
    case (Go res)
    then have "\<forall>p<c. covered r \<union> A p \<noteq> {..<n}" using rank_start_ok [OF inv cov ne(1)] by (cases res) simp
    then have "covered r \<union> A p \<noteq> {..<n}" using p(1) by blast
    then show ?thesis using p(2) cr by simp
  qed (use rank_start_ok [OF inv cov ne(1)] assms(5) in auto)
  have "case solve_step oob n c low r of Some (Exit r') \<Rightarrow> length (cur_sol r') = 1 | _ \<Rightarrow> False"
    using scan rank unfolding solve_step_def
    by (cases "scan_rows oob n low [0..<n] r c []"; cases "rank_cols [0..<c] r [] 0 []") auto
  then show ?thesis using loop ne(2) by (subst (asm) solve_loop.simps) (auto split: option.splits outcome.splits)
qed

section \<open>The solvers return a cover\<close>

lemma run_solver_ok:
  assumes sc: "sc_ok s" and n: "row_size s mod 64 \<noteq> 0" and inv: "run_ok (row_size s) (col_size s) A r" "cur_sol r = []"
    and A: "\<forall>j<col_size s. A j = {} \<or> A j = col_set s j" "\<forall>i<row_size s. \<exists>j<col_size s. i \<in> A j"
    and flags: "\<forall>j<col_size s. inex ! j = ExcludedFlag \<longrightarrow> A j = {}"
    and srt: "\<And>xs. xs \<noteq> [] \<Longrightarrow> \<exists>ys. srt xs = Some ys \<and> mset ys = mset xs"
  shows "\<exists>sol. run_solver oob srt low weights s inex r = Some (True, sol) \<and> solves (row_size s) (pvalues_col s) sol \<and>
    (\<forall>p\<in>set sol. p < col_size s \<and> A p \<noteq> {})"
proof -
  let ?n = "row_size s" and ?c = "col_size s" and ?m = "pvalues_col s"
  have n0: "0 < ?n" using n by (intro gr0I) auto
  note s = sc_okD [OF sc] and r = run_okD [OF inv(1)]
  have len: "length ?m = ?c" using s(7) n0 by simp
  have cols: "col_set s j \<subseteq> {..<?n}" if "j < ?c" for j
    using matrix_okD [OF s(6), of j] bv.elems_width [of "?m ! j"] len that by simp
  have cov: "coverable ?n ?c A" unfolding coverable_def
  proof (intro conjI allI impI)
    show "A j \<subseteq> {..<?n}" if "j < ?c" for j using A(1) cols that by blast
  qed (use A(2) s(2) n in auto)
  obtain j0 where j0: "j0 < ?c" "0 \<in> A j0" using A(2) n0 by blast
  then have "?m \<noteq> []" using len by auto
  then have pr: "problem_ok ?n ?m" using s(6) n by (simp add: problem_ok_def)
  have cr: "covered r = {}" using r(11) inv(2) by simp
  have set_cols: "bv_set (cols r ! j) = A j" if "j < ?c" for j using r(8) [OF that] cr by simp
  have ok_cols: "\<forall>v\<in>set (cols r). bv_ok v" using r(3) by (simp add: matrix_ok_def)
  have "cols r ! j0 \<in> set (cols r)" using j0(1) r(4) by simp
  then have "SortCol ?m (cols r) \<noteq> None" using SortCol_ok(1) [OF ok_cols, of ?m] set_cols [OF j0(1)] j0(2) by blast
  then obtain idx where idx: "SortCol ?m (cols r) = Some idx" by blast
  have "{p. p < length (cols r) \<and> bv_set (cols r ! p) \<noteq> {}} = {p. p < ?c \<and> A p \<noteq> {}}" using set_cols r(4) by auto
  then have idx_ok: "by_count ?m idx" "set idx = {p. p < ?c \<and> A p \<noteq> {}}"
    using SortCol_ok(2) [OF ok_cols idx] by simp_all
  have idx_in: "cols_in ?m idx" "\<forall>c\<in>set idx. inex ! c \<noteq> ExcludedFlag"
    using idx_ok(2) len flags by (auto simp: cols_in_def)
  obtain r' where r': "solve_loop oob ?n ?c low r = Some (Some r')" "complete ?n ?c A r'"
    using solve_loop_ok [OF inv(1) cov] by blast
  let ?sol = "cur_sol r'"
  have sol: "\<forall>p\<in>set ?sol. p < ?c \<and> A p \<noteq> {}" "(\<Union>p\<in>set ?sol. A p) = {..<?n}" using r'(2) by (simp_all add: complete_def)
  have same: "A p = col_set s p" if "p < ?c" "A p \<noteq> {}" for p using A(1) that by blast
  have sol_ok: "cols_in ?m ?sol" "solves ?n ?m ?sol"
    using sol len same by (auto simp: cols_in_def solves_def union_of_def)
  have single: "\<forall>c\<in>set idx. \<not> solves ?n ?m [c]" if "5 < length ?sol"
  proof
    fix c assume c: "c \<in> set idx"
    then have c': "c < ?c" "A c \<noteq> {}" using idx_ok(2) by simp_all
    show "\<not> solves ?n ?m [c]"
    proof
      assume "solves ?n ?m [c]"
      then have "A c = {..<?n}" using same [OF c'] by (simp add: solves_def)
      from solve_loop_single [OF inv(1) cov c'(1) this inv(2) r'(1)] show False using that by simp
    qed
  qed
  obtain f where f: "finish srt weights ?m inex idx ?sol = Some f" "reduced ?n ?m idx ?sol f"
    using finish_ok [OF pr idx_in(1) idx_ok(1) idx_in(2) sol_ok srt single, of weights] by blast
  have f_ok: "cols_in ?m f" "solves ?n ?m f" "\<forall>p\<in>set f. p < ?c \<and> A p \<noteq> {}"
    using f(2) sol(1) idx_ok(2) by (auto simp: reduced_def)
  have "run_solver oob srt low weights s inex r = Some (IsSolutionLite ?m (nomask ?m) f, f)"
    using idx r'(1) f(1) by (simp add: run_solver_def)
  then show ?thesis using Lite_solves [OF pr f_ok(1)] f_ok(2,3) by simp
qed

text \<open>What the three solvers have in common: the run that an exclusion of columns leaves.\<close>

lemma excluded_run_ok:
  assumes "sc_ok s" "row_size s mod 64 \<noteq> 0" "\<forall>i<row_size s. \<exists>j<col_size s. j \<notin> E \<and> i \<in> col_set s j"
    and "run_ok (row_size s) (col_size s) (\<lambda>j. if j \<in> E then {} else col_set s j) r" "cur_sol r = []"
    and "\<And>j. j < col_size s \<Longrightarrow> inex ! j = ExcludedFlag \<Longrightarrow> j \<in> E"
    and "\<And>xs. xs \<noteq> [] \<Longrightarrow> \<exists>ys. srt xs = Some ys \<and> mset ys = mset xs"
  shows "\<exists>sol. run_solver oob srt low weights s inex r = Some (True, sol) \<and> solves (row_size s) (pvalues_col s) sol \<and>
    (\<forall>p\<in>set sol. p < col_size s \<and> p \<notin> E)"
proof -
  let ?A = "\<lambda>j. if j \<in> E then {} else col_set s j"
  have cov: "\<forall>i<row_size s. \<exists>j<col_size s. i \<in> ?A j" using assms(3) by fastforce
  have sub: "\<forall>j<col_size s. ?A j = {} \<or> ?A j = col_set s j" by simp
  have flags: "\<forall>j<col_size s. inex ! j = ExcludedFlag \<longrightarrow> ?A j = {}" using assms(6) by simp
  have "\<exists>sol. run_solver oob srt low weights s inex r = Some (True, sol) \<and> solves (row_size s) (pvalues_col s) sol \<and>
      (\<forall>p\<in>set sol. p < col_size s \<and> ?A p \<noteq> {})"
    by (rule run_solver_ok [OF assms(1,2,4,5) sub cov flags]) (rule assms(7))
  then show ?thesis by (auto split: if_splits)
qed

lemma SortWei_perm: "xs \<noteq> [] \<Longrightarrow> \<exists>ys. SortWei weights xs = Some ys \<and> mset ys = mset xs"
  using SortWei_ok [of xs weights] by blast

lemma Solve_excluded:
  assumes sc: "sc_ok s" and n: "row_size s mod 64 \<noteq> 0"
    and cov: "\<forall>i<row_size s. \<exists>j<col_size s. j \<notin> out_cols weight s excluded \<and> i \<in> col_set s j"
    and srt: "\<And>xs. xs \<noteq> [] \<Longrightarrow> \<exists>ys. srt xs = Some ys \<and> mset ys = mset xs"
    and start: "InExcludeSigs oob weight s excluded [] True (start_run s) = (ans, inex, r)"
  shows "\<exists>sol. run_solver oob srt low weights s inex r = Some (True, sol) \<and> solves (row_size s) (pvalues_col s) sol \<and>
    (\<forall>p\<in>set sol. p < col_size s \<and> p \<notin> out_cols weight s excluded)"
proof -
  have "row_size s \<noteq> 0" using n by (cases "row_size s = 0") simp_all
  then have st: "run_ok (row_size s) (col_size s) (col_set s) (start_run s)" "cur_sol (start_run s) = []"
    using start_run_ok [OF sc] by simp_all
  note ex = InExcludeSigs_ok [OF st sc_okD(3) [OF sc] refl start]
  show ?thesis by (rule excluded_run_ok [OF sc n cov ex srt])
qed

lemma start_rows:
  assumes "sc_ok s" "row_size s mod 64 \<noteq> 0"
  shows "(\<exists>v\<in>set (rows (start_run s)). counter v = 0) \<longleftrightarrow> (\<exists>i<row_size s. \<forall>j<col_size s. i \<notin> col_set s j)"
proof -
  have "row_size s \<noteq> 0" using assms(2) by (cases "row_size s = 0") simp_all
  then show ?thesis using start_run_ok [OF assms(1)] no_empty_row [OF assms(1)] by simp
qed

lemma SolveMinCol_ok:
  assumes "sc_ok s" "row_size s mod 64 \<noteq> 0"
    and cov: "\<forall>i<row_size s. \<exists>j<col_size s. j \<notin> out_cols weight s excluded \<and> i \<in> col_set s j"
  shows "\<exists>sol. SolveMinCol oob weight s excluded [] = Some (True, sol) \<and> solves (row_size s) (pvalues_col s) sol \<and>
    (\<forall>p\<in>set sol. p < col_size s \<and> p \<notin> out_cols weight s excluded)"
proof -
  obtain ans inex r where ex: "InExcludeSigs oob weight s excluded [] True (start_run s) = (ans, inex, r)" by (metis prod_cases3)
  have "\<not> (\<exists>v\<in>set (rows (start_run s)). counter v = 0)" using start_rows [OF assms(1,2)] cov by blast
  then show ?thesis
    using Solve_excluded [OF assms(1,2) cov SortWei_perm ex] by (simp add: SolveMinCol_def ex Let_def)
qed

lemma SolveMinCol_free_ok:
  assumes "sc_ok s" "row_size s mod 64 \<noteq> 0"
    and cov: "\<forall>i<row_size s. \<exists>j<col_size s. j \<notin> out_cols weight s [] \<and> i \<in> col_set s j"
  shows "\<exists>sol. SolveMinCol_free oob weight s = Some (True, sol) \<and> solves (row_size s) (pvalues_col s) sol \<and>
    (\<forall>p\<in>set sol. p < col_size s \<and> p \<notin> out_cols weight s [])"
proof -
  obtain ans inex r where ex: "InExcludeSigs oob weight s [] [] True (start_run s) = (ans, inex, r)" by (metis prod_cases3)
  have "\<not> (\<exists>v\<in>set (rows (start_run s)). counter v = 0)" using start_rows [OF assms(1,2)] cov by blast
  then show ?thesis
    using Solve_excluded [OF assms(1,2) cov _ ex, of Some] by (simp add: SolveMinCol_free_def ex)
qed

text \<open>With a range of excluded columns the solver gives up when a row has no other column.\<close>

lemma SolveMinCol_ExRange_ok:
  assumes sc: "sc_ok s" and n: "row_size s mod 64 \<noteq> 0" and range: "0 \<le> a" "a \<le> b" "b < int (col_size s)"
    and cov: "\<forall>i<row_size s. \<exists>j<col_size s. (int j < a \<or> b < int j) \<and> i \<in> col_set s j"
  shows "\<exists>sol. SolveMinCol_ExRange oob weight s a b = Some (True, sol) \<and> solves (row_size s) (pvalues_col s) sol \<and>
    (\<forall>p\<in>set sol. p < col_size s \<and> (int p < a \<or> b < int p))"
proof -
  let ?n = "row_size s" and ?c = "col_size s" and ?cs = "[nat a..<nat (b + 1)]"
  have n0: "?n \<noteq> 0" using n by (cases "?n = 0") simp_all
  then have st: "run_ok ?n ?c (col_set s) (start_run s)" "cur_sol (start_run s) = []" using start_run_ok [OF sc] by simp_all
  have mem: "j \<in> set ?cs \<longleftrightarrow> \<not> (int j < a \<or> b < int j)" for j using range by auto
  have "\<forall>p\<in>set ?cs. p < ?c" using range by auto
  note ex = exclude_cols_ok [OF st this]
  define r where "r = exclude_cols ?n ?cs (start_run s)"
  define inex where "inex = fold (\<lambda>c inex. inex[c := ExcludedFlag]) ?cs (replicate ?c No_In_Ex)"
  have r: "run_ok ?n ?c (\<lambda>j. if j \<in> set ?cs then {} else col_set s j) r" "cur_sol r = []" using ex by (simp_all add: r_def)
  have flags: "j \<in> set ?cs" if "j < ?c" "inex ! j = ExcludedFlag" for j
  proof -
    have "inex = fold (\<lambda>(c, t) inex. inex[c := t]) (map (\<lambda>c. (c, ExcludedFlag)) ?cs) (replicate ?c No_In_Ex)"
      by (simp add: inex_def fold_map comp_def)
    then show ?thesis using fold_flags [of "map (\<lambda>c. (c, ExcludedFlag)) ?cs" "replicate ?c No_In_Ex" j] that
      by (auto simp: marked_def)
  qed
  have cov': "\<forall>i<?n. \<exists>j<?c. j \<notin> set ?cs \<and> i \<in> col_set s j" using cov unfolding mem by blast
  have rows: "\<not> (\<exists>v\<in>set (rows r). counter v = 0)"
  proof
    assume "\<exists>v\<in>set (rows r). counter v = 0"
    then obtain i where i: "i < ?n" "counter (rows r ! i) = 0" using run_okD(6) [OF r(1)] by (auto simp: in_set_conv_nth)
    have "covered r = {}" using run_okD(11) [OF r(1)] r(2) by simp
    then have "card {j. j < ?c \<and> i \<in> (if j \<in> set ?cs then {} else col_set s j)} = 0" using run_counts(3) [OF r(1) i(1)] i(2) by simp
    then have "{j. j < ?c \<and> i \<in> (if j \<in> set ?cs then {} else col_set s j)} = {}" by simp
    moreover obtain j where "j < ?c" "j \<notin> set ?cs" "i \<in> col_set s j" using cov' i(1) by blast
    ultimately show False by auto
  qed
  have "\<not> (\<exists>v\<in>set (rows (start_run s)). counter v = 0)" using start_rows [OF sc n] cov by blast
  moreover have "InExcludeSigs_Range s a b (start_run s) = (True, inex, r)"
    using range rows by (simp add: InExcludeSigs_Range_def Let_def inex_def r_def)
  ultimately have "SolveMinCol_ExRange oob weight s a b =
      run_solver oob (SortWei (weights_of weight s)) (\<lambda>r i. counter (rows r ! i)) (weights_of weight s) s inex r"
    by (auto simp: SolveMinCol_ExRange_def Let_def)
  then show ?thesis using excluded_run_ok [OF sc n cov' r flags SortWei_perm] unfolding mem by auto
qed

section \<open>Adding rows\<close>

text \<open>The two halves of the matrix hold the relation \<open>D\<close>.\<close>

definition holds :: "nat \<Rightarrow> nat \<Rightarrow> (nat \<times> nat) set \<Rightarrow> matrix \<times> matrix \<Rightarrow> bool" where
  "holds n c D = (\<lambda>(cols, rows). matrix_ok n cols \<and> length cols = c \<and> matrix_ok c rows \<and> length rows = n \<and>
    (\<forall>j<c. bv_set (cols ! j) = {i. i < n \<and> (i, j) \<in> D}) \<and> (\<forall>i<n. bv_set (rows ! i) = {j. j < c \<and> (i, j) \<in> D}))"

lemma matrix_ok_update: "matrix_ok n m \<Longrightarrow> bv_ok v \<and> bsize v = n \<Longrightarrow> matrix_ok n (m[k := v])"
  using set_update_subset_insert [of m k v] unfolding matrix_ok_def by blast

lemma fill_row_holds:
  assumes "holds n c D st" "i < n" "j < c"
  shows "holds n c (if bits ! j then insert (i, j) D else D) (fill_row i bits j st)"
proof (cases "bits ! j")
  case True
  obtain cs rs where st: "st = (cs, rs)" by fastforce
  have h: "matrix_ok n cs" "length cs = c" "matrix_ok c rs" "length rs = n"
    "\<And>j. j < c \<Longrightarrow> bv_set (cs ! j) = {i. i < n \<and> (i, j) \<in> D}" "\<And>i. i < n \<Longrightarrow> bv_set (rs ! i) = {j. j < c \<and> (i, j) \<in> D}"
    using assms(1) by (simp_all add: holds_def st)
  have cj: "bv_ok (cs ! j)" "bsize (cs ! j) = n" using matrix_okD [OF h(1)] h(2) assms(3) by simp_all
  have ri: "bv_ok (rs ! i)" "bsize (rs ! i) = c" using matrix_okD [OF h(3)] h(4) assms(2) by simp_all
  note c' = bv_setbit_ok [OF cj(1), of i] and r' = bv_setbit_ok [OF ri(1), of j]
  have "matrix_ok n (cs[j := bv_setbit i (cs ! j)])" using c' cj(2) assms(2) by (intro matrix_ok_update [OF h(1)]) simp
  moreover have "matrix_ok c (rs[i := bv_setbit j (rs ! i)])" using r' ri(2) assms(3) by (intro matrix_ok_update [OF h(3)]) simp
  moreover have "bv_set (cs[j := bv_setbit i (cs ! j)] ! k) = {i'. i' < n \<and> (i', k) \<in> insert (i, j) D}" if "k < c" for k
    using c' cj(2) h(2) h(5) [OF that] that assms(2) by (cases "k = j") auto
  moreover have "bv_set (rs[i := bv_setbit j (rs ! i)] ! k) = {j'. j' < c \<and> (k, j') \<in> insert (i, j) D}" if "k < n" for k
    using r' ri(2) h(4) h(6) [OF that] that assms(3) by (cases "k = i") auto
  ultimately show ?thesis using True h(2,4) by (simp add: holds_def fill_row_def st)
qed (use assms(1) in \<open>simp add: fill_row_def split: prod.splits\<close>)

lemma fill_holds:
  assumes "holds n c D st" "i < n" "\<forall>j\<in>set js. j < c"
  shows "holds n c (D \<union> {(i, j) | j. j \<in> set js \<and> bits ! j}) (fold (fill_row i bits) js st)"
  using assms(1,3)
proof (induction js arbitrary: D st)
  case (Cons j js)
  have "holds n c ((if bits ! j then insert (i, j) D else D) \<union> {(i, j) | j. j \<in> set js \<and> bits ! j}) (fold (fill_row i bits) js (fill_row i bits j st))"
    using Cons.prems by (intro Cons.IH fill_row_holds [OF _ assms(2)]) simp_all
  moreover have "(if bits ! j then insert (i, j) D else D) \<union> {(i, j) | j. j \<in> set js \<and> bits ! j} =
      D \<union> {(i, j') | j'. j' \<in> set (j # js) \<and> bits ! j'}" by auto
  ultimately show ?case by simp
qed simp

lemma fill_all_holds:
  assumes "holds n c D st" "\<forall>i\<in>set is. i < n"
  shows "holds n c (D \<union> {(i, j). i \<in> set is \<and> j < c \<and> f i ! j}) (fold (\<lambda>i. fold (fill_row i (f i)) [0..<c]) is st)"
  using assms
proof (induction "is" arbitrary: D st)
  case (Cons i "is")
  have "holds n c (D \<union> {(i, j) | j. j \<in> set [0..<c] \<and> f i ! j}) (fold (fill_row i (f i)) [0..<c] st)"
    using Cons.prems by (intro fill_holds) simp_all
  from Cons.IH [OF this] Cons.prems(2)
  have "holds n c (D \<union> {(i, j) | j. j \<in> set [0..<c] \<and> f i ! j} \<union> {(i, j). i \<in> set is \<and> j < c \<and> f i ! j})
      (fold (\<lambda>i. fold (fill_row i (f i)) [0..<c]) is (fold (fill_row i (f i)) [0..<c] st))" by simp
  moreover have "D \<union> {(i, j) | j. j \<in> set [0..<c] \<and> f i ! j} \<union> {(i, j). i \<in> set is \<and> j < c \<and> f i ! j} =
      D \<union> {(i', j). i' \<in> set (i # is) \<and> j < c \<and> f i' ! j}" by auto
  ultimately show ?case by simp
qed simp

lemma length_mat_resize [simp]: "length (mat_resize n m) = n"
  by (simp add: mat_resize_def)

lemma AddRows_ok:
  assumes sc: "sc_ok s" and small: "row_size s + length Rows < 2 ^ 31"
  shows "sc_ok (AddRows Rows s) \<and> row_size (AddRows Rows s) = row_size s + length Rows \<and>
    col_size (AddRows Rows s) = col_size s \<and> signals (AddRows Rows s) = signals s \<and>
    (\<forall>i<row_size s + length Rows. bv_set (pvalues_row (AddRows Rows s) ! i) =
      (if i < row_size s then bv_set (pvalues_row s ! i) else {j. j < col_size s \<and> Rows ! (i - row_size s) ! j}))"
proof -
  note s = sc_okD [OF sc]
  let ?p = "row_size s" and ?c = "col_size s" and ?n = "length Rows + row_size s"
  have n: "?n < 2 ^ 31" using small by simp
  define rows0 where "rows0 = fold (\<lambda>i rows. rows[i := bv_set_size ?c (rows ! i)]) [?p..<?n] (mat_resize ?n (pvalues_row s))"
  define cols0 where "cols0 = (if ?n = length Rows then map (bv_set_size ?n) (mat_resize ?c (pvalues_col s))
                 else map (bv_resize ?n) (pvalues_col s))"
  define D where "D = {(i, j). i < ?p \<and> j \<in> bv_set (pvalues_row s ! i)}"
  have row_sub: "bv_ok (pvalues_row s ! i)" "bsize (pvalues_row s ! i) = ?c" "bv_set (pvalues_row s ! i) \<subseteq> {..<?c}" if "i < ?p" for i
    using matrix_okD [OF s(4), of i] s(5) that bv.elems_width [of "pvalues_row s ! i"] by simp_all
  have old: "mat_resize ?n (pvalues_row s) ! i = pvalues_row s ! i" if "i < ?p" for i
    using s(5) that by (simp add: mat_resize_def nth_append)
  have rows0: "length rows0 = ?n" "\<And>i. i < ?n \<Longrightarrow> rows0 ! i =
      (if ?p \<le> i then bv_set_size ?c (mat_resize ?n (pvalues_row s) ! i) else pvalues_row s ! i)"
    using fold_update [of "\<lambda>_. bv_set_size ?c" ?p ?n "mat_resize ?n (pvalues_row s)"] old by (simp_all add: rows0_def)
  have r0: "bv_ok (rows0 ! i) \<and> bsize (rows0 ! i) = ?c \<and> bv_set (rows0 ! i) = {j. j < ?c \<and> (i, j) \<in> D}" if "i < ?n" for i
    using rows0(2) [OF that] bv_set_size_ok [OF s(2)] row_sub [of i] by (auto simp: D_def)
  have c0: "length cols0 = ?c \<and> (\<forall>j<?c. bv_ok (cols0 ! j) \<and> bsize (cols0 ! j) = ?n \<and> bv_set (cols0 ! j) = {i. i < ?n \<and> (i, j) \<in> D})"
  proof (cases "?p = 0")
    case True
    then show ?thesis using bv_set_size_ok [OF n] by (simp add: cols0_def D_def)
  next
    case False
    then have len: "length (pvalues_col s) = ?c" using s(7) by simp
    have "bv_ok (bv_resize ?n (pvalues_col s ! j)) \<and> bsize (bv_resize ?n (pvalues_col s ! j)) = ?n \<and>
        bv_set (bv_resize ?n (pvalues_col s ! j)) = {i. i < ?n \<and> (i, j) \<in> D}" if j: "j < ?c" for j
    proof -
      have ok: "bv_ok (pvalues_col s ! j)" "bsize (pvalues_col s ! j) = ?p" using matrix_okD [OF s(6), of j] len j by simp_all
      then have "col_set s j \<subseteq> {..<?p}" using bv.elems_width [of "pvalues_col s ! j"] by simp
      then have "col_set s j = {i. i < ?n \<and> (i, j) \<in> D}" using s(8) [OF _ j] by (auto simp: D_def)
      then show ?thesis using bv_resize_ok [OF ok(1) _ n] ok(2) by simp
    qed
    then show ?thesis using False len by (simp add: cols0_def)
  qed
  have start: "holds ?n ?c D (cols0, rows0)"
    unfolding holds_def matrix_ok_def using r0 c0 rows0(1) by (auto simp: in_set_conv_nth)
  define E where "E = D \<union> {(i, j). i \<in> set [?p..<?n] \<and> j < ?c \<and> Rows ! (i - ?p) ! j}"
  obtain cs rs where fin: "fold (\<lambda>i. fold (fill_row i (Rows ! (i - ?p))) [0..<?c]) [?p..<?n] (cols0, rows0) = (cs, rs)" by fastforce
  have "holds ?n ?c E (cs, rs)"
    unfolding E_def fin [symmetric] by (rule fill_all_holds [OF start]) simp
  then have h: "matrix_ok ?n cs" "length cs = ?c" "matrix_ok ?c rs" "length rs = ?n"
    "\<forall>j<?c. bv_set (cs ! j) = {i. i < ?n \<and> (i, j) \<in> E}" "\<forall>i<?n. bv_set (rs ! i) = {j. j < ?c \<and> (i, j) \<in> E}" by (simp_all add: holds_def)
  have eq: "AddRows Rows s = s\<lparr>row_size := ?n, pvalues_row := rs, pvalues_col := cs\<rparr>"
    using fin by (simp add: AddRows_def Let_def rows0_def cols0_def)
  have "sc_ok (AddRows Rows s)" using h n s(2,3) unfolding eq sc_ok_def by simp
  moreover have "bv_set (rs ! i) = (if i < ?p then bv_set (pvalues_row s ! i) else {j. j < ?c \<and> Rows ! (i - ?p) ! j})" if "i < ?n" for i
    using h(6) that row_sub(3) [of i] by (auto simp: E_def D_def)
  ultimately show ?thesis unfolding eq by (simp add: add.commute)
qed

lemma setcover_new_ok: "length sigs < 2 ^ 31 \<Longrightarrow> sc_ok (setcover_new sigs)"
  by (simp add: setcover_new_def sc_ok_def matrix_ok_def)

section \<open>Lighter solutions\<close>

text \<open>A set of signals covers the rows when every row has one of their columns.\<close>

definition sig_covers :: "setcover \<Rightarrow> nat set \<Rightarrow> bool" where
  "sig_covers s S \<longleftrightarrow> (\<forall>i<row_size s. \<exists>j<col_size s. signals s ! j \<in> S \<and> i \<in> col_set s j)"

lemma classify_bound:
  "(c, t) \<in> set (classify weight excluded included col sigs k l) \<Longrightarrow> c < col + length sigs"
proof (induction sigs arbitrary: col k l)
  case (Cons sig sigs)
  consider "c = col" | k' l' where "(c, t) \<in> set (classify weight excluded included (col + 1) sigs k' l')"
    using Cons.prems by (auto simp: Let_def split: if_splits)
  then show ?case
  proof cases
    case (2 k' l')
    from Cons.IH [OF this] show ?thesis by simp
  qed simp
qed simp

lemma exclude_cols_sol [simp]: "cur_sol (exclude_cols n ps r) = cur_sol r"
proof -
  have "cur_sol (fold (\<lambda>c r. r\<lparr>cols := f c r, rows := g c r\<rparr>) ps r) = cur_sol r" for f g
    by (induction ps arbitrary: r) simp_all
  then show ?thesis by (simp add: exclude_cols_def)
qed

text \<open>With \<open>wri_pvalue = 0\<close> the given solution gets the included columns it does not have.\<close>

lemma InExcludeSigs_sol:
  assumes "length (signals s) = c" "InExcludeSigs oob weight s ex inc False r = (ans, inex, r')"
  shows "set (cur_sol r) \<subseteq> set (cur_sol r') \<and> set (cur_sol r') \<subseteq> set (cur_sol r) \<union> {..<c}"
proof -
  have inc: "set (cur_sol r) \<subseteq> set (cur_sol (include_cols oob False ps r)) \<and>
      set (cur_sol (include_cols oob False ps r)) \<subseteq> set (cur_sol r) \<union> set ps" for ps and r :: run
  proof -
    have "set (cur_sol r) \<subseteq> set (cur_sol (fold (\<lambda>c r. if c \<in> set (cur_sol r) then r else r\<lparr>cur_sol := cur_sol r @ [c]\<rparr>) ps r)) \<and>
      set (cur_sol (fold (\<lambda>c r. if c \<in> set (cur_sol r) then r else r\<lparr>cur_sol := cur_sol r @ [c]\<rparr>) ps r)) \<subseteq> set (cur_sol r) \<union> set ps"
    proof (induction ps arbitrary: r)
      case (Cons p ps)
      from Cons.IH [of "if p \<in> set (cur_sol r) then r else r\<lparr>cur_sol := cur_sol r @ [p]\<rparr>"] show ?case by (auto split: if_splits)
    qed simp
    then show ?thesis by (simp add: include_cols_def)
  qed
  have bound: "set (marked t (classify weight ex' inc' 0 (signals s) 0 0)) \<subseteq> {..<c}" for t ex' inc'
    using classify_bound [of _ _ weight ex' inc' 0 "signals s" 0 0] assms(1) by (fastforce simp: marked_def)
  define common where "common = (if ex \<noteq> [] \<and> inc \<noteq> [] then set_intersection ex inc else [])"
  define marks where "marks = classify weight (fold remove1 common ex) (fold remove1 common inc) 0 (signals s) 0 0"
  define im where "im = marked IncludedFlag marks"
  define r0 where "r0 = (if marked ExcludedFlag marks \<noteq> [] then exclude_cols (row_size s) (marked ExcludedFlag marks) r else r)"
  have im: "set im \<subseteq> {..<c}" unfolding im_def marks_def by (rule bound)
  have sol0: "cur_sol r0 = cur_sol r" by (simp add: r0_def)
  have "InExcludeSigs oob weight s ex inc False r =
      (let inex = fold (\<lambda>(c, t) inex. inex[c := t]) marks (replicate (col_size s) No_In_Ex) in
       if marked ExcludedFlag marks \<noteq> [] \<and> (\<exists>v\<in>set (rows r0). counter v = 0) then (False, inex, r0)
       else (True, inex, if im \<noteq> [] then include_cols oob False im r0 else r0))"
    by (simp add: InExcludeSigs_def Let_def r0_def im_def flip: common_def marks_def)
  then have "r' = r0 \<or> r' = include_cols oob False im r0"
    using assms(2) by (auto simp: Let_def split: if_splits)
  then show ?thesis
  proof
    assume "r' = r0"
    then show ?thesis using sol0 by simp
  next
    assume "r' = include_cols oob False im r0"
    then show ?thesis using inc [of r0 im] sol0 im by auto
  qed
qed

lemma start_sol_eq:
  assumes "distinct (signals s)" "length (signals s) = col_size s"
  shows "start_sol weight s cands = filter (\<lambda>c. weight (signals s ! c) \<noteq> 0 \<and> signals s ! c \<in> set cands) [0..<col_size s]"
proof -
  let ?f = "filter (\<lambda>c. weight (signals s ! c) \<noteq> 0 \<and> signals s ! c \<in> set cands) [0..<col_size s]"
  have "inj_on ((!) (signals s)) (set ?f)" using assms by (auto intro!: inj_onI simp: nth_eq_iff_index_eq)
  then have "card (set ?f) \<le> card (set cands)" by (rule card_inj_on_le) auto
  moreover have "length ?f = card (set ?f)" by (rule distinct_card [symmetric]) simp
  ultimately show ?thesis using card_length [of cands] by (simp add: start_sol_def)
qed

lemma solves_sig_covers:
  assumes "solves (row_size s) (pvalues_col s) sol" "\<forall>p\<in>set sol. p < col_size s"
  shows "sig_covers s (set (map ((!) (signals s)) sol))"
  unfolding sig_covers_def
proof (intro allI impI)
  fix i assume "i < row_size s"
  then have "i \<in> union_of (pvalues_col s) sol" using assms(1) by (simp add: solves_def)
  then obtain p where p: "p \<in> set sol" "i \<in> col_set s p" by (auto simp: union_of_def)
  then show "\<exists>j<col_size s. signals s ! j \<in> set (map ((!) (signals s)) sol) \<and> i \<in> col_set s j"
    using assms(2) by (intro exI [of _ p]) simp
qed

text \<open>\<open>lighten\<close> keeps the old signals unless the new ones are lighter, or fewer with the same weight.\<close>

lemma lighten_ok:
  assumes pr: "problem_ok (row_size s) (pvalues_col s)" and len: "length (signals s) = col_size s" "length (pvalues_col s) = col_size s"
    and sol: "\<forall>p\<in>set sol. p < col_size s" "solves (row_size s) (pvalues_col s) sol" and cur: "sig_covers s (set cands)"
  shows "\<exists>new. lighten weight s cands inex sol = Some (True, new) \<and> sig_covers s (set new) \<and>
    (new = cands \<or> sum_weight weight new < sum_weight weight cands \<or>
     sum_weight weight new = sum_weight weight cands \<and> length new < length cands)"
proof -
  let ?m = "pvalues_col s"
  have sol': "cols_in ?m sol" "sol \<noteq> []" using sol(1) len(2) solves_nonempty [OF pr sol(2)] by (simp_all add: cols_in_def)
  obtain r where r: "ReduceWeightReplace11_Traverse (weights_of weight s) ?m inex sol = Some (sol_weight (weights_of weight s) r, r)"
    "lightens (weights_of weight s) (row_size s) ?m inex sol r"
    using Traverse11_ok [OF pr sol'(1) sol(2) sol'(2)] by blast
  have c: "cols_in ?m r" "solves (row_size s) ?m r" using r(2) by (simp_all add: lightens_def)
  have cov: "sig_covers s (set (map ((!) (signals s)) r))"
    using c len(2) by (intro solves_sig_covers) (simp_all add: cols_in_def)
  have lite: "IsSolutionLite ?m (nomask ?m) r" using Lite_solves [OF pr c(1)] c(2) by simp
  define nw where "nw = map ((!) (signals s)) r"
  define new where "new = (if sum_weight weight cands < sum_weight weight nw \<or>
      sum_weight weight nw = sum_weight weight cands \<and> length cands \<le> length nw then cands else nw)"
  have "lighten weight s cands inex sol = Some (True, new)" using r(1) lite by (simp add: lighten_def new_def nw_def Let_def)
  moreover have "sig_covers s (set new)" using cov cur by (simp add: new_def nw_def del: set_map)
  moreover have "new = cands \<or> sum_weight weight new < sum_weight weight cands \<or>
      sum_weight weight new = sum_weight weight cands \<and> length new < length cands"
    unfolding new_def by auto
  ultimately show ?thesis by blast
qed

lemma OptimizeWeight_ok:
  fixes weight :: "nat \<Rightarrow> int" and cands :: "nat list"
  assumes sc: "sc_ok s" and n: "row_size s mod 64 \<noteq> 0" "col_size s \<noteq> 0" and dist: "distinct (signals s)"
  defines "usable \<equiv> sig_covers s {sig \<in> set cands. weight sig \<noteq> 0}"
  shows "\<exists>new. OptimizeWeight oob weight s cands ex inc = Some (usable, new) \<and>
    (if usable then sig_covers s (set new) \<and>
       (new = cands \<or> sum_weight weight new < sum_weight weight cands \<or>
        sum_weight weight new = sum_weight weight cands \<and> length new < length cands)
     else new = cands)"
proof -
  let ?m = "pvalues_col s" and ?sol = "start_sol weight s cands"
  note s = sc_okD [OF sc]
  have n0: "row_size s \<noteq> 0" using n(1) by (cases "row_size s = 0") simp_all
  then have len: "length ?m = col_size s" using s(7) by simp
  then have pr: "problem_ok (row_size s) ?m" using s(6) n by (auto simp: problem_ok_def)
  note sol_eq = start_sol_eq [OF dist s(3), of weight cands]
  have sol: "\<forall>p\<in>set ?sol. p < col_size s" unfolding sol_eq by simp
  then have sol_in: "cols_in ?m ?sol" using len by (simp add: cols_in_def)
  have sub: "union_of ?m ?sol \<subseteq> {..<row_size s}"
  proof -
    have "col_set s j \<subseteq> {..<row_size s}" if "j < col_size s" for j
      using matrix_okD [OF s(6), of j] bv.elems_width [of "?m ! j"] len that by simp
    then show ?thesis using sol unfolding union_of_def by (intro UN_least) simp
  qed
  have "solves (row_size s) ?m ?sol \<longleftrightarrow> {..<row_size s} \<subseteq> union_of ?m ?sol" using sub unfolding solves_def by blast
  also have "\<dots> \<longleftrightarrow> usable"
  proof -
    have "i \<in> union_of ?m ?sol \<longleftrightarrow> (\<exists>j<col_size s. signals s ! j \<in> {sig \<in> set cands. weight sig \<noteq> 0} \<and> i \<in> col_set s j)" for i
      unfolding union_of_def sol_eq by auto
    then show ?thesis unfolding usable_def sig_covers_def by (simp only: subset_eq lessThan_iff Ball_def)
  qed
  finally have lite: "IsSolutionLite ?m (nomask ?m) ?sol \<longleftrightarrow> usable" "solves (row_size s) ?m ?sol \<longleftrightarrow> usable"
    using Lite_solves [OF pr sol_in] by simp_all
  have nil: "\<not> usable" if "cands = []" using that n0 by (auto simp: usable_def sig_covers_def)
  show ?thesis
  proof (cases usable)
    case False
    then show ?thesis using lite(1) by (simp add: OptimizeWeight_def Let_def)
  next
    case True
    let ?r = "(start_run s)\<lparr>cols := replicate (col_size s) bv_empty, cur_sol := ?sol\<rparr>"
    obtain ans inex r' where ie: "InExcludeSigs oob weight s ex inc False ?r = (ans, inex, r')" by (metis prod_cases3)
    have sets: "set ?sol \<subseteq> set (cur_sol r')" "set (cur_sol r') \<subseteq> set ?sol \<union> {..<col_size s}"
      using InExcludeSigs_sol [OF s(3) ie] by simp_all
    have in': "\<forall>p\<in>set (cur_sol r'). p < col_size s" using sets(2) sol by (auto dest: subsetD)
    then have "cols_in ?m (cur_sol r')" using len by (simp add: cols_in_def)
    then have "solves (row_size s) ?m (cur_sol r')"
      by (rule solves_mono [OF pr _ _ sets(1)]) (use lite(2) True in simp)
    moreover have "sig_covers s (set cands)" using True unfolding usable_def sig_covers_def by blast
    ultimately obtain new where "lighten weight s cands inex (cur_sol r') = Some (True, new)" "sig_covers s (set new)"
      "new = cands \<or> sum_weight weight new < sum_weight weight cands \<or>
        sum_weight weight new = sum_weight weight cands \<and> length new < length cands"
      using lighten_ok [OF pr s(3) len in'] by blast
    moreover have "OptimizeWeight oob weight s cands ex inc = lighten weight s cands inex (cur_sol r')"
      using True lite(1) nil ie by (cases "cands = []") (simp_all add: OptimizeWeight_def)
    ultimately show ?thesis using True by (intro exI [of _ new]) simp
  qed
qed

section \<open>Correctness\<close>

text \<open>
  C36 (type). \<open>AddRows\<close> keeps the representation of the matrix, in which rows and columns agree and all counts
  are right: the old rows are unchanged, the new ones are those of the table.
\<close>

theorem AddRows_correct:
  assumes "sc_ok s" "row_size s + length Rows < 2 ^ 31"
  shows "sc_ok (AddRows Rows s) \<and> row_size (AddRows Rows s) = row_size s + length Rows \<and>
    col_size (AddRows Rows s) = col_size s \<and>
    (\<forall>i<row_size s. bv_set (pvalues_row (AddRows Rows s) ! i) = bv_set (pvalues_row s ! i)) \<and>
    (\<forall>k<length Rows. bv_set (pvalues_row (AddRows Rows s) ! (row_size s + k)) = {j. j < col_size s \<and> Rows ! k ! j})"
  using AddRows_ok [OF assms] by simp

text \<open>Two signals and two rows, one for each of them.\<close>

abbreviation two_rows :: "bool list list" where
  "two_rows \<equiv> [[True, False], [False, True]]"

abbreviation two_sc :: setcover where
  "two_sc \<equiv> AddRows two_rows (setcover_new [10, 11])"

lemma two_sc:
  "sc_ok two_sc \<and> row_size two_sc = 2 \<and> col_size two_sc = 2 \<and> signals two_sc = [10, 11] \<and> col_set two_sc 0 = {0} \<and> col_set two_sc 1 = {1}"
proof -
  have new: "sc_ok (setcover_new [10, 11])" "row_size (setcover_new [10, 11]) = 0" "col_size (setcover_new [10, 11]) = 2"
      "signals (setcover_new [10, 11]) = [10, 11]"
    using setcover_new_ok [of "[10, 11]"] by (simp_all add: setcover_new_def)
  have ok: "sc_ok two_sc \<and> row_size two_sc = 2 \<and> col_size two_sc = 2 \<and> signals two_sc = [10, 11] \<and>
      (\<forall>i<2. bv_set (pvalues_row two_sc ! i) = {j. j < 2 \<and> two_rows ! i ! j})"
    using AddRows_ok [OF new(1), of two_rows] new(2-4) by simp
  then have sc: "sc_ok two_sc" and size: "row_size two_sc = 2" "col_size two_sc = 2" "signals two_sc = [10, 11]"
    and rows: "\<forall>i<2. bv_set (pvalues_row two_sc ! i) = {j. j < 2 \<and> two_rows ! i ! j}" by blast+
  note s = sc_okD [OF sc, unfolded size]
  have mem: "i \<in> col_set two_sc j \<longleftrightarrow> two_rows ! i ! j" if "i < 2" "j < 2" for i j
    using s(8) [OF that] rows that by simp
  have two: "i < 2 \<longleftrightarrow> i = 0 \<or> i = 1" for i :: nat by auto
  have sub: "col_set two_sc j \<subseteq> {..<2}" if "j < 2" for j
    using matrix_okD [OF s(6), of j] s(7) bv.elems_width [of "pvalues_col two_sc ! j"] that by simp
  have "col_set two_sc 0 = {0}"
  proof (rule set_eqI)
    show "i \<in> col_set two_sc 0 \<longleftrightarrow> i \<in> {0}" for i using sub [of 0] mem [of i 0] two [of i] by auto
  qed
  moreover have "col_set two_sc 1 = {1}"
  proof (rule set_eqI)
    show "i \<in> col_set two_sc 1 \<longleftrightarrow> i \<in> {1}" for i using sub [of 1] mem [of i 1] two [of i] by auto
  qed
  ultimately show ?thesis using sc size by blast
qed

theorem AddRows_witness:
  "sc_ok (AddRows [[True, True]] two_sc) \<and> bv_set (pvalues_row (AddRows [[True, True]] two_sc) ! 2) = {0, 1}"
proof -
  have s: "sc_ok two_sc" "row_size two_sc = 2" "col_size two_sc = 2" using two_sc by blast+
  have "{j. j < 2 \<and> [[True, True]] ! 0 ! j} = {0, 1 :: nat}" by (auto simp: less_2_cases_iff)
  then show ?thesis using AddRows_correct [OF s(1), of "[[True, True]]"] s(2,3) by simp
qed

text \<open>
  C1 (liveness). The matrix is well-formed, its signals are distinct, its number of rows is not a multiple of 64
  (for a multiple the covering test also accepts the last 64 rows left open), and the list of included signals
  is empty (when included signals alone cover everything, the code reads element 0 of an empty list). Then
  \<open>SolveMinCol\<close> returns 1 with a cover whenever every row has a column with a signal that is neither excluded nor
  of weight 0: its loop ends, no reduction runs forever or reads outside a vector, and no excluded signal is
  selected. The version without lists returns 1 with a cover, too.
\<close>

theorem SolveMinCol_correct:
  assumes "sc_ok s" "row_size s mod 64 \<noteq> 0" "distinct (signals s)"
    and "\<forall>i<row_size s. \<exists>j<col_size s. signals s ! j \<notin> set excluded \<and> weight (signals s ! j) \<noteq> 0 \<and> i \<in> bv_set (pvalues_col s ! j)"
  shows "(\<exists>sol. SolveMinCol oob weight s excluded [] = Some (True, sol) \<and>
      (\<Union>p\<in>set sol. bv_set (pvalues_col s ! p)) = {..<row_size s} \<and>
      (\<forall>p\<in>set sol. p < col_size s \<and> signals s ! p \<notin> set excluded)) \<and>
    (\<exists>sol. SolveMinCol_free oob weight s = Some (True, sol) \<and>
      (\<Union>p\<in>set sol. bv_set (pvalues_col s ! p)) = {..<row_size s} \<and> (\<forall>p\<in>set sol. p < col_size s))"
proof
  have cov: "\<forall>i<row_size s. \<exists>j<col_size s. j \<notin> out_cols weight s ex \<and> i \<in> col_set s j" if "set ex \<subseteq> set excluded" for ex
    using assms(4) out_cols(1) [of _ weight s ex] that by blast
  obtain sol where sol: "SolveMinCol oob weight s excluded [] = Some (True, sol)" "solves (row_size s) (pvalues_col s) sol"
    "\<forall>p\<in>set sol. p < col_size s \<and> p \<notin> out_cols weight s excluded"
    using SolveMinCol_ok [OF assms(1,2) cov [OF subset_refl], of oob] by blast
  then have "\<forall>p\<in>set sol. p < col_size s \<and> signals s ! p \<notin> set excluded"
    using out_cols(2) [OF assms(3), of _ excluded weight] sc_okD(3) [OF assms(1)] by auto
  then show "\<exists>sol. SolveMinCol oob weight s excluded [] = Some (True, sol) \<and>
      (\<Union>p\<in>set sol. bv_set (pvalues_col s ! p)) = {..<row_size s} \<and>
      (\<forall>p\<in>set sol. p < col_size s \<and> signals s ! p \<notin> set excluded)"
    using sol(1,2) by (auto simp: solves_def union_of_def)
  show "\<exists>sol. SolveMinCol_free oob weight s = Some (True, sol) \<and>
      (\<Union>p\<in>set sol. bv_set (pvalues_col s ! p)) = {..<row_size s} \<and> (\<forall>p\<in>set sol. p < col_size s)"
    using SolveMinCol_free_ok [OF assms(1,2) cov [of "[]"], of oob] by (auto simp: solves_def union_of_def)
qed

theorem SolveMinCol_witness:
  "(\<exists>sol. SolveMinCol 0 (\<lambda>_. 1) two_sc [12] [] = Some (True, sol) \<and> set sol = {0, 1}) \<and>
   (\<exists>sol. SolveMinCol_free 0 (\<lambda>_. 1) two_sc = Some (True, sol) \<and> set sol = {0, 1})"
proof -
  have s: "sc_ok two_sc" "row_size two_sc = 2" "col_size two_sc = 2" "signals two_sc = [10, 11]"
    "col_set two_sc 0 = {0}" "col_set two_sc 1 = {1}" using two_sc by blast+
  have two: "i < 2 \<longleftrightarrow> i = 0 \<or> i = 1" for i :: nat by auto
  have diag: "i \<in> col_set two_sc i" if "i < 2" for i
    using that s(5,6) by (elim less_2_cases [THEN disjE]) (simp_all only: One_nat_def singletonI)
  have "\<forall>i<2. \<exists>j<2. [10, 11] ! j \<notin> set [12 :: nat] \<and> (1 :: int) \<noteq> 0 \<and> i \<in> col_set two_sc j"
  proof (intro allI impI exI conjI)
    fix i :: nat assume i: "i < 2"
    show "[10, 11] ! i \<notin> set [12 :: nat]" using two [of i] i by auto
    show "i \<in> col_set two_sc i" by (rule diag [OF i])
  qed simp_all
  then have h: "\<forall>i<row_size two_sc. \<exists>j<col_size two_sc. signals two_sc ! j \<notin> set [12] \<and> (1 :: int) \<noteq> 0 \<and> i \<in> col_set two_sc j"
    unfolding s(2-4) .
  have all: "set sol = {0, 1}" if "(\<Union>p\<in>set sol. col_set two_sc p) = {..<2}" "\<forall>p\<in>set sol. p < 2" for sol
  proof
    show "set sol \<subseteq> {0, 1}"
    proof
      fix x assume "x \<in> set sol"
      then have "x < 2" using that(2) by (rule bspec [rotated])
      then show "x \<in> {0, 1}" using two [of x] by simp
    qed
    have "0 \<in> (\<Union>p\<in>set sol. col_set two_sc p)" "1 \<in> (\<Union>p\<in>set sol. col_set two_sc p)" unfolding that(1) by simp_all
    then obtain p q where pq: "p \<in> set sol" "0 \<in> col_set two_sc p" "q \<in> set sol" "1 \<in> col_set two_sc q" by blast
    have lt: "p < 2" "q < 2" using pq(1,3) that(2) by simp_all
    have "p = 0"
    proof (rule ccontr)
      assume "p \<noteq> 0"
      then have "p = 1" using two [of p] lt(1) by simp
      then have "0 \<in> col_set two_sc 1" using pq(2) by (simp only:)
      then show False unfolding s(6) by simp
    qed
    moreover have "q = 1"
    proof (rule ccontr)
      assume "q \<noteq> 1"
      then have "q = 0" using two [of q] lt(2) by simp
      then have "1 \<in> col_set two_sc 0" using pq(4) by (simp only:)
      then show False unfolding s(5) by simp
    qed
    ultimately show "{0, 1} \<subseteq> set sol" using pq(1,3) by simp
  qed
  have "row_size two_sc mod 64 \<noteq> 0" "distinct (signals two_sc)" using s(2,4) by simp_all
  note c = SolveMinCol_correct [OF s(1) this h, of 0, unfolded s(2,3)]
  have ex: "\<exists>sol. P sol \<and> set sol = {0, 1}"
    if e: "\<exists>sol. P sol \<and> (\<Union>p\<in>set sol. col_set two_sc p) = {..<2} \<and> (\<forall>p\<in>set sol. p < 2 \<and> Q p)" for P and Q :: "nat \<Rightarrow> bool"
  proof -
    obtain sol where sol: "P sol" "(\<Union>p\<in>set sol. col_set two_sc p) = {..<2}" "\<forall>p\<in>set sol. p < 2 \<and> Q p"
      using e by (elim exE conjE) (rule that)
    have "\<forall>p\<in>set sol. p < 2" using sol(3) by simp
    then show ?thesis using all [OF sol(2)] sol(1) by (intro exI [of _ sol]) simp
  qed
  have "\<exists>sol. SolveMinCol_free 0 (\<lambda>_. 1) two_sc = Some (True, sol) \<and> (\<Union>p\<in>set sol. col_set two_sc p) = {..<2} \<and>
      (\<forall>p\<in>set sol. p < 2 \<and> True)" using conjunct2 [OF c] by (simp only: simp_thms)
  from ex [OF conjunct1 [OF c]] ex [OF this] show ?thesis by (rule conjI)
qed

text \<open>
  C7 (functional). On a well-formed matrix with distinct signals, at least one column and a number of rows that
  is not a multiple of 64, \<open>OptimizeWeight\<close> returns, whatever the lists of given, excluded and included signals.
  Its answer says whether the given signals of nonzero weight cover all rows (given signals of weight 0 do not
  count); then the new ones cover all rows, and they are the old ones, or lighter, or fewer of the same weight.
  Otherwise the signals are unchanged.
\<close>

theorem OptimizeWeight_correct:
  assumes "sc_ok s" "row_size s mod 64 \<noteq> 0" "col_size s \<noteq> 0" "distinct (signals s)"
  shows "\<exists>ans new. OptimizeWeight oob weight s cands excluded included = Some (ans, new) \<and>
    ans = (\<forall>i<row_size s. \<exists>j<col_size s. signals s ! j \<in> set cands \<and> weight (signals s ! j) \<noteq> 0 \<and> i \<in> bv_set (pvalues_col s ! j)) \<and>
    (if ans then (\<forall>i<row_size s. \<exists>j<col_size s. signals s ! j \<in> set new \<and> i \<in> bv_set (pvalues_col s ! j)) \<and>
       (new = cands \<or> (\<Sum>sig\<leftarrow>new. weight sig) < (\<Sum>sig\<leftarrow>cands. weight sig) \<or>
        (\<Sum>sig\<leftarrow>new. weight sig) = (\<Sum>sig\<leftarrow>cands. weight sig) \<and> length new < length cands)
     else new = cands)"
proof -
  let ?usable = "sig_covers s {sig \<in> set cands. weight sig \<noteq> 0}"
  have eq: "?usable = (\<forall>i<row_size s. \<exists>j<col_size s. signals s ! j \<in> set cands \<and> weight (signals s ! j) \<noteq> 0 \<and> i \<in> col_set s j)"
    by (simp add: sig_covers_def)
  obtain new where "OptimizeWeight oob weight s cands excluded included = Some (?usable, new)"
    "if ?usable then sig_covers s (set new) \<and>
       (new = cands \<or> sum_weight weight new < sum_weight weight cands \<or>
        sum_weight weight new = sum_weight weight cands \<and> length new < length cands)
     else new = cands" using OptimizeWeight_ok [OF assms, of oob weight cands excluded included] by (rule exE) (erule conjE, rule that)
  then show ?thesis by (intro exI [of _ ?usable] exI [of _ new] conjI eq) (simp_all only: sig_covers_def sum_weight_def)
qed

theorem OptimizeWeight_witness:
  "\<exists>new. OptimizeWeight 0 (\<lambda>_. 3) two_sc [10, 11] [12] [11] = Some (True, new) \<and> (\<Sum>sig\<leftarrow>new. 3 :: int) \<le> 6"
proof -
  have s: "sc_ok two_sc" "row_size two_sc = 2" "col_size two_sc = 2" "signals two_sc = [10, 11]"
    "col_set two_sc 0 = {0}" "col_set two_sc 1 = {1}" using two_sc by blast+
  have two: "i < 2 \<longleftrightarrow> i = 0 \<or> i = 1" for i :: nat by auto
  have diag: "i \<in> col_set two_sc i" if "i < 2" for i
    using that s(5,6) by (elim less_2_cases [THEN disjE]) (simp_all only: One_nat_def singletonI)
  have cov: "\<forall>i<2. \<exists>j<2. [10, 11] ! j \<in> set [10, 11 :: nat] \<and> (3 :: int) \<noteq> 0 \<and> i \<in> col_set two_sc j"
  proof (intro allI impI exI conjI)
    fix i :: nat assume i: "i < 2"
    show "[10, 11] ! i \<in> set [10, 11 :: nat]" using two [of i] i by auto
    show "i \<in> col_set two_sc i" by (rule diag [OF i])
  qed simp_all
  have "row_size two_sc mod 64 \<noteq> 0" "col_size two_sc \<noteq> 0" "distinct (signals two_sc)" using s(2-4) by simp_all
  note opt = OptimizeWeight_correct [OF s(1) this, of 0 "\<lambda>_. 3" "[10, 11]" "[12]" "[11]", unfolded s(2-4)]
  obtain ans new where o: "OptimizeWeight 0 (\<lambda>_. 3) two_sc [10, 11] [12] [11] = Some (ans, new)"
    "ans = (\<forall>i<2. \<exists>j<2. [10, 11] ! j \<in> set [10, 11 :: nat] \<and> (3 :: int) \<noteq> 0 \<and> i \<in> col_set two_sc j)"
    "if ans then (\<forall>i<2. \<exists>j<2. [10, 11] ! j \<in> set new \<and> i \<in> col_set two_sc j) \<and>
       (new = [10, 11] \<or> (\<Sum>sig\<leftarrow>new. 3 :: int) < (\<Sum>sig\<leftarrow>[10, 11 :: nat]. 3) \<or>
        (\<Sum>sig\<leftarrow>new. 3 :: int) = (\<Sum>sig\<leftarrow>[10, 11 :: nat]. 3) \<and> length new < length [10, 11 :: nat])
     else new = [10, 11]" using opt by (elim exE conjE) (rule that)
  have ans using o(2) cov by (rule ssubst)
  then have "new = [10, 11] \<or> (\<Sum>sig\<leftarrow>new. 3 :: int) < (\<Sum>sig\<leftarrow>[10, 11 :: nat]. 3) \<or>
     (\<Sum>sig\<leftarrow>new. 3 :: int) = (\<Sum>sig\<leftarrow>[10, 11 :: nat]. 3) \<and> length new < length [10, 11 :: nat]" using o(3) by (simp only: if_True)
  then have "(\<Sum>sig\<leftarrow>new. 3 :: int) \<le> 6" by auto
  then show ?thesis using o(1) \<open>ans\<close> by simp
qed

end
