(* ===== verification/Sc_Greedy.thy ===== *)
theory Sc_Greedy
  imports Sc_Solve
begin

text \<open>
  \<open>src/setcover/setcover_m.cpp\<close>: the greedy selection of merge candidates, nodes or clusters, whose inputs are columns of
  a matrix like that of \<open>setcover\<close>. The locale \<open>greedy_choice\<close> holds what greedy choices have in common, among it the
  bound on their number; the class is an instance of it.
\<close>

section \<open>The code\<close>

text \<open>
  A candidate is a node or a cluster, known by its address, with its input nodes. Nodes are addresses as
  well; \<open>name\<close> gives the name of each. The members that the class shares with \<open>setcover\<close>, and the part of
  \<open>AddRows\<close> that is the same line by line, are those of \<open>setcover\<close>: \<open>base\<close>.
\<close>

record cand =
  addr :: nat
  inputs :: "nat list"

record setcover_m =
  base :: setcover
  cands :: "cand list"
  node_pos :: "string \<rightharpoonup> nat"
  mask :: bitvector

definition setcover_m_new :: "(nat \<Rightarrow> string) \<Rightarrow> cand list \<Rightarrow> nat list \<Rightarrow> setcover_m" where
  "setcover_m_new name cands_in sig_inputs =
    \<lparr>base = setcover_new sig_inputs, cands = cands_in,
     node_pos = fold (\<lambda>i pos. pos(name (sig_inputs ! i) \<mapsto> i)) [0..<length sig_inputs] Map.empty, mask = bv_empty\<rparr>"

definition AddRows_m :: "bool list list \<Rightarrow> setcover_m \<Rightarrow> setcover_m" where
  "AddRows_m Rows s =
    (let b = AddRows Rows (base s) in s\<lparr>base := b, mask := bv_set_size (row_size b) (mask s)\<rparr>)"

text \<open>
  \<open>operator []\<close> of the map stores 0 for a name that is not there, which later look-ups return as well: an
  unknown node is taken for the first one.
\<close>

definition pos_of :: "(nat \<Rightarrow> string) \<Rightarrow> setcover_m \<Rightarrow> nat \<Rightarrow> nat" where
  "pos_of name s node = (case node_pos s (name node) of Some i \<Rightarrow> i | None \<Rightarrow> 0)"

definition GenOr :: "(nat \<Rightarrow> string) \<Rightarrow> setcover_m \<Rightarrow> nat list \<Rightarrow> bitvector \<Rightarrow> bitvector" where
  "GenOr name s nodes mask_tmp = fold (\<lambda>node. bv_or_count (pvalues_col (base s) ! pos_of name s node)) nodes mask_tmp"

text \<open>The loop over the candidates keeps the first one with the most rows that are not covered yet.\<close>

definition best_step ::
    "(nat \<Rightarrow> string) \<Rightarrow> setcover_m \<Rightarrow> cand \<Rightarrow> nat \<times> bitvector \<times> cand option \<Rightarrow> nat \<times> bitvector \<times> cand option" where
  "best_step name s c = (\<lambda>(max_cover, mask_selected, node_selected).
    let mask_tmp = bv_mask_count (mask s) (GenOr name s (inputs c) (bv_new (row_size (base s))))
    in if max_cover < counter mask_tmp then (counter mask_tmp, bv_copy mask_tmp mask_selected, Some c)
       else (max_cover, mask_selected, node_selected))"

definition best_cand :: "(nat \<Rightarrow> string) \<Rightarrow> setcover_m \<Rightarrow> (cand \<times> setcover_m) option" where
  "best_cand name s =
    (case fold (best_step name s) (cands s) (0, bv_empty, None) of
       (max_cover, mask_selected, Some c) \<Rightarrow>
         if 0 < max_cover then Some (c, s\<lparr>mask := bv_or_count mask_selected (mask s)\<rparr>) else None
     | _ \<Rightarrow> None)"

definition SelectOnce ::
    "(nat \<Rightarrow> string) \<Rightarrow> setcover_m \<Rightarrow> cand list \<Rightarrow> nat set \<Rightarrow> bool \<times> setcover_m \<times> cand list \<times> nat set" where
  "SelectOnce name s selected selected_inputs =
    (case best_cand name s of
       Some (c, s) \<Rightarrow> (True, s, selected @ [c], selected_inputs \<union> set (inputs c))
     | None \<Rightarrow> (False, s, selected, selected_inputs))"

text \<open>
  The loops of both functions \<open>Select\<close>. The answer is \<open>False\<close> for \<open>return 0\<close>; behind the loop (\<open>True\<close>) they do not
  return a value. \<open>over\<close> is the comparison with the limit, which is converted to an unsigned number.
\<close>

partial_function (option) select_loop ::
    "(nat \<Rightarrow> string) \<Rightarrow> (nat \<Rightarrow> bool) \<Rightarrow> setcover_m \<Rightarrow> cand list \<Rightarrow> nat set \<Rightarrow> (bool \<times> setcover_m \<times> cand list \<times> nat set) option" where
  "select_loop name over s selected selected_inputs =
    (if counter (mask s) \<noteq> row_size (base s) then
       case SelectOnce name s selected selected_inputs of
         (one, s, selected, selected_inputs) \<Rightarrow>
           if \<not> one \<or> over (length selected) then Some (False, s, [], {})
           else select_loop name over s selected selected_inputs
     else Some (True, s, selected, selected_inputs))"

definition Select ::
    "(nat \<Rightarrow> string) \<Rightarrow> setcover_m \<Rightarrow> cand list \<Rightarrow> nat set \<Rightarrow> (bool \<times> setcover_m \<times> cand list \<times> nat set) option" where
  "Select name = select_loop name (\<lambda>_. False)"

definition Select_limit ::
    "(nat \<Rightarrow> string) \<Rightarrow> int \<Rightarrow> setcover_m \<Rightarrow> cand list \<Rightarrow> nat set \<Rightarrow> (bool \<times> setcover_m \<times> cand list \<times> nat set) option" where
  "Select_limit name limit = select_loop name (\<lambda>k. limit mod 2 ^ 64 < int k)"

section \<open>Greedy choices\<close>

text \<open>A run of choices, each made while some row is not covered.\<close>

inductive picks :: "('s \<Rightarrow> ('c \<times> 's) option) \<Rightarrow> ('s \<Rightarrow> 'r set) \<Rightarrow> 'r set \<Rightarrow> 's \<Rightarrow> 'c list \<Rightarrow> 's \<Rightarrow> bool"
  for ch :: "'s \<Rightarrow> ('c \<times> 's) option" and cov :: "'s \<Rightarrow> 'r set" and U :: "'r set"
where
  picks_Nil: "picks ch cov U s [] s"
| picks_Cons: "cov s \<noteq> U \<Longrightarrow> ch s = Some (c, s') \<Longrightarrow> picks ch cov U s' cs t \<Longrightarrow> picks ch cov U s (c # cs) t"

inductive_cases picks_ConsE: "picks ch cov U s (c # cs) t"

text \<open>
  A choice is greedy when it covers as many of the rows that are left as any candidate, and is made
  whenever a candidate covers one of them.
\<close>

locale greedy_choice =
  fixes inv :: "'s \<Rightarrow> bool" and cov :: "'s \<Rightarrow> 'r set" and U :: "'r set" and cover :: "'c \<Rightarrow> 'r set" and C :: "'c set"
    and ch :: "'s \<Rightarrow> ('c \<times> 's) option"
  assumes finite_U: "finite U"
    and within: "inv s \<Longrightarrow> cov s \<subseteq> U \<and> (\<forall>d\<in>C. cover d \<subseteq> U)"
    and ch_Some: "inv s \<Longrightarrow> ch s = Some (c, s') \<Longrightarrow> inv s' \<and> c \<in> C \<and> cov s' = cov s \<union> cover c \<and> cover c - cov s \<noteq> {} \<and>
      (\<forall>d\<in>C. card (cover d - cov s) \<le> card (cover c - cov s))"
    and ch_None: "inv s \<Longrightarrow> ch s = None \<Longrightarrow> d \<in> C \<Longrightarrow> cover d \<subseteq> cov s"
begin

text \<open>A choice covers its share of the rows that are left, when \<open>ds\<close> could cover them all.\<close>

lemma share:
  assumes "inv s" "ch s = Some (c, s')" "set ds \<subseteq> C" "U = cov s \<union> (\<Union>d\<in>set ds. cover d)"
  shows "card (U - cov s) \<le> length ds * card (cover c - cov s)"
proof -
  have "U - cov s = (\<Union>d\<in>set ds. cover d - cov s)" using assms(4) by blast
  then have "card (U - cov s) \<le> (\<Sum>d\<in>set ds. card (cover d - cov s))" using card_UN_le [of "set ds" "\<lambda>d. cover d - cov s"] by simp
  also have "\<dots> \<le> (\<Sum>d\<in>set ds. card (cover c - cov s))" using ch_Some [OF assms(1,2)] assms(3) by (intro sum_mono) blast
  also have "\<dots> \<le> length ds * card (cover c - cov s)" using card_length [of ds] by simp
  finally show ?thesis .
qed

lemma left_over:
  assumes "inv s" "ch s = Some (c, s')"
  shows "card (U - cov s') + card (cover c - cov s) = card (U - cov s)" "card (U - cov s') < card (U - cov s)"
proof -
  note c = ch_Some [OF assms] and w = within [OF assms(1)]
  have "U - cov s = (U - cov s') \<union> (cover c - cov s)" "(U - cov s') \<inter> (cover c - cov s) = {}" using c w by blast+
  then show eq: "card (U - cov s') + card (cover c - cov s) = card (U - cov s)"
    using finite_U finite_subset [of "cover c - cov s" U] c w by (subst card_Un_disjoint [symmetric]) auto
  have "finite (cover c - cov s)" using finite_U finite_subset [of "cover c - cov s" U] c w by blast
  then have "0 < card (cover c - cov s)" using c by (simp add: card_gt_0_iff)
  then show "card (U - cov s') < card (U - cov s)" using eq by simp
qed

lemma picks_ok:
  assumes "picks ch cov U s cs t" "inv s"
  shows "inv t \<and> set cs \<subseteq> C \<and> cov t = cov s \<union> (\<Union>c\<in>set cs. cover c) \<and> length cs + card (U - cov t) \<le> card (U - cov s)"
  using assms
proof (induction rule: picks.induct)
  case (picks_Cons s c s' cs t)
  note c = ch_Some [OF picks_Cons.prems picks_Cons.hyps(2)]
  then show ?case using picks_Cons.IH left_over(2) [OF picks_Cons.prems picks_Cons.hyps(2)] by auto
qed simp

text \<open>The number of choices, against any \<open>k\<close> candidates that cover the rows: \<open>k ^ (m - 1) \<le> (k - 1) ^ (m - 1) * n\<close>.\<close>

lemma picks_bound:
  assumes "picks ch cov U s cs t" "inv s" "cs \<noteq> []" "set ds \<subseteq> C" "U = cov s \<union> (\<Union>d\<in>set ds. cover d)"
  shows "length ds ^ (length cs - 1) \<le> (length ds - 1) ^ (length cs - 1) * card (U - cov s)"
  using assms
proof (induction rule: picks.induct)
  case (picks_Cons s c s' cs t)
  note c = ch_Some [OF picks_Cons.prems(1) picks_Cons.hyps(2)]
  let ?k = "length ds"
  have pos: "0 < card (U - cov s)" using left_over(2) [OF picks_Cons.prems(1) picks_Cons.hyps(2)] by simp
  show ?case
  proof (cases "cs = []")
    case True
    then show ?thesis using pos by simp
  next
    case False
    have "U = cov s' \<union> (\<Union>d\<in>set ds. cover d)" using c within [of s'] picks_Cons.prems(4) by blast
    then have IH: "?k ^ (length cs - 1) \<le> (?k - 1) ^ (length cs - 1) * card (U - cov s')"
      using c picks_Cons.prems(3) False by (intro picks_Cons.IH) simp_all
    have sh: "card (U - cov s) \<le> ?k * card (cover c - cov s)"
      by (rule share [OF picks_Cons.prems(1) picks_Cons.hyps(2) picks_Cons.prems(3,4)])
    have k: "0 < ?k" using sh pos by (cases "?k = 0") simp_all
    have "?k * card (U - cov s') + ?k * card (cover c - cov s) = ?k * card (U - cov s)"
      using left_over(1) [OF picks_Cons.prems(1) picks_Cons.hyps(2)] by (simp flip: distrib_left)
    moreover have "?k * card (U - cov s) = (?k - 1) * card (U - cov s) + card (U - cov s)" using k by (cases ?k) simp_all
    ultimately have step: "?k * card (U - cov s') \<le> (?k - 1) * card (U - cov s)" using sh by linarith
    have len: "length cs = Suc (length cs - 1)" using False by simp
    have "?k ^ length cs = ?k * ?k ^ (length cs - 1)" by (subst len) simp
    also have "\<dots> \<le> ?k * ((?k - 1) ^ (length cs - 1) * card (U - cov s'))" using IH by (intro mult_le_mono2)
    also have "\<dots> = (?k - 1) ^ (length cs - 1) * (?k * card (U - cov s'))" by simp
    also have "\<dots> \<le> (?k - 1) ^ (length cs - 1) * ((?k - 1) * card (U - cov s))" using step by (intro mult_le_mono2)
    also have "\<dots> = (?k - 1) ^ Suc (length cs - 1) * card (U - cov s)" by simp
    also have "\<dots> = (?k - 1) ^ length cs * card (U - cov s)" unfolding len [symmetric] ..
    finally show ?thesis by simp
  qed
qed simp

end

section \<open>The class makes greedy choices\<close>

text \<open>The rows that a candidate covers.\<close>

definition cover :: "(nat \<Rightarrow> string) \<Rightarrow> setcover_m \<Rightarrow> cand \<Rightarrow> nat set" where
  "cover name s c = (\<Union>node\<in>set (inputs c). col_set (base s) (pos_of name s node))"

definition gm_ok :: "(nat \<Rightarrow> string) \<Rightarrow> setcover_m \<Rightarrow> bool" where
  "gm_ok name s \<longleftrightarrow> sc_ok (base s) \<and> length (pvalues_col (base s)) = col_size (base s) \<and> bv_ok (mask s) \<and>
    bsize (mask s) = row_size (base s) \<and> (\<forall>node. pos_of name s node < col_size (base s))"

lemma gm_okD:
  assumes "gm_ok name s"
  shows "sc_ok (base s)" "length (pvalues_col (base s)) = col_size (base s)" "bv_ok (mask s)" "bsize (mask s) = row_size (base s)"
    "pos_of name s node < col_size (base s)" "row_size (base s) < 2 ^ 31" "bv_set (mask s) \<subseteq> {..<row_size (base s)}"
    "bv_ok (pvalues_col (base s) ! pos_of name s node) \<and> bsize (pvalues_col (base s) ! pos_of name s node) = row_size (base s)"
proof -
  show g: "sc_ok (base s)" "length (pvalues_col (base s)) = col_size (base s)" "bv_ok (mask s)" "bsize (mask s) = row_size (base s)"
    "pos_of name s node < col_size (base s)" for node using assms by (simp_all add: gm_ok_def)
  show "row_size (base s) < 2 ^ 31" by (rule sc_okD(1) [OF g(1)])
  show "bv_set (mask s) \<subseteq> {..<row_size (base s)}" using bv.elems_width [OF g(3)] g(4) by simp
  show "bv_ok (pvalues_col (base s) ! pos_of name s node) \<and> bsize (pvalues_col (base s) ! pos_of name s node) = row_size (base s)"
    using matrix_okD [OF sc_okD(6) [OF g(1)]] g(2) g(5) [of node] by simp
qed

lemma GenOr_ok:
  assumes g: "gm_ok name s" and v: "bv_ok v" "bsize v = row_size (base s)"
  shows "bv_ok (GenOr name s nodes v) \<and> bv_set (GenOr name s nodes v) = bv_set v \<union> (\<Union>node\<in>set nodes. col_set (base s) (pos_of name s node)) \<and>
    bsize (GenOr name s nodes v) = row_size (base s)"
proof -
  let ?vs = "map (\<lambda>node. pvalues_col (base s) ! pos_of name s node) nodes"
  have "GenOr name s nodes v = fold bv_or_count ?vs v" by (simp add: GenOr_def fold_map comp_def)
  moreover have "\<forall>u\<in>set ?vs. bv_ok u \<and> bsize u = bsize v"
  proof
    fix u assume "u \<in> set ?vs"
    then obtain node where "u = pvalues_col (base s) ! pos_of name s node" by auto
    then show "bv_ok u \<and> bsize u = bsize v" using gm_okD(8) [OF g, of node] v(2) by simp
  qed
  note bv.fold_join [OF v(1) this]
  ultimately show ?thesis using v(2) by (simp add: image_image)
qed

lemma cover_within: "gm_ok name s \<Longrightarrow> cover name s c \<subseteq> {..<row_size (base s)}"
proof -
  assume g: "gm_ok name s"
  have "col_set (base s) (pos_of name s node) \<subseteq> {..<row_size (base s)}" for node
    using bv.elems_width [of "pvalues_col (base s) ! pos_of name s node"] gm_okD(8) [OF g, of node] by simp
  then show ?thesis unfolding cover_def by (rule UN_least)
qed

text \<open>The state of the loop over the candidates, after those in \<open>done\<close>.\<close>

definition best_of :: "(nat \<Rightarrow> string) \<Rightarrow> setcover_m \<Rightarrow> cand set \<Rightarrow> nat \<times> bitvector \<times> cand option \<Rightarrow> bool" where
  "best_of name s D = (\<lambda>(mx, sel, best).
    (\<forall>d\<in>D. card (cover name s d - bv_set (mask s)) \<le> mx) \<and>
    (case best of None \<Rightarrow> mx = 0
     | Some c \<Rightarrow> c \<in> D \<and> 0 < mx \<and> mx = card (cover name s c - bv_set (mask s)) \<and>
        bv_ok sel \<and> bv_set sel = cover name s c - bv_set (mask s) \<and> bsize sel = row_size (base s)))"

lemma best_step_ok:
  assumes g: "gm_ok name s" and "best_of name s D st"
  shows "best_of name s (insert c D) (best_step name s c st)"
proof -
  obtain mx sel best where st: "st = (mx, sel, best)" by (cases st)
  let ?g = "GenOr name s (inputs c) (bv_new (row_size (base s)))"
  let ?t = "bv_mask_count (mask s) ?g"
  note nw = bv_new_ok [OF gm_okD(6) [OF g]]
  have gen: "bv_ok ?g" "bv_set ?g = cover name s c" "bsize ?g = row_size (base s)"
    using GenOr_ok [OF g nw(1,3)] nw(2) by (simp_all add: cover_def)
  have t: "bv_ok ?t" "bv_set ?t = cover name s c - bv_set (mask s)" "bsize ?t = row_size (base s)"
    using bv.mask_law [OF gm_okD(3) [OF g] gen(1)] gm_okD(4) [OF g] gen(2,3) by simp_all
  have cnt: "counter ?t = card (cover name s c - bv_set (mask s))" using bv.cnt_card [OF t(1)] t(2) by simp
  have copy: "bv_copy ?t sel = ?t" by (rule bv_copy_eq [OF bv_okD(1) [OF t(1)]])
  show ?thesis
  proof (cases "mx < counter ?t")
    case True
    then have "best_step name s c st = (counter ?t, ?t, Some c)" by (simp add: best_step_def st copy Let_def)
    moreover have "\<forall>d\<in>D. card (cover name s d - bv_set (mask s)) \<le> counter ?t"
      using assms(2) True by (auto simp: best_of_def st split: option.splits)
    ultimately show ?thesis using t cnt True by (simp add: best_of_def)
  next
    case False
    then have "best_step name s c st = st" by (simp add: best_step_def st Let_def)
    then show ?thesis using assms(2) False cnt by (auto simp: best_of_def st split: option.splits)
  qed
qed

lemma best_fold_ok:
  assumes "gm_ok name s" "best_of name s D st"
  shows "best_of name s (D \<union> set cs) (fold (best_step name s) cs st)"
  using assms(2)
proof (induction cs arbitrary: D st)
  case (Cons c cs)
  from Cons.IH [OF best_step_ok [OF assms(1) Cons.prems, of c]] show ?case by simp
qed simp

lemma best_cand_ok:
  assumes g: "gm_ok name s"
  shows "case best_cand name s of
      Some (c, s') \<Rightarrow> gm_ok name s' \<and> (\<exists>m. s' = s\<lparr>mask := m\<rparr>) \<and> c \<in> set (cands s) \<and>
        bv_set (mask s') = bv_set (mask s) \<union> cover name s c \<and> cover name s c - bv_set (mask s) \<noteq> {} \<and>
        (\<forall>d\<in>set (cands s). card (cover name s d - bv_set (mask s)) \<le> card (cover name s c - bv_set (mask s)))
    | None \<Rightarrow> \<forall>d\<in>set (cands s). cover name s d \<subseteq> bv_set (mask s)"
proof -
  obtain mx sel best where st: "fold (best_step name s) (cands s) (0, bv_empty, None) = (mx, sel, best)" by (metis prod_cases3)
  have "best_of name s {} (0, bv_empty, None)" by (simp add: best_of_def)
  from best_fold_ok [OF g this, of "cands s"] have b: "best_of name s (set (cands s)) (mx, sel, best)" by (simp add: st)
  show ?thesis
  proof (cases best)
    case None
    have "cover name s d \<subseteq> bv_set (mask s)" if "d \<in> set (cands s)" for d
    proof -
      have "finite (cover name s d - bv_set (mask s))" using cover_within [OF g, of d] finite_subset by blast
      moreover have "card (cover name s d - bv_set (mask s)) = 0" using b None that unfolding best_of_def by simp (metis le_zero_eq)
      ultimately show ?thesis by simp
    qed
    then show ?thesis using None by (simp add: best_cand_def st)
  next
    case (Some c)
    let ?s = "s\<lparr>mask := bv_or_count sel (mask s)\<rparr>"
    have c: "c \<in> set (cands s)" "0 < mx" "mx = card (cover name s c - bv_set (mask s))" "bv_ok sel"
      "bv_set sel = cover name s c - bv_set (mask s)" "bsize sel = row_size (base s)"
      and all: "\<forall>d\<in>set (cands s). card (cover name s d - bv_set (mask s)) \<le> mx" using b unfolding best_of_def Some prod.case option.case by blast+
    have m: "bv_ok (mask ?s)" "bv_set (mask ?s) = bv_set (mask s) \<union> cover name s c" "bsize (mask ?s) = row_size (base s)"
      using bv.join_law [OF c(4) gm_okD(3) [OF g]] c(5,6) gm_okD(4) [OF g] by auto
    have "gm_ok name ?s" using g m by (simp add: gm_ok_def pos_of_def)
    moreover have "cover name s c - bv_set (mask s) \<noteq> {}"
    proof
      assume "cover name s c - bv_set (mask s) = {}"
      then show False using c(2,3) by (simp only: card.empty)
    qed
    moreover have "best_cand name s = Some (c, ?s)" using Some c(2) by (simp add: best_cand_def st)
    ultimately show ?thesis using c(1) m(2) all [unfolded c(3)] by auto
  qed
qed

text \<open>The states that differ from \<open>s0\<close> in the mask only.\<close>

definition reached :: "(nat \<Rightarrow> string) \<Rightarrow> setcover_m \<Rightarrow> setcover_m \<Rightarrow> bool" where
  "reached name s0 s \<longleftrightarrow> gm_ok name s \<and> (\<exists>m. s = s0\<lparr>mask := m\<rparr>)"

lemma reachedD:
  assumes "reached name s0 s"
  shows "gm_ok name s" "base s = base s0" "cands s = cands s0" "cover name s = cover name s0"
  using assms by (auto simp: reached_def cover_def pos_of_def)

interpretation greedy: greedy_choice "reached name s0" "\<lambda>s. bv_set (mask s)" "{..<row_size (base s0)}" "cover name s0" "set (cands s0)" "best_cand name"
  for name s0
proof unfold_locales
  show "finite {..<row_size (base s0)}" by simp
next
  fix s assume r: "reached name s0 s"
  note d = reachedD [OF r]
  show "bv_set (mask s) \<subseteq> {..<row_size (base s0)} \<and> (\<forall>d\<in>set (cands s0). cover name s0 d \<subseteq> {..<row_size (base s0)})"
    using gm_okD(7) [OF d(1)] cover_within [OF d(1)] d(2,4) by simp
  show "cover name s0 d \<subseteq> bv_set (mask s)" if "best_cand name s = None" "d \<in> set (cands s0)" for d
    using best_cand_ok [OF d(1)] that d(3,4) by simp
  show "reached name s0 s' \<and> c \<in> set (cands s0) \<and> bv_set (mask s') = bv_set (mask s) \<union> cover name s0 c \<and>
      cover name s0 c - bv_set (mask s) \<noteq> {} \<and>
      (\<forall>d\<in>set (cands s0). card (cover name s0 d - bv_set (mask s)) \<le> card (cover name s0 c - bv_set (mask s)))"
    if "best_cand name s = Some (c, s')" for c s'
    using best_cand_ok [OF d(1)] that d(3,4) r by (auto simp: reached_def)
qed

section \<open>The selection\<close>

lemma SelectOnce_eq:
  "SelectOnce name s sel ins = (case best_cand name s of
     None \<Rightarrow> (False, s, sel, ins) | Some (c, s') \<Rightarrow> (True, s', sel @ [c], ins \<union> set (inputs c)))"
  by (simp add: SelectOnce_def split: option.splits)

lemma reached_refl: "gm_ok name s \<Longrightarrow> reached name s s"
  unfolding reached_def by (cases s) auto

text \<open>
  The loop ends. It answers \<open>False\<close> and clears the lists when no candidate covers a new row or when there are
  too many; otherwise all rows are covered and it appends the choices.
\<close>

lemma select_loop_ok:
  assumes "reached name s0 s"
  shows "\<exists>cs t. picks (best_cand name) (\<lambda>s. bv_set (mask s)) {..<row_size (base s0)} s cs t \<and>
    (select_loop name over s sel ins = Some (True, t, sel @ cs, ins \<union> (\<Union>c\<in>set cs. set (inputs c))) \<and>
       bv_set (mask t) = {..<row_size (base s0)} \<and> (\<forall>k. 0 < k \<and> k \<le> length cs \<longrightarrow> \<not> over (length sel + k)) \<or>
     select_loop name over s sel ins = Some (False, t, [], {}) \<and>
       (bv_set (mask t) \<noteq> {..<row_size (base s0)} \<and> best_cand name t = None \<or> cs \<noteq> [] \<and> over (length sel + length cs)))"
  using assms
proof (induction "card ({..<row_size (base s0)} - bv_set (mask s))" arbitrary: s sel ins rule: less_induct)
  case less
  note r = less.prems and d = reachedD [OF less.prems]
  let ?n = "row_size (base s0)"
  have full: "counter (mask s) = row_size (base s) \<longleftrightarrow> bv_set (mask s) = {..<?n}"
    using bv.cnt_full_iff [OF gm_okD(3) [OF d(1)]] gm_okD(4) [OF d(1)] d(2) by simp
  show ?case
  proof (cases "bv_set (mask s) = {..<?n}")
    case True
    then have "select_loop name over s sel ins = Some (True, s, sel, ins)" using full by (subst select_loop.simps) simp
    then show ?thesis using True by (intro exI [of _ "[]"] exI [of _ s]) (simp add: picks_Nil)
  next
    case left: False
    show ?thesis
    proof (cases "best_cand name s")
      case None
      then have "select_loop name over s sel ins = Some (False, s, [], {})"
        using left full by (subst select_loop.simps) (simp add: SelectOnce_eq)
      then show ?thesis using left None by (intro exI [of _ "[]"] exI [of _ s]) (simp add: picks_Nil)
    next
      case (Some res)
      obtain c s' where c: "best_cand name s = Some (c, s')" using Some by (cases res) simp
      have eq: "select_loop name over s sel ins = (if over (length sel + 1) then Some (False, s', [], {})
          else select_loop name over s' (sel @ [c]) (ins \<union> set (inputs c)))"
        using left full c by (subst select_loop.simps) (simp add: SelectOnce_eq)
      show ?thesis
      proof (cases "over (length sel + 1)")
        case True
        then show ?thesis
          using eq picks_Cons [where ch = "best_cand name" and cov = "\<lambda>s. bv_set (mask s)", OF left c picks_Nil] by (intro exI [of _ "[c]"] exI [of _ s']) simp
      next
        case False
        note r' = greedy.ch_Some [OF r c] and lt = greedy.left_over(2) [OF r c]
        from less.hyps [OF lt conjunct1 [OF r'], of "sel @ [c]" "ins \<union> set (inputs c)"] obtain cs t where
          p: "picks (best_cand name) (\<lambda>s. bv_set (mask s)) {..<?n} s' cs t" and
          res: "select_loop name over s' (sel @ [c]) (ins \<union> set (inputs c)) =
                Some (True, t, (sel @ [c]) @ cs, ins \<union> set (inputs c) \<union> (\<Union>c\<in>set cs. set (inputs c))) \<and>
              bv_set (mask t) = {..<?n} \<and> (\<forall>k. 0 < k \<and> k \<le> length cs \<longrightarrow> \<not> over (length (sel @ [c]) + k)) \<or>
            select_loop name over s' (sel @ [c]) (ins \<union> set (inputs c)) = Some (False, t, [], {}) \<and>
              (bv_set (mask t) \<noteq> {..<?n} \<and> best_cand name t = None \<or> cs \<noteq> [] \<and> over (length (sel @ [c]) + length cs))" by blast
        have first: "(\<forall>k. 0 < k \<and> k \<le> length cs \<longrightarrow> \<not> over (length (sel @ [c]) + k)) \<Longrightarrow>
            0 < k \<and> k \<le> length (c # cs) \<longrightarrow> \<not> over (length sel + k)" for k
          using False by (cases "k = 1") (auto dest: spec [of _ "k - 1"])
        have "picks (best_cand name) (\<lambda>s. bv_set (mask s)) {..<?n} s (c # cs) t" by (rule picks_Cons [where ch = "best_cand name" and cov = "\<lambda>s. bv_set (mask s)", OF left c p])
        moreover have "select_loop name over s sel ins = select_loop name over s' (sel @ [c]) (ins \<union> set (inputs c))"
          using eq False by simp
        ultimately show ?thesis using res first by (intro exI [of _ "c # cs"] exI [of _ t]) (auto simp: Un_assoc)
      qed
    qed
  qed
qed

text \<open>Runs of choices are linear: one of two is the beginning of the other.\<close>

lemma picks_linear:
  assumes "picks ch cov U s cs t" "picks ch cov U s cs' t'"
  shows "(\<exists>es. cs' = cs @ es \<and> picks ch cov U t es t') \<or> (\<exists>es. cs = cs' @ es \<and> picks ch cov U t' es t)"
  using assms
proof (induction arbitrary: cs' rule: picks.induct)
  case (picks_Cons s c s' cs t)
  show ?case
  proof (cases cs')
    case Nil
    then have "picks ch cov U s [] t'" using picks_Cons.prems by simp
    then have "t' = s" by (cases rule: picks.cases) simp
    then show ?thesis using Nil picks.picks_Cons [where ch = ch, OF picks_Cons.hyps] by auto
  next
    case (Cons c' cs'')
    then have "picks ch cov U s (c' # cs'') t'" using picks_Cons.prems by simp
    then obtain s'' where "ch s = Some (c', s'')" "picks ch cov U s'' cs'' t'" by (rule picks_ConsE)
    then show ?thesis using picks_Cons.IH [of cs''] picks_Cons.hyps(2) Cons by auto
  qed
qed auto

lemma picks_stop:
  assumes "picks ch cov U s cs t" "cov s = U \<or> ch s = None"
  shows "cs = [] \<and> t = s"
  using assms by (cases rule: picks.cases) auto

text \<open>The limit only decides whether the selection is taken.\<close>

lemma select_limit_eq:
  assumes "gm_ok name s" "0 \<le> limit" "limit < 2 ^ 31"
  shows "case Select name s sel ins of
      Some (True, t, all, ins') \<Rightarrow>
        if length all = length sel \<or> int (length all) \<le> limit then Select_limit name limit s sel ins = Some (True, t, all, ins')
        else \<exists>t'. Select_limit name limit s sel ins = Some (False, t', [], {})
    | _ \<Rightarrow> \<exists>t'. Select_limit name limit s sel ins = Some (False, t', [], {})"
proof -
  let ?U = "{..<row_size (base s)}" and ?cov = "\<lambda>s. bv_set (mask s)"
  have lim: "limit mod 2 ^ 64 = limit" using assms(2,3) by simp
  let ?over = "\<lambda>k. limit < int k"
  let ?run = "picks (best_cand name) ?cov ?U"
  let ?ins = "\<lambda>cs. ins \<union> (\<Union>c\<in>set cs. set (inputs c))"
  have sl: "Select_limit name limit s sel ins = select_loop name ?over s sel ins" by (simp only: Select_limit_def lim)
  obtain cs t where r1: "?run s cs t" and c1: "Select name s sel ins = Some (True, t, sel @ cs, ?ins cs) \<and> ?cov t = ?U \<or>
      Select name s sel ins = Some (False, t, [], {}) \<and> ?cov t \<noteq> ?U \<and> best_cand name t = None"
    using select_loop_ok [OF reached_refl [OF assms(1)], of "\<lambda>_. False" sel ins] by (auto simp: Select_def)
  obtain ds u where r2: "?run s ds u" and c2: "select_loop name ?over s sel ins = Some (True, u, sel @ ds, ?ins ds) \<and> ?cov u = ?U \<and>
        (\<forall>k. 0 < k \<and> k \<le> length ds \<longrightarrow> \<not> ?over (length sel + k)) \<or>
      select_loop name ?over s sel ins = Some (False, u, [], {}) \<and>
        (?cov u \<noteq> ?U \<and> best_cand name u = None \<or> ds \<noteq> [] \<and> ?over (length sel + length ds))"
    using select_loop_ok [OF reached_refl [OF assms(1)], of ?over sel ins] by blast
  have lin: "(\<exists>es. ds = cs @ es \<and> ?run t es u) \<or> (\<exists>es. cs = ds @ es \<and> ?run u es t)" by (rule picks_linear [OF r1 r2])
  from c1 show ?thesis
  proof
    assume ok: "Select name s sel ins = Some (True, t, sel @ cs, ?ins cs) \<and> ?cov t = ?U"
    have pre: "\<exists>es. cs = ds @ es \<and> ?run u es t" using lin picks_stop [where s = t] ok picks_Nil by (metis append_Nil2)
    from c2 show ?thesis
    proof
      assume a: "select_loop name ?over s sel ins = Some (True, u, sel @ ds, ?ins ds) \<and> ?cov u = ?U \<and>
        (\<forall>k. 0 < k \<and> k \<le> length ds \<longrightarrow> \<not> ?over (length sel + k))"
      then have "cs = ds \<and> t = u" using pre picks_stop [where s = u] by fastforce
      moreover have "ds = [] \<or> int (length sel + length ds) \<le> limit"
        using a by (cases ds) (auto dest: spec [of _ "length ds"])
      ultimately show ?thesis using ok a sl by auto
    next
      assume a: "select_loop name ?over s sel ins = Some (False, u, [], {}) \<and>
        (?cov u \<noteq> ?U \<and> best_cand name u = None \<or> ds \<noteq> [] \<and> ?over (length sel + length ds))"
      have "\<not> (?cov u \<noteq> ?U \<and> best_cand name u = None)"
      proof
        assume b: "?cov u \<noteq> ?U \<and> best_cand name u = None"
        obtain es where "?run u es t" using pre by blast
        from picks_stop [OF this disjI2 [OF conjunct2 [OF b]]] have "t = u" by blast
        then show False using b ok by simp
      qed
      then have "ds \<noteq> []" "limit < int (length sel + length ds)" using a by blast+
      moreover have "length ds \<le> length cs" using pre by auto
      ultimately have "cs \<noteq> []" "\<not> int (length (sel @ cs)) \<le> limit" by auto
      then show ?thesis using ok a sl by simp
    qed
  next
    assume no: "Select name s sel ins = Some (False, t, [], {}) \<and> ?cov t \<noteq> ?U \<and> best_cand name t = None"
    have "?cov u \<noteq> ?U"
    proof
      assume u: "?cov u = ?U"
      from lin show False
      proof (elim disjE exE conjE)
        fix es assume "?run t es u"
        from picks_stop [OF this disjI2 [OF conjunct2 [OF conjunct2 [OF no]]]] have "u = t" by blast
        then show False using no u by blast
      next
        fix es assume "?run u es t"
        from picks_stop [OF this disjI1 [OF u]] have "t = u" by blast
        then show False using no u by blast
      qed
    qed
    then show ?thesis using no c2 sl by simp
  qed
qed

lemma AddRows_m_ok:
  assumes "sc_ok (base s)" "row_size (base s) + length Rows < 2 ^ 31" "row_size (base s) + length Rows \<noteq> 0"
    and "\<forall>node. pos_of name s node < col_size (base s)"
  shows "gm_ok name (AddRows_m Rows s) \<and> bv_set (mask (AddRows_m Rows s)) = {} \<and> cands (AddRows_m Rows s) = cands s \<and>
    base (AddRows_m Rows s) = AddRows Rows (base s) \<and> node_pos (AddRows_m Rows s) = node_pos s"
proof -
  note a = AddRows_ok [OF assms(1,2)]
  have "row_size (AddRows Rows (base s)) \<noteq> 0" using a assms(3) by simp
  then have "length (pvalues_col (AddRows Rows (base s))) = col_size (base s)" using a sc_okD(7) [of "AddRows Rows (base s)"] by simp
  then show ?thesis
    using a assms bv_set_size_ok [of "row_size (AddRows Rows (base s))" "mask s"]
    by (simp add: AddRows_m_def Let_def gm_ok_def pos_of_def)
qed

lemma node_pos_bound:
  "fold (\<lambda>i pos. pos(f i \<mapsto> i)) [0..<n] Map.empty k = Some i \<Longrightarrow> i < n"
  by (induction n) (auto split: if_splits)

lemma new_pos: "sigs \<noteq> [] \<Longrightarrow> pos_of name (setcover_m_new name cs sigs) node < length sigs"
  using node_pos_bound [of "\<lambda>i. name (sigs ! i)" "length sigs"] by (auto simp: pos_of_def setcover_m_new_def split: option.splits)

text \<open>A new class with rows in it is well formed.\<close>

lemma gm_new_ok:
  fixes name :: "nat \<Rightarrow> string" and cs :: "cand list"
  assumes "sigs \<noteq> []" "length sigs < 2 ^ 31" "Rows \<noteq> []" "length Rows < 2 ^ 31"
  defines "s \<equiv> AddRows_m Rows (setcover_m_new name cs sigs)"
  shows "gm_ok name s \<and> bv_set (mask s) = {} \<and> cands s = cs \<and> base s = AddRows Rows (setcover_new sigs) \<and>
    node_pos s = node_pos (setcover_m_new name cs sigs)"
proof -
  have b: "base (setcover_m_new name cs sigs) = setcover_new sigs" "cands (setcover_m_new name cs sigs) = cs"
    "row_size (setcover_new sigs) = 0" "col_size (setcover_new sigs) = length sigs"
    by (simp_all add: setcover_m_new_def setcover_new_def)
  show ?thesis
    using AddRows_m_ok [of "setcover_m_new name cs sigs" Rows name] assms(1-4) b setcover_new_ok [OF assms(2)] new_pos [OF assms(1), of name cs]
    unfolding s_def by simp
qed

section \<open>Correctness\<close>

text \<open>
  C6 (bounds). \<open>Select\<close> ends. When the candidates can cover the rows it appends candidates that do, with
  their inputs; otherwise it returns 0 with empty lists. The selection is not much larger than any cover: if
  \<open>k\<close> candidates cover the \<open>n\<close> rows that are left, \<open>m\<close> selected ones satisfy \<open>k ^ (m - 1) \<le> (k - 1) ^ (m - 1) * n\<close>, so
  that \<open>m\<close> is at most about \<open>k * ln n + 1\<close>.
\<close>

theorem Select_correct:
  assumes "gm_ok name s"
  shows "if \<forall>i<row_size (base s). i \<in> bv_set (mask s) \<or> (\<exists>c\<in>set (cands s). i \<in> cover name s c)
    then \<exists>cs t. Select name s sel ins = Some (True, t, sel @ cs, ins \<union> (\<Union>c\<in>set cs. set (inputs c))) \<and> set cs \<subseteq> set (cands s) \<and>
      bv_set (mask s) \<union> (\<Union>c\<in>set cs. cover name s c) = {..<row_size (base s)} \<and>
      (\<forall>ds. cs \<noteq> [] \<and> set ds \<subseteq> set (cands s) \<and> bv_set (mask s) \<union> (\<Union>d\<in>set ds. cover name s d) = {..<row_size (base s)} \<longrightarrow>
         length ds ^ (length cs - 1) \<le> (length ds - 1) ^ (length cs - 1) * card ({..<row_size (base s)} - bv_set (mask s)))
    else \<exists>t. Select name s sel ins = Some (False, t, [], {})"
proof -
  let ?U = "{..<row_size (base s)}" and ?cov = "\<lambda>s. bv_set (mask s)"
  note r = reached_refl [OF assms]
  obtain cs t where p: "picks (best_cand name) ?cov ?U s cs t"
    and res: "Select name s sel ins = Some (True, t, sel @ cs, ins \<union> (\<Union>c\<in>set cs. set (inputs c))) \<and> ?cov t = ?U \<or>
      Select name s sel ins = Some (False, t, [], {}) \<and> ?cov t \<noteq> ?U \<and> best_cand name t = None"
    using select_loop_ok [OF r, of "\<lambda>_. False" sel ins] by (auto simp: Select_def)
  have t: "reached name s t" "set cs \<subseteq> set (cands s)" "?cov t = ?cov s \<union> (\<Union>c\<in>set cs. cover name s c)"
    using greedy.picks_ok [OF p r] by simp_all
  have bound: "length ds ^ (length cs - 1) \<le> (length ds - 1) ^ (length cs - 1) * card (?U - ?cov s)"
    if "cs \<noteq> [] \<and> set ds \<subseteq> set (cands s) \<and> ?cov s \<union> (\<Union>d\<in>set ds. cover name s d) = ?U" for ds
    using greedy.picks_bound [OF p r, of ds] that by simp
  have able: "(\<forall>i<row_size (base s). i \<in> ?cov s \<or> (\<exists>c\<in>set (cands s). i \<in> cover name s c)) \<longleftrightarrow>
      ?U \<subseteq> ?cov s \<union> (\<Union>c\<in>set (cands s). cover name s c)" by auto
  show ?thesis
  proof (cases "?U \<subseteq> ?cov s \<union> (\<Union>c\<in>set (cands s). cover name s c)")
    case True
    have "\<not> (?cov t \<noteq> ?U \<and> best_cand name t = None)"
    proof
      assume a: "?cov t \<noteq> ?U \<and> best_cand name t = None"
      then have "\<forall>d\<in>set (cands s). cover name s d \<subseteq> ?cov t" using greedy.ch_None [OF t(1)] by blast
      then have "?U \<subseteq> ?cov t" using True t(3) by blast
      then show False using a greedy.within [OF t(1)] by blast
    qed
    then have sel: "Select name s sel ins = Some (True, t, sel @ cs, ins \<union> (\<Union>c\<in>set cs. set (inputs c)))" and "?cov t = ?U" using res by blast+
    then have full: "?cov s \<union> (\<Union>c\<in>set cs. cover name s c) = ?U" using t(3) by simp
    have all: "\<forall>ds. cs \<noteq> [] \<and> set ds \<subseteq> set (cands s) \<and> ?cov s \<union> (\<Union>d\<in>set ds. cover name s d) = ?U \<longrightarrow>
         length ds ^ (length cs - 1) \<le> (length ds - 1) ^ (length cs - 1) * card (?U - ?cov s)" using bound by blast
    show ?thesis unfolding able if_P [OF True] 
      by (rule exI [of _ cs], rule exI [of _ t], rule conjI [OF sel conjI [OF t(2) conjI [OF full all]]])
  next
    case False
    have "?cov t \<noteq> ?U"
    proof
      assume "?cov t = ?U"
      then have "?U = ?cov s \<union> (\<Union>c\<in>set cs. cover name s c)" using t(3) by simp
      also have "\<dots> \<subseteq> ?cov s \<union> (\<Union>c\<in>set (cands s). cover name s c)" using t(2) by (intro Un_mono UN_mono) simp_all
      finally show False using False by contradiction
    qed
    then show ?thesis unfolding able if_not_P [OF False] using res by blast
  qed
qed

text \<open>Two signals, three rows, and candidates for one signal or for both.\<close>

abbreviation name2 :: "nat \<Rightarrow> string" where
  "name2 n \<equiv> (if n = 10 then ''x'' else ''y'')"

abbreviation cand_ab :: cand where
  "cand_ab \<equiv> \<lparr>addr = 7, inputs = [10, 11]\<rparr>"

abbreviation two_m :: setcover_m where
  "two_m \<equiv> AddRows_m two_rows (setcover_m_new name2 [\<lparr>addr = 5, inputs = [10]\<rparr>, cand_ab] [10, 11])"

lemma two_m:
  "gm_ok name2 two_m \<and> bv_set (mask two_m) = {} \<and> cands two_m = [\<lparr>addr = 5, inputs = [10]\<rparr>, cand_ab] \<and> row_size (base two_m) = 2 \<and>
   cover name2 two_m cand_ab = {..<2}"
proof -
  have g: "gm_ok name2 two_m" "bv_set (mask two_m) = {}" "cands two_m = [\<lparr>addr = 5, inputs = [10]\<rparr>, cand_ab]" "base two_m = two_sc"
      "node_pos two_m = node_pos (setcover_m_new name2 [\<lparr>addr = 5, inputs = [10]\<rparr>, cand_ab] [10, 11])"
    using gm_new_ok [of "[10, 11]" two_rows name2 "[\<lparr>addr = 5, inputs = [10]\<rparr>, cand_ab]"] by simp_all
  have np: "node_pos two_m = [''x'' \<mapsto> 0, ''y'' \<mapsto> 1]" unfolding g(5) by (simp add: setcover_m_new_def)
  have pos: "pos_of name2 two_m 10 = 0" "pos_of name2 two_m 11 = 1" unfolding pos_of_def np by simp_all
  have "cover name2 two_m cand_ab = col_set two_sc 0 \<union> col_set two_sc 1"
    unfolding cover_def g(4) by (simp only: cand.simps list.set UN_insert UN_empty pos Un_empty_right)
  also have "\<dots> = {..<2}"
  proof -
    have "col_set two_sc 0 = {0}" "col_set two_sc 1 = {1}" using two_sc by blast+
    moreover have "{0} \<union> {1} = {..<2 :: nat}" by auto
    ultimately show ?thesis by (simp only:)
  qed
  finally have c: "cover name2 two_m cand_ab = {..<2}" .
  have "row_size (base two_m) = 2" unfolding g(4) using two_sc by blast
  then show ?thesis using g(1-3) c by (intro conjI)
qed

theorem Select_witness:
  "\<exists>c t. Select name2 two_m [] {} = Some (True, t, [c], set (inputs c)) \<and> c \<in> set (cands two_m)"
proof -
  have m: "gm_ok name2 two_m" "bv_set (mask two_m) = {}" "cands two_m = [\<lparr>addr = 5, inputs = [10]\<rparr>, cand_ab]" "row_size (base two_m) = 2"
    "cover name2 two_m cand_ab = {..<2}" using two_m by blast+
  have mem: "cand_ab \<in> set (cands two_m)" unfolding m(3) by simp
  then have h: "\<forall>i<row_size (base two_m). i \<in> bv_set (mask two_m) \<or> (\<exists>c\<in>set (cands two_m). i \<in> cover name2 two_m c)"
    using m(4,5) by auto
  note sel = Select_correct [OF m(1), of "[]" "{}", unfolded if_P [OF h]]
  obtain cs t where cs: "Select name2 two_m [] {} = Some (True, t, cs, (\<Union>c\<in>set cs. set (inputs c)))" "set cs \<subseteq> set (cands two_m)"
    "(\<Union>c\<in>set cs. cover name2 two_m c) = {..<2}"
    and b: "\<forall>ds. cs \<noteq> [] \<and> set ds \<subseteq> set (cands two_m) \<and> (\<Union>d\<in>set ds. cover name2 two_m d) = {..<2} \<longrightarrow>
         length ds ^ (length cs - 1) \<le> (length ds - 1) ^ (length cs - 1) * card {..<2 :: nat}"
    using sel unfolding m(2,4) append_Nil Un_empty_left Diff_empty by (elim exE conjE) (rule that)
  have ne: "cs \<noteq> []"
  proof
    assume "cs = []"
    then have "{..<2 :: nat} = {}" using cs(3) by simp
    then show False by (simp add: lessThan_empty_iff)
  qed
  have le: "1 ^ (length cs - 1) \<le> (1 - 1) ^ (length cs - 1) * (2 :: nat)"
    using b [rule_format, of "[cand_ab]"] ne mem m(5) by simp
  have "length cs - 1 = 0"
  proof (rule ccontr)
    assume "length cs - 1 \<noteq> 0"
    then show False using le by (simp add: power_0_left)
  qed
  moreover have "0 < length cs" using ne by simp
  ultimately have "length cs = 1" by linarith
  then obtain c where "cs = [c]" by (auto simp: length_Suc_conv)
  then show ?thesis using cs(1,2) by simp
qed

text \<open>
  C37 (error). With a limit of at least 0 the selection of clusters is the one without a limit, unless it selects
  something and ends with more clusters than the limit allows: then it returns 0 and clears both lists.
\<close>

theorem Select_limit_correct:
  assumes "gm_ok name s" "0 \<le> limit" "limit < 2 ^ 31"
  shows "case Select name s sel ins of
      Some (True, t, all, ins') \<Rightarrow>
        if length all = length sel \<or> int (length all) \<le> limit then Select_limit name limit s sel ins = Some (True, t, all, ins')
        else \<exists>t'. Select_limit name limit s sel ins = Some (False, t', [], {})
    | _ \<Rightarrow> \<exists>t'. Select_limit name limit s sel ins = Some (False, t', [], {})"
  by (rule select_limit_eq [OF assms])

theorem Select_limit_witness:
  "case Select name2 two_m [] {} of
      Some (True, t, all, ins') \<Rightarrow>
        if length all = length ([] :: cand list) \<or> int (length all) \<le> 0 then Select_limit name2 0 two_m [] {} = Some (True, t, all, ins')
        else \<exists>t'. Select_limit name2 0 two_m [] {} = Some (False, t', [], {})
    | _ \<Rightarrow> \<exists>t'. Select_limit name2 0 two_m [] {} = Some (False, t', [], {})"
  by (rule Select_limit_correct) (use two_m in blast, simp_all)

end
