(* ===== verification/Circ_Cone.thy ===== *)
theory Circ_Cone
  imports Abc_Prelude
begin

text \<open>
  \<open>include/circuit/node.h\<close> and the searches of \<open>src/circuit/node.cpp\<close>: the data of circuits and the cones of nodes and clusters. All
  searches are instances of one loop; the locale \<open>cone_search\<close> holds what they share, and each is an interpretation of it.
\<close>

section \<open>The data\<close>

text \<open>
  Nodes and clusters are objects behind pointers. A pointer is a number, and the two heaps \<open>nd\<close> and \<open>clu\<close> of the
  state give the object behind it, so that two vectors that hold the same pointer share the object. A
  \<open>NodeVector\<close> is a list of pointers; the sets of pointers are sets, since the code asks them for members and
  sizes only. \<open>all_clusters\<close> is a hash set, whose unspecified order of iteration is the order of a list.
\<close>

record node =
  name :: string
  cube :: string
  cube_pre :: string
  is_input :: bool
  is_output :: bool
  inputs :: "nat list"
  inputs_pre :: "nat list"
  outputs :: "nat list"
  my_cluster :: nat
  order :: int
  weight :: int
  weight_for_elim :: int

record cluster =
  c_name :: string
  nodes_c :: "nat list"
  input_nodes_pre :: "nat set"
  input_nodes :: "nat set"

record circuit =
  nd :: "nat \<Rightarrow> node"
  clu :: "nat \<Rightarrow> cluster"
  pi_nodes :: "nat list"
  po_nodes :: "nat list"
  targets :: "nat list"
  all_nodes :: "nat list"
  all_clusters :: "nat list"
  all_nodes_map :: "string \<rightharpoonup> nat"
  next_cluster :: nat

abbreviation GetNode :: "circuit \<Rightarrow> string \<Rightarrow> nat option" where
  "GetNode C s \<equiv> all_nodes_map C s"

text \<open>The heaps with one object changed.\<close>

definition upd_node :: "nat \<Rightarrow> (node \<Rightarrow> node) \<Rightarrow> circuit \<Rightarrow> circuit" where
  "upd_node n f C = C\<lparr>nd := (nd C)(n := f (nd C n))\<rparr>"

definition upd_clu :: "nat \<Rightarrow> (cluster \<Rightarrow> cluster) \<Rightarrow> circuit \<Rightarrow> circuit" where
  "upd_clu c f C = C\<lparr>clu := (clu C)(c := f (clu C c))\<rparr>"

section \<open>The searches\<close>

text \<open>
  All searches are one loop over a stack \<open>not_processed\<close>, whose back is the head of the list here. A pointer that is
  taken from the stack is put into \<open>hits\<close> when it is a \<open>hit\<close>; when the search may \<open>enter\<close> it, it is put
  into the cone, and those of its neighbours that are not in the cone go on the stack. Whether the loop ends is not part of the definition.
\<close>

partial_function (option) cone_loop ::
    "('a \<Rightarrow> bool) \<Rightarrow> ('a \<Rightarrow> bool) \<Rightarrow> ('a \<Rightarrow> 'a list) \<Rightarrow> 'a list \<Rightarrow> 'a set \<Rightarrow> 'a set \<Rightarrow> ('a set \<times> 'a set) option" where
  "cone_loop hit enter nbrs not_processed cone hits =
    (case not_processed of
       [] \<Rightarrow> Some (cone, hits)
     | current # rest \<Rightarrow>
         (let hits = (if hit current then insert current hits else hits)
          in if enter current then
               (let cone = insert current cone
                in cone_loop hit enter nbrs (rev (filter (\<lambda>m. m \<notin> cone) (nbrs current)) @ rest) cone hits)
             else cone_loop hit enter nbrs rest cone hits))"

definition GetFaninCone :: "circuit \<Rightarrow> nat \<Rightarrow> nat set \<Rightarrow> nat set \<Rightarrow> (nat set \<times> nat set) option" where
  "GetFaninCone C node fanin_nodes fanin_pi =
    map_option (\<lambda>(cone, pi). (cone - {node}, pi))
      (cone_loop (\<lambda>n. is_input (nd C n)) (\<lambda>n. \<not> is_input (nd C n)) (\<lambda>n. inputs (nd C n)) [node] fanin_nodes fanin_pi)"

definition GetFanoutCone :: "circuit \<Rightarrow> nat \<Rightarrow> nat set \<Rightarrow> nat set \<Rightarrow> (nat set \<times> nat set) option" where
  "GetFanoutCone C node fanout_nodes fanout_po =
    map_option (\<lambda>(cone, po). (cone - {node}, po))
      (cone_loop (\<lambda>n. is_output (nd C n)) (\<lambda>_. True) (\<lambda>n. outputs (nd C n)) [node] fanout_nodes fanout_po)"

text \<open>The version with excluded nodes starts from a set of nodes, which it pushes in ascending order of their addresses.\<close>

definition GetFanoutCone_exclude :: "circuit \<Rightarrow> nat set \<Rightarrow> nat set \<Rightarrow> nat set \<Rightarrow> nat set option" where
  "GetFanoutCone_exclude C start_nodes fanout_nodes exclude_nodes =
    map_option (\<lambda>(cone, _). cone - start_nodes)
      (cone_loop (\<lambda>_. False) (\<lambda>n. n \<notin> exclude_nodes) (\<lambda>n. outputs (nd C n))
        (rev (sorted_list_of_set start_nodes)) fanout_nodes {})"

definition GetFaninPi :: "circuit \<Rightarrow> nat \<Rightarrow> nat set \<Rightarrow> nat set option" where
  "GetFaninPi C node fanin_pi = map_option snd (GetFaninCone C node {} fanin_pi)"

definition GetFanoutPo :: "circuit \<Rightarrow> nat \<Rightarrow> nat set \<Rightarrow> nat set option" where
  "GetFanoutPo C node fanout_po = map_option snd (GetFanoutCone C node {} fanout_po)"

text \<open>The search of \<open>Adapter_data\<close>, which enters the primary inputs as well.\<close>

definition GetFaninCone_adapter :: "circuit \<Rightarrow> nat \<Rightarrow> nat set \<Rightarrow> nat set option" where
  "GetFaninCone_adapter C node fanin_nodes =
    map_option (\<lambda>(cone, _). cone - {node})
      (cone_loop (\<lambda>_. False) (\<lambda>_. True) (\<lambda>n. inputs (nd C n)) [node] fanin_nodes {})"

text \<open>The searches over clusters go along the nodes of a cluster.\<close>

definition fanin_clusters :: "circuit \<Rightarrow> nat \<Rightarrow> nat list" where
  "fanin_clusters C c = concat (map (\<lambda>n. map (\<lambda>i. my_cluster (nd C i)) (filter (\<lambda>i. \<not> is_input (nd C i)) (inputs (nd C n))))
     (nodes_c (clu C c)))"

definition fanout_clusters :: "circuit \<Rightarrow> nat \<Rightarrow> nat list" where
  "fanout_clusters C c = concat (map (\<lambda>n. map (\<lambda>i. my_cluster (nd C i)) (outputs (nd C n))) (nodes_c (clu C c)))"

definition GetFaninCone_cluster :: "circuit \<Rightarrow> nat \<Rightarrow> nat set \<Rightarrow> nat set option" where
  "GetFaninCone_cluster C clst fanin_clsts =
    map_option (\<lambda>(cone, _). cone - {clst}) (cone_loop (\<lambda>_. False) (\<lambda>_. True) (fanin_clusters C) [clst] fanin_clsts {})"

definition GetFanoutCone_cluster :: "circuit \<Rightarrow> nat \<Rightarrow> nat set \<Rightarrow> nat set option" where
  "GetFanoutCone_cluster C clst fanout_clsts =
    map_option (\<lambda>(cone, _). cone - {clst}) (cone_loop (\<lambda>_. False) (\<lambda>_. True) (fanout_clusters C) [clst] fanout_clsts {})"

section \<open>What a search finds\<close>

text \<open>The edges that a search can take while the cone is \<open>K\<close>.\<close>

definition search_edges :: "('a \<Rightarrow> bool) \<Rightarrow> ('a \<Rightarrow> 'a list) \<Rightarrow> 'a set \<Rightarrow> ('a \<times> 'a) set" where
  "search_edges enter nbrs K = {(x, y). enter x \<and> y \<in> set (nbrs x) \<and> y \<notin> K}"

lemma search_edges_enter:
  assumes "enter x"
  shows "(search_edges enter nbrs K)\<^sup>* `` insert x B =
    insert x ((search_edges enter nbrs (insert x K))\<^sup>* `` ({y \<in> set (nbrs x). y \<notin> insert x K} \<union> B))" (is "?l = insert x ?r")
proof
  show "insert x ?r \<subseteq> ?l"
  proof -
    have "(search_edges enter nbrs (insert x K))\<^sup>* \<subseteq> (search_edges enter nbrs K)\<^sup>*"
      by (intro rtrancl_mono) (auto simp: search_edges_def)
    moreover have "(x, y) \<in> search_edges enter nbrs K" if "y \<in> set (nbrs x)" "y \<notin> K" for y
      using that assms by (auto simp: search_edges_def)
    ultimately show ?thesis by (blast intro: converse_rtrancl_into_rtrancl)
  qed
  have "z \<in> insert x ?r" if "(y, z) \<in> (search_edges enter nbrs K)\<^sup>*" "y \<in> insert x B" for y z
    using that
  proof (induction rule: rtrancl_induct)
    case base
    then show ?case by blast
  next
    case (step z w)
    from step.hyps(2) have w: "enter z" "w \<in> set (nbrs z)" "w \<notin> K" by (auto simp: search_edges_def)
    show ?case
    proof (cases "w = x")
      case False
      with w have e: "(z, w) \<in> search_edges enter nbrs (insert x K)" by (auto simp: search_edges_def)
      from step.IH step.prems consider "z = x" | "z \<in> ?r" by blast
      then show ?thesis
      proof cases
        case 1
        with w False show ?thesis by blast
      next
        case 2
        then show ?thesis using e by (blast intro: rtrancl_into_rtrancl)
      qed
    qed simp
  qed
  then show "?l \<subseteq> insert x ?r" by blast
qed

lemma search_edges_skip:
  assumes "\<not> enter x"
  shows "(search_edges enter nbrs K)\<^sup>* `` insert x B = insert x ((search_edges enter nbrs K)\<^sup>* `` B)"
proof -
  have "y = x" if "(x, y) \<in> (search_edges enter nbrs K)\<^sup>*" for y
    using that assms by (auto elim!: converse_rtranclE simp: search_edges_def)
  then show ?thesis by blast
qed

text \<open>
  The contract that the searches share: on the states that the program keeps, the objects that a search may visit
  are finitely many, and the neighbours of what it enters are among them. The search then ends, and
  has taken from the stack exactly what it can reach.
\<close>

locale cone_search =
  fixes ok :: "'c \<Rightarrow> bool" and univ :: "'c \<Rightarrow> 'a set" and enter :: "'c \<Rightarrow> 'a \<Rightarrow> bool" and nbrs :: "'c \<Rightarrow> 'a \<Rightarrow> 'a list"
  assumes finite_univ: "ok C \<Longrightarrow> finite (univ C)"
    and next_univ: "ok C \<Longrightarrow> x \<in> univ C \<Longrightarrow> enter C x \<Longrightarrow> y \<in> set (nbrs C x) \<Longrightarrow> y \<in> univ C"
begin

lemma search:
  assumes "ok C" "set st \<subseteq> univ C"
  shows "cone_loop hit (enter C) (nbrs C) st K H =
    Some (K \<union> {x \<in> (search_edges (enter C) (nbrs C) K)\<^sup>* `` set st. enter C x},
          H \<union> {x \<in> (search_edges (enter C) (nbrs C) K)\<^sup>* `` set st. hit x})"
proof -
  let ?R = "\<lambda>st K. (search_edges (enter C) (nbrs C) K)\<^sup>* `` set st"
  let ?goal = "\<lambda>st K. \<forall>H. set st \<subseteq> univ C \<longrightarrow>
    cone_loop hit (enter C) (nbrs C) st K H = Some (K \<union> {x \<in> ?R st K. enter C x}, H \<union> {x \<in> ?R st K. hit x})"
  define M where "M = measures
    [\<lambda>(st, K). card (univ C - K), \<lambda>(st, K). length (filter (\<lambda>x. x \<in> K) st), \<lambda>(st, K). length st]"
  have "?goal (fst p) (snd p)" for p
  proof (induction p rule: wf_induct [of M])
    case 1
    show ?case by (simp add: M_def)
  next
    case (2 p)
    obtain st K where p: "p = (st, K)" by (cases p)
    have IH: "cone_loop hit (enter C) (nbrs C) st' K' H = Some (K' \<union> {x \<in> ?R st' K'. enter C x}, H \<union> {x \<in> ?R st' K'. hit x})"
      if "((st', K'), (st, K)) \<in> M" "set st' \<subseteq> univ C" for st' K' H
      using 2 [rule_format, of "(st', K')" H] that p by simp
    have "cone_loop hit (enter C) (nbrs C) st K H = Some (K \<union> {x \<in> ?R st K. enter C x}, H \<union> {x \<in> ?R st K. hit x})"
      if st: "set st \<subseteq> univ C" for H
    proof (cases st)
      case Nil
      then show ?thesis by (simp add: cone_loop.simps)
    next
      case (Cons x rest)
      with st have x: "x \<in> univ C" "set rest \<subseteq> univ C" by auto
      show ?thesis
      proof (cases "enter C x")
        case True
        let ?new = "filter (\<lambda>m. m \<notin> insert x K) (nbrs C x)"
        let ?st = "rev ?new @ rest"
        have fin: "finite (univ C - K)" using finite_univ [OF assms(1)] by simp
        have "((?st, insert x K), (st, K)) \<in> M"
        proof (cases "x \<in> K")
          case True
          then show ?thesis using Cons by (simp add: insert_absorb M_def)
        next
          case False
          have "card (univ C - insert x K) < card (univ C - K)"
            using False x(1) by (intro psubset_card_mono [OF fin]) blast
          then show ?thesis by (simp add: M_def)
        qed
        moreover have "set ?st \<subseteq> univ C" using next_univ [OF assms(1) x(1) True] x(2) by auto
        ultimately have "cone_loop hit (enter C) (nbrs C) ?st (insert x K) H' =
            Some (insert x K \<union> {y \<in> (search_edges (enter C) (nbrs C) (insert x K))\<^sup>* `` set ?st. enter C y},
                  H' \<union> {y \<in> (search_edges (enter C) (nbrs C) (insert x K))\<^sup>* `` set ?st. hit y})" for H'
          by (rule IH)
        moreover have "(search_edges (enter C) (nbrs C) K)\<^sup>* `` set st =
            insert x ((search_edges (enter C) (nbrs C) (insert x K))\<^sup>* `` set ?st)"
          using search_edges_enter [where enter = "enter C" and nbrs = "nbrs C" and B = "set rest" and K = K, OF True] Cons
          by simp
        ultimately show ?thesis using Cons True by (subst cone_loop.simps) (auto simp: Let_def)
      next
        case False
        have "((rest, K), (st, K)) \<in> M"
          using Cons by (auto simp: M_def)
        then have "cone_loop hit (enter C) (nbrs C) rest K H' =
            Some (K \<union> {y \<in> (search_edges (enter C) (nbrs C) K)\<^sup>* `` set rest. enter C y},
                  H' \<union> {y \<in> (search_edges (enter C) (nbrs C) K)\<^sup>* `` set rest. hit y})" for H'
          using x(2) by (rule IH)
        then show ?thesis
          using Cons False search_edges_skip [where enter = "enter C" and nbrs = "nbrs C" and B = "set rest" and K = K, OF False]
          by (subst cone_loop.simps) (auto simp: Let_def)
      qed
    qed
    then show ?case using p by simp
  qed
  from this [of "(st, K)"] show ?thesis using assms(2) by simp
qed

text \<open>A search that starts with an empty cone at one object.\<close>

lemma search_from:
  assumes "ok C" "x \<in> univ C"
  shows "cone_loop hit (enter C) (nbrs C) [x] {} {} =
    Some ({y. (x, y) \<in> {(x, y). enter C x \<and> y \<in> set (nbrs C x)}\<^sup>* \<and> enter C y},
          {y. (x, y) \<in> {(x, y). enter C x \<and> y \<in> set (nbrs C x)}\<^sup>* \<and> hit y})"
  using search [OF assms(1), of "[x]" hit "{}" "{}"] assms(2) by (auto simp: search_edges_def)

lemma reach_univ:
  assumes "ok C" "x \<in> univ C" "(x, y) \<in> {(x, y). enter C x \<and> y \<in> set (nbrs C x)}\<^sup>*"
  shows "y \<in> univ C"
  using assms(3) by (induction rule: rtrancl_induct) (use assms(1,2) next_univ in auto)

end

section \<open>Circuits\<close>

text \<open>
  The circuits that the program keeps: the vectors hold nodes of the circuit, a node lists another one as an output as
  often as the other lists it as an input, and primary inputs have no inputs.
\<close>

definition wf_circuit :: "circuit \<Rightarrow> bool" where
  "wf_circuit C \<longleftrightarrow> distinct (all_nodes C) \<and>
    (\<forall>n\<in>set (all_nodes C).
       set (inputs (nd C n)) \<subseteq> set (all_nodes C) \<and> set (outputs (nd C n)) \<subseteq> set (all_nodes C) \<and>
       (is_input (nd C n) \<longrightarrow> inputs (nd C n) = []) \<and>
       (\<forall>m\<in>set (all_nodes C). count_list (inputs (nd C n)) m = count_list (outputs (nd C m)) n))"

lemma wf_circuitD:
  assumes "wf_circuit C" "n \<in> set (all_nodes C)"
  shows "m \<in> set (inputs (nd C n)) \<Longrightarrow> m \<in> set (all_nodes C)"
    and "m \<in> set (outputs (nd C n)) \<Longrightarrow> m \<in> set (all_nodes C)"
    and "is_input (nd C n) \<Longrightarrow> inputs (nd C n) = []"
    and "m \<in> set (all_nodes C) \<Longrightarrow> m \<in> set (inputs (nd C n)) \<longleftrightarrow> n \<in> set (outputs (nd C m))"
proof -
  from assms have wf: "set (inputs (nd C n)) \<subseteq> set (all_nodes C) \<and> set (outputs (nd C n)) \<subseteq> set (all_nodes C) \<and>
      (is_input (nd C n) \<longrightarrow> inputs (nd C n) = []) \<and>
      (\<forall>m\<in>set (all_nodes C). count_list (inputs (nd C n)) m = count_list (outputs (nd C m)) n)"
    unfolding wf_circuit_def by blast
  show "m \<in> set (inputs (nd C n)) \<Longrightarrow> m \<in> set (all_nodes C)" "m \<in> set (outputs (nd C n)) \<Longrightarrow> m \<in> set (all_nodes C)"
    "is_input (nd C n) \<Longrightarrow> inputs (nd C n) = []" using wf by blast+
  show "m \<in> set (all_nodes C) \<Longrightarrow> m \<in> set (inputs (nd C n)) \<longleftrightarrow> n \<in> set (outputs (nd C m))"
    using wf by (metis count_list_0_iff)
qed

definition fanins :: "circuit \<Rightarrow> (nat \<times> nat) set" where
  "fanins C = {(n, m). n \<in> set (all_nodes C) \<and> m \<in> set (inputs (nd C n))}"

lemma fanins_nodes:
  assumes "wf_circuit C" "(n, m) \<in> (fanins C)\<^sup>*"
  shows "n \<in> set (all_nodes C) \<Longrightarrow> m \<in> set (all_nodes C)" "m \<in> set (all_nodes C) \<Longrightarrow> n \<in> set (all_nodes C)"
  using assms(2) by (induction rule: rtrancl_induct) (auto simp: fanins_def dest: wf_circuitD [OF assms(1)])

interpretation fanin_search: cone_search wf_circuit "\<lambda>C. set (all_nodes C)" "\<lambda>C n. \<not> is_input (nd C n)"
    "\<lambda>C n. inputs (nd C n)"
  by unfold_locales (auto dest: wf_circuitD)

interpretation adapter_search: cone_search wf_circuit "\<lambda>C. set (all_nodes C)" "\<lambda>C n. True" "\<lambda>C n. inputs (nd C n)"
  by unfold_locales (auto dest: wf_circuitD)

interpretation fanout_search: cone_search wf_circuit "\<lambda>C. set (all_nodes C)" "\<lambda>C n. True" "\<lambda>C n. outputs (nd C n)"
  by unfold_locales (auto dest: wf_circuitD)

interpretation exclude_search: cone_search "\<lambda>(C, X). wf_circuit C" "\<lambda>(C, X). set (all_nodes C)" "\<lambda>(C, X) n. n \<notin> (X :: nat set)"
    "\<lambda>(C, X) n. outputs (nd C n)"
  by unfold_locales (auto dest: wf_circuitD)

lemma restrict_reach:
  assumes "x \<in> U" "\<And>y z. y \<in> U \<Longrightarrow> (y, z) \<in> R \<longleftrightarrow> (y, z) \<in> S" "\<And>y z. y \<in> U \<Longrightarrow> (y, z) \<in> R \<Longrightarrow> z \<in> U"
  shows "(x, y) \<in> R\<^sup>* \<longleftrightarrow> (x, y) \<in> S\<^sup>*"
proof -
  have "(x, y) \<in> R\<^sup>* \<Longrightarrow> y \<in> U \<and> (x, y) \<in> S\<^sup>*" by (induction rule: rtrancl_induct) (use assms in \<open>auto intro: rtrancl_into_rtrancl\<close>)
  moreover have "(x, y) \<in> S\<^sup>* \<Longrightarrow> y \<in> U \<and> (x, y) \<in> R\<^sup>*"
    by (induction rule: rtrancl_induct) (use assms in \<open>auto intro: rtrancl_into_rtrancl\<close>)
  ultimately show ?thesis by blast
qed

lemma reach_fanins:
  assumes "wf_circuit C" "n \<in> set (all_nodes C)"
  shows "(n, m) \<in> {(x, y). \<not> is_input (nd C x) \<and> y \<in> set (inputs (nd C x))}\<^sup>* \<longleftrightarrow> (n, m) \<in> (fanins C)\<^sup>*"
    (is "_ \<in> ?R\<^sup>* \<longleftrightarrow> _")
proof (rule restrict_reach [OF assms(2)])
  fix y z
  assume y: "y \<in> set (all_nodes C)"
  have "inputs (nd C y) = []" if "is_input (nd C y)" using wf_circuitD(3) [OF assms(1) y that] .
  then show "(y, z) \<in> ?R \<longleftrightarrow> (y, z) \<in> fanins C" using y by (auto simp: fanins_def)
  show "z \<in> set (all_nodes C)" if "(y, z) \<in> ?R" using wf_circuitD(1) [OF assms(1) y] that by blast
qed

lemma reach_fanouts:
  assumes "wf_circuit C" "n \<in> set (all_nodes C)"
  shows "(n, m) \<in> {(x, y). y \<in> set (outputs (nd C x))}\<^sup>* \<longleftrightarrow> (m, n) \<in> (fanins C)\<^sup>*" (is "_ \<in> ?R\<^sup>* \<longleftrightarrow> _")
proof -
  have "(n, m) \<in> ?R\<^sup>* \<longleftrightarrow> (n, m) \<in> ((fanins C)\<inverse>)\<^sup>*"
  proof (rule restrict_reach [OF assms(2)])
    fix y z
    assume y: "y \<in> set (all_nodes C)"
    show z: "z \<in> set (all_nodes C)" if "(y, z) \<in> ?R" using wf_circuitD(2) [OF assms(1) y] that by blast
    have "y \<in> set (inputs (nd C z)) \<longleftrightarrow> z \<in> set (outputs (nd C y))" if "z \<in> set (all_nodes C)"
      using wf_circuitD(4) [OF assms(1) that y] .
    then show "(y, z) \<in> ?R \<longleftrightarrow> (y, z) \<in> (fanins C)\<inverse>" using z unfolding fanins_def by blast
  qed
  then show ?thesis by (simp add: rtrancl_converse)
qed

lemma GetFaninCone_eq:
  assumes "wf_circuit C" "n \<in> set (all_nodes C)"
  shows "GetFaninCone C n {} {} =
    Some ({m. (n, m) \<in> (fanins C)\<^sup>* \<and> \<not> is_input (nd C m)} - {n}, {m. (n, m) \<in> (fanins C)\<^sup>* \<and> is_input (nd C m)})"
  using fanin_search.search_from [OF assms, of "\<lambda>m. is_input (nd C m)"]
  by (simp add: GetFaninCone_def reach_fanins [OF assms])

lemma GetFanoutCone_eq:
  assumes "wf_circuit C" "n \<in> set (all_nodes C)"
  shows "GetFanoutCone C n {} {} =
    Some ({m. (m, n) \<in> (fanins C)\<^sup>*} - {n}, {m. (m, n) \<in> (fanins C)\<^sup>* \<and> is_output (nd C m)})"
  using fanout_search.search_from [OF assms, of "\<lambda>m. is_output (nd C m)"] reach_fanouts [OF assms]
  by (simp add: GetFanoutCone_def)

section \<open>Examples\<close>

text \<open>A circuit given by its nodes, each by its name, whether it is a primary input or output, its inputs and its outputs.\<close>

definition mk_node :: "string \<Rightarrow> bool \<Rightarrow> bool \<Rightarrow> nat list \<Rightarrow> nat list \<Rightarrow> node" where
  "mk_node s pi po ins outs =
    \<lparr>name = s, cube = '''', cube_pre = '''', is_input = pi, is_output = po, inputs = ins, inputs_pre = [], outputs = outs,
     my_cluster = 0, order = 0, weight = 1, weight_for_elim = 0\<rparr>"

definition list_circuit :: "node list \<Rightarrow> circuit" where
  "list_circuit ns =
    \<lparr>nd = (\<lambda>i. ns ! i), clu = (\<lambda>_. \<lparr>c_name = '''', nodes_c = [], input_nodes_pre = {}, input_nodes = {}\<rparr>),
     pi_nodes = filter (\<lambda>i. is_input (ns ! i)) [0..<length ns], po_nodes = filter (\<lambda>i. is_output (ns ! i)) [0..<length ns], targets = [], all_nodes = [0..<length ns],
     all_clusters = [], all_nodes_map = map_of (zip (map name ns) [0..<length ns]), next_cluster = 0\<rparr>"

text \<open>\<open>f = a b\<close>, \<open>g = f b\<close>, \<open>h = a\<close>: three gates over two inputs.\<close>

definition three_gates :: circuit where
  "three_gates = list_circuit
    [mk_node ''a'' True False [] [2, 4], mk_node ''b'' True False [] [2, 3],
     mk_node ''f'' False False [0, 1] [3], mk_node ''g'' False True [2, 1] [], mk_node ''h'' False True [0] []]"

lemma three_gates_wf [simp]: "wf_circuit three_gates"
  by (simp add: three_gates_def list_circuit_def mk_node_def wf_circuit_def)

lemma three_gates_nodes [simp]: "all_nodes three_gates = [0, 1, 2, 3, 4]"
  by (simp add: three_gates_def list_circuit_def)

section \<open>Properties\<close>

text \<open>
  C39: \<open>Circuit::GetFaninCone\<close> and \<open>GetFanoutCone\<close> end on every circuit, cyclic ones included. Started with empty sets they find the nodes that are
  connected to the given one by a path, split into the primary inputs and the others (fanin), and with the primary
  outputs apart as well (fanout); the node itself is left out of the cones. The two searches agree: \<open>m\<close> is found from
  \<open>n\<close> along inputs when and only when \<open>n\<close> is found from \<open>m\<close> along outputs.
\<close>

theorem cones_correct:
  assumes "wf_circuit C" "n \<in> set (all_nodes C)" "m \<in> set (all_nodes C)"
  shows "\<exists>F P G Q. GetFaninCone C n {} {} = Some (F, P) \<and> GetFanoutCone C m {} {} = Some (G, Q) \<and>
    F = {k. (n, k) \<in> (fanins C)\<^sup>* \<and> \<not> is_input (nd C k)} - {n} \<and> P = {k. (n, k) \<in> (fanins C)\<^sup>* \<and> is_input (nd C k)} \<and>
    G = {k. (k, m) \<in> (fanins C)\<^sup>*} - {m} \<and> Q = {k. (k, m) \<in> (fanins C)\<^sup>* \<and> is_output (nd C k)} \<and>
    (n \<noteq> m \<longrightarrow> (m \<in> F \<union> P \<longleftrightarrow> n \<in> G))"
  using GetFaninCone_eq [OF assms(1,2)] GetFanoutCone_eq [OF assms(1,3)] by auto

theorem cones_correct_witness:
  "GetFaninCone three_gates 3 {} {} = Some ({2}, {0, 1}) \<and> GetFanoutCone three_gates 0 {} {} = Some ({2, 3, 4}, {3, 4})"
proof -
  have "\<exists>F P G Q. GetFaninCone three_gates 3 {} {} = Some (F, P) \<and> GetFanoutCone three_gates 0 {} {} = Some (G, Q) \<and>
      (3 \<noteq> (0 :: nat) \<longrightarrow> (0 \<in> F \<union> P \<longleftrightarrow> 3 \<in> G))"
    using cones_correct [of three_gates 3 0] by auto
  moreover have "GetFaninCone three_gates 3 {} {} = Some ({2}, {0, 1})" "GetFanoutCone three_gates 0 {} {} = Some ({2, 3, 4}, {3, 4})"
    by (auto simp: GetFaninCone_def GetFanoutCone_def three_gates_def list_circuit_def mk_node_def cone_loop.simps)
  ultimately show ?thesis by blast
qed

text \<open>
  \<open>GetFanoutCone\<close> with excluded nodes finds what can be reached from the start nodes along outputs by paths on
  which no node is excluded, without the start nodes themselves. An excluded start node starts no path.
\<close>

theorem GetFanoutCone_exclude_correct:
  assumes "wf_circuit C" "S \<subseteq> set (all_nodes C)"
  shows "GetFanoutCone_exclude C S {} X =
    Some ({m. m \<notin> X \<and> (\<exists>n\<in>S. (n, m) \<in> {(x, y). x \<notin> X \<and> y \<in> set (outputs (nd C x))}\<^sup>*)} - S)"
proof -
  have "set (rev (sorted_list_of_set S)) = S" using finite_subset [OF assms(2)] by simp
  then show ?thesis
    using exclude_search.search [of "(C, X)" "rev (sorted_list_of_set S)" "\<lambda>_. False" "{}" "{}"] assms
    by (auto simp: GetFanoutCone_exclude_def search_edges_def)
qed

theorem GetFanoutCone_exclude_witness: "GetFanoutCone_exclude three_gates {0, 1} {} {2} = Some {3, 4}"
proof -
  have "GetFanoutCone_exclude three_gates {0, 1} {} {2} =
      Some ({m. m \<notin> {2} \<and> (\<exists>n\<in>{0, 1}. (n, m) \<in> {(x, y). x \<notin> {2} \<and> y \<in> set (outputs (nd three_gates x))}\<^sup>*)} - {0, 1})"
    by (rule GetFanoutCone_exclude_correct) simp_all
  moreover have "GetFanoutCone_exclude three_gates {0, 1} {} {2} = Some {3, 4}"
    by (auto simp: GetFanoutCone_exclude_def three_gates_def list_circuit_def mk_node_def cone_loop.simps)
  ultimately show ?thesis by metis
qed

text \<open>The other searches for nodes.\<close>

theorem GetFaninCone_adapter_correct:
  assumes "wf_circuit C" "n \<in> set (all_nodes C)"
  shows "GetFaninCone_adapter C n {} = Some ({m. (n, m) \<in> (fanins C)\<^sup>*} - {n})"
proof -
  have "(n, m) \<in> {(x, y). y \<in> set (inputs (nd C x))}\<^sup>* \<longleftrightarrow> (n, m) \<in> (fanins C)\<^sup>*" for m
  proof (rule restrict_reach [OF assms(2)])
    fix y z
    assume y: "y \<in> set (all_nodes C)"
    then show "(y, z) \<in> {(x, y). y \<in> set (inputs (nd C x))} \<longleftrightarrow> (y, z) \<in> fanins C" by (simp add: fanins_def)
    show "z \<in> set (all_nodes C)" if "(y, z) \<in> {(x, y). y \<in> set (inputs (nd C x))}" using wf_circuitD(1) [OF assms(1) y] that by simp
  qed
  then show ?thesis using adapter_search.search_from [OF assms, of "\<lambda>_. False"] by (simp add: GetFaninCone_adapter_def)
qed

theorem GetFaninPi_correct:
  assumes "wf_circuit C" "n \<in> set (all_nodes C)"
  shows "GetFaninPi C n {} = Some {m. (n, m) \<in> (fanins C)\<^sup>* \<and> is_input (nd C m)}"
    and "GetFanoutPo C n {} = Some {m. (m, n) \<in> (fanins C)\<^sup>* \<and> is_output (nd C m)}"
  using GetFaninCone_eq [OF assms] GetFanoutCone_eq [OF assms] by (simp_all add: GetFaninPi_def GetFanoutPo_def)

end
