(* ===== verification/Circ_Cluster.thy ===== *)
theory Circ_Cluster
  imports Circ_Cone "HOL-Library.Monad_Syntax"
begin

text \<open>
  Clusters of nodes: \<open>Cluster::append\<close>, \<open>InitCluster\<close> and \<open>Merge\<close> of \<open>src/circuit/node.cpp\<close>, and the two ways of merging of
  \<open>src/circuit/nodemerge.cpp\<close> that need no solver, \<open>FaninMerge\<close> and \<open>QuickMerge\<close>. \<open>clustered\<close> is the invariant of the partition, \<open>cluster_fanins\<close> the graph
  of the clusters.
\<close>

section \<open>The code\<close>

text \<open>\<open>Cluster::append\<close>: the test of the name is one for the empty string.\<close>

definition append_node :: "nat \<Rightarrow> nat \<Rightarrow> circuit \<Rightarrow> circuit" where
  "append_node c n C =
    upd_clu c (\<lambda>k. k\<lparr>input_nodes := input_nodes k - set (nodes_c k)\<rparr>)
      (upd_node n (\<lambda>x. x\<lparr>my_cluster := c\<rparr>)
        (upd_clu c (\<lambda>k. k\<lparr>c_name := (if c_name k = '''' then name (nd C n) else c_name k), nodes_c := nodes_c k @ [n],
           input_nodes := input_nodes k \<union> set (inputs (nd C n))\<rparr>) C))"

text \<open>
  \<open>new Cluster\<close> takes the next free address. The object of a merged cluster is not freed, it only leaves
  \<open>all_clusters\<close>. \<open>Merge\<close> also answers where the iteration over \<open>all_clusters\<close> goes on; the callers modelled here do not use that.
\<close>

definition new_cluster :: "nat \<Rightarrow> circuit \<Rightarrow> circuit" where
  "new_cluster n C =
    (let c = next_cluster C;
         C = append_node c n (upd_clu c (\<lambda>_. \<lparr>c_name = '''', nodes_c = [], input_nodes_pre = {}, input_nodes = {}\<rparr>) C\<lparr>next_cluster := c + 1\<rparr>)
     in C\<lparr>all_clusters := all_clusters C @ [c]\<rparr>)"

definition InitCluster :: "circuit \<Rightarrow> circuit" where
  "InitCluster C = fold (\<lambda>n C. if is_input (nd C n) then C else new_cluster n C) (all_nodes C) C"

definition Merge :: "nat \<Rightarrow> nat \<Rightarrow> circuit \<Rightarrow> circuit" where
  "Merge clu1 clu2 C =
    upd_clu clu1 (\<lambda>k. k\<lparr>input_nodes := input_nodes k - set (nodes_c k)\<rparr>)
      (fold (append_node clu1) (nodes_c (clu C clu2)) (C\<lparr>all_clusters := remove1 clu2 (all_clusters C)\<rparr>))"

subsection \<open>\<open>QuickMerge\<close>\<close>

text \<open>The first candidate whose inputs, together with those of the seed, are fewest and within the limit.\<close>

definition quick_select :: "nat \<Rightarrow> circuit \<Rightarrow> nat \<Rightarrow> nat list \<Rightarrow> nat option" where
  "quick_select limit_in C seed cand_c =
    fst (fold (\<lambda>c (selected, min).
           let size = card (input_nodes (clu C seed) \<union> input_nodes (clu C c))
           in if size < min then (Some c, size) else (selected, min))
         cand_c (None, limit_in + 1))"

definition quick_cands :: "circuit \<Rightarrow> nat \<Rightarrow> nat list option" where
  "quick_cands C seed =
    do { c_tfo \<leftarrow> GetFanoutCone_cluster C seed {};
         c_tfi \<leftarrow> GetFaninCone_cluster C seed {};
         Some (filter (\<lambda>c. c \<notin> c_tfo \<and> c \<notin> c_tfi \<and> c \<noteq> seed) (all_clusters C)) }"

partial_function (option) quick_seed :: "nat \<Rightarrow> nat \<Rightarrow> circuit \<times> nat \<Rightarrow> (circuit \<times> nat) option" where
  "quick_seed limit_in seed s =
    (case s of (C, quick_cnt) \<Rightarrow>
       if card (input_nodes (clu C seed)) < limit_in then
         do { cand_c \<leftarrow> quick_cands C seed;
              (case quick_select limit_in C seed cand_c of
                 Some selected \<Rightarrow> quick_seed limit_in seed (Merge seed selected C, quick_cnt + 1)
               | None \<Rightarrow> Some (C, quick_cnt)) }
       else Some (C, quick_cnt))"

text \<open>
  The loop over \<open>all_clusters\<close> goes over the list \<open>todo\<close> of those that the iterator has yet to reach; clusters that were erased meanwhile leave
  it, and the order of the others stays.
\<close>

partial_function (option) quick_all :: "nat \<Rightarrow> nat list \<Rightarrow> circuit \<times> nat \<Rightarrow> (circuit \<times> nat) option" where
  "quick_all limit_in todo s =
    (case todo of
       [] \<Rightarrow> Some s
     | seed # rest \<Rightarrow>
         do { s \<leftarrow> quick_seed limit_in seed s;
              quick_all limit_in (filter (\<lambda>c. c \<in> set (all_clusters (fst s))) rest) s })"

definition QuickMerge :: "nat \<Rightarrow> circuit \<Rightarrow> (circuit \<times> nat) option" where
  "QuickMerge limit_in C = quick_all limit_in (all_clusters C) (C, 0)"

subsection \<open>\<open>FaninMerge\<close>\<close>

text \<open>The loop that collects the inputs of the fanin clusters, left as soon as there are too many.\<close>

fun fanin_gather :: "nat \<Rightarrow> circuit \<Rightarrow> nat list \<Rightarrow> nat set \<Rightarrow> nat set \<Rightarrow> nat set \<times> nat set" where
  "fanin_gather limit_in C [] fanin_all fanin_new = (fanin_all, fanin_new)"
| "fanin_gather limit_in C (n # ns) fanin_all fanin_new =
    (if is_input (nd C n) then fanin_gather limit_in C ns (insert n fanin_all) fanin_new
     else let ins = input_nodes (clu C (my_cluster (nd C n)));
              fanin_all = fanin_all \<union> ins; fanin_new = fanin_new \<union> ins
          in if limit_in < card fanin_all then (fanin_all, fanin_new)
             else fanin_gather limit_in C ns fanin_all fanin_new)"

definition fanin_step :: "nat \<Rightarrow> nat \<Rightarrow> circuit \<Rightarrow> circuit" where
  "fanin_step seed n C =
    (if is_input (nd C n) then upd_clu seed (\<lambda>k. k\<lparr>input_nodes := insert n (input_nodes k)\<rparr>) C
     else if seed = my_cluster (nd C n) then C
     else Merge seed (my_cluster (nd C n)) C)"

definition fanin_seed :: "nat \<Rightarrow> nat \<Rightarrow> circuit \<times> nat \<Rightarrow> circuit \<times> nat" where
  "fanin_seed limit_in seed = (\<lambda>(C, fanin_cnt).
    let ins = input_nodes (clu C seed);
        (fanin_all, fanin_new) = fanin_gather limit_in C (sorted_list_of_set ins) {} {}
    in if card fanin_all \<le> limit_in \<and> card fanin_new \<noteq> 0 then
         (fold (fanin_step seed) (sorted_list_of_set ins) (upd_clu seed (\<lambda>k. k\<lparr>input_nodes := {}\<rparr>) C), fanin_cnt + 1)
       else (C, fanin_cnt))"

function fanin_all :: "nat \<Rightarrow> nat list \<Rightarrow> circuit \<times> nat \<Rightarrow> circuit \<times> nat" where
  "fanin_all limit_in [] s = s"
| "fanin_all limit_in (seed # rest) s =
    (let s = fanin_seed limit_in seed s
     in fanin_all limit_in (filter (\<lambda>c. c \<in> set (all_clusters (fst s))) rest) s)"
  by pat_completeness auto

termination fanin_all
  by (relation "measure (\<lambda>(l, todo, s). length todo)") (auto simp: less_Suc_eq_le)

definition FaninMerge :: "nat \<Rightarrow> circuit \<Rightarrow> circuit \<times> nat" where
  "FaninMerge limit_in C = fanin_all limit_in (all_clusters C) (C, 0)"

section \<open>The partition into clusters\<close>

lemma upd_node_sel [simp]:
  "nd (upd_node n f C) = (nd C)(n := f (nd C n))" "clu (upd_node n f C) = clu C" "all_nodes (upd_node n f C) = all_nodes C"
  "all_clusters (upd_node n f C) = all_clusters C" "next_cluster (upd_node n f C) = next_cluster C"
  "targets (upd_node n f C) = targets C" "all_nodes_map (upd_node n f C) = all_nodes_map C"
  by (simp_all add: upd_node_def)

lemma upd_clu_sel [simp]:
  "clu (upd_clu c g C) = (clu C)(c := g (clu C c))" "nd (upd_clu c g C) = nd C" "all_nodes (upd_clu c g C) = all_nodes C"
  "all_clusters (upd_clu c g C) = all_clusters C" "next_cluster (upd_clu c g C) = next_cluster C"
  "targets (upd_clu c g C) = targets C" "all_nodes_map (upd_clu c g C) = all_nodes_map C"
  by (simp_all add: upd_clu_def)

text \<open>
  A partition: every node that is no primary input is in the live cluster that it points to, and the live clusters
  hold nothing else.
\<close>

definition partition_ok :: "circuit \<Rightarrow> bool" where
  "partition_ok C \<longleftrightarrow> distinct (all_clusters C) \<and> (\<forall>c\<in>set (all_clusters C). c < next_cluster C) \<and>
    (\<forall>n\<in>set (all_nodes C). \<not> is_input (nd C n) \<longrightarrow>
       my_cluster (nd C n) \<in> set (all_clusters C) \<and> n \<in> set (nodes_c (clu C (my_cluster (nd C n))))) \<and>
    (\<forall>c\<in>set (all_clusters C). nodes_c (clu C c) \<noteq> [] \<and> distinct (nodes_c (clu C c)) \<and>
       (\<forall>n\<in>set (nodes_c (clu C c)). n \<in> set (all_nodes C) \<and> \<not> is_input (nd C n) \<and> my_cluster (nd C n) = c))"

definition ins_of :: "circuit \<Rightarrow> nat list \<Rightarrow> nat set" where
  "ins_of C ns = (\<Union>n\<in>set ns. set (inputs (nd C n)))"

text \<open>The inputs that a cluster keeps are those of its nodes that come from outside.\<close>

definition inputs_ok :: "circuit \<Rightarrow> nat \<Rightarrow> bool" where
  "inputs_ok C c \<longleftrightarrow> input_nodes (clu C c) = ins_of C (nodes_c (clu C c)) - set (nodes_c (clu C c))"

definition clustered :: "circuit \<Rightarrow> bool" where
  "clustered C \<longleftrightarrow> wf_circuit C \<and> partition_ok C \<and> (\<forall>c\<in>set (all_clusters C). inputs_ok C c)"

lemma partition_okD:
  assumes "partition_ok C"
  shows "distinct (all_clusters C)"
    and "c \<in> set (all_clusters C) \<Longrightarrow> c < next_cluster C"
    and "n \<in> set (all_nodes C) \<Longrightarrow> \<not> is_input (nd C n) \<Longrightarrow> my_cluster (nd C n) \<in> set (all_clusters C)"
    and "n \<in> set (all_nodes C) \<Longrightarrow> \<not> is_input (nd C n) \<Longrightarrow> n \<in> set (nodes_c (clu C (my_cluster (nd C n))))"
    and "c \<in> set (all_clusters C) \<Longrightarrow> nodes_c (clu C c) \<noteq> []"
    and "c \<in> set (all_clusters C) \<Longrightarrow> distinct (nodes_c (clu C c))"
    and "c \<in> set (all_clusters C) \<Longrightarrow> n \<in> set (nodes_c (clu C c)) \<Longrightarrow> n \<in> set (all_nodes C)"
    and "c \<in> set (all_clusters C) \<Longrightarrow> n \<in> set (nodes_c (clu C c)) \<Longrightarrow> \<not> is_input (nd C n)"
    and "c \<in> set (all_clusters C) \<Longrightarrow> n \<in> set (nodes_c (clu C c)) \<Longrightarrow> my_cluster (nd C n) = c"
  using assms unfolding partition_ok_def by blast+

text \<open>Circuits that differ in the clusters of their nodes only.\<close>

definition same_net :: "circuit \<Rightarrow> circuit \<Rightarrow> bool" where
  "same_net C D \<longleftrightarrow> all_nodes D = all_nodes C \<and> all_nodes_map D = all_nodes_map C \<and> targets D = targets C \<and>
    (\<forall>n. \<exists>c. nd D n = (nd C n)\<lparr>my_cluster := c\<rparr>)"

lemma same_net_refl [simp]: "same_net C C"
proof -
  have "\<exists>c. nd C n = (nd C n)\<lparr>my_cluster := c\<rparr>" for n by (rule exI [of _ "my_cluster (nd C n)"]) simp
  then show ?thesis by (simp add: same_net_def)
qed

lemma same_net_sel:
  assumes "same_net C D"
  shows "all_nodes D = all_nodes C" "inputs (nd D n) = inputs (nd C n)" "outputs (nd D n) = outputs (nd C n)"
    "is_input (nd D n) = is_input (nd C n)" "name (nd D n) = name (nd C n)"
proof -
  from assms obtain c where "nd D n = (nd C n)\<lparr>my_cluster := c\<rparr>" unfolding same_net_def by blast
  then show "inputs (nd D n) = inputs (nd C n)" "outputs (nd D n) = outputs (nd C n)"
    "is_input (nd D n) = is_input (nd C n)" "name (nd D n) = name (nd C n)" by simp_all
  show "all_nodes D = all_nodes C" using assms by (simp add: same_net_def)
qed

lemma same_net_trans:
  assumes "same_net B C" "same_net C D"
  shows "same_net B D"
proof -
  have "\<exists>c. nd D n = (nd B n)\<lparr>my_cluster := c\<rparr>" for n
  proof -
    obtain c d where "nd C n = (nd B n)\<lparr>my_cluster := c\<rparr>" "nd D n = (nd C n)\<lparr>my_cluster := d\<rparr>"
      using assms unfolding same_net_def by blast
    then have "nd D n = (nd B n)\<lparr>my_cluster := d\<rparr>" by simp
    then show ?thesis ..
  qed
  then show ?thesis using assms by (simp add: same_net_def)
qed

lemma same_net_wf: "same_net C D \<Longrightarrow> wf_circuit D \<longleftrightarrow> wf_circuit C"
  by (simp add: wf_circuit_def same_net_sel)

lemma same_net_ins_of: "same_net C D \<Longrightarrow> ins_of D ns = ins_of C ns"
  by (simp add: ins_of_def same_net_sel)

section \<open>What the operations do\<close>

lemma append_node_sel:
  "nd (append_node c n C) = (nd C)(n := (nd C n)\<lparr>my_cluster := c\<rparr>)"
  "nodes_c (clu (append_node c n C) c) = nodes_c (clu C c) @ [n]"
  "input_nodes (clu (append_node c n C) c) = input_nodes (clu C c) \<union> set (inputs (nd C n)) - (set (nodes_c (clu C c)) \<union> {n})"
  "k \<noteq> c \<Longrightarrow> clu (append_node c n C) k = clu C k"
  "all_nodes (append_node c n C) = all_nodes C" "all_clusters (append_node c n C) = all_clusters C"
  "next_cluster (append_node c n C) = next_cluster C" "targets (append_node c n C) = targets C"
  "all_nodes_map (append_node c n C) = all_nodes_map C"
  by (simp_all add: append_node_def)

lemma fold_append:
  "nd (fold (append_node c) ns C) = (\<lambda>n. if n \<in> set ns then (nd C n)\<lparr>my_cluster := c\<rparr> else nd C n)"
  "nodes_c (clu (fold (append_node c) ns C) c) = nodes_c (clu C c) @ ns"
  "k \<noteq> c \<Longrightarrow> clu (fold (append_node c) ns C) k = clu C k"
  "all_nodes (fold (append_node c) ns C) = all_nodes C" "all_clusters (fold (append_node c) ns C) = all_clusters C"
  "next_cluster (fold (append_node c) ns C) = next_cluster C" "targets (fold (append_node c) ns C) = targets C"
  "all_nodes_map (fold (append_node c) ns C) = all_nodes_map C"
  by (induction ns arbitrary: C) (auto simp: append_node_sel fun_eq_iff)

lemma fold_append_inputs:
  "input_nodes (clu (fold (append_node c) ns C) c) - set (nodes_c (clu C c) @ ns) =
    input_nodes (clu C c) \<union> ins_of C ns - set (nodes_c (clu C c) @ ns)"
proof (induction ns arbitrary: C)
  case (Cons n ns)
  have "ins_of (append_node c n C) ns = ins_of C ns" by (auto simp: ins_of_def append_node_sel split: if_splits)
  then show ?case using Cons.IH [of "append_node c n C"] by (auto simp: append_node_sel ins_of_def)
qed (simp add: ins_of_def)

lemma Merge_sel:
  "nd (Merge s t C) = (\<lambda>n. if n \<in> set (nodes_c (clu C t)) then (nd C n)\<lparr>my_cluster := s\<rparr> else nd C n)"
  "nodes_c (clu (Merge s t C) s) = nodes_c (clu C s) @ nodes_c (clu C t)"
  "input_nodes (clu (Merge s t C) s) =
    input_nodes (clu C s) \<union> ins_of C (nodes_c (clu C t)) - (set (nodes_c (clu C s)) \<union> set (nodes_c (clu C t)))"
  "k \<noteq> s \<Longrightarrow> clu (Merge s t C) k = clu C k"
  "all_nodes (Merge s t C) = all_nodes C" "all_clusters (Merge s t C) = remove1 t (all_clusters C)"
  "next_cluster (Merge s t C) = next_cluster C" "targets (Merge s t C) = targets C"
  "all_nodes_map (Merge s t C) = all_nodes_map C"
proof -
  let ?C = "C\<lparr>all_clusters := remove1 t (all_clusters C)\<rparr>"
  have "ins_of ?C (nodes_c (clu C t)) = ins_of C (nodes_c (clu C t))" by (simp add: ins_of_def)
  with fold_append_inputs [of s "nodes_c (clu C t)" ?C]
  show "input_nodes (clu (Merge s t C) s) =
    input_nodes (clu C s) \<union> ins_of C (nodes_c (clu C t)) - (set (nodes_c (clu C s)) \<union> set (nodes_c (clu C t)))"
    by (simp add: Merge_def fold_append)
qed (simp_all add: Merge_def fold_append fun_eq_iff)

lemma Merge_same_net: "same_net C (Merge s t C)"
proof -
  have "\<exists>c. nd (Merge s t C) n = (nd C n)\<lparr>my_cluster := c\<rparr>" for n
    by (rule exI [of _ "if n \<in> set (nodes_c (clu C t)) then s else my_cluster (nd C n)"]) (simp add: Merge_sel)
  then show ?thesis by (simp add: same_net_def Merge_sel)
qed

text \<open>Two live clusters become one.\<close>

lemma Merge_partition:
  assumes "partition_ok C" "s \<in> set (all_clusters C)" "t \<in> set (all_clusters C)" "s \<noteq> t"
  shows "partition_ok (Merge s t C)"
proof -
  note p = partition_okD [OF assms(1)]
  have live: "set (all_clusters (Merge s t C)) = set (all_clusters C) - {t}" "distinct (all_clusters (Merge s t C))"
    using p(1) by (simp_all add: Merge_sel)
  have disj: "n \<notin> set (nodes_c (clu C c))" if "n \<in> set (nodes_c (clu C d))" "c \<noteq> d" "c \<in> set (all_clusters C)" "d \<in> set (all_clusters C)"
    for n c d using p(9) that by blast
  have my: "my_cluster (nd (Merge s t C) n) = (if my_cluster (nd C n) = t then s else my_cluster (nd C n))"
    if "n \<in> set (all_nodes C)" "\<not> is_input (nd C n)" for n
    using p(4) [OF that] p(9) [OF assms(3), of n] by (auto simp: Merge_sel)
  have net: "all_nodes (Merge s t C) = all_nodes C" "is_input (nd (Merge s t C) n) = is_input (nd C n)" for n
    using same_net_sel [OF Merge_same_net] by simp_all
  have nodes: "set (nodes_c (clu (Merge s t C) c)) =
      (if c = s then set (nodes_c (clu C s)) \<union> set (nodes_c (clu C t)) else set (nodes_c (clu C c)))" for c
    by (simp add: Merge_sel)
  have 1: "my_cluster (nd (Merge s t C) n) \<in> set (all_clusters (Merge s t C)) \<and>
      n \<in> set (nodes_c (clu (Merge s t C) (my_cluster (nd (Merge s t C) n))))"
    if "n \<in> set (all_nodes C)" "\<not> is_input (nd C n)" for n
    using p(3,4) [OF that] my [OF that] assms(2,4) by (auto simp: live nodes)
  have 2: "nodes_c (clu (Merge s t C) c) \<noteq> [] \<and> distinct (nodes_c (clu (Merge s t C) c))" if "c \<in> set (all_clusters C)" "c \<noteq> t" for c
    using p(5,6) [OF that(1)] p(6) [OF assms(3)] disj [OF _ assms(4) assms(2,3)] by (cases "c = s") (auto simp: Merge_sel)
  have 3: "n \<in> set (all_nodes C) \<and> \<not> is_input (nd C n) \<and> my_cluster (nd (Merge s t C) n) = c"
    if c: "c \<in> set (all_clusters C)" "c \<noteq> t" and n: "n \<in> set (nodes_c (clu (Merge s t C) c))" for c n
  proof -
    from n consider "n \<in> set (nodes_c (clu C c))" | "c = s" "n \<in> set (nodes_c (clu C t))" by (auto simp: nodes split: if_splits)
    then show ?thesis
    proof cases
      case 1
      then have n: "n \<in> set (all_nodes C)" "\<not> is_input (nd C n)" "my_cluster (nd C n) = c" using p(7-9) [OF c(1)] by blast+
      then show ?thesis using my [OF n(1,2)] c(2) by simp
    next
      case 2
      then have n: "n \<in> set (all_nodes C)" "\<not> is_input (nd C n)" "my_cluster (nd C n) = t" using p(7-9) [OF assms(3)] by blast+
      then show ?thesis using my [OF n(1,2)] 2 by simp
    qed
  qed
  show ?thesis unfolding partition_ok_def net using 1 2 3 live p(2) by (auto simp: Merge_sel(7))
qed

lemma Merge_inputs_ok:
  assumes "partition_ok C" "s \<in> set (all_clusters C)" "t \<in> set (all_clusters C)" "s \<noteq> t" "inputs_ok C s"
  shows "inputs_ok (Merge s t C) s"
  using assms(5) same_net_ins_of [OF Merge_same_net] by (auto simp: inputs_ok_def Merge_sel ins_of_def)

lemma Merge_inputs_ok_other: "k \<noteq> s \<Longrightarrow> inputs_ok (Merge s t C) k \<longleftrightarrow> inputs_ok C k"
  by (simp add: inputs_ok_def Merge_sel(4) same_net_ins_of [OF Merge_same_net])

lemma Merge_clustered:
  assumes "clustered C" "s \<in> set (all_clusters C)" "t \<in> set (all_clusters C)" "s \<noteq> t"
  shows "clustered (Merge s t C)"
proof -
  have c: "wf_circuit C" "partition_ok C" "\<And>k. k \<in> set (all_clusters C) \<Longrightarrow> inputs_ok C k" using assms(1) by (auto simp: clustered_def)
  have "inputs_ok (Merge s t C) k" if "k \<in> set (all_clusters (Merge s t C))" for k
  proof (cases "k = s")
    case True
    then show ?thesis using Merge_inputs_ok [OF c(2) assms(2-4) c(3) [OF assms(2)]] by simp
  next
    case False
    have "k \<in> set (all_clusters C)" using that set_remove1_subset [of t "all_clusters C"] by (auto simp: Merge_sel)
    then show ?thesis using Merge_inputs_ok_other [OF False] c(3) by simp
  qed
  then show ?thesis
    using c(1) same_net_wf [OF Merge_same_net] Merge_partition [OF c(2) assms(2-4)] by (simp add: clustered_def)
qed

lemma clustered_finite:
  assumes "clustered C" "c \<in> set (all_clusters C)"
  shows "finite (input_nodes (clu C c))"
  using assms by (auto simp: clustered_def inputs_ok_def ins_of_def)

text \<open>What every merging does: clusters disappear, and those that grow stay within the limit.\<close>

definition clusters_grown :: "nat \<Rightarrow> circuit \<Rightarrow> circuit \<Rightarrow> bool" where
  "clusters_grown limit_in C D \<longleftrightarrow> clustered D \<and> same_net C D \<and> set (all_clusters D) \<subseteq> set (all_clusters C) \<and>
    (\<forall>c\<in>set (all_clusters D). clu D c = clu C c \<or> card (input_nodes (clu D c)) \<le> limit_in)"

lemma clusters_grown_refl: "clustered C \<Longrightarrow> clusters_grown limit_in C C"
  by (simp add: clusters_grown_def)

lemma clusters_grown_trans:
  assumes "clusters_grown limit_in B C" "clusters_grown limit_in C D"
  shows "clusters_grown limit_in B D"
proof -
  have "clu D c = clu B c \<or> card (input_nodes (clu D c)) \<le> limit_in" if "c \<in> set (all_clusters D)" for c
  proof -
    have "clu D c = clu C c \<or> card (input_nodes (clu D c)) \<le> limit_in" "clu C c = clu B c \<or> card (input_nodes (clu C c)) \<le> limit_in"
      using assms that unfolding clusters_grown_def by blast+
    then show ?thesis by auto
  qed
  then show ?thesis using assms same_net_trans unfolding clusters_grown_def by blast
qed

section \<open>The graph of the clusters\<close>

definition cluster_fanins :: "circuit \<Rightarrow> (nat \<times> nat) set" where
  "cluster_fanins C = {(c, d). c \<in> set (all_clusters C) \<and> d \<in> set (fanin_clusters C c)}"

text \<open>No cluster needs, over other clusters, its own outputs.\<close>

definition acyclic_clusters :: "circuit \<Rightarrow> bool" where
  "acyclic_clusters C \<longleftrightarrow> acyclic (cluster_fanins C - Id)"

lemma cluster_fanins_iff:
  assumes "clustered C"
  shows "(c, d) \<in> cluster_fanins C \<longleftrightarrow>
    (\<exists>n m. (n, m) \<in> fanins C \<and> \<not> is_input (nd C m) \<and> my_cluster (nd C n) = c \<and> my_cluster (nd C m) = d)"
proof -
  have w: "wf_circuit C" and p: "partition_ok C" using assms by (simp_all add: clustered_def)
  show ?thesis
  proof
    assume "(c, d) \<in> cluster_fanins C"
    then obtain n m where nm: "c \<in> set (all_clusters C)" "n \<in> set (nodes_c (clu C c))" "m \<in> set (inputs (nd C n))" "\<not> is_input (nd C m)"
        "d = my_cluster (nd C m)"
      unfolding cluster_fanins_def fanin_clusters_def by auto
    then show "\<exists>n m. (n, m) \<in> fanins C \<and> \<not> is_input (nd C m) \<and> my_cluster (nd C n) = c \<and> my_cluster (nd C m) = d"
      using partition_okD(7,9) [OF p nm(1,2)] unfolding fanins_def by blast
  next
    assume "\<exists>n m. (n, m) \<in> fanins C \<and> \<not> is_input (nd C m) \<and> my_cluster (nd C n) = c \<and> my_cluster (nd C m) = d"
    then obtain n m where nm: "n \<in> set (all_nodes C)" "m \<in> set (inputs (nd C n))" "\<not> is_input (nd C m)" "my_cluster (nd C n) = c" "my_cluster (nd C m) = d"
      unfolding fanins_def by blast
    have "\<not> is_input (nd C n)" using wf_circuitD(3) [OF w nm(1)] nm(2) by auto
    then have "c \<in> set (all_clusters C)" "n \<in> set (nodes_c (clu C c))" using partition_okD(3,4) [OF p nm(1)] nm(4) by auto
    then show "(c, d) \<in> cluster_fanins C" using nm unfolding cluster_fanins_def fanin_clusters_def by force
  qed
qed

lemma fanout_clusters_iff:
  assumes "clustered C" "d \<in> set (all_clusters C)"
  shows "c \<in> set (fanout_clusters C d) \<longleftrightarrow> (c, d) \<in> cluster_fanins C"
proof -
  have w: "wf_circuit C" and p: "partition_ok C" using assms by (simp_all add: clustered_def)
  have "c \<in> set (fanout_clusters C d) \<longleftrightarrow> (\<exists>m n. m \<in> set (nodes_c (clu C d)) \<and> n \<in> set (outputs (nd C m)) \<and> my_cluster (nd C n) = c)"
    by (auto simp: fanout_clusters_def)
  also have "\<dots> \<longleftrightarrow> (\<exists>m n. (n, m) \<in> fanins C \<and> \<not> is_input (nd C m) \<and> my_cluster (nd C m) = d \<and> my_cluster (nd C n) = c)"
  proof -
    have "m \<in> set (nodes_c (clu C d)) \<and> n \<in> set (outputs (nd C m)) \<longleftrightarrow>
        (n, m) \<in> fanins C \<and> \<not> is_input (nd C m) \<and> my_cluster (nd C m) = d" for m n
      using partition_okD(7-9) [OF p assms(2), of m] partition_okD(4) [OF p, of m] wf_circuitD(2,4) [OF w, of m n]
        wf_circuitD(1,4) [OF w, of n m] unfolding fanins_def by blast
    then show ?thesis by blast
  qed
  finally show ?thesis unfolding cluster_fanins_iff [OF assms(1)] by blast
qed

lemma cluster_fanins_live:
  assumes "clustered C" "(c, d) \<in> cluster_fanins C"
  shows "c \<in> set (all_clusters C)" "d \<in> set (all_clusters C)"
proof -
  show "c \<in> set (all_clusters C)" using assms(2) by (simp add: cluster_fanins_def)
  obtain n m where "(n, m) \<in> fanins C" "\<not> is_input (nd C m)" "my_cluster (nd C m) = d"
    using assms(2) unfolding cluster_fanins_iff [OF assms(1)] by blast
  then show "d \<in> set (all_clusters C)" using assms(1) wf_circuitD(1) partition_okD(3) unfolding clustered_def fanins_def by blast
qed

interpretation cluster_fanin_search: cone_search clustered "\<lambda>C. set (all_clusters C)" "\<lambda>_ _. True" fanin_clusters
  by unfold_locales (auto dest: cluster_fanins_live(2) simp: cluster_fanins_def)

interpretation cluster_fanout_search: cone_search clustered "\<lambda>C. set (all_clusters C)" "\<lambda>_ _. True" fanout_clusters
  by unfold_locales (auto dest: cluster_fanins_live(1) simp: fanout_clusters_iff)

lemma GetFaninCone_cluster_eq:
  assumes "clustered C" "c \<in> set (all_clusters C)"
  shows "GetFaninCone_cluster C c {} = Some ({d. (c, d) \<in> (cluster_fanins C)\<^sup>*} - {c})"
proof -
  have "(c, d) \<in> {(x, y). y \<in> set (fanin_clusters C x)}\<^sup>* \<longleftrightarrow> (c, d) \<in> (cluster_fanins C)\<^sup>*" for d
  proof (rule restrict_reach [OF assms(2)])
    fix y z
    assume y: "y \<in> set (all_clusters C)"
    then show e: "(y, z) \<in> {(x, y). y \<in> set (fanin_clusters C x)} \<longleftrightarrow> (y, z) \<in> cluster_fanins C" by (simp add: cluster_fanins_def)
    show "z \<in> set (all_clusters C)" if "(y, z) \<in> {(x, y). y \<in> set (fanin_clusters C x)}"
      using that e cluster_fanins_live(2) [OF assms(1)] by blast
  qed
  then show ?thesis
    using cluster_fanin_search.search_from [OF assms, of "\<lambda>_. False"] by (simp add: GetFaninCone_cluster_def)
qed

lemma GetFanoutCone_cluster_eq:
  assumes "clustered C" "c \<in> set (all_clusters C)"
  shows "GetFanoutCone_cluster C c {} = Some ({d. (d, c) \<in> (cluster_fanins C)\<^sup>*} - {c})"
proof -
  have "(c, d) \<in> {(x, y). y \<in> set (fanout_clusters C x)}\<^sup>* \<longleftrightarrow> (c, d) \<in> ((cluster_fanins C)\<inverse>)\<^sup>*" for d
  proof (rule restrict_reach [OF assms(2)])
    fix y z
    assume y: "y \<in> set (all_clusters C)"
    then show e: "(y, z) \<in> {(x, y). y \<in> set (fanout_clusters C x)} \<longleftrightarrow> (y, z) \<in> (cluster_fanins C)\<inverse>"
      by (simp add: fanout_clusters_iff [OF assms(1)])
    show "z \<in> set (all_clusters C)" if "(y, z) \<in> {(x, y). y \<in> set (fanout_clusters C x)}"
      using that e cluster_fanins_live(1) [OF assms(1)] by blast
  qed
  then show ?thesis
    using cluster_fanout_search.search_from [OF assms, of "\<lambda>_. False"] by (simp add: GetFanoutCone_cluster_def rtrancl_converse)
qed

text \<open>Gluing two objects of an acyclic graph of which neither reaches the other.\<close>

lemma acyclic_glue:
  assumes acyc: "acyclic (E - Id)" and st: "(s, t) \<notin> E\<^sup>*" "(t, s) \<notin> E\<^sup>*"
    and F: "\<And>x y. (x, y) \<in> F \<Longrightarrow> \<exists>a b. (a, b) \<in> E \<and> x = (if a = t then s else a) \<and> y = (if b = t then s else b)"
  shows "acyclic (F - Id)"
proof -
  define D where "D x = (if x = s then {s, t} else {x})" for x
  have E: "(a, c) \<in> (E - Id)\<^sup>+" if "(a, b) \<in> (E - Id)\<^sup>+" "(b, c) \<in> (E - Id)\<^sup>+" for a b c using that by (rule trancl_trans)
  have no: "(c, d) \<notin> (E - Id)\<^sup>+" if "c \<in> {s, t}" "d \<in> {s, t}" for c d
  proof (cases "c = d")
    case True
    then show ?thesis using acyc by (simp add: acyclic_def)
  next
    case False
    then have "(c, d) \<notin> E\<^sup>*" using that st by auto
    then show ?thesis using trancl_mono [of "(c, d)" "E - Id" E] trancl_into_rtrancl by fastforce
  qed
  have step: "\<exists>a\<in>D x. \<exists>b\<in>D y. (a, b) \<in> E - Id" if "(x, y) \<in> F - Id" for x y
    using F [of x y] that unfolding D_def by (auto split: if_splits)
  have "(\<exists>a\<in>D x. \<exists>b\<in>D y. (a, b) \<in> (E - Id)\<^sup>+) \<or>
      (\<exists>a\<in>D x. \<exists>c\<in>{s, t}. (a, c) \<in> (E - Id)\<^sup>+) \<and> (\<exists>c\<in>{s, t}. \<exists>b\<in>D y. (c, b) \<in> (E - Id)\<^sup>+)"
    if "(x, y) \<in> (F - Id)\<^sup>+" for x y
    using that
  proof (induction rule: trancl_induct)
    case (base y)
    then show ?case using step [OF base] r_into_trancl by blast
  next
    case (step y z)
    from \<open>(y, z) \<in> F - Id\<close> obtain b' c where b': "b' \<in> D y" "c \<in> D z" "(b', c) \<in> (E - Id)\<^sup>+"
      using \<open>\<And>x y. (x, y) \<in> F - Id \<Longrightarrow> \<exists>a\<in>D x. \<exists>b\<in>D y. (a, b) \<in> E - Id\<close> r_into_trancl by blast
    show ?case
    proof (cases "y = s")
      case True
      then have "D y = {s, t}" by (simp add: D_def)
      then show ?thesis using step.IH b' by blast
    next
      case False
      then have y: "D y = {y}" by (simp add: D_def)
      have "\<exists>b\<in>D z. (a, b) \<in> (E - Id)\<^sup>+" if "\<exists>b\<in>D y. (a, b) \<in> (E - Id)\<^sup>+" for a
      proof
        show "c \<in> D z" by (fact b')
        show "(a, c) \<in> (E - Id)\<^sup>+" using that b'(1,3) unfolding y by (auto intro: E)
      qed
      then show ?thesis using step.IH by blast
    qed
  qed
  note path = this
  have "(x, x) \<notin> (F - Id)\<^sup>+" for x
  proof
    assume "(x, x) \<in> (F - Id)\<^sup>+"
    note p = path [OF this]
    show False
    proof (cases "x = s")
      case True
      then have "D x = {s, t}" by (simp add: D_def)
      with p obtain c d where "c \<in> {s, t}" "d \<in> {s, t}" "(c, d) \<in> (E - Id)\<^sup>+" by blast
      then show False using no by blast
    next
      case False
      then have D: "D x = {x}" by (simp add: D_def)
      have "(x, x) \<notin> (E - Id)\<^sup>+" using acyc by (simp add: acyclic_def)
      with p D obtain c d where "c \<in> {s, t}" "d \<in> {s, t}" "(x, d) \<in> (E - Id)\<^sup>+" "(c, x) \<in> (E - Id)\<^sup>+" by auto
      then show False using no [of c d] E [of c x d] by blast
    qed
  qed
  then show ?thesis unfolding acyclic_def by blast
qed

lemma Merge_acyclic:
  assumes "clustered C" "s \<in> set (all_clusters C)" "t \<in> set (all_clusters C)" "s \<noteq> t" "acyclic_clusters C"
    and "(s, t) \<notin> (cluster_fanins C)\<^sup>*" "(t, s) \<notin> (cluster_fanins C)\<^sup>*"
  shows "acyclic_clusters (Merge s t C)"
  unfolding acyclic_clusters_def
proof (rule acyclic_glue [OF assms(5) [unfolded acyclic_clusters_def] assms(6,7)])
  fix x y
  assume "(x, y) \<in> cluster_fanins (Merge s t C)"
  then obtain n m where nm: "(n, m) \<in> fanins C" "\<not> is_input (nd C m)" "my_cluster (nd (Merge s t C) n) = x" "my_cluster (nd (Merge s t C) m) = y"
    unfolding cluster_fanins_iff [OF Merge_clustered [OF assms(1-4)]] fanins_def same_net_sel [OF Merge_same_net] by blast
  have w: "wf_circuit C" and p: "partition_ok C" using assms(1) by (simp_all add: clustered_def)
  have my: "my_cluster (nd (Merge s t C) k) = (if my_cluster (nd C k) = t then s else my_cluster (nd C k))"
    if "k \<in> set (all_nodes C)" "\<not> is_input (nd C k)" for k
    using partition_okD(4) [OF p that] partition_okD(9) [OF p assms(3), of k] by (auto simp: Merge_sel)
  have "n \<in> set (all_nodes C)" "\<not> is_input (nd C n)" "m \<in> set (all_nodes C)"
    using nm(1) wf_circuitD(1,3) [OF w, of n] by (auto simp: fanins_def)
  then show "\<exists>a b. (a, b) \<in> cluster_fanins C \<and> x = (if a = t then s else a) \<and> y = (if b = t then s else b)"
    using nm my cluster_fanins_iff [OF assms(1)] by blast
qed

section \<open>\<open>QuickMerge\<close>: merging of unrelated clusters\<close>

definition unrelated :: "circuit \<Rightarrow> nat \<Rightarrow> nat \<Rightarrow> bool" where
  "unrelated C c d \<longleftrightarrow> (c, d) \<notin> (cluster_fanins C)\<^sup>* \<and> (d, c) \<notin> (cluster_fanins C)\<^sup>*"

text \<open>Merging of unrelated clusters adds to the inputs of clusters and to the paths between them only.\<close>

definition keeps :: "circuit \<Rightarrow> circuit \<Rightarrow> bool" where
  "keeps C D \<longleftrightarrow> (acyclic_clusters C \<longrightarrow> acyclic_clusters D) \<and>
    (\<forall>c\<in>set (all_clusters D). c \<in> set (all_clusters C) \<and> input_nodes (clu C c) \<subseteq> input_nodes (clu D c) \<and>
       (\<forall>d\<in>set (all_clusters D). unrelated D c d \<longrightarrow> unrelated C c d))"

lemma keeps_refl: "keeps C C"
  by (simp add: keeps_def)

lemma keeps_trans: "keeps B C \<Longrightarrow> keeps C D \<Longrightarrow> keeps B D"
  unfolding keeps_def by blast

lemma Merge_cluster_fanins:
  assumes "clustered C" "s \<in> set (all_clusters C)" "t \<in> set (all_clusters C)" "s \<noteq> t" "(a, b) \<in> cluster_fanins C"
  shows "(if a = t then s else a, if b = t then s else b) \<in> cluster_fanins (Merge s t C)"
proof -
  obtain n m where nm: "(n, m) \<in> fanins C" "\<not> is_input (nd C m)" "my_cluster (nd C n) = a" "my_cluster (nd C m) = b"
    using assms(5) unfolding cluster_fanins_iff [OF assms(1)] by blast
  have w: "wf_circuit C" and p: "partition_ok C" using assms(1) by (simp_all add: clustered_def)
  have my: "my_cluster (nd (Merge s t C) k) = (if my_cluster (nd C k) = t then s else my_cluster (nd C k))"
    if "k \<in> set (all_nodes C)" "\<not> is_input (nd C k)" for k
    using partition_okD(4) [OF p that] partition_okD(9) [OF p assms(3), of k] by (auto simp: Merge_sel)
  have "n \<in> set (all_nodes C)" "\<not> is_input (nd C n)" "m \<in> set (all_nodes C)"
    using nm(1) wf_circuitD(1,3) [OF w, of n] by (auto simp: fanins_def)
  then have "my_cluster (nd (Merge s t C) n) = (if a = t then s else a)" "my_cluster (nd (Merge s t C) m) = (if b = t then s else b)"
    using my nm(2-4) by simp_all
  moreover have "(n, m) \<in> fanins (Merge s t C)" "\<not> is_input (nd (Merge s t C) m)"
    using nm(1,2) by (simp_all add: fanins_def same_net_sel [OF Merge_same_net])
  ultimately show ?thesis unfolding cluster_fanins_iff [OF Merge_clustered [OF assms(1-4)]] by blast
qed

lemma Merge_unrelated:
  assumes C: "clustered C" "s \<in> set (all_clusters C)" "t \<in> set (all_clusters C)" "s \<noteq> t" and u: "unrelated C s t"
  shows "keeps C (Merge s t C)"
    and "input_nodes (clu (Merge s t C) s) = input_nodes (clu C s) \<union> input_nodes (clu C t)"
proof -
  have p: "partition_ok C" using C(1) by (simp add: clustered_def)
  have star: "((if a = t then s else a), (if b = t then s else b)) \<in> (cluster_fanins (Merge s t C))\<^sup>*"
    if "(a, b) \<in> (cluster_fanins C)\<^sup>*" for a b
    using that
  proof (induction rule: rtrancl_induct)
    case (step y z)
    then show ?case using Merge_cluster_fanins [OF C step.hyps(2)] by (blast intro: rtrancl_into_rtrancl)
  qed simp
  have path: "(a, b) \<in> (cluster_fanins (Merge s t C))\<^sup>*" if "(a, b) \<in> (cluster_fanins C)\<^sup>*" "a \<noteq> t" "b \<noteq> t" for a b
    using star [OF that(1)] that(2,3) by simp
  have no: "m \<notin> set (nodes_c (clu C d))"
    if "n \<in> set (nodes_c (clu C c))" "m \<in> set (inputs (nd C n))" "{c, d} = {s, t}" for c d n m
  proof
    assume m: "m \<in> set (nodes_c (clu C d))"
    have cd: "c \<in> set (all_clusters C)" "d \<in> set (all_clusters C)" using that(3) C(2,3) by auto
    have "(c, d) \<in> cluster_fanins C" unfolding cluster_fanins_iff [OF C(1)]
      using partition_okD(7,9) [OF p cd(1) that(1)] partition_okD(8,9) [OF p cd(2) m] that(2) unfolding fanins_def by blast
    then show False using u that(3) unfolding unrelated_def by (auto simp: doubleton_eq_iff)
  qed
  have ins: "input_nodes (clu C c) = ins_of C (nodes_c (clu C c)) - set (nodes_c (clu C c))" if "c \<in> set (all_clusters C)" for c
    using C(1) that by (simp add: clustered_def inputs_ok_def)
  show eq: "input_nodes (clu (Merge s t C) s) = input_nodes (clu C s) \<union> input_nodes (clu C t)"
    using no [of _ s _ t] no [of _ t _ s] unfolding Merge_sel ins [OF C(2)] ins [OF C(3)] ins_of_def by blast
  have "input_nodes (clu C c) \<subseteq> input_nodes (clu (Merge s t C) c)" for c
    using eq by (cases "c = s") (auto simp: Merge_sel(4))
  moreover have "acyclic_clusters C \<longrightarrow> acyclic_clusters (Merge s t C)" using Merge_acyclic [OF C] u by (simp add: unrelated_def)
  moreover have "c \<in> set (all_clusters C) \<and> c \<noteq> t" if "c \<in> set (all_clusters (Merge s t C))" for c
    using that partition_okD(1) [OF p] by (simp add: Merge_sel)
  ultimately show "keeps C (Merge s t C)" using path unfolding keeps_def unrelated_def by blast
qed

lemma quick_select_Some:
  assumes "quick_select limit_in C seed cs = Some c"
  shows "c \<in> set cs" "card (input_nodes (clu C seed) \<union> input_nodes (clu C c)) \<le> limit_in"
proof -
  let ?size = "\<lambda>c. card (input_nodes (clu C seed) \<union> input_nodes (clu C c))"
  let ?f = "\<lambda>c (selected, min). let size = ?size c in if size < min then (Some c, size) else (selected, min)"
  have "snd (fold ?f cs a) \<le> snd a \<and> (case fst (fold ?f cs a) of None \<Rightarrow> True
      | Some c \<Rightarrow> fst (fold ?f cs a) = fst a \<and> snd (fold ?f cs a) = snd a \<or> c \<in> set cs \<and> ?size c < snd a)" for a
  proof (induction cs arbitrary: a)
    case (Cons d cs)
    obtain sel m where a: "a = (sel, m)" by (cases a)
    show ?case using Cons.IH [of "?f d a"] by (cases "?size d < m") (auto simp: a Let_def split: option.splits)
  qed (auto split: option.splits)
  from this [of "(None, limit_in + 1)"] assms show "c \<in> set cs" "?size c \<le> limit_in" by (auto simp: quick_select_def)
qed

lemma quick_select_None:
  assumes "quick_select limit_in C seed cs = None" "c \<in> set cs"
  shows "limit_in < card (input_nodes (clu C seed) \<union> input_nodes (clu C c))"
proof -
  let ?size = "\<lambda>c. card (input_nodes (clu C seed) \<union> input_nodes (clu C c))"
  let ?f = "\<lambda>c (selected, min). let size = ?size c in if size < min then (Some c, size) else (selected, min)"
  have "fst (fold ?f cs a) = None \<Longrightarrow> fst a = None \<and> (\<forall>c\<in>set cs. snd a \<le> ?size c)" for a
  proof (induction cs arbitrary: a)
    case (Cons d cs)
    obtain sel m where a: "a = (sel, m)" by (cases a)
    show ?case using Cons.IH [of "?f d a"] Cons.prems by (cases "?size d < m") (auto simp: a Let_def)
  qed simp
  from this [of "(None, limit_in + 1)"] assms show ?thesis by (auto simp: quick_select_def)
qed

lemma quick_cands_eq:
  assumes "clustered C" "seed \<in> set (all_clusters C)"
  shows "quick_cands C seed = Some (filter (\<lambda>c. unrelated C seed c) (all_clusters C))"
proof -
  have "filter (\<lambda>c. c \<notin> {d. (d, seed) \<in> (cluster_fanins C)\<^sup>*} - {seed} \<and> c \<notin> {d. (seed, d) \<in> (cluster_fanins C)\<^sup>*} - {seed} \<and> c \<noteq> seed) xs =
      filter (\<lambda>c. unrelated C seed c) xs" for xs
    by (rule filter_cong) (auto simp: unrelated_def)
  then show ?thesis by (simp add: quick_cands_def GetFaninCone_cluster_eq [OF assms] GetFanoutCone_cluster_eq [OF assms])
qed

text \<open>The clusters of \<open>S\<close> cannot grow any more.\<close>

definition full :: "nat \<Rightarrow> circuit \<Rightarrow> nat set \<Rightarrow> bool" where
  "full limit_in C S \<longleftrightarrow> (\<forall>s\<in>S. \<forall>c\<in>set (all_clusters C). s \<in> set (all_clusters C) \<longrightarrow> unrelated C s c \<longrightarrow>
     card (input_nodes (clu C s)) < limit_in \<longrightarrow> limit_in < card (input_nodes (clu C s) \<union> input_nodes (clu C c)))"

lemma full_keeps:
  assumes "full limit_in C S" "keeps C D" "clustered D"
  shows "full limit_in D S"
  unfolding full_def
proof (intro ballI impI)
  fix s c
  assume s: "s \<in> S" "c \<in> set (all_clusters D)" "s \<in> set (all_clusters D)" "unrelated D s c" "card (input_nodes (clu D s)) < limit_in"
  then have k: "input_nodes (clu C s) \<subseteq> input_nodes (clu D s)" "input_nodes (clu C c) \<subseteq> input_nodes (clu D c)" "unrelated C s c"
    "s \<in> set (all_clusters C)" "c \<in> set (all_clusters C)"
    using assms(2) unfolding keeps_def by blast+
  have fin: "finite (input_nodes (clu D s))" "finite (input_nodes (clu D c))" using clustered_finite [OF assms(3)] s by blast+
  have "card (input_nodes (clu C s)) < limit_in" using card_mono [OF fin(1) k(1)] s(5) by simp
  then have "limit_in < card (input_nodes (clu C s) \<union> input_nodes (clu C c))" using assms(1) s(1) k unfolding full_def by blast
  also have "\<dots> \<le> card (input_nodes (clu D s) \<union> input_nodes (clu D c))" using fin k by (intro card_mono) auto
  finally show "limit_in < card (input_nodes (clu D s) \<union> input_nodes (clu D c))" .
qed

lemma quick_seed_correct:
  assumes "clustered C" "seed \<in> set (all_clusters C)"
  shows "\<exists>D k. quick_seed limit_in seed (C, cnt) = Some (D, k) \<and> clusters_grown limit_in C D \<and> keeps C D \<and>
    length (all_clusters D) + k = length (all_clusters C) + cnt \<and> seed \<in> set (all_clusters D) \<and> full limit_in D {seed}"
  using assms
proof (induction "length (all_clusters C)" arbitrary: C cnt rule: less_induct)
  case less
  note C = less.prems
  show ?case
  proof (cases "card (input_nodes (clu C seed)) < limit_in")
    case False
    then have "full limit_in C {seed}" by (simp add: full_def)
    then show ?thesis using False C clusters_grown_refl keeps_refl by (subst quick_seed.simps) simp
  next
    case True
    let ?cs = "filter (\<lambda>c. unrelated C seed c) (all_clusters C)"
    show ?thesis
    proof (cases "quick_select limit_in C seed ?cs")
      case None
      then have "full limit_in C {seed}" using quick_select_None [OF None] by (auto simp: full_def)
      then show ?thesis using True C None clusters_grown_refl keeps_refl by (subst quick_seed.simps) (simp add: quick_cands_eq)
    next
      case (Some t)
      let ?D = "Merge seed t C"
      from quick_select_Some [OF Some] have t: "t \<in> set (all_clusters C)" "unrelated C seed t"
        "card (input_nodes (clu C seed) \<union> input_nodes (clu C t)) \<le> limit_in" by auto
      then have ne: "seed \<noteq> t" by (auto simp: unrelated_def)
      note M = Merge_clustered [OF C t(1) ne] Merge_unrelated [OF C t(1) ne t(2)]
      have dist: "distinct (all_clusters C)" using C(1) by (simp add: clustered_def partition_ok_def)
      have live: "set (all_clusters ?D) = set (all_clusters C) - {t}" "Suc (length (all_clusters ?D)) = length (all_clusters C)"
        using t(1) dist length_pos_if_in_set [OF t(1)] by (simp_all add: Merge_sel length_remove1)
      have g: "clusters_grown limit_in C ?D"
      proof -
        have "clu ?D c = clu C c \<or> card (input_nodes (clu ?D c)) \<le> limit_in" for c
          using M(3) t(3) Merge_sel(4) [of c seed t C] by (cases "c = seed") auto
        then show ?thesis unfolding clusters_grown_def using M(1) Merge_same_net live(1) by blast
      qed
      have "length (all_clusters ?D) < length (all_clusters C)" "seed \<in> set (all_clusters ?D)" using live C(2) ne by auto
      from less.hyps [OF this(1) M(1) this(2), of "cnt + 1"] obtain D k where D:
        "quick_seed limit_in seed (?D, cnt + 1) = Some (D, k)" "clusters_grown limit_in ?D D" "keeps ?D D"
        "length (all_clusters D) + k = length (all_clusters ?D) + (cnt + 1)" "seed \<in> set (all_clusters D)" "full limit_in D {seed}"
        by blast
      have "quick_seed limit_in seed (C, cnt) = Some (D, k)"
        using D(1) True Some C by (subst quick_seed.simps) (simp add: quick_cands_eq)
      then show ?thesis using D live(2) clusters_grown_trans [OF g D(2)] keeps_trans [OF M(2) D(3)] by auto
    qed
  qed
qed

lemma quick_all_correct:
  assumes "clustered C" "set todo \<subseteq> set (all_clusters C)" "full limit_in C (- set todo)"
  shows "\<exists>D k. quick_all limit_in todo (C, cnt) = Some (D, k) \<and> clusters_grown limit_in C D \<and> keeps C D \<and>
    length (all_clusters D) + k = length (all_clusters C) + cnt \<and> full limit_in D UNIV"
  using assms
proof (induction "length todo" arbitrary: todo C cnt rule: less_induct)
  case less
  show ?case
  proof (cases todo)
    case Nil
    then show ?thesis using less.prems clusters_grown_refl keeps_refl by (subst quick_all.simps) simp
  next
    case (Cons seed rest)
    have "seed \<in> set (all_clusters C)" using less.prems(2) Cons by simp
    from quick_seed_correct [OF less.prems(1) this, of limit_in cnt] obtain B j where B:
      "quick_seed limit_in seed (C, cnt) = Some (B, j)" "clusters_grown limit_in C B" "keeps C B"
      "length (all_clusters B) + j = length (all_clusters C) + cnt" "full limit_in B {seed}" by blast
    let ?rest = "filter (\<lambda>c. c \<in> set (all_clusters B)) rest"
    have "clustered B" using B(2) by (simp add: clusters_grown_def)
    moreover have "full limit_in B (- set ?rest)"
      using full_keeps [OF less.prems(3) B(3) \<open>clustered B\<close>] B(5) Cons unfolding full_def by auto
    moreover have "length ?rest < length todo" using Cons by (simp add: less_Suc_eq_le)
    ultimately obtain D k where D: "quick_all limit_in ?rest (B, j) = Some (D, k)" "clusters_grown limit_in B D" "keeps B D"
      "length (all_clusters D) + k = length (all_clusters B) + j" "full limit_in D UNIV"
      using less.hyps [of ?rest B j] by auto
    have "quick_all limit_in todo (C, cnt) = Some (D, k)" using B(1) D(1) Cons by (subst quick_all.simps) simp
    then show ?thesis using D B(4) clusters_grown_trans [OF B(2) D(2)] keeps_trans [OF B(3) D(3)] by auto
  qed
qed

section \<open>\<open>InitCluster\<close>\<close>

lemma new_cluster_sel:
  "nd (new_cluster n C) = (nd C)(n := (nd C n)\<lparr>my_cluster := next_cluster C\<rparr>)"
  "nodes_c (clu (new_cluster n C) (next_cluster C)) = [n]"
  "input_nodes (clu (new_cluster n C) (next_cluster C)) = set (inputs (nd C n)) - {n}"
  "k \<noteq> next_cluster C \<Longrightarrow> clu (new_cluster n C) k = clu C k"
  "all_nodes (new_cluster n C) = all_nodes C" "all_clusters (new_cluster n C) = all_clusters C @ [next_cluster C]"
  "next_cluster (new_cluster n C) = next_cluster C + 1" "targets (new_cluster n C) = targets C"
  "all_nodes_map (new_cluster n C) = all_nodes_map C"
  by (simp_all add: new_cluster_def append_node_def Let_def)

lemma new_cluster_same_net: "same_net C (new_cluster n C)"
proof -
  have "\<exists>c. nd (new_cluster n C) m = (nd C m)\<lparr>my_cluster := c\<rparr>" for m
    by (rule exI [of _ "if m = n then next_cluster C else my_cluster (nd C m)"]) (simp add: new_cluster_sel)
  then show ?thesis by (simp add: same_net_def new_cluster_sel)
qed

text \<open>The clusters of the nodes \<open>ns\<close>, one each.\<close>

definition singletons :: "nat list \<Rightarrow> circuit \<Rightarrow> bool" where
  "singletons ns C \<longleftrightarrow> distinct (all_clusters C) \<and> (\<forall>c\<in>set (all_clusters C). c < next_cluster C) \<and>
    (\<forall>n\<in>set ns. \<not> is_input (nd C n) \<longrightarrow> my_cluster (nd C n) \<in> set (all_clusters C)) \<and>
    (\<forall>c\<in>set (all_clusters C). \<exists>n\<in>set ns. \<not> is_input (nd C n) \<and> my_cluster (nd C n) = c \<and> nodes_c (clu C c) = [n] \<and>
       input_nodes (clu C c) = set (inputs (nd C n)) - {n}) \<and>
    (\<forall>n\<in>set ns. \<not> is_input (nd C n) \<longrightarrow> nodes_c (clu C (my_cluster (nd C n))) = [n])"

lemma singletons_fold:
  assumes "all_clusters C = []" "distinct ns"
  shows "singletons ns (fold (\<lambda>n C. if is_input (nd C n) then C else new_cluster n C) ns C) \<and>
    same_net C (fold (\<lambda>n C. if is_input (nd C n) then C else new_cluster n C) ns C)"
  using assms(2)
proof (induction ns rule: rev_induct)
  case Nil
  then show ?case using assms(1) by (simp add: singletons_def)
next
  case (snoc n ns)
  let ?D = "fold (\<lambda>n C. if is_input (nd C n) then C else new_cluster n C) ns C"
  have D: "singletons ns ?D" "same_net C ?D" using snoc by auto
  have n: "n \<notin> set ns" using snoc.prems by simp
  show ?case
  proof (cases "is_input (nd ?D n)")
    case True
    then show ?thesis using D unfolding singletons_def by auto
  next
    case False
    let ?E = "new_cluster n ?D"
    have old: "nd ?E m = nd ?D m" if "m \<in> set ns" for m using that n by (auto simp: new_cluster_sel)
    have fresh: "next_cluster ?D \<notin> set (all_clusters ?D)" using D(1) unfolding singletons_def by blast
    then have oldc: "clu ?E c = clu ?D c" if "c \<in> set (all_clusters ?D)" for c using that by (intro new_cluster_sel(4)) auto
    have "distinct (all_clusters ?E)" "\<forall>c\<in>set (all_clusters ?E). c < next_cluster ?E"
      using D(1) fresh unfolding singletons_def by (auto simp: new_cluster_sel less_Suc_eq)
    moreover have "my_cluster (nd ?E m) \<in> set (all_clusters ?E) \<and> nodes_c (clu ?E (my_cluster (nd ?E m))) = [m]"
      if "m \<in> set (ns @ [n])" "\<not> is_input (nd ?E m)" for m
    proof (cases "m = n")
      case True
      then show ?thesis by (simp add: new_cluster_sel)
    next
      case False
      then have m: "m \<in> set ns" "\<not> is_input (nd ?D m)" using that old by auto
      then have "my_cluster (nd ?D m) \<in> set (all_clusters ?D)" "nodes_c (clu ?D (my_cluster (nd ?D m))) = [m]"
        using D(1) unfolding singletons_def by blast+
      then show ?thesis using old [OF m(1)] oldc by (simp add: new_cluster_sel(6))
    qed
    moreover have "\<exists>m\<in>set (ns @ [n]). \<not> is_input (nd ?E m) \<and> my_cluster (nd ?E m) = c \<and> nodes_c (clu ?E c) = [m] \<and>
        input_nodes (clu ?E c) = set (inputs (nd ?E m)) - {m}"
      if "c \<in> set (all_clusters ?E)" for c
    proof (cases "c = next_cluster ?D")
      case True
      then show ?thesis using False by (intro bexI [of _ n]) (simp_all add: new_cluster_sel)
    next
      case False
      then have c: "c \<in> set (all_clusters ?D)" using that by (simp add: new_cluster_sel)
      then obtain m where "m \<in> set ns" "\<not> is_input (nd ?D m)" "my_cluster (nd ?D m) = c" "nodes_c (clu ?D c) = [m]"
          "input_nodes (clu ?D c) = set (inputs (nd ?D m)) - {m}" using D(1) unfolding singletons_def by blast
      then show ?thesis using old oldc [OF c] by (intro bexI [of _ m]) simp_all
    qed
    ultimately have "singletons (ns @ [n]) ?E" unfolding singletons_def by blast
    then show ?thesis using False same_net_trans [OF D(2) new_cluster_same_net] by simp
  qed
qed

lemma InitCluster_correct0:
  assumes "wf_circuit C" "all_clusters C = []"
  shows "clustered (InitCluster C)" "same_net C (InitCluster C)" "acyclic (fanins C - Id) \<Longrightarrow> acyclic_clusters (InitCluster C)"
    "c \<in> set (all_clusters (InitCluster C)) \<Longrightarrow> length (nodes_c (clu (InitCluster C) c)) = 1"
proof -
  let ?D = "InitCluster C"
  have S: "singletons (all_nodes C) ?D" and net: "same_net C ?D"
    using singletons_fold [OF assms(2)] assms(1) by (auto simp: InitCluster_def wf_circuit_def)
  show "same_net C ?D" by (fact net)
  have one: "nodes_c (clu ?D (my_cluster (nd ?D n))) = [n]" if "n \<in> set (all_nodes C)" "\<not> is_input (nd ?D n)" for n
    using S that unfolding singletons_def by blast
  have single: "\<exists>n\<in>set (all_nodes C). \<not> is_input (nd ?D n) \<and> my_cluster (nd ?D n) = c \<and> nodes_c (clu ?D c) = [n] \<and>
       input_nodes (clu ?D c) = set (inputs (nd ?D n)) - {n}" if "c \<in> set (all_clusters ?D)" for c
    using S that unfolding singletons_def by blast
  show "length (nodes_c (clu ?D c)) = 1" if "c \<in> set (all_clusters ?D)" proof -
    from single [OF that] obtain n where "nodes_c (clu ?D c) = [n]" by blast
    then show ?thesis by simp
  qed
  have "nodes_c (clu ?D c) \<noteq> [] \<and> distinct (nodes_c (clu ?D c)) \<and>
       (\<forall>n\<in>set (nodes_c (clu ?D c)). n \<in> set (all_nodes ?D) \<and> \<not> is_input (nd ?D n) \<and> my_cluster (nd ?D n) = c)"
    if "c \<in> set (all_clusters ?D)" for c
  proof -
    from single [OF that] obtain n where "n \<in> set (all_nodes C)" "\<not> is_input (nd ?D n)" "my_cluster (nd ?D n) = c" "nodes_c (clu ?D c) = [n]"
      by blast
    then show ?thesis using same_net_sel(1) [OF net] by simp
  qed
  moreover have "my_cluster (nd ?D n) \<in> set (all_clusters ?D)" if "n \<in> set (all_nodes C)" "\<not> is_input (nd ?D n)" for n
    using S that unfolding singletons_def by blast
  moreover have "distinct (all_clusters ?D)" "\<forall>c\<in>set (all_clusters ?D). c < next_cluster ?D"
    using S unfolding singletons_def by blast+
  moreover have "n \<in> set (nodes_c (clu ?D (my_cluster (nd ?D n))))" if "n \<in> set (all_nodes C)" "\<not> is_input (nd ?D n)" for n
    using one [OF that] by simp
  ultimately have "partition_ok ?D" unfolding partition_ok_def same_net_sel(1) [OF net] by blast
  moreover have "inputs_ok ?D c" if "c \<in> set (all_clusters ?D)" for c
  proof -
    from single [OF that] obtain n where "nodes_c (clu ?D c) = [n]" "input_nodes (clu ?D c) = set (inputs (nd ?D n)) - {n}" by blast
    then show ?thesis by (simp add: inputs_ok_def ins_of_def)
  qed
  ultimately show cl: "clustered ?D" using assms(1) same_net_wf [OF net] by (simp add: clustered_def)
  show "acyclic_clusters ?D" if acyc: "acyclic (fanins C - Id)"
  proof -
    have inj: "m = n" if "my_cluster (nd ?D m) = my_cluster (nd ?D n)" "m \<in> set (all_nodes C)" "n \<in> set (all_nodes C)"
      "\<not> is_input (nd ?D m)" "\<not> is_input (nd ?D n)" for m n
    proof -
      have "[m] = nodes_c (clu ?D (my_cluster (nd ?D m)))" using one [OF that(2,4)] by (rule sym)
      also have "\<dots> = [n]" unfolding that(1) by (rule one [OF that(3,5)])
      finally show ?thesis by simp
    qed
    have edge: "\<exists>n m. (n, m) \<in> fanins C - Id \<and> \<not> is_input (nd ?D n) \<and> \<not> is_input (nd ?D m) \<and> my_cluster (nd ?D n) = c \<and> my_cluster (nd ?D m) = d"
      if "(c, d) \<in> cluster_fanins ?D - Id" for c d
    proof -
      have "(c, d) \<in> cluster_fanins ?D" "c \<noteq> d" using that by auto
      then obtain n m where nm: "(n, m) \<in> fanins ?D" "\<not> is_input (nd ?D m)" "my_cluster (nd ?D n) = c" "my_cluster (nd ?D m) = d"
        unfolding cluster_fanins_iff [OF cl] by blast
      have eq: "fanins ?D = fanins C" by (simp add: fanins_def same_net_sel [OF net])
      have "inputs (nd ?D n) \<noteq> []" "n \<in> set (all_nodes ?D)" using nm(1) by (auto simp: fanins_def)
      moreover have "wf_circuit ?D" using cl by (simp add: clustered_def)
      ultimately have "\<not> is_input (nd ?D n)" using wf_circuitD(3) by blast
      moreover have "n \<noteq> m" using nm(3,4) \<open>c \<noteq> d\<close> by blast
      ultimately show ?thesis using nm unfolding eq by blast
    qed
    have ends: "n \<in> set (all_nodes C)" "m \<in> set (all_nodes C)" if "(n, m) \<in> (fanins C - Id)\<^sup>+" for n m
    proof -
      have "(n, m) \<in> (fanins C)\<^sup>+" using that by (rule trancl_mono) blast
      moreover have "n \<in> set (all_nodes C)" using tranclD [OF that] by (auto simp: fanins_def)
      ultimately show "n \<in> set (all_nodes C)" "m \<in> set (all_nodes C)"
        using fanins_nodes(1) [OF assms(1) trancl_into_rtrancl] by blast+
    qed
    have path: "\<exists>n m. (n, m) \<in> (fanins C - Id)\<^sup>+ \<and> \<not> is_input (nd ?D n) \<and> \<not> is_input (nd ?D m) \<and> my_cluster (nd ?D n) = c \<and> my_cluster (nd ?D m) = d"
      if "(c, d) \<in> (cluster_fanins ?D - Id)\<^sup>+" for c d
      using that
    proof (induction rule: trancl_induct)
      case (base d)
      then show ?case using edge [OF base] by blast
    next
      case (step d e)
      obtain n m where 1: "(n, m) \<in> (fanins C - Id)\<^sup>+" "\<not> is_input (nd ?D n)" "\<not> is_input (nd ?D m)" "my_cluster (nd ?D n) = c" "my_cluster (nd ?D m) = d"
        using step.IH by blast
      obtain m' k where 2: "(m', k) \<in> fanins C - Id" "\<not> is_input (nd ?D m')" "\<not> is_input (nd ?D k)" "my_cluster (nd ?D m') = d" "my_cluster (nd ?D k) = e"
        using edge [OF step.hyps(2)] by blast
      have "m \<in> set (all_nodes C)" by (rule ends(2) [OF 1(1)])
      moreover have "m' \<in> set (all_nodes C)" using 2(1) by (auto simp: fanins_def)
      moreover have "my_cluster (nd ?D m) = my_cluster (nd ?D m')" unfolding 1(5) 2(4) ..
      ultimately have "m = m'" using inj [of m m'] 1(3) 2(2) by blast
      then have "(n, k) \<in> (fanins C - Id)\<^sup>+" using 1(1) 2(1) by (auto intro: trancl_into_trancl)
      then show ?case using 1 2 by blast
    qed
    have "(c, c) \<notin> (cluster_fanins ?D - Id)\<^sup>+" for c
    proof
      assume "(c, c) \<in> (cluster_fanins ?D - Id)\<^sup>+"
      from path [OF this] obtain n m where nm: "(n, m) \<in> (fanins C - Id)\<^sup>+" "\<not> is_input (nd ?D n)" "\<not> is_input (nd ?D m)"
          "my_cluster (nd ?D n) = my_cluster (nd ?D m)" by auto
      have "n = m" using inj [OF nm(4) ends(1) [OF nm(1)] ends(2) [OF nm(1)] nm(2,3)] .
      then show False using nm(1) acyc by (simp add: acyclic_def)
    qed
    then show ?thesis by (simp add: acyclic_clusters_def acyclic_def)
  qed
qed

section \<open>\<open>FaninMerge\<close>: merging a cluster with all its fanin clusters\<close>

lemma fanin_gather_within:
  assumes "fanin_gather limit_in C ns A B = (A', B')" "card A' \<le> limit_in"
  shows "A' = A \<union> (\<Union>n\<in>set ns. if is_input (nd C n) then {n} else input_nodes (clu C (my_cluster (nd C n))))"
    and "B' \<noteq> {} \<Longrightarrow> B = {} \<Longrightarrow> \<exists>n\<in>set ns. \<not> is_input (nd C n)"
proof -
  have "A' = A \<union> (\<Union>n\<in>set ns. if is_input (nd C n) then {n} else input_nodes (clu C (my_cluster (nd C n)))) \<and>
      (B' \<noteq> B \<longrightarrow> (\<exists>n\<in>set ns. \<not> is_input (nd C n)))"
    using assms by (induction limit_in C ns A B rule: fanin_gather.induct) (auto simp: Let_def split: if_splits)
  then show "A' = A \<union> (\<Union>n\<in>set ns. if is_input (nd C n) then {n} else input_nodes (clu C (my_cluster (nd C n))))"
    and "B' \<noteq> {} \<Longrightarrow> B = {} \<Longrightarrow> \<exists>n\<in>set ns. \<not> is_input (nd C n)" by auto
qed

lemma upd_inputs_partition: "partition_ok (upd_clu s (\<lambda>k. k\<lparr>input_nodes := f k\<rparr>) C) \<longleftrightarrow> partition_ok C"
proof -
  have "nodes_c (clu (upd_clu s (\<lambda>k. k\<lparr>input_nodes := f k\<rparr>) C) c) = nodes_c (clu C c)" for c by simp
  then show ?thesis unfolding partition_ok_def by (simp only: upd_clu_sel)
qed

lemma upd_clu_same_net: "same_net C D \<Longrightarrow> same_net C (upd_clu s g D)"
  by (simp add: same_net_def)

text \<open>
  While the inputs \<open>rest\<close> of the seed of the circuit \<open>C\<close> have yet to be merged. \<open>A\<close> holds the inputs that the merged cluster may have.
\<close>

definition fanin_inv :: "circuit \<Rightarrow> nat \<Rightarrow> nat set \<Rightarrow> nat list \<Rightarrow> circuit \<Rightarrow> bool" where
  "fanin_inv C seed A rest D \<longleftrightarrow> partition_ok D \<and> same_net C D \<and> seed \<in> set (all_clusters D) \<and>
    set (all_clusters D) \<subseteq> set (all_clusters C) \<and>
    (\<forall>c\<in>set (all_clusters D). c \<noteq> seed \<longrightarrow> clu D c = clu C c) \<and>
    (let N = set (nodes_c (clu D seed)); J = input_nodes (clu D seed)
     in J \<union> set rest \<union> N = ins_of C (nodes_c (clu D seed)) \<union> N \<and> J \<inter> N = {} \<and> J \<subseteq> A)"

lemma fanin_step_inv:
  assumes C: "clustered C" and inv: "fanin_inv C seed A (n # rest) D" and n: "n \<in> set (all_nodes C)"
    "if is_input (nd C n) then n \<in> A else input_nodes (clu C (my_cluster (nd C n))) \<subseteq> A"
  shows "fanin_inv C seed A rest (fanin_step seed n D) \<and>
    length (all_clusters (fanin_step seed n D)) \<le> length (all_clusters D) \<and>
    (\<not> is_input (nd C n) \<and> my_cluster (nd D n) \<noteq> seed \<longrightarrow> length (all_clusters (fanin_step seed n D)) < length (all_clusters D))"
proof -
  let ?N = "set (nodes_c (clu D seed))" and ?J = "input_nodes (clu D seed)"
  have D: "partition_ok D" "same_net C D" "seed \<in> set (all_clusters D)" "set (all_clusters D) \<subseteq> set (all_clusters C)"
    and other: "\<And>c. c \<in> set (all_clusters D) \<Longrightarrow> c \<noteq> seed \<Longrightarrow> clu D c = clu C c"
    and J: "?J \<union> set (n # rest) \<union> ?N = ins_of C (nodes_c (clu D seed)) \<union> ?N" "?J \<inter> ?N = {}" "?J \<subseteq> A"
    using inv unfolding fanin_inv_def Let_def by blast+
  have pi: "is_input (nd D n) = is_input (nd C n)" "n \<in> set (all_nodes D)" using same_net_sel [OF D(2)] n(1) by simp_all
  consider (pi) "is_input (nd C n)" | (own) "\<not> is_input (nd C n)" "my_cluster (nd D n) = seed"
    | (other) "\<not> is_input (nd C n)" "my_cluster (nd D n) \<noteq> seed" by blast
  then show ?thesis
  proof cases
    case pi
    have "n \<notin> ?N" using partition_okD(8) [OF D(1,3)] pi \<open>is_input (nd D n) = is_input (nd C n)\<close> by blast
    then show ?thesis
      using pi n(2) D other J \<open>is_input (nd D n) = is_input (nd C n)\<close> unfolding fanin_inv_def fanin_step_def Let_def
      by (auto simp: upd_inputs_partition upd_clu_same_net)
  next
    case own
    have "n \<in> ?N" using partition_okD(4) [OF D(1) pi(2)] own pi(1) by simp
    then have "?J \<union> set rest \<union> ?N = ins_of C (nodes_c (clu D seed)) \<union> ?N" using J(1) by auto
    then show ?thesis using own pi(1) D other J(2,3) unfolding fanin_inv_def fanin_step_def Let_def by simp
  next
    case other
    let ?t = "my_cluster (nd D n)" and ?E = "Merge seed (my_cluster (nd D n)) D"
    have np: "\<not> is_input (nd D n)" using other(1) pi(1) by simp
    have t: "?t \<in> set (all_clusters D)" "n \<in> set (nodes_c (clu D ?t))" "?t \<in> set (all_clusters C)" "clu D ?t = clu C ?t"
      using partition_okD(3,4) [OF D(1) pi(2) np] D(4) \<open>\<And>c. c \<in> set (all_clusters D) \<Longrightarrow> c \<noteq> seed \<Longrightarrow> clu D c = clu C c\<close> other(2) by blast+
    have "my_cluster (nd C n) = ?t" using partition_okD(9) [of C ?t n] C t by (simp add: clustered_def)
    then have A: "ins_of C (nodes_c (clu D ?t)) - set (nodes_c (clu D ?t)) \<subseteq> A"
      using n(2) other(1) t C by (auto simp: clustered_def inputs_ok_def)
    have E: "nodes_c (clu ?E seed) = nodes_c (clu D seed) @ nodes_c (clu D ?t)"
      "input_nodes (clu ?E seed) = ?J \<union> ins_of C (nodes_c (clu D ?t)) - (?N \<union> set (nodes_c (clu D ?t)))"
      by (simp_all add: Merge_sel same_net_ins_of [OF D(2)])
    have ins: "ins_of C (xs @ ys) = ins_of C xs \<union> ins_of C ys" for xs ys by (auto simp: ins_of_def)
    have live: "set (all_clusters ?E) = set (all_clusters D) - {?t}" "length (all_clusters ?E) < length (all_clusters D)"
      using t(1) partition_okD(1) [OF D(1)] length_pos_if_in_set [OF t(1)] by (simp_all add: Merge_sel length_remove1)
    have "fanin_inv C seed A rest ?E"
      unfolding fanin_inv_def Let_def
    proof (intro conjI ballI impI)
      show "partition_ok ?E" using Merge_partition [OF D(1,3) t(1)] other(2) by auto
      show "same_net C ?E" using same_net_trans [OF D(2) Merge_same_net] .
      show "seed \<in> set (all_clusters ?E)" using live(1) D(3) other(2) by auto
      show "set (all_clusters ?E) \<subseteq> set (all_clusters C)" using live(1) D(4) by blast
      show "clu ?E c = clu C c" if "c \<in> set (all_clusters ?E)" "c \<noteq> seed" for c
        using that live(1) \<open>\<And>c. c \<in> set (all_clusters D) \<Longrightarrow> c \<noteq> seed \<Longrightarrow> clu D c = clu C c\<close> by (simp add: Merge_sel(4))
      show "input_nodes (clu ?E seed) \<union> set rest \<union> set (nodes_c (clu ?E seed)) = ins_of C (nodes_c (clu ?E seed)) \<union> set (nodes_c (clu ?E seed))"
        using J(1) t(2) unfolding E ins by auto
      show "input_nodes (clu ?E seed) \<inter> set (nodes_c (clu ?E seed)) = {}" unfolding E by auto
      show "input_nodes (clu ?E seed) \<subseteq> A" using J(3) A unfolding E by blast
    qed
    then show ?thesis using live(2) other np by (simp add: fanin_step_def)
  qed
qed

lemma fanin_step_net: "is_input (nd D n) \<or> my_cluster (nd D n) = seed \<Longrightarrow> nd (fanin_step seed n D) = nd D"
  by (auto simp: fanin_step_def)

lemma fanin_steps:
  assumes "clustered C" "fanin_inv C seed A rest D"
    and "\<And>n. n \<in> set rest \<Longrightarrow> n \<in> set (all_nodes C) \<and>
      (if is_input (nd C n) then n \<in> A else input_nodes (clu C (my_cluster (nd C n))) \<subseteq> A)"
  shows "fanin_inv C seed A [] (fold (fanin_step seed) rest D) \<and>
    length (all_clusters (fold (fanin_step seed) rest D)) \<le> length (all_clusters D) \<and>
    ((\<exists>n\<in>set rest. \<not> is_input (nd C n) \<and> my_cluster (nd D n) \<noteq> seed) \<longrightarrow>
      length (all_clusters (fold (fanin_step seed) rest D)) < length (all_clusters D))"
  using assms(2,3)
proof (induction rest arbitrary: D)
  case (Cons n rest)
  let ?E = "fanin_step seed n D"
  have 1: "fanin_inv C seed A rest ?E" "length (all_clusters ?E) \<le> length (all_clusters D)"
    "\<not> is_input (nd C n) \<Longrightarrow> my_cluster (nd D n) \<noteq> seed \<Longrightarrow> length (all_clusters ?E) < length (all_clusters D)"
    using fanin_step_inv [OF assms(1) Cons.prems(1)] Cons.prems(2) [of n] by auto
  note IH = Cons.IH [OF 1(1)]
  have pi: "is_input (nd D n) = is_input (nd C n)" using Cons.prems(1) same_net_sel(4) unfolding fanin_inv_def by blast
  have "length (all_clusters (fold (fanin_step seed) rest ?E)) < length (all_clusters D)"
    if ex: "\<exists>m\<in>set (n # rest). \<not> is_input (nd C m) \<and> my_cluster (nd D m) \<noteq> seed"
  proof (cases "is_input (nd C n) \<or> my_cluster (nd D n) = seed")
    case True
    then have "nd ?E = nd D" using pi by (intro fanin_step_net) simp
    then have "\<exists>m\<in>set rest. \<not> is_input (nd C m) \<and> my_cluster (nd ?E m) \<noteq> seed" using ex True by auto
    then show ?thesis using IH Cons.prems(2) 1(2) by fastforce
  next
    case False
    then show ?thesis using IH Cons.prems(2) 1(3) by fastforce
  qed
  moreover have "length (all_clusters (fold (fanin_step seed) rest ?E)) \<le> length (all_clusters D)"
    "fanin_inv C seed A [] (fold (fanin_step seed) rest ?E)" using IH Cons.prems(2) 1(2) by fastforce+
  ultimately show ?case by simp
qed simp

lemma fanin_seed_correct:
  assumes C: "clustered C" "seed \<in> set (all_clusters C)"
  shows "clusters_grown limit_in C (fst (fanin_seed limit_in seed (C, cnt))) \<and>
    length (all_clusters (fst (fanin_seed limit_in seed (C, cnt)))) + snd (fanin_seed limit_in seed (C, cnt)) \<le> length (all_clusters C) + cnt"
proof -
  let ?L = "sorted_list_of_set (input_nodes (clu C seed))" and ?N = "set (nodes_c (clu C seed))"
  let ?D = "upd_clu seed (\<lambda>k. k\<lparr>input_nodes := {}\<rparr>) C"
  obtain A B where AB: "fanin_gather limit_in C ?L {} {} = (A, B)" by fastforce
  have w: "wf_circuit C" and p: "partition_ok C" and i: "inputs_ok C seed" using C by (simp_all add: clustered_def)
  show ?thesis
  proof (cases "card A \<le> limit_in \<and> card B \<noteq> 0")
    case False
    then have "fanin_seed limit_in seed (C, cnt) = (C, cnt)" using AB by (auto simp: fanin_seed_def)
    then show ?thesis using clusters_grown_refl [OF C(1)] by simp
  next
    case True
    let ?E = "fold (fanin_step seed) ?L ?D"
    from True have eq: "fanin_seed limit_in seed (C, cnt) = (?E, cnt + 1)" using AB by (simp add: fanin_seed_def)
    have fin: "finite (input_nodes (clu C seed))" by (rule clustered_finite [OF C])
    have L: "set ?L = ins_of C (nodes_c (clu C seed)) - ?N" using i fin by (simp add: inputs_ok_def)
    have A: "A = (\<Union>n\<in>set ?L. if is_input (nd C n) then {n} else input_nodes (clu C (my_cluster (nd C n))))"
      and ex: "\<exists>n\<in>set ?L. \<not> is_input (nd C n)"
    proof -
      have le: "card A \<le> limit_in" and "B \<noteq> {}" using True by auto
      then show "\<exists>n\<in>set ?L. \<not> is_input (nd C n)" using fanin_gather_within(2) [OF AB le] by blast
      show "A = (\<Union>n\<in>set ?L. if is_input (nd C n) then {n} else input_nodes (clu C (my_cluster (nd C n))))"
        using fanin_gather_within(1) [OF AB le] by simp
    qed
    have nodes: "n \<in> set (all_nodes C)" if n: "n \<in> set ?L" for n
    proof -
      obtain m where "m \<in> ?N" "n \<in> set (inputs (nd C m))" using n unfolding L ins_of_def by blast
      then show ?thesis using wf_circuitD(1) [OF w] partition_okD(7) [OF p C(2)] by blast
    qed
    have "fanin_inv C seed A ?L ?D"
      unfolding fanin_inv_def Let_def
    proof (intro conjI ballI impI)
      show "partition_ok ?D" using p by (simp only: upd_inputs_partition)
      show "same_net C ?D" by (simp add: upd_clu_same_net)
      show "input_nodes (clu ?D seed) \<union> set ?L \<union> set (nodes_c (clu ?D seed)) = ins_of C (nodes_c (clu ?D seed)) \<union> set (nodes_c (clu ?D seed))"
        unfolding L by auto
    qed (use C in auto)
    moreover have "n \<in> set (all_nodes C) \<and> (if is_input (nd C n) then n \<in> A else input_nodes (clu C (my_cluster (nd C n))) \<subseteq> A)"
      if "n \<in> set ?L" for n
      using nodes [OF that] that A by (auto split: if_splits)
    ultimately have E: "fanin_inv C seed A [] ?E"
      "(\<exists>n\<in>set ?L. \<not> is_input (nd C n) \<and> my_cluster (nd ?D n) \<noteq> seed) \<longrightarrow> length (all_clusters ?E) < length (all_clusters ?D)"
      using fanin_steps [OF C(1), of seed A ?L ?D] by blast+
    have "my_cluster (nd C n) \<noteq> seed" if "n \<in> set ?L" "\<not> is_input (nd C n)" for n
      using partition_okD(4) [OF p nodes [OF that(1)] that(2)] that(1) unfolding L by auto
    then have len: "length (all_clusters ?E) < length (all_clusters C)" using ex E(2) by (simp only: upd_clu_sel) blast
    have finA: "finite A"
    proof -
      have "finite (input_nodes (clu C (my_cluster (nd C n))))" if "n \<in> set ?L" "\<not> is_input (nd C n)" for n
        using clustered_finite [OF C(1) partition_okD(3) [OF p nodes [OF that(1)] that(2)]] .
      then show ?thesis unfolding A by (intro finite_UN_I) auto
    qed
    have inv: "partition_ok ?E" "same_net C ?E" "set (all_clusters ?E) \<subseteq> set (all_clusters C)"
      "\<And>c. c \<in> set (all_clusters ?E) \<Longrightarrow> c \<noteq> seed \<Longrightarrow> clu ?E c = clu C c"
      "input_nodes (clu ?E seed) \<union> set (nodes_c (clu ?E seed)) = ins_of C (nodes_c (clu ?E seed)) \<union> set (nodes_c (clu ?E seed))"
      "input_nodes (clu ?E seed) \<inter> set (nodes_c (clu ?E seed)) = {}" "input_nodes (clu ?E seed) \<subseteq> A"
      using E(1) unfolding fanin_inv_def Let_def by auto
    have "inputs_ok ?E c" if "c \<in> set (all_clusters ?E)" for c
    proof (cases "c = seed")
      case True
      then show ?thesis using inv(5,6) unfolding inputs_ok_def same_net_ins_of [OF inv(2)] by blast
    next
      case False
      then show ?thesis using inv(4) [OF that] inv(3) that C(1) unfolding clustered_def inputs_ok_def same_net_ins_of [OF inv(2)] by auto
    qed
    then have "clustered ?E" using w inv(1) same_net_wf [OF inv(2)] by (simp add: clustered_def)
    moreover have "clu ?E c = clu C c \<or> card (input_nodes (clu ?E c)) \<le> limit_in" if "c \<in> set (all_clusters ?E)" for c
      using inv(4) [OF that] card_mono [OF finA inv(7)] True by (cases "c = seed") auto
    ultimately have "clusters_grown limit_in C ?E" using inv(2,3) unfolding clusters_grown_def by blast
    then show ?thesis using eq len by simp
  qed
qed

lemma fanin_all_correct:
  assumes "clustered C" "set todo \<subseteq> set (all_clusters C)"
  shows "clusters_grown limit_in C (fst (fanin_all limit_in todo (C, cnt))) \<and>
    length (all_clusters (fst (fanin_all limit_in todo (C, cnt)))) + snd (fanin_all limit_in todo (C, cnt)) \<le> length (all_clusters C) + cnt"
  using assms
proof (induction "length todo" arbitrary: todo C cnt rule: less_induct)
  case less
  show ?case
  proof (cases todo)
    case Nil
    then show ?thesis using clusters_grown_refl [OF less.prems(1)] by simp
  next
    case (Cons seed rest)
    obtain D k where D: "fanin_seed limit_in seed (C, cnt) = (D, k)" by fastforce
    have g: "clusters_grown limit_in C D" "length (all_clusters D) + k \<le> length (all_clusters C) + cnt"
      using fanin_seed_correct [OF less.prems(1), of seed limit_in cnt] less.prems(2) Cons D by auto
    let ?rest = "filter (\<lambda>c. c \<in> set (all_clusters D)) rest"
    have "length ?rest < length todo" "clustered D" "set ?rest \<subseteq> set (all_clusters D)"
      using Cons g(1) by (auto simp: clusters_grown_def less_Suc_eq_le)
    from less.hyps [OF this, of k] show ?thesis using Cons D g clusters_grown_trans [OF g(1)] by (auto simp: Let_def)
  qed
qed

section \<open>Properties\<close>

text \<open>
  C40: \<open>InitCluster\<close> turns a circuit without clusters into one whose nodes, primary inputs apart, are
  partitioned into clusters of one node, each with the inputs of its node; apart from that it changes nothing. When the circuit has no
  combinational cycle (longer than a self loop), neither have its clusters.
\<close>

theorem InitCluster_correct:
  assumes "wf_circuit C" "all_clusters C = []"
  shows "clustered (InitCluster C) \<and> same_net C (InitCluster C) \<and>
    (\<forall>c\<in>set (all_clusters (InitCluster C)). length (nodes_c (clu (InitCluster C) c)) = 1) \<and>
    (acyclic (fanins C - Id) \<longrightarrow> acyclic_clusters (InitCluster C))"
  using InitCluster_correct0 [OF assms] by blast

lemma three_gates_sel:
  "outputs (nd three_gates 0) = [2, 4]" "outputs (nd three_gates (Suc 0)) = [2, 3]" "outputs (nd three_gates 2) = [3]"
  "outputs (nd three_gates 3) = []" "outputs (nd three_gates 4) = []"
  "inputs (nd three_gates 2) = [0, Suc 0]" "inputs (nd three_gates 3) = [2, Suc 0]" "inputs (nd three_gates 4) = [0]"
  "map (\<lambda>n. is_input (nd three_gates n)) [0, Suc 0, 2, 3, 4] = [True, True, False, False, False]"
  "map (\<lambda>n. is_output (nd three_gates n)) [0, Suc 0, 2, 3, 4] = [False, False, False, True, True]"
  "map (\<lambda>n. all_nodes_map three_gates (name (nd three_gates n))) [0, Suc 0, 2, 3, 4] = map Some [0, Suc 0, 2, 3, 4]"
  "all_clusters three_gates = []" "next_cluster three_gates = 0"
  by (simp_all add: three_gates_def list_circuit_def mk_node_def)

lemma three_gates_init:
  "InitCluster three_gates = new_cluster 4 (new_cluster 3 (new_cluster 2 three_gates))"
  using three_gates_sel(9) by (simp add: InitCluster_def new_cluster_sel)

lemma three_gates_clusters:
  "all_clusters three_gates = []" "all_clusters (InitCluster three_gates) = [0, Suc 0, 2]"
  "nodes_c (clu (InitCluster three_gates) 0) = [2]" "nodes_c (clu (InitCluster three_gates) (Suc 0)) = [3]"
  "nodes_c (clu (InitCluster three_gates) 2) = [4]"
  "input_nodes (clu (InitCluster three_gates) 0) = {0, Suc 0}" "input_nodes (clu (InitCluster three_gates) (Suc 0)) = {Suc 0, 2}"
  "input_nodes (clu (InitCluster three_gates) 2) = {0}"
  "my_cluster (nd (InitCluster three_gates) 2) = 0" "my_cluster (nd (InitCluster three_gates) 3) = Suc 0"
  "my_cluster (nd (InitCluster three_gates) 4) = 2"
proof -
  let ?C1 = "new_cluster 2 three_gates" and ?C2 = "new_cluster 3 (new_cluster 2 three_gates)"
  have nxt: "next_cluster ?C1 = Suc 0" "next_cluster ?C2 = 2" by (simp_all add: new_cluster_sel three_gates_sel)
  note sel = new_cluster_sel(2,3) [of 2 three_gates, unfolded three_gates_sel] new_cluster_sel(2,3) [of 3 ?C1, unfolded nxt]
    new_cluster_sel(2,3) [of 4 ?C2, unfolded nxt]
  show "all_clusters three_gates = []" "all_clusters (InitCluster three_gates) = [0, Suc 0, 2]"
    "my_cluster (nd (InitCluster three_gates) 2) = 0" "my_cluster (nd (InitCluster three_gates) 3) = Suc 0"
    "my_cluster (nd (InitCluster three_gates) 4) = 2"
    by (simp_all add: three_gates_init new_cluster_sel three_gates_sel)
  show "nodes_c (clu (InitCluster three_gates) 0) = [2]" "nodes_c (clu (InitCluster three_gates) (Suc 0)) = [3]"
    "nodes_c (clu (InitCluster three_gates) 2) = [4]"
    "input_nodes (clu (InitCluster three_gates) 0) = {0, Suc 0}" "input_nodes (clu (InitCluster three_gates) (Suc 0)) = {Suc 0, 2}"
    "input_nodes (clu (InitCluster three_gates) 2) = {0}"
    unfolding three_gates_init by (auto simp: new_cluster_sel(4) nxt sel three_gates_sel new_cluster_sel(1))
qed

theorem InitCluster_witness:
  "clustered (InitCluster three_gates) \<and> all_clusters (InitCluster three_gates) = [0, Suc 0, 2]"
  using InitCluster_correct [of three_gates] three_gates_clusters(1,2) by simp



text \<open>
  C38: \<open>FaninMerge\<close> leaves a clustered circuit over the same nodes, with at least one cluster less for each seed that it counts; the clusters
  that it changed have at most \<open>limit_in\<close> inputs.
\<close>

theorem FaninMerge_correct:
  assumes "clustered C"
  shows "clustered (fst (FaninMerge limit_in C)) \<and> same_net C (fst (FaninMerge limit_in C)) \<and>
    length (all_clusters (fst (FaninMerge limit_in C))) + snd (FaninMerge limit_in C) \<le> length (all_clusters C) \<and>
    (\<forall>c\<in>set (all_clusters (fst (FaninMerge limit_in C))). c \<in> set (all_clusters C) \<and>
       (clu (fst (FaninMerge limit_in C)) c = clu C c \<or> card (input_nodes (clu (fst (FaninMerge limit_in C)) c)) \<le> limit_in))"
  using fanin_all_correct [OF assms order_refl, of limit_in 0] unfolding FaninMerge_def clusters_grown_def by auto

theorem FaninMerge_witness:
  "clustered (fst (FaninMerge 6 (InitCluster three_gates))) \<and> snd (FaninMerge 6 (InitCluster three_gates)) = 1 \<and>
    all_clusters (fst (FaninMerge 6 (InitCluster three_gates))) = [1, 2] \<and>
    nodes_c (clu (fst (FaninMerge 6 (InitCluster three_gates))) 1) = [3, 2]"
proof -
  have "clustered (InitCluster three_gates)" using InitCluster_correct0(1) three_gates_clusters(1) by simp
  from FaninMerge_correct [OF this, of 6] have "clustered (fst (FaninMerge 6 (InitCluster three_gates)))" by blast
  moreover have "snd (FaninMerge 6 (InitCluster three_gates)) = 1 \<and>
    all_clusters (fst (FaninMerge 6 (InitCluster three_gates))) = [1, 2] \<and>
    nodes_c (clu (fst (FaninMerge 6 (InitCluster three_gates))) 1) = [3, 2]"
    by (auto simp: three_gates_def list_circuit_def mk_node_def InitCluster_def new_cluster_def append_node_def Let_def
      FaninMerge_def fanin_seed_def fanin_step_def Merge_def upd_clu_def upd_node_def card_insert_if)
  ultimately show ?thesis by blast
qed

text \<open>
  Merging a cluster with all its fanin clusters does not look for paths between these: when one of them depends on another through a
  cluster that is left out, the merged cluster depends on itself. In the example the first gate has the inputs \<open>b\<close> and \<open>a\<close>, and \<open>b\<close>
  depends on \<open>a\<close> through \<open>c\<close>, which has too many inputs to be merged.
\<close>

definition reconvergent :: circuit where
  "reconvergent = list_circuit
    [mk_node ''s'' False True [3, 1] [], mk_node ''b'' False False [2] [0], mk_node ''c'' False False [3, 5, 6, 7, 8, 9] [1],
     mk_node ''a'' False False [4] [2, 0], mk_node ''i'' True False [] [3], mk_node ''j'' True False [] [2], mk_node ''k'' True False [] [2],
     mk_node ''l'' True False [] [2], mk_node ''m'' True False [] [2], mk_node ''n'' True False [] [2]]"

lemma reconvergent_ok:
  "wf_circuit reconvergent" "all_clusters reconvergent = []" "acyclic (fanins reconvergent)"
proof -
  show "wf_circuit reconvergent" "all_clusters reconvergent = []"
    by (simp_all add: reconvergent_def list_circuit_def mk_node_def wf_circuit_def)
  define rank :: "nat \<Rightarrow> nat" where "rank n = (if n = 3 then 1 else if n = 2 then 2 else if n = 1 then 3 else if n = 0 then 4 else 0)" for n
  have "fanins reconvergent \<subseteq> (measure rank)\<inverse>"
    by (auto simp: fanins_def reconvergent_def list_circuit_def mk_node_def rank_def nth_Cons' upt_rec)
  then have "acyclic ((fanins reconvergent)\<inverse>)" using wf_subset [of "measure rank" "(fanins reconvergent)\<inverse>"] wf_acyclic by blast
  then show "acyclic (fanins reconvergent)" by simp
qed

theorem FaninMerge_cycle:
  "\<not> acyclic_clusters (fst (FaninMerge 6 (InitCluster reconvergent)))" (is "\<not> acyclic_clusters ?D")
proof -
  have "all_clusters ?D = [0, 2] \<and> 2 \<in> set (fanin_clusters ?D 0) \<and> 0 \<in> set (fanin_clusters ?D 2)"
    by (auto simp: reconvergent_def list_circuit_def mk_node_def InitCluster_def new_cluster_def append_node_def Let_def
      FaninMerge_def fanin_seed_def fanin_step_def Merge_def upd_clu_def upd_node_def fanin_clusters_def card_insert_if)
  then have "(0, 2) \<in> cluster_fanins ?D - Id" "(2, 0) \<in> cluster_fanins ?D - Id" unfolding cluster_fanins_def by auto
  then have "(0, 0) \<in> (cluster_fanins ?D - Id)\<^sup>+" by (rule trancl_into_trancl2 [OF _ r_into_trancl])
  then show ?thesis unfolding acyclic_clusters_def acyclic_def by blast
qed

end
