(* ===== verification/Circ_Target.thy ===== *)
theory Circ_Target
  imports Circ_Cluster "HOL-Library.Multiset"
begin

text \<open>
  The remaining operations on circuits that prepare a resynthesis: \<open>AssignOrder\<close>, \<open>SetTargets\<close>, \<open>Restore\<close> and \<open>Restruct\<close> of \<open>src/circuit/node.cpp\<close>, and
  \<open>InitCand\<close> of \<open>src/circuit/nodemerge.cpp\<close>.
\<close>

section \<open>\<open>AssignOrder\<close>\<close>

text \<open>
  One pass over all pairs of a node and an input of it. The flag says whether an order has been raised. Nothing but the orders
  changes, which are kept as a function here; an \<open>int\<close> that would overflow is not modelled.
\<close>

definition order_step :: "nat \<Rightarrow> nat \<Rightarrow> circuit \<times> bool \<Rightarrow> circuit \<times> bool" where
  "order_step n i = (\<lambda>(C, flag).
    if order (nd C i) \<le> order (nd C n) then (upd_node i (\<lambda>x. x\<lparr>order := order (nd C n) + 1\<rparr>) C, True)
    else (C, flag))"

definition order_pass :: "circuit \<Rightarrow> circuit \<times> bool" where
  "order_pass C =
    fold (\<lambda>n s. if \<not> is_input (nd (fst s) n) then fold (order_step n) (inputs (nd (fst s) n)) s else s) (all_nodes C) (C, False)"

partial_function (option) AssignOrder :: "circuit \<Rightarrow> circuit option" where
  "AssignOrder C = (case order_pass C of (D, flag) \<Rightarrow> if flag then AssignOrder D else Some D)"

text \<open>Circuits that differ in the orders only.\<close>

definition same_but_order :: "circuit \<Rightarrow> circuit \<Rightarrow> bool" where
  "same_but_order C D \<longleftrightarrow> D = C\<lparr>nd := nd D\<rparr> \<and> (\<forall>n. \<exists>k. nd D n = (nd C n)\<lparr>order := k\<rparr>)"

lemma same_but_order_sel:
  assumes "same_but_order C D"
  shows "all_nodes D = all_nodes C" "inputs (nd D n) = inputs (nd C n)" "is_input (nd D n) = is_input (nd C n)"
proof -
  from assms obtain k where k: "nd D n = (nd C n)\<lparr>order := k\<rparr>" and D: "D = C\<lparr>nd := nd D\<rparr>" unfolding same_but_order_def by blast
  show "inputs (nd D n) = inputs (nd C n)" "is_input (nd D n) = is_input (nd C n)" by (simp_all add: k)
  show "all_nodes D = all_nodes C" by (subst D) simp
qed

lemma same_but_order_refl [simp]: "same_but_order C C"
proof -
  have "\<exists>k. nd C n = (nd C n)\<lparr>order := k\<rparr>" for n by (rule exI [of _ "order (nd C n)"]) simp
  then show ?thesis by (simp add: same_but_order_def)
qed

lemma same_but_order_upd:
  assumes "same_but_order C D"
  shows "same_but_order C (upd_node i (\<lambda>x. x\<lparr>order := k\<rparr>) D)"
proof -
  have "\<exists>j. nd (upd_node i (\<lambda>x. x\<lparr>order := k\<rparr>) D) n = (nd C n)\<lparr>order := j\<rparr>" for n
  proof -
    obtain j where "nd D n = (nd C n)\<lparr>order := j\<rparr>" using assms unfolding same_but_order_def by blast
    then show ?thesis by (intro exI [of _ "if n = i then k else j"]) auto
  qed
  moreover have "upd_node i (\<lambda>x. x\<lparr>order := k\<rparr>) D = C\<lparr>nd := nd (upd_node i (\<lambda>x. x\<lparr>order := k\<rparr>) D)\<rparr>"
  proof -
    have "D = C\<lparr>nd := nd D\<rparr>" using assms unfolding same_but_order_def by blast
    then have "D\<lparr>nd := f\<rparr> = C\<lparr>nd := f\<rparr>" for f by (metis circuit.update_convs(1) circuit.surjective circuit.select_convs)
    then show ?thesis by (simp add: upd_node_def)
  qed
  ultimately show ?thesis unfolding same_but_order_def by blast
qed

text \<open>
  A bound \<open>b\<close> is an assignment that \<open>AssignOrder\<close> could end with. The orders never exceed it, and their sum grows in every
  pass that raises the flag.
\<close>

definition order_bound :: "circuit \<Rightarrow> (nat \<Rightarrow> int) \<Rightarrow> bool" where
  "order_bound C b \<longleftrightarrow> (\<forall>(n, m)\<in>fanins C. b n < b m) \<and> (\<forall>n\<in>set (all_nodes C). order (nd C n) \<le> b n)"

definition order_sum :: "circuit \<Rightarrow> int" where
  "order_sum C = (\<Sum>n\<in>set (all_nodes C). order (nd C n))"

text \<open>What holds of the state \<open>(D, flag)\<close> while a pass that started with \<open>C\<close> has seen the pairs \<open>E\<close>.\<close>

definition pass_inv :: "circuit \<Rightarrow> (nat \<times> nat) set \<Rightarrow> circuit \<times> bool \<Rightarrow> bool" where
  "pass_inv C E = (\<lambda>(D, flag). same_but_order C D \<and> order_sum C \<le> order_sum D \<and> (\<forall>n. order (nd C n) \<le> order (nd D n)) \<and>
    (\<forall>b. order_bound C b \<longrightarrow> order_bound D b) \<and>
    (if flag then order_sum C < order_sum D else D = C \<and> (\<forall>(n, m)\<in>E. order (nd C n) < order (nd C m))))"

lemma order_step_inv:
  assumes "pass_inv C E s" "(n, i) \<in> fanins C" "i \<in> set (all_nodes C)"
  shows "pass_inv C (insert (n, i) E) (order_step n i s)"
proof -
  obtain D flag where s: "s = (D, flag)" by (cases s)
  have D: "same_but_order C D" using assms(1) by (simp add: s pass_inv_def)
  note sel = same_but_order_sel [OF D]
  show ?thesis
  proof (cases "order (nd D i) \<le> order (nd D n)")
    case False
    then show ?thesis using assms(1) by (auto simp: s order_step_def pass_inv_def)
  next
    case True
    let ?D = "upd_node i (\<lambda>x. x\<lparr>order := order (nd D n) + 1\<rparr>) D"
    have sum: "order_sum D < order_sum ?D"
      unfolding order_sum_def upd_node_sel
    proof (rule sum_strict_mono_ex1)
      show "\<exists>m\<in>set (all_nodes D). order (nd D m) < order (((nd D)(i := (nd D i)\<lparr>order := order (nd D n) + 1\<rparr>)) m)"
        using assms(3) True by (intro bexI [of _ i]) (simp_all add: sel)
    qed (use True in auto)
    have "order_bound ?D b" if b: "order_bound D b" for b
    proof -
      have "fanins ?D = fanins D" by (auto simp: fanins_def split: if_splits)
      moreover have "(n, i) \<in> fanins D" "n \<in> set (all_nodes D)" using assms(2) by (simp_all add: fanins_def sel)
      then have "order (nd D n) + 1 \<le> b i" using b unfolding order_bound_def by fastforce
      ultimately show ?thesis using b unfolding order_bound_def by simp
    qed
    moreover have "order (nd C m) \<le> order (nd ?D m)" for m
    proof -
      have "order (nd C m) \<le> order (nd D m)" using assms(1) by (simp add: s pass_inv_def)
      then show ?thesis using True by (cases "m = i") auto
    qed
    ultimately show ?thesis using assms(1) True sum same_but_order_upd [OF D] by (auto simp: s order_step_def pass_inv_def split: if_splits)
  qed
qed

lemma order_inner_inv:
  assumes "pass_inv C E s" "\<And>i. i \<in> set is \<Longrightarrow> (n, i) \<in> fanins C \<and> i \<in> set (all_nodes C)"
  shows "pass_inv C (E \<union> {n} \<times> set is) (fold (order_step n) is s)"
  using assms
proof (induction "is" arbitrary: E s)
  case (Cons i "is")
  have "pass_inv C (insert (n, i) E) (order_step n i s)" using order_step_inv Cons.prems by simp
  from Cons.IH [OF this] show ?case using Cons.prems(2) by simp
qed simp

lemma order_pass_inv:
  assumes "wf_circuit C"
  shows "pass_inv C (fanins C) (order_pass C)"
proof -
  let ?f = "\<lambda>n s. if \<not> is_input (nd (fst s) n) then fold (order_step n) (inputs (nd (fst s) n)) s else s"
  have "pass_inv C (E \<union> {(n, m). n \<in> set ns \<and> (n, m) \<in> fanins C}) (fold ?f ns s)"
    if "pass_inv C E s" "set ns \<subseteq> set (all_nodes C)" for E s ns
    using that
  proof (induction ns arbitrary: E s)
    case (Cons n ns)
    have sel: "inputs (nd (fst s) n) = inputs (nd C n)" "is_input (nd (fst s) n) = is_input (nd C n)"
      using Cons.prems(1) same_but_order_sel by (auto simp: pass_inv_def split: prod.splits)
    have n: "n \<in> set (all_nodes C)" using Cons.prems(2) by simp
    have ins: "{n} \<times> set (inputs (nd C n)) = {(k, m). k = n \<and> (k, m) \<in> fanins C}" using n by (auto simp: fanins_def)
    have "pass_inv C (E \<union> {(k, m). k = n \<and> (k, m) \<in> fanins C}) (?f n s)"
    proof (cases "is_input (nd C n)")
      case True
      then have "inputs (nd C n) = []" using wf_circuitD(3) [OF assms n] by blast
      then have "{(k, m). k = n \<and> (k, m) \<in> fanins C} = {}" using ins by simp
      then show ?thesis using Cons.prems(1) True sel(2) by (simp only: Un_empty_right) simp
    next
      case False
      have "pass_inv C (E \<union> {n} \<times> set (inputs (nd C n))) (fold (order_step n) (inputs (nd C n)) s)"
        using Cons.prems(1) n wf_circuitD(1) [OF assms n] by (intro order_inner_inv) (auto simp: fanins_def)
      then show ?thesis using False sel unfolding ins by simp
    qed
    from Cons.IH [OF this] have "pass_inv C (E \<union> {(k, m). k = n \<and> (k, m) \<in> fanins C} \<union> {(n, m). n \<in> set ns \<and> (n, m) \<in> fanins C})
        (fold ?f ns (?f n s))" using Cons.prems(2) by simp
    moreover have "E \<union> {(k, m). k = n \<and> (k, m) \<in> fanins C} \<union> {(n, m). n \<in> set ns \<and> (n, m) \<in> fanins C} =
        E \<union> {(m, k). m \<in> set (n # ns) \<and> (m, k) \<in> fanins C}" by auto
    ultimately show ?case by simp
  qed simp
  from this [of "{}" "(C, False)" "all_nodes C"] have "pass_inv C {(n, m). n \<in> set (all_nodes C) \<and> (n, m) \<in> fanins C} (order_pass C)"
    by (simp add: order_pass_def pass_inv_def)
  moreover have "{(n, m). n \<in> set (all_nodes C) \<and> (n, m) \<in> fanins C} = fanins C" by (auto simp: fanins_def)
  ultimately show ?thesis by simp
qed

lemma order_pass_cases:
  assumes "wf_circuit C" "order_pass C = (D, flag)"
  shows "same_but_order C D" "wf_circuit D" "fanins D = fanins C" "\<And>b. order_bound C b \<Longrightarrow> order_bound D b"
    "\<And>n. order (nd C n) \<le> order (nd D n)" "flag \<Longrightarrow> order_sum C < order_sum D"
    "\<not> flag \<Longrightarrow> D = C \<and> (\<forall>(n, m)\<in>fanins C. order (nd C n) < order (nd C m))"
proof -
  from order_pass_inv [OF assms(1)] have inv: "pass_inv C (fanins C) (D, flag)" unfolding assms(2) .
  then show D: "same_but_order C D" "\<And>b. order_bound C b \<Longrightarrow> order_bound D b" "\<And>n. order (nd C n) \<le> order (nd D n)"
    "flag \<Longrightarrow> order_sum C < order_sum D" "\<not> flag \<Longrightarrow> D = C \<and> (\<forall>(n, m)\<in>fanins C. order (nd C n) < order (nd C m))"
    by (auto simp: pass_inv_def)
  show "fanins D = fanins C" by (simp add: fanins_def same_but_order_sel [OF D(1)])
  have "outputs (nd D n) = outputs (nd C n)" for n
  proof -
    obtain k where "nd D n = (nd C n)\<lparr>order := k\<rparr>" using D(1) unfolding same_but_order_def by blast
    then show ?thesis by simp
  qed
  then show "wf_circuit D" using assms(1) by (simp add: wf_circuit_def same_but_order_sel [OF D(1)])
qed

lemma same_but_order_trans:
  assumes "same_but_order B C" "same_but_order C D"
  shows "same_but_order B D"
proof -
  have "\<exists>k. nd D n = (nd B n)\<lparr>order := k\<rparr>" for n
  proof -
    obtain j k where "nd C n = (nd B n)\<lparr>order := j\<rparr>" "nd D n = (nd C n)\<lparr>order := k\<rparr>"
      using assms unfolding same_but_order_def by blast
    then have "nd D n = (nd B n)\<lparr>order := k\<rparr>" by simp
    then show ?thesis ..
  qed
  moreover have "D = B\<lparr>nd := nd D\<rparr>"
  proof -
    have "C = B\<lparr>nd := nd C\<rparr>" "D = C\<lparr>nd := nd D\<rparr>" using assms unfolding same_but_order_def by blast+
    then show ?thesis by (metis circuit.update_convs(1) circuit.surjective circuit.select_convs)
  qed
  ultimately show ?thesis unfolding same_but_order_def by blast
qed

lemma AssignOrder_bounded:
  assumes "wf_circuit C" "order_bound C b"
  shows "\<exists>D. AssignOrder C = Some D \<and> same_but_order C D \<and> (\<forall>(n, m)\<in>fanins C. order (nd D n) < order (nd D m)) \<and>
    (\<forall>n. order (nd C n) \<le> order (nd D n)) \<and> (\<forall>b. order_bound C b \<longrightarrow> order_bound D b)"
  using assms
proof (induction "nat ((\<Sum>n\<in>set (all_nodes C). b n) - order_sum C)" arbitrary: C rule: less_induct)
  case less
  obtain D flag where pass: "order_pass C = (D, flag)" by fastforce
  note D = order_pass_cases [OF less.prems(1) pass]
  show ?case
  proof (cases flag)
    case False
    then show ?thesis using D(7) pass by (subst AssignOrder.simps) simp
  next
    case True
    have nodes: "all_nodes D = all_nodes C" using same_but_order_sel(1) [OF D(1)] .
    have "order_sum D \<le> (\<Sum>n\<in>set (all_nodes C). b n)"
      unfolding order_sum_def nodes using D(4) [OF less.prems(2)] by (intro sum_mono) (simp add: order_bound_def nodes)
    then have "nat ((\<Sum>n\<in>set (all_nodes D). b n) - order_sum D) < nat ((\<Sum>n\<in>set (all_nodes C). b n) - order_sum C)"
      using D(6) [OF True] by (simp add: nodes)
    from less.hyps [OF this D(2) D(4) [OF less.prems(2)]] obtain E where E: "AssignOrder D = Some E" "same_but_order D E"
      "\<forall>(n, m)\<in>fanins D. order (nd E n) < order (nd E m)" "\<forall>n. order (nd D n) \<le> order (nd E n)"
      "\<forall>b. order_bound D b \<longrightarrow> order_bound E b" by blast
    have "AssignOrder C = Some E" using pass True E(1) by (subst AssignOrder.simps) simp
    moreover have "order (nd C n) \<le> order (nd E n)" for n using D(5) [of n] E(4) order_trans by blast
    ultimately show ?thesis using same_but_order_trans [OF D(1) E(2)] E(3,5) D(3,4) by auto
  qed
qed

text \<open>An acyclic circuit has a bound: the number of nodes that a node is reached from, above all orders.\<close>

lemma order_bound_exists:
  assumes "wf_circuit C" "acyclic (fanins C)"
  shows "\<exists>b. order_bound C b"
proof -
  let ?U = "set (all_nodes C)" and ?above = "\<lambda>n. {k. (k, n) \<in> (fanins C)\<^sup>+}"
  have U: "?above n \<subseteq> ?U" for n by (auto dest: tranclD simp: fanins_def)
  define M where "M = (if ?U = {} then 0 else Max ((\<lambda>n. order (nd C n)) ` ?U))"
  have M: "order (nd C n) \<le> M" if "n \<in> ?U" for n using that by (auto simp: M_def)
  have "card (?above n) < card (?above m)" if "(n, m) \<in> fanins C" for n m
  proof (rule psubset_card_mono)
    show "finite (?above m)" using finite_subset [OF U] by simp
    have "?above n \<subseteq> ?above m" using that by (auto intro: trancl_into_trancl)
    moreover have "n \<in> ?above m" "n \<notin> ?above n" using that assms(2) by (auto simp: acyclic_def)
    ultimately show "?above n \<subset> ?above m" by blast
  qed
  then show ?thesis using M by (intro exI [of _ "\<lambda>n. M + int (card (?above n))"]) (auto simp: order_bound_def intro: add_increasing2)
qed

text \<open>\<open>AssignOrder\<close> can only end when the orders strictly grow along every pair, which a cycle excludes.\<close>

lemma AssignOrder_ends:
  assumes "AssignOrder C = Some D" "wf_circuit C"
  shows "acyclic (fanins C)"
proof -
  have "wf_circuit C \<longrightarrow> acyclic (fanins C)"
  proof (rule AssignOrder.raw_induct [OF _ assms(1), where P = "\<lambda>C _. wf_circuit C \<longrightarrow> acyclic (fanins C)"], intro impI)
    fix rec :: "circuit \<Rightarrow> circuit option" and C D
    assume IH: "\<And>C D. rec C = Some D \<Longrightarrow> wf_circuit C \<longrightarrow> acyclic (fanins C)"
      and res: "(case order_pass C of (E, flag) \<Rightarrow> if flag then rec E else Some E) = Some D" and w: "wf_circuit C"
    obtain E flag where pass: "order_pass C = (E, flag)" by fastforce
    note E = order_pass_cases [OF w pass]
    show "acyclic (fanins C)"
    proof (cases flag)
      case True
      then have "rec E = Some D" using res pass by simp
      from IH [OF this] show ?thesis using E(2,3) by simp
    next
      case False
      have "order (nd C n) < order (nd C m)" if "(n, m) \<in> (fanins C)\<^sup>+" for n m
        using that E(7) [OF False] by (induction rule: trancl_induct) fastforce+
      then show ?thesis unfolding acyclic_def by blast
    qed
  qed
  then show ?thesis using assms(2) by blast
qed

section \<open>Targets\<close>

text \<open>
  \<open>SetTargets\<close> cuts a node from its inputs and keeps these aside, \<open>Restore\<close> brings them back. The assertion
  that an input knows the node as an output is \<open>None\<close> when it fails; so is a search by \<open>find\<close> in \<open>Restore\<close> that finds nothing,
  which erases at the end of the vector, and a null pointer for an unknown name. A primary input ends \<open>SetTargets\<close>, with what has been done so far.
\<close>

fun detach :: "nat \<Rightarrow> nat list \<Rightarrow> circuit \<Rightarrow> circuit option" where
  "detach n [] C = Some C"
| "detach n (i # is) C =
    (if n \<in> set (outputs (nd C i)) then detach n is (upd_node i (\<lambda>x. x\<lparr>outputs := remove1 n (outputs x)\<rparr>) C) else None)"

definition set_target :: "nat \<Rightarrow> circuit \<Rightarrow> circuit option" where
  "set_target n C =
    (case detach n (inputs (nd C n)) C of
       Some C \<Rightarrow> Some (upd_node n (\<lambda>x. x\<lparr>inputs_pre := inputs x, inputs := [], cube_pre := cube x, cube := ''''\<rparr>)
         (C\<lparr>targets := targets C @ [n]\<rparr>))
     | None \<Rightarrow> None)"

fun SetTargets :: "nat list \<Rightarrow> circuit \<Rightarrow> circuit option" where
  "SetTargets [] C = Some C"
| "SetTargets (n # ns) C =
    (if is_input (nd C n) then Some C
     else case set_target n C of Some C \<Rightarrow> SetTargets ns C | None \<Rightarrow> None)"

fun SetTargets_names :: "string list \<Rightarrow> circuit \<Rightarrow> circuit option" where
  "SetTargets_names [] C = Some C"
| "SetTargets_names (s # ss) C =
    (case GetNode C s of
       None \<Rightarrow> None
     | Some n \<Rightarrow>
         if is_input (nd C n) then Some C
         else case set_target n C of Some C \<Rightarrow> SetTargets_names ss C | None \<Rightarrow> None)"

definition attach :: "nat \<Rightarrow> nat list \<Rightarrow> circuit \<Rightarrow> circuit" where
  "attach n = fold (\<lambda>i. upd_node i (\<lambda>x. x\<lparr>outputs := outputs x @ [n]\<rparr>))"

definition restore_target :: "nat \<Rightarrow> circuit \<Rightarrow> circuit option" where
  "restore_target n C =
    (case detach n (inputs (nd C n)) C of
       Some C \<Rightarrow>
         let C = upd_node n (\<lambda>x. x\<lparr>cube := cube_pre x, cube_pre := '''', inputs := inputs_pre x, inputs_pre := []\<rparr>) C
         in Some (attach n (inputs (nd C n)) C)
     | None \<Rightarrow> None)"

fun restore_all :: "nat list \<Rightarrow> circuit \<Rightarrow> circuit option" where
  "restore_all [] C = Some C"
| "restore_all (n # ns) C = (case restore_target n C of Some C \<Rightarrow> restore_all ns C | None \<Rightarrow> None)"

definition Restore :: "nat list \<Rightarrow> circuit \<Rightarrow> circuit option" where
  "Restore ts C = map_option (\<lambda>C. C\<lparr>targets := []\<rparr>) (restore_all ts C)"

subsection \<open>Cutting and connecting\<close>

text \<open>Everything of a node but its outputs.\<close>

definition but_outputs :: "node \<Rightarrow> node" where
  "but_outputs x = x\<lparr>outputs := []\<rparr>"

lemma but_outputs_sel:
  assumes "but_outputs x = but_outputs y"
  shows "inputs x = inputs y" "inputs_pre x = inputs_pre y" "is_input x = is_input y" "cube x = cube y" "cube_pre x = cube_pre y"
  using assms by (cases x; cases y; simp add: but_outputs_def)+

lemma detach_correct:
  assumes "\<And>m. m \<in> set is \<Longrightarrow> count_list is m \<le> count_list (outputs (nd C m)) n"
  shows "\<exists>D. detach n is C = Some D \<and> D = C\<lparr>nd := nd D\<rparr> \<and> (\<forall>m. but_outputs (nd D m) = but_outputs (nd C m)) \<and>
    (\<forall>m. mset (outputs (nd D m)) = mset (outputs (nd C m)) - replicate_mset (count_list is m) n)"
  using assms
proof (induction "is" arbitrary: C)
  case (Cons i "is")
  let ?C = "upd_node i (\<lambda>x. x\<lparr>outputs := remove1 n (outputs x)\<rparr>) C"
  have mem: "n \<in> set (outputs (nd C i))" using Cons.prems [of i] count_list_0_iff [of "outputs (nd C i)" n] by auto
  have rem: "count_list (remove1 n xs) n = count_list xs n - 1" for xs by (induction xs) auto
  have "count_list is m \<le> count_list (outputs (nd ?C m)) n" if "m \<in> set is" for m
    using Cons.prems [of m] that by (cases "m = i") (auto simp: rem)
  from Cons.IH [OF this] obtain D where D: "detach n is ?C = Some D" "D = ?C\<lparr>nd := nd D\<rparr>" "\<And>m. but_outputs (nd D m) = but_outputs (nd ?C m)"
    "\<And>m. mset (outputs (nd D m)) = mset (outputs (nd ?C m)) - replicate_mset (count_list is m) n" by blast
  have "D = C\<lparr>nd := nd D\<rparr>" by (subst D(2)) (simp add: upd_node_def)
  moreover have "but_outputs (nd D m) = but_outputs (nd C m)" for m using D(3) [of m] by (simp add: but_outputs_def split: if_splits)
  moreover have "mset (outputs (nd D m)) = mset (outputs (nd C m)) - replicate_mset (count_list (i # is) m) n" for m
    using D(4) [of m] by (cases "m = i") (simp_all add: mset_remove1)
  ultimately show ?case using D(1) mem by auto
qed simp

lemma attach_correct:
  "attach n is C = C\<lparr>nd := nd (attach n is C)\<rparr> \<and> (\<forall>m. but_outputs (nd (attach n is C) m) = but_outputs (nd C m)) \<and>
    (\<forall>m. mset (outputs (nd (attach n is C) m)) = mset (outputs (nd C m)) + replicate_mset (count_list is m) n)"
proof (induction "is" arbitrary: C)
  case Nil
  then show ?case by (simp add: attach_def)
next
  case (Cons i "is")
  let ?C = "upd_node i (\<lambda>x. x\<lparr>outputs := outputs x @ [n]\<rparr>) C"
  have eq: "attach n (i # is) C = attach n is ?C" by (simp add: attach_def)
  have IH: "attach n is ?C = ?C\<lparr>nd := nd (attach n is ?C)\<rparr>"
    "\<And>m. but_outputs (nd (attach n is ?C) m) = but_outputs (nd ?C m)"
    "\<And>m. mset (outputs (nd (attach n is ?C) m)) = mset (outputs (nd ?C m)) + replicate_mset (count_list is m) n"
    using Cons.IH [of ?C] by blast+
  have "attach n is ?C = C\<lparr>nd := nd (attach n is ?C)\<rparr>" by (subst IH(1)) (simp add: upd_node_def)
  moreover have "but_outputs (nd (attach n is ?C) m) = but_outputs (nd C m)" for m using IH(2) [of m] by (simp add: but_outputs_def split: if_splits)
  moreover have "mset (outputs (nd (attach n is ?C) m)) = mset (outputs (nd C m)) + replicate_mset (count_list (i # is) m) n" for m
    using IH(3) [of m] by (cases "m = i") simp_all
  ultimately show ?case unfolding eq by blast
qed

subsection \<open>Targets and back\<close>

text \<open>The circuit \<open>C\<close> with the nodes \<open>S\<close> cut, when \<open>R\<close> have been cut and restored.\<close>

definition cut_node :: "node \<Rightarrow> node" where
  "cut_node x = x\<lparr>inputs_pre := inputs x, inputs := [], cube_pre := cube x, cube := ''''\<rparr>"

definition restored_node :: "node \<Rightarrow> node" where
  "restored_node x = x\<lparr>inputs_pre := [], cube_pre := ''''\<rparr>"

definition cut :: "nat set \<Rightarrow> nat set \<Rightarrow> circuit \<Rightarrow> circuit \<Rightarrow> bool" where
  "cut S R C D \<longleftrightarrow> D\<lparr>nd := nd C, targets := targets C\<rparr> = C \<and>
    (\<forall>n. but_outputs (nd D n) = but_outputs (if n \<in> S then cut_node (nd C n) else if n \<in> R then restored_node (nd C n) else nd C n)) \<and>
    (\<forall>m\<in>set (all_nodes C). mset (outputs (nd D m)) = filter_mset (\<lambda>x. x \<notin> S) (mset (outputs (nd C m))))"

lemma count_mset_count_list: "count (mset xs) x = count_list xs x"
  by (induction xs) auto

lemma cut_refl: "cut {} {} C C"
  by (simp add: cut_def)

lemma cut_sel:
  assumes "cut S R C D"
  shows "all_nodes D = all_nodes C" "all_nodes_map D = all_nodes_map C" "is_input (nd D n) = is_input (nd C n)"
    "inputs (nd D n) = (if n \<in> S then [] else inputs (nd C n))" "n \<in> S \<Longrightarrow> inputs_pre (nd D n) = inputs (nd C n)"
    "n \<notin> S \<Longrightarrow> cube (nd D n) = cube (nd C n)"
proof -
  have D: "D\<lparr>nd := nd C, targets := targets C\<rparr> = C" and
    n: "but_outputs (nd D n) = but_outputs (if n \<in> S then cut_node (nd C n) else if n \<in> R then restored_node (nd C n) else nd C n)"
    using assms unfolding cut_def by blast+
  show "all_nodes D = all_nodes C" "all_nodes_map D = all_nodes_map C"
    using arg_cong [OF D, of all_nodes] arg_cong [OF D, of all_nodes_map] by simp_all
  show "is_input (nd D n) = is_input (nd C n)" "inputs (nd D n) = (if n \<in> S then [] else inputs (nd C n))"
    "n \<in> S \<Longrightarrow> inputs_pre (nd D n) = inputs (nd C n)" "n \<notin> S \<Longrightarrow> cube (nd D n) = cube (nd C n)"
    using but_outputs_sel [OF n] by (auto simp: cut_node_def restored_node_def)
qed

lemma cut_outputs:
  assumes "wf_circuit C" "cut S R C D" "m \<in> set (all_nodes C)" "n \<in> set (all_nodes C)"
  shows "count (mset (outputs (nd D m))) n = (if n \<in> S then 0 else count_list (inputs (nd C n)) m)"
proof -
  have "mset (outputs (nd D m)) = filter_mset (\<lambda>x. x \<notin> S) (mset (outputs (nd C m)))" using assms(2,3) unfolding cut_def by blast
  moreover have "count_list (inputs (nd C n)) m = count_list (outputs (nd C m)) n" using assms(1,3,4) unfolding wf_circuit_def by blast
  ultimately show ?thesis by (simp add: count_mset_count_list)
qed

lemma cut_wf:
  assumes "wf_circuit C" "cut S R C D"
  shows "wf_circuit D"
  unfolding wf_circuit_def cut_sel(1) [OF assms(2)]
proof (intro conjI ballI impI)
  show "distinct (all_nodes C)" using assms(1) by (simp add: wf_circuit_def)
  fix n
  assume n: "n \<in> set (all_nodes C)"
  show "set (inputs (nd D n)) \<subseteq> set (all_nodes C)" using wf_circuitD(1) [OF assms(1) n] by (auto simp: cut_sel(4) [OF assms(2)])
  have "set (outputs (nd D n)) \<subseteq> set (outputs (nd C n))"
  proof -
    have "mset (outputs (nd D n)) = filter_mset (\<lambda>x. x \<notin> S) (mset (outputs (nd C n)))" using assms(2) n unfolding cut_def by blast
    then have "set_mset (mset (outputs (nd D n))) \<subseteq> set_mset (mset (outputs (nd C n)))" by auto
    then show ?thesis by simp
  qed
  then show "set (outputs (nd D n)) \<subseteq> set (all_nodes C)" using wf_circuitD(2) [OF assms(1) n] by blast
  show "inputs (nd D n) = []" if "is_input (nd D n)"
    using that wf_circuitD(3) [OF assms(1) n] by (simp add: cut_sel [OF assms(2)])
  show "count_list (inputs (nd D n)) m = count_list (outputs (nd D m)) n" if "m \<in> set (all_nodes C)" for m
    using cut_outputs [OF assms that n] by (simp add: cut_sel(4) [OF assms(2)] count_mset_count_list)
qed

lemma set_target_cut:
  assumes "wf_circuit C" "cut S R C D" "n \<in> set (all_nodes C)" "n \<notin> S" "n \<notin> R"
  shows "\<exists>E. set_target n D = Some E \<and> cut (insert n S) R C E \<and> targets E = targets D @ [n]"
proof -
  let ?is = "inputs (nd C n)"
  have ins: "inputs (nd D n) = ?is" using cut_sel(4) [OF assms(2)] assms(4) by simp
  have cnt: "count (mset (outputs (nd D m))) n = count_list ?is m" if "m \<in> set (all_nodes C)" for m
    using cut_outputs [OF assms(1,2) that assms(3)] assms(4) by simp
  have "count_list ?is m \<le> count_list (outputs (nd D m)) n" if "m \<in> set ?is" for m
    using cnt [OF wf_circuitD(1) [OF assms(1,3) that]] by (simp add: count_mset_count_list)
  from detach_correct [OF this] obtain B where B: "detach n ?is D = Some B" "B = D\<lparr>nd := nd B\<rparr>"
    "\<And>m. but_outputs (nd B m) = but_outputs (nd D m)"
    "\<And>m. mset (outputs (nd B m)) = mset (outputs (nd D m)) - replicate_mset (count_list ?is m) n" by blast
  let ?E = "upd_node n cut_node (B\<lparr>targets := targets B @ [n]\<rparr>)"
  have tB: "targets B = targets D" by (subst B(2)) simp
  have "set_target n D = Some ?E" using B(1) ins by (simp add: set_target_def cut_node_def [abs_def])
  moreover have "cut (insert n S) R C ?E"
    unfolding cut_def
  proof (intro conjI allI ballI)
    have "D\<lparr>nd := nd C, targets := targets C\<rparr> = C" using assms(2) unfolding cut_def by blast
    moreover have "B\<lparr>nd := f, targets := ts\<rparr> = D\<lparr>nd := f, targets := ts\<rparr>" for f ts by (subst B(2)) simp
    ultimately show "?E\<lparr>nd := nd C, targets := targets C\<rparr> = C" by (simp add: upd_node_def)
    fix k
    have old: "but_outputs (nd D k) = but_outputs (if k \<in> S then cut_node (nd C k) else if k \<in> R then restored_node (nd C k) else nd C k)"
      using assms(2) unfolding cut_def by blast
    have cutn: "but_outputs (cut_node x) = but_outputs (cut_node y)" if "but_outputs x = but_outputs y" for x y
      using that by (cases x; cases y) (simp add: but_outputs_def cut_node_def)
    show "but_outputs (nd ?E k) =
        but_outputs (if k \<in> insert n S then cut_node (nd C k) else if k \<in> R then restored_node (nd C k) else nd C k)"
    proof (cases "k = n")
      case True
      have "but_outputs (nd B k) = but_outputs (nd C k)" using B(3) [of k] old assms(4,5) True by simp
      from cutn [OF this] show ?thesis using True by simp
    next
      case False
      then show ?thesis using B(3) [of k] old by simp
    qed
  next
    fix m
    assume m: "m \<in> set (all_nodes C)"
    have "outputs (nd ?E m) = outputs (nd B m)" by (simp add: cut_node_def)
    moreover have "mset (outputs (nd D m)) = filter_mset (\<lambda>x. x \<notin> S) (mset (outputs (nd C m)))" using assms(2) m unfolding cut_def by blast
    ultimately show "mset (outputs (nd ?E m)) = filter_mset (\<lambda>x. x \<notin> insert n S) (mset (outputs (nd C m)))"
      using cnt [OF m] assms(4) by (intro multiset_eqI) (auto simp: B(4))
  qed
  ultimately show ?thesis using tB by (simp add: upd_node_def)
qed

lemma restore_target_cut:
  assumes "wf_circuit C" "cut S R C D" "n \<in> set (all_nodes C)" "n \<in> S"
  shows "\<exists>E. restore_target n D = Some E \<and> cut (S - {n}) (insert n R) C E"
proof -
  let ?is = "inputs (nd C n)"
  let ?f = "\<lambda>x. x\<lparr>cube := cube_pre x, cube_pre := '''', inputs := inputs_pre x, inputs_pre := []\<rparr>"
  let ?B = "upd_node n ?f D"
  let ?E = "attach n ?is ?B"
  have ins: "inputs (nd D n) = []" "inputs_pre (nd D n) = ?is" using cut_sel(4,5) [OF assms(2)] assms(4) by simp_all
  have E: "restore_target n D = Some ?E" using ins by (simp add: restore_target_def Let_def)
  note A = attach_correct [of n ?is ?B]
  have "cut (S - {n}) (insert n R) C ?E"
    unfolding cut_def
  proof (intro conjI allI ballI)
    have "D\<lparr>nd := nd C, targets := targets C\<rparr> = C" using assms(2) unfolding cut_def by blast
    moreover have "?E\<lparr>nd := f, targets := ts\<rparr> = ?B\<lparr>nd := f, targets := ts\<rparr>" for f ts by (subst conjunct1 [OF A]) simp
    ultimately show "?E\<lparr>nd := nd C, targets := targets C\<rparr> = C" by (simp add: upd_node_def)
    fix k
    have old: "but_outputs (nd D k) = but_outputs (if k \<in> S then cut_node (nd C k) else if k \<in> R then restored_node (nd C k) else nd C k)"
      using assms(2) unfolding cut_def by blast
    have res: "but_outputs (?f x) = but_outputs (restored_node y)" if "but_outputs x = but_outputs (cut_node y)" for x y
      using that by (cases x; cases y) (simp add: but_outputs_def cut_node_def restored_node_def)
    have "but_outputs (nd ?E k) = but_outputs (nd ?B k)" using A by blast
    then show "but_outputs (nd ?E k) =
        but_outputs (if k \<in> S - {n} then cut_node (nd C k) else if k \<in> insert n R then restored_node (nd C k) else nd C k)"
      using old res [of "nd D k" "nd C k"] assms(4) by (cases "k = n") simp_all
  next
    fix m
    assume m: "m \<in> set (all_nodes C)"
    have "mset (outputs (nd ?E m)) = mset (outputs (nd D m)) + replicate_mset (count_list ?is m) n" using A by simp
    moreover have "mset (outputs (nd D m)) = filter_mset (\<lambda>x. x \<notin> S) (mset (outputs (nd C m)))" using assms(2) m unfolding cut_def by blast
    moreover have "count_list ?is m = count (mset (outputs (nd C m))) n"
      using assms(1,3) m unfolding wf_circuit_def by (simp add: count_mset_count_list)
    ultimately show "mset (outputs (nd ?E m)) = filter_mset (\<lambda>x. x \<notin> S - {n}) (mset (outputs (nd C m)))"
      using assms(4) by (intro multiset_eqI) auto
  qed
  then show ?thesis using E by blast
qed

lemma SetTargets_cut:
  assumes "wf_circuit C" "cut S {} C D" "distinct ts" "set ts \<inter> S = {}" "\<And>t. t \<in> set ts \<Longrightarrow> t \<in> set (all_nodes C) \<and> \<not> is_input (nd C t)"
  shows "\<exists>E. SetTargets ts D = Some E \<and> cut (S \<union> set ts) {} C E \<and> targets E = targets D @ ts"
  using assms(2-5)
proof (induction ts arbitrary: S D)
  case (Cons t ts)
  have t: "t \<in> set (all_nodes C)" "\<not> is_input (nd D t)" "t \<notin> S" using Cons.prems cut_sel(3) [OF Cons.prems(1)] by auto
  from set_target_cut [OF assms(1) Cons.prems(1) t(1,3)] obtain B where B: "set_target t D = Some B" "cut (insert t S) {} C B"
    "targets B = targets D @ [t]" by auto
  from Cons.IH [OF B(2)] Cons.prems obtain E where "SetTargets ts B = Some E" "cut (insert t S \<union> set ts) {} C E" "targets E = targets B @ ts"
    by auto
  then show ?case using t(2) B by simp
qed simp

lemma restore_all_cut:
  assumes "wf_circuit C" "cut (set ts) R C D" "distinct ts" "set ts \<subseteq> set (all_nodes C)"
  shows "\<exists>E. restore_all ts D = Some E \<and> cut {} (R \<union> set ts) C E"
  using assms(2-4)
proof (induction ts arbitrary: R D)
  case (Cons t ts)
  from restore_target_cut [OF assms(1) Cons.prems(1), of t] Cons.prems(2,3) obtain B where B: "restore_target t D = Some B"
    "cut (set ts) (insert t R) C B" by auto
  from Cons.IH [OF B(2)] Cons.prems(2,3) obtain E where "restore_all ts B = Some E" "cut {} (insert t R \<union> set ts) C E" by auto
  then show ?case using B(1) by simp
qed simp

section \<open>New inputs for a target\<close>

text \<open>
  \<open>Restruct\<close> gives a target the inputs of its new cover and the cover itself: the rows are maps from nodes to values,
  sorted by the address of the node. It erases at the end of the vector when the node is no target and reads row 0 when there is none (\<open>None\<close>).
  The BLIF file that it writes is not modelled.
\<close>

definition cover_text :: "(nat \<times> bool) list list \<Rightarrow> string" where
  "cover_text in2cases =
    concat (map (\<lambda>in2case. map (\<lambda>(_, b). if b then CHR ''1'' else CHR ''0'') in2case @ '' 1'' @ [CHR 0x0A]) in2cases)"

definition Restruct :: "nat \<Rightarrow> (nat \<times> bool) list list \<Rightarrow> circuit \<Rightarrow> circuit option" where
  "Restruct target in2cases C =
    (case in2cases of
       [] \<Rightarrow> None
     | row # _ \<Rightarrow>
         if target \<in> set (targets C) then
           let C = upd_node target (\<lambda>x. x\<lparr>cube := ''''\<rparr>) (C\<lparr>targets := remove1 target (targets C)\<rparr>);
               C = fold (\<lambda>(i, _) C. upd_node target (\<lambda>x. x\<lparr>inputs := inputs x @ [i]\<rparr>)
                     (upd_node i (\<lambda>x. x\<lparr>outputs := outputs x @ [target]\<rparr>) C)) row C
           in Some (upd_node target (\<lambda>x. x\<lparr>cube := cube x @ cover_text in2cases\<rparr>) C)
         else None)"

lemma connect_row:
  assumes "D = fold (\<lambda>(i, _) C. upd_node t (\<lambda>x. x\<lparr>inputs := inputs x @ [i]\<rparr>)
    (upd_node i (\<lambda>x. x\<lparr>outputs := outputs x @ [t]\<rparr>) C)) row C"
  shows "inputs (nd D n) = (if n = t then inputs (nd C t) @ map fst row else inputs (nd C n))" "is_input (nd D n) = is_input (nd C n)"
    "mset (outputs (nd D n)) = mset (outputs (nd C n)) + replicate_mset (count_list (map fst row) n) t" "all_nodes D = all_nodes C"
  unfolding assms by (induction row arbitrary: C) (auto split: prod.splits)

lemma acyclic_new_edges:
  assumes "acyclic E" "\<And>i. i \<in> set K \<Longrightarrow> (i, t) \<notin> E\<^sup>*"
  shows "acyclic (E \<union> {t} \<times> set K)"
proof -
  have "(i, t) \<in> E\<^sup>*" if "(i, t) \<in> (E \<union> {t} \<times> S)\<^sup>*" for i S
    using that
  proof (induction rule: converse_rtrancl_induct)
    case (step x y)
    then show ?case by (cases "x = t") (auto intro: converse_rtrancl_into_rtrancl)
  qed simp
  then show ?thesis
    using assms(2)
  proof (induction K)
    case Nil
    then show ?case using assms(1) by simp
  next
    case (Cons i K)
    have "E \<union> {t} \<times> set (i # K) = insert (t, i) (E \<union> {t} \<times> set K)" by auto
    then show ?case using Cons by (simp add: acyclic_insert) blast
  qed
qed

lemma Restruct_wf:
  assumes "wf_circuit B" "inputs (nd B t) = []" "t \<in> set (targets B)" "t \<in> set (all_nodes B)" "\<not> is_input (nd B t)"
    and "set (map fst row) \<subseteq> set (all_nodes B)"
  shows "\<exists>D. Restruct t (row # rows) B = Some D \<and> wf_circuit D \<and> all_nodes D = all_nodes B \<and> inputs (nd D t) = map fst row \<and>
    (\<forall>n. n \<noteq> t \<longrightarrow> inputs (nd D n) = inputs (nd B n)) \<and> cube (nd D t) = cover_text (row # rows)"
proof -
  let ?C = "upd_node t (\<lambda>x. x\<lparr>cube := ''''\<rparr>) (B\<lparr>targets := remove1 t (targets B)\<rparr>)"
  let ?f = "\<lambda>(i, _ :: bool) C. upd_node t (\<lambda>x. x\<lparr>inputs := inputs x @ [i]\<rparr>) (upd_node i (\<lambda>x. x\<lparr>outputs := outputs x @ [t]\<rparr>) C)"
  let ?D = "upd_node t (\<lambda>x. x\<lparr>cube := cube x @ cover_text (row # rows)\<rparr>) (fold ?f row ?C)"
  note row = connect_row [where D = "fold ?f row ?C" and C = ?C and t = t and row = row, OF refl]
  have cube: "cube (nd (fold ?f row C) t) = cube (nd C t)" for C by (induction row arbitrary: C) (auto split: prod.splits)
  have ins: "inputs (nd ?D n) = (if n = t then map fst row else inputs (nd B n))" for n using row(1) [of n] assms(2) by (cases "n = t") auto
  have outs: "mset (outputs (nd ?D n)) = mset (outputs (nd B n)) + replicate_mset (count_list (map fst row) n) t" for n
    using row(3) [of n] by (cases "n = t") simp_all
  have pis: "is_input (nd ?D n) = is_input (nd B n)" for n using row(2) [of n] by (cases "n = t") simp_all
  have nodes: "all_nodes ?D = all_nodes B" using row(4) by simp
  have "wf_circuit ?D"
    unfolding wf_circuit_def nodes
  proof (intro conjI ballI impI)
    show "distinct (all_nodes B)" using assms(1) by (simp add: wf_circuit_def)
    fix n
    assume n: "n \<in> set (all_nodes B)"
    show "set (inputs (nd ?D n)) \<subseteq> set (all_nodes B)" using wf_circuitD(1) [OF assms(1) n] assms(6) unfolding ins by auto
    have "set_mset (mset (outputs (nd ?D n))) \<subseteq> set_mset (mset (outputs (nd B n))) \<union> {t}" unfolding outs by auto
    then show "set (outputs (nd ?D n)) \<subseteq> set (all_nodes B)" using wf_circuitD(2) [OF assms(1) n] assms(4) unfolding set_mset_mset by blast
    show "inputs (nd ?D n) = []" if "is_input (nd ?D n)" using that assms(5) wf_circuitD(3) [OF assms(1) n] unfolding ins pis by auto
    show "count_list (inputs (nd ?D n)) m = count_list (outputs (nd ?D m)) n" if m: "m \<in> set (all_nodes B)" for m
    proof -
      have "count_list (inputs (nd B n)) m = count_list (outputs (nd B m)) n" using assms(1) n m unfolding wf_circuit_def by blast
      moreover have "count_list (outputs (nd ?D m)) n = count_list (outputs (nd B m)) n + (if n = t then count_list (map fst row) m else 0)"
        unfolding count_mset_count_list [symmetric] outs by simp
      ultimately show ?thesis using assms(2) unfolding ins by (cases "n = t") simp_all
    qed
  qed
  moreover have "Restruct t (row # rows) B = Some ?D" using assms(3) by (simp add: Restruct_def Let_def)
  moreover have "cube (nd ?D t) = cover_text (row # rows)" using cube [of ?C] by simp
  moreover have "inputs (nd ?D t) = map fst row" unfolding ins by (rule if_P [OF refl])
  moreover have "\<forall>n. n \<noteq> t \<longrightarrow> inputs (nd ?D n) = inputs (nd B n)" unfolding ins by simp
  ultimately show ?thesis using nodes by blast
qed

section \<open>Candidates\<close>

text \<open>
  \<open>NodeMerge::InitCand\<close> for a cluster: the clusters that may take over the work of the seed, and their inputs. The
  specification is a second circuit \<open>S\<close>, whose nodes are found by name; an unknown name is a null pointer (\<open>None\<close>). The sets that become vectors
  are sorted by address.
\<close>

fun seed_cones :: "circuit \<Rightarrow> nat list \<Rightarrow> nat set \<times> nat set \<Rightarrow> (nat set \<times> nat set) option" where
  "seed_cones C [] acc = Some acc"
| "seed_cones C (n # ns) acc =
    (case GetFanoutCone C n {} {} of
       Some (tfo, po) \<Rightarrow> seed_cones C ns (fst acc \<union> tfo, snd acc \<union> po)
     | None \<Rightarrow> None)"

fun pi_cands :: "circuit \<Rightarrow> circuit \<Rightarrow> nat set \<Rightarrow> nat list \<Rightarrow> nat set \<Rightarrow> nat set option" where
  "pi_cands C S tfo_of_seed [] n_cands = Some n_cands"
| "pi_cands C S tfo_of_seed (n_pi_s # ns) n_cands =
    (case GetNode C (name (nd S n_pi_s)) of
       None \<Rightarrow> None
     | Some n_pi \<Rightarrow>
         (case GetFanoutCone C n_pi {} {} of
            Some (tfo, _) \<Rightarrow> pi_cands C S tfo_of_seed ns (n_cands \<union> (tfo - tfo_of_seed))
          | None \<Rightarrow> None))"

fun po_cands :: "circuit \<Rightarrow> circuit \<Rightarrow> nat set \<Rightarrow> nat list \<Rightarrow> nat set \<Rightarrow> nat set option" where
  "po_cands C S tfo_of_seed [] n_cands = Some n_cands"
| "po_cands C S tfo_of_seed (n_out # ns) n_cands =
    (case GetNode S (name (nd C n_out)) of
       None \<Rightarrow> None
     | Some n_out_s \<Rightarrow>
         (case GetFaninCone S n_out_s {} {} of
            Some (_, pi_s) \<Rightarrow>
              (case pi_cands C S tfo_of_seed (sorted_list_of_set pi_s) n_cands of
                 Some n_cands \<Rightarrow> po_cands C S tfo_of_seed ns n_cands
               | None \<Rightarrow> None)
          | None \<Rightarrow> None))"

definition InitCand :: "circuit \<Rightarrow> circuit \<Rightarrow> nat \<Rightarrow> (nat list \<times> nat list) option" where
  "InitCand C S seed =
    (case seed_cones C (nodes_c (clu C seed)) ({}, {}) of
       None \<Rightarrow> None
     | Some (n_tfo, n_po) \<Rightarrow>
         (case GetFanoutCone_cluster C seed {} of
            None \<Rightarrow> None
          | Some c_tfo \<Rightarrow>
              (case po_cands C S n_tfo (sorted_list_of_set n_po) {} of
                 None \<Rightarrow> None
               | Some n_cands \<Rightarrow>
                   let c_cands = {c \<in> (\<lambda>n. my_cluster (nd C n)) ` n_cands. c \<notin> c_tfo \<and> c \<noteq> seed}
                   in Some (sorted_list_of_set c_cands, sorted_list_of_set (\<Union>c\<in>c_cands. input_nodes (clu C c))))))"

text \<open>What the fanout cones of the implementation find, by the names of the primary inputs of the specification.\<close>

lemma seed_cones_eq:
  assumes "wf_circuit C" "set ns \<subseteq> set (all_nodes C)" "\<forall>p\<in>P0. p \<in> set (all_nodes C) \<and> is_output (nd C p)"
  shows "\<exists>T P. seed_cones C ns (T0, P0) = Some (T, P) \<and> (\<forall>p\<in>P. p \<in> set (all_nodes C) \<and> is_output (nd C p))"
  using assms(2,3)
proof (induction ns arbitrary: T0 P0)
  case (Cons n ns)
  have n: "n \<in> set (all_nodes C)" "set ns \<subseteq> set (all_nodes C)" using Cons.prems(1) by simp_all
  define T1 where "T1 = T0 \<union> ({m. (m, n) \<in> (fanins C)\<^sup>*} - {n})"
  define P1 where "P1 = P0 \<union> {m. (m, n) \<in> (fanins C)\<^sup>* \<and> is_output (nd C m)}"
  have "\<forall>p\<in>P1. p \<in> set (all_nodes C) \<and> is_output (nd C p)"
    using Cons.prems(2) fanins_nodes(2) [OF assms(1) _ n(1)] unfolding P1_def by blast
  moreover have "seed_cones C (n # ns) (T0, P0) = seed_cones C ns (T1, P1)"
    using GetFanoutCone_eq [OF assms(1) n(1)] by (simp add: T1_def P1_def)
  ultimately show ?case using Cons.IH [OF n(2), of P1 T1] by simp
qed simp

text \<open>
  The names of the two circuits fit together: the primary outputs of the implementation are nodes of the specification, and the primary inputs of
  the specification are nodes of the implementation.
\<close>

definition names_fit :: "circuit \<Rightarrow> circuit \<Rightarrow> bool" where
  "names_fit C S \<longleftrightarrow>
    (\<forall>n\<in>set (all_nodes C). is_output (nd C n) \<longrightarrow> (\<exists>m\<in>set (all_nodes S). all_nodes_map S (name (nd C n)) = Some m)) \<and>
    (\<forall>m\<in>set (all_nodes S). is_input (nd S m) \<longrightarrow> (\<exists>n\<in>set (all_nodes C). all_nodes_map C (name (nd S m)) = Some n \<and> is_input (nd C n)))"

lemma pi_cands_eq:
  assumes "wf_circuit C" "names_fit C S" "\<forall>m\<in>set ns. m \<in> set (all_nodes S) \<and> is_input (nd S m)"
    "\<forall>n\<in>N. n \<in> set (all_nodes C) \<and> \<not> is_input (nd C n)"
  shows "\<exists>N'. pi_cands C S T ns N = Some N' \<and> (\<forall>n\<in>N'. n \<in> set (all_nodes C) \<and> \<not> is_input (nd C n))"
  using assms(3,4)
proof (induction ns arbitrary: N)
  case (Cons m ns)
  have m: "m \<in> set (all_nodes S)" "is_input (nd S m)" "\<forall>m\<in>set ns. m \<in> set (all_nodes S) \<and> is_input (nd S m)"
    using Cons.prems(1) by simp_all
  obtain n where n: "n \<in> set (all_nodes C)" "all_nodes_map C (name (nd S m)) = Some n" "is_input (nd C n)"
    using assms(2) m(1,2) unfolding names_fit_def by blast
  define N1 where "N1 = N \<union> ({k. (k, n) \<in> (fanins C)\<^sup>*} - {n} - T)"
  have "k \<in> set (all_nodes C) \<and> \<not> is_input (nd C k)" if kn: "(k, n) \<in> (fanins C)\<^sup>*" "k \<noteq> n" for k
  proof -
    have k: "k \<in> set (all_nodes C)" using fanins_nodes(2) [OF assms(1) kn(1) n(1)] .
    obtain j where "(k, j) \<in> fanins C" using kn by (auto elim: converse_rtranclE)
    then show ?thesis using k wf_circuitD(3) [OF assms(1) k] by (auto simp: fanins_def)
  qed
  then have "\<forall>n\<in>N1. n \<in> set (all_nodes C) \<and> \<not> is_input (nd C n)" using Cons.prems(2) unfolding N1_def by blast
  moreover have "pi_cands C S T (m # ns) N = pi_cands C S T ns N1"
    using n(2) GetFanoutCone_eq [OF assms(1) n(1)] by (simp add: N1_def)
  ultimately show ?case using Cons.IH [OF m(3), of N1] by simp
qed simp

lemma po_cands_eq:
  assumes "wf_circuit C" "wf_circuit S" "names_fit C S" "\<forall>n\<in>set ns. n \<in> set (all_nodes C) \<and> is_output (nd C n)"
    "\<forall>n\<in>N. n \<in> set (all_nodes C) \<and> \<not> is_input (nd C n)"
  shows "\<exists>N'. po_cands C S T ns N = Some N' \<and> (\<forall>n\<in>N'. n \<in> set (all_nodes C) \<and> \<not> is_input (nd C n))"
  using assms(4,5)
proof (induction ns arbitrary: N)
  case (Cons n ns)
  have n: "n \<in> set (all_nodes C)" "is_output (nd C n)" "\<forall>n\<in>set ns. n \<in> set (all_nodes C) \<and> is_output (nd C n)"
    using Cons.prems(1) by simp_all
  obtain m where m: "m \<in> set (all_nodes S)" "all_nodes_map S (name (nd C n)) = Some m"
    using assms(3) n(1,2) unfolding names_fit_def by blast
  define pi where "pi = {k. (m, k) \<in> (fanins S)\<^sup>* \<and> is_input (nd S k)}"
  have pi: "pi \<subseteq> set (all_nodes S)" using fanins_nodes(1) [OF assms(2) _ m(1)] unfolding pi_def by blast
  then have "set (sorted_list_of_set pi) = pi" using finite_subset [OF pi] by simp
  then have "\<forall>k\<in>set (sorted_list_of_set pi). k \<in> set (all_nodes S) \<and> is_input (nd S k)" using pi by (auto simp: pi_def)
  from pi_cands_eq [OF assms(1,3) this Cons.prems(2), of T] obtain N1 where N1: "pi_cands C S T (sorted_list_of_set pi) N = Some N1"
    "\<forall>n\<in>N1. n \<in> set (all_nodes C) \<and> \<not> is_input (nd C n)" by blast
  moreover have "po_cands C S T (n # ns) N = po_cands C S T ns N1"
    using m(2) GetFaninCone_eq [OF assms(2) m(1)] N1(1) by (simp add: pi_def)
  ultimately show ?case using Cons.IH [OF n(3) N1(2)] by simp
qed simp

text \<open>A path between nodes is one between their clusters.\<close>

lemma path_clusters:
  assumes "clustered C" "(m, n) \<in> (fanins C)\<^sup>*" "n \<in> set (all_nodes C)" "\<not> is_input (nd C n)"
  shows "\<not> is_input (nd C m) \<and> (my_cluster (nd C m), my_cluster (nd C n)) \<in> (cluster_fanins C)\<^sup>*"
  using assms(2)
proof (induction rule: converse_rtrancl_induct)
  case base
  then show ?case using assms(4) by simp
next
  case (step x y)
  have w: "wf_circuit C" using assms(1) by (simp add: clustered_def)
  have "x \<in> set (all_nodes C)" "y \<in> set (inputs (nd C x))" using step.hyps(1) by (simp_all add: fanins_def)
  then have "\<not> is_input (nd C x)" using wf_circuitD(3) [OF w] by fastforce
  moreover have "(my_cluster (nd C x), my_cluster (nd C y)) \<in> cluster_fanins C"
    unfolding cluster_fanins_iff [OF assms(1)] using step by blast
  ultimately show ?case using step.IH by (blast intro: converse_rtrancl_into_rtrancl)
qed

lemma InitCand_correct0:
  assumes "clustered C" "wf_circuit S" "seed \<in> set (all_clusters C)" "names_fit C S"
  shows "\<exists>cands ins. InitCand C S seed = Some (cands, ins) \<and>
    (\<forall>c\<in>set cands. c \<in> set (all_clusters C) \<and> c \<noteq> seed \<and> (c, seed) \<notin> (cluster_fanins C)\<^sup>*) \<and>
    (\<forall>i. i \<in> set ins \<longleftrightarrow> (\<exists>c\<in>set cands. i \<in> input_nodes (clu C c))) \<and>
    (\<forall>i\<in>set ins. i \<in> set (all_nodes C) \<and> (\<forall>n\<in>set (nodes_c (clu C seed)). (i, n) \<notin> (fanins C)\<^sup>*))"
proof -
  have w: "wf_circuit C" and p: "partition_ok C" using assms(1) by (simp_all add: clustered_def)
  have "set (nodes_c (clu C seed)) \<subseteq> set (all_nodes C)" using partition_okD(7) [OF p assms(3)] by blast
  from seed_cones_eq [OF w this, of "{}" "{}"] obtain T P where T: "seed_cones C (nodes_c (clu C seed)) ({}, {}) = Some (T, P)"
    and out: "\<forall>p\<in>P. p \<in> set (all_nodes C) \<and> is_output (nd C p)" by auto
  then have P: "P \<subseteq> set (all_nodes C)" "\<forall>p\<in>P. is_output (nd C p)" by blast+
  have "set (sorted_list_of_set P) = P" using finite_subset [OF P(1)] by simp
  then have "\<forall>n\<in>set (sorted_list_of_set P). n \<in> set (all_nodes C) \<and> is_output (nd C n)" using P by blast
  from po_cands_eq [OF w assms(2,4) this, where N = "{}" and T = T] obtain N where N: "po_cands C S T (sorted_list_of_set P) {} = Some N"
    "\<forall>n\<in>N. n \<in> set (all_nodes C) \<and> \<not> is_input (nd C n)" by auto
  let ?D = "{d. (d, seed) \<in> (cluster_fanins C)\<^sup>*} - {seed}"
  define cs where "cs = {c \<in> (\<lambda>n. my_cluster (nd C n)) ` N. c \<notin> ?D \<and> c \<noteq> seed}"
  have cs: "c \<in> set (all_clusters C) \<and> c \<noteq> seed \<and> (c, seed) \<notin> (cluster_fanins C)\<^sup>*" if "c \<in> cs" for c
    using that N(2) partition_okD(3) [OF p] unfolding cs_def by auto
  have fcs: "finite cs" using finite_subset [of cs "set (all_clusters C)"] cs by blast
  have fin: "finite (\<Union>c\<in>cs. input_nodes (clu C c))" using fcs clustered_finite [OF assms(1)] cs by blast
  have eq: "InitCand C S seed = Some (sorted_list_of_set cs, sorted_list_of_set (\<Union>c\<in>cs. input_nodes (clu C c)))"
    using T N(1) GetFanoutCone_cluster_eq [OF assms(1,3)] by (simp add: InitCand_def cs_def Let_def)
  have "i \<in> set (all_nodes C) \<and> (\<forall>n\<in>set (nodes_c (clu C seed)). (i, n) \<notin> (fanins C)\<^sup>*)"
    if ci: "c \<in> cs" "i \<in> input_nodes (clu C c)" for c i
  proof -
    have "inputs_ok C c" "c \<in> set (all_clusters C)" using assms(1) cs [OF ci(1)] by (auto simp: clustered_def)
    then obtain m where m: "m \<in> set (nodes_c (clu C c))" "i \<in> set (inputs (nd C m))" "m \<in> set (all_nodes C)" "my_cluster (nd C m) = c"
      using ci(2) partition_okD(7,9) [OF p] unfolding inputs_ok_def ins_of_def by blast
    have "(i, n) \<notin> (fanins C)\<^sup>*" if n: "n \<in> set (nodes_c (clu C seed))" for n
    proof
      assume "(i, n) \<in> (fanins C)\<^sup>*"
      then have "(m, n) \<in> (fanins C)\<^sup>*" using m(2,3) by (intro converse_rtrancl_into_rtrancl [of m i]) (auto simp: fanins_def)
      then have "(c, seed) \<in> (cluster_fanins C)\<^sup>*"
        using path_clusters [OF assms(1)] partition_okD(7-9) [OF p assms(3) n] m(4) by auto
      then show False using cs [OF ci(1)] by blast
    qed
    then show ?thesis using wf_circuitD(1) [OF w m(3,2)] by blast
  qed
  then show ?thesis using eq cs fcs fin by (intro exI conjI) (assumption, auto)
qed

section \<open>Properties\<close>

text \<open>
  C8: \<open>AssignOrder\<close> ends exactly on the circuits without a combinational cycle. It then changes the orders only: every input of a node has a larger order than
  the node, no order has become smaller, and no assignment with these two properties is smaller anywhere.
\<close>

theorem AssignOrder_correct:
  assumes "wf_circuit C"
  shows "if acyclic (fanins C)
    then \<exists>D. AssignOrder C = Some D \<and> same_but_order C D \<and> (\<forall>(n, m)\<in>fanins C. order (nd D n) < order (nd D m)) \<and>
      (\<forall>n. order (nd C n) \<le> order (nd D n)) \<and>
      (\<forall>b. order_bound C b \<longrightarrow> (\<forall>n\<in>set (all_nodes C). order (nd D n) \<le> b n))
    else AssignOrder C = None"
proof (cases "acyclic (fanins C)")
  case True
  from order_bound_exists [OF assms True] obtain b where "order_bound C b" ..
  from AssignOrder_bounded [OF assms this] obtain D where D: "AssignOrder C = Some D" "same_but_order C D"
    "\<forall>(n, m)\<in>fanins C. order (nd D n) < order (nd D m)" "\<forall>n. order (nd C n) \<le> order (nd D n)"
    "\<forall>b. order_bound C b \<longrightarrow> order_bound D b" by blast
  have "\<forall>n\<in>set (all_nodes C). order (nd D n) \<le> b n" if "order_bound C b" for b
    using D(5) that same_but_order_sel(1) [OF D(2)] unfolding order_bound_def by simp
  then show ?thesis using D(1-4) True by auto
next
  case False
  then show ?thesis using AssignOrder_ends [OF _ assms] by (cases "AssignOrder C") auto
qed

lemma three_gates_acyclic: "acyclic (fanins three_gates)"
proof -
  define rank :: "nat \<Rightarrow> nat" where "rank n = (if n = 3 then 2 else if n = 2 then 1 else if n = 4 then 1 else 0)" for n
  have "fanins three_gates \<subseteq> (measure rank)\<inverse>"
    by (auto simp: fanins_def three_gates_def list_circuit_def mk_node_def rank_def)
  then have "acyclic ((fanins three_gates)\<inverse>)" using wf_subset [of "measure rank" "(fanins three_gates)\<inverse>"] wf_acyclic by blast
  then show ?thesis by simp
qed

theorem AssignOrder_witness:
  "\<exists>D. AssignOrder three_gates = Some D \<and> map (\<lambda>n. order (nd D n)) [0, 1, 2, 3, 4] = [2, 2, 1, 0, 0]"
proof -
  have "\<exists>D. AssignOrder three_gates = Some D" using AssignOrder_correct [of three_gates] three_gates_acyclic by auto
  moreover have "\<exists>D. AssignOrder three_gates = Some D \<and> map (\<lambda>n. order (nd D n)) [0, 1, 2, 3, 4] = [2, 2, 1, 0, 0]"
    by (simp add: three_gates_def list_circuit_def mk_node_def AssignOrder.simps order_pass_def order_step_def upd_node_def)
  ultimately show ?thesis by blast
qed

text \<open>
  C17: \<open>SetTargets\<close> cuts different nodes of a circuit, none of them a primary input, from their inputs without failing; what is left is a circuit in which
  no node has a target among its outputs. \<open>Restore\<close> brings back the inputs and covers of all nodes; the
  outputs come back in another order.
\<close>

theorem Restore_SetTargets:
  assumes "wf_circuit C" "targets C = []" "distinct ts" "\<forall>t\<in>set ts. t \<in> set (all_nodes C) \<and> \<not> is_input (nd C t)"
  shows "\<exists>B D. SetTargets ts C = Some B \<and> Restore ts B = Some D \<and>
    wf_circuit B \<and> targets B = ts \<and> (\<forall>t\<in>set ts. inputs (nd B t) = []) \<and>
    (\<forall>n\<in>set (all_nodes B). set (outputs (nd B n)) \<inter> set ts = {}) \<and>
    wf_circuit D \<and> targets D = [] \<and> all_nodes D = all_nodes C \<and> fanins D = fanins C \<and>
    (\<forall>n. inputs (nd D n) = inputs (nd C n) \<and> cube (nd D n) = cube (nd C n)) \<and>
    (\<forall>n\<in>set (all_nodes C). mset (outputs (nd D n)) = mset (outputs (nd C n)))"
proof -
  obtain B where B: "SetTargets ts C = Some B" "cut (set ts) {} C B" "targets B = ts"
    using SetTargets_cut [OF assms(1) cut_refl assms(3)] assms(2,4) by auto
  have "set ts \<subseteq> set (all_nodes C)" using assms(4) by blast
  from restore_all_cut [OF assms(1) B(2) assms(3) this] obtain E where E: "restore_all ts B = Some E" "cut {} (set ts) C E" by auto
  let ?D = "E\<lparr>targets := []\<rparr>"
  have D: "cut {} (set ts) C ?D" using E(2) by (simp add: cut_def)
  have "Restore ts B = Some ?D" using E(1) by (simp add: Restore_def)
  moreover have "set (outputs (nd B n)) \<inter> set ts = {}" if "n \<in> set (all_nodes B)" for n
  proof -
    have "mset (outputs (nd B n)) = filter_mset (\<lambda>x. x \<notin> set ts) (mset (outputs (nd C n)))"
      using B(2) that cut_sel(1) [OF B(2)] unfolding cut_def by simp
    then have "set_mset (mset (outputs (nd B n))) \<inter> set ts = {}" by auto
    then show ?thesis by simp
  qed
  moreover have "mset (outputs (nd ?D n)) = mset (outputs (nd C n))" if "n \<in> set (all_nodes C)" for n
    using D that unfolding cut_def by simp
  moreover have "inputs (nd ?D n) = inputs (nd C n) \<and> cube (nd ?D n) = cube (nd C n)" for n using cut_sel(4,6) [OF D, of n] by simp
  moreover have "fanins ?D = fanins C" using cut_sel(1,4) [OF D] by (simp add: fanins_def)
  ultimately show ?thesis
    using B cut_wf [OF assms(1) B(2)] cut_wf [OF assms(1) D] cut_sel(4) [OF B(2)] cut_sel(1) [OF D] by (intro exI [of _ B] exI [of _ ?D]) simp
qed

theorem Restore_SetTargets_witness:
  "\<exists>B D. SetTargets [3, 2] three_gates = Some B \<and> Restore [3, 2] B = Some D \<and> inputs (nd B 3) = [] \<and> outputs (nd B 1) = [] \<and>
    inputs (nd D 3) = [2, 1] \<and> outputs (nd D 1) = [3, 2]"
proof -
  have "targets three_gates = []" "\<forall>t\<in>set [3, 2]. t \<in> set (all_nodes three_gates) \<and> \<not> is_input (nd three_gates t)"
    by (simp_all add: three_gates_def list_circuit_def mk_node_def)
  then have "\<exists>B D. SetTargets [3, 2] three_gates = Some B \<and> Restore [3, 2] B = Some D"
    using Restore_SetTargets [of three_gates "[3, 2]"] by auto
  moreover have "\<exists>B D. SetTargets [3, 2] three_gates = Some B \<and> Restore [3, 2] B = Some D \<and> inputs (nd B 3) = [] \<and> outputs (nd B 1) = [] \<and>
    inputs (nd D 3) = [2, 1] \<and> outputs (nd D 1) = [3, 2]"
    by (simp add: three_gates_def list_circuit_def mk_node_def set_target_def Restore_def restore_target_def attach_def upd_node_def Let_def)
  ultimately show ?thesis by blast
qed

text \<open>
  C9: \<open>InitCand\<close> succeeds when the names of the two circuits fit together. No candidate is the seed or lies in its fanout cone, the candidate inputs are the
  inputs of the candidates, and no node of the seed is reached from them backwards: the seed can be given any of them as inputs.
\<close>

theorem InitCand_correct:
  assumes "clustered C" "wf_circuit S" "seed \<in> set (all_clusters C)" "names_fit C S"
  shows "\<exists>cands ins. InitCand C S seed = Some (cands, ins) \<and>
    (\<forall>c\<in>set cands. c \<in> set (all_clusters C) \<and> c \<noteq> seed \<and> (c, seed) \<notin> (cluster_fanins C)\<^sup>*) \<and>
    (\<forall>i. i \<in> set ins \<longleftrightarrow> (\<exists>c\<in>set cands. i \<in> input_nodes (clu C c))) \<and>
    (\<forall>i\<in>set ins. i \<in> set (all_nodes C) \<and> (\<forall>n\<in>set (nodes_c (clu C seed)). (i, n) \<notin> (fanins C)\<^sup>*))"
  by (rule InitCand_correct0 [OF assms])

lemma three_gates_fit: "names_fit (InitCluster three_gates) three_gates"
  by (simp add: names_fit_def three_gates_def list_circuit_def mk_node_def InitCluster_def new_cluster_def append_node_def Let_def)

lemma three_gates_net:
  "outputs (nd (InitCluster three_gates) n) = outputs (nd three_gates n)" "is_output (nd (InitCluster three_gates) n) = is_output (nd three_gates n)"
  "name (nd (InitCluster three_gates) n) = name (nd three_gates n)" "all_nodes_map (InitCluster three_gates) = all_nodes_map three_gates"
proof -
  have net: "same_net three_gates (InitCluster three_gates)" using InitCluster_correct0(2) three_gates_clusters(1) by simp
  then show "all_nodes_map (InitCluster three_gates) = all_nodes_map three_gates" by (simp add: same_net_def)
  obtain c where "nd (InitCluster three_gates) n = (nd three_gates n)\<lparr>my_cluster := c\<rparr>" using net unfolding same_net_def by blast
  then show "outputs (nd (InitCluster three_gates) n) = outputs (nd three_gates n)"
    "is_output (nd (InitCluster three_gates) n) = is_output (nd three_gates n)"
    "name (nd (InitCluster three_gates) n) = name (nd three_gates n)" by simp_all
qed

lemma three_gates_cones:
  "GetFanoutCone (InitCluster three_gates) 2 {} {} = Some ({3}, {3})"
  "GetFanoutCone (InitCluster three_gates) (Suc 0) {} {} = Some ({2, 3}, {3})"
  "GetFanoutCone (InitCluster three_gates) 0 {} {} = Some ({2, 3, 4}, {3, 4})"
  "GetFaninCone three_gates 3 {} {} = Some ({2}, {0, Suc 0})"
  "GetFanoutCone_cluster (InitCluster three_gates) 0 {} = Some {Suc 0}"
  using three_gates_sel(9,10)
  by (auto simp: GetFaninCone_def GetFanoutCone_def GetFanoutCone_cluster_def fanout_clusters_def cone_loop.simps
    three_gates_net three_gates_sel three_gates_clusters)

theorem InitCand_witness:
  "\<exists>cands ins. InitCand (InitCluster three_gates) three_gates 0 = Some (cands, ins) \<and> set cands = {2} \<and> set ins = {0}"
proof -
  have "clustered (InitCluster three_gates)" using InitCluster_correct0(1) three_gates_clusters(1) by simp
  from InitCand_correct [OF this three_gates_wf _ three_gates_fit, of 0]
  have "\<exists>cands ins. InitCand (InitCluster three_gates) three_gates 0 = Some (cands, ins)" by (auto simp: three_gates_clusters)
  moreover have "\<exists>cands ins. InitCand (InitCluster three_gates) three_gates 0 = Some (cands, ins) \<and> set cands = {2} \<and> set ins = {0}"
  proof -
    have "{c. (c = my_cluster (nd (InitCluster three_gates) 2) \<or> c = my_cluster (nd (InitCluster three_gates) 4)) \<and> c \<noteq> Suc 0 \<and> 0 < c} = {2}"
      by (auto simp: three_gates_clusters)
    moreover have "{2, 3, 4} - {3} \<union> ({2, 3} - {3}) = {2, 4 :: nat}" by auto
    ultimately show ?thesis using three_gates_sel(11)
      by (simp add: InitCand_def three_gates_clusters three_gates_cones three_gates_net Let_def)
  qed
  ultimately show ?thesis by blast
qed

text \<open>
  C16: A node that is made a target and given new inputs, none of which depends on it, is again part of a well-formed circuit: it has the inputs and the cover
  of the rows, all others keep their inputs, and no combinational cycle arises.
\<close>

theorem Restruct_correct:
  assumes "wf_circuit C" "t \<in> set (all_nodes C)" "\<not> is_input (nd C t)"
    and "\<forall>i\<in>set (map fst row). i \<in> set (all_nodes C) \<and> (i, t) \<notin> (fanins C)\<^sup>*"
  shows "\<exists>B D. SetTargets [t] C = Some B \<and> Restruct t (row # rows) B = Some D \<and> wf_circuit D \<and> all_nodes D = all_nodes C \<and>
    inputs (nd D t) = map fst row \<and> cube (nd D t) = cover_text (row # rows) \<and> (\<forall>n. n \<noteq> t \<longrightarrow> inputs (nd D n) = inputs (nd C n)) \<and>
    (acyclic (fanins C) \<longrightarrow> acyclic (fanins D))"
proof -
  obtain B where B: "SetTargets [t] C = Some B" "cut {t} {} C B" "targets B = targets C @ [t]"
    using SetTargets_cut [OF assms(1) cut_refl, of "[t]"] assms(2,3) by auto
  note sel = cut_sel [OF B(2)]
  have "inputs (nd B t) = []" "t \<in> set (targets B)" "t \<in> set (all_nodes B)" "\<not> is_input (nd B t)" "set (map fst row) \<subseteq> set (all_nodes B)"
    using sel B(3) assms(2-4) by auto
  from Restruct_wf [OF cut_wf [OF assms(1) B(2)] this, of rows] obtain D where D: "Restruct t (row # rows) B = Some D" "wf_circuit D"
    "all_nodes D = all_nodes B" "inputs (nd D t) = map fst row" "\<forall>n. n \<noteq> t \<longrightarrow> inputs (nd D n) = inputs (nd B n)" "cube (nd D t) = cover_text (row # rows)"
    by blast
  have ins: "inputs (nd D n) = inputs (nd C n)" if "n \<noteq> t" for n using D(5) sel(4) that by simp
  have "acyclic (fanins D)" if "acyclic (fanins C)"
  proof -
    let ?E = "fanins C - {t} \<times> UNIV"
    have "acyclic (?E \<union> {t} \<times> set (map fst row))"
    proof (rule acyclic_new_edges)
      show "acyclic ?E" using acyclic_subset [OF that] by blast
      show "(i, t) \<notin> ?E\<^sup>*" if "i \<in> set (map fst row)" for i using assms(4) that rtrancl_mono [of ?E "fanins C"] by blast
    qed
    moreover have "fanins D = ?E \<union> {t} \<times> set (map fst row)"
    proof -
      have "inputs (nd D n) = (if n = t then map fst row else inputs (nd C n))" for n using ins D(4) by simp
      then show ?thesis unfolding fanins_def D(3) sel(1) using assms(2) by (force split: if_splits)
    qed
    ultimately show ?thesis by simp
  qed
  then show ?thesis using B(1) D ins sel(1) by auto
qed

theorem Restruct_witness:
  "\<exists>B D. SetTargets [3] three_gates = Some B \<and> Restruct 3 [[(1, True), (4, False)]] B = Some D \<and>
    inputs (nd D 3) = [1, 4] \<and> outputs (nd D 4) = [3] \<and> cube (nd D 3) = ''10 1'' @ [CHR 0x0A]"
proof -
  have e: "(3 :: nat) \<in> set (all_nodes three_gates)" "\<not> is_input (nd three_gates 3)"
    by (simp_all add: three_gates_def list_circuit_def mk_node_def)
  have "(i, 3) \<notin> (fanins three_gates)\<^sup>*" if i: "i \<in> {1, 4 :: nat}" for i
  proof
    assume "(i, 3) \<in> (fanins three_gates)\<^sup>*"
    then obtain j where "(j, 3) \<in> fanins three_gates" using i by (auto elim: rtranclE)
    then show False by (auto simp: fanins_def three_gates_def list_circuit_def mk_node_def)
  qed
  then have "\<forall>i\<in>set (map fst [(1, True), (4, False)]). i \<in> set (all_nodes three_gates) \<and> (i, 3) \<notin> (fanins three_gates)\<^sup>*" by simp
  from Restruct_correct [OF three_gates_wf e this, of "[]"]
  have "\<exists>B D. SetTargets [3] three_gates = Some B \<and> Restruct 3 [[(1, True), (4, False)]] B = Some D" by blast
  moreover have "\<exists>B D. SetTargets [3] three_gates = Some B \<and> Restruct 3 [[(1, True), (4, False)]] B = Some D \<and>
    inputs (nd D 3) = [1, 4] \<and> outputs (nd D 4) = [3] \<and> cube (nd D 3) = ''10 1'' @ [CHR 0x0A]"
    by (simp add: three_gates_def list_circuit_def mk_node_def set_target_def Restruct_def cover_text_def upd_node_def Let_def)
  ultimately show ?thesis by blast
qed

end
