(* ===== verification/Circ_Remove.thy ===== *)
theory Circ_Remove
  imports Circ_Target
begin

text \<open>
  \<open>Circuit::Remove\<close> of \<open>src/circuit/node.cpp\<close>: taking a node out of the circuit and out of its cluster, with everything that was used for it only.
\<close>

section \<open>\<open>Remove\<close>\<close>

text \<open>
  \<open>Remove\<close> calls itself from its loop over the inputs. The calls that are still to come are a list of pairs of an input and the node
  that has been removed. \<open>None\<close> is the failed assertion, or an erase at the end of a container that does not hold the object.
\<close>

definition drop_node :: "nat \<Rightarrow> circuit \<Rightarrow> circuit option" where
  "drop_node n C =
    (if outputs (nd C n) \<noteq> [] then None
     else let c = my_cluster (nd C n)
       in if length (nodes_c (clu C c)) \<noteq> 1 then
            (if n \<in> set (nodes_c (clu C c)) \<and> n \<in> set (all_nodes C)
             then Some (upd_clu c (\<lambda>k. k\<lparr>nodes_c := remove1 n (nodes_c k)\<rparr>) (C\<lparr>all_nodes := remove1 n (all_nodes C)\<rparr>)) else None)
          else
            (if c \<in> set (all_clusters C) \<and> n \<in> set (all_nodes C)
             then Some (C\<lparr>all_clusters := remove1 c (all_clusters C), all_nodes := remove1 n (all_nodes C)\<rparr>) else None))"

partial_function (option) remove_inputs :: "(nat \<times> nat) list \<Rightarrow> circuit \<Rightarrow> circuit option" where
  "remove_inputs pairs C =
    (case pairs of
       [] \<Rightarrow> Some C
     | (i, n) # rest \<Rightarrow>
         if n \<in> set (outputs (nd C i)) then
           let C = upd_node i (\<lambda>x. x\<lparr>outputs := remove1 n (outputs x)\<rparr>) C
           in if outputs (nd C i) = [] \<and> \<not> is_input (nd C i) \<and> \<not> is_output (nd C i) then
                (case drop_node i C of
                   Some C \<Rightarrow> remove_inputs (map (\<lambda>j. (j, i)) (inputs (nd C i)) @ rest) C
                 | None \<Rightarrow> None)
              else remove_inputs rest C
         else None)"

definition Remove :: "nat \<Rightarrow> circuit \<Rightarrow> circuit option" where
  "Remove n C =
    (case drop_node n C of
       Some C \<Rightarrow> remove_inputs (map (\<lambda>j. (j, n)) (inputs (nd C n))) C
     | None \<Rightarrow> None)"

text \<open>What is no longer used once \<open>n\<close> is gone: nodes inside the circuit all of whose outputs are unused.\<close>

inductive_set unused :: "circuit \<Rightarrow> nat \<Rightarrow> nat set"
  for C :: circuit and n :: nat
where
  unused_start: "n \<in> unused C n"
| unused_inside: "m \<in> set (all_nodes C) \<Longrightarrow> \<not> is_input (nd C m) \<Longrightarrow> \<not> is_output (nd C m) \<Longrightarrow> outputs (nd C m) \<noteq> [] \<Longrightarrow>
    (\<And>x. x \<in> set (outputs (nd C m)) \<Longrightarrow> x \<in> unused C n) \<Longrightarrow> m \<in> unused C n"

section \<open>Dropping one node\<close>

lemma drop_node_partition:
  assumes "partition_ok C" "n \<in> set (all_nodes C)" "\<not> is_input (nd C n)" "outputs (nd C n) = []" "distinct (all_nodes C)"
  shows "\<exists>D. drop_node n C = Some D \<and> partition_ok D \<and> nd D = nd C \<and> all_nodes D = remove1 n (all_nodes C)"
proof -
  note p = partition_okD [OF assms(1)]
  let ?c = "my_cluster (nd C n)"
  have c: "?c \<in> set (all_clusters C)" "n \<in> set (nodes_c (clu C ?c))" using p(3,4) [OF assms(2,3)] .
  have other: "my_cluster (nd C m) \<noteq> ?c \<or> m \<in> set (nodes_c (clu C ?c))" if "m \<in> set (all_nodes C)" "\<not> is_input (nd C m)" for m
    using p(4) [OF that] by metis
  show ?thesis
  proof (cases "length (nodes_c (clu C ?c)) = 1")
    case True
    let ?D = "C\<lparr>all_clusters := remove1 ?c (all_clusters C), all_nodes := remove1 n (all_nodes C)\<rparr>"
    from True have single: "nodes_c (clu C ?c) = [n]" using c(2) by (auto simp: length_Suc_conv)
    have "partition_ok ?D"
      unfolding partition_ok_def
    proof (intro conjI ballI impI)
      show "distinct (all_clusters ?D)" using p(1) by simp
      fix d
      assume "d \<in> set (all_clusters ?D)"
      then have d: "d \<in> set (all_clusters C)" "d \<noteq> ?c" using p(1) by auto
      show "d < next_cluster ?D" "nodes_c (clu ?D d) \<noteq> []" "distinct (nodes_c (clu ?D d))" using p(2,5,6) [OF d(1)] by simp_all
      fix m
      assume "m \<in> set (nodes_c (clu ?D d))"
      then have m: "m \<in> set (nodes_c (clu C d))" by simp
      show "m \<in> set (all_nodes ?D)" "\<not> is_input (nd ?D m)" "my_cluster (nd ?D m) = d"
        using p(7-9) [OF d(1) m] d(2) assms(5) by auto
    next
      fix m
      assume "m \<in> set (all_nodes ?D)" and "\<not> is_input (nd ?D m)"
      then have m: "m \<in> set (all_nodes C)" "m \<noteq> n" "\<not> is_input (nd C m)" using assms(5) by auto
      then have "my_cluster (nd C m) \<noteq> ?c" using other [OF m(1,3)] single by simp
      then show "my_cluster (nd ?D m) \<in> set (all_clusters ?D)" "m \<in> set (nodes_c (clu ?D (my_cluster (nd ?D m))))"
        using p(3,4) [OF m(1,3)] p(1) by simp_all
    qed
    moreover have "drop_node n C = Some ?D" using True c(1) assms(2,4) by (simp add: drop_node_def)
    ultimately show ?thesis by (intro exI [of _ ?D]) simp
  next
    case False
    let ?D = "upd_clu ?c (\<lambda>k. k\<lparr>nodes_c := remove1 n (nodes_c k)\<rparr>) (C\<lparr>all_nodes := remove1 n (all_nodes C)\<rparr>)"
    have dist: "distinct (nodes_c (clu C ?c))" using p(6) [OF c(1)] .
    have nodes: "set (nodes_c (clu ?D d)) = set (nodes_c (clu C d)) - {n}" if "d \<in> set (all_clusters C)" for d
      using dist p(9) [OF that, of n] by auto
    have "partition_ok ?D"
      unfolding partition_ok_def
    proof (intro conjI ballI impI)
      show "distinct (all_clusters ?D)" using p(1) by simp
      fix d
      assume "d \<in> set (all_clusters ?D)"
      then have d: "d \<in> set (all_clusters C)" by simp
      show "d < next_cluster ?D" using p(2) [OF d] by simp
      show "distinct (nodes_c (clu ?D d))" using p(6) [OF d] dist by (simp add: distinct_remove1)
      have "length (remove1 n (nodes_c (clu C ?c))) \<noteq> 0" using False c(2) length_pos_if_in_set [OF c(2)] by (auto simp: length_remove1 le_Suc_eq)
      then show "nodes_c (clu ?D d) \<noteq> []" using p(5) [OF d] by auto
      fix m
      assume "m \<in> set (nodes_c (clu ?D d))"
      then have m: "m \<in> set (nodes_c (clu C d))" "m \<noteq> n" unfolding nodes [OF d] by simp_all
      show "m \<in> set (all_nodes ?D)" "\<not> is_input (nd ?D m)" "my_cluster (nd ?D m) = d" using p(7-9) [OF d m(1)] m(2) by simp_all
    next
      fix m
      assume "m \<in> set (all_nodes ?D)" and "\<not> is_input (nd ?D m)"
      then have m: "m \<in> set (all_nodes C)" "m \<noteq> n" "\<not> is_input (nd C m)" using assms(5) by auto
      then show "my_cluster (nd ?D m) \<in> set (all_clusters ?D)" using p(3) by simp
      show "m \<in> set (nodes_c (clu ?D (my_cluster (nd ?D m))))"
        using nodes [OF p(3) [OF m(1,3)]] p(4) [OF m(1,3)] m(2) by simp
    qed
    moreover have "drop_node n C = Some ?D" using False c(2) assms(2,4) by (simp add: drop_node_def Let_def)
    ultimately show ?thesis by (intro exI [of _ ?D]) simp
  qed
qed

section \<open>What is removed\<close>

text \<open>The nodes that the pairs still take away from the outputs of \<open>m\<close>.\<close>

definition pending :: "(nat \<times> nat) list \<Rightarrow> nat \<Rightarrow> nat multiset" where
  "pending P m = mset (map snd (filter (\<lambda>p. fst p = m) P))"

lemma pending_simps [simp]:
  "pending [] m = {#}" "pending (p # P) m = (if fst p = m then {#snd p#} else {#}) + pending P m"
  "pending (P @ Q) m = pending P m + pending Q m"
  by (simp_all add: pending_def)

lemma pending_map: "pending (map (\<lambda>j. (j, i)) js) m = replicate_mset (count_list js m) i"
  by (induction js) simp_all

lemma pending_empty: "pending P m = {#} \<longleftrightarrow> (\<forall>(i, x)\<in>set P. i \<noteq> m)"
  by (induction P) auto

text \<open>The state \<open>D\<close> when the nodes \<open>S\<close> of the circuit \<open>C\<close> have been removed, beginning with \<open>n\<close>, and those of \<open>X\<close> may be due.\<close>

definition remove_inv :: "circuit \<Rightarrow> nat \<Rightarrow> nat set \<Rightarrow> nat set \<Rightarrow> (nat \<times> nat) list \<Rightarrow> circuit \<Rightarrow> bool" where
  "remove_inv C n S X P D \<longleftrightarrow> n \<in> S \<and> S \<subseteq> set (all_nodes C) \<and>
    all_nodes D = filter (\<lambda>m. m \<notin> S) (all_nodes C) \<and> partition_ok D \<and>
    (\<forall>m. but_outputs (nd D m) = but_outputs (nd C m)) \<and>
    (\<forall>(i, x)\<in>set P. i \<in> set (all_nodes C) \<and> i \<notin> S \<and> x \<in> S \<and> x \<in> set (outputs (nd C i))) \<and>
    (\<forall>m\<in>set (all_nodes C) - S. mset (outputs (nd D m)) = filter_mset (\<lambda>x. x \<notin> S) (mset (outputs (nd C m))) + pending P m) \<and>
    (\<forall>m\<in>set (all_nodes C) - S - X. \<not> is_input (nd C m) \<and> \<not> is_output (nd C m) \<and> outputs (nd D m) = [] \<longrightarrow> outputs (nd C m) = []) \<and>
    (\<forall>m\<in>S. m \<in> unused C n \<and> set (outputs (nd C m)) \<subseteq> S)"

lemma remove_invD:
  assumes "remove_inv C n S X P D"
  shows "n \<in> S" "S \<subseteq> set (all_nodes C)" "all_nodes D = filter (\<lambda>m. m \<notin> S) (all_nodes C)" "partition_ok D"
    "but_outputs (nd D m) = but_outputs (nd C m)"
    "(i, x) \<in> set P \<Longrightarrow> i \<in> set (all_nodes C) \<and> i \<notin> S \<and> x \<in> S \<and> x \<in> set (outputs (nd C i))"
    "m \<in> set (all_nodes C) \<Longrightarrow> m \<notin> S \<Longrightarrow> mset (outputs (nd D m)) = filter_mset (\<lambda>x. x \<notin> S) (mset (outputs (nd C m))) + pending P m"
    "m \<in> set (all_nodes C) \<Longrightarrow> m \<notin> S \<Longrightarrow> m \<notin> X \<Longrightarrow> \<not> is_input (nd C m) \<Longrightarrow> \<not> is_output (nd C m) \<Longrightarrow> outputs (nd D m) = [] \<Longrightarrow> outputs (nd C m) = []"
    "m \<in> S \<Longrightarrow> m \<in> unused C n" "m \<in> S \<Longrightarrow> set (outputs (nd C m)) \<subseteq> S"
  using assms unfolding remove_inv_def by (blast, blast, blast, blast, blast, blast, blast, blast, blast, blast)

text \<open>A node goes when its last output is taken away.\<close>

lemma remove_inv_drop:
  assumes C: "wf_circuit C" and inv: "remove_inv C n S {i} P D" and i: "i \<in> set (all_nodes C)" "i \<notin> S" "\<not> is_input (nd C i)"
    and out: "outputs (nd D i) = []" "i \<in> unused C n"
  shows "\<exists>E. drop_node i D = Some E \<and> nd E = nd D \<and> remove_inv C n (insert i S) {} (map (\<lambda>j. (j, i)) (inputs (nd C i)) @ P) E"
proof -
  note I = remove_invD [OF inv]
  let ?P = "map (\<lambda>j. (j, i)) (inputs (nd C i)) @ P"
  have D: "i \<in> set (all_nodes D)" "\<not> is_input (nd D i)" "distinct (all_nodes D)"
    using i I(3) but_outputs_sel(3) [OF I(5)] C by (auto simp: wf_circuit_def)
  obtain E where E: "drop_node i D = Some E" "partition_ok E" "nd E = nd D" "all_nodes E = remove1 i (all_nodes D)"
    using drop_node_partition [OF I(4) D(1,2) out(1) D(3)] by blast
  have empty: "filter_mset (\<lambda>x. x \<notin> S) (mset (outputs (nd C i))) = {#}" "pending P i = {#}"
    using I(7) [OF i(1,2)] out(1) by (simp_all add: eq_commute [of "{#}"])
  from arg_cong [OF empty(1), of set_mset] have outS: "set (outputs (nd C i)) \<subseteq> S" by auto
  have "remove_inv C n (insert i S) {} ?P E"
    unfolding remove_inv_def
  proof (intro conjI ballI allI)
    show "n \<in> insert i S" using I(1) by simp
    show "insert i S \<subseteq> set (all_nodes C)" using I(2) i(1) by simp
    show "all_nodes E = filter (\<lambda>m. m \<notin> insert i S) (all_nodes C)"
      using E(4) I(3) C by (auto simp: distinct_remove1_removeAll wf_circuit_def removeAll_filter_not_eq intro: filter_cong)
    show "partition_ok E" by (fact E)
    show "but_outputs (nd E m) = but_outputs (nd C m)" for m using I(5) E(3) by simp
    show "case p of (j, x) \<Rightarrow> j \<in> set (all_nodes C) \<and> j \<notin> insert i S \<and> x \<in> insert i S \<and> x \<in> set (outputs (nd C j))" if pP: "p \<in> set ?P" for p
    proof (cases "p \<in> set P")
      case True
      then show ?thesis using I(6) [of "fst p" "snd p"] empty(2) by (auto simp: pending_empty)
    next
      case False
      then obtain j where j: "p = (j, i)" "j \<in> set (inputs (nd C i))" using pP by auto
      have jn: "j \<in> set (all_nodes C)" using wf_circuitD(1) [OF C i(1) j(2)] .
      have "i \<in> set (outputs (nd C j))" using wf_circuitD(4) [OF C i(1) jn] j(2) by simp
      moreover from this have "j \<notin> S" "j \<noteq> i" using I(10) i(2) outS by blast+
      ultimately show ?thesis using j(1) jn by simp
    qed
    show "mset (outputs (nd E m)) = filter_mset (\<lambda>x. x \<notin> insert i S) (mset (outputs (nd C m))) + pending ?P m"
      if "m \<in> set (all_nodes C) - insert i S" for m
    proof -
      have m: "m \<in> set (all_nodes C)" "m \<notin> S" using that by simp_all
      have "count_list (inputs (nd C i)) m = count (mset (outputs (nd C m))) i"
        using C i(1) m(1) by (simp add: wf_circuit_def count_mset_count_list)
      then have "filter_mset (\<lambda>x. x \<notin> S) (mset (outputs (nd C m))) =
          filter_mset (\<lambda>x. x \<notin> insert i S) (mset (outputs (nd C m))) + replicate_mset (count_list (inputs (nd C i)) m) i"
        using i(2) by (intro multiset_eqI) auto
      then show ?thesis using I(7) [OF m] E(3) by (simp add: pending_map)
    qed
    show "\<not> is_input (nd C m) \<and> \<not> is_output (nd C m) \<and> outputs (nd E m) = [] \<longrightarrow> outputs (nd C m) = []"
      if "m \<in> set (all_nodes C) - insert i S - {}" for m using I(8) [of m] that E(3) by auto
    show "m \<in> unused C n" "set (outputs (nd C m)) \<subseteq> insert i S" if "m \<in> insert i S" for m
      using that out(2) outS I(9,10) by auto
  qed
  then show ?thesis using E by blast
qed

lemma remove_inv_step:
  assumes inv: "remove_inv C n S {} ((i, x) # P) D" and E: "E = upd_node i (\<lambda>y. y\<lparr>outputs := remove1 x (outputs y)\<rparr>) D"
  shows "x \<in> set (outputs (nd D i))" "remove_inv C n S {i} P E" "i \<in> set (all_nodes C)" "i \<notin> S" "x \<in> set (outputs (nd C i))"
proof -
  note I = remove_invD [OF inv]
  show i: "i \<in> set (all_nodes C)" "i \<notin> S" "x \<in> set (outputs (nd C i))" using I(6) [of i x] by simp_all
  have "mset (outputs (nd D i)) = filter_mset (\<lambda>x. x \<notin> S) (mset (outputs (nd C i))) + pending ((i, x) # P) i" by (rule I(7) [OF i(1,2)])
  then have "x \<in># mset (outputs (nd D i))" by simp
  then show "x \<in> set (outputs (nd D i))" by simp
  show "remove_inv C n S {i} P E"
    unfolding remove_inv_def
  proof (intro conjI ballI allI)
    show "n \<in> S" "S \<subseteq> set (all_nodes C)" using I(1,2) .
    show "all_nodes E = filter (\<lambda>m. m \<notin> S) (all_nodes C)" using I(3) by (simp add: E)
    show "partition_ok E"
    proof -
      have "is_input (nd E m) = is_input (nd D m)" "my_cluster (nd E m) = my_cluster (nd D m)" for m by (simp_all add: E)
      then show ?thesis using I(4) unfolding partition_ok_def by (simp add: E)
    qed
    show "but_outputs (nd E m) = but_outputs (nd C m)" for m using I(5) [of m] by (cases "m = i") (simp_all add: E but_outputs_def)
    show "case p of (j, x) \<Rightarrow> j \<in> set (all_nodes C) \<and> j \<notin> S \<and> x \<in> S \<and> x \<in> set (outputs (nd C j))" if "p \<in> set P" for p
      using I(6) [of "fst p" "snd p"] that by (cases p) simp
    show "mset (outputs (nd E m)) = filter_mset (\<lambda>x. x \<notin> S) (mset (outputs (nd C m))) + pending P m" if "m \<in> set (all_nodes C) - S" for m
    proof -
      have "mset (outputs (nd D m)) = filter_mset (\<lambda>x. x \<notin> S) (mset (outputs (nd C m))) + pending ((i, x) # P) m"
        using I(7) [of m] that by blast
      then show ?thesis by (cases "m = i") (simp_all add: E)
    qed
    show "\<not> is_input (nd C m) \<and> \<not> is_output (nd C m) \<and> outputs (nd E m) = [] \<longrightarrow> outputs (nd C m) = []"
      if "m \<in> set (all_nodes C) - S - {i}" for m using I(8) [of m] that by (auto simp: E)
    show "m \<in> unused C n" "set (outputs (nd C m)) \<subseteq> S" if "m \<in> S" for m using I(9,10) [OF that] .
  qed
qed

lemma remove_inputs_correct:
  assumes "wf_circuit C" "remove_inv C n S {} P D"
  shows "\<exists>T E. remove_inputs P D = Some E \<and> remove_inv C n T {} [] E"
proof -
  define M where "M = measures [\<lambda>(S, P). card (set (all_nodes C) - S), \<lambda>(S, P). length (P :: (nat \<times> nat) list)]"
  have "\<forall>D. remove_inv C n (fst q) {} (snd q) D \<longrightarrow> (\<exists>T E. remove_inputs (snd q) D = Some E \<and> remove_inv C n T {} [] E)" for q
  proof (induction q rule: wf_induct [of M])
    case 1
    show ?case by (simp add: M_def)
  next
    case (2 q)
    obtain S P where q: "q = (S, P)" by (cases q)
    have IH: "\<exists>T E. remove_inputs P' D' = Some E \<and> remove_inv C n T {} [] E"
      if "((S', P'), (S, P)) \<in> M" "remove_inv C n S' {} P' D'" for S' P' D'
      using 2 [rule_format, of "(S', P')" D'] that q by simp
    have "\<exists>T E. remove_inputs P D = Some E \<and> remove_inv C n T {} [] E" if inv: "remove_inv C n S {} P D" for D
    proof (cases P)
      case Nil
      then show ?thesis using inv by (subst remove_inputs.simps) auto
    next
      case (Cons p Q)
      obtain i x where p: "p = (i, x)" by (cases p)
      let ?D = "upd_node i (\<lambda>y. y\<lparr>outputs := remove1 x (outputs y)\<rparr>) D"
      note step = remove_inv_step [OF inv [unfolded Cons p] refl]
      note I = remove_invD [OF step(2)]
      have same: "is_input (nd ?D i) = is_input (nd C i)" "is_output (nd ?D i) = is_output (nd C i)" "inputs (nd ?D i) = inputs (nd C i)"
        using but_outputs_sel(1,3) [OF I(5) [of i]] arg_cong [OF I(5) [of i], of is_output] by (simp_all add: but_outputs_def)
      show ?thesis
      proof (cases "outputs (nd ?D i) = [] \<and> \<not> is_input (nd C i) \<and> \<not> is_output (nd C i)")
        case True
        have "mset (outputs (nd ?D i)) = {#}" using True by (simp del: upd_node_sel)
        then have "filter_mset (\<lambda>x. x \<notin> S) (mset (outputs (nd C i))) = {#}" using I(7) [OF step(3,4)] by (simp del: upd_node_sel)
        from arg_cong [OF this, of set_mset] have "set (outputs (nd C i)) \<subseteq> S" by auto
        then have sub: "x \<in> unused C n" if "x \<in> set (outputs (nd C i))" for x using that I(9) by blast
        have "outputs (nd C i) \<noteq> []" using step(5) by auto
        from unused_inside [OF step(3) _ _ this sub] True have "i \<in> unused C n" by blast
        from remove_inv_drop [OF assms(1) step(2,3,4) _ _ this] True obtain E where E: "drop_node i ?D = Some E" "nd E = nd ?D"
          "remove_inv C n (insert i S) {} (map (\<lambda>j. (j, i)) (inputs (nd C i)) @ Q) E" by blast
        have "card (set (all_nodes C) - insert i S) < card (set (all_nodes C) - S)"
          using step(3,4) by (intro psubset_card_mono) auto
        then have "((insert i S, map (\<lambda>j. (j, i)) (inputs (nd C i)) @ Q), (S, P)) \<in> M" by (simp add: M_def)
        from IH [OF this E(3)] obtain T F where F: "remove_inputs (map (\<lambda>j. (j, i)) (inputs (nd C i)) @ Q) E = Some F" "remove_inv C n T {} [] F"
          by blast
        have "remove_inputs P D = Some F"
          using Cons p step(1) True same E(1,2) F(1) by (subst remove_inputs.simps) (simp add: Let_def del: upd_node_sel)
        then show ?thesis using F(2) by blast
      next
        case False
        have "remove_inv C n S {} Q ?D"
          using step(2) False unfolding remove_inv_def by (auto simp del: upd_node_sel)
        moreover have "((S, Q), (S, P)) \<in> M" using Cons by (simp add: M_def)
        ultimately obtain T F where F: "remove_inputs Q ?D = Some F" "remove_inv C n T {} [] F" using IH by blast
        have "remove_inputs P D = Some F"
          using Cons p step(1) False same F(1) by (subst remove_inputs.simps) (auto simp: Let_def simp del: upd_node_sel)
        then show ?thesis using F(2) by blast
      qed
    qed
    then show ?case using q by simp
  qed
  from this [of "(S, P)"] show ?thesis using assms(2) by simp
qed

section \<open>Properties\<close>

text \<open>
  C18: Called for a node without outputs that is no primary input, \<open>Remove\<close> ends without an error. It removes the node
  and everything inside the circuit that was used for it only, and nothing else: primary inputs and outputs stay, and so do nodes that had no outputs before. What is left is a
  well-formed circuit whose nodes are partitioned into clusters, with the inputs and covers as before.
\<close>

theorem Remove_correct:
  assumes "wf_circuit C" "partition_ok C" "n \<in> set (all_nodes C)" "\<not> is_input (nd C n)" "outputs (nd C n) = []"
  shows "\<exists>D. Remove n C = Some D \<and> wf_circuit D \<and> partition_ok D \<and>
    all_nodes D = filter (\<lambda>m. m \<notin> unused C n) (all_nodes C) \<and> (\<forall>m. but_outputs (nd D m) = but_outputs (nd C m))"
proof -
  have dist: "distinct (all_nodes C)" using assms(1) by (simp add: wf_circuit_def)
  from drop_node_partition [OF assms(2-5) dist] obtain B where B: "drop_node n C = Some B" "partition_ok B" "nd B = nd C"
    "all_nodes B = remove1 n (all_nodes C)" by blast
  let ?P = "map (\<lambda>j. (j, n)) (inputs (nd C n))"
  have cnt: "count (mset (outputs (nd C m))) n = count_list (inputs (nd C n)) m" if "m \<in> set (all_nodes C)" for m
    using assms(1,3) that by (simp add: wf_circuit_def count_mset_count_list)
  have self: "n \<notin> set (inputs (nd C n))" using wf_circuitD(4) [OF assms(1,3,3)] assms(5) by simp
  have "remove_inv C n {n} {} ?P B"
    unfolding remove_inv_def
  proof (intro conjI ballI allI)
    show "all_nodes B = filter (\<lambda>m. m \<notin> {n}) (all_nodes C)"
      using B(4) dist by (auto simp: distinct_remove1_removeAll removeAll_filter_not_eq intro: filter_cong)
    show "case p of (i, x) \<Rightarrow> i \<in> set (all_nodes C) \<and> i \<notin> {n} \<and> x \<in> {n} \<and> x \<in> set (outputs (nd C i))" if pP: "p \<in> set ?P" for p
    proof -
      obtain j where j: "p = (j, n)" "j \<in> set (inputs (nd C n))" using pP by auto
      have "j \<in> set (all_nodes C)" using wf_circuitD(1) [OF assms(1,3) j(2)] .
      then show ?thesis using j self wf_circuitD(4) [OF assms(1,3)] by auto
    qed
    show "mset (outputs (nd B m)) = filter_mset (\<lambda>x. x \<notin> {n}) (mset (outputs (nd C m))) + pending ?P m" if "m \<in> set (all_nodes C) - {n}" for m
      using cnt [of m] that B(3) by (intro multiset_eqI) (auto simp: pending_map)
    show "m \<in> unused C n" "set (outputs (nd C m)) \<subseteq> {n}" if "m \<in> {n}" for m using that unused_start assms(5) by auto
  qed (use assms B in auto)
  from remove_inputs_correct [OF assms(1) this] obtain S D where D: "remove_inputs ?P B = Some D" "remove_inv C n S {} [] D" by blast
  note I = remove_invD [OF D(2)]
  have out: "mset (outputs (nd D m)) = filter_mset (\<lambda>x. x \<notin> S) (mset (outputs (nd C m)))" if "m \<in> set (all_nodes C)" "m \<notin> S" for m
    using I(7) [OF that] by simp
  have "m \<in> S" if "m \<in> unused C n" for m
    using that
  proof (induction rule: unused.induct)
    case unused_start
    then show ?case using I(1) by simp
  next
    case (unused_inside m)
    show ?case
    proof (rule ccontr)
      assume m: "m \<notin> S"
      have "set (outputs (nd D m)) = {x \<in> set (outputs (nd C m)). x \<notin> S}"
        using arg_cong [OF out [OF unused_inside.hyps(1) m], of set_mset] by simp
      also have "\<dots> = {}" using unused_inside.IH by blast
      finally have "outputs (nd D m) = []" by simp
      then show False using I(8) [OF unused_inside.hyps(1) m] unused_inside.hyps by simp
    qed
  qed
  then have S: "S = unused C n" using I(9) by blast
  have net: "inputs (nd D m) = inputs (nd C m)" "is_input (nd D m) = is_input (nd C m)" for m using but_outputs_sel(1,3) [OF I(5)] .
  have nodes: "set (all_nodes D) = set (all_nodes C) - S" using I(3) by auto
  have "wf_circuit D"
    unfolding wf_circuit_def nodes
  proof (intro conjI ballI impI)
    show "distinct (all_nodes D)" using I(3) dist by simp
    fix m
    assume m: "m \<in> set (all_nodes C) - S"
    show "set (inputs (nd D m)) \<subseteq> set (all_nodes C) - S"
    proof
      fix k
      assume "k \<in> set (inputs (nd D m))"
      then have k: "k \<in> set (inputs (nd C m))" by (simp add: net)
      have kn: "k \<in> set (all_nodes C)" using wf_circuitD(1) [OF assms(1) _ k] m by simp
      have "m \<in> set (outputs (nd C k))" using wf_circuitD(4) [OF assms(1) _ kn] m k by blast
      then show "k \<in> set (all_nodes C) - S" using kn I(10) m by blast
    qed
    have mo: "set (outputs (nd D m)) = {x \<in> set (outputs (nd C m)). x \<notin> S}"
      using arg_cong [OF out, of m set_mset] m by simp
    then show "set (outputs (nd D m)) \<subseteq> set (all_nodes C) - S" using wf_circuitD(2) [OF assms(1)] m by blast
    show "inputs (nd D m) = []" if "is_input (nd D m)" using that wf_circuitD(3) [OF assms(1)] m by (simp add: net)
    show "count_list (inputs (nd D m)) k = count_list (outputs (nd D k)) m" if k: "k \<in> set (all_nodes C) - S" for k
    proof -
      have "count (mset (outputs (nd D k))) m = count (mset (outputs (nd C k))) m" using out [of k] k m by simp
      then show ?thesis using assms(1) m k by (simp add: net count_mset_count_list wf_circuit_def)
    qed
  qed
  moreover have "Remove n C = Some D" using B(1,3) D(1) by (simp add: Remove_def)
  ultimately show ?thesis using I(3,4,5) S by blast
qed

theorem Remove_witness:
  "\<exists>D. Remove 3 (InitCluster three_gates) = Some D \<and> all_nodes D = [0, 1, 4] \<and> all_clusters D = [2] \<and> outputs (nd D 0) = [4] \<and> partition_ok D"
proof -
  let ?C = "InitCluster three_gates"
  have cl: "wf_circuit ?C" "partition_ok ?C" using InitCluster_correct0(1) [of three_gates] three_gates_clusters(1) by (simp_all add: clustered_def)
  have net: "same_net three_gates ?C" using InitCluster_correct0(2) [of three_gates] three_gates_clusters(1) by simp
  note sel = same_net_sel [OF net] three_gates_net three_gates_sel three_gates_clusters
  have n: "3 \<in> set (all_nodes ?C)" "\<not> is_input (nd ?C 3)" "outputs (nd ?C 3) = []" using three_gates_sel(9) by (simp_all add: sel(1-5) three_gates_sel)
  from Remove_correct [OF cl n] obtain D where D: "Remove 3 ?C = Some D" "partition_ok D" by blast
  have "\<exists>D. Remove 3 ?C = Some D \<and> all_nodes D = [0, 1, 4] \<and> all_clusters D = [2] \<and> outputs (nd D 0) = [4]"
    using three_gates_sel(9,10) by (auto simp: Remove_def drop_node_def remove_inputs.simps sel)
  then show ?thesis using D by auto
qed

text \<open>
  \<open>Remove\<close> does not correct the inputs of the cluster that it takes a node from: the cluster can keep an input that is no longer in
  the circuit, here \<open>f\<close>, which was removed together with \<open>g\<close>, the only node of the cluster that used it.
\<close>

lemma Remove_stale:
  "\<exists>D. Remove 3 (Merge 2 1 (InitCluster three_gates)) = Some D \<and> 2 \<in> set (all_clusters D) \<and> 2 \<in> input_nodes (clu D 2) \<and> 2 \<notin> set (all_nodes D)"
proof -
  let ?C = "InitCluster three_gates" and ?M = "Merge 2 (Suc 0) (InitCluster three_gates)"
  have net: "same_net three_gates ?C" using InitCluster_correct0(2) [of three_gates] three_gates_clusters(1) by simp
  have mer: "same_net three_gates ?M" using same_net_trans [OF net Merge_same_net] .
  have out: "is_output (nd ?M n) = is_output (nd three_gates n)" for n
  proof -
    obtain c where "nd ?M n = (nd three_gates n)\<lparr>my_cluster := c\<rparr>" using mer unfolding same_net_def by blast
    then show ?thesis by simp
  qed
  have M: "nodes_c (clu ?M 2) = [4, 3]" "all_clusters ?M = [0, 2]" "input_nodes (clu ?M 2) = {0, Suc 0, 2}"
    "my_cluster (nd ?M 3) = 2" "my_cluster (nd ?M 2) = 0" "nodes_c (clu ?M 0) = [2]"
    by (auto simp: Merge_sel three_gates_clusters ins_of_def same_net_sel [OF net] three_gates_sel)
  have "\<exists>D. Remove 3 ?M = Some D \<and> 2 \<in> set (all_clusters D) \<and> 2 \<in> input_nodes (clu D 2) \<and> 2 \<notin> set (all_nodes D)"
    using three_gates_sel(9,10) M
    by (auto simp: Remove_def drop_node_def remove_inputs.simps same_net_sel [OF mer] out three_gates_sel)
  then show ?thesis by simp
qed

end
