(* ===== verification/Spec2Isabelle.thy ===== *)
theory Spec2Isabelle
  imports Kit_Canon Kit_Factor Sc_Greedy Circ_Remove
begin

text \<open>
  A verification development for msyn, a tool that resynthesises logic circuits. msyn finds signals
  from which a target function can be rebuilt by solving set cover problems
  (\<open>src/setcover\<close>), merges the nodes of a circuit into clusters with few inputs (\<open>src/circuit\<close>), and simplifies
  functions with the system ABC that it carries along, whose \<open>refactor\<close> command rests on the package
  \<open>abc/src/bool/kit\<close>. These three parts are modelled: the truth tables, covers and factored forms of \<open>kit\<close>, the bit
  vectors, the exact and the greedy set cover of msyn, and its circuits with their clusters.

  Conventions. Words are \<open>32 word\<close> and \<open>64 word\<close>, so that all arithmetic on them wraps as in the code; sizes and
  positions, which the code keeps in \<open>int\<close> and never makes negative, are \<open>nat\<close>. Arrays and vectors are lists. A
  routine that changes an object takes it and returns it changed. \<open>None\<close> is a call that has no result: it
  reads outside an array, an assertion fails, memory runs out, or it does not return. Where a definition leaves
  an assertion out, the text before it says so: these are bounds on the arguments that the theorems assume, and
  comparisons that a lemma proves to hold (as \<open>isop_asserts\<close> for \<open>Kit_TruthIsop\<close>). Loops over arrays are the
  combinators of \<open>Abc_Prelude\<close>; loops that end for a reason worth a proof are recursive functions with a
  measure; loops that may run forever are partial functions into \<open>option\<close>, of which the theorems prove that they
  return. Overloaded functions get a suffix (\<open>_list\<close>, \<open>_free\<close>, \<open>_all\<close>, \<open>_limit\<close>).

  Truth tables and covers (kit.h, kitTruth.c, kitIsop.c, kitGraph.c, kitSop.c, kitFactor.c).

    \<^item> \<open>Abc_Prelude\<close>, \<open>Word_Fields\<close>: loops, bits of indices, counting by adding fields of a word.
    \<^item> \<open>Kit_Words\<close>, \<open>Kit_Truth\<close>, \<open>Kit_Symm\<close>, \<open>Kit_Swap\<close>, \<open>Kit_Count\<close>, \<open>Kit_Canon\<close>: the operations on truth tables.
      Each is described by the value of the result on every minterm. \<open>Kit_TruthCountMinterms\<close> has its assertions in
      the model: it returns for 5 to 20 variables and at most 246 ones, and stops at one of them for the constant 1
      of eight variables. A table is a list of 32-bit words, variables 0
      to 4 live inside a word and the others select words.
    \<^item> \<open>Kit_Cubes\<close>, \<open>Kit_Isop\<close>: cubes as words with two bits per variable, and irredundant prime covers by the
      recursion of Minato and Morreale; \<open>isop_step\<close> is its step, proved once for both routines.
    \<^item> \<open>Kit_Graph\<close>: factored forms as arrays of AND nodes. \<open>gate_builder\<close> is the interface between
      those who build graphs and the constructors.
    \<^item> \<open>Kit_Sop\<close>, \<open>Kit_Divide\<close>, \<open>Kit_Factor\<close>: covers as sets of literals, algebraic division, kernels, and factoring
      of a cover into a graph, with \<open>Kit_TruthToGraph\<close> on top of all of it.

  Bounds. The recursive procedures of factoring run with fuel twice the number of literals of the cover, which
  suffices since the quotient, the divisor and the remainder have together fewer literals. The memory
  of factoring is at most \<open>(7 N + 2) L\<close> words for \<open>N\<close> cubes and \<open>L\<close> literals, that of a cover \<open>isop_need\<close>, and both stay below
  the limits of the code for all functions of up to 7 and up to 11 variables.

  Set cover (bitop.h, bitop.cpp, setcover.h, setcover.cpp, setcover_m.h, setcover_m.cpp).

    \<^item> \<open>Sc_Bitvector\<close>: the class \<open>bitvector\<close>. \<open>bv_ok\<close> is its invariant (the counter is the number of ones, nothing is
      set behind the size), \<open>bv_set\<close> the set it stands for. The word that \<open>next_set\<close> reads behind the array is the
      parameter \<open>oob\<close> of all definitions that call it.
    \<^item> \<open>Sc_Cover\<close>: the covering test on words, the removal of covered rows, the searches for two, three and four
      columns. The locale \<open>row_vectors\<close> is the interface to the bit vectors.
    \<^item> \<open>Sc_Sort\<close>: the two quicksorts with their explicit stacks.
    \<^item> \<open>Sc_Reduce\<close>: dropping redundant columns, replacing two or three by one, replacing one by a lighter one.
      \<open>improves\<close> and \<open>lightens\<close> say what the passes keep, \<open>irredundant\<close>, \<open>settled\<close> and \<open>settled11\<close> what they reach.
    \<^item> \<open>Sc_Solve\<close>: the class \<open>setcover\<close>: the matrix (\<open>sc_ok\<close>: rows and columns agree), the exclusion and inclusion of
      signals, the loop that selects columns (\<open>run_ok\<close>: the working copies are the matrix without the covered rows;
      \<open>progress\<close>: every turn covers more rows or finds a cover), the three solvers and the two weight
      optimisations. A signal is an address; its weight is given by a function.
    \<^item> \<open>Sc_Greedy\<close>: the class \<open>setcover_m\<close>. The locale \<open>greedy_choice\<close> has the bound on the number of
      choices; the class is its instance.

  Circuits (node.h, node.cpp, nodemerge.cpp, one function of patchgen.cpp).

    \<^item> \<open>Circ_Cone\<close>: nodes, clusters and circuits as objects on two heaps, and the searches for fanin and fanout cones. A
      search is a worklist loop that might not end; \<open>cone_search\<close> is the contract of all of them, with
      reachability as what they find. \<open>wf_circuit\<close> is the invariant of circuits: inputs and outputs agree.
    \<^item> \<open>Circ_Cluster\<close>: the partition into clusters (\<open>clustered\<close>), merging of two clusters, and the loops of \<open>QuickMerge\<close> and
      \<open>FaninMerge\<close>. \<open>clusters_grown\<close> says what every merging keeps, \<open>keeps\<close> what merging of unrelated clusters keeps in
      addition: no combinational cycle arises, and clusters that were full stay full.
    \<^item> \<open>Circ_Target\<close>: the orders of nodes, cutting targets from the circuit and restoring them (\<open>cut\<close> is the circuit in
      between), new inputs for a target, and the candidates for them.
    \<^item> \<open>Circ_Remove\<close>: taking unused nodes out of the circuit. The recursion of the code is a list of pending calls;
      \<open>remove_inv\<close> relates what is left to the original circuit, \<open>unused\<close> is what has to go. The inputs of the clusters are not
      kept up to date by the code, so that only the partition survives (\<open>Remove_stale\<close>).

  How the parts meet. \<open>SolveMinCol\<close> runs \<open>InExcludeSigs\<close>, \<open>SortCol\<close>, the loop with the searches of \<open>Sc_Cover\<close>, and the
  passes of \<open>Sc_Reduce\<close> with \<open>SortWei\<close> between them; its theorem therefore needs the termination of the passes, which fails for
  excluded candidates and for odd solutions with a column that covers everything: the proof shows that
  neither occurs when nothing is included. \<open>Kit_TruthToGraph\<close> runs \<open>Kit_TruthIsop\<close>, whose covers are antichains, as
  \<open>Kit_SopFactor\<close> needs. \<open>InitCand\<close> gives \<open>Restruct\<close> inputs that do not depend on the target, which is what
  \<open>Restruct_correct\<close> asks of them; \<open>QuickMerge\<close> and \<open>InitCand\<close> rest on the searches. The solver that chooses between the
  candidates lies between these steps and is not modelled, so that \<open>SelectMerge\<close> itself is left out.

  The number of rows. For a multiple of 64 rows the covering test of the code accepts sets of columns that leave
  the last 64 rows open; the theorems on reductions and solvers assume another number of rows (\<open>problem_ok\<close>), and
  \<open>IsSolutionLite_correct\<close> says exactly what happens otherwise.

  Not modelled. Of \<open>kit\<close>: hashing and printing (no contract), the disjoint-support decomposition, and the interfaces
  to PLA strings, AIGs, BDDs and the cloud package, which are conversions to other packages. Of the set cover:
  \<open>ReduceWeightReplace22\<close>, whose only call is commented out and which stops by the clock, the overloads at the end of
  setcover.cpp that nothing calls, and output. Of the circuits: \<open>PurgeCircuit\<close>, sorting by \<open>std::sort\<close>, files, and
  what nothing calls. Of msyn: the selection by the SAT solver, minimal cuts (the Boost graph
  library), CNF generation and the patch search (the Glucose solver), and the main program. Of ABC: everything but \<open>kit\<close>, which
  msyn reaches only through whole commands.
\<close>

end
